(* ===== verification/Prelude.thy ===== *)
theory Prelude
  imports Main "HOL-Library.Monad_Syntax" "HOL-Library.Word"
begin

text \<open>
  Shared vocabulary of the development: the types that stand for addresses and time, the option
  monad in which the operations are written, and the list lemmas the components use.

  An operation of the library that can only be used under a precondition the source checks with
  \<^verbatim>\<open>BOOST_ASSERT\<close>, or that would be undefined behaviour (a null pointer is dereferenced,
  \<^verbatim>\<open>deque::erase\<close> is applied to \<^verbatim>\<open>end()\<close>), returns \<open>None\<close> there. A theorem
  that an operation returns \<open>Some\<close> therefore says that no assertion fails, no pointer is
  dereferenced wrongly and every loop ends. C++ exceptions are ordinary values (see
  \<open>Exceptions\<close>).
\<close>

section \<open>Addresses, clocks and machine integers\<close>

text \<open>
  A \<open>fid\<close> is the address of a \<^verbatim>\<open>worker_fiber\<close> object, an \<open>mfid\<close> the address of a
  \<^verbatim>\<open>main_fiber\<close> object on the stack of a thread's main context, a \<open>wqid\<close> the address of a
  \<^verbatim>\<open>waiting_queue\<close>. A pointer that may be null is an \<open>option\<close>.
\<close>

type_synonym fid = nat
type_synonym mfid = nat
type_synonym wqid = nat

text \<open>
  \<^verbatim>\<open>clock_type::time_point\<close> counts ticks in a signed 64-bit representation; only its order and
  its greatest value matter to the scheduler. They are unbounded here, so \<^verbatim>\<open>now + d\<close> does not overflow:
  a duration whose sum with the present time is out of range, undefined in the code, is outside the
  model. \<^verbatim>\<open>std::size_t\<close> counters keep their width.
\<close>

type_synonym time_point = int
type_synonym duration = int
type_synonym size_t = "64 word"
type_synonym flags_t = "32 word"

definition time_point_max :: time_point where
  "time_point_max = 9223372036854775807"

section \<open>Assertions in the option monad\<close>

definition assert_that :: "bool \<Rightarrow> unit option" where
  "assert_that b = (if b then Some () else None)"

lemma assert_that_simps [simp]:
  "assert_that True = Some ()"
  "assert_that False = None"
  by (simp_all add: assert_that_def)

lemma assert_that_eq_Some [simp]: "assert_that b = Some u \<longleftrightarrow> b"
  by (simp add: assert_that_def)

lemma assert_that_eq_None [simp]: "assert_that b = None \<longleftrightarrow> \<not> b"
  by (simp add: assert_that_def)

lemma assert_that_bind: "assert_that b \<bind> f = (if b then f () else None)"
  by (simp add: assert_that_def)

section \<open>The ends of a list as pointers\<close>

text \<open>
  The queues of the library are chains of objects addressed by a head and a tail pointer.
  \<open>hd_or d xs\<close> is the address a pointer to the first element holds, \<open>d\<close> being what it
  holds when the chain is empty; \<open>last_or\<close> is its mirror image for the tail.
\<close>

fun hd_or :: "'a option \<Rightarrow> 'a list \<Rightarrow> 'a option" where
  "hd_or d [] = d"
| "hd_or d (x # xs) = Some x"

fun last_or :: "'a option \<Rightarrow> 'a list \<Rightarrow> 'a option" where
  "last_or d [] = d"
| "last_or d (x # xs) = last_or (Some x) xs"

lemma hd_or_append [simp]: "hd_or d (xs @ ys) = hd_or (hd_or d ys) xs"
  by (cases xs) simp_all

lemma last_or_append [simp]: "last_or d (xs @ ys) = last_or (last_or d xs) ys"
  by (induction d xs rule: last_or.induct) auto

lemma hd_or_None_iff [simp]: "hd_or None xs = None \<longleftrightarrow> xs = []"
  by (cases xs) auto

lemma last_or_conv: "last_or d xs = (if xs = [] then d else Some (last xs))"
  by (induction d xs rule: last_or.induct) auto

lemma last_or_None_iff [simp]: "last_or None xs = None \<longleftrightarrow> xs = []"
  by (simp add: last_or_conv)

lemma hd_or_SomeD: "hd_or None xs = Some x \<Longrightarrow> \<exists>ys. xs = x # ys"
  by (cases xs) auto

lemma hd_or_in_set: "hd_or None xs = Some x \<Longrightarrow> x \<in> set xs"
  by (cases xs) auto

lemma last_or_in_set: "last_or None xs = Some x \<Longrightarrow> x \<in> set xs"
  by (auto simp: last_or_conv split: if_splits)

section \<open>Prefixes selected by a predicate\<close>

lemma takeWhile_dropWhile_split:
  assumes "\<forall>x \<in> set xs. P x" and "ys = [] \<or> \<not> P (hd ys)"
  shows "takeWhile P (xs @ ys) = xs" and "dropWhile P (xs @ ys) = ys"
  using assms by (induction xs; cases ys; auto)+

lemma distinct_remove1_Cons:
  "distinct xs \<Longrightarrow> x \<in> set xs \<Longrightarrow> distinct (x # remove1 x xs)"
  by simp

section \<open>Collections of simplification rules\<close>

text \<open>
  \<open>heap_simps\<close> unfolds the one-field setters of the fiber store; \<open>world_simps\<close> the
  operations that only rearrange the record of the scheduler's world.
\<close>

named_theorems heap_simps "one-field updates of a fiber in the store"
named_theorems world_simps "operations on the scheduler's world, unfolded"

end
