(* ===== verification/Exceptions.thy ===== *)
theory Exceptions
  imports Prelude
begin

text \<open>
  The exceptions the library throws (\<^verbatim>\<open>exceptions.hpp\<close>, \<^verbatim>\<open>src/future.cpp\<close>) and the
  exceptions that travel through it: what a user's function throws, the \<^verbatim>\<open>runtime_error\<close> of
  the standard library, the \<^verbatim>\<open>system_error\<close> of Boost.System and the \<^verbatim>\<open>forced_unwind\<close> of Boost.Coroutine. A value of type \<open>exn\<close> is an
  \<^verbatim>\<open>exception_ptr\<close> that is not null: \<^verbatim>\<open>set_exception\<close> does not test its argument, and a promise
  that is given a null pointer becomes ready with neither exception nor value; this call is not
  part of the model.
\<close>

section \<open>Error numbers\<close>

text \<open>The members of \<^verbatim>\<open>boost::system::errc\<close> the library uses; \<open>errc_value\<close> is any other number.\<close>

datatype errc =
    errc_success
  | errc_invalid_argument
  | errc_interrupted
  | errc_resource_deadlock_would_occur
  | errc_resource_unavailable_try_again
  | errc_value int

datatype future_errc =
    errc_broken_promise
  | errc_future_already_retrieved
  | errc_promise_already_satisfied
  | errc_no_state

text \<open>The enumeration starts at 1 and counts up.\<close>

fun future_errc_value :: "future_errc \<Rightarrow> int" where
  "future_errc_value errc_broken_promise = 1"
| "future_errc_value errc_future_already_retrieved = 2"
| "future_errc_value errc_promise_already_satisfied = 3"
| "future_errc_value errc_no_state = 4"

text \<open>\<^verbatim>\<open>future_error_category::message\<close>: the switch on the number and the text after it.\<close>

definition future_category_message :: "int \<Rightarrow> string" where
  "future_category_message ev =
     (if ev = future_errc_value errc_broken_promise then
        ''The associated promise has been destructed prior to the associated state becoming ready.''
      else if ev = future_errc_value errc_future_already_retrieved then
        ''The future has already been retrieved from the promise or packaged_task.''
      else if ev = future_errc_value errc_promise_already_satisfied then
        ''The state of the promise has already been set.''
      else if ev = future_errc_value errc_no_state then
        ''Operation not permitted on an object without an associated state.''
      else ''unspecified future_errc value'' @ [CHR 0x0A])"

definition future_category_name :: string where
  "future_category_name = ''future''"

text \<open>An \<^verbatim>\<open>error_code\<close> is a number and the category that reads it.\<close>

datatype category = system_category | future_category

type_synonym error_code = "int \<times> category"

definition make_error_code :: "future_errc \<Rightarrow> error_code" where
  "make_error_code e = (future_errc_value e, future_category)"

section \<open>The exception classes\<close>

datatype exn =
    fiber_exception errc string
  | condition_error errc string
  | lock_error errc string
  | fiber_resource_error errc string
  | invalid_argument errc string
  | fiber_interrupted
  | future_uninitialized
  | future_already_retrieved
  | broken_promise
  | promise_already_satisfied
  | promise_uninitialized
  | packaged_task_uninitialized
  | system_error error_code
  | forced_unwind
  | runtime_error string
  | user_exception nat

text \<open>The number each class hands to the constructor of its base class.\<close>

fun native_error :: "exn \<Rightarrow> errc option" where
  "native_error (fiber_exception e w) = Some e"
| "native_error (condition_error e w) = Some e"
| "native_error (lock_error e w) = Some e"
| "native_error (fiber_resource_error e w) = Some e"
| "native_error (invalid_argument e w) = Some e"
| "native_error fiber_interrupted = Some errc_interrupted"
| "native_error _ = None"

fun future_error_code :: "exn \<Rightarrow> error_code option" where
  "future_error_code future_uninitialized = Some (make_error_code errc_no_state)"
| "future_error_code future_already_retrieved = Some (make_error_code errc_future_already_retrieved)"
| "future_error_code broken_promise = Some (make_error_code errc_broken_promise)"
| "future_error_code promise_already_satisfied = Some (make_error_code errc_promise_already_satisfied)"
| "future_error_code promise_uninitialized = Some (make_error_code errc_no_state)"
| "future_error_code packaged_task_uninitialized = Some (make_error_code errc_no_state)"
| "future_error_code _ = None"

text \<open>\<^verbatim>\<open>future_error::what\<close>: the message of the stored code.\<close>

definition future_error_what :: "exn \<Rightarrow> string option" where
  "future_error_what e =
     (case future_error_code e of None \<Rightarrow> None | Some (ev, c) \<Rightarrow> Some (future_category_message ev))"

section \<open>Facts about the codes\<close>

lemma future_errc_value_inj: "future_errc_value a = future_errc_value b \<longleftrightarrow> a = b"
  by (cases a; cases b) auto

lemma future_category_message_inj:
  "future_category_message (future_errc_value a) = future_category_message (future_errc_value b)
     \<longleftrightarrow> a = b"
  by (cases a; cases b) (simp_all add: future_category_message_def)

text \<open>
  Results of operations that may throw: \<open>Inl\<close> is the exception that leaves the operation.
\<close>

type_synonym 'a result = "exn + 'a"

end
