(* ===== verification/Spinlock.thy ===== *)
theory Spinlock
  imports Prelude
begin

text \<open>
  The test-and-set spin lock (\<^verbatim>\<open>detail/spinlock.hpp\<close>, \<^verbatim>\<open>src/detail/spinlock.cpp\<close>) that
  every synchronisation object takes around its own data.

  Two views of it are needed. Inside one thread, fibers switch only where they call into the
  scheduler, so a critical section that contains no such call runs without interference:
  \<open>spin_lock\<close> is the effect of \<^verbatim>\<open>lock()\<close> there (\<open>None\<close> if the lock is held,
  because the call would then spin for ever; a fiber that spins calls \<^verbatim>\<open>yield\<close> of the scheduler, so the
  other fibers of its thread go on, which this view leaves out: in the histories of the systems below
  no fiber meets a lock that is held). Between threads the two reads of \<^verbatim>\<open>state_\<close>
  (the spinning load and the exchange) interleave: \<open>spin_step\<close> takes one of them at a time.
\<close>

section \<open>The lock of one thread\<close>

datatype lock_state = LOCKED | UNLOCKED

definition spinlock_init :: lock_state where
  "spinlock_init = UNLOCKED"

definition spin_lock :: "lock_state \<Rightarrow> lock_state option" where
  "spin_lock s = (if s = LOCKED then None else Some LOCKED)"

definition spin_unlock :: "lock_state \<Rightarrow> lock_state option" where
  "spin_unlock s = do { assert_that (s = LOCKED); Some UNLOCKED }"

lemma spin_lock_simps [simp]:
  "spin_lock UNLOCKED = Some LOCKED"
  "spin_lock LOCKED = None"
  by (simp_all add: spin_lock_def)

lemma spin_unlock_simps [simp]:
  "spin_unlock LOCKED = Some UNLOCKED"
  "spin_unlock UNLOCKED = None"
  by (simp_all add: spin_unlock_def)

lemma spin_lock_eq_Some: "spin_lock s = Some t \<longleftrightarrow> s = UNLOCKED \<and> t = LOCKED"
  by (cases s) auto

lemma spin_unlock_eq_Some: "spin_unlock s = Some t \<longleftrightarrow> s = LOCKED \<and> t = UNLOCKED"
  by (cases s) auto

section \<open>The lock between threads\<close>

text \<open>
  A thread in \<^verbatim>\<open>lock()\<close> is either about to load \<^verbatim>\<open>state_\<close> (the inner
  \<^verbatim>\<open>while ( LOCKED == state_)\<close>, whose body yields and changes nothing) or about to
  exchange it; after the exchange it holds the lock or goes round again.
\<close>

datatype spin_pc = Outside | Loading | Exchanging | Holding

record spin_sys =
  spin_state :: lock_state
  spin_pcs :: "nat \<Rightarrow> spin_pc"

definition spin_sys_init :: spin_sys where
  "spin_sys_init = \<lparr>spin_state = spinlock_init, spin_pcs = (\<lambda>_. Outside)\<rparr>"

inductive spin_step :: "spin_sys \<Rightarrow> spin_sys \<Rightarrow> bool" where
  enter: "spin_pcs s t = Outside \<Longrightarrow>
     spin_step s (s\<lparr>spin_pcs := (spin_pcs s)(t := Loading)\<rparr>)"
| spin: "spin_pcs s t = Loading \<Longrightarrow> spin_state s = LOCKED \<Longrightarrow> spin_step s s"
| released: "spin_pcs s t = Loading \<Longrightarrow> spin_state s = UNLOCKED \<Longrightarrow>
     spin_step s (s\<lparr>spin_pcs := (spin_pcs s)(t := Exchanging)\<rparr>)"
| won: "spin_pcs s t = Exchanging \<Longrightarrow> spin_state s = UNLOCKED \<Longrightarrow>
     spin_step s (s\<lparr>spin_state := LOCKED, spin_pcs := (spin_pcs s)(t := Holding)\<rparr>)"
| lost: "spin_pcs s t = Exchanging \<Longrightarrow> spin_state s = LOCKED \<Longrightarrow>
     spin_step s (s\<lparr>spin_state := LOCKED, spin_pcs := (spin_pcs s)(t := Loading)\<rparr>)"
| unlock: "spin_pcs s t = Holding \<Longrightarrow> spin_unlock (spin_state s) = Some l \<Longrightarrow>
     spin_step s (s\<lparr>spin_state := l, spin_pcs := (spin_pcs s)(t := Outside)\<rparr>)"

inductive spin_reachable :: "spin_sys \<Rightarrow> bool" where
  start: "spin_reachable spin_sys_init"
| step: "spin_reachable s \<Longrightarrow> spin_step s s' \<Longrightarrow> spin_reachable s'"

text \<open>
  At most one thread holds the lock, and it is held exactly when \<^verbatim>\<open>state_\<close> says so.
\<close>

definition spin_inv :: "spin_sys \<Rightarrow> bool" where
  "spin_inv s \<longleftrightarrow>
     (\<forall>t u. spin_pcs s t = Holding \<longrightarrow> spin_pcs s u = Holding \<longrightarrow> t = u) \<and>
     (spin_state s = LOCKED \<longleftrightarrow> (\<exists>t. spin_pcs s t = Holding))"

lemma spin_inv_init: "spin_inv spin_sys_init"
  by (simp add: spin_inv_def spin_sys_init_def spinlock_init_def)

lemma spin_inv_step: "spin_step s s' \<Longrightarrow> spin_inv s \<Longrightarrow> spin_inv s'"
proof (induction rule: spin_step.induct)
  case (enter s t)
  then show ?case by (auto simp: spin_inv_def) (metis spin_pc.distinct(5))
next
  case (spin s t)
  then show ?case by simp
next
  case (released s t)
  then show ?case by (auto simp: spin_inv_def)
next
  case (won s t)
  then show ?case by (auto simp: spin_inv_def)
next
  case (lost s t)
  then show ?case by (auto simp: spin_inv_def) (metis spin_pc.distinct(11))
next
  case (unlock s t l)
  then show ?case by (auto simp: spin_inv_def spin_unlock_eq_Some)
qed

lemma spin_reachable_inv: "spin_reachable s \<Longrightarrow> spin_inv s"
  by (induction rule: spin_reachable.induct) (auto intro: spin_inv_init spin_inv_step)

end
