(* ===== verification/Worker_Fiber.thy ===== *)
theory Worker_Fiber
  imports Exceptions Spinlock
begin

text \<open>
  The control block of a fiber (\<^verbatim>\<open>detail/worker_fiber.hpp\<close>, \<^verbatim>\<open>src/detail/worker_fiber.cpp\<close>,
  \<^verbatim>\<open>detail/flags.hpp\<close>, \<^verbatim>\<open>detail/fiber_base.hpp\<close>): its record, the store of all control
  blocks, and the operations that touch one block only. \<^verbatim>\<open>set_ready\<close> also reorders the
  waiting queue the fiber sits in and is defined with that queue.
\<close>

unbundle bit_operations_syntax

section \<open>The data of a fiber\<close>

datatype fiber_state = READY | RUNNING | WAITING | TERMINATED

text \<open>
  A fiber-specific value: the data pointer (0 is null) and the clean-up function that owns it.
\<close>

record fss_data =
  fss_vp :: nat
  fss_cleanup_function :: nat

text \<open>
  \<open>wf_callee\<close> says whether the pointer to the coroutine's \<^verbatim>\<open>yield_type\<close> is set and
  \<open>wf_caller\<close> whether the fiber still owns its coroutine. The map of fiber-specific data is
  the list of its entries in key order, as \<^verbatim>\<open>std::map\<close> iterates them. \<open>wf_phead\<close> and
  \<open>wf_ptail\<close> name the waiting queue whose \<^verbatim>\<open>head_\<close> and \<^verbatim>\<open>tail_\<close> fields they point to.
\<close>

record worker_fiber =
  wf_fss :: "(nat \<times> fss_data) list"
  wf_prev :: "fid option"
  wf_nxt :: "fid option"
  wf_tp :: time_point
  wf_callee :: bool
  wf_caller :: bool
  wf_state :: fiber_state
  wf_flags :: flags_t
  wf_priority :: int
  wf_except :: "exn option"
  wf_splk :: lock_state
  wf_waiting :: "fid list"
  wf_phead :: "wqid option"
  wf_ptail :: "wqid option"

text \<open>All control blocks, by address.\<close>

type_synonym heap = "fid \<Rightarrow> worker_fiber"

text \<open>The constructor: the caller has set up the coroutine, so its \<^verbatim>\<open>yield_type\<close> exists.\<close>

definition worker_fiber_init :: worker_fiber where
  "worker_fiber_init =
     \<lparr>wf_fss = [], wf_prev = None, wf_nxt = None, wf_tp = time_point_max,
      wf_callee = True, wf_caller = False, wf_state = READY, wf_flags = 0, wf_priority = 0,
      wf_except = None, wf_splk = spinlock_init, wf_waiting = [],
      wf_phead = None, wf_ptail = None\<rparr>"

text \<open>The destructor asserts that the fiber has run to its end and nobody waits for it.\<close>

definition worker_fiber_dtor :: "worker_fiber \<Rightarrow> unit option" where
  "worker_fiber_dtor r = do {
     assert_that (wf_state r = TERMINATED);
     assert_that (wf_waiting r = []) }"

section \<open>Identities\<close>

text \<open>
  \<^verbatim>\<open>fiber_base::id\<close> wraps the address of a control block, null for "not any fiber"; its
  comparison operators compare the addresses.
\<close>

datatype fiber_id = Fiber_id (id_impl: "fid option")

definition no_id :: fiber_id where
  "no_id = Fiber_id None"

definition id_valid :: "fiber_id \<Rightarrow> bool" where
  "id_valid i \<longleftrightarrow> id_impl i \<noteq> None"

definition id_less :: "fiber_id \<Rightarrow> fiber_id \<Rightarrow> bool" where
  "id_less i j \<longleftrightarrow>
     (case (id_impl i, id_impl j) of
        (_, None) \<Rightarrow> False
      | (None, Some _) \<Rightarrow> True
      | (Some a, Some b) \<Rightarrow> a < b)"

definition id_less_eq :: "fiber_id \<Rightarrow> fiber_id \<Rightarrow> bool" where
  "id_less_eq i j \<longleftrightarrow> \<not> id_less j i"

instantiation fiber_id :: linorder
begin

definition less_fiber_id where
  "less_fiber_id = id_less"

definition less_eq_fiber_id where
  "less_eq_fiber_id = id_less_eq"

instance
  by standard
    (auto simp: less_fiber_id_def less_eq_fiber_id_def id_less_def id_less_eq_def split: option.splits
      intro: fiber_id.expand)

end

definition get_id :: "fid \<Rightarrow> fiber_id" where
  "get_id f = Fiber_id (Some f)"

lemma get_id_simps [simp]:
  "get_id f = get_id g \<longleftrightarrow> f = g"
  "get_id f \<noteq> no_id"
  "no_id \<noteq> get_id f"
  "id_valid (get_id f)"
  "\<not> id_valid no_id"
  by (simp_all add: get_id_def no_id_def id_valid_def)

section \<open>Setters of the links and of the deadline\<close>

definition next_set :: "fid \<Rightarrow> fid option \<Rightarrow> heap \<Rightarrow> heap" where
  [heap_simps]: "next_set f v h = h(f := (h f)\<lparr>wf_nxt := v\<rparr>)"

definition next_reset :: "fid \<Rightarrow> heap \<Rightarrow> heap" where
  [heap_simps]: "next_reset f h = h(f := (h f)\<lparr>wf_nxt := None\<rparr>)"

definition prev_set :: "fid \<Rightarrow> fid option \<Rightarrow> heap \<Rightarrow> heap" where
  [heap_simps]: "prev_set f v h = h(f := (h f)\<lparr>wf_prev := v\<rparr>)"

definition prev_reset :: "fid \<Rightarrow> heap \<Rightarrow> heap" where
  [heap_simps]: "prev_reset f h = h(f := (h f)\<lparr>wf_prev := None\<rparr>)"

definition time_point_set :: "fid \<Rightarrow> time_point \<Rightarrow> heap \<Rightarrow> heap" where
  [heap_simps]: "time_point_set f t h = h(f := (h f)\<lparr>wf_tp := t\<rparr>)"

definition time_point_reset :: "fid \<Rightarrow> heap \<Rightarrow> heap" where
  [heap_simps]: "time_point_reset f h = h(f := (h f)\<lparr>wf_tp := time_point_max\<rparr>)"

definition attach_queue :: "fid \<Rightarrow> wqid \<Rightarrow> heap \<Rightarrow> heap" where
  [heap_simps]: "attach_queue f q h = h(f := (h f)\<lparr>wf_phead := Some q, wf_ptail := Some q\<rparr>)"

definition detach_queue :: "fid \<Rightarrow> heap \<Rightarrow> heap" where
  [heap_simps]: "detach_queue f h = h(f := (h f)\<lparr>wf_phead := None, wf_ptail := None\<rparr>)"

definition priority_set :: "fid \<Rightarrow> int \<Rightarrow> heap \<Rightarrow> heap" where
  [heap_simps]: "priority_set f p h = h(f := (h f)\<lparr>wf_priority := p\<rparr>)"

definition set_exception :: "fid \<Rightarrow> exn option \<Rightarrow> heap \<Rightarrow> heap" where
  [heap_simps]: "set_exception f e h = h(f := (h f)\<lparr>wf_except := e\<rparr>)"

section \<open>The life cycle\<close>

definition is_ready :: "heap \<Rightarrow> fid \<Rightarrow> bool" where
  [heap_simps]: "is_ready h f \<longleftrightarrow> wf_state (h f) = READY"

definition is_running :: "heap \<Rightarrow> fid \<Rightarrow> bool" where
  [heap_simps]: "is_running h f \<longleftrightarrow> wf_state (h f) = RUNNING"

definition is_waiting :: "heap \<Rightarrow> fid \<Rightarrow> bool" where
  [heap_simps]: "is_waiting h f \<longleftrightarrow> wf_state (h f) = WAITING"

definition is_terminated :: "heap \<Rightarrow> fid \<Rightarrow> bool" where
  [heap_simps]: "is_terminated h f \<longleftrightarrow> wf_state (h f) = TERMINATED"

text \<open>\<^verbatim>\<open>state_.exchange\<close>: the new state is stored and the old one returned.\<close>

definition exchange_state :: "fid \<Rightarrow> fiber_state \<Rightarrow> heap \<Rightarrow> fiber_state \<times> heap" where
  [heap_simps]: "exchange_state f s h = (wf_state (h f), h(f := (h f)\<lparr>wf_state := s\<rparr>))"

definition set_terminated :: "fid \<Rightarrow> heap \<Rightarrow> heap option" where
  "set_terminated f h =
     (let (previous, h') = exchange_state f TERMINATED h
      in do { assert_that (previous = RUNNING); Some h' })"

definition set_running :: "fid \<Rightarrow> heap \<Rightarrow> heap option" where
  "set_running f h =
     (let (previous, h') = exchange_state f RUNNING h
      in do { assert_that (previous = READY); Some h' })"

definition set_waiting :: "fid \<Rightarrow> heap \<Rightarrow> heap option" where
  "set_waiting f h =
     (let (previous, h') = exchange_state f WAITING h
      in do { assert_that (previous = RUNNING); Some h' })"

lemma set_state_conv:
  "set_terminated f h =
     (if wf_state (h f) = RUNNING then Some (h(f := (h f)\<lparr>wf_state := TERMINATED\<rparr>)) else None)"
  "set_running f h =
     (if wf_state (h f) = READY then Some (h(f := (h f)\<lparr>wf_state := RUNNING\<rparr>)) else None)"
  "set_waiting f h =
     (if wf_state (h f) = RUNNING then Some (h(f := (h f)\<lparr>wf_state := WAITING\<rparr>)) else None)"
  by (simp_all add: set_terminated_def set_running_def set_waiting_def exchange_state_def)

section \<open>Flags\<close>

definition flag_interruption_blocked :: flags_t where
  "flag_interruption_blocked = push_bit 0 1"

definition flag_interruption_requested :: flags_t where
  "flag_interruption_requested = push_bit 1 1"

definition flag_thread_affinity :: flags_t where
  "flag_thread_affinity = push_bit 2 1"

definition flag_detached :: flags_t where
  "flag_detached = push_bit 3 1"

lemmas flag_defs =
  flag_interruption_blocked_def flag_interruption_requested_def
  flag_thread_affinity_def flag_detached_def

definition detached :: "worker_fiber \<Rightarrow> bool" where
  "detached r \<longleftrightarrow> 0 \<noteq> wf_flags r AND flag_detached"

definition detach :: "worker_fiber \<Rightarrow> worker_fiber" where
  "detach r = r\<lparr>wf_flags := wf_flags r OR flag_detached\<rparr>"

definition interruption_blocked :: "worker_fiber \<Rightarrow> bool" where
  "interruption_blocked r \<longleftrightarrow> 0 \<noteq> wf_flags r AND flag_interruption_blocked"

definition interruption_blocked_set :: "bool \<Rightarrow> worker_fiber \<Rightarrow> worker_fiber" where
  "interruption_blocked_set blck r =
     (if blck then r\<lparr>wf_flags := wf_flags r OR flag_interruption_blocked\<rparr>
      else r\<lparr>wf_flags := wf_flags r AND NOT flag_interruption_blocked\<rparr>)"

definition interruption_requested :: "worker_fiber \<Rightarrow> bool" where
  "interruption_requested r \<longleftrightarrow> 0 \<noteq> wf_flags r AND flag_interruption_requested"

definition thread_affinity :: "worker_fiber \<Rightarrow> bool" where
  "thread_affinity r \<longleftrightarrow> 0 \<noteq> wf_flags r AND flag_thread_affinity"

definition thread_affinity_set :: "bool \<Rightarrow> worker_fiber \<Rightarrow> worker_fiber" where
  "thread_affinity_set req r =
     (if req then r\<lparr>wf_flags := wf_flags r OR flag_thread_affinity\<rparr>
      else r\<lparr>wf_flags := wf_flags r AND NOT flag_thread_affinity\<rparr>)"

text \<open>The flag writes of \<^verbatim>\<open>request_interruption\<close>, without the wake-up.\<close>

definition interruption_requested_set :: "bool \<Rightarrow> worker_fiber \<Rightarrow> worker_fiber" where
  "interruption_requested_set req r =
     (if req then r\<lparr>wf_flags := wf_flags r OR flag_interruption_requested\<rparr>
      else r\<lparr>wf_flags := wf_flags r AND NOT flag_interruption_requested\<rparr>)"

lemma flag_test_bit: "0 \<noteq> w AND push_bit n 1 \<longleftrightarrow> bit w n" if "n < 32" for w :: flags_t
proof -
  have "bit (w AND push_bit n 1) k \<longleftrightarrow> k = n \<and> bit w n" for k
    using that by (auto simp: bit_simps)
  then show ?thesis
    by (metis bit_0_eq bit_eq_iff bot_apply bot_bool_def)
qed

lemma flag_set_bit: "bit (w OR push_bit n 1) m \<longleftrightarrow> m = n \<or> bit w m" if "n < 32" for w :: flags_t
  using that by (auto simp: bit_simps)

lemma flag_clear_bit:
  "bit (w AND NOT (push_bit n 1)) m \<longleftrightarrow> m \<noteq> n \<and> bit w m" if "n < 32" for w :: flags_t
  using that by (auto simp: bit_simps dest: bit_imp_le_length)

text \<open>Each flag is one bit of the word: reading after writing, and no flag disturbs another.\<close>

lemma flag_reads:
  "detached r \<longleftrightarrow> bit (wf_flags r) 3"
  "interruption_blocked r \<longleftrightarrow> bit (wf_flags r) 0"
  "interruption_requested r \<longleftrightarrow> bit (wf_flags r) 1"
  "thread_affinity r \<longleftrightarrow> bit (wf_flags r) 2"
  unfolding detached_def interruption_blocked_def interruption_requested_def thread_affinity_def
    flag_defs
  by (subst flag_test_bit; simp)+

lemma flag_word_bits:
  "bit (w OR flag_detached) m \<longleftrightarrow> m = 3 \<or> bit w m"
  "bit (w OR flag_interruption_blocked) m \<longleftrightarrow> m = 0 \<or> bit w m"
  "bit (w AND NOT flag_interruption_blocked) m \<longleftrightarrow> m \<noteq> 0 \<and> bit w m"
  "bit (w OR flag_interruption_requested) m \<longleftrightarrow> m = 1 \<or> bit w m"
  "bit (w AND NOT flag_interruption_requested) m \<longleftrightarrow> m \<noteq> 1 \<and> bit w m"
  "bit (w OR flag_thread_affinity) m \<longleftrightarrow> m = 2 \<or> bit w m"
  "bit (w AND NOT flag_thread_affinity) m \<longleftrightarrow> m \<noteq> 2 \<and> bit w m"
  unfolding flag_defs by (rule flag_set_bit flag_clear_bit; simp)+

lemma flag_writes:
  "bit (wf_flags (detach r)) m \<longleftrightarrow> m = 3 \<or> bit (wf_flags r) m"
  "bit (wf_flags (interruption_blocked_set b r)) m \<longleftrightarrow> (if m = 0 then b else bit (wf_flags r) m)"
  "bit (wf_flags (interruption_requested_set b r)) m \<longleftrightarrow> (if m = 1 then b else bit (wf_flags r) m)"
  "bit (wf_flags (thread_affinity_set b r)) m \<longleftrightarrow> (if m = 2 then b else bit (wf_flags r) m)"
  by (simp_all add: detach_def interruption_blocked_set_def interruption_requested_set_def
      thread_affinity_set_def flag_word_bits)

lemma flag_updates:
  "detached (detach r)"
  "interruption_blocked (detach r) = interruption_blocked r"
  "interruption_requested (detach r) = interruption_requested r"
  "thread_affinity (detach r) = thread_affinity r"
  "detached (interruption_blocked_set b r) = detached r"
  "interruption_blocked (interruption_blocked_set b r) = b"
  "interruption_requested (interruption_blocked_set b r) = interruption_requested r"
  "thread_affinity (interruption_blocked_set b r) = thread_affinity r"
  "detached (interruption_requested_set b r) = detached r"
  "interruption_blocked (interruption_requested_set b r) = interruption_blocked r"
  "interruption_requested (interruption_requested_set b r) = b"
  "thread_affinity (interruption_requested_set b r) = thread_affinity r"
  "detached (thread_affinity_set b r) = detached r"
  "interruption_blocked (thread_affinity_set b r) = interruption_blocked r"
  "interruption_requested (thread_affinity_set b r) = interruption_requested r"
  "thread_affinity (thread_affinity_set b r) = b"
  by (simp_all add: flag_reads flag_writes)

text \<open>A flag is nothing but a bit: the other fields stay, and only the flag word is read.\<close>

lemma flag_write_fields [simp]:
  "wf_prev (detach r) = wf_prev r" "wf_nxt (detach r) = wf_nxt r"
  "wf_phead (detach r) = wf_phead r" "wf_ptail (detach r) = wf_ptail r"
  "wf_tp (detach r) = wf_tp r" "wf_state (detach r) = wf_state r"
  "wf_callee (detach r) = wf_callee r" "wf_caller (detach r) = wf_caller r"
  "wf_splk (detach r) = wf_splk r" "wf_waiting (detach r) = wf_waiting r"
  "wf_fss (detach r) = wf_fss r" "wf_except (detach r) = wf_except r"
  "wf_prev (interruption_requested_set b r) = wf_prev r" "wf_nxt (interruption_requested_set b r) = wf_nxt r"
  "wf_phead (interruption_requested_set b r) = wf_phead r" "wf_ptail (interruption_requested_set b r) = wf_ptail r"
  "wf_tp (interruption_requested_set b r) = wf_tp r" "wf_state (interruption_requested_set b r) = wf_state r"
  "wf_callee (interruption_requested_set b r) = wf_callee r" "wf_caller (interruption_requested_set b r) = wf_caller r"
  "wf_splk (interruption_requested_set b r) = wf_splk r" "wf_waiting (interruption_requested_set b r) = wf_waiting r"
  "wf_fss (interruption_requested_set b r) = wf_fss r" "wf_except (interruption_requested_set b r) = wf_except r"
  "wf_prev (interruption_blocked_set b r) = wf_prev r" "wf_nxt (interruption_blocked_set b r) = wf_nxt r"
  "wf_phead (interruption_blocked_set b r) = wf_phead r" "wf_ptail (interruption_blocked_set b r) = wf_ptail r"
  "wf_tp (interruption_blocked_set b r) = wf_tp r" "wf_state (interruption_blocked_set b r) = wf_state r"
  "wf_callee (interruption_blocked_set b r) = wf_callee r" "wf_caller (interruption_blocked_set b r) = wf_caller r"
  "wf_splk (interruption_blocked_set b r) = wf_splk r" "wf_waiting (interruption_blocked_set b r) = wf_waiting r"
  "wf_fss (interruption_blocked_set b r) = wf_fss r" "wf_except (interruption_blocked_set b r) = wf_except r"
  "wf_prev (thread_affinity_set b r) = wf_prev r" "wf_nxt (thread_affinity_set b r) = wf_nxt r"
  "wf_phead (thread_affinity_set b r) = wf_phead r" "wf_ptail (thread_affinity_set b r) = wf_ptail r"
  "wf_tp (thread_affinity_set b r) = wf_tp r" "wf_state (thread_affinity_set b r) = wf_state r"
  "wf_callee (thread_affinity_set b r) = wf_callee r" "wf_caller (thread_affinity_set b r) = wf_caller r"
  "wf_splk (thread_affinity_set b r) = wf_splk r" "wf_waiting (thread_affinity_set b r) = wf_waiting r"
  "wf_fss (thread_affinity_set b r) = wf_fss r" "wf_except (thread_affinity_set b r) = wf_except r"
  by (simp_all add: detach_def interruption_requested_set_def interruption_blocked_set_def
      thread_affinity_set_def)

lemma flag_read_state [simp]:
  "detached (r\<lparr>wf_state := x\<rparr>) = detached r"
  "interruption_requested (r\<lparr>wf_state := x\<rparr>) = interruption_requested r"
  "interruption_blocked (r\<lparr>wf_state := x\<rparr>) = interruption_blocked r"
  by (simp_all add: detached_def interruption_requested_def interruption_blocked_def)

section \<open>Joining and the end of the coroutine\<close>

text \<open>
  \<^verbatim>\<open>worker_fiber::join\<close>: under the fiber's own spin lock, register \<open>p\<close> to be woken when
  \<open>f\<close> ends; \<open>False\<close> if it has ended already.
\<close>

definition wf_join :: "fid \<Rightarrow> fid \<Rightarrow> heap \<Rightarrow> (bool \<times> heap) option" where
  "wf_join f p h = do {
     l \<leftarrow> spin_lock (wf_splk (h f));
     let h1 = h(f := (h f)\<lparr>wf_splk := l\<rparr>);
     if is_terminated h1 f then do {
       l' \<leftarrow> spin_unlock (wf_splk (h1 f));
       Some (False, h1(f := (h1 f)\<lparr>wf_splk := l'\<rparr>)) }
     else do {
       let h2 = h1(f := (h1 f)\<lparr>wf_waiting := wf_waiting (h1 f) @ [p]\<rparr>);
       l' \<leftarrow> spin_unlock (wf_splk (h2 f));
       Some (True, h2(f := (h2 f)\<lparr>wf_splk := l'\<rparr>)) } }"

text \<open>
  \<^verbatim>\<open>deallocate\<close>: forget the coroutine. Destroying it unwinds the stack it runs on, which
  destroys the control block itself.
\<close>

definition deallocate :: "fid \<Rightarrow> heap \<Rightarrow> heap option" where
  "deallocate f h = do {
     let h1 = h(f := (h f)\<lparr>wf_callee := False\<rparr>);
     let h2 = h1(f := (h1 f)\<lparr>wf_caller := False\<rparr>);
     worker_fiber_dtor (h2 f);
     Some h2 }"

text \<open>The checks on the way out of (\<^verbatim>\<open>suspend\<close>) and into (\<^verbatim>\<open>resume\<close>) a coroutine.\<close>

definition wf_suspend :: "fid \<Rightarrow> heap \<Rightarrow> unit option" where
  "wf_suspend f h = assert_that (wf_callee (h f))"

definition wf_resume :: "fid \<Rightarrow> fid option \<Rightarrow> heap \<Rightarrow> unit option" where
  "wf_resume f from h =
     (case from of
        None \<Rightarrow> do { assert_that (wf_caller (h f)); assert_that (is_running h f) }
      | Some g \<Rightarrow> do {
          assert_that (wf_caller (h f));
          assert_that (is_running h f);
          assert_that (wf_callee (h g)) })"

lemma wf_join_conv:
  "wf_splk (h f) = UNLOCKED \<Longrightarrow>
     wf_join f p h =
       (if wf_state (h f) = TERMINATED then Some (False, h)
        else Some (True, h(f := (h f)\<lparr>wf_waiting := wf_waiting (h f) @ [p]\<rparr>)))"
  by (auto simp: wf_join_def is_terminated_def Let_def)

end
