(* ===== verification/Intrusive_List.thy ===== *)
theory Intrusive_List
  imports Worker_Fiber
begin

text \<open>
  Chains of fibers linked through \<^verbatim>\<open>nxt_\<close> and \<^verbatim>\<open>prev_\<close>, the representation both
  \<^verbatim>\<open>fifo\<close> and \<^verbatim>\<open>waiting_queue\<close> use, and what an operation on one chain leaves alone.
\<close>

section \<open>Doubly linked segments\<close>

text \<open>
  \<open>dlseg h p xs n\<close>: the fibers \<open>xs\<close> are linked in this order, the \<^verbatim>\<open>prev_\<close> of the first
  is \<open>p\<close> and the \<^verbatim>\<open>nxt_\<close> of the last is \<open>n\<close>.
\<close>

fun dlseg :: "heap \<Rightarrow> fid option \<Rightarrow> fid list \<Rightarrow> fid option \<Rightarrow> bool" where
  "dlseg h p [] n = True"
| "dlseg h p (x # xs) n \<longleftrightarrow>
     wf_prev (h x) = p \<and> wf_nxt (h x) = hd_or n xs \<and> dlseg h (Some x) xs n"

lemma dlseg_append [simp]:
  "dlseg h p (xs @ ys) n \<longleftrightarrow> dlseg h p xs (hd_or n ys) \<and> dlseg h (last_or p xs) ys n"
  by (induction xs arbitrary: p) auto

lemma dlseg_cong:
  assumes "\<And>x. x \<in> set xs \<Longrightarrow> wf_prev (h' x) = wf_prev (h x) \<and> wf_nxt (h' x) = wf_nxt (h x)"
  shows "dlseg h' p xs n \<longleftrightarrow> dlseg h p xs n"
  using assms by (induction xs arbitrary: p) auto

text \<open>The links of the two ends, when the rest of the segment stays as it is.\<close>

lemma dlseg_retarget_last:
  assumes "dlseg h p (xs @ [x]) n" and "x \<notin> set xs"
  shows "dlseg (h(x := (h x)\<lparr>wf_nxt := m\<rparr>)) p (xs @ [x]) m"
proof -
  have "dlseg (h(x := (h x)\<lparr>wf_nxt := m\<rparr>)) p xs (Some x)"
    using assms by (subst dlseg_cong [of _ _ h]) auto
  then show ?thesis using assms by simp
qed

lemma dlseg_retarget_first:
  assumes "dlseg h p (x # xs) n" and "x \<notin> set xs"
  shows "dlseg (h(x := (h x)\<lparr>wf_prev := m\<rparr>)) m (x # xs) n"
proof -
  have "dlseg (h(x := (h x)\<lparr>wf_prev := m\<rparr>)) (Some x) xs n"
    using assms by (subst dlseg_cong [of _ _ h]) auto
  then show ?thesis using assms by simp
qed

lemma dlseg_nxt:
  assumes "dlseg h p (xs @ x # ys) n"
  shows "wf_nxt (h x) = hd_or n ys"
  using assms by simp

lemma dlseg_prev:
  assumes "dlseg h p (xs @ x # ys) n"
  shows "wf_prev (h x) = last_or p xs"
  using assms by simp

section \<open>Frames\<close>

text \<open>
  \<open>links_frame A h h'\<close>: going from \<open>h\<close> to \<open>h'\<close> only the links of the fibers in
  \<open>A\<close> may have changed.
\<close>

definition links_frame :: "fid set \<Rightarrow> heap \<Rightarrow> heap \<Rightarrow> bool" where
  "links_frame A h h' \<longleftrightarrow>
     (\<forall>f. f \<notin> A \<longrightarrow> h' f = h f) \<and>
     (\<forall>f. \<exists>p n. h' f = (h f)\<lparr>wf_prev := p, wf_nxt := n\<rparr>)"

lemma links_frame_refl [simp]: "links_frame A h h"
  unfolding links_frame_def by (metis worker_fiber.surjective worker_fiber.update_convs(2,3))

lemma links_frame_trans:
  assumes "links_frame A h h'" and "links_frame B h' h''" and "A \<subseteq> C" and "B \<subseteq> C"
  shows "links_frame C h h''"
proof -
  have "\<exists>p n. h'' f = (h f)\<lparr>wf_prev := p, wf_nxt := n\<rparr>" for f
  proof -
    obtain p n where 1: "h' f = (h f)\<lparr>wf_prev := p, wf_nxt := n\<rparr>"
      using assms(1) unfolding links_frame_def by blast
    obtain q m where 2: "h'' f = (h' f)\<lparr>wf_prev := q, wf_nxt := m\<rparr>"
      using assms(2) unfolding links_frame_def by blast
    from 1 2 show ?thesis by auto
  qed
  with assms show ?thesis unfolding links_frame_def by (metis subsetD)
qed

lemma links_frame_mono: "links_frame A h h' \<Longrightarrow> A \<subseteq> B \<Longrightarrow> links_frame B h h'"
  unfolding links_frame_def by blast

lemma links_frame_next_set: "f \<in> A \<Longrightarrow> links_frame A h (next_set f v h)"
  unfolding links_frame_def next_set_def
  by (auto intro: exI [of _ "wf_prev _"] exI [of _ v]) (metis worker_fiber.surjective worker_fiber.update_convs(2,3))+

lemma links_frame_prev_set: "f \<in> A \<Longrightarrow> links_frame A h (prev_set f v h)"
  unfolding links_frame_def prev_set_def
  by auto (metis worker_fiber.surjective worker_fiber.update_convs(2,3))+

lemma links_frame_reset:
  "f \<in> A \<Longrightarrow> links_frame A h (next_reset f h)"
  "f \<in> A \<Longrightarrow> links_frame A h (prev_reset f h)"
  using links_frame_next_set [of f A h None] links_frame_prev_set [of f A h None]
  by (simp_all add: next_reset_def next_set_def prev_reset_def prev_set_def)

lemma links_frame_outside: "links_frame A h h' \<Longrightarrow> f \<notin> A \<Longrightarrow> h' f = h f"
  by (simp add: links_frame_def)

text \<open>Everything but the links is as before, for every fiber.\<close>

lemma links_frame_fields:
  assumes "links_frame A h h'"
  shows "wf_fss (h' f) = wf_fss (h f)" "wf_tp (h' f) = wf_tp (h f)"
    "wf_callee (h' f) = wf_callee (h f)" "wf_caller (h' f) = wf_caller (h f)"
    "wf_state (h' f) = wf_state (h f)" "wf_flags (h' f) = wf_flags (h f)"
    "wf_priority (h' f) = wf_priority (h f)" "wf_except (h' f) = wf_except (h f)"
    "wf_splk (h' f) = wf_splk (h f)" "wf_waiting (h' f) = wf_waiting (h f)"
    "wf_phead (h' f) = wf_phead (h f)" "wf_ptail (h' f) = wf_ptail (h f)"
proof -
  obtain p n where "h' f = (h f)\<lparr>wf_prev := p, wf_nxt := n\<rparr>"
    using assms unfolding links_frame_def by blast
  then show "wf_fss (h' f) = wf_fss (h f)" "wf_tp (h' f) = wf_tp (h f)"
    "wf_callee (h' f) = wf_callee (h f)" "wf_caller (h' f) = wf_caller (h f)"
    "wf_state (h' f) = wf_state (h f)" "wf_flags (h' f) = wf_flags (h f)"
    "wf_priority (h' f) = wf_priority (h f)" "wf_except (h' f) = wf_except (h f)"
    "wf_splk (h' f) = wf_splk (h f)" "wf_waiting (h' f) = wf_waiting (h f)"
    "wf_phead (h' f) = wf_phead (h f)" "wf_ptail (h' f) = wf_ptail (h f)"
    by simp_all
qed

lemma links_frame_dlseg:
  assumes "links_frame A h h'" and "set xs \<inter> A = {}"
  shows "dlseg h' p xs n \<longleftrightarrow> dlseg h p xs n"
  using assms by (intro dlseg_cong) (metis disjoint_iff links_frame_outside)

end
