(* ===== verification/Fifo.thy ===== *)
theory Fifo
  imports Intrusive_List
begin

text \<open>
  The ready queue of the default scheduling algorithm (\<^verbatim>\<open>detail/fifo.hpp\<close>): a head and a tail
  pointer into a chain of fibers. \<open>fifo_rep h q xs\<close> relates the pointers to the list of
  fibers; each operation is shown to act on that list.
\<close>

record fifo =
  fifo_head :: "fid option"
  fifo_tail :: "fid option"

definition fifo_init :: fifo where
  "fifo_init = \<lparr>fifo_head = None, fifo_tail = None\<rparr>"

definition fifo_empty :: "fifo \<Rightarrow> bool" where
  "fifo_empty q \<longleftrightarrow> fifo_head q = None"

definition fifo_push :: "fid \<Rightarrow> heap \<Rightarrow> fifo \<Rightarrow> (heap \<times> fifo) option" where
  "fifo_push item h q = do {
     assert_that (is_ready h item \<or> is_running h item);
     assert_that (wf_nxt (h item) = None);
     assert_that (wf_prev (h item) = None);
     if fifo_empty q then Some (h, \<lparr>fifo_head = Some item, fifo_tail = Some item\<rparr>)
     else if fifo_head q = Some item then Some (h, q)
     else do {
       t \<leftarrow> fifo_tail q;
       let h1 = next_set t (Some item) h;
       let h2 = prev_set item (Some t) h1;
       Some (h2, q\<lparr>fifo_tail := Some item\<rparr>) } }"

definition fifo_pop :: "heap \<Rightarrow> fifo \<Rightarrow> (fid \<times> heap \<times> fifo) option" where
  "fifo_pop h q = do {
     assert_that (\<not> fifo_empty q);
     item \<leftarrow> fifo_head q;
     let q1 = q\<lparr>fifo_head := wf_nxt (h item)\<rparr>;
     let (h2, q2) =
       (case fifo_head q1 of
          None \<Rightarrow> (h, q1\<lparr>fifo_tail := None\<rparr>)
        | Some x \<Rightarrow> (prev_set x None h, q1));
     let h3 = next_reset item h2;
     let h4 = prev_reset item h3;
     Some (item, h4, q2) }"

definition fifo_swap :: "fifo \<Rightarrow> fifo \<Rightarrow> fifo \<times> fifo" where
  "fifo_swap q r =
     (q\<lparr>fifo_head := fifo_head r, fifo_tail := fifo_tail r\<rparr>,
      r\<lparr>fifo_head := fifo_head q, fifo_tail := fifo_tail q\<rparr>)"

section \<open>The list behind the pointers\<close>

definition fifo_rep :: "heap \<Rightarrow> fifo \<Rightarrow> fid list \<Rightarrow> bool" where
  "fifo_rep h q xs \<longleftrightarrow>
     distinct xs \<and> dlseg h None xs None \<and>
     fifo_head q = hd_or None xs \<and> fifo_tail q = last_or None xs"

lemma fifo_rep_init: "fifo_rep h fifo_init []"
  by (simp add: fifo_rep_def fifo_init_def)

lemma fifo_empty_iff: "fifo_rep h q xs \<Longrightarrow> fifo_empty q \<longleftrightarrow> xs = []"
  by (simp add: fifo_rep_def fifo_empty_def)

lemma fifo_rep_frame:
  assumes "fifo_rep h q xs" and "links_frame A h h'" and "set xs \<inter> A = {}"
  shows "fifo_rep h' q xs"
  using assms by (simp add: fifo_rep_def links_frame_dlseg)

lemma fifo_rep_cong:
  assumes "fifo_rep h q xs"
    and "\<And>x. x \<in> set xs \<Longrightarrow> wf_prev (h' x) = wf_prev (h x) \<and> wf_nxt (h' x) = wf_nxt (h x)"
  shows "fifo_rep h' q xs"
proof -
  have "dlseg h' None xs None \<longleftrightarrow> dlseg h None xs None"
    by (rule dlseg_cong) (rule assms(2))
  with assms(1) show ?thesis by (simp add: fifo_rep_def)
qed

text \<open>Pushing a fiber that is in no queue appends it.\<close>

lemma fifo_push_rep:
  assumes rep: "fifo_rep h q xs" and fresh: "item \<notin> set xs"
    and st: "is_ready h item \<or> is_running h item"
    and links: "wf_nxt (h item) = None" "wf_prev (h item) = None"
  shows "\<exists>h' q'. fifo_push item h q = Some (h', q') \<and> fifo_rep h' q' (xs @ [item]) \<and>
     links_frame (insert item (set xs)) h h'"
proof (cases xs rule: rev_cases)
  case Nil
  with rep st links show ?thesis
    by (simp add: fifo_push_def fifo_rep_def fifo_empty_def)
next
  case (snoc ys t)
  let ?h1 = "next_set t (Some item) h"
  let ?h2 = "prev_set item (Some t) ?h1"
  from rep snoc have xs: "distinct (ys @ [t])" "dlseg h None (ys @ [t]) None"
    "fifo_head q = hd_or None (ys @ [t])" "fifo_tail q = Some t"
    by (simp_all add: fifo_rep_def)
  have head: "fifo_head q \<noteq> Some item" "fifo_head q \<noteq> None"
    using xs(3) fresh snoc by (cases ys; auto)+
  have "dlseg ?h1 None (ys @ [t]) (Some item)"
    unfolding next_set_def using dlseg_retarget_last [OF xs(2)] xs(1) by auto
  then have seg: "dlseg ?h2 None (ys @ [t]) (Some item)"
    using fresh snoc unfolding prev_set_def
    by (subst dlseg_cong [of _ _ ?h1]) auto
  have "dlseg ?h2 None (xs @ [item]) None"
    using seg snoc links fresh by (simp add: prev_set_def next_set_def)
  moreover have "links_frame (insert item (set xs)) h ?h2"
    by (rule links_frame_trans [OF links_frame_next_set [of t "{t}"]
          links_frame_prev_set [of item "{item}"]]) (use snoc in auto)
  moreover have "fifo_push item h q = Some (?h2, q\<lparr>fifo_tail := Some item\<rparr>)"
    using st links head xs(4) by (auto simp: fifo_push_def fifo_empty_def)
  ultimately show ?thesis
    using xs(1,3) fresh snoc by (simp add: fifo_rep_def)
qed

text \<open>Popping a non-empty queue returns the head, with its links cleared.\<close>

lemma fifo_pop_rep:
  assumes rep: "fifo_rep h q (x # xs)"
  shows "\<exists>h' q'. fifo_pop h q = Some (x, h', q') \<and> fifo_rep h' q' xs \<and>
     wf_nxt (h' x) = None \<and> wf_prev (h' x) = None \<and> links_frame (set (x # xs)) h h'"
proof (cases xs)
  case Nil
  have "links_frame {x} h (prev_reset x (next_reset x h))"
    by (rule links_frame_trans [OF links_frame_reset(1) links_frame_reset(2)]) auto
  with rep Nil show ?thesis
    by (auto simp: fifo_pop_def fifo_rep_def fifo_empty_def next_reset_def prev_reset_def)
next
  case (Cons y ys)
  let ?h2 = "prev_set y None h"
  let ?h4 = "prev_reset x (next_reset x ?h2)"
  from rep Cons have xs: "x \<noteq> y" "x \<notin> set ys" "y \<notin> set ys" "distinct ys"
    "dlseg h None (x # y # ys) None" "fifo_head q = Some x" "fifo_tail q = last_or None (x # y # ys)"
    by (simp_all add: fifo_rep_def)
  have "dlseg ?h2 None (y # ys) None"
    unfolding prev_set_def using xs by (intro dlseg_retarget_first [of _ "Some x"]) simp_all
  then have seg: "dlseg ?h4 None (y # ys) None"
    using xs by (subst dlseg_cong [of _ _ ?h2]) (auto simp: prev_reset_def next_reset_def)
  have frame: "links_frame (set (x # xs)) h ?h4"
    by (rule links_frame_trans [OF links_frame_trans [OF links_frame_prev_set [of y "{y}"]
          links_frame_reset(1) [of x "{x}"], where C = "{x, y}"] links_frame_reset(2) [of x "{x}"]])
      (use Cons in auto)
  have "fifo_pop h q = Some (x, ?h4, q\<lparr>fifo_head := Some y\<rparr>)"
    using xs by (simp add: fifo_pop_def fifo_empty_def)
  with seg frame xs Cons show ?thesis
    by (simp add: fifo_rep_def) (simp add: prev_reset_def next_reset_def)
qed

text \<open>Popping an empty queue fails its assertion.\<close>

lemma fifo_pop_empty: "fifo_rep h q [] \<Longrightarrow> fifo_pop h q = None"
  by (simp add: fifo_pop_def fifo_rep_def fifo_empty_def)

lemma fifo_swap_rep:
  assumes "fifo_rep h q xs" and "fifo_rep h r ys" and "fifo_swap q r = (q', r')"
  shows "fifo_rep h q' ys" and "fifo_rep h r' xs"
  using assms by (auto simp: fifo_swap_def fifo_rep_def)

end
