(* ===== verification/Waiting_Queue.thy ===== *)
theory Waiting_Queue
  imports Intrusive_List
begin

text \<open>
  The waiting queue of a scheduler (\<^verbatim>\<open>detail/waiting_queue.hpp\<close>): a chain of fibers with the
  ready ones in front and the others behind them in the order of their deadlines. A fiber knows
  the queue it sits in (\<^verbatim>\<open>phead_\<close>, \<^verbatim>\<open>ptail_\<close>), so that it can be moved to the front from
  outside when it becomes ready (\<^verbatim>\<open>move_to_run\<close>).
\<close>

section \<open>The world the queues live in\<close>

record wqueue =
  wq_head :: "fid option"
  wq_tail :: "fid option"

definition waiting_queue_init :: wqueue where
  "waiting_queue_init = \<lparr>wq_head = None, wq_tail = None\<rparr>"

text \<open>
  The store of fibers, the waiting queues of all schedulers, and the \<^verbatim>\<open>ready_\<close> flags of the
  \<^verbatim>\<open>main_fiber\<close> objects.
\<close>

record world =
  w_heap :: heap
  w_wqs :: "wqid \<Rightarrow> wqueue"
  w_mains :: "mfid \<Rightarrow> bool"

definition upd_heap :: "(heap \<Rightarrow> heap) \<Rightarrow> world \<Rightarrow> world" where
  [world_simps]: "upd_heap g w = w\<lparr>w_heap := g (w_heap w)\<rparr>"

definition wq_head_set :: "wqid \<Rightarrow> fid option \<Rightarrow> world \<Rightarrow> world" where
  [world_simps]: "wq_head_set q v w = w\<lparr>w_wqs := (w_wqs w)(q := (w_wqs w q)\<lparr>wq_head := v\<rparr>)\<rparr>"

definition wq_tail_set :: "wqid \<Rightarrow> fid option \<Rightarrow> world \<Rightarrow> world" where
  [world_simps]: "wq_tail_set q v w = w\<lparr>w_wqs := (w_wqs w)(q := (w_wqs w q)\<lparr>wq_tail := v\<rparr>)\<rparr>"

section \<open>Operations\<close>

definition wq_empty :: "wqid \<Rightarrow> world \<Rightarrow> bool" where
  "wq_empty q w \<longleftrightarrow> wq_head (w_wqs w q) = None"

text \<open>
  The loop of \<^verbatim>\<open>push\<close>: \<open>f\<close> is the fiber looked at and \<open>prev\<close> the one before it.
\<close>

partial_function (option) wq_push_loop ::
  "wqid \<Rightarrow> fid \<Rightarrow> fid \<Rightarrow> fid option \<Rightarrow> world \<Rightarrow> world option" where
  "wq_push_loop q item f prev w =
     (let nxt = wf_nxt (w_heap w f) in
      if \<not> is_ready (w_heap w) f \<and> wf_tp (w_heap w item) \<le> wf_tp (w_heap w f) then
        (if wq_head (w_wqs w q) = Some f then do {
           assert_that (prev = None);
           let w1 = upd_heap (next_set item (Some f)) w;
           let w2 = upd_heap (prev_set f (Some item)) w1;
           Some (wq_head_set q (Some item) w2) }
         else do {
           p \<leftarrow> prev;
           let w1 = upd_heap (next_set item (Some f)) w;
           let w2 = upd_heap (prev_set f (Some item)) w1;
           let w3 = upd_heap (next_set p (Some item)) w2;
           Some (upd_heap (prev_set item (Some p)) w3) })
      else if wq_tail (w_wqs w q) = Some f then do {
        assert_that (nxt = None);
        let w1 = upd_heap (next_set f (Some item)) w;
        let w2 = upd_heap (prev_set item (Some f)) w1;
        Some (wq_tail_set q (Some item) w2) }
      else
        (case nxt of
           None \<Rightarrow> Some w
         | Some g \<Rightarrow> wq_push_loop q item g (Some f) w))"

definition wq_push :: "wqid \<Rightarrow> fid \<Rightarrow> world \<Rightarrow> world option" where
  "wq_push q item w = do {
     assert_that (wf_nxt (w_heap w item) = None);
     assert_that (wf_prev (w_heap w item) = None);
     if wf_phead (w_heap w item) \<noteq> None then Some w
     else do {
       let w1 = upd_heap (attach_queue item q) w;
       if wq_empty q w1 then Some (wq_head_set q (Some item) (wq_tail_set q (Some item) w1))
       else if wq_head (w_wqs w1 q) = Some item then Some w1
       else if is_ready (w_heap w1) item then do {
         hd \<leftarrow> wq_head (w_wqs w1 q);
         let w2 = upd_heap (next_set item (Some hd)) w1;
         let w3 = upd_heap (prev_set hd (Some item)) w2;
         Some (wq_head_set q (Some item) w3) }
       else if wf_tp (w_heap w1 item) = time_point_max then do {
         tl \<leftarrow> wq_tail (w_wqs w1 q);
         let w2 = upd_heap (next_set tl (Some item)) w1;
         let w3 = upd_heap (prev_set item (Some tl)) w2;
         Some (wq_tail_set q (Some item) w3) }
       else do {
         hd \<leftarrow> wq_head (w_wqs w1 q);
         wq_push_loop q item hd None w1 } } }"

definition wq_top :: "wqid \<Rightarrow> world \<Rightarrow> fid option" where
  "wq_top q w = do { assert_that (\<not> wq_empty q w); wq_head (w_wqs w q) }"

text \<open>
  \<^verbatim>\<open>move_to_run\<close> reaches the queue only through the pointers the fiber carries.
\<close>

definition wq_move_to_run :: "fid \<Rightarrow> world \<Rightarrow> world option" where
  "wq_move_to_run f w = do {
     assert_that (\<not> is_running (w_heap w) f);
     case wf_prev (w_heap w f) of
       None \<Rightarrow> Some w
     | Some p \<Rightarrow>
         (case wf_phead (w_heap w f) of
            None \<Rightarrow> Some w
          | Some hq \<Rightarrow> do {
              w1 \<leftarrow> (case wf_nxt (w_heap w f) of
                       None \<Rightarrow> do { tq \<leftarrow> wf_ptail (w_heap w f); Some (wq_tail_set tq (Some p) w) }
                     | Some n \<Rightarrow> Some (upd_heap (prev_set n (Some p)) w));
              let w2 = upd_heap (next_set p (wf_nxt (w_heap w1 f))) w1;
              let w3 = upd_heap (next_set f (wq_head (w_wqs w2 hq))) w2;
              let w4 = upd_heap (prev_reset f) w3;
              hd \<leftarrow> wq_head (w_wqs w4 hq);
              let w5 = upd_heap (prev_set hd (Some f)) w4;
              Some (wq_head_set hq (Some f) w5) }) }"

text \<open>
  \<^verbatim>\<open>worker_fiber::set_ready\<close>: besides the state it moves the fiber to the front of the queue
  it waits in.
\<close>

definition set_ready :: "fid \<Rightarrow> world \<Rightarrow> world option" where
  "set_ready f w =
     (let (previous, h') = exchange_state f READY (w_heap w) in do {
        assert_that (previous = WAITING \<or> previous = RUNNING \<or> previous = READY);
        wq_move_to_run f (w\<lparr>w_heap := h'\<rparr>) })"

text \<open>
  \<^verbatim>\<open>move_to\<close>: \<open>awk\<close> is the scheduling algorithm's \<^verbatim>\<open>awakened\<close>, \<open>s\<close> its state, and
  \<open>fn\<close> decides (and marks) whether a fiber is due.
\<close>

partial_function (option) wq_move_to_loop ::
  "(fid \<Rightarrow> heap \<Rightarrow> 's \<Rightarrow> (heap \<times> 's) option) \<Rightarrow>
   (fid \<Rightarrow> time_point \<Rightarrow> world \<Rightarrow> (bool \<times> world) option) \<Rightarrow>
   wqid \<Rightarrow> time_point \<Rightarrow> fid option \<Rightarrow> world \<Rightarrow> 's \<Rightarrow> (world \<times> 's) option" where
  "wq_move_to_loop awk fn q now f w s =
     (case f of
        None \<Rightarrow> Some (w, s)
      | Some x \<Rightarrow> do {
          let nxt = wf_nxt (w_heap w x);
          (due, w1) \<leftarrow> fn x now w;
          if due then do {
            assert_that (wq_head (w_wqs w1 q) = Some x);
            let w2 = wq_head_set q (wf_nxt (w_heap w1 x)) w1;
            let w3 = (case wq_head (w_wqs w2 q) of
                        None \<Rightarrow> wq_tail_set q None w2
                      | Some y \<Rightarrow> upd_heap (prev_set y None) w2);
            let w4 = upd_heap (next_reset x) w3;
            let w5 = upd_heap (prev_reset x) w4;
            let w6 = upd_heap (detach_queue x) w5;
            let w7 = upd_heap (time_point_reset x) w6;
            (h', s') \<leftarrow> awk x (w_heap w7) s;
            wq_move_to_loop awk fn q now nxt (w7\<lparr>w_heap := h'\<rparr>) s' }
          else Some (w1, s) })"

definition wq_move_to ::
  "(fid \<Rightarrow> heap \<Rightarrow> 's \<Rightarrow> (heap \<times> 's) option) \<Rightarrow>
   (fid \<Rightarrow> time_point \<Rightarrow> world \<Rightarrow> (bool \<times> world) option) \<Rightarrow>
   wqid \<Rightarrow> time_point \<Rightarrow> world \<Rightarrow> 's \<Rightarrow> (world \<times> 's) option" where
  "wq_move_to awk fn q now w s = wq_move_to_loop awk fn q now (wq_head (w_wqs w q)) w s"

declare wq_push_loop.simps [code] wq_move_to_loop.simps [code]

definition wq_swap :: "wqid \<Rightarrow> wqid \<Rightarrow> world \<Rightarrow> world" where
  "wq_swap q r w = w\<lparr>w_wqs := (w_wqs w)(q := w_wqs w r, r := w_wqs w q)\<rparr>"

section \<open>The list behind the pointers\<close>

definition wq_rep :: "world \<Rightarrow> wqid \<Rightarrow> fid list \<Rightarrow> bool" where
  "wq_rep w q xs \<longleftrightarrow>
     distinct xs \<and> dlseg (w_heap w) None xs None \<and>
     wq_head (w_wqs w q) = hd_or None xs \<and> wq_tail (w_wqs w q) = last_or None xs \<and>
     (\<forall>x \<in> set xs. wf_phead (w_heap w x) = Some q \<and> wf_ptail (w_heap w x) = Some q)"

text \<open>Where \<^verbatim>\<open>push\<close> puts a fiber: in front, at the end, or before the first later deadline.\<close>

definition before_item :: "heap \<Rightarrow> fid \<Rightarrow> fid \<Rightarrow> bool" where
  "before_item h item f \<longleftrightarrow> is_ready h f \<or> wf_tp (h f) < wf_tp (h item)"

definition wq_insert :: "heap \<Rightarrow> fid \<Rightarrow> fid list \<Rightarrow> fid list" where
  "wq_insert h item xs =
     (if is_ready h item then item # xs
      else if wf_tp (h item) = time_point_max then xs @ [item]
      else takeWhile (before_item h item) xs @ item # dropWhile (before_item h item) xs)"

lemma set_wq_insert: "set (wq_insert h item xs) = insert item (set xs)"
  unfolding wq_insert_def
  by (simp, metis set_append takeWhile_dropWhile_id Un_insert_right)

text \<open>What a queue operation may change besides the links: the ends of this one queue.\<close>

definition wq_frame :: "wqid \<Rightarrow> fid set \<Rightarrow> world \<Rightarrow> world \<Rightarrow> bool" where
  "wq_frame q A w w' \<longleftrightarrow>
     links_frame A (w_heap w) (w_heap w') \<and> (\<forall>r. r \<noteq> q \<longrightarrow> w_wqs w' r = w_wqs w r) \<and>
     w_mains w' = w_mains w"

lemma wq_frameD:
  assumes "wq_frame q A w w'"
  shows "links_frame A (w_heap w) (w_heap w')" "r \<noteq> q \<Longrightarrow> w_wqs w' r = w_wqs w r"
    "w_mains w' = w_mains w"
  using assms by (simp_all add: wq_frame_def)

text \<open>A waiting queue whose fibers are left alone stays as it is.\<close>

lemma wq_rep_cong:
  assumes "wq_rep w q xs" and "w_wqs w' q = w_wqs w q"
    and "\<And>x. x \<in> set xs \<Longrightarrow>
      wf_prev (w_heap w' x) = wf_prev (w_heap w x) \<and> wf_nxt (w_heap w' x) = wf_nxt (w_heap w x) \<and>
      wf_phead (w_heap w' x) = wf_phead (w_heap w x) \<and>
      wf_ptail (w_heap w' x) = wf_ptail (w_heap w x)"
  shows "wq_rep w' q xs"
proof -
  have "dlseg (w_heap w') None xs None \<longleftrightarrow> dlseg (w_heap w) None xs None"
    by (rule dlseg_cong) (use assms(3) in blast)
  with assms show ?thesis by (simp add: wq_rep_def)
qed

section \<open>Insertion\<close>

text \<open>Linking a fresh fiber between two parts of a chain.\<close>

lemma dlseg_link_between:
  assumes "dlseg h None (xs @ ys) None" and "distinct (xs @ ys)" and "item \<notin> set (xs @ ys)"
    and "wf_nxt (h' item) = hd_or None ys" and "wf_prev (h' item) = last_or None xs"
    and "\<And>x. x \<in> set xs \<Longrightarrow> wf_prev (h' x) = wf_prev (h x) \<and>
           wf_nxt (h' x) = (if Some x = last_or None xs then Some item else wf_nxt (h x))"
    and "\<And>y. y \<in> set ys \<Longrightarrow> wf_nxt (h' y) = wf_nxt (h y) \<and>
           wf_prev (h' y) = (if Some y = hd_or None ys then Some item else wf_prev (h y))"
  shows "dlseg h' None (xs @ item # ys) None"
proof -
  have xs: "dlseg h' None xs (Some item)"
  proof (cases xs rule: rev_cases)
    case Nil
    then show ?thesis by simp
  next
    case (snoc us u)
    have "dlseg h' None us (Some u) \<longleftrightarrow> dlseg h None us (Some u)"
      by (rule dlseg_cong) (use assms(2) assms(6) snoc in auto)
    with assms(1) assms(6) [of u] snoc show ?thesis by simp
  qed
  have ys: "dlseg h' (Some item) ys None"
  proof (cases ys)
    case Nil
    then show ?thesis by simp
  next
    case (Cons v vs)
    have "dlseg h' (Some v) vs None \<longleftrightarrow> dlseg h (Some v) vs None"
      by (rule dlseg_cong) (use assms(2) assms(7) Cons in auto)
    with assms(1) assms(7) [of v] Cons show ?thesis by simp
  qed
  from xs ys assms(4,5) show ?thesis by simp
qed

lemma wq_rep_link:
  assumes "wq_rep w q (xs @ ys)" and "item \<notin> set (xs @ ys)"
    and "wf_phead (w_heap w item) = Some q" "wf_ptail (w_heap w item) = Some q"
    and "wq_frame q (insert item (set (xs @ ys))) w w'"
    and "wq_head (w_wqs w' q) = hd_or None (xs @ item # ys)"
    and "wq_tail (w_wqs w' q) = last_or None (xs @ item # ys)"
    and "wf_nxt (w_heap w' item) = hd_or None ys" and "wf_prev (w_heap w' item) = last_or None xs"
    and "\<And>x. x \<in> set xs \<Longrightarrow> wf_prev (w_heap w' x) = wf_prev (w_heap w x) \<and>
           wf_nxt (w_heap w' x) = (if Some x = last_or None xs then Some item else wf_nxt (w_heap w x))"
    and "\<And>y. y \<in> set ys \<Longrightarrow> wf_nxt (w_heap w' y) = wf_nxt (w_heap w y) \<and>
           wf_prev (w_heap w' y) = (if Some y = hd_or None ys then Some item else wf_prev (w_heap w y))"
  shows "wq_rep w' q (xs @ item # ys)"
proof -
  have rep: "distinct (xs @ ys)" "dlseg (w_heap w) None (xs @ ys) None"
    "\<forall>x \<in> set (xs @ ys). wf_phead (w_heap w x) = Some q \<and> wf_ptail (w_heap w x) = Some q"
    using assms(1) unfolding wq_rep_def by blast+
  have "dlseg (w_heap w') None (xs @ item # ys) None"
    by (rule dlseg_link_between [OF rep(2,1) assms(2,8,9,10,11)])
  moreover have "wf_phead (w_heap w' x) = wf_phead (w_heap w x)"
    "wf_ptail (w_heap w' x) = wf_ptail (w_heap w x)" for x
    using links_frame_fields [OF wq_frameD(1) [OF assms(5)]] by blast+
  ultimately show ?thesis
    using rep assms(2,3,4,6,7) unfolding wq_rep_def by auto
qed

lemma wq_frame_upd_heap:
  assumes "wq_frame q A w w'" and "links_frame A (w_heap w') (g (w_heap w'))"
  shows "wq_frame q A w (upd_heap g w')"
  using assms by (auto simp: wq_frame_def upd_heap_def intro: links_frame_trans)

lemma wq_frame_refl [simp]: "wq_frame q A w w"
  by (simp add: wq_frame_def)

lemma wq_frame_ends:
  "wq_frame q A w (wq_head_set q v w') \<longleftrightarrow> wq_frame q A w w'"
  "wq_frame q A w (wq_tail_set q v w') \<longleftrightarrow> wq_frame q A w w'"
  by (auto simp: wq_frame_def wq_head_set_def wq_tail_set_def)

lemmas wq_frame_intros =
  wq_frame_upd_heap wq_frame_ends [THEN iffD2] links_frame_next_set links_frame_prev_set
  links_frame_reset wq_frame_refl

text \<open>The three places where \<^verbatim>\<open>push\<close> links a fiber in.\<close>

lemma wq_link_front:
  assumes rep: "wq_rep w q (f # bs)" and fresh: "item \<notin> set (f # bs)"
    and item: "wf_phead (w_heap w item) = Some q" "wf_ptail (w_heap w item) = Some q"
      "wf_prev (w_heap w item) = None"
    and w': "w' = wq_head_set q (Some item) (upd_heap (prev_set f (Some item))
       (upd_heap (next_set item (Some f)) w))"
  shows "wq_rep w' q (item # f # bs)" and "wq_frame q (insert item (set (f # bs))) w w'"
proof -
  show frame: "wq_frame q (insert item (set (f # bs))) w w'"
    unfolding w' by (intro wq_frame_intros) auto
  have D: "f \<notin> set bs" "wq_tail (w_wqs w q) = last_or None (f # bs)"
    using rep by (simp_all add: wq_rep_def)
  have "wq_rep w' q ([] @ item # f # bs)"
    by (rule wq_rep_link [of w q "[]" "f # bs" item])
      (use rep fresh item frame D in simp_all,
       use fresh item D in \<open>auto simp: w' world_simps heap_simps\<close>)
  then show "wq_rep w' q (item # f # bs)" by simp
qed

lemma wq_link_back:
  assumes rep: "wq_rep w q (as @ [f])" and fresh: "item \<notin> set (as @ [f])"
    and item: "wf_phead (w_heap w item) = Some q" "wf_ptail (w_heap w item) = Some q"
      "wf_nxt (w_heap w item) = None"
    and w': "w' = wq_tail_set q (Some item) (upd_heap (prev_set item (Some f))
       (upd_heap (next_set f (Some item)) w))"
  shows "wq_rep w' q (as @ [f, item])" and "wq_frame q (insert item (set (as @ [f]))) w w'"
proof -
  show frame: "wq_frame q (insert item (set (as @ [f]))) w w'"
    unfolding w' by (intro wq_frame_intros) auto
  have D: "f \<notin> set as" "wq_head (w_wqs w q) = hd_or None (as @ [f])"
    using rep by (simp_all add: wq_rep_def)
  have "wq_rep w' q ((as @ [f]) @ item # [])"
    by (rule wq_rep_link [of w q "as @ [f]" "[]" item])
      (use rep fresh item frame D in simp_all,
       use fresh item D in \<open>auto simp: w' world_simps heap_simps\<close>)
  then show "wq_rep w' q (as @ [f, item])" by simp
qed

lemma wq_link_middle:
  assumes rep: "wq_rep w q (as @ p # f # bs)" and fresh: "item \<notin> set (as @ p # f # bs)"
    and item: "wf_phead (w_heap w item) = Some q" "wf_ptail (w_heap w item) = Some q"
    and w': "w' = upd_heap (prev_set item (Some p)) (upd_heap (next_set p (Some item))
       (upd_heap (prev_set f (Some item)) (upd_heap (next_set item (Some f)) w)))"
  shows "wq_rep w' q (as @ p # item # f # bs)"
    and "wq_frame q (insert item (set (as @ p # f # bs))) w w'"
proof -
  show frame: "wq_frame q (insert item (set (as @ p # f # bs))) w w'"
    unfolding w' by (intro wq_frame_intros) auto
  have D: "p \<notin> set as" "p \<notin> set bs" "f \<notin> set as" "f \<notin> set bs" "p \<noteq> f" "set as \<inter> set bs = {}"
    "wq_head (w_wqs w q) = hd_or None (as @ [p, f])" "wq_tail (w_wqs w q) = last_or None (f # bs)"
    using rep by (simp_all add: wq_rep_def)
  have rep': "wq_rep w q ((as @ [p]) @ f # bs)" using rep by simp
  have "wq_rep w' q ((as @ [p]) @ item # f # bs)"
    by (rule wq_rep_link [OF rep'])
      (use fresh item frame D in simp_all,
       use fresh item D in \<open>auto simp: w' world_simps heap_simps\<close>)
  then show "wq_rep w' q (as @ p # item # f # bs)" by simp
qed

text \<open>The loop stops in front of the first fiber that is not to be passed.\<close>

lemma wq_push_loop_stop:
  assumes rep: "wq_rep w q (as @ f # bs)" and fresh: "item \<notin> set (as @ f # bs)"
    and item: "wf_phead (w_heap w item) = Some q" "wf_ptail (w_heap w item) = Some q"
      "wf_prev (w_heap w item) = None"
    and later: "\<not> before_item (w_heap w) item f"
  shows "\<exists>w'. wq_push_loop q item f (last_or None as) w = Some w' \<and>
     wq_rep w' q (as @ item # f # bs) \<and> wq_frame q (insert item (set (as @ f # bs))) w w'"
proof (cases as rule: rev_cases)
  case Nil
  have rep': "wq_rep w q (f # bs)" and fresh': "item \<notin> set (f # bs)"
    using rep fresh Nil by simp_all
  let ?w = "wq_head_set q (Some item) (upd_heap (prev_set f (Some item))
     (upd_heap (next_set item (Some f)) w))"
  have "wq_push_loop q item f None w = Some ?w"
    using rep' later by (subst wq_push_loop.simps) (simp add: before_item_def wq_rep_def)
  with wq_link_front [OF rep' fresh' item refl] Nil show ?thesis by auto
next
  case (snoc as' p)
  have rep': "wq_rep w q (as' @ p # f # bs)" and fresh': "item \<notin> set (as' @ p # f # bs)"
    using rep fresh snoc by simp_all
  have "wq_head (w_wqs w q) \<noteq> Some f"
    using rep' by (cases as') (auto simp: wq_rep_def)
  then have "wq_push_loop q item f (Some p) w =
      Some (upd_heap (prev_set item (Some p)) (upd_heap (next_set p (Some item))
        (upd_heap (prev_set f (Some item)) (upd_heap (next_set item (Some f)) w))))"
    using later by (subst wq_push_loop.simps) (simp add: before_item_def)
  with wq_link_middle [OF rep' fresh' item(1,2) refl] snoc show ?thesis by simp
qed

lemma wq_push_loop_rep:
  assumes "wq_rep w q (as @ f # bs)" and "item \<notin> set (as @ f # bs)"
    and "wf_phead (w_heap w item) = Some q" "wf_ptail (w_heap w item) = Some q"
    and "wf_nxt (w_heap w item) = None" "wf_prev (w_heap w item) = None"
  shows "\<exists>w'. wq_push_loop q item f (last_or None as) w = Some w' \<and>
     wq_rep w' q (as @ takeWhile (before_item (w_heap w) item) (f # bs) @
                  item # dropWhile (before_item (w_heap w) item) (f # bs)) \<and>
     wq_frame q (insert item (set (as @ f # bs))) w w'"
  using assms
proof (induction bs arbitrary: as f)
  case Nil
  show ?case
  proof (cases "before_item (w_heap w) item f")
    case False
    with wq_push_loop_stop [OF Nil(1-4,6)] show ?thesis by simp
  next
    case True
    have "wq_tail (w_wqs w q) = Some f" "wf_nxt (w_heap w f) = None"
      using Nil(1) by (simp_all add: wq_rep_def)
    then have "wq_push_loop q item f (last_or None as) w =
        Some (wq_tail_set q (Some item) (upd_heap (prev_set item (Some f))
          (upd_heap (next_set f (Some item)) w)))"
      using True by (subst wq_push_loop.simps) (auto simp: before_item_def)
    with wq_link_back [OF Nil(1-5) refl] True show ?thesis by simp
  qed
next
  case (Cons g bs)
  show ?case
  proof (cases "before_item (w_heap w) item f")
    case False
    with wq_push_loop_stop [OF Cons.prems(1-4,6)] show ?thesis by simp
  next
    case True
    have "wf_nxt (w_heap w f) = Some g" "wq_tail (w_wqs w q) \<noteq> Some f"
      using Cons.prems(1) by (auto simp: wq_rep_def last_or_conv)
    then have "wq_push_loop q item f (last_or None as) w =
        wq_push_loop q item g (last_or None (as @ [f])) w"
      using True by (subst wq_push_loop.simps) (auto simp: before_item_def)
    with Cons.IH [of "as @ [f]" g] Cons.prems True show ?thesis by simp
  qed
qed

text \<open>\<^verbatim>\<open>push\<close> inserts where \<open>wq_insert\<close> says.\<close>

text \<open>What \<^verbatim>\<open>push\<close> does with a fiber that is in no queue, once it has been attached.\<close>

lemma wq_push_conv:
  assumes links: "wf_nxt (w_heap w item) = None" "wf_prev (w_heap w item) = None" and out: "wf_phead (w_heap w item) = None"
    and w1: "w1 = upd_heap (attach_queue item q) w"
  shows "wq_push q item w =
     (if wq_empty q w1 then Some (wq_head_set q (Some item) (wq_tail_set q (Some item) w1))
      else if wq_head (w_wqs w1 q) = Some item then Some w1
      else if is_ready (w_heap w) item then do {
        hd \<leftarrow> wq_head (w_wqs w1 q);
        Some (wq_head_set q (Some item) (upd_heap (prev_set hd (Some item))
          (upd_heap (next_set item (Some hd)) w1))) }
      else if wf_tp (w_heap w item) = time_point_max then do {
        tl \<leftarrow> wq_tail (w_wqs w1 q);
        Some (wq_tail_set q (Some item) (upd_heap (prev_set item (Some tl))
          (upd_heap (next_set tl (Some item)) w1))) }
      else do { hd \<leftarrow> wq_head (w_wqs w1 q); wq_push_loop q item hd None w1 })"
proof -
  have "is_ready (w_heap w1) f = is_ready (w_heap w) f" "wf_tp (w_heap w1 f) = wf_tp (w_heap w f)" for f
    by (simp_all add: w1 world_simps heap_simps)
  with links out show ?thesis by (simp add: wq_push_def w1 [symmetric])
qed

lemma wq_push_rep:
  assumes rep: "wq_rep w q xs" and fresh: "item \<notin> set xs"
    and links: "wf_nxt (w_heap w item) = None" "wf_prev (w_heap w item) = None"
    and out: "wf_phead (w_heap w item) = None"
  shows "\<exists>w'. wq_push q item w = Some w' \<and> wq_rep w' q (wq_insert (w_heap w) item xs) \<and>
     wq_frame q (insert item (set xs)) (upd_heap (attach_queue item q) w) w'"
proof -
  define w1 where "w1 = upd_heap (attach_queue item q) w"
  have rep1: "wq_rep w1 q xs"
    by (rule wq_rep_cong [OF rep]) (use fresh in \<open>auto simp: w1_def world_simps heap_simps\<close>)
  have item1: "wf_phead (w_heap w1 item) = Some q" "wf_ptail (w_heap w1 item) = Some q"
    "wf_nxt (w_heap w1 item) = None" "wf_prev (w_heap w1 item) = None"
    using links by (simp_all add: w1_def world_simps heap_simps)
  have same: "is_ready (w_heap w1) f = is_ready (w_heap w) f"
    "wf_tp (w_heap w1 f) = wf_tp (w_heap w f)" for f
    by (simp_all add: w1_def world_simps heap_simps)
  have before: "before_item (w_heap w1) item = before_item (w_heap w) item"
    by (simp add: fun_eq_iff before_item_def same)
  note push = wq_push_conv [OF links out w1_def]
  show ?thesis
  proof (cases xs)
    case Nil
    let ?w = "wq_head_set q (Some item) (wq_tail_set q (Some item) w1)"
    have "wq_rep ?w q [item]"
      using item1 by (simp add: wq_rep_def world_simps)
    moreover have "wq_push q item w = Some ?w"
      using rep1 Nil by (simp add: push wq_empty_def wq_rep_def)
    ultimately show ?thesis
      using Nil by (simp add: wq_insert_def wq_frame_ends w1_def)
  next
    case (Cons x ys)
    have head: "wq_head (w_wqs w1 q) = Some x" "x \<noteq> item"
      using rep1 fresh Cons by (auto simp: wq_rep_def)
    then have push': "\<not> wq_empty q w1" "wq_head (w_wqs w1 q) \<noteq> Some item"
      by (simp_all add: wq_empty_def)
    consider (ready) "is_ready (w_heap w) item"
      | (never) "\<not> is_ready (w_heap w) item" "wf_tp (w_heap w item) = time_point_max"
      | (timed) "\<not> is_ready (w_heap w) item" "wf_tp (w_heap w item) \<noteq> time_point_max"
      by blast
    then show ?thesis
    proof cases
      case ready
      with wq_link_front [OF rep1 [unfolded Cons] fresh [unfolded Cons] item1(1,2,4) refl] head push'
      show ?thesis by (auto simp: push wq_insert_def Cons w1_def)
    next
      case never
      obtain as f where xs: "xs = as @ [f]" using Cons by (metis list.distinct(1) rev_exhaust)
      then have "wq_tail (w_wqs w1 q) = Some f" using rep1 by (simp add: wq_rep_def)
      with wq_link_back [OF rep1 [unfolded xs] fresh [unfolded xs] item1(1,2,3) refl] never push'
      show ?thesis by (simp add: push wq_insert_def xs w1_def)
    next
      case timed
      have "\<exists>w'. wq_push_loop q item x None w1 = Some w' \<and>
          wq_rep w' q (takeWhile (before_item (w_heap w) item) xs @
            item # dropWhile (before_item (w_heap w) item) xs) \<and>
          wq_frame q (insert item (set xs)) w1 w'"
        using wq_push_loop_rep [of w1 q "[]" x ys item] rep1 fresh item1
        unfolding before Cons by (simp only: append_Nil last_or.simps simp_thms True_implies_equals)
      with timed head push' show ?thesis by (simp add: push wq_insert_def w1_def)
    qed
  qed
qed

text \<open>A fiber that is in a waiting queue already is not queued again.\<close>

lemma wq_push_attached:
  "wf_nxt (w_heap w item) = None \<Longrightarrow> wf_prev (w_heap w item) = None \<Longrightarrow>
   wf_phead (w_heap w item) \<noteq> None \<Longrightarrow> wq_push q item w = Some w"
  by (simp add: wq_push_def)

section \<open>Moving to the front\<close>

lemma wq_unlink:
  assumes rep: "wq_rep w q (as @ p # f # bs)"
    and w2: "w2 = upd_heap (next_set p (hd_or None bs))
      (case hd_or None bs of
         None \<Rightarrow> wq_tail_set q (Some p) w
       | Some n \<Rightarrow> upd_heap (prev_set n (Some p)) w)"
  shows "wq_rep w2 q (as @ p # bs)" and "wq_frame q (set (as @ p # f # bs)) w w2"
    and "w_heap w2 f = w_heap w f"
proof -
  have D: "distinct (as @ p # f # bs)" "dlseg (w_heap w) None (as @ p # f # bs) None"
    "wq_head (w_wqs w q) = hd_or None (as @ p # f # bs)"
    "wq_tail (w_wqs w q) = last_or None (as @ p # f # bs)"
    "\<forall>x \<in> set (as @ p # f # bs). wf_phead (w_heap w x) = Some q \<and> wf_ptail (w_heap w x) = Some q"
    using rep unfolding wq_rep_def by blast+
  show frame: "wq_frame q (set (as @ p # f # bs)) w w2"
    unfolding w2 by (cases bs) (auto intro!: wq_frame_intros)
  show "w_heap w2 f = w_heap w f"
    unfolding w2 using D(1) by (cases bs) (auto simp: world_simps heap_simps)
  have as: "dlseg (w_heap w2) None as (Some p) \<longleftrightarrow> dlseg (w_heap w) None as (Some p)"
    by (rule dlseg_cong) (use D(1) in \<open>cases bs; auto simp: w2 world_simps heap_simps\<close>)
  have "dlseg (w_heap w2) None (as @ p # bs) None"
  proof (cases bs)
    case Nil
    with as D(1,2) show ?thesis by (simp add: w2 world_simps heap_simps)
  next
    case (Cons n bs')
    have "dlseg (w_heap w2) (Some n) bs' None \<longleftrightarrow> dlseg (w_heap w) (Some n) bs' None"
      by (rule dlseg_cong) (use D(1) Cons in \<open>auto simp: w2 world_simps heap_simps\<close>)
    with as D(1,2) Cons show ?thesis by (auto simp: w2 world_simps heap_simps)
  qed
  moreover have "wq_head (w_wqs w2 q) = hd_or None (as @ p # bs)"
    "wq_tail (w_wqs w2 q) = last_or None (as @ p # bs)"
    using D(3,4) by (cases bs; simp add: w2 world_simps)+
  moreover have "wf_phead (w_heap w2 x) = wf_phead (w_heap w x)"
    "wf_ptail (w_heap w2 x) = wf_ptail (w_heap w x)" for x
    using links_frame_fields [OF wq_frameD(1) [OF frame]] by blast+
  ultimately show "wq_rep w2 q (as @ p # bs)"
    using D(1,5) unfolding wq_rep_def by auto
qed

lemma wq_frame_trans:
  assumes "wq_frame q A w w'" and "wq_frame q B w' w''" and "A \<subseteq> C" and "B \<subseteq> C"
  shows "wq_frame q C w w''"
  using assms unfolding wq_frame_def by (auto intro: links_frame_trans)

lemma upd_heap_prev_next_commute:
  "upd_heap (prev_reset f) (upd_heap (next_set f v) w) =
   upd_heap (next_set f v) (upd_heap (prev_reset f) w)"
  by (cases "w_heap w f") (simp add: world_simps heap_simps)

lemma w_wqs_upd_heap [simp]: "w_wqs (upd_heap g w) = w_wqs w"
  by (simp add: upd_heap_def)

text \<open>A fiber that has a predecessor: it is unlinked and linked in at the front.\<close>

lemma wq_move_to_run_conv:
  assumes f: "wf_prev (w_heap w f) = Some p" "wf_nxt (w_heap w f) = hd_or None bs" "wf_phead (w_heap w f) = Some q"
      "wf_ptail (w_heap w f) = Some q" "p \<noteq> f" "f \<notin> set bs"
    and st: "\<not> is_running (w_heap w) f"
    and w1: "w1 = (case hd_or None bs of None \<Rightarrow> wq_tail_set q (Some p) w | Some n \<Rightarrow> upd_heap (prev_set n (Some p)) w)"
    and head: "wq_head (w_wqs w1 q) = Some a"
  shows "wq_move_to_run f w = Some (wq_head_set q (Some f) (upd_heap (prev_set a (Some f))
     (upd_heap (next_set f (Some a)) (upd_heap (prev_reset f) (upd_heap (next_set p (hd_or None bs)) w1)))))"
proof -
  have "(case wf_nxt (w_heap w f) of
           None \<Rightarrow> do { tq \<leftarrow> wf_ptail (w_heap w f); Some (wq_tail_set tq (Some p) w) }
         | Some n \<Rightarrow> Some (upd_heap (prev_set n (Some p)) w)) = Some w1"
    using f by (cases bs) (simp_all add: w1)
  moreover have "wf_nxt (w_heap w1 f) = hd_or None bs"
    using f unfolding w1 by (cases bs) (auto simp: world_simps heap_simps)
  ultimately show ?thesis using st f head by (simp add: wq_move_to_run_def upd_heap_prev_next_commute)
qed

lemma wq_move_to_run_inner:
  assumes rep: "wq_rep w q (as @ p # f # bs)" and st: "\<not> is_running (w_heap w) f"
  shows "\<exists>w'. wq_move_to_run f w = Some w' \<and> wq_rep w' q (f # as @ p # bs) \<and> wq_frame q (set (as @ p # f # bs)) w w'"
proof -
  define w1 where "w1 = (case hd_or None bs of None \<Rightarrow> wq_tail_set q (Some p) w | Some n \<Rightarrow> upd_heap (prev_set n (Some p)) w)"
  define w2 where "w2 = upd_heap (next_set p (hd_or None bs)) w1"
  note unlink = wq_unlink [OF rep w2_def [unfolded w1_def]]
  have f: "wf_prev (w_heap w f) = Some p" "wf_nxt (w_heap w f) = hd_or None bs"
    "wf_phead (w_heap w f) = Some q" "wf_ptail (w_heap w f) = Some q"
    "p \<noteq> f" "f \<notin> set bs" "f \<notin> set as"
    using rep by (auto simp: wq_rep_def)
  obtain a cs where cs: "as @ p # bs = a # cs" by (cases as) auto
  define w3 where "w3 = upd_heap (prev_reset f) w2"
  have rep3: "wq_rep w3 q (a # cs)"
    unfolding w3_def
    by (rule wq_rep_cong [OF unlink(1) [unfolded cs]])
      (use cs f in \<open>auto simp: world_simps heap_simps\<close>, (metis in_set_conv_decomp set_ConsD
        list.set_intros Un_iff set_append)+)
  have f3: "wf_phead (w_heap w3 f) = Some q" "wf_ptail (w_heap w3 f) = Some q"
    "wf_prev (w_heap w3 f) = None" "f \<notin> set (a # cs)"
    unfolding w3_def cs [symmetric] using unlink(3) f by (auto simp: world_simps heap_simps)
  define w' where "w' = wq_head_set q (Some f) (upd_heap (prev_set a (Some f)) (upd_heap (next_set f (Some a)) w3))"
  note link = wq_link_front [OF rep3 f3(4,1,2,3) w'_def]
  have "wq_head (w_wqs w1 q) = Some a" using unlink(1) cs by (simp add: wq_rep_def w2_def)
  from wq_move_to_run_conv [OF f(1-6) st w1_def this] have ex: "wq_move_to_run f w = Some w'" by (simp add: w'_def w3_def w2_def)
  have sets: "set (a # cs) \<subseteq> set (as @ p # f # bs)" using arg_cong [OF cs, of set] by auto
  have "wq_frame q {f} w2 w3" unfolding w3_def by (intro wq_frame_intros) simp
  then have "wq_frame q (set (as @ p # f # bs)) w w3" by (rule wq_frame_trans [OF unlink(2)]) auto
  then have "wq_frame q (set (as @ p # f # bs)) w w'" by (rule wq_frame_trans [OF _ link(2)]) (use sets in auto)
  with ex link(1) cs show ?thesis by simp
qed

lemma wq_move_to_run_rep:
  assumes rep: "wq_rep w q xs" and mem: "f \<in> set xs" and st: "\<not> is_running (w_heap w) f"
  shows "\<exists>w'. wq_move_to_run f w = Some w' \<and> wq_rep w' q (f # remove1 f xs) \<and>
     wq_frame q (set xs) w w'"
proof -
  obtain as bs where xs: "xs = as @ f # bs" "f \<notin> set as"
    using mem by (metis split_list_first)
  show ?thesis
  proof (cases as rule: rev_cases)
    case Nil
    with rep st xs have "wq_move_to_run f w = Some w"
      by (simp add: wq_move_to_run_def wq_rep_def)
    with rep Nil xs show ?thesis by auto
  next
    case (snoc as' p)
    with wq_move_to_run_inner [of w q as' p f bs] rep st xs show ?thesis by (auto simp: remove1_append)
  qed
qed

text \<open>The state change of \<^verbatim>\<open>set_ready\<close>, and the move it makes inside a waiting queue.\<close>

definition mark_ready :: "fid \<Rightarrow> world \<Rightarrow> world" where
  [world_simps]: "mark_ready f w = w\<lparr>w_heap := (w_heap w)(f := (w_heap w f)\<lparr>wf_state := READY\<rparr>)\<rparr>"

lemma set_ready_conv:
  "set_ready f w =
     (if wf_state (w_heap w f) = TERMINATED then None else wq_move_to_run f (mark_ready f w))"
  by (cases "wf_state (w_heap w f)")
    (simp_all add: set_ready_def exchange_state_def mark_ready_def)

lemma mark_ready_simps [simp]:
  "wf_state (w_heap (mark_ready f w) f) = READY"
  "x \<noteq> f \<Longrightarrow> w_heap (mark_ready f w) x = w_heap w x"
  "wf_prev (w_heap (mark_ready f w) x) = wf_prev (w_heap w x)"
  "wf_nxt (w_heap (mark_ready f w) x) = wf_nxt (w_heap w x)"
  "wf_tp (w_heap (mark_ready f w) x) = wf_tp (w_heap w x)"
  "wf_phead (w_heap (mark_ready f w) x) = wf_phead (w_heap w x)"
  "wf_ptail (w_heap (mark_ready f w) x) = wf_ptail (w_heap w x)"
  "wf_flags (w_heap (mark_ready f w) x) = wf_flags (w_heap w x)"
  "w_wqs (mark_ready f w) = w_wqs w"
  "w_mains (mark_ready f w) = w_mains w"
  by (simp_all add: mark_ready_def)

lemma wq_rep_mark_ready: "wq_rep (mark_ready f w) q xs \<longleftrightarrow> wq_rep w q xs"
proof -
  have *: "wq_rep w' q xs" if "wq_rep w q xs"
    "w_wqs w' = w_wqs w" "\<And>x. wf_prev (w_heap w' x) = wf_prev (w_heap w x) \<and>
      wf_nxt (w_heap w' x) = wf_nxt (w_heap w x) \<and> wf_phead (w_heap w' x) = wf_phead (w_heap w x) \<and>
      wf_ptail (w_heap w' x) = wf_ptail (w_heap w x)" for w w' :: world
    by (rule wq_rep_cong [OF that(1)]) (use that in auto)
  show ?thesis
    by (rule iffI; erule *) simp_all
qed

lemma set_ready_rep:
  assumes "wq_rep w q xs" and "f \<in> set xs" and "wf_state (w_heap w f) \<noteq> TERMINATED"
  shows "\<exists>w'. set_ready f w = Some w' \<and> wq_rep w' q (f # remove1 f xs) \<and>
     wq_frame q (set xs) (mark_ready f w) w'"
  using wq_move_to_run_rep [of "mark_ready f w" q xs f] assms
  by (simp add: set_ready_conv wq_rep_mark_ready is_running_def)

text \<open>Outside every waiting queue only the state changes.\<close>

lemma set_ready_outside:
  assumes "wf_phead (w_heap w f) = None" and "wf_state (w_heap w f) \<noteq> TERMINATED"
  shows "set_ready f w = Some (mark_ready f w)"
  using assms
  by (auto simp: set_ready_conv wq_move_to_run_def is_running_def split: option.splits)

text \<open>A fiber that has ended must not be made ready again: the assertion fails.\<close>

lemma set_ready_terminated:
  "wf_state (w_heap w f) = TERMINATED \<Longrightarrow> set_ready f w = None"
  by (simp add: set_ready_conv)

section \<open>The order of a waiting queue\<close>

text \<open>
  Ready fibers come first, the others follow by increasing deadline; no deadline lies beyond
  \<open>time_point_max\<close>.
\<close>

definition wq_ordered :: "heap \<Rightarrow> fid list \<Rightarrow> bool" where
  "wq_ordered h xs \<longleftrightarrow>
     (\<exists>rs ws. xs = rs @ ws \<and> (\<forall>r \<in> set rs. is_ready h r) \<and>
        (\<forall>v \<in> set ws. \<not> is_ready h v \<and> wf_tp (h v) \<le> time_point_max) \<and>
        sorted (map (\<lambda>v. wf_tp (h v)) ws))"

lemma wq_orderedI:
  assumes "\<forall>r \<in> set rs. is_ready h r"
    and "\<forall>v \<in> set ws. \<not> is_ready h v \<and> wf_tp (h v) \<le> time_point_max"
    and "sorted (map (\<lambda>v. wf_tp (h v)) ws)"
  shows "wq_ordered h (rs @ ws)"
  using assms unfolding wq_ordered_def by blast

lemma wq_ordered_code [code]:
  "wq_ordered h xs \<longleftrightarrow>
     (let ws = dropWhile (is_ready h) xs in
      (\<forall>v \<in> set ws. \<not> is_ready h v \<and> wf_tp (h v) \<le> time_point_max) \<and>
      sorted (map (\<lambda>v. wf_tp (h v)) ws))" (is "_ = ?rhs")
proof
  assume "wq_ordered h xs"
  then obtain rs ws where *: "xs = rs @ ws" "\<forall>r \<in> set rs. is_ready h r"
    "\<forall>v \<in> set ws. \<not> is_ready h v \<and> wf_tp (h v) \<le> time_point_max"
    "sorted (map (\<lambda>v. wf_tp (h v)) ws)"
    unfolding wq_ordered_def by blast
  then have "dropWhile (is_ready h) xs = ws"
    using takeWhile_dropWhile_split(2) [of rs "is_ready h" ws] by (cases ws) auto
  with * show ?rhs by (simp add: Let_def)
next
  assume ?rhs
  then have "wq_ordered h (takeWhile (is_ready h) xs @ dropWhile (is_ready h) xs)"
    by (intro wq_orderedI) (auto simp: Let_def dest: set_takeWhileD)
  then show "wq_ordered h xs" by simp
qed

lemma wq_ordered_cong:
  assumes "\<And>x. x \<in> set xs \<Longrightarrow> wf_state (h' x) = wf_state (h x) \<and> wf_tp (h' x) = wf_tp (h x)"
    and "wq_ordered h xs"
  shows "wq_ordered h' xs"
proof -
  obtain rs ws where "xs = rs @ ws" "\<forall>r \<in> set rs. is_ready h r"
    "\<forall>v \<in> set ws. \<not> is_ready h v \<and> wf_tp (h v) \<le> time_point_max"
    "sorted (map (\<lambda>v. wf_tp (h v)) ws)"
    using assms(2) unfolding wq_ordered_def by blast
  moreover from this(1) assms(1) have "map (\<lambda>v. wf_tp (h' v)) ws = map (\<lambda>v. wf_tp (h v)) ws"
    by simp
  ultimately show ?thesis
    using assms(1) unfolding wq_ordered_def is_ready_def
    by (metis Un_iff set_append)
qed

lemma wq_ordered_frame:
  "links_frame A h h' \<Longrightarrow> wq_ordered h xs \<Longrightarrow> wq_ordered h' xs"
  by (erule wq_ordered_cong [rotated]) (simp add: links_frame_fields)

lemma before_item_split:
  assumes "\<forall>r \<in> set rs. is_ready h r" and "\<forall>v \<in> set ws. \<not> is_ready h v"
  shows "takeWhile (before_item h item) (rs @ ws) =
      rs @ takeWhile (\<lambda>v. wf_tp (h v) < wf_tp (h item)) ws"
    and "dropWhile (before_item h item) (rs @ ws) = dropWhile (\<lambda>v. wf_tp (h v) < wf_tp (h item)) ws"
proof -
  have rs: "before_item h item r" if "r \<in> set rs" for r
    using that assms(1) by (simp add: before_item_def)
  have ws: "takeWhile (before_item h item) ws = takeWhile (\<lambda>v. wf_tp (h v) < wf_tp (h item)) ws"
    "dropWhile (before_item h item) ws = dropWhile (\<lambda>v. wf_tp (h v) < wf_tp (h item)) ws"
    using assms(2) by (auto simp: before_item_def intro: takeWhile_cong dropWhile_cong)
  show "takeWhile (before_item h item) (rs @ ws) =
      rs @ takeWhile (\<lambda>v. wf_tp (h v) < wf_tp (h item)) ws"
    using rs ws(1) by (simp add: takeWhile_append2)
  show "dropWhile (before_item h item) (rs @ ws) = dropWhile (\<lambda>v. wf_tp (h v) < wf_tp (h item)) ws"
    using rs ws(2) by (simp add: dropWhile_append2)
qed

lemma sorted_insert_before:
  fixes t :: "'a \<Rightarrow> int"
  assumes "sorted (map t ws)"
  shows "sorted (map t (takeWhile (\<lambda>v. t v < t x) ws @ x # dropWhile (\<lambda>v. t v < t x) ws))"
proof -
  have ge: "t x \<le> t y" if "y \<in> set (dropWhile (\<lambda>v. t v < t x) ws)" for y
    using assms that by (induction ws) (auto split: if_splits)
  have "sorted (map t (takeWhile (\<lambda>v. t v < t x) ws) @ map t (dropWhile (\<lambda>v. t v < t x) ws))"
    using assms by (simp flip: map_append)
  then have "sorted (map t (takeWhile (\<lambda>v. t v < t x) ws))"
    "sorted (map t (dropWhile (\<lambda>v. t v < t x) ws))"
    by (simp_all only: sorted_append)
  with ge show ?thesis
    by (fastforce simp: sorted_append dest: set_takeWhileD)
qed

text \<open>\<^verbatim>\<open>push\<close> keeps the order.\<close>

lemma wq_insert_ordered:
  assumes ord: "wq_ordered h xs" and tp: "wf_tp (h item) \<le> time_point_max"
  shows "wq_ordered h (wq_insert h item xs)"
proof -
  obtain rs ws where xs: "xs = rs @ ws" and rs: "\<forall>r \<in> set rs. is_ready h r"
    and ws: "\<forall>v \<in> set ws. \<not> is_ready h v \<and> wf_tp (h v) \<le> time_point_max"
    and sorted: "sorted (map (\<lambda>v. wf_tp (h v)) ws)"
    using ord unfolding wq_ordered_def by blast
  show ?thesis
  proof (cases "is_ready h item")
    case True
    then show ?thesis
      using wq_orderedI [of "item # rs" h ws] rs ws sorted by (simp add: wq_insert_def xs)
  next
    case wait: False
    let ?ws = "takeWhile (\<lambda>v. wf_tp (h v) < wf_tp (h item)) ws @
      item # dropWhile (\<lambda>v. wf_tp (h v) < wf_tp (h item)) ws"
    have "wq_ordered h (rs @ ?ws)"
      by (rule wq_orderedI [OF rs _ sorted_insert_before [OF sorted]])
        (use ws wait tp in \<open>auto dest: set_takeWhileD set_dropWhileD\<close>)
    moreover have "wq_ordered h (rs @ (ws @ [item]))" if "wf_tp (h item) = time_point_max"
      by (rule wq_orderedI [OF rs]) (use ws wait sorted that in \<open>auto simp: sorted_append\<close>)
    ultimately show ?thesis
      using wait rs ws by (auto simp: wq_insert_def xs before_item_split)
  qed
qed

text \<open>Moving a fiber that has become ready to the front keeps the order.\<close>

lemma wq_move_to_front_ordered:
  assumes ord: "wq_ordered h xs" and mem: "f \<in> set xs" "distinct xs"
    and h': "is_ready h' f"
      "\<And>x. x \<in> set xs \<Longrightarrow> x \<noteq> f \<Longrightarrow> wf_state (h' x) = wf_state (h x) \<and> wf_tp (h' x) = wf_tp (h x)"
  shows "wq_ordered h' (f # remove1 f xs)"
proof -
  obtain rs ws where xs: "xs = rs @ ws" and rs: "\<forall>r \<in> set rs. is_ready h r"
    and ws: "\<forall>v \<in> set ws. \<not> is_ready h v \<and> wf_tp (h v) \<le> time_point_max"
    and sorted: "sorted (map (\<lambda>v. wf_tp (h v)) ws)"
    using ord unfolding wq_ordered_def by blast
  have ready: "is_ready h' r" if "r \<in> set rs" for r
    by (cases "r = f") (use that rs h' xs in \<open>auto simp: is_ready_def\<close>)
  have "wq_ordered h' ((f # remove1 f rs) @ remove1 f ws)"
  proof (rule wq_orderedI)
    show "\<forall>r \<in> set (f # remove1 f rs). is_ready h' r"
      using ready h'(1) set_remove1_subset [of f rs] by auto
    have keep: "wf_state (h' v) = wf_state (h v) \<and> wf_tp (h' v) = wf_tp (h v) \<and> v \<in> set ws"
      if "v \<in> set (remove1 f ws)" for v
      using that h'(2) [of v] mem(2) xs by simp
    with ws show "\<forall>v \<in> set (remove1 f ws). \<not> is_ready h' v \<and> wf_tp (h' v) \<le> time_point_max"
      by (simp add: is_ready_def)
    have "sorted (map (\<lambda>v. wf_tp (h v)) (remove1 f ws))"
      by (rule sorted_map_remove1 [OF sorted])
    moreover have "map (\<lambda>v. wf_tp (h' v)) (remove1 f ws) = map (\<lambda>v. wf_tp (h v)) (remove1 f ws)"
      using keep by simp
    ultimately show "sorted (map (\<lambda>v. wf_tp (h' v)) (remove1 f ws))" by metis
  qed
  moreover have "f # remove1 f xs = (f # remove1 f rs) @ remove1 f ws"
    using mem xs by (auto simp: remove1_append remove1_idem disjoint_iff)
  ultimately show ?thesis by simp
qed

end
