(* ===== verification/Sched_Algorithm.thy ===== *)
theory Sched_Algorithm
  imports Fifo Waiting_Queue
begin

text \<open>
  The interface between a scheduler and the algorithm that orders its ready fibers
  (\<^verbatim>\<open>struct sched_algorithm\<close> in \<^verbatim>\<open>fiber_manager.hpp\<close>), and the default algorithm behind it,
  \<^verbatim>\<open>round_robin\<close>.
\<close>

section \<open>The virtual functions\<close>

text \<open>
  An algorithm is a table of functions over the fiber store and the algorithm's own state
  \<open>'s\<close>; calling a virtual function selects from the table.
\<close>

record 's sched_algorithm =
  sa_awakened :: "fid \<Rightarrow> heap \<Rightarrow> 's \<Rightarrow> (heap \<times> 's) option"
  sa_pick_next :: "heap \<Rightarrow> 's \<Rightarrow> (fid option \<times> heap \<times> 's) option"
  sa_priority :: "fid \<Rightarrow> int \<Rightarrow> heap \<Rightarrow> 's \<Rightarrow> (heap \<times> 's) option"

section \<open>What a scheduler relies on\<close>

text \<open>
  \<open>rq h s xs\<close>: the algorithm in state \<open>s\<close> holds the fibers \<open>xs\<close>. A woken fiber is
  kept until it is picked; a picked fiber is no longer linked; nothing but links is touched; and
  the queue does not care about changes elsewhere.
\<close>

locale sched_contract =
  fixes A :: "'s sched_algorithm"
    and rq :: "heap \<Rightarrow> 's \<Rightarrow> fid list \<Rightarrow> bool"
  assumes rq_distinct: "rq h s xs \<Longrightarrow> distinct xs"
    and rq_cong: "rq h s xs \<Longrightarrow>
      (\<And>x. x \<in> set xs \<Longrightarrow> wf_prev (h' x) = wf_prev (h x) \<and> wf_nxt (h' x) = wf_nxt (h x)) \<Longrightarrow>
      rq h' s xs"
    and awakened: "rq h s xs \<Longrightarrow> f \<notin> set xs \<Longrightarrow> is_ready h f \<Longrightarrow>
      wf_nxt (h f) = None \<Longrightarrow> wf_prev (h f) = None \<Longrightarrow>
      \<exists>h' s' ys. sa_awakened A f h s = Some (h', s') \<and> rq h' s' ys \<and>
        set ys = insert f (set xs) \<and> links_frame (insert f (set xs)) h h'"
    and pick_next_none: "rq h s [] \<Longrightarrow> sa_pick_next A h s = Some (None, h, s)"
    and pick_next_some: "rq h s xs \<Longrightarrow> xs \<noteq> [] \<Longrightarrow>
      \<exists>f h' s' ys. sa_pick_next A h s = Some (Some f, h', s') \<and> rq h' s' ys \<and>
        f \<notin> set ys \<and> set xs = insert f (set ys) \<and> wf_nxt (h' f) = None \<and> wf_prev (h' f) = None \<and>
        links_frame (set xs) h h'"

text \<open>An algorithm that also serves the ready fibers in the order they woke up.\<close>

locale fifo_sched_contract = sched_contract A rq
  for A :: "'s sched_algorithm" and rq :: "heap \<Rightarrow> 's \<Rightarrow> fid list \<Rightarrow> bool" +
  assumes awakened_fifo: "rq h s xs \<Longrightarrow> f \<notin> set xs \<Longrightarrow> is_ready h f \<Longrightarrow>
      wf_nxt (h f) = None \<Longrightarrow> wf_prev (h f) = None \<Longrightarrow>
      sa_awakened A f h s = Some (h', s') \<Longrightarrow> rq h' s' (xs @ [f])"
    and pick_next_fifo: "rq h s (x # xs) \<Longrightarrow> sa_pick_next A h s = Some (p, h', s') \<Longrightarrow>
      p = Some x \<and> rq h' s' xs"
    and rq_unique: "rq h s xs \<Longrightarrow> rq h s ys \<Longrightarrow> xs = ys"

section \<open>Round robin\<close>

type_synonym round_robin = fifo

definition round_robin_awakened :: "fid \<Rightarrow> heap \<Rightarrow> round_robin \<Rightarrow> (heap \<times> round_robin) option" where
  "round_robin_awakened f h rqueue = fifo_push f h rqueue"

definition round_robin_pick_next ::
  "heap \<Rightarrow> round_robin \<Rightarrow> (fid option \<times> heap \<times> round_robin) option" where
  "round_robin_pick_next h rqueue =
     (if \<not> fifo_empty rqueue then do {
        (victim, h', rqueue') \<leftarrow> fifo_pop h rqueue;
        Some (Some victim, h', rqueue') }
      else Some (None, h, rqueue))"

text \<open>Only the number is stored; the order of the queue does not depend on it.\<close>

definition round_robin_priority ::
  "fid \<Rightarrow> int \<Rightarrow> heap \<Rightarrow> round_robin \<Rightarrow> (heap \<times> round_robin) option" where
  "round_robin_priority f prio h rqueue = Some (priority_set f prio h, rqueue)"

definition round_robin_algo :: "round_robin sched_algorithm" where
  "round_robin_algo =
     \<lparr>sa_awakened = round_robin_awakened, sa_pick_next = round_robin_pick_next,
      sa_priority = round_robin_priority\<rparr>"

lemma round_robin_algo_simps [simp]:
  "sa_awakened round_robin_algo = round_robin_awakened"
  "sa_pick_next round_robin_algo = round_robin_pick_next"
  "sa_priority round_robin_algo = round_robin_priority"
  by (simp_all add: round_robin_algo_def)

lemma round_robin_pick_next_rep:
  assumes "fifo_rep h q (x # xs)"
  shows "\<exists>h' q'. round_robin_pick_next h q = Some (Some x, h', q') \<and> fifo_rep h' q' xs \<and>
     wf_nxt (h' x) = None \<and> wf_prev (h' x) = None \<and> links_frame (set (x # xs)) h h'"
  using fifo_pop_rep [OF assms] fifo_empty_iff [OF assms]
  by (auto simp: round_robin_pick_next_def)

lemma fifo_rep_unique:
  assumes "fifo_rep h q xs" and "fifo_rep h q ys"
  shows "xs = ys"
proof -
  have "dlseg h p xs None \<Longrightarrow> dlseg h p ys None \<Longrightarrow> hd_or None xs = hd_or None ys \<Longrightarrow> xs = ys"
    for p
  proof (induction xs arbitrary: ys p)
    case Nil
    then show ?case by (cases ys) auto
  next
    case (Cons x xs)
    then obtain zs where "ys = x # zs" by (cases ys) auto
    with Cons show ?case by auto
  qed
  with assms show ?thesis by (auto simp: fifo_rep_def)
qed

interpretation rr: fifo_sched_contract round_robin_algo fifo_rep
proof (unfold_locales, goal_cases)
  case (1 h s xs)
  then show ?case by (simp add: fifo_rep_def)
next
  case (2 h s xs h')
  then show ?case by (rule fifo_rep_cong) blast
next
  case (3 h s xs f)
  then show ?case
    using fifo_push_rep [of h s xs f] by (fastforce simp: round_robin_awakened_def)
next
  case (4 h s)
  then show ?case by (simp add: round_robin_pick_next_def fifo_empty_iff)
next
  case (5 h s xs)
  then obtain x ys where xs: "xs = x # ys" by (cases xs) auto
  then have "x \<notin> set ys" using 5 by (simp add: fifo_rep_def)
  with round_robin_pick_next_rep [of h s x ys] 5 xs show ?case by auto
next
  case (6 h s xs f h' s')
  then show ?case
    using fifo_push_rep [of h s xs f] by (auto simp: round_robin_awakened_def)
next
  case (7 h s x xs p h' s')
  then show ?case using round_robin_pick_next_rep [of h s x xs] by auto
next
  case (8 h s xs ys)
  then show ?case by (rule fifo_rep_unique)
qed

end
