(* ===== verification/Fiber_Manager.thy ===== *)
theory Fiber_Manager
  imports Sched_Algorithm
begin

text \<open>
  The scheduler of one thread (\<^verbatim>\<open>fiber_manager.hpp\<close>, \<^verbatim>\<open>src/fiber_manager.cpp\<close>,
  \<^verbatim>\<open>detail/scheduler.hpp\<close>). A call into Boost.Coroutine ends a segment of execution: a function
  that suspends the running fiber is a pair of definitions, \<open>\<dots>_enter\<close> up to the call of
  \<^verbatim>\<open>suspend\<close> and \<open>\<dots>_leave\<close> from its return; \<^verbatim>\<open>resume_\<close> is split at the switch in the
  same way. Every reading of the clock is an argument.
\<close>

record 's fiber_manager =
  fm_sched_algo :: 's
  fm_wqueue :: wqid
  fm_wait_interval :: duration
  fm_active :: "fid option"

text \<open>
  \<^verbatim>\<open>wait_interval_\<close> starts as ten milliseconds, counted in the clock's nanosecond ticks; the
  scheduling algorithm starts as a fresh \<^verbatim>\<open>round_robin\<close>.
\<close>

definition fiber_manager_init :: "wqid \<Rightarrow> round_robin fiber_manager" where
  "fiber_manager_init q =
     \<lparr>fm_sched_algo = fifo_init, fm_wqueue = q, fm_wait_interval = 10000000, fm_active = None\<rparr>"

definition fm_set_sched_algo :: "'t \<Rightarrow> 's fiber_manager \<Rightarrow> 't fiber_manager" where
  "fm_set_sched_algo algo m =
     \<lparr>fm_sched_algo = algo, fm_wqueue = fm_wqueue m, fm_wait_interval = fm_wait_interval m,
      fm_active = fm_active m\<rparr>"

definition fm_set_wait_interval :: "duration \<Rightarrow> 's fiber_manager \<Rightarrow> 's fiber_manager" where
  "fm_set_wait_interval d m = m\<lparr>fm_wait_interval := d\<rparr>"

definition fm_get_wait_interval :: "'s fiber_manager \<Rightarrow> duration" where
  "fm_get_wait_interval m = fm_wait_interval m"

definition fm_priority ::
  "'s sched_algorithm \<Rightarrow> fid \<Rightarrow> int \<Rightarrow> world \<Rightarrow> 's fiber_manager \<Rightarrow>
   (world \<times> 's fiber_manager) option" where
  "fm_priority A f prio w m = do {
     (h', s') \<leftarrow> sa_priority A f prio (w_heap w) (fm_sched_algo m);
     Some (w\<lparr>w_heap := h'\<rparr>, m\<lparr>fm_sched_algo := s'\<rparr>) }"

section \<open>Waking fibers\<close>

definition fetch_ready :: "fid \<Rightarrow> time_point \<Rightarrow> world \<Rightarrow> (bool \<times> world) option" where
  "fetch_ready f now w = do {
     assert_that (\<not> is_running (w_heap w) f);
     assert_that (\<not> is_terminated (w_heap w) f);
     w' \<leftarrow> (if wf_tp (w_heap w f) \<le> now \<or> interruption_requested (w_heap w f)
            then set_ready f w else Some w);
     Some (is_ready (w_heap w') f, w') }"

definition fm_move_to_run :: "fid option \<Rightarrow> world \<Rightarrow> world option" where
  "fm_move_to_run f w = (case f of None \<Rightarrow> Some w | Some x \<Rightarrow> wq_move_to_run x w)"

definition fm_spawn ::
  "'s sched_algorithm \<Rightarrow> fid \<Rightarrow> world \<Rightarrow> 's fiber_manager \<Rightarrow> (world \<times> 's fiber_manager) option" where
  "fm_spawn A f w m = do {
     assert_that (is_ready (w_heap w) f);
     (h', s') \<leftarrow> sa_awakened A f (w_heap w) (fm_sched_algo m);
     Some (w\<lparr>w_heap := h'\<rparr>, m\<lparr>fm_sched_algo := s'\<rparr>) }"

section \<open>Running\<close>

text \<open>
  \<^verbatim>\<open>resume_\<close> up to the switch: the fiber that was active before is kept in the local
  \<^verbatim>\<open>tmp\<close>, which is returned together with whether a switch takes place.
\<close>

definition fm_resume_enter ::
  "fid \<Rightarrow> world \<Rightarrow> 's fiber_manager \<Rightarrow> (bool \<times> fid option \<times> world \<times> 's fiber_manager) option" where
  "fm_resume_enter f w m = do {
     assert_that (is_ready (w_heap w) f);
     let tmp = fm_active m;
     let m1 = m\<lparr>fm_active := Some f\<rparr>;
     h1 \<leftarrow> set_running f (w_heap w);
     if tmp \<noteq> fm_active m1 then do {
       wf_resume f tmp h1;
       Some (True, tmp, w\<lparr>w_heap := h1\<rparr>, m1) }
     else Some (False, tmp, w\<lparr>w_heap := h1\<rparr>, m1) }"

text \<open>And from the moment control is back: a detached fiber that has ended is thrown away.\<close>

definition fm_resume_leave ::
  "fid option \<Rightarrow> world \<Rightarrow> 's fiber_manager \<Rightarrow> (world \<times> 's fiber_manager) option" where
  "fm_resume_leave tmp w m = do {
     a \<leftarrow> fm_active m;
     h1 \<leftarrow> (if detached (w_heap w a) \<and> is_terminated (w_heap w) a
            then deallocate a (w_heap w) else Some (w_heap w));
     Some (w\<lparr>w_heap := h1\<rparr>, m\<lparr>fm_active := tmp\<rparr>) }"

definition fm_next_wakeup :: "time_point \<Rightarrow> world \<Rightarrow> 's fiber_manager \<Rightarrow> time_point option" where
  "fm_next_wakeup now w m =
     (if wq_empty (fm_wqueue m) w then Some (now + fm_wait_interval m)
      else do {
        x \<leftarrow> wq_top (fm_wqueue m) w;
        let wakeup = wf_tp (w_heap w x);
        if time_point_max = wakeup then Some (now + fm_wait_interval m) else Some wakeup })"

text \<open>What a call of \<^verbatim>\<open>run\<close> ended with.\<close>

datatype control =
    Resumed fid "fid option"
  | Stayed fid
  | Suspended fid
  | Slept_until time_point

text \<open>
  One turn of the scheduler; both branches of the loop body return, so it runs once. \<open>now\<close> is
  the clock reading of \<^verbatim>\<open>move_to\<close>, \<open>now'\<close> the later one of \<^verbatim>\<open>next_wakeup\<close>.
\<close>

definition fm_run ::
  "'s sched_algorithm \<Rightarrow> time_point \<Rightarrow> time_point \<Rightarrow> world \<Rightarrow> 's fiber_manager \<Rightarrow>
   (control \<times> world \<times> 's fiber_manager) option" where
  "fm_run A now now' w m = do {
     (w1, s1) \<leftarrow> wq_move_to (sa_awakened A) fetch_ready (fm_wqueue m) now w (fm_sched_algo m);
     (p, h2, s2) \<leftarrow> sa_pick_next A (w_heap w1) s1;
     let w2 = w1\<lparr>w_heap := h2\<rparr>;
     let m2 = m\<lparr>fm_sched_algo := s2\<rparr>;
     case p of
       Some f \<Rightarrow> do {
         assert_that (is_ready (w_heap w2) f);
         (switched, tmp, w3, m3) \<leftarrow> fm_resume_enter f w2 m2;
         Some (if switched then Resumed f tmp else Stayed f, w3, m3) }
     | None \<Rightarrow>
         (case fm_active m2 of
            Some a \<Rightarrow> do {
              wf_suspend a (w_heap w2);
              Some (Suspended a, w2, m2) }
          | None \<Rightarrow> do {
              wakeup \<leftarrow> fm_next_wakeup now' w2 m2;
              Some (Slept_until wakeup, w2, m2) }) }"

section \<open>Giving up control\<close>

text \<open>
  \<^verbatim>\<open>wait_until\<close>: the caller's spin lock \<open>lk\<close> is released between the change of state and
  the entry into the queue. After the fiber has been resumed it tells whether the deadline is
  still ahead.
\<close>

definition fm_wait_until_enter ::
  "time_point \<Rightarrow> lock_state \<Rightarrow> world \<Rightarrow> 's fiber_manager \<Rightarrow>
   (lock_state \<times> world \<times> 's fiber_manager) option" where
  "fm_wait_until_enter timeout_time lk w m = do {
     a \<leftarrow> fm_active m;
     assert_that (is_running (w_heap w) a);
     h1 \<leftarrow> set_waiting a (w_heap w);
     lk' \<leftarrow> spin_unlock lk;
     let w2 = w\<lparr>w_heap := time_point_set a timeout_time h1\<rparr>;
     w3 \<leftarrow> wq_push (fm_wqueue m) a w2;
     wf_suspend a (w_heap w3);
     Some (lk', w3, m) }"

definition fm_wait_until_leave :: "time_point \<Rightarrow> time_point \<Rightarrow> bool" where
  "fm_wait_until_leave now timeout_time \<longleftrightarrow> now < timeout_time"

definition fm_wait_enter ::
  "lock_state \<Rightarrow> world \<Rightarrow> 's fiber_manager \<Rightarrow> (lock_state \<times> world \<times> 's fiber_manager) option" where
  "fm_wait_enter lk w m = fm_wait_until_enter time_point_max lk w m"

definition fm_wait_for_enter ::
  "time_point \<Rightarrow> duration \<Rightarrow> lock_state \<Rightarrow> world \<Rightarrow> 's fiber_manager \<Rightarrow>
   (lock_state \<times> world \<times> 's fiber_manager) option" where
  "fm_wait_for_enter now d lk w m = fm_wait_until_enter (now + d) lk w m"

definition fm_yield_enter ::
  "world \<Rightarrow> 's fiber_manager \<Rightarrow> (world \<times> 's fiber_manager) option" where
  "fm_yield_enter w m = do {
     a \<leftarrow> fm_active m;
     assert_that (is_running (w_heap w) a);
     w1 \<leftarrow> set_ready a w;
     w2 \<leftarrow> wq_push (fm_wqueue m) a w1;
     wf_suspend a (w_heap w2);
     Some (w2, m) }"

text \<open>
  \<^verbatim>\<open>join\<close> called by a fiber; the main context instead calls \<^verbatim>\<open>run\<close> until
  \<open>fm_join_main_done\<close>.
\<close>

definition fm_join_enter ::
  "fid \<Rightarrow> world \<Rightarrow> 's fiber_manager \<Rightarrow> (world \<times> 's fiber_manager) option" where
  "fm_join_enter f w m = do {
     assert_that (Some f \<noteq> fm_active m);
     a \<leftarrow> fm_active m;
     h1 \<leftarrow> set_waiting a (w_heap w);
     w2 \<leftarrow> wq_push (fm_wqueue m) a (w\<lparr>w_heap := h1\<rparr>);
     (joined, h3) \<leftarrow> wf_join f a (w_heap w2);
     let w3 = w2\<lparr>w_heap := h3\<rparr>;
     w4 \<leftarrow> (if \<not> joined then set_ready a w3 else Some w3);
     wf_suspend a (w_heap w4);
     Some (w4, m) }"

definition fm_join_leave :: "fid \<Rightarrow> world \<Rightarrow> unit option" where
  "fm_join_leave f w = assert_that (is_terminated (w_heap w) f)"

definition fm_join_main_done :: "fid \<Rightarrow> world \<Rightarrow> bool" where
  "fm_join_main_done f w \<longleftrightarrow> is_terminated (w_heap w) f"

definition fm_migrate ::
  "'s sched_algorithm \<Rightarrow> time_point \<Rightarrow> time_point \<Rightarrow> fid \<Rightarrow> world \<Rightarrow> 's fiber_manager \<Rightarrow>
   (control \<times> world \<times> 's fiber_manager) option" where
  "fm_migrate A now now' f w m = do {
     assert_that (is_ready (w_heap w) f);
     (w1, m1) \<leftarrow> fm_spawn A f w m;
     fm_run A now now' w1 m1 }"

text \<open>
  \<^verbatim>\<open>worker_fiber::release\<close>, called on a fiber that has just ended: take the list of the fibers
  that joined it under its spin lock, then make each of them ready, in the order they came. The
  clean-up of the fiber-specific data that follows is defined in \<open>Fiber_Specific\<close>.
\<close>

fun set_ready_all :: "fid list \<Rightarrow> world \<Rightarrow> world option" where
  "set_ready_all [] w = Some w"
| "set_ready_all (p # ps) w = do { w' \<leftarrow> set_ready p w; set_ready_all ps w' }"

definition wf_release_waiters :: "fid \<Rightarrow> world \<Rightarrow> world option" where
  "wf_release_waiters f w = do {
     assert_that (is_terminated (w_heap w) f);
     l \<leftarrow> spin_lock (wf_splk (w_heap w f));
     let waiting = wf_waiting (w_heap w f);
     l' \<leftarrow> spin_unlock l;
     let w1 = w\<lparr>w_heap := (w_heap w)(f := (w_heap w f)\<lparr>wf_waiting := [], wf_splk := l'\<rparr>)\<rparr>;
     set_ready_all waiting w1 }"

text \<open>\<^verbatim>\<open>worker_fiber::request_interruption\<close>.\<close>

definition request_interruption :: "bool \<Rightarrow> fid \<Rightarrow> world \<Rightarrow> world option" where
  "request_interruption req f w =
     (let w1 = upd_heap (\<lambda>h. h(f := interruption_requested_set req (h f))) w
      in if req then set_ready f w1 else Some w1)"

end
