(* ===== verification/Wake_Up.thy ===== *)
theory Wake_Up
  imports Fiber_Manager
begin

text \<open>
  The wake-up pass of a scheduler: \<^verbatim>\<open>waiting_queue::move_to\<close> with \<^verbatim>\<open>fetch_ready\<close>
  (\<^verbatim>\<open>detail/waiting_queue.hpp\<close>, \<^verbatim>\<open>src/fiber_manager.cpp\<close>). The pass hands the longest
  prefix of due fibers to the scheduling algorithm and leaves the rest of the queue as it was.
\<close>

section \<open>Which fibers are due and what waking them changes\<close>

definition fm_due :: "time_point \<Rightarrow> worker_fiber \<Rightarrow> bool" where
  "fm_due now r \<longleftrightarrow> wf_state r = READY \<or> wf_tp r \<le> now \<or> interruption_requested r"

definition woken :: "worker_fiber \<Rightarrow> worker_fiber" where
  "woken r = r\<lparr>wf_state := READY, wf_tp := time_point_max, wf_phead := None, wf_ptail := None\<rparr>"

definition wake_all :: "fid set \<Rightarrow> heap \<Rightarrow> heap" where
  "wake_all M h = (\<lambda>x. if x \<in> M then woken (h x) else h x)"

lemma woken_simps [simp]:
  "wf_state (woken r) = READY" "wf_tp (woken r) = time_point_max"
  "wf_phead (woken r) = None" "wf_ptail (woken r) = None"
  "wf_prev (woken r) = wf_prev r" "wf_nxt (woken r) = wf_nxt r" "wf_flags (woken r) = wf_flags r"
  "wf_callee (woken r) = wf_callee r" "wf_caller (woken r) = wf_caller r"
  "wf_waiting (woken r) = wf_waiting r" "wf_splk (woken r) = wf_splk r"
  "woken (woken r) = woken r"
  by (simp_all add: woken_def)

lemma wake_all_simps [simp]:
  "x \<in> M \<Longrightarrow> wake_all M h x = woken (h x)" "x \<notin> M \<Longrightarrow> wake_all M h x = h x"
  "wake_all {} h = h" "wake_all M (wake_all N h) = wake_all (M \<union> N) h"
  by (auto simp: wake_all_def)

lemma links_frame_wake_all:
  assumes "links_frame B h h'"
  shows "links_frame B (wake_all M h) (wake_all M h')"
proof -
  have "\<exists>p n. wake_all M h' f = (wake_all M h f)\<lparr>wf_prev := p, wf_nxt := n\<rparr>" for f
  proof -
    obtain p n where "h' f = (h f)\<lparr>wf_prev := p, wf_nxt := n\<rparr>"
      using assms unfolding links_frame_def by blast
    then have "wake_all M h' f = (wake_all M h f)\<lparr>wf_prev := p, wf_nxt := n\<rparr>"
      by (simp add: wake_all_def woken_def)
    then show ?thesis by blast
  qed
  with assms show ?thesis by (simp add: links_frame_def wake_all_def)
qed

section \<open>One step of the pass\<close>

lemma mark_ready_idem: "wf_state (w_heap w f) = READY \<Longrightarrow> mark_ready f w = w"
  by (cases "w_heap w f") (auto simp: mark_ready_def fun_upd_idem)

text \<open>At the head of the queue \<^verbatim>\<open>fetch_ready\<close> only changes the state.\<close>

lemma fetch_ready_head:
  assumes "wq_rep w q (x # ws)" and "wf_state (w_heap w x) \<in> {READY, WAITING}"
  shows "fetch_ready x now w =
     Some (fm_due now (w_heap w x), if fm_due now (w_heap w x) then mark_ready x w else w)"
proof -
  have "set_ready x w = Some (mark_ready x w)"
    using assms by (auto simp: set_ready_conv wq_move_to_run_def is_running_def wq_rep_def)
  moreover have "wf_state (w_heap w x) = READY \<Longrightarrow> mark_ready x w = w"
    by (rule mark_ready_idem)
  ultimately show ?thesis
    using assms(2)
    by (auto simp: fetch_ready_def fm_due_def is_running_def is_terminated_def is_ready_def)
qed

text \<open>The removal of the head in the body of the loop.\<close>

definition wq_drop_head :: "wqid \<Rightarrow> fid \<Rightarrow> world \<Rightarrow> world" where
  "wq_drop_head q x w1 =
     (let w2 = wq_head_set q (wf_nxt (w_heap w1 x)) w1;
          w3 = (case wq_head (w_wqs w2 q) of
                  None \<Rightarrow> wq_tail_set q None w2
                | Some y \<Rightarrow> upd_heap (prev_set y None) w2);
          w4 = upd_heap (next_reset x) w3;
          w5 = upd_heap (prev_reset x) w4;
          w6 = upd_heap (detach_queue x) w5
      in upd_heap (time_point_reset x) w6)"

lemma wq_drop_head_rep:
  assumes rep: "wq_rep w q (x # ws)" and w': "w' = wq_drop_head q x (mark_ready x w)"
  shows "wq_rep w' q ws" and "links_frame (set (x # ws)) (wake_all {x} (w_heap w)) (w_heap w')"
    and "wf_nxt (w_heap w' x) = None" and "wf_prev (w_heap w' x) = None"
    and "r \<noteq> q \<Longrightarrow> w_wqs w' r = w_wqs w r" and "w_mains w' = w_mains w"
proof -
  have D: "x \<notin> set ws" "distinct ws" "wf_nxt (w_heap w x) = hd_or None ws"
    "dlseg (w_heap w) (Some x) ws None" "wq_tail (w_wqs w q) = last_or None (x # ws)"
    "\<forall>x \<in> set ws. wf_phead (w_heap w x) = Some q \<and> wf_ptail (w_heap w x) = Some q"
    using rep by (simp_all add: wq_rep_def)
  note unf = w' wq_drop_head_def Let_def world_simps heap_simps
  show "w_wqs w' r = w_wqs w r" if "r \<noteq> q"
    using D that by (cases ws) (auto simp: unf)
  show "w_mains w' = w_mains w" "wf_nxt (w_heap w' x) = None" "wf_prev (w_heap w' x) = None"
    using D by (cases ws; auto simp: unf)+
  have old: "w_heap w' f = (w_heap w f)\<lparr>wf_prev := if Some f = hd_or None ws then None
     else wf_prev (w_heap w f)\<rparr>" if "f \<noteq> x" for f
    using D that by (cases ws; cases "w_heap w f") (auto simp: unf)
  have new: "w_heap w' x = (woken (w_heap w x))\<lparr>wf_prev := None, wf_nxt := None\<rparr>"
    using D by (cases ws; cases "w_heap w x") (auto simp: unf woken_def)
  have "\<exists>p n. w_heap w' f = (wake_all {x} (w_heap w) f)\<lparr>wf_prev := p, wf_nxt := n\<rparr>" for f
  proof (cases "f = x")
    case True
    then show ?thesis using new by auto
  next
    case False
    then show ?thesis using old [OF False]
      by (cases "w_heap w f") auto
  qed
  moreover have "w_heap w' f = wake_all {x} (w_heap w) f" if "f \<notin> set (x # ws)" for f
    using old [of f] that by (cases "w_heap w f"; cases ws) auto
  ultimately show "links_frame (set (x # ws)) (wake_all {x} (w_heap w)) (w_heap w')"
    unfolding links_frame_def by blast
  have rest: "wf_nxt (w_heap w' f) = wf_nxt (w_heap w f)"
    "wf_phead (w_heap w' f) = wf_phead (w_heap w f)"
    "wf_ptail (w_heap w' f) = wf_ptail (w_heap w f)"
    "Some f \<noteq> hd_or None ws \<Longrightarrow> wf_prev (w_heap w' f) = wf_prev (w_heap w f)" if "f \<in> set ws" for f
    using old [of f] that D(1) by (cases "f = x"; simp)+
  have "dlseg (w_heap w') None ws None"
  proof (cases ws)
    case (Cons y ys)
    have "dlseg (w_heap w') (Some y) ys None \<longleftrightarrow> dlseg (w_heap w) (Some y) ys None"
      by (rule dlseg_cong) (use D(2) Cons rest in force)
    then show ?thesis using D Cons old [of y] by auto
  qed simp
  moreover have "wq_head (w_wqs w' q) = hd_or None ws" "wq_tail (w_wqs w' q) = last_or None ws"
    using D by (cases ws; auto simp: unf)+
  moreover have "\<forall>y \<in> set ws. wf_phead (w_heap w' y) = Some q \<and> wf_ptail (w_heap w' y) = Some q"
    using D(6) rest by simp
  ultimately show "wq_rep w' q ws"
    using D(2) by (simp add: wq_rep_def)
qed

lemma wq_move_to_loop_step:
  assumes "wq_rep w q (x # ws)" and "wf_state (w_heap w x) \<in> {READY, WAITING}"
  shows "wq_move_to_loop awk fetch_ready q now (Some x) w s =
     (if fm_due now (w_heap w x) then do {
        (h', s') \<leftarrow> awk x (w_heap (wq_drop_head q x (mark_ready x w))) s;
        wq_move_to_loop awk fetch_ready q now (hd_or None ws)
          ((wq_drop_head q x (mark_ready x w))\<lparr>w_heap := h'\<rparr>) s' }
      else Some (w, s))"
proof -
  have "wq_head (w_wqs w q) = Some x" "wf_nxt (w_heap w x) = hd_or None ws"
    using assms(1) by (simp_all add: wq_rep_def)
  then show ?thesis
    using fetch_ready_head [OF assms]
    by (subst wq_move_to_loop.simps) (simp add: wq_drop_head_def Let_def)
qed

section \<open>The whole pass\<close>

text \<open>
  The prefix of due fibers ends up with the algorithm, marked ready, without deadline and detached
  from the queue; all other fibers keep everything but their links, and fibers outside both queues
  keep these as well.
\<close>

context sched_contract
begin

lemma move_to_step:
  assumes rep: "wq_rep w q (x # ws)" and rq: "rq (w_heap w) s rs"
    and disj: "set (x # ws) \<inter> set rs = {}" and st: "wf_state (w_heap w x) \<in> {READY, WAITING}"
    and due: "fm_due now (w_heap w x)"
  shows "\<exists>h1 w2 s2 ys. wq_move_to_loop (sa_awakened A) fetch_ready q now (Some x) w s =
       wq_move_to_loop (sa_awakened A) fetch_ready q now (hd_or None ws) w2 s2 \<and>
     wq_rep w2 q ws \<and> rq (w_heap w2) s2 ys \<and> set ys = insert x (set rs) \<and>
     rq h1 s rs \<and> is_ready h1 x \<and> wf_nxt (h1 x) = None \<and> wf_prev (h1 x) = None \<and>
     sa_awakened A x h1 s = Some (w_heap w2, s2) \<and>
     links_frame (set (x # ws) \<union> set rs) (wake_all {x} (w_heap w)) (w_heap w2) \<and>
     (\<forall>r. r \<noteq> q \<longrightarrow> w_wqs w2 r = w_wqs w r) \<and> w_mains w2 = w_mains w"
proof -
  define w1 where "w1 = wq_drop_head q x (mark_ready x w)"
  note drop = wq_drop_head_rep [OF rep w1_def]
  have x: "x \<notin> set ws" "x \<notin> set rs" "set ws \<inter> set rs = {}"
    using rep disj by (auto simp: wq_rep_def)
  have "w_heap w1 y = w_heap w y" if "y \<in> set rs" for y
    using links_frame_outside [OF drop(2), of y] disj that by (cases "y = x") auto
  then have rq1: "rq (w_heap w1) s rs"
    by (intro rq_cong [OF rq]) simp
  have ready: "is_ready (w_heap w1) x"
    using links_frame_fields(5) [OF drop(2), of x] by (simp add: is_ready_def)
  from rq1 ready obtain h2 s2 ys where aw: "sa_awakened A x (w_heap w1) s = Some (h2, s2)"
    "rq h2 s2 ys" "set ys = insert x (set rs)" "links_frame (insert x (set rs)) (w_heap w1) h2"
    using awakened [of "w_heap w1" s rs x] x drop(3,4) by metis
  define w2 where "w2 = w1\<lparr>w_heap := h2\<rparr>"
  have same: "w_heap w2 y = w_heap w1 y" if "y \<in> set ws" for y
    using links_frame_outside [OF aw(4), of y] that x by (auto simp: w2_def)
  have "wq_rep w2 q ws"
    by (rule wq_rep_cong [OF drop(1)]) (simp_all add: same, simp add: w2_def)
  moreover have "links_frame (set (x # ws) \<union> set rs) (wake_all {x} (w_heap w)) (w_heap w2)"
    unfolding w2_def by (simp, rule links_frame_trans [OF drop(2) aw(4)]) auto
  moreover have "\<forall>r. r \<noteq> q \<longrightarrow> w_wqs w2 r = w_wqs w r" "w_mains w2 = w_mains w"
    using drop(5,6) by (simp_all add: w2_def)
  moreover have "wq_move_to_loop (sa_awakened A) fetch_ready q now (Some x) w s =
       wq_move_to_loop (sa_awakened A) fetch_ready q now (hd_or None ws) w2 s2"
    using wq_move_to_loop_step [OF rep st, of "sa_awakened A" now s] due aw(1)
    by (simp add: w1_def [symmetric] w2_def)
  moreover have "rq (w_heap w2) s2 ys" "sa_awakened A x (w_heap w1) s = Some (w_heap w2, s2)"
    using aw(1,2) by (simp_all add: w2_def)
  ultimately show ?thesis using aw(3) rq1 ready drop(3,4) by blast
qed

text \<open>What a step leaves to the rest of the queue.\<close>

lemma move_to_step_rest:
  assumes "links_frame B (wake_all {x} (w_heap w)) (w_heap w2)" and "x \<notin> set ws" and "y \<in> set ws"
  shows "fm_due now (w_heap w2 y) = fm_due now (w_heap w y)"
    and "wf_state (w_heap w2 y) = wf_state (w_heap w y)"
proof -
  have "wake_all {x} (w_heap w) y = w_heap w y" using assms(2,3) by (cases "y = x") auto
  then show "fm_due now (w_heap w2 y) = fm_due now (w_heap w y)"
    "wf_state (w_heap w2 y) = wf_state (w_heap w y)"
    using links_frame_fields(2,5,6) [OF assms(1), of y]
    by (simp_all add: fm_due_def interruption_requested_def)
qed

lemma move_to_loop:
  assumes "wq_rep w q ws" and "rq (w_heap w) s rs" and "set ws \<inter> set rs = {}"
    and "\<forall>x \<in> set ws. wf_state (w_heap w x) \<in> {READY, WAITING}"
  shows "\<exists>w' s' rs'. wq_move_to_loop (sa_awakened A) fetch_ready q now (hd_or None ws) w s = Some (w', s') \<and>
     wq_rep w' q (dropWhile (\<lambda>x. fm_due now (w_heap w x)) ws) \<and> rq (w_heap w') s' rs' \<and>
     set rs' = set rs \<union> set (takeWhile (\<lambda>x. fm_due now (w_heap w x)) ws) \<and>
     links_frame (set ws \<union> set rs)
       (wake_all (set (takeWhile (\<lambda>x. fm_due now (w_heap w x)) ws)) (w_heap w)) (w_heap w') \<and>
     (\<forall>r. r \<noteq> q \<longrightarrow> w_wqs w' r = w_wqs w r) \<and> w_mains w' = w_mains w"
  using assms
proof (induction ws arbitrary: w s rs)
  case Nil
  then show ?case by (auto simp: wq_move_to_loop.simps)
next
  case (Cons x ws)
  show ?case
  proof (cases "fm_due now (w_heap w x)")
    case False
    with wq_move_to_loop_step [OF Cons.prems(1), of "sa_awakened A" now s] Cons.prems
    show ?thesis by auto
  next
    case True
    obtain h1 w2 s2 ys where step: "wq_move_to_loop (sa_awakened A) fetch_ready q now (Some x) w s =
       wq_move_to_loop (sa_awakened A) fetch_ready q now (hd_or None ws) w2 s2"
      "wq_rep w2 q ws" "rq (w_heap w2) s2 ys" "set ys = insert x (set rs)"
      "links_frame (set (x # ws) \<union> set rs) (wake_all {x} (w_heap w)) (w_heap w2)"
      "\<forall>r. r \<noteq> q \<longrightarrow> w_wqs w2 r = w_wqs w r" "w_mains w2 = w_mains w"
      using move_to_step [OF Cons.prems(1-3) _ True] Cons.prems(4) by auto
    have x: "x \<notin> set ws" "set ws \<inter> set ys = {}"
      using Cons.prems(1,3) step(4) by (auto simp: wq_rep_def)
    note rest = move_to_step_rest [OF step(5) x(1)]
    let ?T = "takeWhile (\<lambda>y. fm_due now (w_heap w y)) ws"
    have take: "takeWhile (\<lambda>y. fm_due now (w_heap w2 y)) ws = ?T"
      "dropWhile (\<lambda>y. fm_due now (w_heap w2 y)) ws = dropWhile (\<lambda>y. fm_due now (w_heap w y)) ws"
      using rest(1) by (auto intro: takeWhile_cong dropWhile_cong)
    have "\<forall>y \<in> set ws. wf_state (w_heap w2 y) \<in> {READY, WAITING}"
      using Cons.prems(4) by (simp add: rest(2))
    from Cons.IH [OF step(2,3) x(2) this, unfolded take]
    obtain w' s' rs' where IH:
      "wq_move_to_loop (sa_awakened A) fetch_ready q now (hd_or None ws) w2 s2 = Some (w', s')"
      "wq_rep w' q (dropWhile (\<lambda>x. fm_due now (w_heap w x)) ws)" "rq (w_heap w') s' rs'"
      "set rs' = set ys \<union> set ?T"
      "links_frame (set ws \<union> set ys) (wake_all (set ?T) (w_heap w2)) (w_heap w')"
      "\<forall>r. r \<noteq> q \<longrightarrow> w_wqs w' r = w_wqs w2 r" "w_mains w' = w_mains w2"
      by blast
    have "links_frame (set (x # ws) \<union> set rs) (wake_all (insert x (set ?T)) (w_heap w)) (w_heap w')"
      using links_frame_trans [OF links_frame_wake_all [OF step(5)] IH(5), of "set (x # ws) \<union> set rs"]
        step(4) by auto
    with True step(1,4,6,7) IH show ?thesis by auto
  qed
qed

end

text \<open>An algorithm that serves in order gets the woken fibers in the order of the waiting queue.\<close>

context fifo_sched_contract
begin

lemma move_to_loop_fifo:
  assumes "wq_rep w q ws" and "rq (w_heap w) s rs" and "set ws \<inter> set rs = {}"
    and "\<forall>x \<in> set ws. wf_state (w_heap w x) \<in> {READY, WAITING}"
    and "wq_move_to_loop (sa_awakened A) fetch_ready q now (hd_or None ws) w s = Some (w', s')"
  shows "rq (w_heap w') s' (rs @ takeWhile (\<lambda>x. fm_due now (w_heap w x)) ws)"
  using assms
proof (induction ws arbitrary: w s rs)
  case Nil
  then show ?case by (simp add: wq_move_to_loop.simps)
next
  case (Cons x ws)
  show ?case
  proof (cases "fm_due now (w_heap w x)")
    case False
    with wq_move_to_loop_step [OF Cons.prems(1), of "sa_awakened A" now s] Cons.prems
    show ?thesis by auto
  next
    case True
    obtain h1 w2 s2 ys where step: "wq_move_to_loop (sa_awakened A) fetch_ready q now (Some x) w s =
       wq_move_to_loop (sa_awakened A) fetch_ready q now (hd_or None ws) w2 s2"
      "wq_rep w2 q ws" "rq h1 s rs" "is_ready h1 x" "wf_nxt (h1 x) = None" "wf_prev (h1 x) = None"
      "sa_awakened A x h1 s = Some (w_heap w2, s2)"
      "links_frame (set (x # ws) \<union> set rs) (wake_all {x} (w_heap w)) (w_heap w2)"
      using move_to_step [OF Cons.prems(1-3) _ True] Cons.prems(4) by auto
    have x: "x \<notin> set ws" "x \<notin> set rs" "set ws \<inter> set (rs @ [x]) = {}"
      using Cons.prems(1,3) by (auto simp: wq_rep_def)
    note rest = move_to_step_rest [OF step(8) x(1)]
    have take: "takeWhile (\<lambda>y. fm_due now (w_heap w2 y)) ws = takeWhile (\<lambda>y. fm_due now (w_heap w y)) ws"
      using rest(1) by (auto intro: takeWhile_cong)
    have st: "\<forall>y \<in> set ws. wf_state (w_heap w2 y) \<in> {READY, WAITING}"
      using Cons.prems(4) by (simp add: rest(2))
    from Cons.IH [OF step(2) awakened_fifo [OF step(3) x(2) step(4-7)] x(3) st] Cons.prems(5)
    show ?thesis using True take step(1) by simp
  qed
qed

end

end
