(* ===== verification/Scheduling.thy ===== *)
theory Scheduling
  imports Wake_Up
begin

text \<open>
  Correctness of the scheduler of one thread. \<open>fm_queues\<close> is the invariant of its two queues,
  \<open>fm_running\<close> says that a fiber holds the processor. Every operation of
  \<^verbatim>\<open>src/fiber_manager.cpp\<close> is shown to return (none of its assertions fails) and to carry the
  invariant over, for any scheduling algorithm that keeps the contract \<open>sched_contract\<close>.
\<close>

section \<open>The invariant\<close>

text \<open>A fiber that can be resumed and suspended: it owns its coroutine and can leave it.\<close>

definition has_coro :: "worker_fiber \<Rightarrow> bool" where
  "has_coro r \<longleftrightarrow> wf_callee r \<and> wf_caller r"

definition unqueued :: "worker_fiber \<Rightarrow> bool" where
  "unqueued r \<longleftrightarrow> wf_prev r = None \<and> wf_nxt r = None \<and> wf_phead r = None \<and> wf_ptail r = None"

definition fm_queues ::
  "(heap \<Rightarrow> 's \<Rightarrow> fid list \<Rightarrow> bool) \<Rightarrow> world \<Rightarrow> 's fiber_manager \<Rightarrow> fid list \<Rightarrow> fid list \<Rightarrow> bool" where
  "fm_queues rq w m ws rs \<longleftrightarrow>
     wq_rep w (fm_wqueue m) ws \<and> wq_ordered (w_heap w) ws \<and>
     rq (w_heap w) (fm_sched_algo m) rs \<and> set ws \<inter> set rs = {} \<and>
     (\<forall>x \<in> set ws. wf_state (w_heap w x) \<in> {READY, WAITING}) \<and>
     (\<forall>x \<in> set rs. wf_state (w_heap w x) = READY \<and> wf_tp (w_heap w x) = time_point_max \<and>
        wf_phead (w_heap w x) = None \<and> wf_ptail (w_heap w x) = None) \<and>
     (\<forall>x \<in> set ws \<union> set rs. has_coro (w_heap w x))"

definition fm_running :: "world \<Rightarrow> 's fiber_manager \<Rightarrow> fid \<Rightarrow> bool" where
  "fm_running w m a \<longleftrightarrow>
     fm_active m = Some a \<and> wf_state (w_heap w a) = RUNNING \<and> unqueued (w_heap w a) \<and>
     wf_tp (w_heap w a) = time_point_max \<and> has_coro (w_heap w a)"

lemma fm_queuesD:
  assumes "fm_queues rq w m ws rs"
  shows "wq_rep w (fm_wqueue m) ws" "wq_ordered (w_heap w) ws"
    "rq (w_heap w) (fm_sched_algo m) rs" "set ws \<inter> set rs = {}"
    "x \<in> set ws \<Longrightarrow> wf_state (w_heap w x) \<in> {READY, WAITING}"
    "x \<in> set rs \<Longrightarrow> wf_state (w_heap w x) = READY"
    "x \<in> set rs \<Longrightarrow> wf_tp (w_heap w x) = time_point_max"
    "x \<in> set rs \<Longrightarrow> wf_phead (w_heap w x) = None"
    "x \<in> set rs \<Longrightarrow> wf_ptail (w_heap w x) = None"
    "x \<in> set ws \<union> set rs \<Longrightarrow> has_coro (w_heap w x)"
  using assms unfolding fm_queues_def by blast+

lemma fm_queues_states:
  assumes "fm_queues rq w m ws rs" and "wf_state (w_heap w x) \<in> {RUNNING, TERMINATED}"
  shows "x \<notin> set ws" and "x \<notin> set rs"
  using fm_queuesD(5,6) [OF assms(1), of x] assms(2) by auto

lemma fm_running_outside:
  assumes "fm_queues rq w m ws rs" and "fm_running w m a"
  shows "a \<notin> set ws" and "a \<notin> set rs"
  using fm_queues_states [OF assms(1), of a] assms(2) by (auto simp: fm_running_def)

lemma wq_ordered_tl:
  assumes "wq_ordered h xs"
  shows "wq_ordered h (tl xs)"
proof -
  obtain rs ws where *: "xs = rs @ ws" "\<forall>r \<in> set rs. is_ready h r"
    "\<forall>v \<in> set ws. \<not> is_ready h v \<and> wf_tp (h v) \<le> time_point_max"
    "sorted (map (\<lambda>v. wf_tp (h v)) ws)"
    using assms unfolding wq_ordered_def by blast
  then have "wq_ordered h (tl rs @ ws)" "wq_ordered h ([] @ tl ws)"
    by (intro wq_orderedI; cases rs; cases ws; simp)+
  with *(1) show ?thesis by (cases rs) auto
qed

lemma wq_ordered_suffix: "wq_ordered h (xs @ ys) \<Longrightarrow> wq_ordered h ys"
  by (induction xs) (auto dest: wq_ordered_tl)

lemma wq_ordered_dropWhile: "wq_ordered h xs \<Longrightarrow> wq_ordered h (dropWhile P xs)"
  by (metis takeWhile_dropWhile_id wq_ordered_suffix)

text \<open>
  In an ordered queue in which nobody sleeps on a pending interruption, the prefix of due fibers
  is all of them.
\<close>

lemma due_prefix_complete:
  assumes "wq_ordered (w_heap w) ws"
    and "\<forall>x \<in> set ws. interruption_requested (w_heap w x) \<longrightarrow> is_ready (w_heap w) x"
  shows "takeWhile (\<lambda>x. fm_due now (w_heap w x)) ws = filter (\<lambda>x. fm_due now (w_heap w x)) ws"
    and "dropWhile (\<lambda>x. fm_due now (w_heap w x)) ws = filter (\<lambda>x. \<not> fm_due now (w_heap w x)) ws"
proof -
  let ?P = "\<lambda>x. fm_due now (w_heap w x)"
  obtain rs vs where *: "ws = rs @ vs" "\<forall>r \<in> set rs. is_ready (w_heap w) r"
    "\<forall>v \<in> set vs. \<not> is_ready (w_heap w) v"
    "sorted (map (\<lambda>v. wf_tp (w_heap w v)) vs)"
    using assms(1) unfolding wq_ordered_def by blast
  have P: "?P v \<longleftrightarrow> wf_tp (w_heap w v) \<le> now" if "v \<in> set vs" for v
    using that * assms(2) by (auto simp: fm_due_def is_ready_def)
  have "takeWhile ?P vs = filter ?P vs \<and> dropWhile ?P vs = filter (\<lambda>x. \<not> ?P x) vs"
    using *(4) P
  proof (induction vs)
    case (Cons v vs)
    have "filter ?P vs = [] \<and> filter (\<lambda>x. \<not> ?P x) vs = vs" if "\<not> ?P v"
      using Cons.prems that by (auto simp: filter_empty_conv filter_id_conv)
    with Cons show ?case by auto
  qed simp
  moreover have "?P r" if "r \<in> set rs" for r
    using that *(2) by (auto simp: fm_due_def is_ready_def)
  moreover from this have "filter (\<lambda>x. \<not> ?P x) rs = []" "filter ?P rs = rs"
    by (auto simp: filter_empty_conv filter_id_conv)
  ultimately show "takeWhile ?P ws = filter ?P ws" "dropWhile ?P ws = filter (\<lambda>x. \<not> ?P x) ws"
    by (simp_all add: *(1) takeWhile_append2 dropWhile_append2)
qed

section \<open>Frames for the invariant\<close>

definition sched_same :: "worker_fiber \<Rightarrow> worker_fiber \<Rightarrow> bool" where
  "sched_same r r' \<longleftrightarrow>
     wf_prev r' = wf_prev r \<and> wf_nxt r' = wf_nxt r \<and> wf_phead r' = wf_phead r \<and>
     wf_ptail r' = wf_ptail r \<and> wf_tp r' = wf_tp r \<and> wf_state r' = wf_state r \<and>
     wf_callee r' = wf_callee r \<and> wf_caller r' = wf_caller r"

text \<open>The state change that \<^verbatim>\<open>set_ready\<close> makes on each of a set of fibers.\<close>

definition ready_all :: "fid set \<Rightarrow> heap \<Rightarrow> heap" where
  "ready_all M h = (\<lambda>x. if x \<in> M then (h x)\<lparr>wf_state := READY\<rparr> else h x)"

lemma links_frame_ready_all:
  assumes "links_frame B h h'"
  shows "links_frame B (ready_all M h) (ready_all M h')"
proof -
  have "\<exists>p n. ready_all M h' f = (ready_all M h f)\<lparr>wf_prev := p, wf_nxt := n\<rparr>" for f
  proof -
    obtain p n where "h' f = (h f)\<lparr>wf_prev := p, wf_nxt := n\<rparr>"
      using assms unfolding links_frame_def by blast
    then have "ready_all M h' f = (ready_all M h f)\<lparr>wf_prev := p, wf_nxt := n\<rparr>"
      by (simp add: ready_all_def)
    then show ?thesis by blast
  qed
  with assms show ?thesis by (simp add: links_frame_def ready_all_def)
qed

lemma links_frame_update:
  assumes "links_frame B h h'"
    and "\<And>r p n. g (r\<lparr>wf_prev := p, wf_nxt := n\<rparr>) = (g r)\<lparr>wf_prev := p, wf_nxt := n\<rparr>"
  shows "links_frame B (h(f := g (h f))) (h'(f := g (h' f)))"
  using assms unfolding links_frame_def by (metis fun_upd_apply)

lemma ready_all_simps:
  "ready_all M (ready_all N h) = ready_all (M \<union> N) h" "ready_all {} h = h"
  "w_heap (mark_ready f w) = ready_all {f} (w_heap w)"
  by (auto simp: ready_all_def mark_ready_def)

lemma ready_all_single: "ready_all {f} h = h(f := (h f)\<lparr>wf_state := READY\<rparr>)"
  by (auto simp: ready_all_def)

context sched_contract
begin

text \<open>The invariant reads these fields of a fiber only.\<close>

lemma queues_cong_fields:
  assumes Q: "fm_queues rq w m ws rs" and wq: "w_wqs w' (fm_wqueue m) = w_wqs w (fm_wqueue m)"
    and m: "fm_wqueue m' = fm_wqueue m" "fm_sched_algo m' = fm_sched_algo m"
    and same: "\<And>x. x \<in> set ws \<union> set rs \<Longrightarrow> sched_same (w_heap w x) (w_heap w' x)"
  shows "fm_queues rq w' m' ws rs"
proof -
  note D = fm_queuesD [OF Q] and same' = same [unfolded sched_same_def]
  have "wq_rep w' (fm_wqueue m') ws"
    unfolding m(1) by (rule wq_rep_cong [OF D(1) wq]) (simp add: same')
  moreover have "wq_ordered (w_heap w') ws"
    by (rule wq_ordered_cong [OF _ D(2)]) (simp add: same')
  moreover have "rq (w_heap w') (fm_sched_algo m') rs"
    unfolding m(2) by (rule rq_cong [OF D(3)]) (simp add: same')
  ultimately show ?thesis
    using D(4-) same' unfolding fm_queues_def has_coro_def by simp
qed

text \<open>Nothing that happens to fibers outside the two queues matters.\<close>

lemma queues_cong:
  assumes "fm_queues rq w m ws rs" and "w_wqs w' (fm_wqueue m) = w_wqs w (fm_wqueue m)"
    and "fm_wqueue m' = fm_wqueue m" and "fm_sched_algo m' = fm_sched_algo m"
    and "\<And>x. x \<in> set ws \<union> set rs \<Longrightarrow> w_heap w' x = w_heap w x"
  shows "fm_queues rq w' m' ws rs"
  by (rule queues_cong_fields [OF assms(1-4)]) (simp add: sched_same_def assms(5))

lemma queues_update_outside:
  assumes "fm_queues rq w m ws rs" and "f \<notin> set ws" and "f \<notin> set rs"
  shows "fm_queues rq (w\<lparr>w_heap := (w_heap w)(f := r)\<rparr>) m ws rs"
  by (rule queues_cong [OF assms(1)]) (use assms(2,3) in auto)

section \<open>Waking and picking\<close>

lemma move_to_queues:
  assumes "fm_queues rq w m ws rs"
  shows "\<exists>w' s' rs'. wq_move_to (sa_awakened A) fetch_ready (fm_wqueue m) now w (fm_sched_algo m) = Some (w', s') \<and>
     fm_queues rq w' (m\<lparr>fm_sched_algo := s'\<rparr>) (dropWhile (\<lambda>x. fm_due now (w_heap w x)) ws) rs' \<and>
     set rs' = set rs \<union> set (takeWhile (\<lambda>x. fm_due now (w_heap w x)) ws) \<and>
     links_frame (set ws \<union> set rs)
       (wake_all (set (takeWhile (\<lambda>x. fm_due now (w_heap w x)) ws)) (w_heap w)) (w_heap w') \<and>
     (\<forall>r. r \<noteq> fm_wqueue m \<longrightarrow> w_wqs w' r = w_wqs w r) \<and> w_mains w' = w_mains w"
proof -
  note Q = fm_queuesD [OF assms]
  let ?T = "takeWhile (\<lambda>x. fm_due now (w_heap w x)) ws"
  let ?D = "dropWhile (\<lambda>x. fm_due now (w_heap w x)) ws"
  obtain w' s' rs' where mv:
    "wq_move_to_loop (sa_awakened A) fetch_ready (fm_wqueue m) now (hd_or None ws) w (fm_sched_algo m) = Some (w', s')"
    "wq_rep w' (fm_wqueue m) ?D" "rq (w_heap w') s' rs'" "set rs' = set rs \<union> set ?T"
    "links_frame (set ws \<union> set rs) (wake_all (set ?T) (w_heap w)) (w_heap w')"
    "\<forall>r. r \<noteq> fm_wqueue m \<longrightarrow> w_wqs w' r = w_wqs w r" "w_mains w' = w_mains w"
    using move_to_loop [OF Q(1,3,4), of now] Q(5) by blast
  note F = links_frame_fields [OF mv(5)]
  have dist: "set ?T \<inter> set ?D = {}"
    using Q(1) unfolding wq_rep_def by (metis distinct_append takeWhile_dropWhile_id)
  have D: "wake_all (set ?T) (w_heap w) x = w_heap w x" "x \<in> set ws" if "x \<in> set ?D" for x
    using that dist by (auto simp: wake_all_def dest: set_dropWhileD)
  have T: "x \<in> set ws" if "x \<in> set ?T" for x using that by (auto dest: set_takeWhileD)
  have R: "wake_all (set ?T) (w_heap w) x = w_heap w x" if "x \<in> set rs" for x
    using that T Q(4) by (auto simp: wake_all_def)
  have "wq_ordered (w_heap w') ?D"
    by (rule wq_ordered_cong [OF _ wq_ordered_dropWhile [OF Q(2)]]) (simp add: F D)
  moreover have "set ?D \<inter> set rs' = {}"
    using dist mv(4) Q(4) D(2) by auto
  moreover have "\<forall>x \<in> set ?D. wf_state (w_heap w' x) \<in> {READY, WAITING} \<and> has_coro (w_heap w' x)"
    using Q(5,10) D by (simp add: F has_coro_def)
  moreover have "\<forall>x \<in> set rs'. wf_state (w_heap w' x) = READY \<and> wf_tp (w_heap w' x) = time_point_max \<and>
        wf_phead (w_heap w' x) = None \<and> wf_ptail (w_heap w' x) = None \<and> has_coro (w_heap w' x)"
  proof
    fix x assume "x \<in> set rs'"
    then consider "x \<in> set ?T" | "x \<in> set rs" using mv(4) by blast
    then show "wf_state (w_heap w' x) = READY \<and> wf_tp (w_heap w' x) = time_point_max \<and>
        wf_phead (w_heap w' x) = None \<and> wf_ptail (w_heap w' x) = None \<and> has_coro (w_heap w' x)"
      using Q(6-10) [of x] T [of x] by cases (simp_all add: F R has_coro_def)
  qed
  ultimately have "fm_queues rq w' (m\<lparr>fm_sched_algo := s'\<rparr>) ?D rs'"
    using mv(2,3) by (simp add: fm_queues_def ball_Un)
  moreover have "wq_head (w_wqs w (fm_wqueue m)) = hd_or None ws" using Q(1) by (simp add: wq_rep_def)
  ultimately show ?thesis using mv(1,4-7) unfolding wq_move_to_def by auto
qed

lemma pick_next_queues:
  assumes "fm_queues rq w m ws rs" and "rs \<noteq> []"
  shows "\<exists>f h' s' ys. sa_pick_next A (w_heap w) (fm_sched_algo m) = Some (Some f, h', s') \<and>
     fm_queues rq (w\<lparr>w_heap := h'\<rparr>) (m\<lparr>fm_sched_algo := s'\<rparr>) ws ys \<and>
     f \<notin> set ys \<and> f \<notin> set ws \<and> set rs = insert f (set ys) \<and>
     wf_state (h' f) = READY \<and> wf_tp (h' f) = time_point_max \<and> unqueued (h' f) \<and> has_coro (h' f) \<and>
     links_frame (set rs) (w_heap w) h'"
proof -
  note Q = fm_queuesD [OF assms(1)]
  obtain f h' s' ys where p: "sa_pick_next A (w_heap w) (fm_sched_algo m) = Some (Some f, h', s')"
    "rq h' s' ys" "f \<notin> set ys" "set rs = insert f (set ys)" "wf_nxt (h' f) = None"
    "wf_prev (h' f) = None" "links_frame (set rs) (w_heap w) h'"
    using pick_next_some [OF Q(3) assms(2)] by blast
  note F = links_frame_fields [OF p(7)]
  have f: "f \<notin> set ws" "f \<in> set rs" "set ws \<inter> set ys = {}" using p(4) Q(4) by auto
  have same: "h' x = w_heap w x" if "x \<in> set ws" for x
    using links_frame_outside [OF p(7)] that Q(4) by auto
  have "wq_rep (w\<lparr>w_heap := h'\<rparr>) (fm_wqueue m) ws"
    by (rule wq_rep_cong [OF Q(1)]) (simp_all add: same)
  moreover have "wq_ordered h' ws" by (rule wq_ordered_frame [OF p(7) Q(2)])
  ultimately have "fm_queues rq (w\<lparr>w_heap := h'\<rparr>) (m\<lparr>fm_sched_algo := s'\<rparr>) ws ys"
    using p(2,4) f Q(5-10) by (simp add: fm_queues_def F has_coro_def)
  then show ?thesis
    using p f Q(6-10) [of f] by (auto simp: F unqueued_def has_coro_def)
qed

section \<open>One turn of the scheduler\<close>

text \<open>When some fiber can run, one of them gets the processor.\<close>

lemma run_resumes:
  assumes Q: "fm_queues rq w m ws rs"
    and act: "\<And>a. fm_active m = Some a \<Longrightarrow> a \<notin> set ws \<union> set rs \<and> has_coro (w_heap w a)"
    and some: "rs \<noteq> [] \<or> takeWhile (\<lambda>x. fm_due now (w_heap w x)) ws \<noteq> []"
  shows "\<exists>f w' m' ys h2. fm_run A now now' w m = Some (Resumed f (fm_active m), w', m') \<and>
     fm_queues rq w' m' (dropWhile (\<lambda>x. fm_due now (w_heap w x)) ws) ys \<and> fm_running w' m' f \<and>
     f \<notin> set ys \<and> insert f (set ys) = set rs \<union> set (takeWhile (\<lambda>x. fm_due now (w_heap w x)) ws) \<and>
     links_frame (set ws \<union> set rs)
       (wake_all (set (takeWhile (\<lambda>x. fm_due now (w_heap w x)) ws)) (w_heap w)) h2 \<and>
     w_heap w' = h2(f := (h2 f)\<lparr>wf_state := RUNNING\<rparr>) \<and> fm_wqueue m' = fm_wqueue m \<and>
     (\<forall>r. r \<noteq> fm_wqueue m \<longrightarrow> w_wqs w' r = w_wqs w r) \<and> w_mains w' = w_mains w"
proof -
  let ?T = "takeWhile (\<lambda>x. fm_due now (w_heap w x)) ws"
  let ?D = "dropWhile (\<lambda>x. fm_due now (w_heap w x)) ws"
  obtain w1 s1 rs1 where mv:
    "wq_move_to (sa_awakened A) fetch_ready (fm_wqueue m) now w (fm_sched_algo m) = Some (w1, s1)"
    "fm_queues rq w1 (m\<lparr>fm_sched_algo := s1\<rparr>) ?D rs1" "set rs1 = set rs \<union> set ?T"
    "links_frame (set ws \<union> set rs) (wake_all (set ?T) (w_heap w)) (w_heap w1)"
    "\<forall>r. r \<noteq> fm_wqueue m \<longrightarrow> w_wqs w1 r = w_wqs w r" "w_mains w1 = w_mains w"
    using move_to_queues [OF Q] by blast
  have "rs1 \<noteq> []" using mv(3) some by auto
  with pick_next_queues [OF mv(2)] obtain f h2 s2 ys where p:
    "sa_pick_next A (w_heap w1) s1 = Some (Some f, h2, s2)"
    "fm_queues rq (w1\<lparr>w_heap := h2\<rparr>) (m\<lparr>fm_sched_algo := s2\<rparr>) ?D ys"
    "f \<notin> set ys" "f \<notin> set ?D" "set rs1 = insert f (set ys)" "wf_state (h2 f) = READY"
    "wf_tp (h2 f) = time_point_max" "unqueued (h2 f)" "has_coro (h2 f)"
    "links_frame (set rs1) (w_heap w1) h2"
    by auto
  have frame: "links_frame (set ws \<union> set rs) (wake_all (set ?T) (w_heap w)) h2"
    by (rule links_frame_trans [OF mv(4) p(10)]) (use mv(3) in \<open>auto dest: set_takeWhileD\<close>)
  define w' where "w' = w1\<lparr>w_heap := h2(f := (h2 f)\<lparr>wf_state := RUNNING\<rparr>)\<rparr>"
  define m' where "m' = m\<lparr>fm_sched_algo := s2, fm_active := Some f\<rparr>"
  have f: "f \<in> set ws \<union> set rs" using mv(3) p(5) by (auto dest: set_takeWhileD)
  have act': "a \<noteq> f \<and> wf_callee (h2 a)" if "fm_active m = Some a" for a
  proof -
    have "wf_callee (wake_all (set ?T) (w_heap w) a)"
      using act [OF that] by (auto simp: wake_all_def has_coro_def)
    then show ?thesis using act [OF that] f links_frame_fields(3) [OF frame, of a] by auto
  qed
  have "fm_run A now now' w m = Some (Resumed f (fm_active m), w', m')"
    using mv(1) p(1,6,9) act'
    by (cases "fm_active m") (simp_all add: fm_run_def fm_resume_enter_def is_ready_def is_running_def
        set_state_conv wf_resume_def has_coro_def w'_def m'_def Let_def)
  moreover have "fm_queues rq w' m' ?D ys"
    unfolding w'_def m'_def by (rule queues_cong [OF p(2)]) (use p(3,4) in auto)
  moreover have "fm_running w' m' f"
    using p(7-9) by (simp add: fm_running_def w'_def m'_def unqueued_def has_coro_def)
  ultimately show ?thesis
    using p(3,5) mv(3,5,6) frame by (auto simp: w'_def m'_def)
qed

text \<open>
  When nothing can run and the main context is the caller, the thread sleeps until the first
  deadline, or for the configured interval if there is none; nothing else changes.
\<close>

lemma run_sleeps:
  assumes Q: "fm_queues rq w m ws []" and act: "fm_active m = None"
    and none: "takeWhile (\<lambda>x. fm_due now (w_heap w x)) ws = []"
  shows "fm_run A now now' w m =
     Some (Slept_until
       (case ws of [] \<Rightarrow> now' + fm_wait_interval m
        | x # _ \<Rightarrow> if wf_tp (w_heap w x) = time_point_max then now' + fm_wait_interval m
                   else wf_tp (w_heap w x)), w, m)"
proof -
  note Q' = fm_queuesD [OF Q]
  have hd: "wq_head (w_wqs w (fm_wqueue m)) = hd_or None ws" using Q'(1) by (simp add: wq_rep_def)
  have "wq_move_to (sa_awakened A) fetch_ready (fm_wqueue m) now w (fm_sched_algo m) =
     Some (w, fm_sched_algo m)"
  proof (cases ws)
    case Nil
    then show ?thesis by (simp add: wq_move_to_def hd wq_move_to_loop.simps)
  next
    case (Cons x xs)
    with none have "\<not> fm_due now (w_heap w x)" by (auto split: if_splits)
    with wq_move_to_loop_step [OF Q'(1) [unfolded Cons], of "sa_awakened A" now] Q'(5) [of x] Cons
    show ?thesis by (simp add: wq_move_to_def hd)
  qed
  with pick_next_none [OF Q'(3)] act show ?thesis
    by (cases ws)
      (auto simp: fm_run_def fm_next_wakeup_def wq_empty_def wq_top_def hd)
qed

section \<open>Entering the waiting queue\<close>

text \<open>The active fiber queues itself, in the state and with the deadline it has been given.\<close>

lemma push_queues:
  assumes Q: "fm_queues rq w m ws rs" and out: "a \<notin> set ws" "a \<notin> set rs"
    and r: "unqueued r" "has_coro r" "wf_tp r \<le> time_point_max" "wf_state r \<in> {READY, WAITING}"
  shows "\<exists>w'. wq_push (fm_wqueue m) a (w\<lparr>w_heap := (w_heap w)(a := r)\<rparr>) = Some w' \<and>
     fm_queues rq w' m (wq_insert ((w_heap w)(a := r)) a ws) rs \<and>
     links_frame (insert a (set ws))
       ((w_heap w)(a := r\<lparr>wf_phead := Some (fm_wqueue m), wf_ptail := Some (fm_wqueue m)\<rparr>)) (w_heap w') \<and>
     (\<forall>q. q \<noteq> fm_wqueue m \<longrightarrow> w_wqs w' q = w_wqs w q) \<and> w_mains w' = w_mains w"
proof -
  define w1 where "w1 = w\<lparr>w_heap := (w_heap w)(a := r)\<rparr>"
  have Q1: "fm_queues rq w1 m ws rs"
    unfolding w1_def by (rule queues_update_outside [OF Q out])
  note D = fm_queuesD [OF Q1]
  have a: "w_heap w1 a = r" by (simp add: w1_def)
  obtain w' where push: "wq_push (fm_wqueue m) a w1 = Some w'"
    "wq_rep w' (fm_wqueue m) (wq_insert (w_heap w1) a ws)"
    "wq_frame (fm_wqueue m) (insert a (set ws)) (upd_heap (attach_queue a (fm_wqueue m)) w1) w'"
    using wq_push_rep [OF D(1) out(1)] r(1) by (auto simp: a unqueued_def)
  note frame = wq_frameD [OF push(3)]
  have F: "wf_state (w_heap w' x) = wf_state (w_heap w1 x)" "wf_tp (w_heap w' x) = wf_tp (w_heap w1 x)"
    "has_coro (w_heap w' x) = has_coro (w_heap w1 x)" for x
    using links_frame_fields [OF frame(1), of x]
    by (auto simp: has_coro_def world_simps heap_simps)
  have same: "w_heap w' x = w_heap w1 x" if "x \<in> set rs" for x
    using links_frame_outside [OF frame(1), of x] that out(2) D(4)
    by (cases "x = a") (auto simp: world_simps heap_simps)
  have "wq_ordered (w_heap w') (wq_insert (w_heap w1) a ws)"
    by (rule wq_ordered_cong [OF _ wq_insert_ordered [OF D(2)]]) (use r(3) in \<open>simp_all add: F a\<close>)
  moreover have "rq (w_heap w') (fm_sched_algo m) rs"
    by (rule rq_cong [OF D(3)]) (simp add: same)
  moreover have "\<forall>x \<in> set (wq_insert (w_heap w1) a ws). wf_state (w_heap w' x) \<in> {READY, WAITING}"
    using D(5) r(4) by (simp add: set_wq_insert F a)
  moreover have "\<forall>x \<in> set (wq_insert (w_heap w1) a ws) \<union> set rs. has_coro (w_heap w' x)"
    using D(10) r(2) by (simp add: set_wq_insert F a)
  ultimately have "fm_queues rq w' m (wq_insert (w_heap w1) a ws) rs"
    using push(2) D(4,6-9) out(2) unfolding fm_queues_def by (simp add: set_wq_insert same)
  with push(1) frame show ?thesis
    by (auto simp: w1_def world_simps heap_simps)
qed

lemma wait_until_enter_ok:
  assumes Q: "fm_queues rq w m ws rs" and run: "fm_running w m a" and t: "t \<le> time_point_max"
  shows "\<exists>w'. fm_wait_until_enter t LOCKED w m = Some (UNLOCKED, w', m) \<and>
     fm_queues rq w' m
       (wq_insert ((w_heap w)(a := (w_heap w a)\<lparr>wf_state := WAITING, wf_tp := t\<rparr>)) a ws) rs \<and>
     links_frame (insert a (set ws))
       ((w_heap w)(a := (w_heap w a)\<lparr>wf_state := WAITING, wf_tp := t, wf_phead := Some (fm_wqueue m),
          wf_ptail := Some (fm_wqueue m)\<rparr>)) (w_heap w') \<and>
     (\<forall>q. q \<noteq> fm_wqueue m \<longrightarrow> w_wqs w' q = w_wqs w q) \<and> w_mains w' = w_mains w"
proof -
  define r where "r = (w_heap w a)\<lparr>wf_state := WAITING, wf_tp := t\<rparr>"
  have r: "unqueued r" "has_coro r" "wf_tp r \<le> time_point_max" "wf_state r \<in> {READY, WAITING}"
    using run t by (simp_all add: r_def fm_running_def unqueued_def has_coro_def)
  from push_queues [OF Q fm_running_outside [OF Q run] r] obtain w' where push:
    "wq_push (fm_wqueue m) a (w\<lparr>w_heap := (w_heap w)(a := r)\<rparr>) = Some w'"
    "fm_queues rq w' m (wq_insert ((w_heap w)(a := r)) a ws) rs"
    "links_frame (insert a (set ws))
       ((w_heap w)(a := r\<lparr>wf_phead := Some (fm_wqueue m), wf_ptail := Some (fm_wqueue m)\<rparr>)) (w_heap w')"
    "(\<forall>q. q \<noteq> fm_wqueue m \<longrightarrow> w_wqs w' q = w_wqs w q) \<and> w_mains w' = w_mains w"
    by blast
  have "wf_callee (w_heap w' a)"
    using links_frame_fields(3) [OF push(3), of a] r(2) by (simp add: has_coro_def)
  then have "fm_wait_until_enter t LOCKED w m = Some (UNLOCKED, w', m)"
    using run push(1)
    by (simp add: fm_wait_until_enter_def fm_running_def is_running_def set_state_conv
        time_point_set_def wf_suspend_def spin_unlock_def r_def)
  with push show ?thesis by (simp add: r_def)
qed

text \<open>Without a deadline the caller goes to the end of the queue.\<close>

lemma wait_enter_ok:
  assumes "fm_queues rq w m ws rs" and "fm_running w m a"
  shows "\<exists>w'. fm_wait_enter LOCKED w m = Some (UNLOCKED, w', m) \<and> fm_queues rq w' m (ws @ [a]) rs \<and>
     is_waiting (w_heap w') a \<and> wf_tp (w_heap w' a) = time_point_max \<and>
     (\<forall>g. g \<noteq> a \<longrightarrow> wf_state (w_heap w' g) = wf_state (w_heap w g))"
proof -
  let ?h = "(w_heap w)(a := (w_heap w a)\<lparr>wf_state := WAITING, wf_tp := time_point_max\<rparr>)"
  have "wq_insert ?h a ws = ws @ [a]" by (simp add: wq_insert_def is_ready_def)
  with wait_until_enter_ok [OF assms order_refl] obtain w' where w:
    "fm_wait_until_enter time_point_max LOCKED w m = Some (UNLOCKED, w', m)"
    "fm_queues rq w' m (ws @ [a]) rs"
    "links_frame (insert a (set ws)) ((w_heap w)(a := (w_heap w a)\<lparr>wf_state := WAITING,
       wf_tp := time_point_max, wf_phead := Some (fm_wqueue m), wf_ptail := Some (fm_wqueue m)\<rparr>)) (w_heap w')"
    by metis
  with links_frame_fields(2,5) [OF w(3)] show ?thesis by (simp add: is_waiting_def fm_wait_enter_def)
qed

lemma yield_enter_ok:
  assumes Q: "fm_queues rq w m ws rs" and run: "fm_running w m a"
  shows "\<exists>w'. fm_yield_enter w m = Some (w', m) \<and> fm_queues rq w' m (a # ws) rs \<and>
     links_frame (insert a (set ws))
       ((w_heap w)(a := (w_heap w a)\<lparr>wf_state := READY, wf_phead := Some (fm_wqueue m),
          wf_ptail := Some (fm_wqueue m)\<rparr>)) (w_heap w') \<and>
     (\<forall>q. q \<noteq> fm_wqueue m \<longrightarrow> w_wqs w' q = w_wqs w q) \<and> w_mains w' = w_mains w"
proof -
  define r where "r = (w_heap w a)\<lparr>wf_state := READY\<rparr>"
  have r: "unqueued r" "has_coro r" "wf_tp r \<le> time_point_max" "wf_state r \<in> {READY, WAITING}"
    using run by (simp_all add: r_def fm_running_def unqueued_def has_coro_def)
  have ins: "wq_insert ((w_heap w)(a := r)) a ws = a # ws"
    by (simp add: wq_insert_def is_ready_def r_def)
  from push_queues [OF Q fm_running_outside [OF Q run] r, unfolded ins] obtain w' where push:
    "wq_push (fm_wqueue m) a (w\<lparr>w_heap := (w_heap w)(a := r)\<rparr>) = Some w'"
    "fm_queues rq w' m (a # ws) rs"
    "links_frame (insert a (set ws))
       ((w_heap w)(a := r\<lparr>wf_phead := Some (fm_wqueue m), wf_ptail := Some (fm_wqueue m)\<rparr>)) (w_heap w')"
    "(\<forall>q. q \<noteq> fm_wqueue m \<longrightarrow> w_wqs w' q = w_wqs w q) \<and> w_mains w' = w_mains w"
    by blast
  have "wf_callee (w_heap w' a)"
    using links_frame_fields(3) [OF push(3), of a] r(2) by (simp add: has_coro_def)
  moreover have "set_ready a w = Some (w\<lparr>w_heap := (w_heap w)(a := r)\<rparr>)"
    using run by (simp add: set_ready_outside fm_running_def unqueued_def mark_ready_def r_def)
  ultimately have "fm_yield_enter w m = Some (w', m)"
    using run push(1) by (simp add: fm_yield_enter_def fm_running_def is_running_def wf_suspend_def)
  with push show ?thesis by (simp add: r_def)
qed

section \<open>Making fibers ready\<close>

lemma set_ready_queues:
  assumes Q: "fm_queues rq w m ws rs" and f: "f \<in> set ws"
  shows "\<exists>w'. set_ready f w = Some w' \<and> fm_queues rq w' m (f # remove1 f ws) rs \<and>
     links_frame (set ws) (ready_all {f} (w_heap w)) (w_heap w') \<and>
     (\<forall>q. q \<noteq> fm_wqueue m \<longrightarrow> w_wqs w' q = w_wqs w q) \<and> w_mains w' = w_mains w"
proof -
  note D = fm_queuesD [OF Q]
  have "wf_state (w_heap w f) \<noteq> TERMINATED" using D(5) [OF f] by auto
  from set_ready_rep [OF D(1) f this] obtain w' where sr: "set_ready f w = Some w'"
    "wq_rep w' (fm_wqueue m) (f # remove1 f ws)" "wq_frame (fm_wqueue m) (set ws) (mark_ready f w) w'"
    by blast
  note frame = wq_frameD [OF sr(3), unfolded mark_ready_simps]
  have dist: "distinct ws" using D(1) by (simp add: wq_rep_def)
  have F: "wf_tp (w_heap w' x) = wf_tp (w_heap w x)" "has_coro (w_heap w' x) = has_coro (w_heap w x)"
    "wf_state (w_heap w' x) = (if x = f then READY else wf_state (w_heap w x))" for x
    using links_frame_fields [OF frame(1), of x]
    by (auto simp: has_coro_def mark_ready_def)
  have same: "w_heap w' x = w_heap w x" if "x \<in> set rs" for x
    using links_frame_outside [OF frame(1), of x] that f D(4) by (cases "x = f") auto
  have "wq_ordered (w_heap w') (f # remove1 f ws)"
    by (rule wq_move_to_front_ordered [OF D(2) f dist]) (simp_all add: F is_ready_def)
  moreover have "rq (w_heap w') (fm_sched_algo m) rs"
    by (rule rq_cong [OF D(3)]) (simp add: same)
  ultimately have "fm_queues rq w' m (f # remove1 f ws) rs"
    using sr(2) D f dist unfolding fm_queues_def by (simp add: F same disjoint_iff)
  with sr(1) frame show ?thesis by (simp add: ready_all_simps)
qed

lemma set_ready_ready_queue:
  assumes Q: "fm_queues rq w m ws rs" and f: "f \<in> set rs"
  shows "set_ready f w = Some w"
  using fm_queuesD(6,8) [OF Q f] by (simp add: set_ready_outside mark_ready_idem)

section \<open>Joining\<close>

text \<open>
  Joining a fiber that has not ended: the caller waits without deadline and is registered with
  the other fiber.
\<close>

lemma join_enter_waits:
  assumes Q: "fm_queues rq w m ws rs" and run: "fm_running w m a"
    and f: "f \<noteq> a" "wf_state (w_heap w f) \<noteq> TERMINATED" "wf_splk (w_heap w f) = UNLOCKED"
  shows "\<exists>w'. fm_join_enter f w m = Some (w', m) \<and> fm_queues rq w' m (ws @ [a]) rs \<and>
     links_frame (insert a (set ws))
       ((w_heap w)(a := (w_heap w a)\<lparr>wf_state := WAITING, wf_phead := Some (fm_wqueue m),
          wf_ptail := Some (fm_wqueue m)\<rparr>,
        f := (w_heap w f)\<lparr>wf_waiting := wf_waiting (w_heap w f) @ [a]\<rparr>)) (w_heap w') \<and>
     (\<forall>q. q \<noteq> fm_wqueue m \<longrightarrow> w_wqs w' q = w_wqs w q) \<and> w_mains w' = w_mains w"
proof -
  define r where "r = (w_heap w a)\<lparr>wf_state := WAITING\<rparr>"
  have r: "unqueued r" "has_coro r" "wf_tp r \<le> time_point_max" "wf_state r \<in> {READY, WAITING}"
    using run by (simp_all add: r_def fm_running_def unqueued_def has_coro_def)
  have ins: "wq_insert ((w_heap w)(a := r)) a ws = ws @ [a]"
    using run by (simp add: wq_insert_def is_ready_def r_def fm_running_def)
  from push_queues [OF Q fm_running_outside [OF Q run] r, unfolded ins] obtain w1 where push:
    "wq_push (fm_wqueue m) a (w\<lparr>w_heap := (w_heap w)(a := r)\<rparr>) = Some w1"
    "fm_queues rq w1 m (ws @ [a]) rs"
    "links_frame (insert a (set ws))
       ((w_heap w)(a := r\<lparr>wf_phead := Some (fm_wqueue m), wf_ptail := Some (fm_wqueue m)\<rparr>)) (w_heap w1)"
    "(\<forall>q. q \<noteq> fm_wqueue m \<longrightarrow> w_wqs w1 q = w_wqs w q) \<and> w_mains w1 = w_mains w"
    by blast
  note F = links_frame_fields [OF push(3), of f]
  define w' where "w' = w1\<lparr>w_heap := (w_heap w1)(f := (w_heap w1 f)\<lparr>wf_waiting := wf_waiting (w_heap w f) @ [a]\<rparr>)\<rparr>"
  have "wf_callee (w_heap w' a)"
    using links_frame_fields(3) [OF push(3), of a] r(2) f(1) by (simp add: has_coro_def w'_def)
  moreover have "wf_join f a (w_heap w1) = Some (True, w_heap w')"
    using F f by (simp add: wf_join_conv w'_def)
  ultimately have "fm_join_enter f w m = Some (w', m)"
    using run push(1) f(1)
    by (simp add: fm_join_enter_def fm_running_def set_state_conv r_def wf_suspend_def w'_def)
  moreover have "fm_queues rq w' m (ws @ [a]) rs"
    by (rule queues_cong_fields [OF push(2)]) (simp_all add: sched_same_def w'_def)
  moreover have "links_frame (insert a (set ws))
       ((w_heap w)(a := r\<lparr>wf_phead := Some (fm_wqueue m), wf_ptail := Some (fm_wqueue m)\<rparr>,
          f := (w_heap w f)\<lparr>wf_waiting := wf_waiting (w_heap w f) @ [a]\<rparr>)) (w_heap w')"
    using links_frame_update [OF push(3), of "\<lambda>r. r\<lparr>wf_waiting := wf_waiting (w_heap w f) @ [a]\<rparr>" f] f(1)
    by (simp add: w'_def)
  ultimately show ?thesis using push(4) by (simp add: w'_def r_def)
qed

text \<open>Joining a fiber that has ended: the caller is ready again at the front of the queue.\<close>

lemma join_enter_terminated:
  assumes Q: "fm_queues rq w m ws rs" and run: "fm_running w m a"
    and f: "f \<noteq> a" "wf_state (w_heap w f) = TERMINATED" "wf_splk (w_heap w f) = UNLOCKED"
  shows "\<exists>w'. fm_join_enter f w m = Some (w', m) \<and> fm_queues rq w' m (a # ws) rs \<and>
     links_frame (insert a (set ws))
       ((w_heap w)(a := (w_heap w a)\<lparr>wf_state := READY, wf_phead := Some (fm_wqueue m),
          wf_ptail := Some (fm_wqueue m)\<rparr>)) (w_heap w') \<and>
     (\<forall>q. q \<noteq> fm_wqueue m \<longrightarrow> w_wqs w' q = w_wqs w q) \<and> w_mains w' = w_mains w"
proof -
  define r where "r = (w_heap w a)\<lparr>wf_state := WAITING\<rparr>"
  have r: "unqueued r" "has_coro r" "wf_tp r \<le> time_point_max" "wf_state r \<in> {READY, WAITING}"
    using run by (simp_all add: r_def fm_running_def unqueued_def has_coro_def)
  have ins: "wq_insert ((w_heap w)(a := r)) a ws = ws @ [a]"
    using run by (simp add: wq_insert_def is_ready_def r_def fm_running_def)
  have a: "a \<notin> set ws" "a \<notin> set rs" using fm_running_outside [OF Q run] by simp_all
  let ?h = "(w_heap w)(a := r\<lparr>wf_phead := Some (fm_wqueue m), wf_ptail := Some (fm_wqueue m)\<rparr>)"
  from push_queues [OF Q a r, unfolded ins] obtain w1 where push:
    "wq_push (fm_wqueue m) a (w\<lparr>w_heap := (w_heap w)(a := r)\<rparr>) = Some w1"
    "fm_queues rq w1 m (ws @ [a]) rs" "links_frame (insert a (set ws)) ?h (w_heap w1)"
    "(\<forall>q. q \<noteq> fm_wqueue m \<longrightarrow> w_wqs w1 q = w_wqs w q) \<and> w_mains w1 = w_mains w"
    by blast
  from set_ready_queues [OF push(2), of a] a obtain w' where sr:
    "set_ready a w1 = Some w'" "fm_queues rq w' m (a # ws) rs"
    "links_frame (set (ws @ [a])) (ready_all {a} (w_heap w1)) (w_heap w')"
    "(\<forall>q. q \<noteq> fm_wqueue m \<longrightarrow> w_wqs w' q = w_wqs w1 q) \<and> w_mains w' = w_mains w1"
    by (auto simp: remove1_append)
  have "links_frame (insert a (set ws)) (ready_all {a} ?h) (w_heap w')"
    by (rule links_frame_trans [OF links_frame_ready_all [OF push(3)] sr(3)]) auto
  moreover have "ready_all {a} ?h = (w_heap w)(a := (w_heap w a)\<lparr>wf_state := READY,
      wf_phead := Some (fm_wqueue m), wf_ptail := Some (fm_wqueue m)\<rparr>)"
    by (auto simp: ready_all_def r_def)
  moreover have "wf_join f a (w_heap w1) = Some (False, w_heap w1)"
    using f links_frame_fields(5,9) [OF push(3), of f] by (simp add: wf_join_conv)
  moreover have "wf_callee (w_heap w' a)"
    using fm_queuesD(10) [OF sr(2), of a] by (simp add: has_coro_def)
  ultimately show ?thesis
    using run push(1,4) f(1) sr
    by (simp add: fm_join_enter_def fm_running_def set_state_conv r_def wf_suspend_def)
qed

section \<open>The end of a fiber\<close>

text \<open>A fiber of either queue can be made ready; the members of the queues stay the same.\<close>

lemma set_ready_member:
  assumes Q: "fm_queues rq w m ws rs" and f: "f \<in> set ws \<union> set rs"
  shows "\<exists>w' ws'. set_ready f w = Some w' \<and> fm_queues rq w' m ws' rs \<and> set ws' = set ws \<and>
     links_frame (set ws) (ready_all {f} (w_heap w)) (w_heap w') \<and>
     (\<forall>q. q \<noteq> fm_wqueue m \<longrightarrow> w_wqs w' q = w_wqs w q) \<and> w_mains w' = w_mains w"
proof (cases "f \<in> set ws")
  case True
  have "set (f # remove1 f ws) = set ws"
    using True fm_queuesD(1) [OF Q] by (auto simp: wq_rep_def)
  with set_ready_queues [OF Q True] show ?thesis by blast
next
  case False
  with f have "f \<in> set rs" by simp
  then have "ready_all {f} (w_heap w) = w_heap w"
    using fm_queuesD(6) [OF Q] mark_ready_idem [of w f] by (simp flip: ready_all_simps)
  with set_ready_ready_queue [OF Q \<open>f \<in> set rs\<close>] Q show ?thesis by auto
qed

lemma set_ready_all_ok:
  assumes "fm_queues rq w m ws rs" and "set ps \<subseteq> set ws \<union> set rs"
  shows "\<exists>w' ws'. set_ready_all ps w = Some w' \<and> fm_queues rq w' m ws' rs \<and> set ws' = set ws \<and>
     links_frame (set ws) (ready_all (set ps) (w_heap w)) (w_heap w') \<and>
     (\<forall>q. q \<noteq> fm_wqueue m \<longrightarrow> w_wqs w' q = w_wqs w q) \<and> w_mains w' = w_mains w"
  using assms
proof (induction ps arbitrary: w ws)
  case Nil
  then show ?case by (auto simp: ready_all_simps)
next
  case (Cons p ps)
  from Cons.prems set_ready_member [of w m ws rs p] obtain w1 ws1 where 1:
    "set_ready p w = Some w1" "fm_queues rq w1 m ws1 rs" "set ws1 = set ws"
    "links_frame (set ws) (ready_all {p} (w_heap w)) (w_heap w1)"
    "(\<forall>q. q \<noteq> fm_wqueue m \<longrightarrow> w_wqs w1 q = w_wqs w q) \<and> w_mains w1 = w_mains w"
    by auto
  from Cons.IH [OF 1(2)] Cons.prems(2) 1(3) obtain w' ws' where 2:
    "set_ready_all ps w1 = Some w'" "fm_queues rq w' m ws' rs" "set ws' = set ws"
    "links_frame (set ws) (ready_all (set ps) (w_heap w1)) (w_heap w')"
    "(\<forall>q. q \<noteq> fm_wqueue m \<longrightarrow> w_wqs w' q = w_wqs w1 q) \<and> w_mains w' = w_mains w1"
    by auto
  have "links_frame (set ws) (ready_all (set (p # ps)) (w_heap w)) (w_heap w')"
    using links_frame_trans [OF links_frame_ready_all [OF 1(4), of "set ps"] 2(4), of "set ws"]
    by (simp add: ready_all_simps)
  with 1 2 show ?case by auto
qed

text \<open>
  When a fiber has ended, everybody who joined it is ready again and the list of joiners is empty;
  nobody else is woken.
\<close>

lemma release_waiters_ok:
  assumes Q: "fm_queues rq w m ws rs"
    and f: "wf_state (w_heap w f) = TERMINATED" "wf_splk (w_heap w f) = UNLOCKED"
    and ps: "set (wf_waiting (w_heap w f)) \<subseteq> set ws \<union> set rs"
  shows "\<exists>w' ws'. wf_release_waiters f w = Some w' \<and> fm_queues rq w' m ws' rs \<and> set ws' = set ws \<and>
     links_frame (set ws) (ready_all (set (wf_waiting (w_heap w f)))
       ((w_heap w)(f := (w_heap w f)\<lparr>wf_waiting := []\<rparr>))) (w_heap w') \<and>
     (\<forall>q. q \<noteq> fm_wqueue m \<longrightarrow> w_wqs w' q = w_wqs w q) \<and> w_mains w' = w_mains w"
proof -
  define w1 where "w1 = w\<lparr>w_heap := (w_heap w)(f := (w_heap w f)\<lparr>wf_waiting := []\<rparr>)\<rparr>"
  have f': "(w_heap w f)\<lparr>wf_waiting := [], wf_splk := UNLOCKED\<rparr> = (w_heap w f)\<lparr>wf_waiting := []\<rparr>"
    using f(2) by (cases "w_heap w f") simp
  have "fm_queues rq w1 m ws rs"
    unfolding w1_def using fm_queues_states [OF Q, of f] f(1) by (intro queues_update_outside [OF Q]) auto
  from set_ready_all_ok [of w1 m ws rs, OF this ps]
  have *: "\<exists>w' ws'. set_ready_all (wf_waiting (w_heap w f)) w1 = Some w' \<and> fm_queues rq w' m ws' rs \<and>
     set ws' = set ws \<and> links_frame (set ws) (ready_all (set (wf_waiting (w_heap w f)))
       ((w_heap w)(f := (w_heap w f)\<lparr>wf_waiting := []\<rparr>))) (w_heap w') \<and>
     (\<forall>q. q \<noteq> fm_wqueue m \<longrightarrow> w_wqs w' q = w_wqs w q) \<and> w_mains w' = w_mains w"
    by (simp add: w1_def)
  have "w1 = w\<lparr>w_heap := (w_heap w)(f := (w_heap w f)\<lparr>wf_waiting := [], wf_splk := UNLOCKED\<rparr>)\<rparr>"
    by (simp only: w1_def f')
  then have "wf_release_waiters f w = set_ready_all (wf_waiting (w_heap w f)) w1"
    using f by (simp add: wf_release_waiters_def is_terminated_def)
  with * show ?thesis by simp
qed

section \<open>Starting a fiber and leaving one\<close>

lemma spawn_ok:
  assumes Q: "fm_queues rq w m ws rs" and out: "f \<notin> set ws" "f \<notin> set rs"
    and f: "wf_state (w_heap w f) = READY" "unqueued (w_heap w f)"
      "wf_tp (w_heap w f) = time_point_max" "has_coro (w_heap w f)"
  shows "\<exists>w' m' ys. fm_spawn A f w m = Some (w', m') \<and> fm_queues rq w' m' ws ys \<and>
     set ys = insert f (set rs) \<and> fm_active m' = fm_active m \<and> fm_wqueue m' = fm_wqueue m \<and>
     links_frame (insert f (set rs)) (w_heap w) (w_heap w') \<and> w_wqs w' = w_wqs w \<and> w_mains w' = w_mains w"
proof -
  note D = fm_queuesD [OF Q]
  obtain h' s' ys where aw: "sa_awakened A f (w_heap w) (fm_sched_algo m) = Some (h', s')"
    "rq h' s' ys" "set ys = insert f (set rs)" "links_frame (insert f (set rs)) (w_heap w) h'"
    using awakened [OF D(3) out(2)] f(1,2) by (auto simp: is_ready_def unqueued_def)
  note F = links_frame_fields [OF aw(4)]
  have same: "h' x = w_heap w x" if "x \<in> set ws" for x
    using links_frame_outside [OF aw(4)] that out(1) D(4) by (metis disjoint_iff insert_iff)
  have "wq_rep (w\<lparr>w_heap := h'\<rparr>) (fm_wqueue m) ws"
    by (rule wq_rep_cong [OF D(1)]) (simp_all add: same)
  moreover have "wq_ordered h' ws" by (rule wq_ordered_frame [OF aw(4) D(2)])
  moreover have "set ws \<inter> set ys = {}" using D(4) out(1) aw(3) by auto
  ultimately have "fm_queues rq (w\<lparr>w_heap := h'\<rparr>) (m\<lparr>fm_sched_algo := s'\<rparr>) ws ys"
    using aw(2,3) f D(5-10) by (simp add: fm_queues_def F has_coro_def unqueued_def)
  with aw f(1) show ?thesis by (auto simp: fm_spawn_def is_ready_def)
qed

text \<open>Back in the context that resumed a fiber; one that has ended and is detached is deleted.\<close>

lemma resume_leave_ok:
  assumes Q: "fm_queues rq w m ws rs" and a: "fm_active m = Some a"
    and dt: "detached (w_heap w a) \<Longrightarrow> wf_state (w_heap w a) = TERMINATED \<Longrightarrow> wf_waiting (w_heap w a) = []"
  shows "\<exists>w'. fm_resume_leave tmp w m = Some (w', m\<lparr>fm_active := tmp\<rparr>) \<and>
     fm_queues rq w' (m\<lparr>fm_active := tmp\<rparr>) ws rs \<and>
     w_heap w' = (w_heap w)(a := if detached (w_heap w a) \<and> wf_state (w_heap w a) = TERMINATED
       then (w_heap w a)\<lparr>wf_callee := False, wf_caller := False\<rparr> else w_heap w a) \<and>
     w_wqs w' = w_wqs w \<and> w_mains w' = w_mains w"
proof (cases "detached (w_heap w a) \<and> wf_state (w_heap w a) = TERMINATED")
  case True
  define w' where "w' = w\<lparr>w_heap := (w_heap w)(a := (w_heap w a)\<lparr>wf_callee := False, wf_caller := False\<rparr>)\<rparr>"
  have "fm_resume_leave tmp w m = Some (w', m\<lparr>fm_active := tmp\<rparr>)"
    using True a dt
    by (simp add: fm_resume_leave_def is_terminated_def deallocate_def worker_fiber_dtor_def w'_def)
  moreover have "fm_queues rq w' (m\<lparr>fm_active := tmp\<rparr>) ws rs"
    by (rule queues_cong [OF Q]) (use True fm_queues_states [OF Q, of a] in \<open>auto simp: w'_def\<close>)
  ultimately show ?thesis using True by (simp add: w'_def)
next
  case False
  have "fm_queues rq w (m\<lparr>fm_active := tmp\<rparr>) ws rs"
    by (rule queues_cong [OF Q]) simp_all
  with False a show ?thesis
    by (auto simp: fm_resume_leave_def is_terminated_def)
qed

end

text \<open>An algorithm that serves in order resumes the fiber that became ready first.\<close>

context fifo_sched_contract
begin

lemma run_fifo:
  assumes Q: "fm_queues rq w m ws rs"
    and act: "\<And>a. fm_active m = Some a \<Longrightarrow> a \<notin> set ws \<union> set rs \<and> has_coro (w_heap w a)"
    and line: "rs @ takeWhile (\<lambda>x. fm_due now (w_heap w x)) ws = f # ys"
  shows "\<exists>w' m'. fm_run A now now' w m = Some (Resumed f (fm_active m), w', m') \<and>
     fm_queues rq w' m' (dropWhile (\<lambda>x. fm_due now (w_heap w x)) ws) ys \<and> fm_running w' m' f"
proof -
  let ?T = "takeWhile (\<lambda>x. fm_due now (w_heap w x)) ws"
  note D = fm_queuesD [OF Q]
  have "rs \<noteq> [] \<or> ?T \<noteq> []" using line by (cases rs) auto
  from run_resumes [OF Q act this, of now'] obtain g w' m' zs where run:
    "fm_run A now now' w m = Some (Resumed g (fm_active m), w', m')"
    "fm_queues rq w' m' (dropWhile (\<lambda>x. fm_due now (w_heap w x)) ws) zs" "fm_running w' m' g" by blast
  obtain w1 s1 where mv:
    "wq_move_to (sa_awakened A) fetch_ready (fm_wqueue m) now w (fm_sched_algo m) = Some (w1, s1)"
    using run(1) by (auto simp: fm_run_def split: bind_splits)
  have "wq_head (w_wqs w (fm_wqueue m)) = hd_or None ws" using D(1) by (simp add: wq_rep_def)
  with move_to_loop_fifo [OF D(1,3,4)] D(5) mv have rq1: "rq (w_heap w1) s1 (f # ys)"
    unfolding wq_move_to_def line [symmetric] by simp
  obtain p h2 s2 where pn: "sa_pick_next A (w_heap w1) s1 = Some (p, h2, s2)"
    using run(1) mv by (auto simp: fm_run_def split: bind_splits)
  from pick_next_fifo [OF rq1 pn] have p: "p = Some f" "rq h2 s2 ys" by simp_all
  have res: "g = f \<and> fm_sched_algo m' = s2 \<and> w_heap w' = h2(f := (h2 f)\<lparr>wf_state := RUNNING\<rparr>)"
    using run(1) mv pn p(1)
    by (auto simp: fm_run_def fm_resume_enter_def set_state_conv Let_def split: bind_splits if_splits)
  have "rq (w_heap w') s2 ys" by (rule rq_cong [OF p(2)]) (simp add: res)
  with fm_queuesD(3) [OF run(2)] res have "zs = ys" by (auto intro: rq_unique)
  with run res show ?thesis by auto
qed

end

end
