(* ===== verification/Fiber_Specific.thy ===== *)
theory Fiber_Specific
  imports Scheduling
begin

text \<open>
  Fiber-specific storage (\<^verbatim>\<open>fss.hpp\<close>, \<^verbatim>\<open>detail/fss.hpp\<close>, the \<^verbatim>\<open>fss_data\<close> part of
  \<^verbatim>\<open>worker_fiber\<close>) and the end of a fiber, \<^verbatim>\<open>worker_fiber::release\<close>, which runs the clean-up
  functions. A clean-up function is user code; a call of it is recorded as an event, the function
  with the pointer it is given.
\<close>

type_synonym cleanup_event = "nat \<times> nat"
type_synonym fss_map = "(nat \<times> fss_data) list"

section \<open>The map of entries\<close>

text \<open>
  \<^verbatim>\<open>std::map\<close>: entries in increasing key order; \<^verbatim>\<open>insert\<close>, with or without a hint, leaves
  an existing entry alone.
\<close>

fun fss_find :: "nat \<Rightarrow> fss_map \<Rightarrow> fss_data option" where
  "fss_find k [] = None"
| "fss_find k ((l, d) # es) = (if k = l then Some d else fss_find k es)"

fun fss_insert :: "nat \<Rightarrow> fss_data \<Rightarrow> fss_map \<Rightarrow> fss_map" where
  "fss_insert k d [] = [(k, d)]"
| "fss_insert k d ((l, e) # es) =
     (if k < l then (k, d) # (l, e) # es
      else if k = l then (l, e) # es
      else (l, e) # fss_insert k d es)"

fun fss_erase :: "nat \<Rightarrow> fss_map \<Rightarrow> fss_map" where
  "fss_erase k [] = []"
| "fss_erase k ((l, e) # es) = (if k = l then es else (l, e) # fss_erase k es)"

definition fss_data_make :: "nat \<Rightarrow> nat \<Rightarrow> fss_data option" where
  "fss_data_make vp fn = do {
     assert_that (fn \<noteq> 0);
     Some \<lparr>fss_vp = vp, fss_cleanup_function = fn\<rparr> }"

definition do_cleanup :: "fss_data \<Rightarrow> cleanup_event" where
  "do_cleanup d = (fss_cleanup_function d, fss_vp d)"

section \<open>Reading and writing the data of a fiber\<close>

definition get_fss_data :: "nat \<Rightarrow> worker_fiber \<Rightarrow> nat" where
  "get_fss_data key r = (case fss_find key (wf_fss r) of Some d \<Rightarrow> fss_vp d | None \<Rightarrow> 0)"

definition set_fss_data ::
  "nat \<Rightarrow> nat \<Rightarrow> nat \<Rightarrow> bool \<Rightarrow> worker_fiber \<Rightarrow> (cleanup_event list \<times> worker_fiber) option" where
  "set_fss_data key cleanup_fn data cleanup_existing r = do {
     assert_that (cleanup_fn \<noteq> 0);
     case fss_find key (wf_fss r) of
       Some d \<Rightarrow> do {
         let evs = (if cleanup_existing then [do_cleanup d] else []);
         if data \<noteq> 0 then do {
           e \<leftarrow> fss_data_make data cleanup_fn;
           Some (evs, r\<lparr>wf_fss := fss_insert key e (wf_fss r)\<rparr>) }
         else Some (evs, r\<lparr>wf_fss := fss_erase key (wf_fss r)\<rparr>) }
     | None \<Rightarrow> do {
         e \<leftarrow> fss_data_make data cleanup_fn;
         Some ([], r\<lparr>wf_fss := fss_insert key e (wf_fss r)\<rparr>) } }"

section \<open>The smart pointer\<close>

text \<open>
  A \<^verbatim>\<open>fiber_specific_ptr\<close> is its address, the key under which each fiber stores a value, and
  its clean-up function. It works on the active fiber.
\<close>

record fiber_specific_ptr =
  fsp_this :: nat
  fsp_cleanup_fn :: nat

definition fsp_get :: "fiber_specific_ptr \<Rightarrow> world \<Rightarrow> 's fiber_manager \<Rightarrow> nat option" where
  "fsp_get p w m = do {
     a \<leftarrow> fm_active m;
     Some (get_fss_data (fsp_this p) (w_heap w a)) }"

definition fsp_set ::
  "fiber_specific_ptr \<Rightarrow> nat \<Rightarrow> bool \<Rightarrow> world \<Rightarrow> 's fiber_manager \<Rightarrow> (cleanup_event list \<times> world) option" where
  "fsp_set p t cleanup w m = do {
     a \<leftarrow> fm_active m;
     (evs, r) \<leftarrow> set_fss_data (fsp_this p) (fsp_cleanup_fn p) t cleanup (w_heap w a);
     Some (evs, w\<lparr>w_heap := (w_heap w)(a := r)\<rparr>) }"

definition fsp_release ::
  "fiber_specific_ptr \<Rightarrow> world \<Rightarrow> 's fiber_manager \<Rightarrow> (nat \<times> cleanup_event list \<times> world) option" where
  "fsp_release p w m = do {
     tmp \<leftarrow> fsp_get p w m;
     (evs, w') \<leftarrow> fsp_set p 0 False w m;
     Some (tmp, evs, w') }"

definition fsp_reset ::
  "fiber_specific_ptr \<Rightarrow> nat \<Rightarrow> world \<Rightarrow> 's fiber_manager \<Rightarrow> (cleanup_event list \<times> world) option" where
  "fsp_reset p t w m = do {
     c \<leftarrow> fsp_get p w m;
     if c \<noteq> t then fsp_set p t True w m else Some ([], w) }"

definition fsp_dtor ::
  "fiber_specific_ptr \<Rightarrow> world \<Rightarrow> 's fiber_manager \<Rightarrow> (cleanup_event list \<times> world) option" where
  "fsp_dtor p w m = (if fm_active m \<noteq> None then fsp_set p 0 True w m else Some ([], w))"

section \<open>The end of a fiber\<close>

text \<open>
  \<^verbatim>\<open>worker_fiber::release\<close>: wake the joiners, then clean up every entry. The entries stay in
  the map, which dies with the control block.
\<close>

definition wf_release :: "fid \<Rightarrow> world \<Rightarrow> (cleanup_event list \<times> world) option" where
  "wf_release f w = do {
     w' \<leftarrow> wf_release_waiters f w;
     Some (map (\<lambda>(k, d). do_cleanup d) (wf_fss (w_heap w' f)), w') }"

section \<open>Lemmas\<close>

definition fss_wf :: "fss_map \<Rightarrow> bool" where
  "fss_wf es \<longleftrightarrow> sorted_wrt (<) (map fst es) \<and> (\<forall>(k, d) \<in> set es. fss_cleanup_function d \<noteq> 0)"

lemma fss_keys_insert: "set (map fst (fss_insert k d es)) = insert k (set (map fst es))"
  by (induction k d es rule: fss_insert.induct) auto

lemma fss_insert_mem: "(l, e) \<in> set (fss_insert k d es) \<Longrightarrow> (l, e) \<in> set es \<or> (l, e) = (k, d)"
  by (induction k d es rule: fss_insert.induct) (auto split: if_splits)

lemma fss_erase_mem: "x \<in> set (fss_erase k es) \<Longrightarrow> x \<in> set es"
  by (induction k es rule: fss_erase.induct) (auto split: if_splits)

lemma fss_insert_sorted:
  "sorted_wrt (<) (map fst es) \<Longrightarrow> sorted_wrt (<) (map fst (fss_insert k d es))"
proof (induction k d es rule: fss_insert.induct)
  case (2 k d l e es)
  have "l < x" if "x \<in> set (map fst (fss_insert k d es))" "\<not> k < l" "k \<noteq> l" for x
    using that 2(2) unfolding fss_keys_insert by auto
  with 2 show ?case by fastforce
qed simp

lemma fss_erase_sorted:
  "sorted_wrt (<) (map fst es) \<Longrightarrow> sorted_wrt (<) (map fst (fss_erase k es))"
  by (induction k es rule: fss_erase.induct) (auto dest: fss_erase_mem)

lemma fss_wf_insert: "fss_wf es \<Longrightarrow> fss_cleanup_function d \<noteq> 0 \<Longrightarrow> fss_wf (fss_insert k d es)"
  using fss_insert_sorted fss_insert_mem unfolding fss_wf_def by fast

lemma fss_wf_erase: "fss_wf es \<Longrightarrow> fss_wf (fss_erase k es)"
  using fss_erase_sorted fss_erase_mem unfolding fss_wf_def by fast

lemma fss_find_insert:
  assumes "sorted_wrt (<) (map fst es)"
  shows "fss_find l (fss_insert k d es) =
     (if l = k then (case fss_find k es of Some e \<Rightarrow> Some e | None \<Rightarrow> Some d) else fss_find l es)"
proof -
  have none: "fss_find k es = None" if "\<forall>x \<in> set (map fst es). k < x" for k and es :: fss_map
    using that by (induction es) auto
  show ?thesis
    using assms
  proof (induction k d es rule: fss_insert.induct)
    case (2 k d m e es)
    have "fss_find k es = None" if "k < m"
      by (rule none) (use 2(2) that in auto)
    with 2 show ?case by auto
  qed simp
qed

lemma fss_find_erase:
  assumes "sorted_wrt (<) (map fst es)"
  shows "fss_find l (fss_erase k es) = (if l = k then None else fss_find l es)"
proof -
  have none: "fss_find k es = None" if "k \<notin> set (map fst es)" for k and es :: fss_map
    using that by (induction es) auto
  show ?thesis
    using assms
  proof (induction k es rule: fss_erase.induct)
    case (2 k m e es)
    then have "m \<notin> set (map fst es)" by auto
    with 2 none [of m es] show ?case by auto
  qed simp
qed

text \<open>Every way of writing a value, and what it leaves in the fiber.\<close>

definition fss_assign :: "nat \<Rightarrow> nat \<Rightarrow> nat \<Rightarrow> fss_map \<Rightarrow> fss_map" where
  "fss_assign key fn data es =
     (if fss_find key es \<noteq> None \<and> data = 0 then fss_erase key es
      else fss_insert key \<lparr>fss_vp = data, fss_cleanup_function = fn\<rparr> es)"

lemma set_fss_data_conv:
  "fn \<noteq> 0 \<Longrightarrow> set_fss_data key fn data cleanup r =
     Some (case fss_find key (wf_fss r) of
             Some d \<Rightarrow> if cleanup then [do_cleanup d] else [] | None \<Rightarrow> [],
           r\<lparr>wf_fss := fss_assign key fn data (wf_fss r)\<rparr>)"
  by (auto simp: set_fss_data_def fss_assign_def fss_data_make_def split: option.split)

lemma fss_wf_assign: "fss_wf es \<Longrightarrow> fn \<noteq> 0 \<Longrightarrow> fss_wf (fss_assign key fn data es)"
  by (simp add: fss_assign_def fss_wf_insert fss_wf_erase)

lemma fss_find_assign:
  assumes "fss_wf es"
  shows "fss_find l (fss_assign key fn data es) =
     (if l \<noteq> key then fss_find l es
      else case fss_find key es of
             Some d \<Rightarrow> if data = 0 then None else Some d
           | None \<Rightarrow> Some \<lparr>fss_vp = data, fss_cleanup_function = fn\<rparr>)"
  using assms by (auto simp: fss_assign_def fss_wf_def fss_find_insert fss_find_erase split: option.split)

lemmas fsp_defs = fsp_release_def fsp_reset_def fsp_get_def fsp_set_def fsp_dtor_def get_fss_data_def

section \<open>Properties\<close>

text \<open>
  C39: what a fiber reads back after \<^verbatim>\<open>reset( t)\<close> of a fiber-specific pointer, in every case. The
  only thing that changes is the fiber's own map of entries, at the key of this pointer. If the
  fiber has no entry for the pointer it reads \<open>t\<close> and no clean-up function runs; if the entry
  holds \<open>t\<close> already nothing happens. An entry with another pointer, be it the null pointer, is
  cleaned up once; it goes away if \<open>t\<close> is null, and otherwise it stays, with the pointer that has
  just been cleaned up, and \<open>t\<close> is lost: \<^verbatim>\<open>std::map::insert\<close> does not overwrite, against the
  postcondition in the documentation (\<^verbatim>\<open>fls.qbk:140\<close>).
\<close>

theorem fsp_reset_then_get:
  assumes act: "fm_active m = Some a" and wf: "fss_wf (wf_fss (w_heap w a))" and fn: "fsp_cleanup_fn p \<noteq> 0"
  shows "\<exists>evs es w'. fsp_reset p t w m = Some (evs, w') \<and>
     w' = w\<lparr>w_heap := (w_heap w)(a := (w_heap w a)\<lparr>wf_fss := es\<rparr>)\<rparr> \<and> fss_wf es \<and>
     (\<forall>l. l \<noteq> fsp_this p \<longrightarrow> fss_find l es = fss_find l (wf_fss (w_heap w a))) \<and>
     (case fss_find (fsp_this p) (wf_fss (w_heap w a)) of
        None \<Rightarrow> evs = [] \<and> fsp_get p w' m = Some t
      | Some d \<Rightarrow>
          if fss_vp d = t then evs = [] \<and> w' = w
          else evs = [(fss_cleanup_function d, fss_vp d)] \<and>
            fsp_get p w' m = Some (if t = 0 then 0 else fss_vp d))"
proof (cases "get_fss_data (fsp_this p) (w_heap w a) = t")
  case True
  then have "fsp_reset p t w m = Some ([], w)" "fsp_get p w m = Some t" using act by (simp_all add: fsp_defs)
  moreover have "w\<lparr>w_heap := (w_heap w)(a := (w_heap w a)\<lparr>wf_fss := wf_fss (w_heap w a)\<rparr>)\<rparr> = w" by simp
  ultimately show ?thesis
    using True wf by (intro exI [of _ "[]"] exI [of _ "wf_fss (w_heap w a)"] exI [of _ w])
      (auto simp: get_fss_data_def split: option.splits)
next
  case False
  let ?es = "fss_assign (fsp_this p) (fsp_cleanup_fn p) t (wf_fss (w_heap w a))"
  let ?evs = "case fss_find (fsp_this p) (wf_fss (w_heap w a)) of Some d \<Rightarrow> [do_cleanup d] | None \<Rightarrow> []"
  let ?w = "w\<lparr>w_heap := (w_heap w)(a := (w_heap w a)\<lparr>wf_fss := ?es\<rparr>)\<rparr>"
  have r: "fsp_reset p t w m = Some (?evs, ?w)"
    using act fn False by (auto simp: fsp_reset_def fsp_get_def fsp_set_def set_fss_data_conv split: option.split)
  have g: "fsp_get p ?w m = Some (case fss_find (fsp_this p) ?es of Some d \<Rightarrow> fss_vp d | None \<Rightarrow> 0)"
    using act by (simp add: fsp_get_def get_fss_data_def)
  from r g fss_wf_assign [OF wf fn] fss_find_assign [OF wf] False show ?thesis
    by (intro exI [of _ ?evs] exI [of _ ?es] exI [of _ ?w])
      (auto simp: do_cleanup_def get_fss_data_def split: option.splits)
qed

text \<open>
  Giving a pointer that has a value a new one runs the clean-up function on the old value and
  yet keeps the old value in place, so the fiber goes on reading the pointer that has just been
  cleaned up, and the new one is lost.
\<close>

theorem fsp_reset_existing_keeps_old:
  assumes "fm_active m = Some a" and "fss_wf (wf_fss (w_heap w a))" and "fsp_cleanup_fn p \<noteq> 0"
    and "fss_find (fsp_this p) (wf_fss (w_heap w a)) = Some d" and "t \<noteq> 0" and "t \<noteq> fss_vp d"
  shows "\<exists>w'. fsp_reset p t w m = Some ([(fss_cleanup_function d, fss_vp d)], w') \<and>
     fsp_get p w' m = Some (fss_vp d)"
  using assms fss_find_assign [OF assms(2)]
  by (simp add: fsp_defs set_fss_data_conv do_cleanup_def)

text \<open>
  The same happens to a pointer that was never set, once it has been released: \<^verbatim>\<open>release\<close> leaves an
  entry with the null pointer, and the next \<^verbatim>\<open>reset\<close> calls the clean-up function with the null
  pointer and does not store its value.
\<close>

theorem fsp_release_then_reset_lost:
  assumes "fm_active m = Some a" and "fss_wf (wf_fss (w_heap w a))" and "fsp_cleanup_fn p \<noteq> 0"
    and "fss_find (fsp_this p) (wf_fss (w_heap w a)) = None" and "t \<noteq> 0"
  shows "\<exists>w1 w2. fsp_release p w m = Some (0, [], w1) \<and> fsp_reset p t w1 m = Some ([(fsp_cleanup_fn p, 0)], w2) \<and>
     fsp_get p w2 m = Some 0"
  using assms fss_find_assign [OF assms(2)] fss_find_assign [OF fss_wf_assign [OF assms(2,3)]]
  by (simp add: fsp_defs set_fss_data_conv do_cleanup_def)

text \<open>
  \<^verbatim>\<open>release\<close> of a fiber-specific pointer hands out the value without cleaning it up and
  forgets it.
\<close>

theorem fsp_release_forgets:
  assumes "fm_active m = Some a" and "fss_wf (wf_fss (w_heap w a))" and "fsp_cleanup_fn p \<noteq> 0"
  shows "\<exists>w'. fsp_release p w m = Some (get_fss_data (fsp_this p) (w_heap w a), [], w') \<and>
     fsp_get p w' m = Some 0 \<and> fss_wf (wf_fss (w_heap w' a))"
  using assms fss_wf_assign [OF assms(2,3)] fss_find_assign [OF assms(2)]
  by (simp add: fsp_defs set_fss_data_conv split: option.split)

text \<open>
  When a fiber has ended its clean-up functions run once for every entry, in the order of the
  keys, and everybody who joined it is ready; the queues keep their members.
\<close>

theorem release_cleans_up:
  assumes "fm_queues fifo_rep w m ws rs"
    and "wf_state (w_heap w f) = TERMINATED" and "wf_splk (w_heap w f) = UNLOCKED"
    and "set (wf_waiting (w_heap w f)) \<subseteq> set ws \<union> set rs"
  shows "\<exists>w' ws'. wf_release f w =
       Some (map (\<lambda>(k, d). (fss_cleanup_function d, fss_vp d)) (wf_fss (w_heap w f)), w') \<and>
     fm_queues fifo_rep w' m ws' rs \<and> set ws' = set ws \<and> wf_waiting (w_heap w' f) = [] \<and>
     (\<forall>p \<in> set (wf_waiting (w_heap w f)). is_ready (w_heap w') p) \<and>
     (\<forall>p. p \<notin> set (wf_waiting (w_heap w f)) \<longrightarrow> wf_state (w_heap w' p) = wf_state (w_heap w p))"
proof -
  let ?h = "ready_all (set (wf_waiting (w_heap w f))) ((w_heap w)(f := (w_heap w f)\<lparr>wf_waiting := []\<rparr>))"
  obtain w' ws' where r: "wf_release_waiters f w = Some w'" "fm_queues fifo_rep w' m ws' rs"
    "set ws' = set ws" "links_frame (set ws) ?h (w_heap w')"
    using rr.release_waiters_ok [OF assms] by blast
  note F = links_frame_fields [OF r(4)]
  have "f \<notin> set (wf_waiting (w_heap w f))"
    using fm_queues_states [OF assms(1), of f] assms(2,4) by auto
  then have "wf_fss (w_heap w' f) = wf_fss (w_heap w f)" "wf_waiting (w_heap w' f) = []"
    by (simp_all add: F ready_all_def)
  with r show ?thesis
    by (auto simp: wf_release_def do_cleanup_def F ready_all_def is_ready_def)
qed

end
