(* ===== verification/Interruption.thy ===== *)
theory Interruption
  imports Fiber_Specific
begin

text \<open>
  Interruption of fibers (\<^verbatim>\<open>interruption.hpp\<close>, \<^verbatim>\<open>src/interruption.cpp\<close>) and the functions of
  \<^verbatim>\<open>this_fiber\<close> (\<^verbatim>\<open>operations.hpp\<close>). Both work on the fiber the scheduler calls active; in the
  main context there is none.
\<close>

section \<open>Interruption guards\<close>

text \<open>
  A guard of class \<^verbatim>\<open>disable_interruption\<close> is its member \<^verbatim>\<open>set_\<close>: whether interruption was
  blocked already when it was built. Its functions dereference the active fiber.
\<close>

definition upd_active ::
  "(worker_fiber \<Rightarrow> worker_fiber) \<Rightarrow> world \<Rightarrow> 's fiber_manager \<Rightarrow> world option" where
  "upd_active g w m = do {
     a \<leftarrow> fm_active m;
     Some (w\<lparr>w_heap := (w_heap w)(a := g (w_heap w a))\<rparr>) }"

definition disable_interruption_ctor :: "world \<Rightarrow> 's fiber_manager \<Rightarrow> (bool \<times> world) option" where
  "disable_interruption_ctor w m = do {
     a \<leftarrow> fm_active m;
     let was_set = interruption_blocked (w_heap w a);
     if \<not> was_set then do { w1 \<leftarrow> upd_active (interruption_blocked_set True) w m; Some (was_set, w1) }
     else Some (was_set, w) }"

definition disable_interruption_dtor :: "bool \<Rightarrow> world \<Rightarrow> 's fiber_manager \<Rightarrow> world option" where
  "disable_interruption_dtor was_set w m =
     (if \<not> was_set then upd_active (interruption_blocked_set False) w m else Some w)"

definition restore_interruption_ctor :: "bool \<Rightarrow> world \<Rightarrow> 's fiber_manager \<Rightarrow> world option" where
  "restore_interruption_ctor disabler_set w m =
     (if \<not> disabler_set then upd_active (interruption_blocked_set False) w m else Some w)"

definition restore_interruption_dtor :: "bool \<Rightarrow> world \<Rightarrow> 's fiber_manager \<Rightarrow> world option" where
  "restore_interruption_dtor disabler_set w m =
     (if \<not> disabler_set then upd_active (interruption_blocked_set True) w m else Some w)"

section \<open>Interruption points\<close>

definition this_interruption_enabled :: "world \<Rightarrow> 's fiber_manager \<Rightarrow> bool" where
  "this_interruption_enabled w m \<longleftrightarrow>
     (case fm_active m of None \<Rightarrow> False | Some f \<Rightarrow> \<not> interruption_blocked (w_heap w f))"

definition this_interruption_requested :: "world \<Rightarrow> 's fiber_manager \<Rightarrow> bool" where
  "this_interruption_requested w m \<longleftrightarrow>
     (case fm_active m of None \<Rightarrow> False | Some f \<Rightarrow> interruption_requested (w_heap w f))"

definition interruption_point :: "world \<Rightarrow> 's fiber_manager \<Rightarrow> (unit result \<times> world) option" where
  "interruption_point w m =
     (if this_interruption_requested w m \<and> this_interruption_enabled w m then do {
        a \<leftarrow> fm_active m;
        w' \<leftarrow> request_interruption False a w;
        Some (Inl fiber_interrupted, w') }
      else Some (Inr (), w))"

section \<open>The functions of this fiber\<close>

definition this_get_id :: "'s fiber_manager \<Rightarrow> fiber_id" where
  "this_get_id m = (case fm_active m of Some a \<Rightarrow> get_id a | None \<Rightarrow> no_id)"

text \<open>
  \<^verbatim>\<open>yield\<close>: a fiber goes back to the waiting queue as ready, the main context runs the
  scheduler once.
\<close>

definition this_yield ::
  "'s sched_algorithm \<Rightarrow> time_point \<Rightarrow> time_point \<Rightarrow> world \<Rightarrow> 's fiber_manager \<Rightarrow>
   (control \<times> world \<times> 's fiber_manager) option" where
  "this_yield A now now' w m =
     (case fm_active m of
        Some a \<Rightarrow> do { (w', m') \<leftarrow> fm_yield_enter w m; Some (Suspended a, w', m') }
      | None \<Rightarrow> fm_run A now now' w m)"

text \<open>
  \<^verbatim>\<open>sleep_until\<close> in a fiber: a spin lock of its own is locked and handed to \<^verbatim>\<open>wait_until\<close>;
  after the fiber has been resumed comes an interruption point. The main context turns the
  scheduler while \<open>this_sleep_main_continues\<close>.
\<close>

definition this_sleep_until_enter ::
  "time_point \<Rightarrow> world \<Rightarrow> 's fiber_manager \<Rightarrow> (world \<times> 's fiber_manager) option" where
  "this_sleep_until_enter sleep_time w m = do {
     lk \<leftarrow> spin_lock spinlock_init;
     (lk', w', m') \<leftarrow> fm_wait_until_enter sleep_time lk w m;
     Some (w', m') }"

definition this_sleep_until_leave :: "world \<Rightarrow> 's fiber_manager \<Rightarrow> (unit result \<times> world) option" where
  "this_sleep_until_leave w m = interruption_point w m"

definition this_sleep_main_continues :: "time_point \<Rightarrow> time_point \<Rightarrow> bool" where
  "this_sleep_main_continues now sleep_time \<longleftrightarrow> now \<le> sleep_time"

definition this_sleep_for_enter ::
  "time_point \<Rightarrow> duration \<Rightarrow> world \<Rightarrow> 's fiber_manager \<Rightarrow> (world \<times> 's fiber_manager) option" where
  "this_sleep_for_enter now d w m = this_sleep_until_enter (now + d) w m"

definition this_thread_affinity :: "world \<Rightarrow> 's fiber_manager \<Rightarrow> bool" where
  "this_thread_affinity w m =
     (case fm_active m of Some a \<Rightarrow> thread_affinity (w_heap w a) | None \<Rightarrow> True)"

definition this_thread_affinity_set :: "bool \<Rightarrow> world \<Rightarrow> 's fiber_manager \<Rightarrow> world" where
  "this_thread_affinity_set req w m =
     (case fm_active m of
        Some a \<Rightarrow> w\<lparr>w_heap := (w_heap w)(a := thread_affinity_set req (w_heap w a))\<rparr>
      | None \<Rightarrow> w)"

section \<open>Properties\<close>

lemma flags_eqI:
  assumes "\<And>n. bit (wf_flags r) n = bit (wf_flags r') n" and "r' = r\<lparr>wf_flags := wf_flags r'\<rparr>"
  shows "r' = r"
proof -
  have "wf_flags r' = wf_flags r" by (rule bit_eqI) (simp add: assms(1))
  with assms(2) show ?thesis by (cases r) simp
qed

lemma interruption_blocked_set_idem:
  assumes "interruption_blocked r = b"
  shows "interruption_blocked_set b r = r"
  by (rule flags_eqI)
    (use assms in \<open>auto simp: flag_word_bits flag_reads interruption_blocked_set_def intro: gr0I\<close>)

lemma interruption_blocked_set_twice:
  "interruption_blocked_set b (interruption_blocked_set c r) = interruption_blocked_set b r"
proof -
  have "wf_flags (interruption_blocked_set b (interruption_blocked_set c r)) =
      wf_flags (interruption_blocked_set b r)"
    by (rule bit_eqI) (simp add: flag_writes)
  then show ?thesis by (cases r) (auto simp: interruption_blocked_set_def)
qed

text \<open>
  The guards nest. Disabling interruption, restoring it inside and leaving both scopes in
  reverse order brings the world back to what it was; in between interruption is blocked after
  the outer guard and has its former setting inside the inner one, whatever it was before.
\<close>

theorem interruption_guards_nest:
  assumes "fm_active m = Some a"
  shows "\<exists>was_set w1 w2 w3. disable_interruption_ctor w m = Some (was_set, w1) \<and>
     \<not> this_interruption_enabled w1 m \<and>
     restore_interruption_ctor was_set w1 m = Some w2 \<and>
     this_interruption_enabled w2 m = this_interruption_enabled w m \<and>
     restore_interruption_dtor was_set w2 m = Some w3 \<and> \<not> this_interruption_enabled w3 m \<and>
     disable_interruption_dtor was_set w3 m = Some w"
proof -
  define r where "r = w_heap w a"
  have undo: "(w_heap w)(a := interruption_blocked_set False r) = w_heap w" if "\<not> interruption_blocked r"
    using interruption_blocked_set_idem [of r False] that by (auto simp: r_def)
  show ?thesis
    using assms undo
    by (cases "interruption_blocked r")
      (simp_all add: disable_interruption_ctor_def disable_interruption_dtor_def upd_active_def
        restore_interruption_ctor_def restore_interruption_dtor_def this_interruption_enabled_def
        flag_updates interruption_blocked_set_twice r_def [symmetric], blast+)
qed

lemma interruption_point_passed: "interruption_point w m = Some (Inr (), w') \<Longrightarrow> w' = w"
  by (auto simp: interruption_point_def split: bind_splits if_splits option.splits)

lemma interruption_point_interrupts:
  assumes "fm_active m = Some a" and "interruption_requested (w_heap w a)" and "\<not> interruption_blocked (w_heap w a)"
  shows "\<exists>w'. interruption_point w m = Some (Inl fiber_interrupted, w')"
  using assms
  by (simp add: interruption_point_def this_interruption_requested_def this_interruption_enabled_def
      request_interruption_def)

text \<open>
  An interruption point throws \<^verbatim>\<open>fiber_interrupted\<close> exactly when an interruption is pending
  and not blocked; it then withdraws the request, so that the next interruption point does not
  throw again, and it changes nothing but this one flag. Otherwise it changes nothing at all.
\<close>

theorem interruption_point_spec:
  assumes "fm_active m = Some a"
  shows "\<exists>w'. interruption_point w m =
       Some (if interruption_requested (w_heap w a) \<and> \<not> interruption_blocked (w_heap w a)
             then Inl fiber_interrupted else Inr (), w') \<and>
     interruption_point w' m = Some (Inr (), w') \<and>
     w_heap w' = (w_heap w)(a := if interruption_requested (w_heap w a) \<and> \<not> interruption_blocked (w_heap w a)
       then interruption_requested_set False (w_heap w a) else w_heap w a) \<and>
     interruption_blocked (w_heap w' a) = interruption_blocked (w_heap w a) \<and>
     detached (w_heap w' a) = detached (w_heap w a)"
  using assms
  by (cases "interruption_requested (w_heap w a) \<and> \<not> interruption_blocked (w_heap w a)")
    (auto simp: interruption_point_def this_interruption_requested_def this_interruption_enabled_def
      request_interruption_def upd_heap_def flag_updates)

text \<open>
  Interrupting a fiber that waits makes it ready at the front of its waiting queue, whatever
  its deadline, and the request stays pending until the fiber runs.
\<close>

theorem interrupt_wakes_waiting:
  assumes "fm_queues fifo_rep w m ws rs" and "f \<in> set ws"
  shows "\<exists>w'. request_interruption True f w = Some w' \<and>
     fm_queues fifo_rep w' m (f # remove1 f ws) rs \<and> is_ready (w_heap w') f \<and>
     interruption_requested (w_heap w' f)"
proof -
  define w1 where "w1 = upd_heap (\<lambda>h. h(f := interruption_requested_set True (h f))) w"
  have "fm_queues fifo_rep w1 m ws rs"
    by (rule rr.queues_cong_fields [OF assms(1)])
      (simp_all add: w1_def upd_heap_def sched_same_def interruption_requested_set_def)
  from rr.set_ready_queues [OF this assms(2)] obtain w' where w':
    "set_ready f w1 = Some w'" "fm_queues fifo_rep w' m (f # remove1 f ws) rs"
    "links_frame (set ws) (ready_all {f} (w_heap w1)) (w_heap w')"
    by blast
  note F = links_frame_fields(5,6) [OF w'(3), of f]
  have "interruption_requested (w_heap w' f)"
    using F flag_updates(11) [of True "w_heap w f"]
    by (simp add: flag_reads ready_all_def w1_def upd_heap_def)
  with w' F show ?thesis
    by (simp add: request_interruption_def w1_def [symmetric] is_ready_def ready_all_def)
qed

text \<open>
  Interrupting a fiber that has already ended fails the assertion in
  \<^verbatim>\<open>worker_fiber::set_ready\<close>; with assertions compiled out the ended fiber becomes ready again.
\<close>

theorem interrupt_terminated_fails:
  "wf_state (w_heap w f) = TERMINATED \<Longrightarrow> request_interruption True f w = None"
  by (simp add: request_interruption_def upd_heap_def set_ready_conv interruption_requested_set_def)

end
