(* ===== verification/Fiber.thy ===== *)
theory Fiber
  imports Interruption
begin

text \<open>
  The handle class \<^verbatim>\<open>fiber\<close> (\<^verbatim>\<open>fiber.hpp\<close>, \<^verbatim>\<open>src/fiber.cpp\<close>) and the code that runs
  inside a new coroutine (\<^verbatim>\<open>detail/setup.hpp\<close>, \<^verbatim>\<open>detail/trampoline.hpp\<close>). A handle is the
  pointer \<^verbatim>\<open>impl_\<close>, null for \<open>None\<close>.
\<close>

type_synonym fiber = "fid option"

section \<open>Birth and death of a coroutine\<close>

text \<open>
  The trampoline up to its first \<^verbatim>\<open>suspend\<close>: the control block is built on the coroutine's own
  stack, at the address \<open>f\<close>.
\<close>

definition trampoline_enter :: "fid \<Rightarrow> world \<Rightarrow> world option" where
  "trampoline_enter f w = do {
     let h1 = (w_heap w)(f := worker_fiber_init);
     h2 \<leftarrow> set_running f h1;
     wf_suspend f h2;
     Some (w\<lparr>w_heap := h2\<rparr>) }"

definition setup_allocate :: "fid \<Rightarrow> world \<Rightarrow> world option" where
  "setup_allocate f w = do {
     w1 \<leftarrow> trampoline_enter f w;
     Some (upd_heap (\<lambda>h. h(f := (h f)\<lparr>wf_caller := True\<rparr>)) w1) }"

text \<open>How the function of a fiber can end, and what the trampoline makes of it.\<close>

datatype fn_outcome = Fn_returned | Fn_unwound | Fn_interrupted | Fn_threw

datatype ending = Suspended_for_good | Rethrown_unwind | Std_terminate

definition trampoline_finish :: "fid \<Rightarrow> world \<Rightarrow> (ending \<times> cleanup_event list \<times> world) option" where
  "trampoline_finish f w = do {
     h1 \<leftarrow> set_terminated f (w_heap w);
     (evs, w2) \<leftarrow> wf_release f (w\<lparr>w_heap := h1\<rparr>);
     wf_suspend f (w_heap w2);
     Some (Suspended_for_good, evs, w2) }"

definition trampoline_exit ::
  "fn_outcome \<Rightarrow> fid \<Rightarrow> world \<Rightarrow> (ending \<times> cleanup_event list \<times> world) option" where
  "trampoline_exit oc f w =
     (case oc of
        Fn_returned \<Rightarrow> do {
          assert_that (is_running (w_heap w) f);
          trampoline_finish f w }
      | Fn_unwound \<Rightarrow> do {
          h1 \<leftarrow> set_terminated f (w_heap w);
          (evs, w2) \<leftarrow> wf_release f (w\<lparr>w_heap := h1\<rparr>);
          Some (Rethrown_unwind, evs, w2) }
      | Fn_interrupted \<Rightarrow>
          trampoline_finish f (upd_heap (set_exception f (Some fiber_interrupted)) w)
      | Fn_threw \<Rightarrow> Some (Std_terminate, [], w))"

section \<open>The handle\<close>

definition fiber_joinable :: "fiber \<Rightarrow> bool" where
  "fiber_joinable impl \<longleftrightarrow> impl \<noteq> None"

definition fiber_not :: "fiber \<Rightarrow> world \<Rightarrow> bool" where
  "fiber_not impl w \<longleftrightarrow> (case impl of None \<Rightarrow> True | Some f \<Rightarrow> is_terminated (w_heap w) f)"

definition fiber_get_id :: "fiber \<Rightarrow> fiber_id" where
  "fiber_get_id impl = (case impl of Some f \<Rightarrow> get_id f | None \<Rightarrow> no_id)"

definition fiber_less :: "fiber \<Rightarrow> fiber \<Rightarrow> bool" where
  "fiber_less l r \<longleftrightarrow> fiber_get_id l < fiber_get_id r"

definition fiber_swap :: "fiber \<Rightarrow> fiber \<Rightarrow> fiber \<times> fiber" where
  "fiber_swap l r = (r, l)"

definition start_fiber ::
  "'s sched_algorithm \<Rightarrow> fid \<Rightarrow> world \<Rightarrow> 's fiber_manager \<Rightarrow> (world \<times> 's fiber_manager) option" where
  "start_fiber A f w m = do {
     w1 \<leftarrow> set_ready f w;
     fm_spawn A f w1 m }"

text \<open>The constructor; the new control block lies at the fresh address \<open>f\<close>.\<close>

definition fiber_ctor ::
  "'s sched_algorithm \<Rightarrow> fid \<Rightarrow> world \<Rightarrow> 's fiber_manager \<Rightarrow> (fiber \<times> world \<times> 's fiber_manager) option" where
  "fiber_ctor A f w m = do {
     w1 \<leftarrow> setup_allocate f w;
     (w2, m2) \<leftarrow> start_fiber A f w1 m;
     Some (Some f, w2, m2) }"

text \<open>The destructor calls \<^verbatim>\<open>std::terminate\<close> on a joinable fiber, which is \<open>Inl\<close> here.\<close>

definition fiber_dtor :: "fiber \<Rightarrow> world \<Rightarrow> (unit + world) option" where
  "fiber_dtor impl w =
     (if fiber_joinable impl then Some (Inl ())
      else case impl of
        Some f \<Rightarrow> do { h' \<leftarrow> deallocate f (w_heap w); Some (Inr (w\<lparr>w_heap := h'\<rparr>)) }
      | None \<Rightarrow> Some (Inr w))"

definition fiber_move_ctor :: "fiber \<Rightarrow> fiber \<times> fiber" where
  "fiber_move_ctor other = fiber_swap None other"

text \<open>Move assignment: \<open>(this, other)\<close> after it, or \<open>Inl\<close> for \<^verbatim>\<open>std::terminate\<close>.\<close>

definition fiber_assign :: "fiber \<Rightarrow> fiber \<Rightarrow> world \<Rightarrow> (unit + (fiber \<times> fiber \<times> world)) option" where
  "fiber_assign this other w =
     (if fiber_joinable this then Some (Inl ())
      else do {
        let (tmp, other') = fiber_move_ctor other;
        let (this', tmp') = fiber_swap this tmp;
        d \<leftarrow> fiber_dtor tmp' w;
        case d of Inl u \<Rightarrow> Some (Inl ()) | Inr w' \<Rightarrow> Some (Inr (this', other', w')) })"

definition fiber_priority :: "fiber \<Rightarrow> world \<Rightarrow> int option" where
  "fiber_priority impl w = do { f \<leftarrow> impl; Some (wf_priority (w_heap w f)) }"

definition fiber_priority_set ::
  "'s sched_algorithm \<Rightarrow> int \<Rightarrow> fiber \<Rightarrow> world \<Rightarrow> 's fiber_manager \<Rightarrow> (world \<times> 's fiber_manager) option" where
  "fiber_priority_set A prio impl w m = do { f \<leftarrow> impl; fm_priority A f prio w m }"

definition fiber_thread_affinity :: "fiber \<Rightarrow> world \<Rightarrow> bool option" where
  "fiber_thread_affinity impl w = do { f \<leftarrow> impl; Some (thread_affinity (w_heap w f)) }"

definition fiber_thread_affinity_set :: "bool \<Rightarrow> fiber \<Rightarrow> world \<Rightarrow> world option" where
  "fiber_thread_affinity_set req impl w = do {
     f \<leftarrow> impl;
     Some (upd_heap (\<lambda>h. h(f := thread_affinity_set req (h f))) w) }"

text \<open>
  \<^verbatim>\<open>join\<close>, up to the suspension inside the scheduler: the checks, then \<^verbatim>\<open>fiber_manager::join\<close>.
  In the main context the scheduler's loop begins, which changes nothing by itself.
\<close>

definition fiber_join_enter ::
  "fiber \<Rightarrow> world \<Rightarrow> 's fiber_manager \<Rightarrow> ((world \<times> 's fiber_manager) result) option" where
  "fiber_join_enter impl w m = do {
     f \<leftarrow> impl;
     if this_get_id m = fiber_get_id impl
     then Some (Inl (fiber_resource_error errc_resource_deadlock_would_occur ''boost fiber: trying joining itself''))
     else if \<not> fiber_joinable impl
     then Some (Inl (fiber_resource_error errc_invalid_argument ''boost fiber: fiber not joinable''))
     else case fm_active m of
       Some a \<Rightarrow> do { s \<leftarrow> fm_join_enter f w m; Some (Inr s) }
     | None \<Rightarrow> Some (Inr (w, m)) }"

text \<open>And after it: the handle lets go of the fiber, whose stored exception is rethrown.\<close>

definition fiber_join_leave :: "fiber \<Rightarrow> world \<Rightarrow> (fiber \<times> unit result \<times> world) option" where
  "fiber_join_leave impl w = do {
     f \<leftarrow> impl;
     fm_join_leave f w;
     let except = wf_except (w_heap w f);
     h' \<leftarrow> deallocate f (w_heap w);
     Some (None, case except of Some e \<Rightarrow> Inl e | None \<Rightarrow> Inr (), w\<lparr>w_heap := h'\<rparr>) }"

definition fiber_detach :: "fiber \<Rightarrow> world \<Rightarrow> (fiber \<times> unit result \<times> world) option" where
  "fiber_detach impl w = do {
     f \<leftarrow> impl;
     if \<not> fiber_joinable impl
     then Some (impl, Inl (fiber_resource_error errc_invalid_argument ''boost fiber: fiber not joinable''), w)
     else Some (None, Inr (), upd_heap (\<lambda>h. h(f := detach (h f))) w) }"

definition fiber_interrupt :: "fiber \<Rightarrow> world \<Rightarrow> world option" where
  "fiber_interrupt impl w = do { f \<leftarrow> impl; request_interruption True f w }"

section \<open>Lemmas\<close>

text \<open>The control block a new fiber starts with.\<close>

definition new_fiber :: worker_fiber where
  "new_fiber = worker_fiber_init\<lparr>wf_caller := True\<rparr>"

lemma new_fiber_simps [simp]:
  "wf_state new_fiber = READY" "unqueued new_fiber" "wf_tp new_fiber = time_point_max"
  "has_coro new_fiber" "wf_waiting new_fiber = []" "wf_splk new_fiber = UNLOCKED"
  "\<not> detached new_fiber" "\<not> interruption_requested new_fiber"
  by (simp_all add: new_fiber_def worker_fiber_init_def unqueued_def has_coro_def spinlock_init_def
      detached_def interruption_requested_def)

lemma setup_allocate_conv:
  "do { w1 \<leftarrow> setup_allocate f w; set_ready f w1 } = Some (w\<lparr>w_heap := (w_heap w)(f := new_fiber)\<rparr>)"
  by (simp add: setup_allocate_def trampoline_enter_def set_state_conv worker_fiber_init_def
      wf_suspend_def upd_heap_def set_ready_outside mark_ready_def new_fiber_def)

context sched_contract
begin

lemma fiber_ctor_ok:
  assumes Q: "fm_queues rq w m ws rs" and out: "f \<notin> set ws" "f \<notin> set rs"
  shows "\<exists>w' m' ys. fiber_ctor A f w m = Some (Some f, w', m') \<and> fm_queues rq w' m' ws ys \<and>
     set ys = insert f (set rs) \<and> fm_active m' = fm_active m \<and> fm_wqueue m' = fm_wqueue m \<and>
     links_frame (insert f (set rs)) ((w_heap w)(f := new_fiber)) (w_heap w') \<and>
     w_wqs w' = w_wqs w \<and> w_mains w' = w_mains w"
proof -
  define w1 where "w1 = w\<lparr>w_heap := (w_heap w)(f := new_fiber)\<rparr>"
  have Q1: "fm_queues rq w1 m ws rs" unfolding w1_def by (rule queues_update_outside [OF Q out])
  have "fiber_ctor A f w m = do { (w2, m2) \<leftarrow> fm_spawn A f w1 m; Some (Some f, w2, m2) }"
    using setup_allocate_conv [of f w] unfolding w1_def
    by (auto simp: fiber_ctor_def start_fiber_def bind_eq_Some_conv)
  moreover obtain w' m' ys where "fm_spawn A f w1 m = Some (w', m')" "fm_queues rq w' m' ws ys"
     "set ys = insert f (set rs)" "fm_active m' = fm_active m" "fm_wqueue m' = fm_wqueue m"
     "links_frame (insert f (set rs)) (w_heap w1) (w_heap w')" "w_wqs w' = w_wqs w1" "w_mains w' = w_mains w1"
    using spawn_ok [OF Q1 out] by (auto simp: w1_def)
  ultimately show ?thesis by (auto simp: w1_def)
qed

text \<open>
  The running fiber ends: it is terminated, its joiners are ready, its clean-up functions have run.
\<close>

lemma trampoline_finish_ok:
  assumes Q: "fm_queues rq w m ws rs" and run: "fm_running w m a"
    and a: "wf_splk (w_heap w a) = UNLOCKED" "set (wf_waiting (w_heap w a)) \<subseteq> set ws \<union> set rs"
  shows "\<exists>evs w' ws'. trampoline_finish a w = Some (Suspended_for_good, evs, w') \<and>
     fm_queues rq w' m ws' rs \<and> set ws' = set ws \<and>
     links_frame (set ws) (ready_all (set (wf_waiting (w_heap w a)))
       ((w_heap w)(a := (w_heap w a)\<lparr>wf_state := TERMINATED, wf_waiting := []\<rparr>))) (w_heap w')"
proof -
  define w1 where "w1 = w\<lparr>w_heap := (w_heap w)(a := (w_heap w a)\<lparr>wf_state := TERMINATED\<rparr>)\<rparr>"
  have out: "a \<notin> set ws" "a \<notin> set rs" using fm_running_outside [OF Q run] by simp_all
  have "fm_queues rq w1 m ws rs" unfolding w1_def by (rule queues_update_outside [OF Q out])
  from release_waiters_ok [OF this, of a] a obtain w' ws' where r:
    "wf_release_waiters a w1 = Some w'" "fm_queues rq w' m ws' rs" "set ws' = set ws"
    "links_frame (set ws) (ready_all (set (wf_waiting (w_heap w a)))
       ((w_heap w)(a := (w_heap w a)\<lparr>wf_state := TERMINATED, wf_waiting := []\<rparr>))) (w_heap w')"
    by (auto simp: w1_def)
  have "a \<notin> set (wf_waiting (w_heap w a))" using a(2) out by blast
  then have "wf_callee (w_heap w' a)"
    using links_frame_fields(3) [OF r(4), of a] run
    by (simp add: ready_all_def fm_running_def has_coro_def)
  with r run show ?thesis
    by (auto simp: trampoline_finish_def set_state_conv fm_running_def wf_release_def wf_suspend_def w1_def)
qed

end

end
