(* ===== verification/Thread_System.thy ===== *)
theory Thread_System
  imports Fiber
begin

text \<open>
  One thread with its scheduler and all its fibers, driven by the requests the fibers and the main
  context make. A request is executed by the functions of the library in the order the code
  composes them; \<open>None\<close> means that an assertion failed on the way. The theory shows that this
  never happens as long as the callers keep to the rules collected in \<open>sys_enabled\<close>.
\<close>

section \<open>States and requests\<close>

text \<open>What a fiber that is not running will do first when it is resumed.\<close>

datatype pc = At_large | In_wait | In_join fid

text \<open>
  \<open>sy_used\<close> are the addresses of the control blocks that exist.
\<close>

record 's sys =
  sy_world :: world
  sy_mgr :: "'s fiber_manager"
  sy_used :: "fid list"
  sy_pc :: "fid \<Rightarrow> pc"

datatype request =
    Rq_spawn fid
  | Rq_run time_point time_point
  | Rq_wait time_point
  | Rq_yield
  | Rq_join fid
  | Rq_main_join fid
  | Rq_return fn_outcome
  | Rq_notify fid
  | Rq_interrupt fid
  | Rq_interruption_point
  | Rq_detach fid

definition sys_init :: "wqid \<Rightarrow> heap \<Rightarrow> round_robin sys" where
  "sys_init q h =
     \<lparr>sy_world = \<lparr>w_heap = h, w_wqs = (\<lambda>_. waiting_queue_init), w_mains = (\<lambda>_. False)\<rparr>,
      sy_mgr = fiber_manager_init q, sy_used = [], sy_pc = (\<lambda>_. At_large)\<rparr>"

section \<open>Executing a request\<close>

text \<open>The fiber \<open>a\<close> has suspended itself: control is back in \<^verbatim>\<open>resume_\<close>.\<close>

definition sys_leave :: "fid \<Rightarrow> pc \<Rightarrow> world \<Rightarrow> 's fiber_manager \<Rightarrow> 's sys \<Rightarrow> 's sys option" where
  "sys_leave a c w m s = do {
     (w', m') \<leftarrow> fm_resume_leave None w m;
     Some (s\<lparr>sy_world := w', sy_mgr := m',
             sy_used := (if detached (w_heap w a) \<and> is_terminated (w_heap w) a
                         then remove1 a (sy_used s) else sy_used s),
             sy_pc := (sy_pc s)(a := c)\<rparr>) }"

text \<open>\<^verbatim>\<open>fiber::join\<close> from the return of the scheduler's \<^verbatim>\<open>join\<close> on.\<close>

definition sys_join_leave :: "fid \<Rightarrow> 's sys \<Rightarrow> 's sys option" where
  "sys_join_leave g s = do {
     (impl, r, w') \<leftarrow> fiber_join_leave (Some g) (sy_world s);
     Some (s\<lparr>sy_world := w', sy_used := remove1 g (sy_used s)\<rparr>) }"

text \<open>A fiber has been switched to: what it does first.\<close>

definition sys_continue :: "fid \<Rightarrow> 's sys \<Rightarrow> 's sys option" where
  "sys_continue f s = do {
     s1 \<leftarrow> (case sy_pc s f of In_join g \<Rightarrow> sys_join_leave g s | _ \<Rightarrow> Some s);
     Some (s1\<lparr>sy_pc := (sy_pc s1)(f := At_large)\<rparr>) }"

definition sys_exec :: "'s sched_algorithm \<Rightarrow> request \<Rightarrow> 's sys \<Rightarrow> 's sys option" where
  "sys_exec A r s =
     (let w = sy_world s; m = sy_mgr s in
      case r of
        Rq_spawn f \<Rightarrow> do {
          (impl, w', m') \<leftarrow> fiber_ctor A f w m;
          Some (s\<lparr>sy_world := w', sy_mgr := m', sy_used := f # sy_used s,
                  sy_pc := (sy_pc s)(f := At_large)\<rparr>) }
      | Rq_run now now' \<Rightarrow> do {
          (c, w', m') \<leftarrow> fm_run A now now' w m;
          let s1 = s\<lparr>sy_world := w', sy_mgr := m'\<rparr>;
          case c of Resumed f tmp \<Rightarrow> sys_continue f s1 | _ \<Rightarrow> Some s1 }
      | Rq_wait t \<Rightarrow> do {
          a \<leftarrow> fm_active m;
          (lk, w', m') \<leftarrow> fm_wait_until_enter t LOCKED w m;
          sys_leave a In_wait w' m' s }
      | Rq_yield \<Rightarrow> do {
          a \<leftarrow> fm_active m;
          (w', m') \<leftarrow> fm_yield_enter w m;
          sys_leave a At_large w' m' s }
      | Rq_join f \<Rightarrow> do {
          a \<leftarrow> fm_active m;
          (w', m') \<leftarrow> fm_join_enter f w m;
          sys_leave a (In_join f) w' m' s }
      | Rq_main_join f \<Rightarrow> sys_join_leave f s
      | Rq_return oc \<Rightarrow> do {
          a \<leftarrow> fm_active m;
          (e, evs, w') \<leftarrow> trampoline_exit oc a w;
          sys_leave a At_large w' m s }
      | Rq_notify f \<Rightarrow> do { w' \<leftarrow> set_ready f w; Some (s\<lparr>sy_world := w'\<rparr>) }
      | Rq_interrupt f \<Rightarrow> do { w' \<leftarrow> fiber_interrupt (Some f) w; Some (s\<lparr>sy_world := w'\<rparr>) }
      | Rq_interruption_point \<Rightarrow> do {
          (e, w') \<leftarrow> interruption_point w m;
          Some (s\<lparr>sy_world := w'\<rparr>) }
      | Rq_detach f \<Rightarrow> do {
          (impl, e, w') \<leftarrow> fiber_detach (Some f) w;
          Some (s\<lparr>sy_world := w'\<rparr>) })"

section \<open>The rules for callers\<close>

text \<open>
  Nobody joins twice: a handle joins its fiber once. The caller of \<^verbatim>\<open>join\<close> must have no
  interruption pending, and a fiber inside \<^verbatim>\<open>join\<close> must not be interrupted: the scheduler would
  wake it and the assertion at the end of \<^verbatim>\<open>fiber_manager::join\<close> would fail. Only fibers that
  wait are notified.
\<close>

definition sys_joined :: "'s sys \<Rightarrow> fid \<Rightarrow> bool" where
  "sys_joined s g \<longleftrightarrow> (\<exists>p \<in> set (sy_used s). sy_pc s p = In_join g)"

definition sys_enabled :: "request \<Rightarrow> 's sys \<Rightarrow> bool" where
  "sys_enabled r s \<longleftrightarrow>
     (let h = w_heap (sy_world s); active = fm_active (sy_mgr s); used = set (sy_used s) in
      case r of
        Rq_spawn f \<Rightarrow> f \<notin> used
      | Rq_run now now' \<Rightarrow> active = None \<and> now < time_point_max
      | Rq_wait t \<Rightarrow> active \<noteq> None \<and> t \<le> time_point_max
      | Rq_yield \<Rightarrow> active \<noteq> None
      | Rq_join f \<Rightarrow> f \<in> used \<and> \<not> detached (h f) \<and> \<not> sys_joined s f \<and>
          (case active of None \<Rightarrow> False | Some a \<Rightarrow> a \<noteq> f \<and> \<not> interruption_requested (h a))
      | Rq_main_join f \<Rightarrow> f \<in> used \<and> \<not> detached (h f) \<and> \<not> sys_joined s f \<and>
          active = None \<and> fm_join_main_done f (sy_world s)
      | Rq_return oc \<Rightarrow> active \<noteq> None \<and> (oc = Fn_returned \<or> oc = Fn_interrupted)
      | Rq_notify f \<Rightarrow> f \<in> used \<and> sy_pc s f = In_wait
      | Rq_interrupt f \<Rightarrow> f \<in> used \<and> active \<noteq> Some f \<and> \<not> is_terminated h f \<and>
          (case sy_pc s f of In_join g \<Rightarrow> False | _ \<Rightarrow> True)
      | Rq_interruption_point \<Rightarrow> active \<noteq> None
      | Rq_detach f \<Rightarrow> f \<in> used \<and> \<not> sys_joined s f)"

inductive sys_reachable :: "'s sched_algorithm \<Rightarrow> 's sys \<Rightarrow> 's sys \<Rightarrow> bool" for A s0 where
  start: "sys_reachable A s0 s0"
| step: "sys_reachable A s0 s \<Longrightarrow> sys_enabled r s \<Longrightarrow> sys_exec A r s = Some s' \<Longrightarrow>
    sys_reachable A s0 s'"

section \<open>The invariant\<close>

text \<open>Where the fibers are.\<close>

definition sys_placed ::
  "(heap \<Rightarrow> 's \<Rightarrow> fid list \<Rightarrow> bool) \<Rightarrow> 's sys \<Rightarrow> fid list \<Rightarrow> fid list \<Rightarrow> bool" where
  "sys_placed rq s ws rs \<longleftrightarrow>
     fm_queues rq (sy_world s) (sy_mgr s) ws rs \<and> distinct (sy_used s) \<and>
     set ws \<union> set rs \<union> set_option (fm_active (sy_mgr s)) \<subseteq> set (sy_used s) \<and>
     (\<forall>a. fm_active (sy_mgr s) = Some a \<longrightarrow> fm_running (sy_world s) (sy_mgr s) a) \<and>
     (\<forall>f \<in> set (sy_used s). f \<in> set ws \<union> set rs \<or> fm_active (sy_mgr s) = Some f \<or>
        wf_state (w_heap (sy_world s) f) = TERMINATED)"

text \<open>Who waits for whom.\<close>

definition sys_joins :: "heap \<Rightarrow> fid set \<Rightarrow> fid set \<Rightarrow> (fid \<Rightarrow> pc) \<Rightarrow> fid set \<Rightarrow> bool" where
  "sys_joins h W R pc used \<longleftrightarrow>
     (\<forall>f \<in> used. wf_splk (h f) = UNLOCKED \<and>
        (wf_state (h f) = TERMINATED \<longrightarrow> wf_waiting (h f) = []) \<and>
        (pc f \<noteq> At_large \<longrightarrow> f \<in> W \<union> R)) \<and>
     (\<forall>f \<in> used. \<forall>p \<in> set (wf_waiting (h f)). p \<in> used \<and> p \<in> W \<and> pc p = In_join f \<and>
        wf_state (h p) = WAITING \<and> wf_tp (h p) = time_point_max \<and> \<not> interruption_requested (h p)) \<and>
     (\<forall>p \<in> used. \<forall>g. pc p = In_join g \<longrightarrow> g \<in> used \<and> \<not> detached (h g) \<and>
        (wf_state (h g) = TERMINATED \<or> p \<in> set (wf_waiting (h g)))) \<and>
     (\<forall>p \<in> used. \<forall>p' \<in> used. \<forall>g. pc p = In_join g \<longrightarrow> pc p' = In_join g \<longrightarrow> p = p')"

definition sys_inv_at ::
  "(heap \<Rightarrow> 's \<Rightarrow> fid list \<Rightarrow> bool) \<Rightarrow> 's sys \<Rightarrow> fid list \<Rightarrow> fid list \<Rightarrow> bool" where
  "sys_inv_at rq s ws rs \<longleftrightarrow>
     sys_placed rq s ws rs \<and>
     sys_joins (w_heap (sy_world s)) (set ws) (set rs) (sy_pc s) (set (sy_used s))"

definition sys_inv :: "(heap \<Rightarrow> 's \<Rightarrow> fid list \<Rightarrow> bool) \<Rightarrow> 's sys \<Rightarrow> bool" where
  "sys_inv rq s \<longleftrightarrow> (\<exists>ws rs. sys_inv_at rq s ws rs)"

lemma sys_invI: "sys_inv_at rq s ws rs \<Longrightarrow> sys_inv rq s"
  by (auto simp: sys_inv_def)

lemma sys_placedD:
  assumes "sys_placed rq s ws rs"
  shows "fm_queues rq (sy_world s) (sy_mgr s) ws rs" "distinct (sy_used s)"
    "f \<in> set ws \<Longrightarrow> f \<in> set (sy_used s)" "f \<in> set rs \<Longrightarrow> f \<in> set (sy_used s)"
    "fm_active (sy_mgr s) = Some a \<Longrightarrow> a \<in> set (sy_used s)"
    "fm_active (sy_mgr s) = Some a \<Longrightarrow> fm_running (sy_world s) (sy_mgr s) a"
    "f \<in> set (sy_used s) \<Longrightarrow> f \<notin> set ws \<Longrightarrow> f \<notin> set rs \<Longrightarrow> fm_active (sy_mgr s) \<noteq> Some f \<Longrightarrow>
      wf_state (w_heap (sy_world s) f) = TERMINATED"
  using assms unfolding sys_placed_def by auto

lemma sys_placedI:
  assumes "fm_queues rq (sy_world s) (sy_mgr s) ws rs" "distinct (sy_used s)"
    "\<And>f. f \<in> set ws \<Longrightarrow> f \<in> set (sy_used s)" "\<And>f. f \<in> set rs \<Longrightarrow> f \<in> set (sy_used s)"
    "\<And>a. fm_active (sy_mgr s) = Some a \<Longrightarrow> a \<in> set (sy_used s)"
    "\<And>a. fm_active (sy_mgr s) = Some a \<Longrightarrow> fm_running (sy_world s) (sy_mgr s) a"
    "\<And>f. f \<in> set (sy_used s) \<Longrightarrow> f \<notin> set ws \<Longrightarrow> f \<notin> set rs \<Longrightarrow> fm_active (sy_mgr s) \<noteq> Some f \<Longrightarrow>
      wf_state (w_heap (sy_world s) f) = TERMINATED"
  shows "sys_placed rq s ws rs"
proof -
  have "set_option (fm_active (sy_mgr s)) \<subseteq> set (sy_used s)"
    using assms(5) by (cases "fm_active (sy_mgr s)") auto
  then show ?thesis using assms unfolding sys_placed_def by blast
qed

lemma sys_joinsD:
  assumes "sys_joins h W R pc used"
  shows "f \<in> used \<Longrightarrow> wf_splk (h f) = UNLOCKED"
    "f \<in> used \<Longrightarrow> wf_state (h f) = TERMINATED \<Longrightarrow> wf_waiting (h f) = []"
    "f \<in> used \<Longrightarrow> pc f \<noteq> At_large \<Longrightarrow> f \<in> W \<union> R"
    "f \<in> used \<Longrightarrow> p \<in> set (wf_waiting (h f)) \<Longrightarrow> p \<in> used \<and> p \<in> W \<and> pc p = In_join f \<and>
        wf_state (h p) = WAITING \<and> wf_tp (h p) = time_point_max \<and> \<not> interruption_requested (h p)"
    "p \<in> used \<Longrightarrow> pc p = In_join g \<Longrightarrow> g \<in> used \<and> \<not> detached (h g) \<and>
        (wf_state (h g) = TERMINATED \<or> p \<in> set (wf_waiting (h g)))"
    "p \<in> used \<Longrightarrow> p' \<in> used \<Longrightarrow> pc p = In_join g \<Longrightarrow> pc p' = In_join g \<Longrightarrow> p = p'"
  using assms unfolding sys_joins_def by blast+

lemma sys_joinsI:
  assumes "\<And>f. f \<in> used \<Longrightarrow> wf_splk (h f) = UNLOCKED"
    "\<And>f. f \<in> used \<Longrightarrow> wf_state (h f) = TERMINATED \<Longrightarrow> wf_waiting (h f) = []"
    "\<And>f. f \<in> used \<Longrightarrow> pc f \<noteq> At_large \<Longrightarrow> f \<in> W \<union> R"
    "\<And>f p. f \<in> used \<Longrightarrow> p \<in> set (wf_waiting (h f)) \<Longrightarrow> p \<in> used \<and> p \<in> W \<and> pc p = In_join f \<and>
        wf_state (h p) = WAITING \<and> wf_tp (h p) = time_point_max \<and> \<not> interruption_requested (h p)"
    "\<And>p g. p \<in> used \<Longrightarrow> pc p = In_join g \<Longrightarrow> g \<in> used \<and> \<not> detached (h g) \<and>
        (wf_state (h g) = TERMINATED \<or> p \<in> set (wf_waiting (h g)))"
    "\<And>p p' g. p \<in> used \<Longrightarrow> p' \<in> used \<Longrightarrow> pc p = In_join g \<Longrightarrow> pc p' = In_join g \<Longrightarrow> p = p'"
  shows "sys_joins h W R pc used"
  unfolding sys_joins_def by (intro conjI ballI allI impI; (rule assms | (drule assms, assumption)+ | blast intro: assms); (assumption | blast))

text \<open>Changes that concern no joiner: states of others, queue membership, the \<open>pc\<close> of a non-joiner.\<close>

lemma sys_joins_cong:
  assumes J: "sys_joins h W R pc used" and used: "used' \<subseteq> used"
    and same: "\<And>f. f \<in> used' \<Longrightarrow> wf_splk (h' f) = wf_splk (h f) \<and> wf_waiting (h' f) = wf_waiting (h f) \<and>
      (wf_state (h' f) = TERMINATED \<longleftrightarrow> wf_state (h f) = TERMINATED)"
    and pc: "\<And>p g. p \<in> used' \<Longrightarrow> pc' p = In_join g \<Longrightarrow> pc p = In_join g \<and> g \<in> used' \<and> \<not> detached (h' g)"
    and queued: "\<And>p. p \<in> used' \<Longrightarrow> pc' p \<noteq> At_large \<Longrightarrow> p \<in> W' \<union> R'"
    and joiner: "\<And>p f. f \<in> used' \<Longrightarrow> p \<in> used \<Longrightarrow> p \<in> W \<Longrightarrow> p \<in> set (wf_waiting (h f)) \<Longrightarrow> pc p = In_join f \<Longrightarrow>
      wf_state (h p) = WAITING \<Longrightarrow> wf_tp (h p) = time_point_max \<Longrightarrow> \<not> interruption_requested (h p) \<Longrightarrow>
      p \<in> used' \<and> p \<in> W' \<and> pc' p = In_join f \<and> wf_state (h' p) = WAITING \<and> wf_tp (h' p) = time_point_max \<and>
      \<not> interruption_requested (h' p)"
  shows "sys_joins h' W' R' pc' used'"
  unfolding sys_joins_def
proof (intro conjI ballI allI impI)
  fix f assume f: "f \<in> used'"
  show "wf_splk (h' f) = UNLOCKED" using sys_joinsD(1) [OF J] same [OF f] f used by auto
  show "wf_waiting (h' f) = []" if "wf_state (h' f) = TERMINATED"
    using sys_joinsD(2) [OF J, of f] same [OF f] f used that by auto
  show "f \<in> W' \<union> R'" if "pc' f \<noteq> At_large" using queued [OF f that] .
  fix p assume p: "p \<in> set (wf_waiting (h' f))"
  have *: "p \<in> used' \<and> p \<in> W' \<and> pc' p = In_join f \<and> wf_state (h' p) = WAITING \<and>
      wf_tp (h' p) = time_point_max \<and> \<not> interruption_requested (h' p)"
    using sys_joinsD(4) [OF J, of f p] joiner [OF f, of p] same [OF f] f used p by auto
  then show "p \<in> used'" "p \<in> W'" "pc' p = In_join f" "wf_state (h' p) = WAITING"
    "wf_tp (h' p) = time_point_max" "\<not> interruption_requested (h' p)" by simp_all
next
  fix p g assume p: "p \<in> used'" "pc' p = In_join g"
  then show "g \<in> used'" "\<not> detached (h' g)"  using pc by auto
  then show "wf_state (h' g) = TERMINATED \<or> p \<in> set (wf_waiting (h' g))"
    using sys_joinsD(5) [OF J, of p g] pc [OF p] same [of g] p(1) used by auto
  fix p' assume "p' \<in> used'" "pc' p' = In_join g"
  then show "p = p'" using sys_joinsD(6) [OF J, of p p' g] p pc used by blast
qed

lemma sys_joins_frame:
  assumes "links_frame B h h'" and "sys_joins h W R pc used"
  shows "sys_joins h' W R pc used"
proof (rule sys_joins_cong [OF assms(2) subset_refl])
  fix p g assume "p \<in> used" "pc p = In_join g"
  then show "pc p = In_join g \<and> g \<in> used \<and> \<not> detached (h' g)"
    using sys_joinsD(5) [OF assms(2), of p g] links_frame_fields(6) [OF assms(1), of g]
    by (simp add: detached_def)
next
  fix p assume "p \<in> used" "pc p \<noteq> At_large"
  then show "p \<in> W \<union> R" using sys_joinsD(3) [OF assms(2)] by blast
qed (simp_all add: links_frame_fields [OF assms(1)] interruption_requested_def)

text \<open>A fiber that is in nobody's list starts to wait for the end of \<open>g\<close>.\<close>

lemma sys_joins_add:
  assumes J: "sys_joins h W R pc used" and a: "a \<in> used" "pc a = At_large" "a \<in> W \<union> R" "a \<noteq> g"
    and g: "g \<in> used" "\<not> detached (h g)" "\<forall>p \<in> used. pc p \<noteq> In_join g"
    and h': "wf_state (h g) = TERMINATED \<and> h' = h \<or>
      wf_state (h g) \<noteq> TERMINATED \<and> a \<in> W \<and> wf_state (h a) = WAITING \<and> wf_tp (h a) = time_point_max \<and>
      \<not> interruption_requested (h a) \<and> h' = h(g := (h g)\<lparr>wf_waiting := wf_waiting (h g) @ [a]\<rparr>)"
  shows "sys_joins h' W R (pc(a := In_join g)) used"
proof -
  note D = sys_joinsD [OF J]
  have same: "wf_splk (h' x) = wf_splk (h x)" "wf_state (h' x) = wf_state (h x)" "wf_tp (h' x) = wf_tp (h x)"
    "interruption_requested (h' x) = interruption_requested (h x)" "detached (h' x) = detached (h x)"
    "set (wf_waiting (h' x)) =
      (if x = g \<and> wf_state (h g) \<noteq> TERMINATED then insert a (set (wf_waiting (h x))) else set (wf_waiting (h x)))"
    for x
    using h' by (cases "x = g"; auto simp: interruption_requested_def detached_def)+
  have out: "a \<notin> set (wf_waiting (h x))" if "x \<in> used" for x
    using D(4) [OF that] a(2) by force
  have "wf_waiting (h' x) = []" if "x \<in> used" "wf_state (h' x) = TERMINATED" for x
    using D(2) [of x] that h' by (auto split: if_splits)
  have "p \<in> used \<and> p \<in> W \<and> (pc(a := In_join g)) p = In_join x \<and> wf_state (h' p) = WAITING \<and>
      wf_tp (h' p) = time_point_max \<and> \<not> interruption_requested (h' p)"
    if "x \<in> used" "p \<in> set (wf_waiting (h' x))" for x p
    using that D(4) [of x p] out [of x] h' a unfolding same by (auto split: if_splits)
  have "y \<in> used \<and> \<not> detached (h' y) \<and> (wf_state (h' y) = TERMINATED \<or> p \<in> set (wf_waiting (h' y)))"
    if "p \<in> used" "(pc(a := In_join g)) p = In_join y" for p y
    using that D(5) [of p y] g(1,2) unfolding same by (auto split: if_splits)
  have "p = p'" if "p \<in> used" "p' \<in> used" "(pc(a := In_join g)) p = In_join y"
    "(pc(a := In_join g)) p' = In_join y" for p p' y
    using that D(6) [of p p' y] g(3) by (auto split: if_splits)
  have "wf_splk (h' x) = UNLOCKED" if "x \<in> used" for x
    using D(1) [OF that] same(1) by simp
  have "x \<in> W \<union> R" if "x \<in> used" "(pc(a := In_join g)) x \<noteq> At_large" for x
    using that D(3) a(3) by (cases "x = a") auto
  show ?thesis by (rule sys_joinsI) fact+
qed

text \<open>The fiber \<open>a\<close> ends and its joiners become ready.\<close>

lemma sys_joins_finish:
  assumes J: "sys_joins h W R pc used" and a: "a \<in> used" "pc a = At_large"
    and h': "h' = ready_all (set (wf_waiting (h a))) (h(a := (h a)\<lparr>wf_state := TERMINATED, wf_waiting := []\<rparr>))"
  shows "sys_joins h' W R pc used"
proof -
  note D = sys_joinsD [OF J]
  have a': "a \<notin> set (wf_waiting (h x))" if "x \<in> used" for x
    using D(4) [OF that] a(2) by force
  have disj: "p \<notin> set (wf_waiting (h a))" if "x \<in> used" "x \<noteq> a" "p \<in> set (wf_waiting (h x))" for x p
    using D(4) [OF that(1,3)] D(4) [OF a(1)] that(2) by force
  have same: "wf_splk (h' x) = wf_splk (h x)" "wf_tp (h' x) = wf_tp (h x)"
    "interruption_requested (h' x) = interruption_requested (h x)" "detached (h' x) = detached (h x)"
    "wf_waiting (h' x) = (if x = a then [] else wf_waiting (h x))"
    "wf_state (h' x) = (if x = a then TERMINATED else if x \<in> set (wf_waiting (h a)) then READY else wf_state (h x))"
    for x
    using a' [OF a(1)] by (cases "x = a"; simp add: h' ready_all_def interruption_requested_def detached_def)+
  have "wf_waiting (h' x) = []" if "x \<in> used" "wf_state (h' x) = TERMINATED" for x
    using D(2) [of x] that unfolding same by (auto split: if_splits)
  have "p \<in> used \<and> p \<in> W \<and> pc p = In_join x \<and> wf_state (h' p) = WAITING \<and>
      wf_tp (h' p) = time_point_max \<and> \<not> interruption_requested (h' p)"
    if "x \<in> used" "p \<in> set (wf_waiting (h' x))" for x p
  proof -
    have "x \<noteq> a" "p \<in> set (wf_waiting (h x))" using that(2) by (auto simp: same split: if_splits)
    then show ?thesis using D(4) [OF that(1)] disj [OF that(1)] a' [OF that(1)] by (auto simp: same)
  qed
  have "y \<in> used \<and> \<not> detached (h' y) \<and> (wf_state (h' y) = TERMINATED \<or> p \<in> set (wf_waiting (h' y)))"
    if "p \<in> used" "pc p = In_join y" for p y
  proof (cases "y = a")
    case True
    with D(5) [OF that] a(1) show ?thesis by (simp add: same)
  next
    case False
    have "y \<notin> set (wf_waiting (h a))" if "wf_state (h y) = TERMINATED"
      using D(4) [OF a(1), of y] that by auto
    with False D(5) [OF that] show ?thesis by (auto simp: same)
  qed
  have "p = p'" if "p \<in> used" "p' \<in> used" "pc p = In_join y" "pc p' = In_join y" for p p' y
    using that D(6) by blast
  have "wf_splk (h' x) = UNLOCKED" "pc x \<noteq> At_large \<Longrightarrow> x \<in> W \<union> R" if "x \<in> used" for x
    using D(1,3) [OF that] same(1) by simp_all
  show ?thesis by (rule sys_joinsI) fact+
qed

section \<open>Every request succeeds and keeps the invariant\<close>

lemma leave_live:
  assumes "fm_active m = Some a" and "wf_state (w_heap w a) \<noteq> TERMINATED"
  shows "sys_leave a c w m s =
     Some (s\<lparr>sy_world := w, sy_mgr := m\<lparr>fm_active := None\<rparr>, sy_pc := (sy_pc s)(a := c)\<rparr>)"
  using assms by (simp add: sys_leave_def fm_resume_leave_def is_terminated_def)

text \<open>The pc of the running fiber, and that nobody's list contains it.\<close>

lemma active_at_large:
  assumes I: "sys_inv_at rq s ws rs" and a: "fm_active (sy_mgr s) = Some a"
  shows "sy_pc s a = At_large"
    and "f \<in> set (sy_used s) \<Longrightarrow> a \<notin> set (wf_waiting (w_heap (sy_world s) f))"
proof -
  have P: "sys_placed rq s ws rs"
    and J: "sys_joins (w_heap (sy_world s)) (set ws) (set rs) (sy_pc s) (set (sy_used s))"
    using I by (simp_all add: sys_inv_at_def)
  have out: "a \<notin> set ws" "a \<notin> set rs"
    using fm_running_outside [OF sys_placedD(1,6) [OF P]] a by blast+
  then show "sy_pc s a = At_large"
    using sys_joinsD(3) [OF J sys_placedD(5) [OF P a]] by blast
  show "a \<notin> set (wf_waiting (w_heap (sy_world s) f))" if "f \<in> set (sy_used s)"
    using sys_joinsD(4) [OF J that] out by blast
qed

context sched_contract
begin

text \<open>The running fiber has queued itself, for \<^verbatim>\<open>wait\<close> or \<^verbatim>\<open>yield\<close>, or to join an ended fiber.\<close>

lemma suspend_placed:
  assumes I: "sys_inv_at rq s ws rs" and a: "fm_active (sy_mgr s) = Some a"
    and Q: "fm_queues rq w' (sy_mgr s) ws' rs" and ws': "set ws' = insert a (set ws)"
    and fr: "links_frame B ((w_heap (sy_world s))(a := r)) (w_heap w')"
  shows "sys_placed rq (s\<lparr>sy_world := w', sy_mgr := (sy_mgr s)\<lparr>fm_active := None\<rparr>, sy_pc := pc'\<rparr>) ws' rs"
proof -
  have P: "sys_placed rq s ws rs" using I by (simp add: sys_inv_at_def)
  have "fm_queues rq w' ((sy_mgr s)\<lparr>fm_active := None\<rparr>) ws' rs"
    by (rule queues_cong [OF Q]) simp_all
  moreover have "wf_state (w_heap w' f) = TERMINATED"
    if "f \<in> set (sy_used s)" "f \<notin> set ws'" "f \<notin> set rs" for f
    using sys_placedD(7) [OF P, of f] that ws' a links_frame_fields(5) [OF fr, of f] by auto
  ultimately show ?thesis
    using sys_placedD(2-5) [OF P] a ws' by (auto simp: sys_placed_def)
qed

lemma suspend_joins:
  assumes I: "sys_inv_at rq s ws rs" and a: "fm_active (sy_mgr s) = Some a"
    and r: "wf_splk r = wf_splk (w_heap (sy_world s) a)" "wf_waiting r = wf_waiting (w_heap (sy_world s) a)"
      "wf_flags r = wf_flags (w_heap (sy_world s) a)" "wf_state r \<noteq> TERMINATED"
    and c: "\<And>g. c \<noteq> In_join g"
  shows "sys_joins ((w_heap (sy_world s))(a := r)) (insert a (set ws)) (set rs) ((sy_pc s)(a := c))
    (set (sy_used s))"
proof -
  have P: "sys_placed rq s ws rs"
    and J: "sys_joins (w_heap (sy_world s)) (set ws) (set rs) (sy_pc s) (set (sy_used s))"
    using I by (simp_all add: sys_inv_at_def)
  note al = active_at_large [OF I a]
  have st: "wf_state (w_heap (sy_world s) a) \<noteq> TERMINATED"
    using sys_placedD(6) [OF P a] by (simp add: fm_running_def)
  show ?thesis
  proof (rule sys_joins_cong [OF J subset_refl])
    fix p g assume p: "p \<in> set (sy_used s)" "((sy_pc s)(a := c)) p = In_join g"
    then have "sy_pc s p = In_join g" using c by (auto split: if_splits)
    with sys_joinsD(5) [OF J p(1) this] show "sy_pc s p = In_join g \<and> g \<in> set (sy_used s) \<and>
        \<not> detached (((w_heap (sy_world s))(a := r)) g)"
      using r(3) by (auto simp: detached_def)
  next
    fix p assume "p \<in> set (sy_used s)" "((sy_pc s)(a := c)) p \<noteq> At_large"
    then show "p \<in> insert a (set ws) \<union> set rs"
      using sys_joinsD(3) [OF J, of p] by (auto split: if_splits)
  next
    fix p f assume "f \<in> set (sy_used s)" "p \<in> set (wf_waiting (w_heap (sy_world s) f))"
      "p \<in> set (sy_used s)" "p \<in> set ws" "sy_pc s p = In_join f"
      "wf_state (w_heap (sy_world s) p) = WAITING" "wf_tp (w_heap (sy_world s) p) = time_point_max"
      "\<not> interruption_requested (w_heap (sy_world s) p)"
    moreover from this(1,2) al(2) have "p \<noteq> a" by blast
    ultimately show "p \<in> set (sy_used s) \<and> p \<in> insert a (set ws) \<and> ((sy_pc s)(a := c)) p = In_join f \<and>
        wf_state (((w_heap (sy_world s))(a := r)) p) = WAITING \<and>
        wf_tp (((w_heap (sy_world s))(a := r)) p) = time_point_max \<and>
        \<not> interruption_requested (((w_heap (sy_world s))(a := r)) p)" by simp
  qed (use r st in auto)
qed

lemma spawn_joins:
  assumes J: "sys_joins h W R pc used" and new: "f \<notin> used"
  shows "sys_joins (h(f := new_fiber)) W (insert f R) (pc(f := At_large)) (insert f used)"
proof (rule sys_joinsI)
  have ne: "x \<noteq> f" if "x \<in> used" for x using that new by auto
  note D = sys_joinsD [OF J]
  show "wf_splk ((h(f := new_fiber)) x) = UNLOCKED" if "x \<in> insert f used" for x using that D(1) by auto
  show "wf_waiting ((h(f := new_fiber)) x) = []"
    if "x \<in> insert f used" "wf_state ((h(f := new_fiber)) x) = TERMINATED" for x
    using that D(2) by (auto split: if_splits)
  show "x \<in> W \<union> insert f R" if "x \<in> insert f used" "(pc(f := At_large)) x \<noteq> At_large" for x
    using that D(3) [of x] by (auto split: if_splits)
  show "p \<in> insert f used \<and> p \<in> W \<and> (pc(f := At_large)) p = In_join x \<and> wf_state ((h(f := new_fiber)) p) = WAITING \<and>
      wf_tp ((h(f := new_fiber)) p) = time_point_max \<and> \<not> interruption_requested ((h(f := new_fiber)) p)"
    if "x \<in> insert f used" "p \<in> set (wf_waiting ((h(f := new_fiber)) x))" for x p
    using that D(4) [of x p] ne [of p] by (auto split: if_splits)
  show "g \<in> insert f used \<and> \<not> detached ((h(f := new_fiber)) g) \<and>
      (wf_state ((h(f := new_fiber)) g) = TERMINATED \<or> p \<in> set (wf_waiting ((h(f := new_fiber)) g)))"
    if "p \<in> insert f used" "(pc(f := At_large)) p = In_join g" for p g
    using that D(5) [of p g] ne [of g] by (auto split: if_splits)
  show "p = p'" if "p \<in> insert f used" "p' \<in> insert f used" "(pc(f := At_large)) p = In_join g"
    "(pc(f := At_large)) p' = In_join g" for p p' g
    using that D(6) [of p p' g] by (auto split: if_splits)
qed

lemma exec_spawn:
  assumes I: "sys_inv_at rq s ws rs" and en: "f \<notin> set (sy_used s)"
  shows "\<exists>s' ys. sys_exec A (Rq_spawn f) s = Some s' \<and> sys_inv_at rq s' ws ys"
proof -
  let ?h = "w_heap (sy_world s)"
  have P: "sys_placed rq s ws rs"
    and J: "sys_joins ?h (set ws) (set rs) (sy_pc s) (set (sy_used s))"
    using I by (simp_all add: sys_inv_at_def)
  have out: "f \<notin> set ws" "f \<notin> set rs" "fm_active (sy_mgr s) \<noteq> Some f"
    using sys_placedD(3-5) [OF P] en by blast+
  from fiber_ctor_ok [OF sys_placedD(1) [OF P] out(1,2)] obtain w' m' ys where c:
    "fiber_ctor A f (sy_world s) (sy_mgr s) = Some (Some f, w', m')" "fm_queues rq w' m' ws ys"
    "set ys = insert f (set rs)" "fm_active m' = fm_active (sy_mgr s)"
    "links_frame (insert f (set rs)) (?h(f := new_fiber)) (w_heap w')"
    by blast
  define s' where "s' = s\<lparr>sy_world := w', sy_mgr := m', sy_used := f # sy_used s, sy_pc := (sy_pc s)(f := At_large)\<rparr>"
  have act: "fm_running w' m' a" if "fm_active m' = Some a" for a
  proof -
    have a: "fm_active (sy_mgr s) = Some a" using c(4) that by simp
    then have ne: "a \<noteq> f" "a \<notin> set rs"
      using out(3) fm_running_outside [OF sys_placedD(1) [OF P] sys_placedD(6) [OF P a]] by auto
    then have "w_heap w' a = ?h a" using links_frame_outside [OF c(5), of a] by simp
    then show ?thesis using sys_placedD(6) [OF P a] a c(4) by (simp add: fm_running_def)
  qed
  have ended: "wf_state (w_heap w' x) = TERMINATED" if "x \<in> set (sy_used s)" "x \<notin> set ws"
    "x \<notin> set rs" "fm_active (sy_mgr s) \<noteq> Some x" for x
    using sys_placedD(7) [OF P that] links_frame_fields(5) [OF c(5), of x] that(1) en by auto
  have "sys_placed rq s' ws ys"
    unfolding sys_placed_def using c(2-4) sys_placedD(2-5) [OF P] en act ended
    by (auto simp: s'_def)
  moreover have "sys_joins (?h(f := new_fiber)) (set ws) (set ys) ((sy_pc s)(f := At_large)) (set (f # sy_used s))"
    using spawn_joins [OF J en] c(3) by simp
  from sys_joins_frame [OF c(5) this]
  have "sys_joins (w_heap (sy_world s')) (set ws) (set ys) (sy_pc s') (set (sy_used s'))"
    by (simp add: s'_def)
  ultimately show ?thesis using c(1) by (auto simp: sys_exec_def sys_inv_at_def s'_def)
qed

lemma exec_wait:
  assumes I: "sys_inv_at rq s ws rs" and en: "fm_active (sy_mgr s) = Some a" "t \<le> time_point_max"
  shows "\<exists>s' ws'. sys_exec A (Rq_wait t) s = Some s' \<and> sys_inv_at rq s' ws' rs"
proof -
  have P: "sys_placed rq s ws rs" using I by (simp add: sys_inv_at_def)
  define r where "r = (w_heap (sy_world s) a)\<lparr>wf_state := WAITING, wf_tp := t,
    wf_phead := Some (fm_wqueue (sy_mgr s)), wf_ptail := Some (fm_wqueue (sy_mgr s))\<rparr>"
  define ws' where "ws' = wq_insert ((w_heap (sy_world s))(a := (w_heap (sy_world s) a)
    \<lparr>wf_state := WAITING, wf_tp := t\<rparr>)) a ws"
  from wait_until_enter_ok [OF sys_placedD(1) [OF P] sys_placedD(6) [OF P en(1)] en(2)] obtain w' where w:
    "fm_wait_until_enter t LOCKED (sy_world s) (sy_mgr s) = Some (UNLOCKED, w', sy_mgr s)"
    "fm_queues rq w' (sy_mgr s) ws' rs"
    "links_frame (insert a (set ws)) ((w_heap (sy_world s))(a := r)) (w_heap w')"
    by (auto simp: r_def ws'_def)
  have set': "set ws' = insert a (set ws)" by (simp add: ws'_def set_wq_insert)
  have "wf_state (w_heap w' a) \<noteq> TERMINATED" using links_frame_fields(5) [OF w(3), of a] by (simp add: r_def)
  note lv = leave_live [OF en(1) this, of In_wait s]
  note pl = suspend_placed [OF I en(1) w(2) set' w(3), of "(sy_pc s)(a := In_wait)"]
  have "sys_joins ((w_heap (sy_world s))(a := r)) (set ws') (set rs) ((sy_pc s)(a := In_wait)) (set (sy_used s))"
    unfolding set' by (rule suspend_joins [OF I en(1)]) (simp_all add: r_def)
  from sys_joins_frame [OF w(3) this] pl lv w(1) en(1) show ?thesis
    by (auto simp: sys_exec_def sys_inv_at_def)
qed

lemma exec_yield:
  assumes I: "sys_inv_at rq s ws rs" and en: "fm_active (sy_mgr s) = Some a"
  shows "\<exists>s' ws'. sys_exec A Rq_yield s = Some s' \<and> sys_inv_at rq s' ws' rs"
proof -
  have P: "sys_placed rq s ws rs" using I by (simp add: sys_inv_at_def)
  define r where "r = (w_heap (sy_world s) a)\<lparr>wf_state := READY,
    wf_phead := Some (fm_wqueue (sy_mgr s)), wf_ptail := Some (fm_wqueue (sy_mgr s))\<rparr>"
  from yield_enter_ok [OF sys_placedD(1) [OF P] sys_placedD(6) [OF P en]] obtain w' where w:
    "fm_yield_enter (sy_world s) (sy_mgr s) = Some (w', sy_mgr s)"
    "fm_queues rq w' (sy_mgr s) (a # ws) rs"
    "links_frame (insert a (set ws)) ((w_heap (sy_world s))(a := r)) (w_heap w')"
    by (auto simp: r_def)
  have set': "set (a # ws) = insert a (set ws)" by simp
  have "wf_state (w_heap w' a) \<noteq> TERMINATED" using links_frame_fields(5) [OF w(3), of a] by (simp add: r_def)
  note lv = leave_live [OF en this, of At_large s]
  note pl = suspend_placed [OF I en w(2) set' w(3), of "(sy_pc s)(a := At_large)"]
  have "sys_joins ((w_heap (sy_world s))(a := r)) (set (a # ws)) (set rs) ((sy_pc s)(a := At_large)) (set (sy_used s))"
    unfolding set' by (rule suspend_joins [OF I en]) (simp_all add: r_def)
  from sys_joins_frame [OF w(3) this] pl lv w(1) en show ?thesis
    by (auto simp: sys_exec_def sys_inv_at_def)
qed

lemma exec_join:
  assumes I: "sys_inv_at rq s ws rs" and a: "fm_active (sy_mgr s) = Some a" and f: "f \<in> set (sy_used s)"
    "\<not> detached (w_heap (sy_world s) f)" "\<not> sys_joined s f" "a \<noteq> f"
    "\<not> interruption_requested (w_heap (sy_world s) a)"
  shows "\<exists>s' ws'. sys_exec A (Rq_join f) s = Some s' \<and> sys_inv_at rq s' ws' rs"
proof -
  let ?h = "w_heap (sy_world s)"
  have P: "sys_placed rq s ws rs"
    and J: "sys_joins ?h (set ws) (set rs) (sy_pc s) (set (sy_used s))"
    using I by (simp_all add: sys_inv_at_def)
  note Q = sys_placedD(1) [OF P] and run = sys_placedD(6) [OF P a]
  have splk: "wf_splk (?h f) = UNLOCKED" using sys_joinsD(1) [OF J f(1)] .
  define st where "st = (if wf_state (?h f) = TERMINATED then READY else WAITING)"
  define r where "r = (?h a)\<lparr>wf_state := st, wf_phead := Some (fm_wqueue (sy_mgr s)),
    wf_ptail := Some (fm_wqueue (sy_mgr s))\<rparr>"
  define h1 where "h1 = (if wf_state (?h f) = TERMINATED then ?h(a := r)
    else (?h(a := r))(f := (?h f)\<lparr>wf_waiting := wf_waiting (?h f) @ [a]\<rparr>))"
  obtain w' ws' where w: "fm_join_enter f (sy_world s) (sy_mgr s) = Some (w', sy_mgr s)"
    "fm_queues rq w' (sy_mgr s) ws' rs" "set ws' = insert a (set ws)"
    "links_frame (insert a (set ws)) h1 (w_heap w')"
  proof (cases "wf_state (?h f) = TERMINATED")
    case True
    from join_enter_terminated [OF Q run f(4) [symmetric] True splk] True show ?thesis
      by (auto simp: h1_def r_def st_def intro: that)
  next
    case False
    from join_enter_waits [OF Q run f(4) [symmetric] False splk] False show ?thesis
      by (auto simp: h1_def r_def st_def intro: that)
  qed
  have st: "wf_state (w_heap w' a) \<noteq> TERMINATED"
    using links_frame_fields(5) [OF w(4), of a] f(4) by (simp add: h1_def r_def st_def)
  note lv = leave_live [OF a st, of "In_join f" s]
  have "sys_joins (?h(a := r)) (insert a (set ws)) (set rs) ((sy_pc s)(a := At_large)) (set (sy_used s))"
    by (rule suspend_joins [OF I a]) (simp_all add: r_def st_def)
  then have "sys_joins h1 (insert a (set ws)) (set rs) (((sy_pc s)(a := At_large))(a := In_join f)) (set (sy_used s))"
    by (rule sys_joins_add)
      (use sys_placedD(5) [OF P a] f run in \<open>auto simp: h1_def r_def st_def sys_joined_def fm_running_def
         interruption_requested_def\<close>)
  from sys_joins_frame [OF w(4) this]
  have "sys_joins (w_heap w') (set ws') (set rs) ((sy_pc s)(a := In_join f)) (set (sy_used s))"
    by (simp add: w(3))
  moreover have "sys_placed rq (s\<lparr>sy_world := w', sy_mgr := (sy_mgr s)\<lparr>fm_active := None\<rparr>,
      sy_pc := (sy_pc s)(a := In_join f)\<rparr>) ws' rs"
  proof -
    have "fm_queues rq w' ((sy_mgr s)\<lparr>fm_active := None\<rparr>) ws' rs"
      by (rule queues_cong [OF w(2)]) simp_all
    moreover have "wf_state (w_heap w' x) = TERMINATED"
      if "x \<in> set (sy_used s)" "x \<notin> set ws'" "x \<notin> set rs" for x
      using sys_placedD(7) [OF P, of x] that w(3) a links_frame_fields(5) [OF w(4), of x]
      by (auto simp: h1_def)
    ultimately show ?thesis
      using sys_placedD(2-5) [OF P] a w(3) by (auto simp: sys_placed_def)
  qed
  ultimately show ?thesis using w(1) a lv by (auto simp: sys_exec_def sys_inv_at_def)
qed

text \<open>The end of \<^verbatim>\<open>fiber::join\<close> on a fiber that has ended: its control block is gone.\<close>

lemma join_leave_ok:
  assumes P: "sys_placed rq s ws rs" and g: "g \<in> set (sy_used s)"
    "wf_state (w_heap (sy_world s) g) = TERMINATED" "wf_waiting (w_heap (sy_world s) g) = []"
  shows "\<exists>s'. sys_join_leave g s = Some s' \<and> sys_placed rq s' ws rs \<and> sy_mgr s' = sy_mgr s \<and>
     w_heap (sy_world s') = (w_heap (sy_world s))(g := (w_heap (sy_world s) g)\<lparr>wf_callee := False, wf_caller := False\<rparr>) \<and>
     sy_used s' = remove1 g (sy_used s) \<and> sy_pc s' = sy_pc s"
proof -
  define h' where "h' = (w_heap (sy_world s))(g := (w_heap (sy_world s) g)\<lparr>wf_callee := False, wf_caller := False\<rparr>)"
  define s' where "s' = s\<lparr>sy_world := (sy_world s)\<lparr>w_heap := h'\<rparr>, sy_used := remove1 g (sy_used s)\<rparr>"
  have "sys_join_leave g s = Some s'"
    using g by (simp add: sys_join_leave_def fiber_join_leave_def fm_join_leave_def is_terminated_def
        deallocate_def worker_fiber_dtor_def s'_def h'_def)
  moreover have out: "g \<notin> set ws" "g \<notin> set rs" "fm_active (sy_mgr s) \<noteq> Some g"
    using fm_queues_states [OF sys_placedD(1) [OF P], of g] sys_placedD(6) [OF P, of g] g(2)
    by (auto simp: fm_running_def)
  have Q: "fm_queues rq (sy_world s') (sy_mgr s) ws rs"
    using queues_update_outside [OF sys_placedD(1) [OF P] out(1,2)] by (simp add: s'_def h'_def)
  have "sys_placed rq s' ws rs"
    by (rule sys_placedI)
      (use Q sys_placedD(2-7) [OF P] out in \<open>auto simp: s'_def h'_def fm_running_def\<close>)
  ultimately show ?thesis by (auto simp: s'_def h'_def)
qed

text \<open>The block of \<open>g\<close> is gone and nobody is to join it any more.\<close>

lemma sys_joins_outside:
  assumes J: "sys_joins h W R pc used" and g: "g \<notin> used"
  shows "sys_joins (h(g := r)) W R pc used"
proof (rule sys_joins_cong [OF J subset_refl])
  fix p k assume "p \<in> used" "pc p = In_join k"
  with sys_joinsD(5) [OF J, of p k] g show "pc p = In_join k \<and> k \<in> used \<and> \<not> detached ((h(g := r)) k)"
    by auto
next
  fix p assume "p \<in> used" "pc p \<noteq> At_large"
  then show "p \<in> W \<union> R" using sys_joinsD(3) [OF J, of p] by auto
qed (use g in auto)

lemma sys_joins_forget:
  assumes J: "sys_joins h W R pc used" and g: "\<And>p. p \<in> used \<Longrightarrow> pc p \<noteq> In_join g" and "pc g = At_large"
  shows "sys_joins (h(g := r)) W R pc (used - {g})"
proof (rule sys_joins_outside, rule sys_joins_cong [OF J])
  fix p k assume "p \<in> used - {g}" "pc p = In_join k"
  with sys_joinsD(5) [OF J, of p k] g show "pc p = In_join k \<and> k \<in> used - {g} \<and> \<not> detached (h k)"
    by auto
next
  fix p assume "p \<in> used - {g}" "pc p \<noteq> At_large"
  then show "p \<in> W \<union> R" using sys_joinsD(3) [OF J, of p] by auto
qed (use assms in auto)

lemma exec_main_join:
  assumes I: "sys_inv_at rq s ws rs" and f: "f \<in> set (sy_used s)" "\<not> sys_joined s f"
    "fm_join_main_done f (sy_world s)"
  shows "\<exists>s'. sys_exec A (Rq_main_join f) s = Some s' \<and> sys_inv_at rq s' ws rs"
proof -
  have P: "sys_placed rq s ws rs"
    and J: "sys_joins (w_heap (sy_world s)) (set ws) (set rs) (sy_pc s) (set (sy_used s))"
    using I by (simp_all add: sys_inv_at_def)
  have st: "wf_state (w_heap (sy_world s) f) = TERMINATED" using f(3) by (simp add: fm_join_main_done_def is_terminated_def)
  have "sy_pc s f = At_large"
    using sys_joinsD(3) [OF J f(1)] fm_queues_states [OF sys_placedD(1) [OF P], of f] st by auto
  moreover obtain s' where s': "sys_join_leave f s = Some s'" "sys_placed rq s' ws rs"
     "w_heap (sy_world s') = (w_heap (sy_world s))(f := (w_heap (sy_world s) f)\<lparr>wf_callee := False, wf_caller := False\<rparr>)"
     "sy_used s' = remove1 f (sy_used s)" "sy_pc s' = sy_pc s"
    using join_leave_ok [OF P f(1) st sys_joinsD(2) [OF J f(1) st]] by blast
  ultimately have "sys_joins (w_heap (sy_world s')) (set ws) (set rs) (sy_pc s') (set (sy_used s) - {f})"
    unfolding s'(3,5) using f(2) by (intro sys_joins_forget [OF J]) (auto simp: sys_joined_def)
  with s' sys_placedD(2) [OF P] show ?thesis by (simp add: sys_exec_def sys_inv_at_def)
qed

text \<open>Requests that change one field of one fiber that is no joiner, or its place in the queue.\<close>

lemma update_ok:
  assumes I: "sys_inv_at rq s ws rs" and f: "f \<in> set (sy_used s)"
    and Q: "fm_queues rq w' (sy_mgr s) ws' rs" and ws': "set ws' = set ws"
    and fr: "links_frame (set ws) ((w_heap (sy_world s))(f := r)) (w_heap w')"
    and r: "wf_splk r = wf_splk (w_heap (sy_world s) f)" "wf_waiting r = wf_waiting (w_heap (sy_world s) f)"
      "wf_state r = wf_state (w_heap (sy_world s) f) \<or>
       (\<forall>g. sy_pc s f \<noteq> In_join g) \<and> fm_active (sy_mgr s) \<noteq> Some f \<and>
       wf_state (w_heap (sy_world s) f) \<noteq> TERMINATED \<and> wf_state r \<noteq> TERMINATED"
      "detached r \<Longrightarrow> detached (w_heap (sy_world s) f) \<or> \<not> sys_joined s f"
      "interruption_requested r \<Longrightarrow> interruption_requested (w_heap (sy_world s) f) \<or> (\<forall>g. sy_pc s f \<noteq> In_join g)"
      "wf_tp r = wf_tp (w_heap (sy_world s) f)"
      "unqueued r = unqueued (w_heap (sy_world s) f)" "has_coro r = has_coro (w_heap (sy_world s) f)"
  shows "sys_inv_at rq (s\<lparr>sy_world := w'\<rparr>) ws' rs"
proof -
  let ?h = "w_heap (sy_world s)"
  have P: "sys_placed rq s ws rs"
    and J: "sys_joins ?h (set ws) (set rs) (sy_pc s) (set (sy_used s))"
    using I by (simp_all add: sys_inv_at_def)
  have act: "fm_running w' (sy_mgr s) a" if "fm_active (sy_mgr s) = Some a" for a
  proof -
    note run = sys_placedD(6) [OF P that]
    have "w_heap w' a = (?h(f := r)) a"
      using fm_running_outside [OF sys_placedD(1) [OF P] run] links_frame_outside [OF fr, of a] by simp
    then show ?thesis using run r(3,6-8) that by (cases "a = f") (auto simp: fm_running_def)
  qed
  have "wf_state (w_heap w' x) = TERMINATED" if "wf_state (?h x) = TERMINATED" for x
    using that r(3) links_frame_fields(5) [OF fr, of x] by (cases "x = f") auto
  then have "sys_placed rq (s\<lparr>sy_world := w'\<rparr>) ws' rs"
    by (intro sys_placedI) (use Q ws' act sys_placedD(2-5,7) [OF P] in simp_all)
  moreover have "sys_joins (?h(f := r)) (set ws') (set rs) (sy_pc s) (set (sy_used s))"
    unfolding ws'
  proof (rule sys_joins_cong [OF J subset_refl])
    fix p g assume p: "p \<in> set (sy_used s)" "sy_pc s p = In_join g"
    then show "sy_pc s p = In_join g \<and> g \<in> set (sy_used s) \<and> \<not> detached ((?h(f := r)) g)"
      using sys_joinsD(5) [OF J p] r(4) by (auto simp: sys_joined_def)
  next
    fix p assume "p \<in> set (sy_used s)" "sy_pc s p \<noteq> At_large"
    then show "p \<in> set ws \<union> set rs" using sys_joinsD(3) [OF J, of p] by auto
  qed (use r in auto)
  ultimately show ?thesis using sys_joins_frame [OF fr] by (simp add: sys_inv_at_def)
qed

lemma exec_notify:
  assumes I: "sys_inv_at rq s ws rs" and f: "f \<in> set (sy_used s)" "sy_pc s f = In_wait"
  shows "\<exists>s' ws'. sys_exec A (Rq_notify f) s = Some s' \<and> sys_inv_at rq s' ws' rs"
proof -
  have P: "sys_placed rq s ws rs"
    and J: "sys_joins (w_heap (sy_world s)) (set ws) (set rs) (sy_pc s) (set (sy_used s))"
    using I by (simp_all add: sys_inv_at_def)
  have mem: "f \<in> set ws \<union> set rs" using sys_joinsD(3) [OF J f(1)] f(2) by simp
  from set_ready_member [OF sys_placedD(1) [OF P] mem] obtain w' ws' where w:
    "set_ready f (sy_world s) = Some w'" "fm_queues rq w' (sy_mgr s) ws' rs" "set ws' = set ws"
    "links_frame (set ws) (ready_all {f} (w_heap (sy_world s))) (w_heap w')" by blast
  have fr: "links_frame (set ws) ((w_heap (sy_world s))(f := (w_heap (sy_world s) f)\<lparr>wf_state := READY\<rparr>)) (w_heap w')"
    using w(4) by (simp add: ready_all_single)
  have "wf_state (w_heap (sy_world s) f) \<in> {READY, WAITING}" "fm_active (sy_mgr s) \<noteq> Some f"
    using mem fm_queuesD(5,6) [OF sys_placedD(1) [OF P], of f] active_at_large(1) [OF I, of f] f(2) by auto
  then have "sys_inv_at rq (s\<lparr>sy_world := w'\<rparr>) ws' rs"
    using f(2) by (intro update_ok [OF I f(1) w(2,3) fr])
      (auto simp: detached_def interruption_requested_def unqueued_def has_coro_def)
  with w(1) show ?thesis by (auto simp: sys_exec_def)
qed

lemma exec_interrupt:
  assumes I: "sys_inv_at rq s ws rs" and f: "f \<in> set (sy_used s)" "fm_active (sy_mgr s) \<noteq> Some f"
    "\<not> is_terminated (w_heap (sy_world s)) f" "\<forall>g. sy_pc s f \<noteq> In_join g"
  shows "\<exists>s' ws'. sys_exec A (Rq_interrupt f) s = Some s' \<and> sys_inv_at rq s' ws' rs"
proof -
  let ?h = "w_heap (sy_world s)"
  let ?r = "interruption_requested_set True (?h f)"
  have P: "sys_placed rq s ws rs" using I by (simp add: sys_inv_at_def)
  have mem: "f \<in> set ws \<union> set rs"
    using sys_placedD(7) [OF P f(1)] f(2,3) by (auto simp: is_terminated_def)
  define w1 where "w1 = (sy_world s)\<lparr>w_heap := ?h(f := ?r)\<rparr>"
  have Q1: "fm_queues rq w1 (sy_mgr s) ws rs"
    by (rule queues_cong_fields [OF sys_placedD(1) [OF P]])
      (simp_all add: w1_def sched_same_def interruption_requested_set_def)
  from set_ready_member [OF this mem] obtain w' ws' where w:
    "set_ready f w1 = Some w'" "fm_queues rq w' (sy_mgr s) ws' rs" "set ws' = set ws"
    "links_frame (set ws) (ready_all {f} (w_heap w1)) (w_heap w')" by blast
  have fr: "links_frame (set ws) (?h(f := ?r\<lparr>wf_state := READY\<rparr>)) (w_heap w')"
    using w(4) by (simp add: w1_def ready_all_single)
  have "sys_inv_at rq (s\<lparr>sy_world := w'\<rparr>) ws' rs"
    using f by (intro update_ok [OF I f(1) w(2,3) fr])
      (auto simp: flag_updates unqueued_def has_coro_def is_terminated_def)
  moreover have "fiber_interrupt (Some f) (sy_world s) = Some w'"
    using w(1) by (simp add: fiber_interrupt_def request_interruption_def upd_heap_def w1_def)
  ultimately show ?thesis by (auto simp: sys_exec_def)
qed

lemma exec_detach:
  assumes I: "sys_inv_at rq s ws rs" and f: "f \<in> set (sy_used s)" "\<not> sys_joined s f"
  shows "\<exists>s'. sys_exec A (Rq_detach f) s = Some s' \<and> sys_inv_at rq s' ws rs"
proof -
  let ?h = "w_heap (sy_world s)"
  have P: "sys_placed rq s ws rs" using I by (simp add: sys_inv_at_def)
  define w' where "w' = (sy_world s)\<lparr>w_heap := ?h(f := detach (?h f))\<rparr>"
  have Q: "fm_queues rq w' (sy_mgr s) ws rs"
    by (rule queues_cong_fields [OF sys_placedD(1) [OF P]])
      (simp_all add: w'_def sched_same_def detach_def)
  have "sys_inv_at rq (s\<lparr>sy_world := w'\<rparr>) ws rs"
    by (rule update_ok [OF I f(1) Q refl, of "detach (?h f)"])
      (use f(2) in \<open>auto simp: w'_def flag_updates unqueued_def has_coro_def\<close>)
  then show ?thesis by (auto simp: sys_exec_def fiber_detach_def fiber_joinable_def upd_heap_def w'_def Let_def)
qed

lemma exec_interruption_point:
  assumes I: "sys_inv_at rq s ws rs" and a: "fm_active (sy_mgr s) = Some a"
  shows "\<exists>s'. sys_exec A Rq_interruption_point s = Some s' \<and> sys_inv_at rq s' ws rs"
proof -
  let ?h = "w_heap (sy_world s)"
  define r where "r = (if interruption_requested (?h a) \<and> \<not> interruption_blocked (?h a)
     then interruption_requested_set False (?h a) else ?h a)"
  have P: "sys_placed rq s ws rs" using I by (simp add: sys_inv_at_def)
  define w' where "w' = (sy_world s)\<lparr>w_heap := ?h(a := r)\<rparr>"
  have out: "a \<notin> set ws" "a \<notin> set rs"
    using fm_running_outside [OF sys_placedD(1,6) [OF P]] a by blast+
  have Q: "fm_queues rq w' (sy_mgr s) ws rs"
    unfolding w'_def by (rule queues_update_outside [OF sys_placedD(1) [OF P] out])
  have "sys_inv_at rq (s\<lparr>sy_world := w'\<rparr>) ws rs"
    by (rule update_ok [OF I sys_placedD(5) [OF P a] Q refl, of r])
      (use active_at_large(1) [OF I a] in \<open>auto simp: w'_def r_def flag_updates unqueued_def has_coro_def
        split: if_splits\<close>)
  moreover have "\<exists>e. interruption_point (sy_world s) (sy_mgr s) = Some (e, w')"
    using a by (auto simp: interruption_point_def this_interruption_requested_def
        this_interruption_enabled_def request_interruption_def upd_heap_def w'_def r_def)
  ultimately show ?thesis by (auto simp: sys_exec_def)
qed

text \<open>The end of a fiber: its joiners are ready; at most the exception of its block has changed before.\<close>

lemma return_exit:
  assumes I: "sys_inv_at rq s ws rs" and a: "fm_active (sy_mgr s) = Some a"
    and oc: "oc = Fn_returned \<or> oc = Fn_interrupted"
  shows "\<exists>x evs w' ws'. trampoline_exit oc a (sy_world s) = Some (Suspended_for_good, evs, w') \<and>
     fm_queues rq w' (sy_mgr s) ws' rs \<and> set ws' = set ws \<and>
     links_frame (set ws) (ready_all (set (wf_waiting (w_heap (sy_world s) a))) ((w_heap (sy_world s))(a :=
       (w_heap (sy_world s) a)\<lparr>wf_except := x, wf_state := TERMINATED, wf_waiting := []\<rparr>))) (w_heap w')"
proof -
  let ?h = "w_heap (sy_world s)"
  have P: "sys_placed rq s ws rs"
    and J: "sys_joins ?h (set ws) (set rs) (sy_pc s) (set (sy_used s))"
    using I by (simp_all add: sys_inv_at_def)
  note Q = sys_placedD(1) [OF P] and run = sys_placedD(6) [OF P a] and used = sys_placedD(5) [OF P a]
  have out: "a \<notin> set ws" "a \<notin> set rs" using fm_running_outside [OF Q run] by simp_all
  define x where "x = (if oc = Fn_interrupted then Some fiber_interrupted else wf_except (?h a))"
  define w0 where "w0 = (sy_world s)\<lparr>w_heap := ?h(a := (?h a)\<lparr>wf_except := x\<rparr>)\<rparr>"
  have Q0: "fm_queues rq w0 (sy_mgr s) ws rs"
    unfolding w0_def by (rule queues_update_outside [OF Q out])
  have run0: "fm_running w0 (sy_mgr s) a"
    using run by (auto simp: fm_running_def w0_def unqueued_def has_coro_def)
  have "set (wf_waiting (?h a)) \<subseteq> set ws \<union> set rs" using sys_joinsD(4) [OF J used] by blast
  with trampoline_finish_ok [OF Q0 run0] sys_joinsD(1) [OF J used] obtain evs w' ws' where w:
    "trampoline_finish a w0 = Some (Suspended_for_good, evs, w')" "fm_queues rq w' (sy_mgr s) ws' rs"
    "set ws' = set ws"
    "links_frame (set ws) (ready_all (set (wf_waiting (w_heap w0 a)))
       ((w_heap w0)(a := (w_heap w0 a)\<lparr>wf_state := TERMINATED, wf_waiting := []\<rparr>))) (w_heap w')"
    by (auto simp: w0_def)
  have "trampoline_exit oc a (sy_world s) = Some (Suspended_for_good, evs, w')"
  proof (cases "oc = Fn_interrupted")
    case True
    with w(1) show ?thesis by (simp add: trampoline_exit_def upd_heap_def set_exception_def w0_def x_def)
  next
    case False
    then have "w0 = sy_world s" by (cases "sy_world s") (auto simp: w0_def x_def)
    with False oc w(1) run show ?thesis by (simp add: trampoline_exit_def is_running_def fm_running_def)
  qed
  moreover have "links_frame (set ws) (ready_all (set (wf_waiting (?h a))) (?h(a :=
      (?h a)\<lparr>wf_except := x, wf_state := TERMINATED, wf_waiting := []\<rparr>))) (w_heap w')"
    using w(4) by (simp add: w0_def)
  ultimately show ?thesis using w(2,3) by blast
qed

text \<open>The running fiber has ended and the fibers that joined it are ready.\<close>

lemma return_joins:
  assumes I: "sys_inv_at rq s ws rs" and a: "fm_active (sy_mgr s) = Some a"
  shows "sys_joins (ready_all (set (wf_waiting (w_heap (sy_world s) a))) ((w_heap (sy_world s))(a :=
      (w_heap (sy_world s) a)\<lparr>wf_except := x, wf_state := TERMINATED, wf_waiting := []\<rparr>)))
    (set ws) (set rs) (sy_pc s) (set (sy_used s))"
proof -
  let ?h = "w_heap (sy_world s)"
  have P: "sys_placed rq s ws rs"
    and J: "sys_joins ?h (set ws) (set rs) (sy_pc s) (set (sy_used s))"
    using I by (simp_all add: sys_inv_at_def)
  define h0 where "h0 = ?h(a := (?h a)\<lparr>wf_except := x\<rparr>)"
  have "sys_joins h0 (set ws) (set rs) (sy_pc s) (set (sy_used s))"
  proof (rule sys_joins_cong [OF J subset_refl])
    fix p g assume p: "p \<in> set (sy_used s)" "sy_pc s p = In_join g"
    show "sy_pc s p = In_join g \<and> g \<in> set (sy_used s) \<and> \<not> detached (h0 g)"
      using sys_joinsD(5) [OF J p] p by (auto simp: h0_def detached_def)
  next
    fix p assume "p \<in> set (sy_used s)" "sy_pc s p \<noteq> At_large"
    then show "p \<in> set ws \<union> set rs" using sys_joinsD(3) [OF J, of p] by auto
  qed (use sys_placedD(6) [OF P a] active_at_large(2) [OF I a] in
      \<open>auto simp: h0_def fm_running_def interruption_requested_def\<close>)
  from sys_joins_finish [OF this sys_placedD(5) [OF P a] active_at_large(1) [OF I a] refl] show ?thesis by (simp add: h0_def)
qed

lemma exec_return:
  assumes I: "sys_inv_at rq s ws rs" and a: "fm_active (sy_mgr s) = Some a"
    and oc: "oc = Fn_returned \<or> oc = Fn_interrupted"
  shows "\<exists>s' ws'. sys_exec A (Rq_return oc) s = Some s' \<and> sys_inv_at rq s' ws' rs"
proof -
  let ?h = "w_heap (sy_world s)"
  have P: "sys_placed rq s ws rs"
    and J: "sys_joins ?h (set ws) (set rs) (sy_pc s) (set (sy_used s))"
    using I by (simp_all add: sys_inv_at_def)
  note Q = sys_placedD(1) [OF P] and run = sys_placedD(6) [OF P a] and used = sys_placedD(5) [OF P a]
  have out: "a \<notin> set ws" "a \<notin> set rs" using fm_running_outside [OF Q run] by simp_all
  from return_exit [OF I a oc] obtain x evs w' ws' where w:
    "trampoline_exit oc a (sy_world s) = Some (Suspended_for_good, evs, w')" "fm_queues rq w' (sy_mgr s) ws' rs" "set ws' = set ws"
    "links_frame (set ws) (ready_all (set (wf_waiting (?h a))) (?h(a :=
       (?h a)\<lparr>wf_except := x, wf_state := TERMINATED, wf_waiting := []\<rparr>))) (w_heap w')" by blast
  from sys_joins_frame [OF w(4) return_joins [OF I a]]
  have J': "sys_joins (w_heap w') (set ws') (set rs) (sy_pc s) (set (sy_used s))" by (simp add: w(3))
  have st: "wf_state (w_heap w' a) = TERMINATED"
    using links_frame_fields(5) [OF w(4), of a] active_at_large(2) [OF I a used] by (simp add: ready_all_def)
  from resume_leave_ok [OF w(2) a, of None] sys_joinsD(2) [OF J' used st] obtain w'' where lv:
    "fm_resume_leave None w' (sy_mgr s) = Some (w'', (sy_mgr s)\<lparr>fm_active := None\<rparr>)"
    "fm_queues rq w'' ((sy_mgr s)\<lparr>fm_active := None\<rparr>) ws' rs"
    "w_heap w'' = (w_heap w')(a := if detached (w_heap w' a)
       then (w_heap w' a)\<lparr>wf_callee := False, wf_caller := False\<rparr> else w_heap w' a)"
    by (auto simp: st)
  define s' where "s' = s\<lparr>sy_world := w'', sy_mgr := (sy_mgr s)\<lparr>fm_active := None\<rparr>,
    sy_used := (if detached (w_heap w' a) then remove1 a (sy_used s) else sy_used s),
    sy_pc := (sy_pc s)(a := At_large)\<rparr>"
  have exec: "sys_exec A (Rq_return oc) s = Some s'"
    using w(1) lv(1) a st by (simp add: sys_exec_def sys_leave_def is_terminated_def s'_def)
  have ended: "wf_state (w_heap w'' x) = TERMINATED"
    if "x \<in> set (sy_used s)" "x \<notin> set ws" "x \<notin> set rs" for x
  proof (cases "x = a")
    case False
    then have "wf_state (?h x) = TERMINATED" using sys_placedD(7) [OF P that] a by auto
    moreover have "x \<notin> set (wf_waiting (?h a))" using sys_joinsD(4) [OF J used, of x] that(2) by blast
    ultimately show ?thesis
      using links_frame_fields(5) [OF w(4), of x] False by (simp add: lv(3) ready_all_def)
  qed (simp add: lv(3) st)
  have "sys_placed rq s' ws' rs"
    by (rule sys_placedI)
      (use lv(2) sys_placedD(2-4) [OF P] w(3) ended out in \<open>auto simp: s'_def split: if_splits\<close>)
  moreover have "sys_joins (w_heap w'') (set ws') (set rs) (sy_pc s) (set (sy_used s'))"
  proof (cases "detached (w_heap w' a)")
    case True
    then have sys_pc_free: "sy_pc s p \<noteq> In_join a" if "p \<in> set (sy_used s)" for p
      using sys_joinsD(5) [OF J' that, of a] by auto
    have "sys_joins (w_heap w'') (set ws') (set rs) (sy_pc s) (set (sy_used s) - {a})"
      unfolding lv(3) by (rule sys_joins_forget [OF J' _ active_at_large(1) [OF I a]]) (rule sys_pc_free)
    with True sys_placedD(2) [OF P] show ?thesis by (simp add: s'_def)
  next
    case False
    with J' lv(3) show ?thesis by (simp add: s'_def)
  qed
  moreover have "sy_pc s' = sy_pc s" using active_at_large(1) [OF I a] by (auto simp: s'_def)
  ultimately show ?thesis using exec by (auto simp: sys_inv_at_def s'_def)
qed

text \<open>A fiber that waits without deadline or pending interruption is not woken by the scheduler.\<close>

definition quiet :: "worker_fiber \<Rightarrow> bool" where
  "quiet r \<longleftrightarrow> wf_state r = WAITING \<and> wf_tp r = time_point_max \<and> \<not> interruption_requested r"

definition run_frame :: "fid \<Rightarrow> fid list \<Rightarrow> fid list \<Rightarrow> heap \<Rightarrow> heap \<Rightarrow> bool" where
  "run_frame f ws ws' h h' \<longleftrightarrow>
     (\<forall>x. wf_splk (h' x) = wf_splk (h x) \<and> wf_waiting (h' x) = wf_waiting (h x) \<and>
        wf_flags (h' x) = wf_flags (h x) \<and>
        (wf_state (h' x) = TERMINATED \<longleftrightarrow> wf_state (h x) = TERMINATED)) \<and>
     (\<forall>p \<in> set ws. quiet (h p) \<longrightarrow> p \<in> set ws' \<and> p \<noteq> f \<and> quiet (h' p))"

lemma run_effect:
  assumes Q: "fm_queues rq w m ws rs" and act: "fm_active m = None" and now: "now < time_point_max"
    and some: "rs \<noteq> [] \<or> takeWhile (\<lambda>x. fm_due now (w_heap w x)) ws \<noteq> []"
  shows "\<exists>f w' m' ws' ys. fm_run A now now' w m = Some (Resumed f None, w', m') \<and>
     fm_queues rq w' m' ws' ys \<and> fm_running w' m' f \<and>
     f \<in> set ws \<union> set rs \<and> set ws' \<subseteq> set ws \<and> set ws \<union> set rs = insert f (set ws' \<union> set ys) \<and>
     run_frame f ws ws' (w_heap w) (w_heap w')"
proof -
  let ?T = "takeWhile (\<lambda>x. fm_due now (w_heap w x)) ws" and ?D = "dropWhile (\<lambda>x. fm_due now (w_heap w x)) ws"
  from run_resumes [OF Q _ some, of now'] act obtain f w' m' ys h2 where r:
    "fm_run A now now' w m = Some (Resumed f None, w', m')"
    "fm_queues rq w' m' ?D ys" "fm_running w' m' f" "insert f (set ys) = set rs \<union> set ?T"
    "links_frame (set ws \<union> set rs) (wake_all (set ?T) (w_heap w)) h2"
    "w_heap w' = h2(f := (h2 f)\<lparr>wf_state := RUNNING\<rparr>)"
    by auto
  have ws: "set ws = set ?T \<union> set ?D" by (metis set_append takeWhile_dropWhile_id)
  have f: "f \<in> set ws \<union> set rs" using r(4) ws by auto
  have live: "wf_state (w_heap w x) \<noteq> TERMINATED" if "x \<in> set ws \<union> set rs" for x
    using fm_queuesD(5,6) [OF Q, of x] that by auto
  have T: "x \<in> set ws" if "x \<in> set ?T" for x using that by (auto dest: set_takeWhileD)
  have "wf_splk (w_heap w' x) = wf_splk (w_heap w x) \<and> wf_waiting (w_heap w' x) = wf_waiting (w_heap w x) \<and>
      wf_flags (w_heap w' x) = wf_flags (w_heap w x)" for x
    using links_frame_fields(6,9,10) [OF r(5), of x]
    by (cases "x = f"; cases "x \<in> set ?T") (simp_all add: r(6))
  moreover have "wf_state (w_heap w' x) = TERMINATED \<longleftrightarrow> wf_state (w_heap w x) = TERMINATED" for x
    using links_frame_fields(5) [OF r(5), of x] live [OF f] live [of x] T [of x]
    by (cases "x = f"; cases "x \<in> set ?T") (simp_all add: r(6))
  moreover have "p \<in> set ?D \<and> p \<noteq> f \<and> quiet (w_heap w' p)" if "p \<in> set ws" "quiet (w_heap w p)" for p
  proof -
    have "\<not> fm_due now (w_heap w p)" using that(2) now by (simp add: fm_due_def quiet_def)
    then have T: "p \<notin> set ?T" by (auto dest: set_takeWhileD)
    moreover have "p \<notin> set rs" using fm_queuesD(4) [OF Q] that(1) by blast
    ultimately have "p \<noteq> f" "p \<in> set ?D" using r(4) ws that(1) by auto
    with T that links_frame_fields(2,5,6) [OF r(5), of p] show ?thesis
      by (simp add: r(6) interruption_requested_def quiet_def)
  qed
  moreover have "set ws \<union> set rs = insert f (set ?D \<union> set ys)" "set ?D \<subseteq> set ws" using r(4) ws by blast+
  ultimately show ?thesis using r(1-3) f unfolding run_frame_def by blast
qed

text \<open>Where the fibers are, and who waits for whom, after a turn that resumes \<open>f\<close>.\<close>

lemma run_placed:
  assumes P: "sys_placed rq s ws rs" and act: "fm_active (sy_mgr s) = None" and Q: "fm_queues rq w' m' ws' ys"
    and run: "fm_running w' m' f" and memb: "set ws \<union> set rs = insert f (set ws' \<union> set ys)"
    and frame: "run_frame f ws ws' (w_heap (sy_world s)) (w_heap w')"
  shows "sys_placed rq (s\<lparr>sy_world := w', sy_mgr := m'\<rparr>) ws' ys"
proof (rule sys_placedI)
  have "x \<in> set ws \<union> set rs \<longleftrightarrow> x = f \<or> x \<in> set ws' \<or> x \<in> set ys" for x using memb by blast
  note memb' = this and same = spec [OF conjunct1 [OF frame [unfolded run_frame_def]]]
  let ?s = "s\<lparr>sy_world := w', sy_mgr := m'\<rparr>"
  show "wf_state (w_heap (sy_world ?s) x) = TERMINATED" if "x \<in> set (sy_used ?s)" "x \<notin> set ws'" "x \<notin> set ys"
    "fm_active (sy_mgr ?s) \<noteq> Some x" for x
    using that run memb' [of x] sys_placedD(7) [OF P, of x] act same [of x] by (auto simp: fm_running_def)
qed (use Q run memb sys_placedD(2-4) [OF P] in \<open>auto simp: fm_running_def\<close>)

lemma run_joins:
  assumes J: "sys_joins (w_heap (sy_world s)) (set ws) (set rs) (sy_pc s) (set (sy_used s))"
    and memb: "set ws \<union> set rs = insert f (set ws' \<union> set ys)" and frame: "run_frame f ws ws' (w_heap (sy_world s)) h'"
    and U: "U \<subseteq> set (sy_used s)" "set ws \<subseteq> U" "\<And>p g. p \<in> U \<Longrightarrow> p \<noteq> f \<Longrightarrow> sy_pc s p = In_join g \<Longrightarrow> g \<in> U"
  shows "sys_joins h' (set ws') (set ys) ((sy_pc s)(f := At_large)) U"
proof (rule sys_joins_cong [OF J U(1)])
  note same = spec [OF conjunct1 [OF frame [unfolded run_frame_def]]]
    and joiner = bspec [OF conjunct2 [OF frame [unfolded run_frame_def]], THEN mp]
  show "sy_pc s p = In_join g \<and> g \<in> U \<and> \<not> detached (h' g)"
    if p: "p \<in> U" "((sy_pc s)(f := At_large)) p = In_join g" for p g
  proof -
    have "p \<noteq> f" "sy_pc s p = In_join g" using p(2) by (auto split: if_splits)
    then show ?thesis using sys_joinsD(5) [OF J, of p g] U p(1) same [of g] by (auto simp: detached_def)
  qed
  show "p \<in> set ws' \<union> set ys" if "p \<in> U" "((sy_pc s)(f := At_large)) p \<noteq> At_large" for p
    using that sys_joinsD(3) [OF J, of p] U(1) memb by (auto split: if_splits)
  show "p \<in> U \<and> p \<in> set ws' \<and> ((sy_pc s)(f := At_large)) p = In_join k \<and> wf_state (h' p) = WAITING \<and>
      wf_tp (h' p) = time_point_max \<and> \<not> interruption_requested (h' p)"
    if "p \<in> set ws" "sy_pc s p = In_join k" "wf_state (w_heap (sy_world s) p) = WAITING"
      "wf_tp (w_heap (sy_world s) p) = time_point_max" "\<not> interruption_requested (w_heap (sy_world s) p)" for p k
    using that joiner [of p] U(2) by (auto simp: quiet_def)
qed (use spec [OF conjunct1 [OF frame [unfolded run_frame_def]]] in blast)

text \<open>
  A fiber that has been switched to: if it was joining, the other fiber has ended, because a joiner
  that is still registered is quiet.
\<close>

lemma joiner_resumed:
  assumes J: "sys_joins (w_heap (sy_world s)) (set ws) (set rs) (sy_pc s) (set (sy_used s))"
    and frame: "run_frame f ws ws' (w_heap (sy_world s)) h'" and f: "f \<in> set (sy_used s)" "sy_pc s f = In_join g"
  shows "g \<in> set (sy_used s)" "wf_state (w_heap (sy_world s) g) = TERMINATED"
proof -
  note joiner = bspec [OF conjunct2 [OF frame [unfolded run_frame_def]], THEN mp]
  have "f \<notin> set (wf_waiting (w_heap (sy_world s) g))" if "g \<in> set (sy_used s)"
    using sys_joinsD(4) [OF J that, of f] joiner [of f] by (auto simp: quiet_def)
  then show "g \<in> set (sy_used s)" "wf_state (w_heap (sy_world s) g) = TERMINATED"
    using sys_joinsD(5) [OF J f] by blast+
qed

lemma exec_run_resumes:
  assumes I: "sys_inv_at rq s ws rs" and act: "fm_active (sy_mgr s) = None" and now: "now < time_point_max"
    and some: "rs \<noteq> [] \<or> takeWhile (\<lambda>x. fm_due now (w_heap (sy_world s) x)) ws \<noteq> []"
  shows "\<exists>s' ws' rs'. sys_exec A (Rq_run now now') s = Some s' \<and> sys_inv_at rq s' ws' rs'"
proof -
  let ?h = "w_heap (sy_world s)"
  have P: "sys_placed rq s ws rs"
    and J: "sys_joins ?h (set ws) (set rs) (sy_pc s) (set (sy_used s))"
    using I by (simp_all add: sys_inv_at_def)
  note Q = sys_placedD(1) [OF P]
  from run_effect [OF Q act now some, of now'] obtain f w' m' ws' ys where r:
    "fm_run A now now' (sy_world s) (sy_mgr s) = Some (Resumed f None, w', m')"
    "fm_queues rq w' m' ws' ys" "fm_running w' m' f" "f \<in> set ws \<union> set rs"
    "set ws \<union> set rs = insert f (set ws' \<union> set ys)" and frame: "run_frame f ws ws' ?h (w_heap w')"
    by blast
  have f: "f \<in> set (sy_used s)" using r(4) sys_placedD(3,4) [OF P] by auto
  define s1 where "s1 = s\<lparr>sy_world := w', sy_mgr := m'\<rparr>"
  have P1: "sys_placed rq s1 ws' ys" unfolding s1_def by (rule run_placed [OF P act r(2,3,5) frame])
  note J1 = run_joins [OF J r(5) frame]
  show ?thesis
  proof (cases "\<exists>g. sy_pc s f = In_join g")
    case False
    then have "sys_continue f s1 = Some (s1\<lparr>sy_pc := (sy_pc s)(f := At_large)\<rparr>)"
      by (cases "sy_pc s f") (auto simp: sys_continue_def s1_def)
    moreover have "sys_joins (w_heap w') (set ws') (set ys) ((sy_pc s)(f := At_large)) (set (sy_used s))"
      by (rule J1) (use sys_placedD(3) [OF P] sys_joinsD(5) [OF J] in auto)
    moreover have "sys_placed rq (s1\<lparr>sy_pc := (sy_pc s)(f := At_large)\<rparr>) ws' ys"
      using P1 by (simp add: sys_placed_def)
    ultimately show ?thesis using r(1) by (auto simp: sys_exec_def s1_def sys_inv_at_def)
  next
    case True
    then obtain g where g: "sy_pc s f = In_join g" by blast
    have gD: "g \<in> set (sy_used s)" "wf_state (?h g) = TERMINATED" using joiner_resumed [OF J frame f g] by simp_all
    have g1: "g \<in> set (sy_used s1)" "wf_state (w_heap (sy_world s1) g) = TERMINATED"
      "wf_waiting (w_heap (sy_world s1) g) = []"
      using gD frame sys_joinsD(2) [OF J gD] by (simp_all add: s1_def run_frame_def)
    from join_leave_ok [OF P1 g1] obtain s2 where s2: "sys_join_leave g s1 = Some s2"
      "sys_placed rq s2 ws' ys" "w_heap (sy_world s2) =
        (w_heap w')(g := (w_heap w' g)\<lparr>wf_callee := False, wf_caller := False\<rparr>)"
      "sy_used s2 = remove1 g (sy_used s)" "sy_pc s2 = sy_pc s"
      by (auto simp: s1_def)
    have "g \<notin> set ws" using fm_queues_states [OF Q, of g] gD(2) by simp
    then have "sys_joins (w_heap w') (set ws') (set ys) ((sy_pc s)(f := At_large)) (set (sy_used s) - {g})"
      using sys_placedD(3) [OF P] sys_joinsD(5) [OF J] sys_joinsD(6) [OF J _ f _ g]
      by (intro J1) auto
    then have "sys_joins (w_heap (sy_world s2)) (set ws') (set ys) ((sy_pc s)(f := At_large)) (set (sy_used s2))"
      using sys_placedD(2) [OF P] by (simp add: s2(3,4) sys_joins_outside)
    moreover have "sys_placed rq (s2\<lparr>sy_pc := (sy_pc s)(f := At_large)\<rparr>) ws' ys"
      using s2(2) by (simp add: sys_placed_def)
    moreover have "sys_exec A (Rq_run now now') s = Some (s2\<lparr>sy_pc := (sy_pc s)(f := At_large)\<rparr>)"
      using r(1) g s2(1,5) by (simp add: sys_exec_def sys_continue_def s1_def)
    ultimately show ?thesis by (auto simp: sys_inv_at_def)
  qed
qed

lemma exec_run:
  assumes I: "sys_inv_at rq s ws rs" and act: "fm_active (sy_mgr s) = None" and now: "now < time_point_max"
  shows "\<exists>s' ws' rs'. sys_exec A (Rq_run now now') s = Some s' \<and> sys_inv_at rq s' ws' rs'"
proof (cases "rs \<noteq> [] \<or> takeWhile (\<lambda>x. fm_due now (w_heap (sy_world s) x)) ws \<noteq> []")
  case True
  then show ?thesis by (rule exec_run_resumes [OF assms])
next
  case False
  then have "fm_queues rq (sy_world s) (sy_mgr s) ws []"
    using I by (simp add: sys_inv_at_def sys_placed_def)
  from run_sleeps [OF this act, of now now'] False have "sys_exec A (Rq_run now now') s = Some s"
    by (simp add: sys_exec_def)
  with I show ?thesis by blast
qed

text \<open>Together: no enabled request fails, whatever state has been reached.\<close>

lemma exec_ok:
  assumes "sys_inv rq s" and "sys_enabled r s"
  shows "\<exists>s'. sys_exec A r s = Some s' \<and> sys_inv rq s'"
proof -
  obtain ws rs where I: "sys_inv_at rq s ws rs" using assms(1) by (auto simp: sys_inv_def)
  note en = assms(2) [unfolded sys_enabled_def Let_def]
  show ?thesis
  proof (cases r)
    case (Rq_spawn f)
    with exec_spawn [OF I, of f] en show ?thesis by (fastforce intro: sys_invI split: option.splits)
  next
    case (Rq_run now now')
    with exec_run [OF I, of now now'] en show ?thesis by (fastforce intro: sys_invI split: option.splits)
  next
    case (Rq_wait t)
    with exec_wait [OF I, of _ t] en show ?thesis by (fastforce intro: sys_invI split: option.splits)
  next
    case Rq_yield
    with exec_yield [OF I] en show ?thesis by (fastforce intro: sys_invI split: option.splits)
  next
    case (Rq_join f)
    with exec_join [OF I, of _ f] en show ?thesis by (fastforce intro: sys_invI split: option.splits)
  next
    case (Rq_main_join f)
    with exec_main_join [OF I, of f] en show ?thesis by (fastforce intro: sys_invI split: option.splits)
  next
    case (Rq_return oc)
    with exec_return [OF I, of _ oc] en show ?thesis by (fastforce intro: sys_invI split: option.splits)
  next
    case (Rq_notify f)
    with exec_notify [OF I, of f] en show ?thesis by (fastforce intro: sys_invI split: option.splits)
  next
    case (Rq_interrupt f)
    with en have "\<forall>g. sy_pc s f \<noteq> In_join g" by (auto split: pc.splits)
    with exec_interrupt [OF I, of f] en Rq_interrupt show ?thesis by (fastforce intro: sys_invI)
  next
    case Rq_interruption_point
    with exec_interruption_point [OF I] en show ?thesis by (fastforce intro: sys_invI split: option.splits)
  next
    case (Rq_detach f)
    with exec_detach [OF I, of f] en show ?thesis by (fastforce intro: sys_invI split: option.splits)
  qed
qed

lemma reachable_inv:
  assumes "sys_reachable A s0 s" and "sys_inv rq s0"
  shows "sys_inv rq s"
  using assms
proof (induction rule: sys_reachable.induct)
  case (step s r s')
  with exec_ok [of s r] show ?case by auto
qed

end

section \<open>Properties\<close>

lemma fm_queues_init:
  assumes "w_wqs w q = waiting_queue_init"
  shows "fm_queues fifo_rep w (fiber_manager_init q) [] []"
proof -
  have "wq_ordered (w_heap w) ([] @ [])" by (rule wq_orderedI) simp_all
  with assms show ?thesis
    by (simp add: fm_queues_def wq_rep_def fiber_manager_init_def waiting_queue_init_def fifo_rep_init)
qed

lemma sys_init_inv: "sys_inv fifo_rep (sys_init q h)"
proof (rule sys_invI [of _ _ "[]" "[]"])
  show "sys_inv_at fifo_rep (sys_init q h) [] []"
    unfolding sys_inv_at_def sys_init_def
    using fm_queues_init [of "\<lparr>w_heap = h, w_wqs = (\<lambda>_. waiting_queue_init), w_mains = (\<lambda>_. False)\<rparr>" q]
    by (auto intro!: sys_placedI simp: sys_joins_def fiber_manager_init_def)
qed

lemma sys_reachable_inv:
  "sys_reachable round_robin_algo (sys_init q h) s \<Longrightarrow> sys_inv fifo_rep s"
  using rr.reachable_inv sys_init_inv by blast

text \<open>Running a list of requests, each of which must be permitted.\<close>

fun sys_script :: "'s sched_algorithm \<Rightarrow> request list \<Rightarrow> 's sys \<Rightarrow> 's sys option" where
  "sys_script A [] s = Some s"
| "sys_script A (r # rs) s =
     (if sys_enabled r s then do { s' \<leftarrow> sys_exec A r s; sys_script A rs s' } else None)"

lemma sys_script_reachable:
  "sys_script A rs s = Some s' \<Longrightarrow> sys_reachable A s0 s \<Longrightarrow> sys_reachable A s0 s'"
  by (induction A rs s rule: sys_script.induct)
    (auto split: if_splits bind_splits intro: sys_reachable.step)

text \<open>
  A thread without fibers; one in which fiber 1 is ready; one in which fiber 1 runs and 2 is ready;
  and one in which fiber 1 has joined fiber 2, which has ended.
\<close>

definition demo_sys0 :: "round_robin sys" where
  "demo_sys0 = sys_init 0 (\<lambda>_. worker_fiber_init)"

definition demo_sys1 :: "round_robin sys" where
  "demo_sys1 = the (sys_script round_robin_algo [Rq_spawn 1] demo_sys0)"

definition demo_sys2 :: "round_robin sys" where
  "demo_sys2 = the (sys_script round_robin_algo [Rq_spawn 1, Rq_spawn 2, Rq_run 0 0] demo_sys0)"

definition demo_sys3 :: "round_robin sys" where
  "demo_sys3 = the (sys_script round_robin_algo
     [Rq_spawn 1, Rq_spawn 2, Rq_run 0 0, Rq_join 2, Rq_run 1 1, Rq_return Fn_returned] demo_sys0)"

lemma sys_script_the:
  assumes "\<not> Option.is_none (sys_script round_robin_algo rs demo_sys0)"
  shows "sys_reachable round_robin_algo (sys_init 0 (\<lambda>_. worker_fiber_init))
    (the (sys_script round_robin_algo rs demo_sys0))"
proof -
  obtain s' where "sys_script round_robin_algo rs demo_sys0 = Some s'"
    using assms by (auto simp: Option.is_none_def)
  with sys_script_reachable [OF this [unfolded demo_sys0_def] sys_reachable.start]
  show ?thesis by simp
qed

lemma demo_reachable:
  "sys_reachable round_robin_algo (sys_init 0 (\<lambda>_. worker_fiber_init)) demo_sys1"
  "sys_reachable round_robin_algo (sys_init 0 (\<lambda>_. worker_fiber_init)) demo_sys2"
  "sys_reachable round_robin_algo (sys_init 0 (\<lambda>_. worker_fiber_init)) demo_sys3"
  unfolding demo_sys1_def demo_sys2_def demo_sys3_def by (rule sys_script_the, code_simp)+

lemma demo_sys2_queues:
  "fm_queues fifo_rep (sy_world demo_sys2) (sy_mgr demo_sys2) [] [2]"
  "fm_running (sy_world demo_sys2) (sy_mgr demo_sys2) 1"
  by code_simp+

text \<open>
  C1: as long as callers keep to the rules, no assertion of the library fails: from every state a
  thread can reach, every permitted request is carried out.
\<close>

theorem no_assertion_fails:
  assumes "sys_reachable round_robin_algo (sys_init q h) s" and "sys_enabled r s"
  shows "\<exists>s'. sys_exec round_robin_algo r s = Some s'"
  using rr.exec_ok [OF sys_reachable_inv [OF assms(1)] assms(2)] by blast

theorem no_assertion_fails_witness:
  "sys_enabled (Rq_join 2) demo_sys2 \<and> (\<exists>s'. sys_exec round_robin_algo (Rq_join 2) demo_sys2 = Some s')"
proof -
  have "sys_enabled (Rq_join 2) demo_sys2" by code_simp
  with no_assertion_fails [OF demo_reachable(2) this] show ?thesis by blast
qed

text \<open>
  C2: no fiber is lost and none is in two places. In every reachable state the waiting queue and
  the ready queue are well formed, they have no fiber in common and none twice, together they hold
  exactly the fibers that are ready or waiting, and the running fiber, if there is one, is the
  active fiber of the scheduler.
\<close>

theorem every_fiber_in_one_place:
  assumes "sys_reachable round_robin_algo (sys_init q h) s"
  shows "\<exists>ws rs. wq_rep (sy_world s) (fm_wqueue (sy_mgr s)) ws \<and>
     fifo_rep (w_heap (sy_world s)) (fm_sched_algo (sy_mgr s)) rs \<and> distinct (ws @ rs) \<and>
     set (ws @ rs) = {f \<in> set (sy_used s). wf_state (w_heap (sy_world s) f) \<in> {READY, WAITING}} \<and>
     set_option (fm_active (sy_mgr s)) = {f \<in> set (sy_used s). wf_state (w_heap (sy_world s) f) = RUNNING}"
proof -
  obtain ws rs where P: "sys_placed fifo_rep s ws rs"
    using sys_reachable_inv [OF assms] by (auto simp: sys_inv_def sys_inv_at_def)
  note Q = fm_queuesD [OF sys_placedD(1) [OF P]] and D = sys_placedD [OF P]
  have "distinct (ws @ rs)" using Q(1,3,4) by (auto simp: wq_rep_def fifo_rep_def)
  moreover have run: "wf_state (w_heap (sy_world s) a) = RUNNING" if "fm_active (sy_mgr s) = Some a" for a
    using D(6) [OF that] by (simp add: fm_running_def)
  have "set (ws @ rs) = {f \<in> set (sy_used s). wf_state (w_heap (sy_world s) f) \<in> {READY, WAITING}}"
  proof (intro set_eqI iffI)
    fix f assume "f \<in> {f \<in> set (sy_used s). wf_state (w_heap (sy_world s) f) \<in> {READY, WAITING}}"
    then show "f \<in> set (ws @ rs)"
      using D(7) [of f] run [of f] by (cases "f \<in> set ws \<or> f \<in> set rs"; cases "fm_active (sy_mgr s) = Some f"; auto)
  qed (use D(3,4) Q(5,6) in auto)
  moreover have "set_option (fm_active (sy_mgr s)) =
      {f \<in> set (sy_used s). wf_state (w_heap (sy_world s) f) = RUNNING}"
  proof (intro set_eqI iffI)
    fix f assume "f \<in> {f \<in> set (sy_used s). wf_state (w_heap (sy_world s) f) = RUNNING}"
    then show "f \<in> set_option (fm_active (sy_mgr s))"
      using D(7) [of f] fm_queues_states [OF D(1), of f]
      by (cases "fm_active (sy_mgr s) = Some f"; auto)
  qed (use D(5) run in auto)
  ultimately show ?thesis using Q(1,3) by blast
qed

theorem every_fiber_in_one_place_witness:
  "\<exists>ws rs. wq_rep (sy_world demo_sys3) (fm_wqueue (sy_mgr demo_sys3)) ws \<and>
     fifo_rep (w_heap (sy_world demo_sys3)) (fm_sched_algo (sy_mgr demo_sys3)) rs \<and>
     set (ws @ rs) = {f \<in> set (sy_used demo_sys3). wf_state (w_heap (sy_world demo_sys3) f) \<in> {READY, WAITING}}"
  using every_fiber_in_one_place [OF demo_reachable(3)] by blast

text \<open>
  C20: \<^verbatim>\<open>join\<close> waits for the end, for a joiner that is not interrupted. Whatever the fibers of a
  thread have done by permitted requests, which include interruptions of any fiber that is not
  itself inside \<^verbatim>\<open>join\<close>: a fiber that is inside \<^verbatim>\<open>join\<close> is made ready only when the fiber it
  joins has ended; until then it is registered with it. The documentation makes \<^verbatim>\<open>join\<close> an
  interruption point; what happens to a joiner that is interrupted is shown below.
\<close>

theorem join_returns_after_end:
  assumes "sys_reachable round_robin_algo (sys_init q h) s" and "p \<in> set (sy_used s)"
    and "sy_pc s p = In_join g"
  shows "g \<in> set (sy_used s) \<and>
     (is_ready (w_heap (sy_world s)) p \<longrightarrow> is_terminated (w_heap (sy_world s)) g) \<and>
     (\<not> is_terminated (w_heap (sy_world s)) g \<longrightarrow> p \<in> set (wf_waiting (w_heap (sy_world s) g)))"
proof -
  obtain ws rs where J: "sys_joins (w_heap (sy_world s)) (set ws) (set rs) (sy_pc s) (set (sy_used s))"
    using sys_reachable_inv [OF assms(1)] by (auto simp: sys_inv_def sys_inv_at_def)
  from sys_joinsD(5) [OF J assms(2,3)] sys_joinsD(4) [OF J, of g p] show ?thesis
    by (auto simp: is_ready_def is_terminated_def)
qed

theorem join_returns_after_end_witness:
  "1 \<in> set (sy_used demo_sys3) \<and> sy_pc demo_sys3 1 = In_join 2 \<and>
   is_ready (w_heap (sy_world demo_sys3)) 1 \<and> is_terminated (w_heap (sy_world demo_sys3)) 2"
proof -
  have "1 \<in> set (sy_used demo_sys3)" "sy_pc demo_sys3 1 = In_join 2" "is_ready (w_heap (sy_world demo_sys3)) 1"
    by code_simp+
  with join_returns_after_end [OF demo_reachable(3) this(1,2)] show ?thesis by blast
qed

text \<open>
  The interruption of a joiner: it is made ready although the fiber it joins has not ended, and the
  assertion at the end of \<^verbatim>\<open>fiber_manager::join\<close> fails when it runs again.
\<close>

theorem join_interrupted_fails:
  assumes Q: "fm_queues fifo_rep w m ws rs" and run: "fm_running w m a"
    and f: "f \<noteq> a" "\<not> is_terminated (w_heap w) f" "wf_splk (w_heap w f) = UNLOCKED"
  shows "\<exists>w1 w2. fm_join_enter f w m = Some (w1, m) \<and> fiber_interrupt (Some a) w1 = Some w2 \<and>
     is_ready (w_heap w2) a \<and> fm_join_leave f w2 = None"
proof -
  from rr.join_enter_waits [OF Q run f(1) _ f(3)] f(2) obtain w1 where w1: "fm_join_enter f w m = Some (w1, m)"
    "fm_queues fifo_rep w1 m (ws @ [a]) rs"
    "links_frame (insert a (set ws)) ((w_heap w)(a := (w_heap w a)\<lparr>wf_state := WAITING, wf_phead := Some (fm_wqueue m),
       wf_ptail := Some (fm_wqueue m)\<rparr>, f := (w_heap w f)\<lparr>wf_waiting := wf_waiting (w_heap w f) @ [a]\<rparr>)) (w_heap w1)"
    unfolding is_terminated_def by blast
  let ?w = "upd_heap (\<lambda>h. h(a := interruption_requested_set True (h a))) w1"
  have "fm_queues fifo_rep ?w m (ws @ [a]) rs"
    by (rule rr.queues_cong_fields [OF w1(2)])
      (auto simp: upd_heap_def sched_same_def interruption_requested_set_def)
  from rr.set_ready_queues [OF this, of a] obtain w2 where w2: "set_ready a ?w = Some w2"
    "links_frame (set (ws @ [a])) (ready_all {a} (w_heap ?w)) (w_heap w2)" by auto
  have "is_ready (w_heap w2) a" "\<not> is_terminated (w_heap w2) f"
    using links_frame_fields(5) [OF w2(2)] links_frame_fields(5) [OF w1(3), of f] f(1,2)
    by (simp_all add: is_ready_def is_terminated_def ready_all_def upd_heap_def)
  with w1(1) w2(1) show ?thesis
    by (auto simp: fiber_interrupt_def request_interruption_def fm_join_leave_def assert_that_def)
qed

theorem join_interrupted_fails_witness:
  "\<exists>w1 w2. fm_join_enter 2 (sy_world demo_sys2) (sy_mgr demo_sys2) = Some (w1, sy_mgr demo_sys2) \<and>
     fiber_interrupt (Some 1) w1 = Some w2 \<and> is_ready (w_heap w2) 1 \<and> fm_join_leave 2 w2 = None"
proof -
  have "fm_queues fifo_rep (sy_world demo_sys2) (sy_mgr demo_sys2) [] [2]" "fm_running (sy_world demo_sys2) (sy_mgr demo_sys2) 1"
    "\<not> is_terminated (w_heap (sy_world demo_sys2)) 2" "wf_splk (w_heap (sy_world demo_sys2) 2) = UNLOCKED" by code_simp+
  with join_interrupted_fails [OF this(1,2), of 2] show ?thesis by auto
qed

end
