(* ===== verification/Lockable.thy ===== *)
theory Lockable
  imports Thread_System
begin

text \<open>
  What the mutex classes have in common: the fibers they keep in their waiting lists
  (\<^verbatim>\<open>detail/fiber_base.hpp\<close>, \<^verbatim>\<open>detail/main_fiber.hpp\<close>) and the contract all four keep. A
  mutex protects its own data with a spin lock; what it does between locking and unlocking that
  spin lock is one indivisible section, and the contract speaks about these sections.
\<close>

section \<open>Fibers and main contexts as waiters\<close>

text \<open>
  \<^verbatim>\<open>fiber_base *\<close>: a worker fiber, or the \<^verbatim>\<open>main_fiber\<close> a main context puts on its stack
  while it waits.
\<close>

datatype fiber_base = Worker fid | Main mfid

definition main_fiber_init :: "mfid \<Rightarrow> world \<Rightarrow> world" where
  "main_fiber_init k w = w\<lparr>w_mains := (w_mains w)(k := False)\<rparr>"

definition main_set_ready :: "mfid \<Rightarrow> world \<Rightarrow> world" where
  "main_set_ready k w = w\<lparr>w_mains := (w_mains w)(k := True)\<rparr>"

definition main_is_ready :: "mfid \<Rightarrow> world \<Rightarrow> bool" where
  "main_is_ready k w \<longleftrightarrow> w_mains w k"

definition fb_set_ready :: "fiber_base \<Rightarrow> world \<Rightarrow> world option" where
  "fb_set_ready n w = (case n of Worker f \<Rightarrow> set_ready f w | Main k \<Rightarrow> Some (main_set_ready k w))"

definition fb_is_ready :: "fiber_base \<Rightarrow> world \<Rightarrow> bool" where
  "fb_is_ready n w \<longleftrightarrow> (case n of Worker f \<Rightarrow> is_ready (w_heap w) f | Main k \<Rightarrow> main_is_ready k w)"

text \<open>\<^verbatim>\<open>if ( n) n->set_ready()\<close> after a section that may have taken a waiter out.\<close>

definition notify_waiter :: "fiber_base option \<Rightarrow> world \<Rightarrow> world option" where
  "notify_waiter n w = (case n of Some x \<Rightarrow> fb_set_ready x w | None \<Rightarrow> Some w)"

section \<open>The contract\<close>

text \<open>
  \<open>lck n i m\<close>: the section of \<^verbatim>\<open>lock\<close> for a caller with identity \<open>i\<close>, to be registered
  as \<open>n\<close> if it must wait; \<open>tr i m\<close> the section of \<^verbatim>\<open>try_lock\<close>; \<open>unl i m\<close> that of
  \<^verbatim>\<open>unlock\<close>, which gives the waiter to wake. \<open>depth\<close> is how often the mutex has been locked
  and not unlocked again, \<open>holder\<close> by whom.
\<close>

locale lockable =
  fixes lck :: "fiber_base \<Rightarrow> fiber_id \<Rightarrow> 'm \<Rightarrow> (bool \<times> 'm) option"
    and tr :: "fiber_id \<Rightarrow> 'm \<Rightarrow> (bool \<times> 'm) option"
    and unl :: "fiber_id \<Rightarrow> 'm \<Rightarrow> (fiber_base option \<times> 'm) option"
    and inv :: "'m \<Rightarrow> bool"
    and depth :: "'m \<Rightarrow> nat"
    and holder :: "'m \<Rightarrow> fiber_id"
    and waiters :: "'m \<Rightarrow> fiber_base list"
    and bound :: nat
  assumes lck_free: "inv m \<Longrightarrow> depth m = 0 \<Longrightarrow>
      \<exists>m'. lck n i m = Some (True, m') \<and> inv m' \<and> depth m' = 1 \<and> holder m' = i \<and> waiters m' = waiters m"
    and lck_held: "inv m \<Longrightarrow> 0 < depth m \<Longrightarrow> holder m \<noteq> i \<Longrightarrow> n \<notin> set (waiters m) \<Longrightarrow>
      \<exists>m'. lck n i m = Some (False, m') \<and> inv m' \<and> depth m' = depth m \<and> holder m' = holder m \<and>
        waiters m' = waiters m @ [n]"
    and lck_owned: "inv m \<Longrightarrow> 0 < depth m \<Longrightarrow> holder m = i \<Longrightarrow> depth m < bound \<Longrightarrow> lck n i m = Some (b, m') \<Longrightarrow>
      inv m' \<and> holder m' = i \<and> depth m' = (if b then depth m + 1 else depth m) \<and>
      waiters m' = (if b then waiters m else waiters m @ [n])"
    and lck_dup: "inv m \<Longrightarrow> 0 < depth m \<Longrightarrow> holder m \<noteq> i \<Longrightarrow> n \<in> set (waiters m) \<Longrightarrow> lck n i m = None"
    and tr_free: "inv m \<Longrightarrow> depth m = 0 \<Longrightarrow>
      \<exists>m'. tr i m = Some (True, m') \<and> inv m' \<and> depth m' = 1 \<and> holder m' = i \<and> waiters m' = waiters m"
    and tr_held: "inv m \<Longrightarrow> 0 < depth m \<Longrightarrow> holder m \<noteq> i \<Longrightarrow> tr i m = Some (False, m)"
    and tr_owned: "inv m \<Longrightarrow> 0 < depth m \<Longrightarrow> holder m = i \<Longrightarrow> depth m < bound \<Longrightarrow> tr i m = Some (b, m') \<Longrightarrow>
      inv m' \<and> holder m' = i \<and> waiters m' = waiters m \<and> depth m' = (if b then depth m + 1 else depth m)"
    and unl_inner: "inv m \<Longrightarrow> 1 < depth m \<Longrightarrow>
      \<exists>m'. unl (holder m) m = Some (None, m') \<and> inv m' \<and> depth m' = depth m - 1 \<and>
        holder m' = holder m \<and> waiters m' = waiters m"
    and unl_last: "inv m \<Longrightarrow> depth m = 1 \<Longrightarrow>
      \<exists>m'. unl (holder m) m = Some (hd_or None (waiters m), m') \<and> inv m' \<and> depth m' = 0 \<and>
        waiters m' = tl (waiters m)"
    and unl_foreign: "inv m \<Longrightarrow> depth m = 0 \<or> holder m \<noteq> i \<Longrightarrow> unl i m = None"

text \<open>A mutex its holder may lock again.\<close>

locale recursive_lockable = lockable +
  assumes lck_again: "inv m \<Longrightarrow> 0 < depth m \<Longrightarrow> depth m < bound \<Longrightarrow>
      \<exists>m'. lck n (holder m) m = Some (True, m')"
    and tr_again: "inv m \<Longrightarrow> 0 < depth m \<Longrightarrow> depth m < bound \<Longrightarrow> \<exists>m'. tr (holder m) m = Some (True, m')"

section \<open>Histories\<close>

text \<open>
  A history of a mutex: callers lock, try and unlock in any order. \<open>held i\<close> counts how often
  \<open>i\<close> has got the lock and not given it back.
\<close>

inductive lock_history ::
  "(fiber_base \<Rightarrow> fiber_id \<Rightarrow> 'm \<Rightarrow> (bool \<times> 'm) option) \<Rightarrow> (fiber_id \<Rightarrow> 'm \<Rightarrow> (bool \<times> 'm) option) \<Rightarrow>
   (fiber_id \<Rightarrow> 'm \<Rightarrow> (fiber_base option \<times> 'm) option) \<Rightarrow> nat \<Rightarrow> 'm \<Rightarrow> 'm \<Rightarrow> (fiber_id \<Rightarrow> nat) \<Rightarrow> bool"
  for lck tr unl bound m0 where
  start: "lock_history lck tr unl bound m0 m0 (\<lambda>_. 0)"
| locked: "lock_history lck tr unl bound m0 m held \<Longrightarrow> held i < bound \<Longrightarrow> lck n i m = Some (True, m') \<Longrightarrow>
    lock_history lck tr unl bound m0 m' (held(i := held i + 1))"
| blocked: "lock_history lck tr unl bound m0 m held \<Longrightarrow> held i < bound \<Longrightarrow> lck n i m = Some (False, m') \<Longrightarrow>
    lock_history lck tr unl bound m0 m' held"
| tried: "lock_history lck tr unl bound m0 m held \<Longrightarrow> held i < bound \<Longrightarrow> tr i m = Some (b, m') \<Longrightarrow>
    lock_history lck tr unl bound m0 m' (if b then held(i := held i + 1) else held)"
| unlocked: "lock_history lck tr unl bound m0 m held \<Longrightarrow> unl i m = Some (n, m') \<Longrightarrow>
    lock_history lck tr unl bound m0 m' (held(i := held i - 1))"

context lockable
begin

text \<open>Whatever happens, the counters and the mutex agree.\<close>

definition agrees :: "'m \<Rightarrow> (fiber_id \<Rightarrow> nat) \<Rightarrow> bool" where
  "agrees m held \<longleftrightarrow> inv m \<and> (\<forall>i. held i = (if 0 < depth m \<and> holder m = i then depth m else 0))"

lemma lck_agrees:
  assumes "agrees m held" and "held i < bound" and "lck n i m = Some (b, m')"
  shows "agrees m' (if b then held(i := held i + 1) else held)"
proof -
  have inv: "inv m" and held: "\<And>j. held j = (if 0 < depth m \<and> holder m = j then depth m else 0)"
    using assms(1) by (auto simp: agrees_def)
  consider "depth m = 0" | "0 < depth m" "holder m = i"
    | "0 < depth m" "holder m \<noteq> i" "n \<notin> set (waiters m)" | "0 < depth m" "holder m \<noteq> i" "n \<in> set (waiters m)"
    by auto
  then show ?thesis
  proof cases
    case 1
    with lck_free [OF inv, of n i] assms(3) held show ?thesis by (auto simp: agrees_def)
  next
    case 2
    with lck_owned [OF inv 2] assms(2,3) held show ?thesis by (auto simp: agrees_def)
  next
    case 3
    with lck_held [OF inv 3] assms(3) held show ?thesis by (auto simp: agrees_def)
  next
    case 4
    with assms lck_dup [OF inv 4] held show ?thesis by (auto simp: agrees_def)
  qed
qed

lemma tr_agrees:
  assumes "agrees m held" and "held i < bound" and "tr i m = Some (b, m')"
  shows "agrees m' (if b then held(i := held i + 1) else held)"
proof -
  have inv: "inv m" and held: "\<And>j. held j = (if 0 < depth m \<and> holder m = j then depth m else 0)"
    using assms(1) by (auto simp: agrees_def)
  consider "depth m = 0" | "0 < depth m" "holder m = i" | "0 < depth m" "holder m \<noteq> i" by auto
  then show ?thesis
  proof cases
    case 1
    with tr_free [OF inv, of i] assms(3) held show ?thesis by (auto simp: agrees_def)
  next
    case 2
    with tr_owned [OF inv 2] assms(2,3) held show ?thesis by (auto simp: agrees_def)
  next
    case 3
    with tr_held [OF inv 3] assms(1,3) show ?thesis by auto
  qed
qed

lemma unl_agrees:
  assumes "agrees m held" and "unl i m = Some (n, m')"
  shows "agrees m' (held(i := held i - 1))"
proof -
  have inv: "inv m" and held: "\<And>j. held j = (if 0 < depth m \<and> holder m = j then depth m else 0)"
    using assms(1) by (auto simp: agrees_def)
  have i: "0 < depth m" "holder m = i" using unl_foreign [OF inv, of i] assms(2) by (auto intro: gr0I)
  then consider "depth m = 1" | "1 < depth m" by linarith
  then show ?thesis
  proof cases
    case 1
    with unl_last [OF inv 1] assms(2) i held show ?thesis by (auto simp: agrees_def)
  next
    case 2
    with unl_inner [OF inv 2] assms(2) i held show ?thesis by (auto simp: agrees_def)
  qed
qed

lemma history_agrees:
  assumes "lock_history lck tr unl bound m0 m held" and "inv m0" and "depth m0 = 0"
  shows "agrees m held"
  using assms
proof (induction rule: lock_history.induct)
  case start
  then show ?case by (simp add: agrees_def)
next
  case (locked m held i n m')
  with lck_agrees [of m held i n True m'] show ?case by (simp add: fun_upd_def)
next
  case (blocked m held i n m')
  with lck_agrees [of m held i n False m'] show ?case by simp
next
  case (tried m held i b m')
  with tr_agrees [of m held i b m'] show ?case by (simp add: fun_upd_def)
next
  case (unlocked m held i n m')
  with unl_agrees [of m held i n m'] show ?case by (simp add: fun_upd_def)
qed

text \<open>
  Mutual exclusion: two callers never hold the lock together; and when all locks have been given
  back the mutex is free.
\<close>

lemma mutual_exclusion:
  assumes "lock_history lck tr unl bound m0 m held" and "inv m0" and "depth m0 = 0"
  shows "(0 < held i \<longrightarrow> 0 < held j \<longrightarrow> i = j) \<and> (0 < held i \<longrightarrow> holder m = i \<and> depth m = held i) \<and>
    ((\<forall>j. held j = 0) \<longrightarrow> depth m = 0)"
  using history_agrees [OF assms] unfolding agrees_def by (auto split: if_splits)

text \<open>
  A caller that finds the mutex taken is registered behind those that wait already; giving the lock
  back wakes the one in front.
\<close>

lemma waits_in_line:
  assumes "inv m" and "0 < depth m" and "holder m \<noteq> i" and "n \<notin> set (waiters m)"
  shows "\<exists>m1. lck n i m = Some (False, m1) \<and> waiters m1 = waiters m @ [n] \<and>
     (depth m = 1 \<longrightarrow> (\<exists>m2. unl (holder m) m1 = Some (Some (hd (waiters m @ [n])), m2) \<and>
        waiters m2 = tl (waiters m @ [n]) \<and> depth m2 = 0))"
proof -
  obtain m1 where m1: "lck n i m = Some (False, m1)" "inv m1" "depth m1 = depth m" "holder m1 = holder m"
    "waiters m1 = waiters m @ [n]"
    using lck_held [OF assms] by blast
  have "hd_or None (waiters m @ [n]) = Some (hd (waiters m @ [n]))" by (cases "waiters m") auto
  with unl_last [OF m1(2)] m1 show ?thesis by auto
qed

end

end
