(* ===== verification/Mutex.thy ===== *)
theory Mutex
  imports Lockable
begin

text \<open>
  The classes \<^verbatim>\<open>mutex\<close> and \<^verbatim>\<open>timed_mutex\<close> (\<^verbatim>\<open>mutex.hpp\<close>, \<^verbatim>\<open>src/mutex.cpp\<close>,
  \<^verbatim>\<open>timed_mutex.hpp\<close>, \<^verbatim>\<open>src/timed_mutex.cpp\<close>). A \<open>\<dots>_section\<close> is what an operation does
  under the spin lock; the operations proper add the calls into the scheduler. \<^verbatim>\<open>lock\<close> is a
  loop: a caller that has been woken executes \<open>mutex_lock_fiber\<close> or \<open>mutex_lock_main\<close> again.
\<close>

record mutex =
  mtx_splk :: lock_state
  mtx_state :: lock_state
  mtx_owner :: fiber_id
  mtx_waiting :: "fiber_base list"

definition mutex_init :: mutex where
  "mutex_init = \<lparr>mtx_splk = spinlock_init, mtx_state = UNLOCKED, mtx_owner = no_id, mtx_waiting = []\<rparr>"

definition mutex_dtor :: "mutex \<Rightarrow> unit option" where
  "mutex_dtor mx = do {
     assert_that (\<not> id_valid (mtx_owner mx));
     assert_that (mtx_waiting mx = []) }"

section \<open>Locking\<close>

text \<open>
  One round of the loop, up to the point where the caller is registered: the spin lock is then
  still held.
\<close>

definition mutex_lock_section :: "fiber_base \<Rightarrow> fiber_id \<Rightarrow> mutex \<Rightarrow> (bool \<times> mutex) option" where
  "mutex_lock_section n i mx = do {
     l \<leftarrow> spin_lock (mtx_splk mx);
     if mtx_state mx = UNLOCKED then do {
       assert_that (\<not> id_valid (mtx_owner mx));
       l' \<leftarrow> spin_unlock l;
       Some (True, mx\<lparr>mtx_state := LOCKED, mtx_owner := i, mtx_splk := l'\<rparr>) }
     else do {
       assert_that (n \<notin> set (mtx_waiting mx));
       Some (False, mx\<lparr>mtx_waiting := mtx_waiting mx @ [n], mtx_splk := l\<rparr>) } }"

text \<open>A fiber that has to wait hands the held spin lock to the scheduler, which releases it.\<close>

definition mutex_lock_fiber ::
  "world \<Rightarrow> 's fiber_manager \<Rightarrow> mutex \<Rightarrow> (bool \<times> mutex \<times> world \<times> 's fiber_manager) option" where
  "mutex_lock_fiber w m mx = do {
     a \<leftarrow> fm_active m;
     (got, mx1) \<leftarrow> mutex_lock_section (Worker a) (this_get_id m) mx;
     if got then Some (True, mx1, w, m)
     else do {
       (l, w', m') \<leftarrow> fm_wait_enter (mtx_splk mx1) w m;
       Some (False, mx1\<lparr>mtx_splk := l\<rparr>, w', m') } }"

text \<open>
  The main context releases the spin lock itself and then turns the scheduler until its
  \<^verbatim>\<open>main_fiber\<close> object is ready (\<open>main_is_ready\<close>); this object is not made unready again.
\<close>

definition mutex_lock_release :: "fiber_base \<Rightarrow> fiber_id \<Rightarrow> mutex \<Rightarrow> (bool \<times> mutex) option" where
  "mutex_lock_release n i mx = do {
     (got, mx1) \<leftarrow> mutex_lock_section n i mx;
     if got then Some (True, mx1)
     else do {
       l \<leftarrow> spin_unlock (mtx_splk mx1);
       Some (False, mx1\<lparr>mtx_splk := l\<rparr>) } }"

definition mutex_lock_main ::
  "mfid \<Rightarrow> 's fiber_manager \<Rightarrow> mutex \<Rightarrow> (bool \<times> mutex) option" where
  "mutex_lock_main k m mx = mutex_lock_release (Main k) (this_get_id m) mx"

section \<open>Trying and unlocking\<close>

definition mutex_try_section :: "fiber_id \<Rightarrow> mutex \<Rightarrow> (bool \<times> mutex) option" where
  "mutex_try_section i mx = do {
     l \<leftarrow> spin_lock (mtx_splk mx);
     if mtx_state mx = UNLOCKED then do {
       assert_that (\<not> id_valid (mtx_owner mx));
       l' \<leftarrow> spin_unlock l;
       Some (True, mx\<lparr>mtx_state := LOCKED, mtx_owner := i, mtx_splk := l'\<rparr>) }
     else do {
       l' \<leftarrow> spin_unlock l;
       Some (False, mx\<lparr>mtx_splk := l'\<rparr>) } }"

definition mutex_try_lock ::
  "'s sched_algorithm \<Rightarrow> time_point \<Rightarrow> time_point \<Rightarrow> world \<Rightarrow> 's fiber_manager \<Rightarrow> mutex \<Rightarrow>
   (bool \<times> control option \<times> mutex \<times> world \<times> 's fiber_manager) option" where
  "mutex_try_lock A now now' w m mx = do {
     (got, mx1) \<leftarrow> mutex_try_section (this_get_id m) mx;
     if got then Some (True, None, mx1, w, m)
     else do {
       (c, w', m') \<leftarrow> this_yield A now now' w m;
       Some (False, Some c, mx1, w', m') } }"

definition mutex_unlock_section :: "fiber_id \<Rightarrow> mutex \<Rightarrow> (fiber_base option \<times> mutex) option" where
  "mutex_unlock_section i mx = do {
     assert_that (mtx_state mx = LOCKED);
     assert_that (i = mtx_owner mx);
     l \<leftarrow> spin_lock (mtx_splk mx);
     let (n, rest) = (case mtx_waiting mx of [] \<Rightarrow> (None, []) | x # xs \<Rightarrow> (Some x, xs));
     l' \<leftarrow> spin_unlock l;
     Some (n, mx\<lparr>mtx_waiting := rest, mtx_owner := no_id, mtx_state := UNLOCKED, mtx_splk := l'\<rparr>) }"

definition mutex_unlock :: "world \<Rightarrow> 's fiber_manager \<Rightarrow> mutex \<Rightarrow> (mutex \<times> world) option" where
  "mutex_unlock w m mx = do {
     (n, mx') \<leftarrow> mutex_unlock_section (this_get_id m) mx;
     w' \<leftarrow> notify_waiter n w;
     Some (mx', w') }"

section \<open>The timed mutex\<close>

text \<open>The data and the plain operations are written out a second time in the source.\<close>

type_synonym timed_mutex = mutex

definition timed_mutex_lock_section ::
  "fiber_base \<Rightarrow> fiber_id \<Rightarrow> timed_mutex \<Rightarrow> (bool \<times> timed_mutex) option" where
  "timed_mutex_lock_section n i mx = do {
     l \<leftarrow> spin_lock (mtx_splk mx);
     if mtx_state mx = UNLOCKED then do {
       assert_that (\<not> id_valid (mtx_owner mx));
       l' \<leftarrow> spin_unlock l;
       Some (True, mx\<lparr>mtx_state := LOCKED, mtx_owner := i, mtx_splk := l'\<rparr>) }
     else do {
       assert_that (n \<notin> set (mtx_waiting mx));
       Some (False, mx\<lparr>mtx_waiting := mtx_waiting mx @ [n], mtx_splk := l\<rparr>) } }"

definition timed_mutex_lock_fiber ::
  "world \<Rightarrow> 's fiber_manager \<Rightarrow> timed_mutex \<Rightarrow> (bool \<times> timed_mutex \<times> world \<times> 's fiber_manager) option" where
  "timed_mutex_lock_fiber w m mx = do {
     a \<leftarrow> fm_active m;
     (got, mx1) \<leftarrow> timed_mutex_lock_section (Worker a) (this_get_id m) mx;
     if got then Some (True, mx1, w, m)
     else do {
       (l, w', m') \<leftarrow> fm_wait_enter (mtx_splk mx1) w m;
       Some (False, mx1\<lparr>mtx_splk := l\<rparr>, w', m') } }"

definition timed_mutex_lock_release ::
  "fiber_base \<Rightarrow> fiber_id \<Rightarrow> timed_mutex \<Rightarrow> (bool \<times> timed_mutex) option" where
  "timed_mutex_lock_release n i mx = do {
     (got, mx1) \<leftarrow> timed_mutex_lock_section n i mx;
     if got then Some (True, mx1)
     else do {
       l \<leftarrow> spin_unlock (mtx_splk mx1);
       Some (False, mx1\<lparr>mtx_splk := l\<rparr>) } }"

definition timed_mutex_try_section :: "fiber_id \<Rightarrow> timed_mutex \<Rightarrow> (bool \<times> timed_mutex) option" where
  "timed_mutex_try_section i mx = do {
     l \<leftarrow> spin_lock (mtx_splk mx);
     if mtx_state mx = UNLOCKED then do {
       assert_that (\<not> id_valid (mtx_owner mx));
       l' \<leftarrow> spin_unlock l;
       Some (True, mx\<lparr>mtx_state := LOCKED, mtx_owner := i, mtx_splk := l'\<rparr>) }
     else do {
       l' \<leftarrow> spin_unlock l;
       Some (False, mx\<lparr>mtx_splk := l'\<rparr>) } }"

definition timed_mutex_unlock_section ::
  "fiber_id \<Rightarrow> timed_mutex \<Rightarrow> (fiber_base option \<times> timed_mutex) option" where
  "timed_mutex_unlock_section i mx = do {
     assert_that (mtx_state mx = LOCKED);
     assert_that (i = mtx_owner mx);
     l \<leftarrow> spin_lock (mtx_splk mx);
     let (n, rest) = (case mtx_waiting mx of [] \<Rightarrow> (None, []) | x # xs \<Rightarrow> (Some x, xs));
     l' \<leftarrow> spin_unlock l;
     Some (n, mx\<lparr>mtx_waiting := rest, mtx_owner := no_id, mtx_state := UNLOCKED, mtx_splk := l'\<rparr>) }"

definition timed_mutex_unlock :: "world \<Rightarrow> 's fiber_manager \<Rightarrow> timed_mutex \<Rightarrow> (timed_mutex \<times> world) option" where
  "timed_mutex_unlock w m mx = do {
     (n, mx') \<leftarrow> timed_mutex_unlock_section (this_get_id m) mx;
     w' \<leftarrow> notify_waiter n w;
     Some (mx', w') }"

definition timed_mutex_lock_main :: "mfid \<Rightarrow> 's fiber_manager \<Rightarrow> timed_mutex \<Rightarrow> (bool \<times> timed_mutex) option" where
  "timed_mutex_lock_main k m mx = timed_mutex_lock_release (Main k) (this_get_id m) mx"

definition timed_mutex_try_lock ::
  "'s sched_algorithm \<Rightarrow> time_point \<Rightarrow> time_point \<Rightarrow> world \<Rightarrow> 's fiber_manager \<Rightarrow> timed_mutex \<Rightarrow>
   (bool \<times> control option \<times> timed_mutex \<times> world \<times> 's fiber_manager) option" where
  "timed_mutex_try_lock A now now' w m mx = do {
     (got, mx1) \<leftarrow> timed_mutex_try_section (this_get_id m) mx;
     if got then Some (True, None, mx1, w, m)
     else do {
       (c, w', m') \<leftarrow> this_yield A now now' w m;
       Some (False, Some c, mx1, w', m') } }"

text \<open>
  \<^verbatim>\<open>deque::erase\<close> at the position \<^verbatim>\<open>std::find\<close> returns; if there is no such element that is
  \<^verbatim>\<open>end()\<close> and the behaviour is undefined.
\<close>

definition erase_found :: "'a \<Rightarrow> 'a list \<Rightarrow> 'a list option" where
  "erase_found x xs = (if x \<in> set xs then Some (remove1 x xs) else None)"

datatype try_outcome = Timed_out | Got_lock | Has_to_wait

definition timed_mutex_try_until_section ::
  "time_point \<Rightarrow> time_point \<Rightarrow> fiber_base \<Rightarrow> fiber_id \<Rightarrow> timed_mutex \<Rightarrow> (try_outcome \<times> timed_mutex) option" where
  "timed_mutex_try_until_section now t n i mx = do {
     l \<leftarrow> spin_lock (mtx_splk mx);
     if t < now then do { l' \<leftarrow> spin_unlock l; Some (Timed_out, mx\<lparr>mtx_splk := l'\<rparr>) }
     else if mtx_state mx = UNLOCKED then do {
       assert_that (\<not> id_valid (mtx_owner mx));
       l' \<leftarrow> spin_unlock l;
       Some (Got_lock, mx\<lparr>mtx_state := LOCKED, mtx_owner := i, mtx_splk := l'\<rparr>) }
     else do {
       assert_that (n \<notin> set (mtx_waiting mx));
       Some (Has_to_wait, mx\<lparr>mtx_waiting := mtx_waiting mx @ [n], mtx_splk := l\<rparr>) } }"

definition timed_mutex_try_until_fiber ::
  "time_point \<Rightarrow> time_point \<Rightarrow> world \<Rightarrow> 's fiber_manager \<Rightarrow> timed_mutex \<Rightarrow>
   (try_outcome \<times> timed_mutex \<times> world \<times> 's fiber_manager) option" where
  "timed_mutex_try_until_fiber now t w m mx = do {
     a \<leftarrow> fm_active m;
     (oc, mx1) \<leftarrow> timed_mutex_try_until_section now t (Worker a) (this_get_id m) mx;
     if oc = Has_to_wait then do {
       (l, w', m') \<leftarrow> fm_wait_until_enter t (mtx_splk mx1) w m;
       Some (oc, mx1\<lparr>mtx_splk := l\<rparr>, w', m') }
     else Some (oc, mx1, w, m) }"

text \<open>
  The caller leaves its place in the line: done by a fiber whose \<^verbatim>\<open>wait_until\<close> returned false
  (the deadline is not ahead any more), and by a main context that finds the deadline passed.
\<close>

definition timed_mutex_give_up :: "fiber_base \<Rightarrow> timed_mutex \<Rightarrow> timed_mutex option" where
  "timed_mutex_give_up n mx = do {
     l \<leftarrow> spin_lock (mtx_splk mx);
     rest \<leftarrow> erase_found n (mtx_waiting mx);
     l' \<leftarrow> spin_unlock l;
     Some (mx\<lparr>mtx_waiting := rest, mtx_splk := l'\<rparr>) }"

definition timed_mutex_try_until_resumed ::
  "time_point \<Rightarrow> time_point \<Rightarrow> fid \<Rightarrow> timed_mutex \<Rightarrow> (bool \<times> timed_mutex) option" where
  "timed_mutex_try_until_resumed now t a mx =
     (if \<not> fm_wait_until_leave now t then do {
        mx' \<leftarrow> timed_mutex_give_up (Worker a) mx;
        Some (False, mx') }
      else Some (True, mx))"

definition timed_mutex_try_until_main ::
  "time_point \<Rightarrow> time_point \<Rightarrow> mfid \<Rightarrow> 's fiber_manager \<Rightarrow> timed_mutex \<Rightarrow> (try_outcome \<times> timed_mutex) option" where
  "timed_mutex_try_until_main now t k m mx = do {
     (oc, mx1) \<leftarrow> timed_mutex_try_until_section now t (Main k) (this_get_id m) mx;
     if oc = Has_to_wait then do {
       l \<leftarrow> spin_unlock (mtx_splk mx1);
       Some (oc, mx1\<lparr>mtx_splk := l\<rparr>) }
     else Some (oc, mx1) }"

text \<open>One turn of the main context's inner loop; \<open>Inl\<close> when it leaves the function with false.\<close>

definition timed_mutex_try_until_poll ::
  "'s sched_algorithm \<Rightarrow> time_point \<Rightarrow> time_point \<Rightarrow> time_point \<Rightarrow> time_point \<Rightarrow> mfid \<Rightarrow>
   world \<Rightarrow> 's fiber_manager \<Rightarrow> timed_mutex \<Rightarrow> (timed_mutex + (control option \<times> world \<times> 's fiber_manager)) option" where
  "timed_mutex_try_until_poll A now now1 now2 t k w m mx =
     (if main_is_ready k w then Some (Inr (None, w, m))
      else if t < now then do { mx' \<leftarrow> timed_mutex_give_up (Main k) mx; Some (Inl mx') }
      else do { (c, w', m') \<leftarrow> fm_run A now1 now2 w m; Some (Inr (Some c, w', m')) })"

definition timed_mutex_try_for_fiber ::
  "time_point \<Rightarrow> time_point \<Rightarrow> duration \<Rightarrow> world \<Rightarrow> 's fiber_manager \<Rightarrow> timed_mutex \<Rightarrow>
   (try_outcome \<times> timed_mutex \<times> world \<times> 's fiber_manager) option" where
  "timed_mutex_try_for_fiber now now1 d w m mx = timed_mutex_try_until_fiber now1 (now + d) w m mx"

section \<open>Both keep the contract\<close>

definition mutex_inv :: "mutex \<Rightarrow> bool" where
  "mutex_inv mx \<longleftrightarrow> mtx_splk mx = UNLOCKED \<and> (mtx_state mx = UNLOCKED \<longrightarrow> mtx_owner mx = no_id)"

definition mutex_depth :: "mutex \<Rightarrow> nat" where
  "mutex_depth mx = (if mtx_state mx = LOCKED then 1 else 0)"

lemmas mutex_section_defs =
  mutex_lock_section_def mutex_lock_release_def mutex_try_section_def mutex_unlock_section_def
  mutex_inv_def

lemma lock_state_cases: "(s \<noteq> LOCKED) = (s = UNLOCKED)" "(s \<noteq> UNLOCKED) = (s = LOCKED)"
  by (cases s; simp)+

lemma mutex_depth_simps:
  "mutex_depth mx = 0 \<longleftrightarrow> mtx_state mx = UNLOCKED" "0 < mutex_depth mx \<longleftrightarrow> mtx_state mx = LOCKED"
  "mutex_depth mx = 1 \<longleftrightarrow> mtx_state mx = LOCKED" "mutex_depth mx = Suc 0 \<longleftrightarrow> mtx_state mx = LOCKED"
  "\<not> 1 < mutex_depth mx" "\<not> Suc 0 < mutex_depth mx" "mtx_state mx = LOCKED \<Longrightarrow> mutex_depth mx = 1"
  by (simp_all add: mutex_depth_def lock_state_cases)

interpretation mtx: lockable mutex_lock_release mutex_try_section mutex_unlock_section mutex_inv
  mutex_depth mtx_owner mtx_waiting 2
  by unfold_locales
    (auto simp: mutex_section_defs mutex_depth_simps lock_state_cases Let_def
      split: if_splits list.splits bind_splits)

lemma timed_mutex_same_sections:
  "timed_mutex_lock_section = mutex_lock_section"
  "timed_mutex_lock_release = mutex_lock_release"
  "timed_mutex_try_section = mutex_try_section"
  "timed_mutex_unlock_section = mutex_unlock_section"
proof -
  show 1: "timed_mutex_lock_section = mutex_lock_section"
    by (intro ext) (simp add: timed_mutex_lock_section_def mutex_lock_section_def)
  show "timed_mutex_lock_release = mutex_lock_release"
    by (intro ext) (simp add: timed_mutex_lock_release_def mutex_lock_release_def 1)
  show "timed_mutex_try_section = mutex_try_section" "timed_mutex_unlock_section = mutex_unlock_section"
    by (intro ext, simp add: timed_mutex_try_section_def mutex_try_section_def
        timed_mutex_unlock_section_def mutex_unlock_section_def)+
qed

interpretation tmx: lockable timed_mutex_lock_release timed_mutex_try_section timed_mutex_unlock_section
  mutex_inv mutex_depth mtx_owner mtx_waiting 2
  unfolding timed_mutex_same_sections by (rule mtx.lockable_axioms)

section \<open>Properties\<close>

lemma mutex_init_inv: "mutex_inv mutex_init" "mutex_depth mutex_init = 0"
  by (simp_all add: mutex_init_def mutex_inv_def spinlock_init_def mutex_depth_def)

text \<open>
  C6: a mutex has one holder. Whatever sequence of \<^verbatim>\<open>lock\<close>, \<^verbatim>\<open>try_lock\<close> and \<^verbatim>\<open>unlock\<close>
  calls has been made on a new mutex, by whomever, two callers with different identities do not
  both have the lock, the mutex names its holder, and nobody has locked it twice.
\<close>

theorem mutex_mutual_exclusion:
  assumes "lock_history mutex_lock_release mutex_try_section mutex_unlock_section 2 mutex_init mx held"
  shows "(0 < held i \<longrightarrow> 0 < held j \<longrightarrow> i = j) \<and>
     (0 < held i \<longrightarrow> mtx_state mx = LOCKED \<and> mtx_owner mx = i \<and> held i = 1)"
  using mtx.mutual_exclusion [OF assms mutex_init_inv, of i j]
  by (auto simp: mutex_depth_def split: if_splits)

theorem mutex_mutual_exclusion_witness:
  "lock_history mutex_lock_release mutex_try_section mutex_unlock_section 2 mutex_init
     \<lparr>mtx_splk = UNLOCKED, mtx_state = LOCKED, mtx_owner = get_id 1, mtx_waiting = [Worker 2]\<rparr>
     ((\<lambda>_. 0)(get_id 1 := 1)) \<and>
   (\<exists>!j. 0 < ((\<lambda>_. 0)(get_id 1 := 1 :: nat)) j)"
proof -
  let ?h = "lock_history mutex_lock_release mutex_try_section mutex_unlock_section 2 mutex_init"
  have 1: "?h (mutex_init\<lparr>mtx_state := LOCKED, mtx_owner := get_id 1\<rparr>) ((\<lambda>_. 0)(get_id 1 := 0 + 1))"
    by (rule lock_history.locked [OF lock_history.start, of _ _ "Worker 1"])
      (simp_all add: mutex_lock_release_def mutex_lock_section_def mutex_init_def spinlock_init_def)
  have h: "?h \<lparr>mtx_splk = UNLOCKED, mtx_state = LOCKED, mtx_owner = get_id 1, mtx_waiting = [Worker 2]\<rparr>
     ((\<lambda>_. 0)(get_id 1 := 1))"
    by (rule lock_history.blocked [OF 1 [unfolded add_0], of "get_id 2" "Worker 2"])
      (simp_all add: mutex_lock_release_def mutex_lock_section_def mutex_init_def spinlock_init_def)
  moreover have "j = get_id 1" if "0 < ((\<lambda>_. 0)(get_id 1 := 1 :: nat)) j" for j
    by (rule mutex_mutual_exclusion [OF h, THEN conjunct1, rule_format, OF that]) simp
  ultimately show ?thesis by (metis fun_upd_same zero_less_one)
qed

text \<open>
  A fiber that finds the mutex taken goes to sleep in line. Its \<^verbatim>\<open>lock\<close> registers it behind
  the fibers that wait already and releases the spin lock; the fiber then waits without deadline in
  the scheduler's waiting queue, and both queues of the scheduler stay intact.
\<close>

theorem mutex_lock_sleeps_in_line:
  assumes "fm_queues fifo_rep w m ws rs" and "fm_running w m a"
    and "mtx_splk mx = UNLOCKED" and "mtx_state mx = LOCKED" and "Worker a \<notin> set (mtx_waiting mx)"
  shows "\<exists>w'. mutex_lock_fiber w m mx = Some (False, mx\<lparr>mtx_waiting := mtx_waiting mx @ [Worker a]\<rparr>, w', m) \<and>
     fm_queues fifo_rep w' m (ws @ [a]) rs \<and> is_waiting (w_heap w') a \<and> wf_tp (w_heap w' a) = time_point_max"
proof -
  from rr.wait_enter_ok [OF assms(1,2)] obtain w' where w:
    "fm_wait_enter LOCKED w m = Some (UNLOCKED, w', m)" "fm_queues fifo_rep w' m (ws @ [a]) rs"
    "is_waiting (w_heap w') a" "wf_tp (w_heap w' a) = time_point_max" by blast
  have same: "mx\<lparr>mtx_waiting := mtx_waiting mx @ [Worker a], mtx_splk := UNLOCKED\<rparr> =
      mx\<lparr>mtx_waiting := mtx_waiting mx @ [Worker a]\<rparr>"
    using assms(3) by (cases mx) simp
  have "mutex_lock_fiber w m mx = Some (False, mx\<lparr>mtx_waiting := mtx_waiting mx @ [Worker a]\<rparr>, w', m)"
    using assms(2-5) w(1) same
    by (simp add: mutex_lock_fiber_def mutex_lock_section_def fm_running_def)
  with w(2-4) show ?thesis by blast
qed

theorem mutex_lock_sleeps_in_line_witness:
  "\<exists>w'. mutex_lock_fiber (sy_world demo_sys2) (sy_mgr demo_sys2)
       \<lparr>mtx_splk = UNLOCKED, mtx_state = LOCKED, mtx_owner = get_id 2, mtx_waiting = []\<rparr> =
     Some (False, \<lparr>mtx_splk = UNLOCKED, mtx_state = LOCKED, mtx_owner = get_id 2, mtx_waiting = [Worker 1]\<rparr>,
       w', sy_mgr demo_sys2) \<and> is_waiting (w_heap w') 1"
  using mutex_lock_sleeps_in_line [OF demo_sys2_queues,
      of "\<lparr>mtx_splk = UNLOCKED, mtx_state = LOCKED, mtx_owner = get_id 2, mtx_waiting = []\<rparr>"]
  by auto

text \<open>
  Giving the lock back frees the mutex and wakes exactly the fiber that has waited longest: it
  becomes ready at the front of the scheduler's waiting queue, the others keep waiting in line.
\<close>

theorem mutex_unlock_wakes_first:
  assumes "fm_queues fifo_rep w m ws rs" and "fm_active m = Some a"
    and "mtx_splk mx = UNLOCKED" and "mtx_state mx = LOCKED" and "mtx_owner mx = get_id a"
    and "mtx_waiting mx = Worker f # others" and "f \<in> set ws"
  shows "\<exists>w'. mutex_unlock w m mx =
       Some (mx\<lparr>mtx_waiting := others, mtx_owner := no_id, mtx_state := UNLOCKED\<rparr>, w') \<and>
     fm_queues fifo_rep w' m (f # remove1 f ws) rs \<and> is_ready (w_heap w') f \<and>
     (\<forall>g. g \<noteq> f \<longrightarrow> wf_state (w_heap w' g) = wf_state (w_heap w g))"
proof -
  from rr.set_ready_queues [OF assms(1,7)] obtain w' where w: "set_ready f w = Some w'"
    "fm_queues fifo_rep w' m (f # remove1 f ws) rs"
    "links_frame (set ws) (ready_all {f} (w_heap w)) (w_heap w')" by blast
  have same: "mx\<lparr>mtx_waiting := others, mtx_owner := no_id, mtx_state := UNLOCKED, mtx_splk := UNLOCKED\<rparr> =
      mx\<lparr>mtx_waiting := others, mtx_owner := no_id, mtx_state := UNLOCKED\<rparr>"
    using assms(3) by (cases mx) simp
  have "mutex_unlock w m mx = Some (mx\<lparr>mtx_waiting := others, mtx_owner := no_id, mtx_state := UNLOCKED\<rparr>, w')"
    using assms(2-6) w(1) same
    by (simp add: mutex_unlock_def mutex_unlock_section_def this_get_id_def notify_waiter_def fb_set_ready_def)
  with w(2) links_frame_fields(5) [OF w(3)] show ?thesis
    by (auto simp: is_ready_def ready_all_def)
qed

text \<open>
  A thread in which fiber 2 sleeps in the line of a mutex held by fiber 1, which is running.
\<close>

definition demo_sys4 :: "round_robin sys" where
  "demo_sys4 = the (sys_script round_robin_algo
     [Rq_spawn 2, Rq_spawn 1, Rq_run 0 0, Rq_wait time_point_max, Rq_run 1 1] demo_sys0)"

lemma demo_sys4_queues:
  "fm_queues fifo_rep (sy_world demo_sys4) (sy_mgr demo_sys4) [2] []"
  "fm_running (sy_world demo_sys4) (sy_mgr demo_sys4) 1"
  "fm_active (sy_mgr demo_sys4) = Some 1"
  by code_simp+

theorem mutex_unlock_wakes_first_witness:
  "\<exists>w'. mutex_unlock (sy_world demo_sys4) (sy_mgr demo_sys4)
       \<lparr>mtx_splk = UNLOCKED, mtx_state = LOCKED, mtx_owner = get_id 1, mtx_waiting = [Worker 2]\<rparr> =
     Some (mutex_init, w') \<and> is_ready (w_heap w') 2"
  using mutex_unlock_wakes_first [OF demo_sys4_queues(1,3),
      of "\<lparr>mtx_splk = UNLOCKED, mtx_state = LOCKED, mtx_owner = get_id 1, mtx_waiting = [Worker 2]\<rparr>" 2 "[]"]
  by (auto simp: mutex_init_def spinlock_init_def)

text \<open>
  A main context that is woken and finds the mutex taken again cannot wait a second time. Its
  \<^verbatim>\<open>main_fiber\<close> object stays ready, so that after registering again it does not wait but goes
  round the loop at once, finds itself registered and fails the assertion that it is not.
\<close>

theorem mutex_main_cannot_wait_twice:
  assumes "mtx_splk mx = UNLOCKED" and "mtx_state mx = LOCKED" and "Main k \<notin> set (mtx_waiting mx)"
    and "main_is_ready k w"
  shows "\<exists>mx'. mutex_lock_main k m mx = Some (False, mx') \<and> main_is_ready k w \<and>
     mutex_lock_main k m mx' = None"
  using assms by (simp add: mutex_lock_main_def mutex_lock_release_def mutex_lock_section_def)

theorem mutex_main_cannot_wait_twice_witness:
  "\<exists>mx'. mutex_lock_main 7 (sy_mgr demo_sys0)
       \<lparr>mtx_splk = UNLOCKED, mtx_state = LOCKED, mtx_owner = get_id 2, mtx_waiting = []\<rparr> = Some (False, mx') \<and>
     mutex_lock_main 7 (sy_mgr demo_sys0) mx' = None"
  using mutex_main_cannot_wait_twice
    [of "\<lparr>mtx_splk = UNLOCKED, mtx_state = LOCKED, mtx_owner = get_id 2, mtx_waiting = []\<rparr>" 7
      "main_set_ready 7 (sy_world demo_sys0)" "sy_mgr demo_sys0"]
  by (simp add: main_is_ready_def main_set_ready_def)

text \<open>
  A fiber whose \<^verbatim>\<open>try_lock_until\<close> times out while it is in line leaves the line, which keeps
  its order, and gets no lock.
\<close>

theorem timed_mutex_timeout_leaves_line:
  assumes "mtx_splk mx = UNLOCKED" and "mtx_waiting mx = before @ Worker a # behind"
    and "Worker a \<notin> set before" and "t \<le> now"
  shows "timed_mutex_try_until_resumed now t a mx = Some (False, mx\<lparr>mtx_waiting := before @ behind\<rparr>)"
proof -
  have "mx\<lparr>mtx_waiting := before @ behind, mtx_splk := UNLOCKED\<rparr> = mx\<lparr>mtx_waiting := before @ behind\<rparr>"
    using assms(1) by (cases mx) simp
  with assms show ?thesis
    by (simp add: timed_mutex_try_until_resumed_def fm_wait_until_leave_def timed_mutex_give_up_def
        erase_found_def remove1_append)
qed

theorem timed_mutex_timeout_leaves_line_witness:
  "timed_mutex_try_until_resumed 5 5 2
     \<lparr>mtx_splk = UNLOCKED, mtx_state = LOCKED, mtx_owner = get_id 1, mtx_waiting = [Worker 3, Worker 2, Main 4]\<rparr> =
   Some (False, \<lparr>mtx_splk = UNLOCKED, mtx_state = LOCKED, mtx_owner = get_id 1, mtx_waiting = [Worker 3, Main 4]\<rparr>)"
  using timed_mutex_timeout_leaves_line [of "\<lparr>mtx_splk = UNLOCKED, mtx_state = LOCKED, mtx_owner = get_id 1,
      mtx_waiting = [Worker 3, Worker 2, Main 4]\<rparr>" "[Worker 3]" 2 "[Main 4]" 5 5] by simp

text \<open>
  If the lock is handed to a fiber whose deadline has passed by the time it runs, the fiber is
  not in the line any more and \<^verbatim>\<open>try_lock_until\<close> erases at the end of the list, which is
  undefined; and while other fibers are still in line for the free mutex nobody has been woken
  in its stead.
\<close>

theorem timed_mutex_notified_late_undefined:
  assumes "mutex_inv mx" and "mtx_state mx = LOCKED" and "mtx_owner mx = i"
    and "mtx_waiting mx = Worker a # others" and "Worker a \<notin> set others" and "t \<le> now"
  shows "\<exists>mx'. timed_mutex_unlock_section i mx = Some (Some (Worker a), mx') \<and> mtx_state mx' = UNLOCKED \<and>
     mtx_waiting mx' = others \<and> timed_mutex_try_until_resumed now t a mx' = None"
  using assms
  by (simp add: timed_mutex_unlock_section_def mutex_inv_def timed_mutex_try_until_resumed_def
      fm_wait_until_leave_def timed_mutex_give_up_def erase_found_def)

theorem timed_mutex_notified_late_undefined_witness:
  "\<exists>mx'. timed_mutex_unlock_section (get_id 1)
       \<lparr>mtx_splk = UNLOCKED, mtx_state = LOCKED, mtx_owner = get_id 1, mtx_waiting = [Worker 2, Worker 3]\<rparr> =
     Some (Some (Worker 2), mx') \<and> mtx_waiting mx' = [Worker 3] \<and> timed_mutex_try_until_resumed 5 5 2 mx' = None"
  using timed_mutex_notified_late_undefined [of "\<lparr>mtx_splk = UNLOCKED, mtx_state = LOCKED, mtx_owner = get_id 1,
      mtx_waiting = [Worker 2, Worker 3]\<rparr>" "get_id 1" 2 "[Worker 3]" 5 5]
  by (auto simp: mutex_inv_def)

end
