(* ===== verification/Condition.thy ===== *)
theory Condition
  imports Mutex
begin

text \<open>
  Condition variables (\<^verbatim>\<open>condition.hpp\<close>, \<^verbatim>\<open>src/condition.cpp\<close>). The external
  lock of \<^verbatim>\<open>wait\<close> is a template parameter: its \<^verbatim>\<open>unlock\<close> is an argument of the model, and
  after \<open>condition_wait_resumed\<close> the caller takes it again with its \<^verbatim>\<open>lock\<close>. The
  overloads with a predicate are in \<^verbatim>\<open>Condition_Predicate\<close>, and \<^verbatim>\<open>wait\<close> statement by statement
  against other threads is in \<^verbatim>\<open>Condition_Steps\<close>.
\<close>

record condition =
  cv_splk :: lock_state
  cv_waiting :: "fiber_base list"

definition condition_init :: condition where
  "condition_init = \<lparr>cv_splk = spinlock_init, cv_waiting = []\<rparr>"

definition condition_dtor :: "condition \<Rightarrow> unit option" where
  "condition_dtor cv = assert_that (cv_waiting cv = [])"

section \<open>Notifying\<close>

definition condition_notify_one :: "condition \<Rightarrow> world \<Rightarrow> (condition \<times> world) option" where
  "condition_notify_one cv w = do {
     l \<leftarrow> spin_lock (cv_splk cv);
     let (n, rest) = (case cv_waiting cv of [] \<Rightarrow> (None, []) | x # xs \<Rightarrow> (Some x, xs));
     l' \<leftarrow> spin_unlock l;
     w' \<leftarrow> notify_waiter n w;
     Some (cv\<lparr>cv_waiting := rest, cv_splk := l'\<rparr>, w') }"

fun fb_set_ready_all :: "fiber_base list \<Rightarrow> world \<Rightarrow> world option" where
  "fb_set_ready_all [] w = Some w"
| "fb_set_ready_all (n # ns) w = do { w' \<leftarrow> fb_set_ready n w; fb_set_ready_all ns w' }"

definition condition_notify_all :: "condition \<Rightarrow> world \<Rightarrow> (condition \<times> world) option" where
  "condition_notify_all cv w = do {
     l \<leftarrow> spin_lock (cv_splk cv);
     let waiting = cv_waiting cv;
     l' \<leftarrow> spin_unlock l;
     w' \<leftarrow> fb_set_ready_all waiting w;
     Some (cv\<lparr>cv_waiting := [], cv_splk := l'\<rparr>, w') }"

section \<open>Waiting\<close>

text \<open>
  A fiber in \<^verbatim>\<open>wait\<close>, up to its suspension. The external lock is released while the spin lock
  of the condition is held.
\<close>

definition condition_wait_enter ::
  "('l \<Rightarrow> world \<Rightarrow> ('l \<times> world) option) \<Rightarrow> 'l \<Rightarrow> world \<Rightarrow> 's fiber_manager \<Rightarrow> condition \<Rightarrow>
   ('l \<times> condition \<times> world \<times> 's fiber_manager) option" where
  "condition_wait_enter lt_unlock lt w m cv = do {
     a \<leftarrow> fm_active m;
     l \<leftarrow> spin_lock (cv_splk cv);
     assert_that (Worker a \<notin> set (cv_waiting cv));
     let cv1 = cv\<lparr>cv_waiting := cv_waiting cv @ [Worker a]\<rparr>;
     (lt', w1) \<leftarrow> lt_unlock lt w;
     (l', w2, m2) \<leftarrow> fm_wait_enter l w1 m;
     Some (lt', cv1\<lparr>cv_splk := l'\<rparr>, w2, m2) }"

text \<open>The handler of every exception: take the caller off the list and rethrow.\<close>

definition condition_forget :: "fiber_base \<Rightarrow> condition \<Rightarrow> condition option" where
  "condition_forget n cv = do {
     l \<leftarrow> spin_lock (cv_splk cv);
     rest \<leftarrow> erase_found n (cv_waiting cv);
     l' \<leftarrow> spin_unlock l;
     Some (cv\<lparr>cv_waiting := rest, cv_splk := l'\<rparr>) }"

definition condition_wait_resumed ::
  "world \<Rightarrow> 's fiber_manager \<Rightarrow> condition \<Rightarrow> (unit result \<times> condition \<times> world) option" where
  "condition_wait_resumed w m cv = do {
     a \<leftarrow> fm_active m;
     (r, w1) \<leftarrow> interruption_point w m;
     case r of
       Inr u \<Rightarrow> Some (Inr (), cv, w1)
     | Inl e \<Rightarrow> do { cv' \<leftarrow> condition_forget (Worker a) cv; Some (Inl e, cv', w1) } }"

text \<open>The main context registers an object of its own and turns the scheduler until it is ready.\<close>

definition condition_wait_main_enter ::
  "('l \<Rightarrow> world \<Rightarrow> ('l \<times> world) option) \<Rightarrow> 'l \<Rightarrow> mfid \<Rightarrow> world \<Rightarrow> condition \<Rightarrow>
   ('l \<times> condition \<times> world) option" where
  "condition_wait_main_enter lt_unlock lt k w cv = do {
     let w0 = main_fiber_init k w;
     l \<leftarrow> spin_lock (cv_splk cv);
     assert_that (Main k \<notin> set (cv_waiting cv));
     let cv1 = cv\<lparr>cv_waiting := cv_waiting cv @ [Main k]\<rparr>;
     (lt', w1) \<leftarrow> lt_unlock lt w0;
     l' \<leftarrow> spin_unlock l;
     Some (lt', cv1\<lparr>cv_splk := l'\<rparr>, w1) }"

section \<open>Waiting with a deadline\<close>

datatype cv_status = no_timeout | timeout

definition condition_wait_until_enter ::
  "('l \<Rightarrow> world \<Rightarrow> ('l \<times> world) option) \<Rightarrow> 'l \<Rightarrow> time_point \<Rightarrow> world \<Rightarrow> 's fiber_manager \<Rightarrow> condition \<Rightarrow>
   ('l \<times> condition \<times> world \<times> 's fiber_manager) option" where
  "condition_wait_until_enter lt_unlock lt t w m cv = do {
     a \<leftarrow> fm_active m;
     l \<leftarrow> spin_lock (cv_splk cv);
     let cv1 = cv\<lparr>cv_waiting := cv_waiting cv @ [Worker a]\<rparr>;
     (lt', w1) \<leftarrow> lt_unlock lt w;
     (l', w2, m2) \<leftarrow> fm_wait_until_enter t l w1 m;
     Some (lt', cv1\<lparr>cv_splk := l'\<rparr>, w2, m2) }"

definition condition_wait_until_resumed ::
  "time_point \<Rightarrow> time_point \<Rightarrow> world \<Rightarrow> 's fiber_manager \<Rightarrow> condition \<Rightarrow>
   (cv_status result \<times> condition \<times> world) option" where
  "condition_wait_until_resumed now t w m cv = do {
     a \<leftarrow> fm_active m;
     (status, cv1) \<leftarrow> (if \<not> fm_wait_until_leave now t then do {
                          cv' \<leftarrow> condition_forget (Worker a) cv;
                          Some (timeout, cv') }
                        else Some (no_timeout, cv));
     (r, w1) \<leftarrow> interruption_point w m;
     case r of
       Inr u \<Rightarrow> Some (Inr status, cv1, w1)
     | Inl e \<Rightarrow> do { cv' \<leftarrow> condition_forget (Worker a) cv1; Some (Inl e, cv', w1) } }"

definition condition_wait_until_main_enter ::
  "('l \<Rightarrow> world \<Rightarrow> ('l \<times> world) option) \<Rightarrow> 'l \<Rightarrow> mfid \<Rightarrow> world \<Rightarrow> condition \<Rightarrow>
   ('l \<times> condition \<times> world) option" where
  "condition_wait_until_main_enter lt_unlock lt k w cv = do {
     let w0 = main_fiber_init k w;
     l \<leftarrow> spin_lock (cv_splk cv);
     let cv1 = cv\<lparr>cv_waiting := cv_waiting cv @ [Main k]\<rparr>;
     (lt', w1) \<leftarrow> lt_unlock lt w0;
     l' \<leftarrow> spin_unlock l;
     Some (lt', cv1\<lparr>cv_splk := l'\<rparr>, w1) }"

text \<open>One turn of the main context's loop; \<open>Inl\<close> when it leaves it.\<close>

definition condition_wait_until_main_poll ::
  "'s sched_algorithm \<Rightarrow> time_point \<Rightarrow> time_point \<Rightarrow> time_point \<Rightarrow> time_point \<Rightarrow> mfid \<Rightarrow>
   world \<Rightarrow> 's fiber_manager \<Rightarrow> condition \<Rightarrow>
   ((cv_status \<times> condition) + (control \<times> world \<times> 's fiber_manager)) option" where
  "condition_wait_until_main_poll A now now1 now2 t k w m cv =
     (if main_is_ready k w then Some (Inl (no_timeout, cv))
      else if \<not> now < t then do { cv' \<leftarrow> condition_forget (Main k) cv; Some (Inl (timeout, cv')) }
      else do { r \<leftarrow> fm_run A now1 now2 w m; Some (Inr r) })"

definition condition_wait_for_enter ::
  "('l \<Rightarrow> world \<Rightarrow> ('l \<times> world) option) \<Rightarrow> 'l \<Rightarrow> time_point \<Rightarrow> duration \<Rightarrow> world \<Rightarrow> 's fiber_manager \<Rightarrow> condition \<Rightarrow>
   ('l \<times> condition \<times> world \<times> 's fiber_manager) option" where
  "condition_wait_for_enter lt_unlock lt now d w m cv = condition_wait_until_enter lt_unlock lt (now + d) w m cv"

section \<open>Properties of condition variables\<close>

lemma fb_set_ready_all_workers: "fb_set_ready_all (map Worker fs) = set_ready_all fs"
  by (induction fs) (auto simp: fb_set_ready_def)

lemma cv_splk_same: "cv_splk cv = UNLOCKED \<Longrightarrow> cv\<lparr>cv_waiting := xs, cv_splk := UNLOCKED\<rparr> = cv\<lparr>cv_waiting := xs\<rparr>"
  by (cases cv) simp

lemma condition_wait_enter_ok:
  assumes "cv_splk cv = UNLOCKED" and "Worker a \<notin> set (cv_waiting cv)" and "fm_active m = Some a"
    and "lt_unlock lt w = Some (lt', w1)" and "fm_queues fifo_rep w1 m ws rs" and "fm_running w1 m a"
  shows "\<exists>w'. condition_wait_enter lt_unlock lt w m cv =
       Some (lt', cv\<lparr>cv_waiting := cv_waiting cv @ [Worker a]\<rparr>, w', m) \<and>
     fm_queues fifo_rep w' m (ws @ [a]) rs \<and> is_waiting (w_heap w') a"
proof -
  from rr.wait_enter_ok [OF assms(5,6)] obtain w' where w:
    "fm_wait_enter LOCKED w1 m = Some (UNLOCKED, w', m)" "fm_queues fifo_rep w' m (ws @ [a]) rs"
    "is_waiting (w_heap w') a" by blast
  with assms(1-4) show ?thesis by (simp add: condition_wait_enter_def cv_splk_same)
qed

lemma condition_notify_one_ok:
  assumes "cv_splk cv = UNLOCKED" and "cv_waiting cv = Worker f # ns"
    and "fm_queues fifo_rep w m ws rs" and "f \<in> set ws"
  shows "\<exists>w'. condition_notify_one cv w = Some (cv\<lparr>cv_waiting := ns\<rparr>, w') \<and>
     fm_queues fifo_rep w' m (f # remove1 f ws) rs \<and> is_ready (w_heap w') f \<and>
     (\<forall>g. g \<noteq> f \<longrightarrow> wf_state (w_heap w' g) = wf_state (w_heap w g))"
proof -
  from rr.set_ready_queues [OF assms(3,4)] obtain w' where w: "set_ready f w = Some w'"
    "fm_queues fifo_rep w' m (f # remove1 f ws) rs"
    "links_frame (set ws) (ready_all {f} (w_heap w)) (w_heap w')" by blast
  with assms(1,2) links_frame_fields(5) [OF w(3)] show ?thesis
    by (auto simp: condition_notify_one_def notify_waiter_def fb_set_ready_def cv_splk_same is_ready_def
        ready_all_def)
qed

lemma condition_notify_all_ok:
  assumes "cv_splk cv = UNLOCKED" and "cv_waiting cv = map Worker fs"
    and "fm_queues fifo_rep w m ws rs" and "set fs \<subseteq> set ws \<union> set rs"
  shows "\<exists>w' ws'. condition_notify_all cv w = Some (cv\<lparr>cv_waiting := []\<rparr>, w') \<and>
     fm_queues fifo_rep w' m ws' rs \<and> set ws' = set ws \<and>
     (\<forall>g. wf_state (w_heap w' g) = (if g \<in> set fs then READY else wf_state (w_heap w g)))"
proof -
  from rr.set_ready_all_ok [OF assms(3,4)] obtain w' ws' where w: "set_ready_all fs w = Some w'"
    "fm_queues fifo_rep w' m ws' rs" "set ws' = set ws"
    "links_frame (set ws) (ready_all (set fs) (w_heap w)) (w_heap w')" by blast
  with assms(1,2) links_frame_fields(5) [OF w(4)] show ?thesis
    by (auto simp: condition_notify_all_def fb_set_ready_all_workers cv_splk_same ready_all_def)
qed

text \<open>
  \<^verbatim>\<open>notify_all\<close> empties the list and makes exactly the fibers that were on it ready; every
  fiber stays in the queue of the scheduler it was in.
\<close>

theorem condition_notify_all_wakes_all:
  assumes "cv_splk cv = UNLOCKED" and "cv_waiting cv = map Worker fs"
    and "fm_queues fifo_rep w m ws rs" and "set fs \<subseteq> set ws \<union> set rs"
  shows "\<exists>w' ws'. condition_notify_all cv w = Some (cv\<lparr>cv_waiting := []\<rparr>, w') \<and>
     fm_queues fifo_rep w' m ws' rs \<and> set ws' = set ws \<and>
     (\<forall>g. wf_state (w_heap w' g) = (if g \<in> set fs then READY else wf_state (w_heap w g)))"
  by (rule condition_notify_all_ok [OF assms])

theorem condition_notify_all_wakes_all_witness:
  "\<exists>w'. condition_notify_all \<lparr>cv_splk = UNLOCKED, cv_waiting = [Worker 2]\<rparr> (sy_world demo_sys4) =
     Some (condition_init, w') \<and> is_ready (w_heap w') 2 \<and>
     wf_state (w_heap w' 1) = wf_state (w_heap (sy_world demo_sys4) 1)"
  using condition_notify_all_wakes_all [of "\<lparr>cv_splk = UNLOCKED, cv_waiting = [Worker 2]\<rparr>" "[2]", OF _ _
      demo_sys4_queues(1)]
  by (auto simp: condition_init_def spinlock_init_def is_ready_def)

text \<open>
  A fiber that has been notified and is then interrupted (or whose deadline has passed by the
  time it runs) is not on the list any more, and the handler in \<^verbatim>\<open>wait\<close> and \<^verbatim>\<open>wait_until\<close>
  erases at the end of the list: the behaviour is undefined. It is defined if the fiber had not been
  notified.
\<close>

theorem condition_notified_then_interrupted:
  assumes "cv_splk cv = UNLOCKED" and "distinct (cv_waiting cv)" and "cv_waiting cv = Worker a # ns"
    and "fm_active m = Some a" and "interruption_requested (w_heap w a)" and "\<not> interruption_blocked (w_heap w a)"
  shows "(\<exists>w'. condition_wait_resumed w m cv = Some (Inl fiber_interrupted, cv\<lparr>cv_waiting := ns\<rparr>, w')) \<and>
     (\<forall>w0 cv1 w1. condition_notify_one cv w0 = Some (cv1, w1) \<longrightarrow> condition_wait_resumed w m cv1 = None)"
proof -
  obtain w' where ip: "interruption_point w m = Some (Inl fiber_interrupted, w')"
    using interruption_point_interrupts [OF assms(4-6)] by blast
  have "condition_forget (Worker a) cv = Some (cv\<lparr>cv_waiting := ns\<rparr>)"
    using assms(1,3) by (simp add: condition_forget_def erase_found_def cv_splk_same)
  with ip assms(4) have "condition_wait_resumed w m cv = Some (Inl fiber_interrupted, cv\<lparr>cv_waiting := ns\<rparr>, w')"
    by (simp add: condition_wait_resumed_def)
  moreover have "condition_wait_resumed w m cv1 = None" if "condition_notify_one cv w0 = Some (cv1, w1)" for w0 cv1 w1
  proof -
    have "cv1 = cv\<lparr>cv_waiting := ns\<rparr>"
      using that assms(1,3) by (auto simp: condition_notify_one_def cv_splk_same split: bind_splits)
    then have "condition_forget (Worker a) cv1 = None"
      using assms(1-3) by (simp add: condition_forget_def erase_found_def)
    with ip assms(4) show ?thesis by (simp add: condition_wait_resumed_def)
  qed
  ultimately show ?thesis by blast
qed

theorem condition_notified_then_interrupted_witness:
  "condition_wait_resumed (the (request_interruption True 1 (sy_world demo_sys2))) (sy_mgr demo_sys2) condition_init = None"
proof -
  let ?cv = "\<lparr>cv_splk = UNLOCKED, cv_waiting = [Worker 1]\<rparr>"
  let ?w = "the (request_interruption True 1 (sy_world demo_sys2))"
  have "map_option fst (condition_notify_one ?cv (sy_world demo_sys2)) = Some condition_init" by code_simp
  then have "\<exists>w1. condition_notify_one ?cv (sy_world demo_sys2) = Some (condition_init, w1)" by auto
  moreover have "fm_active (sy_mgr demo_sys2) = Some 1" "interruption_requested (w_heap ?w 1)"
    "\<not> interruption_blocked (w_heap ?w 1)" by code_simp+
  ultimately show ?thesis
    using condition_notified_then_interrupted [of ?cv 1 "[]" "sy_mgr demo_sys2" ?w] by auto
qed

end
