(* ===== verification/Recursive_Mutex.thy ===== *)
theory Recursive_Mutex
  imports Mutex
begin

text \<open>
  The classes \<^verbatim>\<open>recursive_mutex\<close> and \<^verbatim>\<open>recursive_timed_mutex\<close> (\<^verbatim>\<open>recursive_mutex.hpp\<close>,
  \<^verbatim>\<open>src/recursive_mutex.cpp\<close>, \<^verbatim>\<open>recursive_timed_mutex.hpp\<close>,
  \<^verbatim>\<open>src/recursive_timed_mutex.cpp\<close>): the holder may lock again, and \<^verbatim>\<open>count_\<close>, a
  \<^verbatim>\<open>std::size_t\<close>, counts how often it has.
\<close>

record recursive_mutex =
  rmx_splk :: lock_state
  rmx_state :: lock_state
  rmx_owner :: fiber_id
  rmx_count :: size_t
  rmx_waiting :: "fiber_base list"

definition recursive_mutex_init :: recursive_mutex where
  "recursive_mutex_init =
     \<lparr>rmx_splk = spinlock_init, rmx_state = UNLOCKED, rmx_owner = no_id, rmx_count = 0, rmx_waiting = []\<rparr>"

definition recursive_mutex_dtor :: "recursive_mutex \<Rightarrow> unit option" where
  "recursive_mutex_dtor mx = do {
     assert_that (\<not> id_valid (rmx_owner mx));
     assert_that (rmx_count mx = 0);
     assert_that (rmx_waiting mx = []) }"

section \<open>The recursive mutex\<close>

definition recursive_mutex_lock_section ::
  "fiber_base \<Rightarrow> fiber_id \<Rightarrow> recursive_mutex \<Rightarrow> (bool \<times> recursive_mutex) option" where
  "recursive_mutex_lock_section n i mx = do {
     l \<leftarrow> spin_lock (rmx_splk mx);
     if rmx_state mx = UNLOCKED then do {
       assert_that (\<not> id_valid (rmx_owner mx));
       l' \<leftarrow> spin_unlock l;
       Some (True, mx\<lparr>rmx_state := LOCKED, rmx_owner := i, rmx_count := rmx_count mx + 1, rmx_splk := l'\<rparr>) }
     else if i = rmx_owner mx then do {
       l' \<leftarrow> spin_unlock l;
       Some (True, mx\<lparr>rmx_count := rmx_count mx + 1, rmx_splk := l'\<rparr>) }
     else do {
       assert_that (n \<notin> set (rmx_waiting mx));
       Some (False, mx\<lparr>rmx_waiting := rmx_waiting mx @ [n], rmx_splk := l\<rparr>) } }"

definition recursive_mutex_lock_fiber ::
  "world \<Rightarrow> 's fiber_manager \<Rightarrow> recursive_mutex \<Rightarrow> (bool \<times> recursive_mutex \<times> world \<times> 's fiber_manager) option" where
  "recursive_mutex_lock_fiber w m mx = do {
     a \<leftarrow> fm_active m;
     (got, mx1) \<leftarrow> recursive_mutex_lock_section (Worker a) (this_get_id m) mx;
     if got then Some (True, mx1, w, m)
     else do {
       (l, w', m') \<leftarrow> fm_wait_enter (rmx_splk mx1) w m;
       Some (False, mx1\<lparr>rmx_splk := l\<rparr>, w', m') } }"

definition recursive_mutex_lock_release ::
  "fiber_base \<Rightarrow> fiber_id \<Rightarrow> recursive_mutex \<Rightarrow> (bool \<times> recursive_mutex) option" where
  "recursive_mutex_lock_release n i mx = do {
     (got, mx1) \<leftarrow> recursive_mutex_lock_section n i mx;
     if got then Some (True, mx1)
     else do {
       l \<leftarrow> spin_unlock (rmx_splk mx1);
       Some (False, mx1\<lparr>rmx_splk := l\<rparr>) } }"

definition recursive_mutex_try_section :: "fiber_id \<Rightarrow> recursive_mutex \<Rightarrow> (bool \<times> recursive_mutex) option" where
  "recursive_mutex_try_section i mx = do {
     l \<leftarrow> spin_lock (rmx_splk mx);
     if rmx_state mx = UNLOCKED then do {
       assert_that (\<not> id_valid (rmx_owner mx));
       l' \<leftarrow> spin_unlock l;
       Some (True, mx\<lparr>rmx_state := LOCKED, rmx_owner := i, rmx_count := rmx_count mx + 1, rmx_splk := l'\<rparr>) }
     else if i = rmx_owner mx then do {
       l' \<leftarrow> spin_unlock l;
       Some (True, mx\<lparr>rmx_count := rmx_count mx + 1, rmx_splk := l'\<rparr>) }
     else do {
       l' \<leftarrow> spin_unlock l;
       Some (False, mx\<lparr>rmx_splk := l'\<rparr>) } }"

definition recursive_mutex_unlock_section ::
  "fiber_id \<Rightarrow> recursive_mutex \<Rightarrow> (fiber_base option \<times> recursive_mutex) option" where
  "recursive_mutex_unlock_section i mx = do {
     assert_that (rmx_state mx = LOCKED);
     assert_that (i = rmx_owner mx);
     l \<leftarrow> spin_lock (rmx_splk mx);
     let mx1 = mx\<lparr>rmx_count := rmx_count mx - 1\<rparr>;
     if rmx_count mx1 = 0 then do {
       let (n, rest) = (case rmx_waiting mx1 of [] \<Rightarrow> (None, []) | x # xs \<Rightarrow> (Some x, xs));
       l' \<leftarrow> spin_unlock l;
       Some (n, mx1\<lparr>rmx_waiting := rest, rmx_owner := no_id, rmx_state := UNLOCKED, rmx_splk := l'\<rparr>) }
     else do {
       l' \<leftarrow> spin_unlock l;
       Some (None, mx1\<lparr>rmx_splk := l'\<rparr>) } }"

definition recursive_mutex_unlock ::
  "world \<Rightarrow> 's fiber_manager \<Rightarrow> recursive_mutex \<Rightarrow> (recursive_mutex \<times> world) option" where
  "recursive_mutex_unlock w m mx = do {
     (n, mx') \<leftarrow> recursive_mutex_unlock_section (this_get_id m) mx;
     w' \<leftarrow> notify_waiter n w;
     Some (mx', w') }"

definition recursive_mutex_lock_main :: "mfid \<Rightarrow> 's fiber_manager \<Rightarrow> recursive_mutex \<Rightarrow> (bool \<times> recursive_mutex) option" where
  "recursive_mutex_lock_main k m mx = recursive_mutex_lock_release (Main k) (this_get_id m) mx"

definition recursive_mutex_try_lock ::
  "'s sched_algorithm \<Rightarrow> time_point \<Rightarrow> time_point \<Rightarrow> world \<Rightarrow> 's fiber_manager \<Rightarrow> recursive_mutex \<Rightarrow>
   (bool \<times> control option \<times> recursive_mutex \<times> world \<times> 's fiber_manager) option" where
  "recursive_mutex_try_lock A now now' w m mx = do {
     (got, mx1) \<leftarrow> recursive_mutex_try_section (this_get_id m) mx;
     if got then Some (True, None, mx1, w, m)
     else do {
       (c, w', m') \<leftarrow> this_yield A now now' w m;
       Some (False, Some c, mx1, w', m') } }"

section \<open>The recursive timed mutex\<close>

type_synonym recursive_timed_mutex = recursive_mutex

definition recursive_timed_mutex_lock_section ::
  "fiber_base \<Rightarrow> fiber_id \<Rightarrow> recursive_timed_mutex \<Rightarrow> (bool \<times> recursive_timed_mutex) option" where
  "recursive_timed_mutex_lock_section n i mx = do {
     l \<leftarrow> spin_lock (rmx_splk mx);
     if rmx_state mx = UNLOCKED then do {
       assert_that (\<not> id_valid (rmx_owner mx));
       l' \<leftarrow> spin_unlock l;
       Some (True, mx\<lparr>rmx_state := LOCKED, rmx_owner := i, rmx_count := rmx_count mx + 1, rmx_splk := l'\<rparr>) }
     else if i = rmx_owner mx then do {
       l' \<leftarrow> spin_unlock l;
       Some (True, mx\<lparr>rmx_count := rmx_count mx + 1, rmx_splk := l'\<rparr>) }
     else do {
       assert_that (n \<notin> set (rmx_waiting mx));
       Some (False, mx\<lparr>rmx_waiting := rmx_waiting mx @ [n], rmx_splk := l\<rparr>) } }"

definition recursive_timed_mutex_lock_fiber ::
  "world \<Rightarrow> 's fiber_manager \<Rightarrow> recursive_timed_mutex \<Rightarrow> (bool \<times> recursive_timed_mutex \<times> world \<times> 's fiber_manager) option" where
  "recursive_timed_mutex_lock_fiber w m mx = do {
     a \<leftarrow> fm_active m;
     (got, mx1) \<leftarrow> recursive_timed_mutex_lock_section (Worker a) (this_get_id m) mx;
     if got then Some (True, mx1, w, m)
     else do {
       (l, w', m') \<leftarrow> fm_wait_enter (rmx_splk mx1) w m;
       Some (False, mx1\<lparr>rmx_splk := l\<rparr>, w', m') } }"

definition recursive_timed_mutex_lock_release ::
  "fiber_base \<Rightarrow> fiber_id \<Rightarrow> recursive_timed_mutex \<Rightarrow> (bool \<times> recursive_timed_mutex) option" where
  "recursive_timed_mutex_lock_release n i mx = do {
     (got, mx1) \<leftarrow> recursive_timed_mutex_lock_section n i mx;
     if got then Some (True, mx1)
     else do {
       l \<leftarrow> spin_unlock (rmx_splk mx1);
       Some (False, mx1\<lparr>rmx_splk := l\<rparr>) } }"

definition recursive_timed_mutex_try_section :: "fiber_id \<Rightarrow> recursive_timed_mutex \<Rightarrow> (bool \<times> recursive_timed_mutex) option" where
  "recursive_timed_mutex_try_section i mx = do {
     l \<leftarrow> spin_lock (rmx_splk mx);
     if rmx_state mx = UNLOCKED then do {
       assert_that (\<not> id_valid (rmx_owner mx));
       l' \<leftarrow> spin_unlock l;
       Some (True, mx\<lparr>rmx_state := LOCKED, rmx_owner := i, rmx_count := rmx_count mx + 1, rmx_splk := l'\<rparr>) }
     else if i = rmx_owner mx then do {
       l' \<leftarrow> spin_unlock l;
       Some (True, mx\<lparr>rmx_count := rmx_count mx + 1, rmx_splk := l'\<rparr>) }
     else do {
       l' \<leftarrow> spin_unlock l;
       Some (False, mx\<lparr>rmx_splk := l'\<rparr>) } }"

definition recursive_timed_mutex_unlock_section ::
  "fiber_id \<Rightarrow> recursive_timed_mutex \<Rightarrow> (fiber_base option \<times> recursive_timed_mutex) option" where
  "recursive_timed_mutex_unlock_section i mx = do {
     assert_that (rmx_state mx = LOCKED);
     assert_that (i = rmx_owner mx);
     l \<leftarrow> spin_lock (rmx_splk mx);
     let mx1 = mx\<lparr>rmx_count := rmx_count mx - 1\<rparr>;
     if rmx_count mx1 = 0 then do {
       let (n, rest) = (case rmx_waiting mx1 of [] \<Rightarrow> (None, []) | x # xs \<Rightarrow> (Some x, xs));
       l' \<leftarrow> spin_unlock l;
       Some (n, mx1\<lparr>rmx_waiting := rest, rmx_owner := no_id, rmx_state := UNLOCKED, rmx_splk := l'\<rparr>) }
     else do {
       l' \<leftarrow> spin_unlock l;
       Some (None, mx1\<lparr>rmx_splk := l'\<rparr>) } }"

definition recursive_timed_mutex_unlock ::
  "world \<Rightarrow> 's fiber_manager \<Rightarrow> recursive_timed_mutex \<Rightarrow> (recursive_timed_mutex \<times> world) option" where
  "recursive_timed_mutex_unlock w m mx = do {
     (n, mx') \<leftarrow> recursive_timed_mutex_unlock_section (this_get_id m) mx;
     w' \<leftarrow> notify_waiter n w;
     Some (mx', w') }"

definition recursive_timed_mutex_lock_main :: "mfid \<Rightarrow> 's fiber_manager \<Rightarrow> recursive_timed_mutex \<Rightarrow> (bool \<times> recursive_timed_mutex) option" where
  "recursive_timed_mutex_lock_main k m mx = recursive_timed_mutex_lock_release (Main k) (this_get_id m) mx"

definition recursive_timed_mutex_try_lock ::
  "'s sched_algorithm \<Rightarrow> time_point \<Rightarrow> time_point \<Rightarrow> world \<Rightarrow> 's fiber_manager \<Rightarrow> recursive_timed_mutex \<Rightarrow>
   (bool \<times> control option \<times> recursive_timed_mutex \<times> world \<times> 's fiber_manager) option" where
  "recursive_timed_mutex_try_lock A now now' w m mx = do {
     (got, mx1) \<leftarrow> recursive_timed_mutex_try_section (this_get_id m) mx;
     if got then Some (True, None, mx1, w, m)
     else do {
       (c, w', m') \<leftarrow> this_yield A now now' w m;
       Some (False, Some c, mx1, w', m') } }"

definition recursive_timed_mutex_try_until_section ::
  "time_point \<Rightarrow> time_point \<Rightarrow> fiber_base \<Rightarrow> fiber_id \<Rightarrow> recursive_timed_mutex \<Rightarrow>
   (try_outcome \<times> recursive_timed_mutex) option" where
  "recursive_timed_mutex_try_until_section now t n i mx = do {
     l \<leftarrow> spin_lock (rmx_splk mx);
     if t < now then do { l' \<leftarrow> spin_unlock l; Some (Timed_out, mx\<lparr>rmx_splk := l'\<rparr>) }
     else if rmx_state mx = UNLOCKED then do {
       assert_that (\<not> id_valid (rmx_owner mx));
       l' \<leftarrow> spin_unlock l;
       Some (Got_lock, mx\<lparr>rmx_state := LOCKED, rmx_owner := i, rmx_count := rmx_count mx + 1, rmx_splk := l'\<rparr>) }
     else if i = rmx_owner mx then do {
       l' \<leftarrow> spin_unlock l;
       Some (Got_lock, mx\<lparr>rmx_count := rmx_count mx + 1, rmx_splk := l'\<rparr>) }
     else do {
       assert_that (n \<notin> set (rmx_waiting mx));
       Some (Has_to_wait, mx\<lparr>rmx_waiting := rmx_waiting mx @ [n], rmx_splk := l\<rparr>) } }"

definition recursive_timed_mutex_try_until_fiber ::
  "time_point \<Rightarrow> time_point \<Rightarrow> world \<Rightarrow> 's fiber_manager \<Rightarrow> recursive_timed_mutex \<Rightarrow>
   (try_outcome \<times> recursive_timed_mutex \<times> world \<times> 's fiber_manager) option" where
  "recursive_timed_mutex_try_until_fiber now t w m mx = do {
     a \<leftarrow> fm_active m;
     (oc, mx1) \<leftarrow> recursive_timed_mutex_try_until_section now t (Worker a) (this_get_id m) mx;
     if oc = Has_to_wait then do {
       (l, w', m') \<leftarrow> fm_wait_until_enter t (rmx_splk mx1) w m;
       Some (oc, mx1\<lparr>rmx_splk := l\<rparr>, w', m') }
     else Some (oc, mx1, w, m) }"

definition recursive_timed_mutex_give_up :: "fiber_base \<Rightarrow> recursive_timed_mutex \<Rightarrow> recursive_timed_mutex option" where
  "recursive_timed_mutex_give_up n mx = do {
     l \<leftarrow> spin_lock (rmx_splk mx);
     rest \<leftarrow> erase_found n (rmx_waiting mx);
     l' \<leftarrow> spin_unlock l;
     Some (mx\<lparr>rmx_waiting := rest, rmx_splk := l'\<rparr>) }"

definition recursive_timed_mutex_try_until_resumed ::
  "time_point \<Rightarrow> time_point \<Rightarrow> fid \<Rightarrow> recursive_timed_mutex \<Rightarrow> (bool \<times> recursive_timed_mutex) option" where
  "recursive_timed_mutex_try_until_resumed now t a mx =
     (if \<not> fm_wait_until_leave now t then do {
        mx' \<leftarrow> recursive_timed_mutex_give_up (Worker a) mx;
        Some (False, mx') }
      else Some (True, mx))"

definition recursive_timed_mutex_try_until_main ::
  "time_point \<Rightarrow> time_point \<Rightarrow> mfid \<Rightarrow> 's fiber_manager \<Rightarrow> recursive_timed_mutex \<Rightarrow>
   (try_outcome \<times> recursive_timed_mutex) option" where
  "recursive_timed_mutex_try_until_main now t k m mx = do {
     (oc, mx1) \<leftarrow> recursive_timed_mutex_try_until_section now t (Main k) (this_get_id m) mx;
     if oc = Has_to_wait then do {
       l \<leftarrow> spin_unlock (rmx_splk mx1);
       Some (oc, mx1\<lparr>rmx_splk := l\<rparr>) }
     else Some (oc, mx1) }"

definition recursive_timed_mutex_try_until_poll ::
  "'s sched_algorithm \<Rightarrow> time_point \<Rightarrow> time_point \<Rightarrow> time_point \<Rightarrow> time_point \<Rightarrow> mfid \<Rightarrow>
   world \<Rightarrow> 's fiber_manager \<Rightarrow> recursive_timed_mutex \<Rightarrow>
   (recursive_timed_mutex + (control option \<times> world \<times> 's fiber_manager)) option" where
  "recursive_timed_mutex_try_until_poll A now now1 now2 t k w m mx =
     (if main_is_ready k w then Some (Inr (None, w, m))
      else if t < now then do { mx' \<leftarrow> recursive_timed_mutex_give_up (Main k) mx; Some (Inl mx') }
      else do { (c, w', m') \<leftarrow> fm_run A now1 now2 w m; Some (Inr (Some c, w', m')) })"

definition recursive_timed_mutex_try_for_fiber ::
  "time_point \<Rightarrow> time_point \<Rightarrow> duration \<Rightarrow> world \<Rightarrow> 's fiber_manager \<Rightarrow> recursive_timed_mutex \<Rightarrow>
   (try_outcome \<times> recursive_timed_mutex \<times> world \<times> 's fiber_manager) option" where
  "recursive_timed_mutex_try_for_fiber now now1 d w m mx = recursive_timed_mutex_try_until_fiber now1 (now + d) w m mx"

section \<open>Both keep the contract\<close>

definition rmx_inv :: "recursive_mutex \<Rightarrow> bool" where
  "rmx_inv mx \<longleftrightarrow>
     rmx_splk mx = UNLOCKED \<and> (rmx_state mx = UNLOCKED \<longleftrightarrow> rmx_count mx = 0) \<and>
     (rmx_state mx = UNLOCKED \<longrightarrow> rmx_owner mx = no_id)"

definition rmx_depth :: "recursive_mutex \<Rightarrow> nat" where
  "rmx_depth mx = unat (rmx_count mx)"

definition rmx_bound :: nat where
  "rmx_bound = 2 ^ 64 - 1"

lemmas rmx_section_defs =
  recursive_mutex_lock_section_def recursive_mutex_lock_release_def recursive_mutex_try_section_def
  recursive_mutex_unlock_section_def rmx_inv_def

lemma rmx_count_inc:
  fixes c :: size_t
  assumes "unat c < rmx_bound"
  shows "unat (c + 1) = unat c + 1" and "c + 1 \<noteq> 0"
proof -
  show "unat (c + 1) = unat c + 1"
    using assms by (simp add: rmx_bound_def unat_plus_if')
  then show "c + 1 \<noteq> 0" by (metis Suc_eq_plus1 nat.distinct(1) unat_0)
qed

lemma rmx_count_dec:
  fixes c :: size_t
  assumes "c \<noteq> 0"
  shows "unat (c - 1) = unat c - 1" and "c - 1 = 0 \<longleftrightarrow> unat c = 1"
  using assms by (simp_all add: unat_minus_one) (simp add: word_unat_eq_iff)

lemma rmx_depth_simps:
  assumes "rmx_inv mx"
  shows "rmx_depth mx = 0 \<longleftrightarrow> rmx_state mx = UNLOCKED" "0 < rmx_depth mx \<longleftrightarrow> rmx_state mx = LOCKED"
  using assms by (auto simp: rmx_depth_def rmx_inv_def unat_gt_0 lock_state_cases unat_eq_zero)

lemma rmx_lock_acquires:
  assumes "rmx_inv mx" and "rmx_state mx = UNLOCKED \<or> i = rmx_owner mx" and "rmx_depth mx < rmx_bound"
  defines "mx' \<equiv> mx\<lparr>rmx_state := LOCKED, rmx_owner := i, rmx_count := rmx_count mx + 1\<rparr>"
  shows "recursive_mutex_lock_release n i mx = Some (True, mx')" and "recursive_mutex_try_section i mx = Some (True, mx')"
    and "rmx_inv mx'" and "rmx_depth mx' = rmx_depth mx + 1"
proof -
  note inc = rmx_count_inc [OF assms(3) [unfolded rmx_depth_def]]
  show "rmx_inv mx'" "rmx_depth mx' = rmx_depth mx + 1"
    using assms(1) inc by (simp_all add: mx'_def rmx_inv_def rmx_depth_def)
  have eq: "mx\<lparr>rmx_state := LOCKED, rmx_owner := i, rmx_count := rmx_count mx + 1, rmx_splk := UNLOCKED\<rparr> = mx'"
    "rmx_state mx = LOCKED \<Longrightarrow> i = rmx_owner mx \<Longrightarrow> mx\<lparr>rmx_count := rmx_count mx + 1, rmx_splk := UNLOCKED\<rparr> = mx'"
    using assms(1) by (cases mx; simp add: mx'_def rmx_inv_def)+
  show "recursive_mutex_lock_release n i mx = Some (True, mx')" "recursive_mutex_try_section i mx = Some (True, mx')"
    using assms(1,2) eq by (cases "rmx_state mx"; simp add: rmx_section_defs)+
qed

lemma rmx_lock_blocks:
  assumes "rmx_inv mx" and "rmx_state mx = LOCKED" and "i \<noteq> rmx_owner mx"
  shows "recursive_mutex_lock_release n i mx =
      (if n \<in> set (rmx_waiting mx) then None else Some (False, mx\<lparr>rmx_waiting := rmx_waiting mx @ [n]\<rparr>))"
    and "recursive_mutex_try_section i mx = Some (False, mx)"
  using assms by (cases mx; auto simp: rmx_section_defs)+

lemma rmx_unlock_conv:
  assumes "rmx_inv mx" and "rmx_state mx = LOCKED"
  shows "recursive_mutex_unlock_section (rmx_owner mx) mx =
     (if rmx_depth mx = 1
      then Some (hd_or None (rmx_waiting mx), mx\<lparr>rmx_count := 0, rmx_waiting := tl (rmx_waiting mx),
             rmx_owner := no_id, rmx_state := UNLOCKED\<rparr>)
      else Some (None, mx\<lparr>rmx_count := rmx_count mx - 1\<rparr>))"
  using assms rmx_count_dec [of "rmx_count mx"]
  by (cases mx) (auto simp: rmx_section_defs rmx_depth_def Let_def split: list.splits)

interpretation rmx: recursive_lockable recursive_mutex_lock_release recursive_mutex_try_section
  recursive_mutex_unlock_section rmx_inv rmx_depth rmx_owner rmx_waiting rmx_bound
proof (unfold_locales, goal_cases)
  case (1 m n i)
  then have "rmx_state m = UNLOCKED" "rmx_depth m < rmx_bound"
    by (simp_all add: rmx_depth_simps(1) [symmetric] rmx_bound_def)
  with 1 rmx_lock_acquires [of m i] show ?case by simp
next
  case (2 m i n)
  then have "rmx_state m = LOCKED" by (simp add: rmx_depth_simps(2) [symmetric])
  with 2 rmx_lock_blocks(1) [of m i n] show ?case by (auto simp: rmx_depth_def rmx_inv_def)
next
  case (3 m i n b m')
  then show ?case using rmx_lock_acquires(1) [of m i n] rmx_lock_acquires(3,4) [of m i] by auto
next
  case (4 m i n)
  then show ?case using rmx_lock_blocks(1) [of m i n] by (auto simp: rmx_depth_simps)
next
  case (5 m i)
  then have "rmx_state m = UNLOCKED" "rmx_depth m < rmx_bound"
    by (simp_all add: rmx_depth_simps(1) [symmetric] rmx_bound_def)
  with 5 rmx_lock_acquires [of m i] show ?case by simp
next
  case (6 m i)
  then show ?case using rmx_lock_blocks(2) [of m i] by (auto simp: rmx_depth_simps)
next
  case (7 m i b m')
  then show ?case using rmx_lock_acquires [of m i] by auto
next
  case (8 m)
  then have "rmx_state m = LOCKED" "rmx_count m \<noteq> 0" "rmx_count m - 1 \<noteq> 0"
    using rmx_count_dec(2) [of "rmx_count m"]
    by (auto simp: rmx_depth_simps(2) [symmetric] rmx_depth_def unat_gt_0)
  with 8 rmx_count_dec(1) [of "rmx_count m"] show ?case
    by (auto simp: rmx_unlock_conv rmx_inv_def rmx_depth_def)
next
  case (9 m)
  then have "rmx_state m = LOCKED" using rmx_depth_simps(2) [of m] by simp
  with 9 show ?case by (simp add: rmx_unlock_conv) (simp add: rmx_inv_def rmx_depth_def)
next
  case (10 m i)
  then show ?case by (auto simp: rmx_depth_simps recursive_mutex_unlock_section_def)
next
  case (11 m n)
  then show ?case using rmx_lock_acquires(1) [of m "rmx_owner m" n] by auto
next
  case (12 m)
  then show ?case using rmx_lock_acquires(2) [of m "rmx_owner m"] by auto
qed

lemma recursive_timed_mutex_same_sections:
  "recursive_timed_mutex_lock_section = recursive_mutex_lock_section"
  "recursive_timed_mutex_lock_release = recursive_mutex_lock_release"
  "recursive_timed_mutex_try_section = recursive_mutex_try_section"
  "recursive_timed_mutex_unlock_section = recursive_mutex_unlock_section"
proof -
  show 1: "recursive_timed_mutex_lock_section = recursive_mutex_lock_section"
    by (intro ext) (simp add: recursive_timed_mutex_lock_section_def recursive_mutex_lock_section_def)
  show "recursive_timed_mutex_lock_release = recursive_mutex_lock_release"
    by (intro ext) (simp add: recursive_timed_mutex_lock_release_def recursive_mutex_lock_release_def 1)
  show "recursive_timed_mutex_try_section = recursive_mutex_try_section"
    "recursive_timed_mutex_unlock_section = recursive_mutex_unlock_section"
    by (intro ext, simp add: recursive_timed_mutex_try_section_def recursive_mutex_try_section_def
        recursive_timed_mutex_unlock_section_def recursive_mutex_unlock_section_def)+
qed

interpretation rtmx: recursive_lockable recursive_timed_mutex_lock_release recursive_timed_mutex_try_section
  recursive_timed_mutex_unlock_section rmx_inv rmx_depth rmx_owner rmx_waiting rmx_bound
  unfolding recursive_timed_mutex_same_sections by (rule rmx.recursive_lockable_axioms)

section \<open>Properties\<close>

lemma recursive_mutex_init_inv: "rmx_inv recursive_mutex_init" "rmx_depth recursive_mutex_init = 0"
  by (simp_all add: recursive_mutex_init_def rmx_inv_def spinlock_init_def rmx_depth_def)

text \<open>
  C22: a recursive mutex excludes fibers from one another, and its locks nest. Whatever calls of
  \<^verbatim>\<open>lock\<close>, \<^verbatim>\<open>try_lock\<close> and \<^verbatim>\<open>unlock\<close> have been made on a new mutex, with the nesting kept
  below the largest \<^verbatim>\<open>std::size_t\<close>: only one identity has it locked, so two different fibers never
  hold it together, nor a fiber together with a main context; the owner and the count it stores are
  that identity and how often it has locked and not unlocked; and when everybody has unlocked as
  often as locked the mutex is free. The identity of every main context is the same, the null id:
  the main contexts of different threads do not exclude one another (\<^verbatim>\<open>recursive_mutex.cpp:89\<close>, shown
  below).
\<close>

theorem recursive_mutex_mutual_exclusion:
  assumes "lock_history recursive_mutex_lock_release recursive_mutex_try_section
     recursive_mutex_unlock_section (2 ^ 64 - 1) recursive_mutex_init mx held"
  shows "(0 < held i \<longrightarrow> 0 < held j \<longrightarrow> i = j) \<and>
     (0 < held (get_id f) \<longrightarrow> (\<forall>g. g \<noteq> f \<longrightarrow> held (get_id g) = 0) \<and> held no_id = 0) \<and>
     (0 < held i \<longrightarrow> rmx_owner mx = i \<and> unat (rmx_count mx) = held i \<and> rmx_state mx = LOCKED) \<and>
     ((\<forall>j. held j = 0) \<longrightarrow> rmx_state mx = UNLOCKED)"
proof -
  note h = assms [folded rmx_bound_def]
  have inv: "rmx_inv mx"
    using rmx.history_agrees [OF h recursive_mutex_init_inv] by (simp add: rmx.agrees_def)
  note ex = rmx.mutual_exclusion [OF h recursive_mutex_init_inv]
  have st: "rmx_state mx = UNLOCKED \<longleftrightarrow> rmx_depth mx = 0" "rmx_state mx = LOCKED \<longleftrightarrow> rmx_depth mx \<noteq> 0"
    using inv by (cases "rmx_state mx"; auto simp: rmx_depth_def rmx_inv_def unat_eq_0)+
  have "held (get_id g) = 0" if "0 < held (get_id f)" "g \<noteq> f" for g
    using ex [of "get_id f" "get_id g"] that by auto
  moreover have "held no_id = 0" if "0 < held (get_id f)" using ex [of "get_id f" no_id] that by auto
  moreover have "rmx_depth mx = unat (rmx_count mx)" by (simp add: rmx_depth_def)
  ultimately show ?thesis using ex [of i j] st by auto
qed

text \<open>A mutex that fiber 1 has locked twice.\<close>

definition demo_rmx :: recursive_mutex where
  "demo_rmx = \<lparr>rmx_splk = UNLOCKED, rmx_state = LOCKED, rmx_owner = get_id 1, rmx_count = 2, rmx_waiting = []\<rparr>"

lemma demo_rmx_history:
  "lock_history recursive_mutex_lock_release recursive_mutex_try_section recursive_mutex_unlock_section
     (2 ^ 64 - 1) recursive_mutex_init demo_rmx ((\<lambda>_. 0)(get_id 1 := 2))"
proof -
  let ?h = "lock_history recursive_mutex_lock_release recursive_mutex_try_section recursive_mutex_unlock_section
     (2 ^ 64 - 1) recursive_mutex_init"
  have "?h (recursive_mutex_init\<lparr>rmx_state := LOCKED, rmx_owner := get_id 1, rmx_count := 1\<rparr>)
      ((\<lambda>_. 0)(get_id 1 := 0 + 1))"
    by (rule lock_history.locked [OF lock_history.start, of _ _ "Worker 1"])
      (simp_all add: recursive_mutex_lock_release_def recursive_mutex_lock_section_def
        recursive_mutex_init_def spinlock_init_def)
  then have "?h demo_rmx (((\<lambda>_. 0)(get_id 1 := 0 + 1))(get_id 1 := ((\<lambda>_. 0)(get_id 1 := 0 + 1)) (get_id 1) + 1))"
    by (rule lock_history.locked [of _ _ _ _ _ _ _ "get_id 1" "Worker 1"])
      (simp_all add: recursive_mutex_lock_release_def recursive_mutex_lock_section_def
        recursive_mutex_init_def spinlock_init_def demo_rmx_def)
  moreover have "((\<lambda>_. 0)(get_id 1 := 0 + 1))(get_id 1 := ((\<lambda>_. 0)(get_id 1 := 0 + 1)) (get_id 1) + 1) =
      (\<lambda>_. 0)(get_id 1 := 2 :: nat)"
    by auto
  ultimately show ?thesis by (simp only:)
qed

theorem recursive_mutex_mutual_exclusion_witness:
  "\<exists>mx held. lock_history recursive_mutex_lock_release recursive_mutex_try_section
       recursive_mutex_unlock_section (2 ^ 64 - 1) recursive_mutex_init mx held \<and>
     held (get_id 1) = 2 \<and> held (get_id 2) = 0 \<and> held no_id = 0 \<and>
     rmx_owner mx = get_id 1 \<and> unat (rmx_count mx) = 2 \<and> rmx_state mx = LOCKED \<and>
     recursive_mutex_try_section (get_id 2) mx = Some (False, mx)"
proof -
  let ?held = "(\<lambda>_. 0)(get_id 1 := 2) :: fiber_id \<Rightarrow> nat"
  have "rmx_owner demo_rmx = get_id 1" "unat (rmx_count demo_rmx) = 2" "rmx_state demo_rmx = LOCKED"
    "?held (get_id 2) = 0" "?held no_id = 0"
    using recursive_mutex_mutual_exclusion [OF demo_rmx_history, of "get_id 1" "get_id 1" 1] by simp_all
  moreover have "recursive_mutex_try_section (get_id 2) demo_rmx = Some (False, demo_rmx)" by code_simp
  ultimately show ?thesis using demo_rmx_history by (intro exI [of _ demo_rmx] exI [of _ ?held]) simp
qed

text \<open>
  The main contexts of two threads share a recursive mutex. A main context has no identity of
  its own, the null one, so when one has locked the mutex the main context of any other thread is
  taken for the holder and gets the lock as well.
\<close>

theorem recursive_mutex_main_contexts_share:
  assumes "rmx_inv mx" and "rmx_state mx = LOCKED" and "rmx_owner mx = this_get_id m1"
    and "fm_active m1 = None" and "fm_active m2 = None"
  shows "\<exists>mx'. recursive_mutex_lock_main k m2 mx = Some (True, mx') \<and> rmx_count mx' = rmx_count mx + 1"
  using assms
  by (simp add: recursive_mutex_lock_main_def recursive_mutex_lock_release_def recursive_mutex_lock_section_def
      rmx_inv_def this_get_id_def)

theorem recursive_mutex_main_contexts_share_witness:
  "\<exists>mx'. recursive_mutex_lock_main 3 (fiber_manager_init 5)
     \<lparr>rmx_splk = UNLOCKED, rmx_state = LOCKED, rmx_owner = no_id, rmx_count = 1, rmx_waiting = []\<rparr> = Some (True, mx') \<and>
     rmx_count mx' = 2"
  using recursive_mutex_main_contexts_share
    [of "\<lparr>rmx_splk = UNLOCKED, rmx_state = LOCKED, rmx_owner = no_id, rmx_count = 1, rmx_waiting = []\<rparr>"
      "fiber_manager_init 4" "fiber_manager_init 5" 3]
  by (simp add: rmx_inv_def this_get_id_def fiber_manager_init_def)

text \<open>
  A recursive timed mutex gives a waiter its turn in order: a fiber that finds it held by
  another is put at the end of the line, and the last \<^verbatim>\<open>unlock\<close> of the holder takes out the one
  in front and frees the mutex; an inner \<^verbatim>\<open>unlock\<close> wakes nobody.
\<close>

theorem recursive_timed_mutex_line:
  assumes "rmx_inv mx" and "rmx_state mx = LOCKED" and "rmx_owner mx \<noteq> i" and "n \<notin> set (rmx_waiting mx)"
  shows "\<exists>mx1. recursive_timed_mutex_lock_release n i mx = Some (False, mx1) \<and>
     rmx_waiting mx1 = rmx_waiting mx @ [n] \<and> rmx_count mx1 = rmx_count mx \<and>
     (\<exists>mx2. recursive_timed_mutex_unlock_section (rmx_owner mx) mx1 =
         Some (if rmx_count mx = 1 then Some (hd (rmx_waiting mx @ [n])) else None, mx2) \<and>
        (rmx_state mx2 = UNLOCKED \<longleftrightarrow> rmx_count mx = 1) \<and> rmx_count mx2 = rmx_count mx - 1)"
proof -
  define mx1 where "mx1 = mx\<lparr>rmx_waiting := rmx_waiting mx @ [n]\<rparr>"
  have inv1: "rmx_inv mx1" "rmx_state mx1 = LOCKED" "rmx_depth mx1 = unat (rmx_count mx)"
    using assms(1,2) by (simp_all add: mx1_def rmx_inv_def rmx_depth_def)
  have one: "unat (rmx_count mx) = 1 \<longleftrightarrow> rmx_count mx = 1" by (simp add: word_unat_eq_iff)
  have "hd_or None (rmx_waiting mx @ [n]) = Some (hd (rmx_waiting mx @ [n]))"
    by (cases "rmx_waiting mx") auto
  moreover have "recursive_timed_mutex_lock_release n i mx = Some (False, mx1)"
    unfolding recursive_timed_mutex_same_sections mx1_def
    using rmx_lock_blocks(1) [OF assms(1,2), of i n] assms(3,4) by auto
  ultimately show ?thesis
    using rmx_unlock_conv [OF inv1(1,2)] inv1(3) one assms(2)
    unfolding recursive_timed_mutex_same_sections by (auto simp: mx1_def)
qed

theorem recursive_timed_mutex_line_witness:
  "\<exists>mx1. recursive_timed_mutex_lock_release (Worker 2) (get_id 2) demo_rmx = Some (False, mx1) \<and>
     rmx_waiting mx1 = [Worker 2] \<and>
     (\<exists>mx2. recursive_timed_mutex_unlock_section (get_id 1) mx1 = Some (None, mx2) \<and> rmx_count mx2 = 1)"
  using recursive_timed_mutex_line [of demo_rmx "get_id 2" "Worker 2"]
  by (auto simp: demo_rmx_def rmx_inv_def)

end
