(* ===== verification/Scheduler_Properties.thy ===== *)
theory Scheduler_Properties
  imports Condition Recursive_Mutex
begin

text \<open>
  What the scheduler of a thread promises with its default algorithm, \<^verbatim>\<open>round_robin\<close>, and to the
  handle of a fiber; and worked examples for the properties of fiber-specific storage and of
  interruption, on threads built by the library's own functions.
\<close>

section \<open>The waiting queue as a sorting routine\<close>

fun wq_push_all :: "wqid \<Rightarrow> fid list \<Rightarrow> world \<Rightarrow> world option" where
  "wq_push_all q [] w = Some w"
| "wq_push_all q (f # fs) w = do { w' \<leftarrow> wq_push q f w; wq_push_all q fs w' }"

lemma wq_push_all_snoc: "wq_push_all q (fs @ [f]) w = do { w' \<leftarrow> wq_push_all q fs w; wq_push q f w' }"
proof (induction fs arbitrary: w)
  case Nil
  show ?case by (cases "wq_push q f w") simp_all
next
  case (Cons a fs)
  then show ?case by (cases "wq_push q a w") simp_all
qed

lemma insert_before_later:
  fixes t :: "'a \<Rightarrow> int"
  assumes "\<forall>y \<in> set zs. t x < t y"
  shows "takeWhile (\<lambda>y. t y < t x) (xs @ zs) @ x # dropWhile (\<lambda>y. t y < t x) (xs @ zs) = insort_key t x xs @ zs"
  using assms by (induction xs) (cases zs; auto)+

text \<open>
  The order in which the fibers stand after they have been pushed one after the other: those that
  are ready, the last one first; those with a deadline, sorted by it; those without.
\<close>

definition wq_order :: "heap \<Rightarrow> fid list \<Rightarrow> fid list" where
  "wq_order h fs =
     rev (filter (is_ready h) fs) @
     sort_key (\<lambda>f. wf_tp (h f)) (rev (filter (\<lambda>f. \<not> is_ready h f \<and> wf_tp (h f) \<noteq> time_point_max) fs)) @
     filter (\<lambda>f. \<not> is_ready h f \<and> wf_tp (h f) = time_point_max) fs"

lemma set_wq_order: "set (wq_order h fs) = set fs"
  by (auto simp: wq_order_def)

lemma wq_order_cong:
  assumes "\<And>f. wf_tp (h' f) = wf_tp (h f)" and "\<And>f. wf_state (h' f) = wf_state (h f)"
  shows "wq_order h' fs = wq_order h fs"
  using assms by (simp add: wq_order_def is_ready_def [abs_def])

lemma wq_insert_order:
  assumes "\<forall>f \<in> set (a # fs). wf_tp (h f) \<le> time_point_max"
  shows "wq_insert h a (wq_order h fs) = wq_order h (fs @ [a])"
proof -
  let ?t = "\<lambda>f. wf_tp (h f)"
  let ?rs = "rev (filter (is_ready h) fs)"
    and ?xs = "sort_key ?t (rev (filter (\<lambda>f. \<not> is_ready h f \<and> ?t f \<noteq> time_point_max) fs))"
    and ?zs = "filter (\<lambda>f. \<not> is_ready h f \<and> ?t f = time_point_max) fs"
  consider "is_ready h a" | "\<not> is_ready h a" "?t a = time_point_max" | "\<not> is_ready h a" "?t a \<noteq> time_point_max"
    by blast
  then show ?thesis
  proof cases
    case 3
    have lt: "\<forall>y \<in> set ?zs. ?t a < ?t y" using 3(2) assms by force
    have split: "takeWhile (before_item h a) (?rs @ ?xs @ ?zs) = ?rs @ takeWhile (\<lambda>f. ?t f < ?t a) (?xs @ ?zs)"
      "dropWhile (before_item h a) (?rs @ ?xs @ ?zs) = dropWhile (\<lambda>f. ?t f < ?t a) (?xs @ ?zs)"
      by (rule before_item_split; auto)+
    from insert_before_later [OF lt, of ?xs] 3 split show ?thesis by (simp add: wq_insert_def wq_order_def)
  qed (simp_all add: wq_insert_def wq_order_def)
qed

text \<open>
  C4: the waiting queue, a linked list into which every fiber is inserted by walking along the
  deadlines, computes the same order as sorting. After any number of fibers have been pushed, ready
  or not, it holds first those that are ready, whatever their deadline, the one that came last
  first; then those that have to wait and have a deadline, sorted by it, among equal deadlines
  the one that came last first; then those that wait without deadline in the order in which they
  came.
\<close>

theorem waiting_queue_sorts:
  assumes "wq_rep w q []" and "distinct fs"
    and "\<forall>f \<in> set fs. unqueued (w_heap w f) \<and> wf_tp (w_heap w f) \<le> time_point_max"
  shows "\<exists>w'. wq_push_all q fs w = Some w' \<and>
     wq_rep w' q
       (rev (filter (is_ready (w_heap w)) fs) @
        sort_key (\<lambda>f. wf_tp (w_heap w f))
          (rev (filter (\<lambda>f. \<not> is_ready (w_heap w) f \<and> wf_tp (w_heap w f) \<noteq> time_point_max) fs)) @
        filter (\<lambda>f. \<not> is_ready (w_heap w) f \<and> wf_tp (w_heap w f) = time_point_max) fs)"
proof -
  have "\<exists>w'. wq_push_all q fs w = Some w' \<and> wq_rep w' q (wq_order (w_heap w) fs) \<and>
     (\<forall>f. wf_tp (w_heap w' f) = wf_tp (w_heap w f) \<and> wf_state (w_heap w' f) = wf_state (w_heap w f)) \<and>
     (\<forall>f. f \<notin> set fs \<longrightarrow> w_heap w' f = w_heap w f)"
    using assms(2,3)
  proof (induction fs rule: rev_induct)
    case Nil
    with assms(1) show ?case by (simp add: wq_order_def)
  next
    case (snoc a fs)
    then obtain w1 where w1: "wq_push_all q fs w = Some w1" "wq_rep w1 q (wq_order (w_heap w) fs)"
      "\<And>f. wf_tp (w_heap w1 f) = wf_tp (w_heap w f)" "\<And>f. wf_state (w_heap w1 f) = wf_state (w_heap w f)"
      "\<And>f. f \<notin> set fs \<Longrightarrow> w_heap w1 f = w_heap w f" by auto
    note cong = wq_order_cong [of "w_heap w1" "w_heap w", OF w1(3,4)]
    have a: "a \<notin> set fs" "unqueued (w_heap w1 a)" using snoc.prems w1(5) [of a] by auto
    from wq_push_rep [OF w1(2), of a] a obtain w2 where w2: "wq_push q a w1 = Some w2"
      "wq_rep w2 q (wq_insert (w_heap w1) a (wq_order (w_heap w) fs))"
      "wq_frame q (insert a (set fs)) (upd_heap (attach_queue a q) w1) w2" by (auto simp: unqueued_def set_wq_order)
    have "wq_insert (w_heap w1) a (wq_order (w_heap w1) fs) = wq_order (w_heap w1) (fs @ [a])"
      by (rule wq_insert_order) (use snoc.prems(2) w1(3) in auto)
    with w2(2) have rep: "wq_rep w2 q (wq_order (w_heap w) (fs @ [a]))" by (simp add: cong)
    note F = wq_frameD(1) [OF w2(3)]
    have "wf_tp (w_heap w2 f) = wf_tp (w_heap w f)" "wf_state (w_heap w2 f) = wf_state (w_heap w f)" for f
      using links_frame_fields(2,5) [OF F, of f] w1(3,4) by (simp_all add: upd_heap_def attach_queue_def)
    moreover have "w_heap w2 f = w_heap w f" if "f \<notin> set (fs @ [a])" for f
      using that F w1(5) [of f] by (simp add: links_frame_def upd_heap_def attach_queue_def)
    ultimately show ?case using w1(1) w2(1) rep by (simp add: wq_push_all_snoc)
  qed
  then show ?thesis by (auto simp: wq_order_def)
qed

text \<open>Fiber 2 is due at 20 and fiber 4 has no deadline; fibers 5 and 6 are ready, 6 with an early deadline.\<close>

definition demo_sleepers :: world where
  "demo_sleepers =
     \<lparr>w_heap = (\<lambda>f. worker_fiber_init\<lparr>wf_state := (if 5 \<le> f then READY else WAITING),
        wf_tp := (if f = 2 then 20 else if f = 4 then time_point_max else if f = 6 then 10 else 50)\<rparr>),
      w_wqs = (\<lambda>_. waiting_queue_init), w_mains = (\<lambda>_. False)\<rparr>"

theorem waiting_queue_sorts_witness:
  "\<exists>w'. wq_push_all 0 [1, 6, 4, 2, 5, 3] demo_sleepers = Some w' \<and> wq_rep w' 0 [5, 6, 2, 3, 1, 4]"
proof -
  have "wq_rep demo_sleepers 0 []" by (simp add: wq_rep_def demo_sleepers_def waiting_queue_init_def)
  moreover have "\<forall>f \<in> set [1, 6, 4, 2, 5, 3]. unqueued (w_heap demo_sleepers f) \<and>
      wf_tp (w_heap demo_sleepers f) \<le> time_point_max"
    by (simp add: demo_sleepers_def unqueued_def worker_fiber_init_def time_point_max_def)
  ultimately show ?thesis
    using waiting_queue_sorts [of demo_sleepers 0 "[1, 6, 4, 2, 5, 3]"]
    by (simp add: demo_sleepers_def time_point_max_def is_ready_def)
qed

section \<open>The spin lock\<close>

text \<open>
  C23: a spin lock excludes. Whatever way the loads, exchanges and stores of any number of threads
  interleave, two threads are never both past \<^verbatim>\<open>lock()\<close>; the lock reads as locked exactly while
  some thread is, and a thread that is can always unlock it.
\<close>

theorem spinlock_mutual_exclusion:
  assumes "spin_reachable s"
  shows "(spin_pcs s t = Holding \<longrightarrow> spin_pcs s u = Holding \<longrightarrow> t = u) \<and>
     (spin_state s = LOCKED \<longleftrightarrow> (\<exists>v. spin_pcs s v = Holding)) \<and>
     (spin_pcs s t = Holding \<longrightarrow> spin_unlock (spin_state s) = Some UNLOCKED)"
proof -
  have inv: "spin_inv s" by (rule spin_reachable_inv [OF assms])
  then have "spin_pcs s t = Holding \<Longrightarrow> spin_state s = LOCKED" unfolding spin_inv_def by blast
  with inv show ?thesis unfolding spin_inv_def by (simp add: spin_unlock_eq_Some)
qed

theorem spinlock_mutual_exclusion_witness:
  "\<exists>s. spin_reachable s \<and> spin_pcs s 1 = Holding \<and> spin_pcs s 2 = Loading \<and> spin_state s = LOCKED"
proof -
  let ?pcs = "((\<lambda>_. Outside)(1 := Holding, 2 := Loading)) :: nat \<Rightarrow> spin_pc"
  let ?s = "\<lparr>spin_state = LOCKED, spin_pcs = ?pcs\<rparr>"
  have "spin_reachable \<lparr>spin_state = UNLOCKED, spin_pcs = (\<lambda>_. Outside)(1 := Loading)\<rparr>"
    using spin_reachable.step [OF spin_reachable.start spin_step.enter [of spin_sys_init 1]]
    by (simp add: spin_sys_init_def spinlock_init_def)
  from spin_reachable.step [OF this spin_step.released [of _ 1]]
  have "spin_reachable \<lparr>spin_state = UNLOCKED, spin_pcs = (\<lambda>_. Outside)(1 := Exchanging)\<rparr>" by simp
  from spin_reachable.step [OF this spin_step.won [of _ 1]]
  have "spin_reachable \<lparr>spin_state = LOCKED, spin_pcs = (\<lambda>_. Outside)(1 := Holding)\<rparr>" by simp
  from spin_reachable.step [OF this spin_step.enter [of _ 2]]
  have "spin_reachable ?s" by simp
  moreover from spinlock_mutual_exclusion [OF this, of 1 1] have "spin_state ?s = LOCKED"
    by (metis (mono_tags) spin_sys.select_convs(1))
  ultimately show ?thesis by (intro exI [of _ ?s]) simp
qed

section \<open>One turn of the scheduler\<close>

text \<open>
  In an ordered queue the fibers that are ready or whose deadline has come stand in front, so the
  prefix of fibers for which \<^verbatim>\<open>fetch_ready\<close> answers true has them all.
\<close>

lemma due_prefix:
  assumes "wq_ordered (w_heap w) ws"
  shows "set (takeWhile (\<lambda>x. fm_due now (w_heap w x)) ws) \<supseteq>
      {x \<in> set ws. is_ready (w_heap w) x \<or> wf_tp (w_heap w x) \<le> now}"
    and "x \<in> set (takeWhile (\<lambda>x. fm_due now (w_heap w x)) ws) \<Longrightarrow>
      is_ready (w_heap w) x \<or> wf_tp (w_heap w x) \<le> now \<or> interruption_requested (w_heap w x)"
proof -
  let ?P = "\<lambda>x. fm_due now (w_heap w x)"
  obtain rs vs where *: "ws = rs @ vs" "\<forall>r \<in> set rs. is_ready (w_heap w) r" "\<forall>v \<in> set vs. \<not> is_ready (w_heap w) v"
    "sorted (map (\<lambda>v. wf_tp (w_heap w v)) vs)"
    using assms unfolding wq_ordered_def by blast
  have rs: "?P r" if "r \<in> set rs" for r using that *(2) by (auto simp: fm_due_def is_ready_def)
  have "{x \<in> set vs. wf_tp (w_heap w x) \<le> now} \<subseteq> set (takeWhile ?P vs)"
    using *(4) by (induction vs) (auto simp: fm_due_def)
  then show "set (takeWhile ?P ws) \<supseteq> {x \<in> set ws. is_ready (w_heap w) x \<or> wf_tp (w_heap w x) \<le> now}"
    using * rs by (auto simp: takeWhile_append2)
  show "is_ready (w_heap w) x \<or> wf_tp (w_heap w x) \<le> now \<or> interruption_requested (w_heap w x)"
    if "x \<in> set (takeWhile ?P ws)"
    using set_takeWhileD [OF that] by (auto simp: fm_due_def is_ready_def)
qed

text \<open>
  C3: one turn of the scheduler wakes the fibers that are due and resumes the fiber that has been
  ready longest. The waiting queue is cut in two. The front part, which moves behind the ready
  fibers in the order of the queue, holds every fiber that is ready or whose deadline has come,
  and besides them only fibers with a pending interruption; the first of the line gets the
  processor; the back part keeps its order. A pending interruption alone wakes a fiber only if
  everybody in front of it is woken: the back part begins with a fiber that is not due. If no
  waiting fiber has a pending interruption, exactly the fibers that are due are woken.
\<close>

theorem run_wakes_due_in_order:
  assumes Q: "fm_queues fifo_rep w m ws rs" and act: "fm_active m = None"
    and due: "due = takeWhile (\<lambda>x. fm_due now (w_heap w x)) ws"
    and line: "rs @ due = f # ys"
  shows "\<exists>w' m' rest. ws = due @ rest \<and>
     fm_run round_robin_algo now now' w m = Some (Resumed f None, w', m') \<and>
     fm_queues fifo_rep w' m' rest ys \<and> fm_running w' m' f \<and>
     {x \<in> set ws. is_ready (w_heap w) x \<or> wf_tp (w_heap w x) \<le> now} \<subseteq> set due \<and>
     (\<forall>x \<in> set due. is_ready (w_heap w) x \<or> wf_tp (w_heap w x) \<le> now \<or> interruption_requested (w_heap w x)) \<and>
     (rest \<noteq> [] \<longrightarrow> \<not> interruption_requested (w_heap w (hd rest))) \<and>
     ((\<forall>x \<in> set ws. \<not> interruption_requested (w_heap w x)) \<longrightarrow>
        due = filter (\<lambda>x. is_ready (w_heap w) x \<or> wf_tp (w_heap w x) \<le> now) ws)"
proof -
  let ?P = "\<lambda>x. fm_due now (w_heap w x)"
  note ord = fm_queuesD(2) [OF Q]
  from rr.run_fifo [OF Q, of now f ys now'] act line due obtain w' m' where run:
    "fm_run round_robin_algo now now' w m = Some (Resumed f None, w', m')"
    "fm_queues fifo_rep w' m' (dropWhile ?P ws) ys" "fm_running w' m' f" by auto
  have "\<not> interruption_requested (w_heap w (hd (dropWhile ?P ws)))" if "dropWhile ?P ws \<noteq> []"
    using hd_dropWhile [OF that] by (auto simp: fm_due_def)
  moreover have "due = filter (\<lambda>x. is_ready (w_heap w) x \<or> wf_tp (w_heap w x) \<le> now) ws"
    if "\<forall>x \<in> set ws. \<not> interruption_requested (w_heap w x)"
    using due_prefix_complete(1) [OF ord, of now] that
    by (auto simp: due fm_due_def is_ready_def intro!: filter_cong)
  ultimately show ?thesis
    using run due_prefix [OF ord, where now = now] unfolding due
    by (intro exI [of _ w'] exI [of _ m'] exI [of _ "dropWhile ?P ws"]) auto
qed

text \<open>
  Fibers 1, 2 and 3 sleep until 50, 20 and 90; fiber 4 has yielded and nobody is running. At 60
  fibers 4, 2 and 1 are woken, in this order.
\<close>

definition demo_sleeping :: "round_robin sys" where
  "demo_sleeping = the (sys_script round_robin_algo
     [Rq_spawn 1, Rq_spawn 2, Rq_spawn 3, Rq_spawn 4, Rq_run 0 0, Rq_wait 50, Rq_run 1 1, Rq_wait 20,
      Rq_run 2 2, Rq_wait 90, Rq_run 3 3, Rq_yield] demo_sys0)"

theorem run_wakes_due_in_order_witness:
  "\<exists>w' m'. fm_run round_robin_algo 60 60 (sy_world demo_sleeping) (sy_mgr demo_sleeping) = Some (Resumed 4 None, w', m') \<and>
     fm_queues fifo_rep w' m' [3] [2, 1] \<and> fm_running w' m' 4"
proof -
  have "fm_queues fifo_rep (sy_world demo_sleeping) (sy_mgr demo_sleeping) [4, 2, 1, 3] []"
    "fm_active (sy_mgr demo_sleeping) = None"
    "[4, 2, 1] = takeWhile (\<lambda>x. fm_due 60 (w_heap (sy_world demo_sleeping) x)) [4, 2, 1, 3]"
    by code_simp+
  from run_wakes_due_in_order [OF this, of 4 "[2, 1]" 60] show ?thesis by auto
qed

text \<open>
  When nothing can run the thread sleeps until the first deadline, or for the configured
  interval when no waiting fiber has one; no fiber and no queue changes.
\<close>

theorem run_sleeps_until_deadline:
  assumes "fm_queues fifo_rep w m ws []" and "fm_active m = None"
    and "\<forall>x \<in> set ws. \<not> fm_due now (w_heap w x)"
  shows "fm_run round_robin_algo now now' w m =
     Some (Slept_until
       (case ws of [] \<Rightarrow> now' + fm_wait_interval m
        | x # _ \<Rightarrow> if wf_tp (w_heap w x) = time_point_max then now' + fm_wait_interval m
                   else wf_tp (w_heap w x)), w, m)"
  using assms by (intro rr.run_sleeps) (auto simp: takeWhile_eq_Nil_iff)

theorem run_sleeps_until_deadline_witness:
  "fm_run round_robin_algo 5 6 (sy_world demo_sys0) (sy_mgr demo_sys0) =
     Some (Slept_until 10000006, sy_world demo_sys0, sy_mgr demo_sys0)"
proof -
  have "fm_queues fifo_rep (sy_world demo_sys0) (sy_mgr demo_sys0) [] []" "fm_active (sy_mgr demo_sys0) = None"
    "fm_wait_interval (sy_mgr demo_sys0) = 10000000" by code_simp+
  with run_sleeps_until_deadline [OF this(1,2)] show ?thesis by simp
qed

text \<open>
  C5: a fiber that waits until a deadline enters the waiting queue at its place in the order of
  deadlines: every fiber before it is ready or has a deadline that is not later, no fiber behind it is ready or has an earlier one. The lock it
  brought is released, and no other fiber moves.
\<close>

theorem wait_until_keeps_deadline_order:
  assumes "fm_queues fifo_rep w m ws rs" and "fm_running w m a" and "t \<le> time_point_max"
  shows "\<exists>w' before behind. fm_wait_until_enter t LOCKED w m = Some (UNLOCKED, w', m) \<and>
     fm_queues fifo_rep w' m (before @ a # behind) rs \<and> ws = before @ behind \<and>
     is_waiting (w_heap w') a \<and> wf_tp (w_heap w' a) = t \<and>
     (\<forall>x \<in> set before. is_ready (w_heap w') x \<or> wf_tp (w_heap w' x) \<le> t) \<and>
     (\<forall>x \<in> set behind. \<not> is_ready (w_heap w') x \<and> t \<le> wf_tp (w_heap w' x))"
proof -
  let ?h = "(w_heap w)(a := (w_heap w a)\<lparr>wf_state := WAITING, wf_tp := t\<rparr>)"
  from rr.wait_until_enter_ok [OF assms] obtain w' where w:
    "fm_wait_until_enter t LOCKED w m = Some (UNLOCKED, w', m)"
    "fm_queues fifo_rep w' m (wq_insert ?h a ws) rs"
    "links_frame (insert a (set ws)) ((w_heap w)(a := (w_heap w a)\<lparr>wf_state := WAITING, wf_tp := t,
       wf_phead := Some (fm_wqueue m), wf_ptail := Some (fm_wqueue m)\<rparr>)) (w_heap w')" by blast
  note F = links_frame_fields(2,5) [OF w(3)]
  have same: "is_ready (w_heap w') x = is_ready ?h x" "wf_tp (w_heap w' x) = wf_tp (?h x)" for x
    by (simp_all add: F is_ready_def)
  have outside: "a \<notin> set ws" using fm_running_outside [OF assms(1,2)] by simp
  have split: "\<exists>before behind. wq_insert ?h a ws = before @ a # behind \<and> ws = before @ behind"
  proof (cases "t = time_point_max")
    case False
    then have "wq_insert ?h a ws = takeWhile (before_item ?h a) ws @ a # dropWhile (before_item ?h a) ws"
      by (simp add: wq_insert_def is_ready_def)
    then show ?thesis by (metis takeWhile_dropWhile_id)
  qed (auto simp: wq_insert_def is_ready_def)
  then obtain before behind where split: "wq_insert ?h a ws = before @ a # behind" "ws = before @ behind"
    by blast
  from fm_queuesD(2) [OF w(2)] have ord: "wq_ordered (w_heap w') (before @ a # behind)" by (simp add: split(1))
  have a: "\<not> is_ready (w_heap w') a" "wf_tp (w_heap w' a) = t" "is_waiting (w_heap w') a"
    by (simp_all add: same F is_ready_def is_waiting_def)
  obtain r v where rv: "before @ a # behind = r @ v" "\<forall>x \<in> set r. is_ready (w_heap w') x"
    "\<forall>x \<in> set v. \<not> is_ready (w_heap w') x" "sorted (map (\<lambda>x. wf_tp (w_heap w' x)) v)"
    using ord unfolding wq_ordered_def by blast
  from rv(1) consider us where "before = r @ us" "us @ a # behind = v"
    | us where "r = before @ us" "a # behind = us @ v" by (auto simp: append_eq_append_conv2)
  then obtain v1 where v1: "before = r @ v1" "v = v1 @ a # behind"
  proof cases
    case (2 us)
    with rv(2) a(1) have "us = []" by (cases us) auto
    with 2 that [of "[]"] show ?thesis by simp
  qed (use that in auto)
  have "\<forall>x \<in> set before. is_ready (w_heap w') x \<or> wf_tp (w_heap w' x) \<le> t"
    using rv(2,4) v1 a(2) by (auto simp: sorted_append)
  moreover have "\<forall>x \<in> set behind. \<not> is_ready (w_heap w') x \<and> t \<le> wf_tp (w_heap w' x)"
    using rv(3,4) v1 a(2) by (auto simp: sorted_append)
  ultimately show ?thesis using w(1,2) split a by auto
qed

theorem wait_until_keeps_deadline_order_witness:
  "\<exists>w' before behind. fm_wait_until_enter 50 LOCKED (sy_world demo_sys4) (sy_mgr demo_sys4) =
       Some (UNLOCKED, w', sy_mgr demo_sys4) \<and> [2 :: fid] = before @ behind \<and> wf_tp (w_heap w' 1) = 50"
  using wait_until_keeps_deadline_order [OF demo_sys4_queues(1,2), of 50] by (fastforce simp: time_point_max_def)

text \<open>
  Yielding is fair. A fiber that yields while others are ready gets the processor again only
  after all of them: the next turn of the scheduler resumes the first of them, and the fiber that
  yielded stands right behind the rest.
\<close>

theorem yield_lets_others_run:
  assumes "fm_queues fifo_rep w m ws (f # rs)" and "fm_running w m a"
    and "\<forall>x \<in> set ws. interruption_requested (w_heap w x) \<longrightarrow> is_ready (w_heap w) x"
  shows "\<exists>w1 w' m'. fm_yield_enter w m = Some (w1, m) \<and>
     fm_run round_robin_algo now now' w1 (m\<lparr>fm_active := None\<rparr>) = Some (Resumed f None, w', m') \<and>
     fm_queues fifo_rep w' m' (filter (\<lambda>x. \<not> fm_due now (w_heap w x)) ws)
       (rs @ a # filter (\<lambda>x. fm_due now (w_heap w x)) ws) \<and> fm_running w' m' f"
proof -
  from rr.yield_enter_ok [OF assms(1,2)] obtain w1 where w1:
    "fm_yield_enter w m = Some (w1, m)" "fm_queues fifo_rep w1 m (a # ws) (f # rs)"
    "links_frame (insert a (set ws)) ((w_heap w)(a := (w_heap w a)\<lparr>wf_state := READY,
       wf_phead := Some (fm_wqueue m), wf_ptail := Some (fm_wqueue m)\<rparr>)) (w_heap w1)" by blast
  note F = links_frame_fields [OF w1(3)]
  have a: "a \<notin> set ws" using fm_running_outside [OF assms(1,2)] by simp
  have due: "fm_due now (w_heap w1 x) = fm_due now (w_heap w x)"
    "interruption_requested (w_heap w1 x) = interruption_requested (w_heap w x)"
    "is_ready (w_heap w1) x = is_ready (w_heap w) x" if "x \<in> set ws" for x
    using that a by (auto simp: fm_due_def F interruption_requested_def is_ready_def)
  have adue: "fm_due now (w_heap w1 a)" "is_ready (w_heap w1) a" by (simp_all add: fm_due_def F is_ready_def)
  have filters: "filter (\<lambda>x. fm_due now (w_heap w1 x)) ws = filter (\<lambda>x. fm_due now (w_heap w x)) ws"
    "filter (\<lambda>x. \<not> fm_due now (w_heap w1 x)) ws = filter (\<lambda>x. \<not> fm_due now (w_heap w x)) ws"
    using due(1) by (auto intro: filter_cong)
  have prefix: "takeWhile (\<lambda>x. fm_due now (w_heap w1 x)) (a # ws) = a # filter (\<lambda>x. fm_due now (w_heap w x)) ws"
    "dropWhile (\<lambda>x. fm_due now (w_heap w1 x)) (a # ws) = filter (\<lambda>x. \<not> fm_due now (w_heap w x)) ws"
    using due_prefix_complete [OF fm_queuesD(2) [OF w1(2)], of now] assms(3) due adue filters by auto
  have "fm_queues fifo_rep w1 (m\<lparr>fm_active := None\<rparr>) (a # ws) (f # rs)"
    using w1(2) by (simp add: fm_queues_def)
  from rr.run_fifo [OF this, of now f _ now'] prefix w1(1) show ?thesis by auto
qed

theorem yield_lets_others_run_witness:
  "\<exists>w1 w' m'. fm_yield_enter (sy_world demo_sys2) (sy_mgr demo_sys2) = Some (w1, sy_mgr demo_sys2) \<and>
     fm_run round_robin_algo 1 1 w1 ((sy_mgr demo_sys2)\<lparr>fm_active := None\<rparr>) = Some (Resumed 2 None, w', m') \<and>
     fm_queues fifo_rep w' m' [] [1]"
  using yield_lets_others_run [OF demo_sys2_queues, of 1 1] by auto

text \<open>A fiber that has been woken while no other was ready gets the next turn.\<close>

lemma woken_is_resumed:
  assumes "fm_queues fifo_rep w m (a # ws) []" and "is_ready (w_heap w) a"
  shows "\<exists>w' m' ws' rs'. fm_run round_robin_algo now now' w (m\<lparr>fm_active := None\<rparr>) = Some (Resumed a None, w', m') \<and>
     fm_queues fifo_rep w' m' ws' rs' \<and> fm_running w' m' a"
proof -
  have Q: "fm_queues fifo_rep w (m\<lparr>fm_active := None\<rparr>) (a # ws) []" using assms(1) by (simp add: fm_queues_def)
  have "takeWhile (\<lambda>x. fm_due now (w_heap w x)) (a # ws) = a # takeWhile (\<lambda>x. fm_due now (w_heap w x)) ws"
    using assms(2) by (simp add: fm_due_def is_ready_def)
  with rr.run_fifo [OF Q, of now a _ now'] show ?thesis by auto
qed

text \<open>
  One turn: the running fiber yields, control returns to the main context, and the scheduler runs
  again. The line of ready fibers loses its first member to the processor and has the fiber that
  yielded behind the others.
\<close>

lemma yield_turn:
  assumes "fm_queues fifo_rep w m ws rs" and "fm_running w m a"
  shows "\<exists>w1 f ys w' m' ws' woken. fm_yield_enter w m = Some (w1, m) \<and>
     fm_run round_robin_algo now now' w1 (m\<lparr>fm_active := None\<rparr>) = Some (Resumed f None, w', m') \<and>
     rs @ a # woken = f # ys \<and> fm_queues fifo_rep w' m' ws' ys \<and> fm_running w' m' f"
proof -
  from rr.yield_enter_ok [OF assms(1,2)] obtain w1 where w1:
    "fm_yield_enter w m = Some (w1, m)" "fm_queues fifo_rep w1 m (a # ws) rs"
    "links_frame (insert a (set ws)) ((w_heap w)(a := (w_heap w a)\<lparr>wf_state := READY,
       wf_phead := Some (fm_wqueue m), wf_ptail := Some (fm_wqueue m)\<rparr>)) (w_heap w1)" by blast
  have "fm_due now (w_heap w1 a)" using links_frame_fields [OF w1(3)] by (simp add: fm_due_def)
  then have "rs @ takeWhile (\<lambda>x. fm_due now (w_heap w1 x)) (a # ws) =
      rs @ a # takeWhile (\<lambda>x. fm_due now (w_heap w1 x)) ws" by simp
  moreover obtain f ys where f: "rs @ a # takeWhile (\<lambda>x. fm_due now (w_heap w1 x)) ws = f # ys"
    by (cases rs) auto
  moreover have "fm_queues fifo_rep w1 (m\<lparr>fm_active := None\<rparr>) (a # ws) rs" using w1(2) by (simp add: fm_queues_def)
  ultimately obtain w' m' ws' where
    "fm_run round_robin_algo now now' w1 (m\<lparr>fm_active := None\<rparr>) = Some (Resumed f None, w', m')"
    "fm_queues fifo_rep w' m' ws' ys" "fm_running w' m' f"
    using rr.run_fifo [of w1 "m\<lparr>fm_active := None\<rparr>" "a # ws" rs now f ys now'] by auto
  with w1(1) f show ?thesis by blast
qed

text \<open>Any number of turns in which every fiber yields at once: the fibers in the order they are resumed.\<close>

fun yield_turns ::
  "(time_point \<times> time_point) list \<Rightarrow> world \<Rightarrow> fifo fiber_manager \<Rightarrow> (fid list \<times> world \<times> fifo fiber_manager) option" where
  "yield_turns [] w m = Some ([], w, m)"
| "yield_turns ((now, now') # ts) w m = do {
     (w1, m1) \<leftarrow> fm_yield_enter w m;
     (c, w2, m2) \<leftarrow> fm_run round_robin_algo now now' w1 (m1\<lparr>fm_active := None\<rparr>);
     case c of
       Resumed f p \<Rightarrow> do { (fs, w3, m3) \<leftarrow> yield_turns ts w2 m2; Some (f # fs, w3, m3) }
     | _ \<Rightarrow> None }"

text \<open>
  C21: round robin is fair. When every fiber that gets the processor yields, the fibers that were
  ready are resumed one after the other in the order of their line, each exactly once before the
  first fiber has its next turn, whatever the clock shows and whoever is woken meanwhile: a fiber at
  place \<open>i\<close> of the line waits for \<open>i\<close> turns.
\<close>

theorem round_robin_fair:
  assumes "fm_queues fifo_rep w m ws rs" and "fm_running w m a" and "length ts \<le> length rs + 1"
  shows "\<exists>w' m' ws' rs'. yield_turns ts w m = Some (take (length ts) (rs @ [a]), w', m') \<and>
     fm_queues fifo_rep w' m' ws' rs' \<and> fm_running w' m' (last (a # take (length ts) (rs @ [a])))"
  using assms
proof (induction ts arbitrary: w m ws rs a)
  case Nil
  then show ?case by auto
next
  case (Cons t ts)
  obtain now now' where t: "t = (now, now')" by (cases t)
  from yield_turn [OF Cons.prems(1,2), of now now'] obtain w1 f ys w2 m2 ws2 woken where y:
    "fm_yield_enter w m = Some (w1, m)"
    "fm_run round_robin_algo now now' w1 (m\<lparr>fm_active := None\<rparr>) = Some (Resumed f None, w2, m2)"
    "rs @ a # woken = f # ys" "fm_queues fifo_rep w2 m2 ws2 ys" "fm_running w2 m2 f" by blast
  have len: "length ts \<le> length ys + 1" using Cons.prems(3) y(3) by (cases rs) auto
  have line: "take (length (t # ts)) (rs @ [a]) = f # take (length ts) (ys @ [f])"
    using y(3) Cons.prems(3) by (cases rs) (auto simp: take_Cons')
  from Cons.IH [OF y(4,5) len] obtain w' m' ws' rs' where I:
    "yield_turns ts w2 m2 = Some (take (length ts) (ys @ [f]), w', m')" "fm_queues fifo_rep w' m' ws' rs'"
    "fm_running w' m' (last (f # take (length ts) (ys @ [f])))" by blast
  have "yield_turns (t # ts) w m = Some (f # take (length ts) (ys @ [f]), w', m')"
    using t y(1,2) I(1) by simp
  moreover have "last (a # f # take (length ts) (ys @ [f])) = last (f # take (length ts) (ys @ [f]))" by simp
  ultimately show ?case unfolding line using I(2,3) by metis
qed

theorem round_robin_fair_witness:
  "\<exists>w' m'. yield_turns [(1, 1), (5, 5)] (sy_world demo_sys2) (sy_mgr demo_sys2) = Some ([2, 1], w', m') \<and>
     fm_running w' m' 1"
  using round_robin_fair [OF demo_sys2_queues(1,2), of "[(1, 1), (5, 5)]"] by auto

section \<open>The handle of a fiber\<close>

text \<open>
  A new fiber is ready to run: the constructor returns a handle that can be joined, and the new
  fiber stands at the end of the line of ready fibers, whose other members keep their places.
\<close>

theorem new_fiber_joins_the_line:
  assumes "fm_queues fifo_rep w m ws rs" and "f \<notin> set ws" and "f \<notin> set rs"
  shows "\<exists>w' m'. fiber_ctor round_robin_algo f w m = Some (Some f, w', m') \<and>
     fiber_joinable (Some f) \<and> \<not> fiber_not (Some f) w' \<and>
     fm_queues fifo_rep w' m' ws (rs @ [f]) \<and> fm_active m' = fm_active m"
proof -
  define w1 where "w1 = w\<lparr>w_heap := (w_heap w)(f := new_fiber)\<rparr>"
  from rr.fiber_ctor_ok [OF assms] obtain w' m' ys where c:
    "fiber_ctor round_robin_algo f w m = Some (Some f, w', m')" "fm_queues fifo_rep w' m' ws ys"
    "fm_active m' = fm_active m" "links_frame (insert f (set rs)) ((w_heap w)(f := new_fiber)) (w_heap w')" by blast
  obtain w2 where w2: "setup_allocate f w = Some w2" "set_ready f w2 = Some w1"
    using setup_allocate_conv [of f w] by (auto simp: w1_def bind_eq_Some_conv)
  then have spawn: "fm_spawn round_robin_algo f w1 m = Some (w', m')"
    using c(1) by (auto simp: fiber_ctor_def start_fiber_def split: bind_splits)
  have "fm_queues fifo_rep w1 m ws rs" unfolding w1_def by (rule rr.queues_update_outside [OF assms])
  then have rq: "fifo_rep (w_heap w1) (fm_sched_algo m) rs" by (rule fm_queuesD(3))
  have new: "is_ready (w_heap w1) f" "wf_nxt (w_heap w1 f) = None" "wf_prev (w_heap w1 f) = None"
    using new_fiber_simps(1,2) by (simp_all add: w1_def is_ready_def unqueued_def)
  have "fifo_rep (w_heap w') (fm_sched_algo m') (rs @ [f])"
    using rr.awakened_fifo [OF rq assms(3) new] spawn by (auto simp: fm_spawn_def split: bind_splits)
  with fm_queuesD(3) [OF c(2)] have "ys = rs @ [f]" by (rule rr.rq_unique)
  moreover have "\<not> is_terminated (w_heap w') f"
    using links_frame_fields(5) [OF c(4), of f] by (simp add: is_terminated_def)
  ultimately show ?thesis using c by (simp add: fiber_joinable_def fiber_not_def)
qed

theorem new_fiber_joins_the_line_witness:
  "\<exists>w' m'. fiber_ctor round_robin_algo 3 (sy_world demo_sys2) (sy_mgr demo_sys2) = Some (Some 3, w', m') \<and>
     fm_queues fifo_rep w' m' [] [2, 3]"
  using new_fiber_joins_the_line [OF demo_sys2_queues(1), of 3] by auto

text \<open>
  C29: the life of a fiber that returns. When the running fiber's function returns (or is left by an
  interruption) the trampoline marks it terminated, runs its clean-up functions and wakes everybody
  who joined it; a handle that then completes \<^verbatim>\<open>join\<close> lets go of it and reports nothing for a
  plain return, \<^verbatim>\<open>fiber_interrupted\<close> for an interruption.
\<close>

theorem fiber_end_reaches_joiner:
  assumes "fm_queues fifo_rep w m ws rs" and "fm_running w m a" and "wf_splk (w_heap w a) = UNLOCKED"
    and "set (wf_waiting (w_heap w a)) \<subseteq> set ws \<union> set rs" and "wf_except (w_heap w a) = None"
    and "oc \<in> {Fn_returned, Fn_interrupted}"
  shows "\<exists>evs w' w''. trampoline_exit oc a w = Some (Suspended_for_good, evs, w') \<and>
     is_terminated (w_heap w') a \<and> (\<forall>p \<in> set (wf_waiting (w_heap w a)). is_ready (w_heap w') p) \<and>
     fiber_join_leave (Some a) w' =
       Some (None, if oc = Fn_returned then Inr () else Inl fiber_interrupted, w'')"
proof -
  define w1 where "w1 = (if oc = Fn_returned then w else upd_heap (set_exception a (Some fiber_interrupted)) w)"
  have heap: "w_heap w1 = (w_heap w)(a := (w_heap w a)\<lparr>wf_except :=
      if oc = Fn_returned then None else Some fiber_interrupted\<rparr>)"
    using assms(5) by (auto simp: w1_def upd_heap_def set_exception_def)
  have "fm_queues fifo_rep w1 m ws rs"
    by (rule rr.queues_cong_fields [OF assms(1)]) (auto simp: sched_same_def w1_def upd_heap_def set_exception_def)
  moreover have "fm_running w1 m a" using assms(2) by (simp add: fm_running_def heap unqueued_def has_coro_def)
  ultimately obtain evs w' where fin: "trampoline_finish a w1 = Some (Suspended_for_good, evs, w')"
    "links_frame (set ws) (ready_all (set (wf_waiting (w_heap w1 a)))
       ((w_heap w1)(a := (w_heap w1 a)\<lparr>wf_state := TERMINATED, wf_waiting := []\<rparr>))) (w_heap w')"
    using rr.trampoline_finish_ok [of w1 m ws rs a] assms(3,4) by (auto simp: heap)
  have exit: "trampoline_exit oc a w = Some (Suspended_for_good, evs, w')"
    using assms(2,6) fin(1) by (auto simp: trampoline_exit_def w1_def fm_running_def is_running_def)
  note F = links_frame_fields [OF fin(2)]
  have out: "a \<notin> set (wf_waiting (w_heap w a))" using fm_running_outside [OF assms(1,2)] assms(4) by blast
  then have "wf_state (w_heap w' a) = TERMINATED" "wf_waiting (w_heap w' a) = []"
    "wf_except (w_heap w' a) = (if oc = Fn_returned then None else Some fiber_interrupted)"
    by (simp_all add: F ready_all_def heap)
  then have "\<exists>w''. fiber_join_leave (Some a) w' =
      Some (None, if oc = Fn_returned then Inr () else Inl fiber_interrupted, w'')"
    by (simp add: fiber_join_leave_def fm_join_leave_def is_terminated_def deallocate_def worker_fiber_dtor_def)
  moreover have "\<forall>p \<in> set (wf_waiting (w_heap w a)). is_ready (w_heap w') p"
    using out by (auto simp: F ready_all_def heap is_ready_def)
  ultimately show ?thesis using exit \<open>wf_state (w_heap w' a) = TERMINATED\<close> by (auto simp: is_terminated_def)
qed

text \<open>A thread in which fiber 1 waits in \<^verbatim>\<open>join\<close> for fiber 2, which is running.\<close>

definition demo_sys5 :: "round_robin sys" where
  "demo_sys5 = the (sys_script round_robin_algo
     [Rq_spawn 1, Rq_spawn 2, Rq_run 0 0, Rq_join 2, Rq_run 1 1] demo_sys0)"

lemma demo_sys5_queues:
  "fm_queues fifo_rep (sy_world demo_sys5) (sy_mgr demo_sys5) [1] []"
  "fm_running (sy_world demo_sys5) (sy_mgr demo_sys5) 2"
  "wf_waiting (w_heap (sy_world demo_sys5) 2) = [1]" "wf_splk (w_heap (sy_world demo_sys5) 2) = UNLOCKED"
  by code_simp+

theorem fiber_end_reaches_joiner_witness:
  "\<exists>evs w' w''. trampoline_exit Fn_interrupted 2 (sy_world demo_sys5) = Some (Suspended_for_good, evs, w') \<and>
     is_ready (w_heap w') 1 \<and> fiber_join_leave (Some 2) w' = Some (None, Inl fiber_interrupted, w'')"
proof -
  have "wf_except (w_heap (sy_world demo_sys5) 2) = None" by code_simp
  with fiber_end_reaches_joiner [OF demo_sys5_queues(1,2,4), of Fn_interrupted] demo_sys5_queues(3)
  show ?thesis by auto
qed

text \<open>
  \<^verbatim>\<open>join\<close> refuses to deadlock: a fiber that joins itself gets an error and nothing changes;
  joining any other fiber through a handle suspends the caller, registered with the fiber it joins,
  unless that has ended: then the caller stays ready.
\<close>

theorem fiber_join_spec:
  assumes "fm_queues fifo_rep w m ws rs" and "fm_running w m a" and "wf_splk (w_heap w f) = UNLOCKED"
  shows "(f = a \<longrightarrow> fiber_join_enter (Some f) w m =
       Some (Inl (fiber_resource_error errc_resource_deadlock_would_occur ''boost fiber: trying joining itself''))) \<and>
     (f \<noteq> a \<longrightarrow> (\<exists>w'. fiber_join_enter (Some f) w m = Some (Inr (w', m)) \<and>
        (if is_terminated (w_heap w) f
         then fm_queues fifo_rep w' m (a # ws) rs \<and> is_ready (w_heap w') a
         else fm_queues fifo_rep w' m (ws @ [a]) rs \<and> is_waiting (w_heap w') a \<and>
           wf_waiting (w_heap w' f) = wf_waiting (w_heap w f) @ [a])))"
proof -
  have a: "fm_active m = Some a" using assms(2) by (simp add: fm_running_def)
  have self: "fiber_join_enter (Some f) w m =
      (if f = a then Some (Inl (fiber_resource_error errc_resource_deadlock_would_occur
         ''boost fiber: trying joining itself''))
       else do { s \<leftarrow> fm_join_enter f w m; Some (Inr s) })"
    using a by (auto simp: fiber_join_enter_def this_get_id_def fiber_get_id_def fiber_joinable_def)
  have ended: ?thesis if f: "f \<noteq> a" "wf_state (w_heap w f) = TERMINATED"
  proof -
    from rr.join_enter_terminated [OF assms(1,2) f assms(3)] obtain w' where w':
      "fm_join_enter f w m = Some (w', m)" "fm_queues fifo_rep w' m (a # ws) rs"
      "links_frame (insert a (set ws)) ((w_heap w)(a := (w_heap w a)\<lparr>wf_state := READY,
         wf_phead := Some (fm_wqueue m), wf_ptail := Some (fm_wqueue m)\<rparr>)) (w_heap w')" by blast
    with self f links_frame_fields(5) [OF w'(3), of a] show ?thesis
      by (simp add: is_ready_def is_terminated_def)
  qed
  have waits: ?thesis if f: "f \<noteq> a" "wf_state (w_heap w f) \<noteq> TERMINATED"
  proof -
    from rr.join_enter_waits [OF assms(1,2) f assms(3)] obtain w' where w':
      "fm_join_enter f w m = Some (w', m)" "fm_queues fifo_rep w' m (ws @ [a]) rs"
      "links_frame (insert a (set ws)) ((w_heap w)(a := (w_heap w a)\<lparr>wf_state := WAITING,
         wf_phead := Some (fm_wqueue m), wf_ptail := Some (fm_wqueue m)\<rparr>,
         f := (w_heap w f)\<lparr>wf_waiting := wf_waiting (w_heap w f) @ [a]\<rparr>)) (w_heap w')" by blast
    with self f links_frame_fields [OF w'(3), of a] links_frame_fields [OF w'(3), of f] show ?thesis
      by (simp add: is_waiting_def is_terminated_def)
  qed
  have ?thesis if "f = a" using self that by simp
  with ended waits show ?thesis by blast
qed

theorem fiber_join_spec_witness:
  "fiber_join_enter (Some 1) (sy_world demo_sys2) (sy_mgr demo_sys2) =
     Some (Inl (fiber_resource_error errc_resource_deadlock_would_occur ''boost fiber: trying joining itself'')) \<and>
   (\<exists>w'. fiber_join_enter (Some 2) (sy_world demo_sys2) (sy_mgr demo_sys2) = Some (Inr (w', sy_mgr demo_sys2)) \<and>
     is_waiting (w_heap w') 1)"
proof -
  have "wf_splk (w_heap (sy_world demo_sys2) 1) = UNLOCKED" "wf_splk (w_heap (sy_world demo_sys2) 2) = UNLOCKED"
    "\<not> is_terminated (w_heap (sy_world demo_sys2)) 2" by code_simp+
  with fiber_join_spec [OF demo_sys2_queues, of 1] fiber_join_spec [OF demo_sys2_queues, of 2]
  show ?thesis by auto
qed

section \<open>Examples of storage and interruption\<close>

definition demo_ptr :: fiber_specific_ptr where
  "demo_ptr = \<lparr>fsp_this = 100, fsp_cleanup_fn = 7\<rparr>"

definition demo_world6 :: world where
  "demo_world6 = snd (the (fsp_reset demo_ptr 55 (sy_world demo_sys2) (sy_mgr demo_sys2)))"

lemma demo_ptr_facts:
  "fm_active (sy_mgr demo_sys2) = Some 1" "fsp_cleanup_fn demo_ptr \<noteq> 0"
  "fss_wf (wf_fss (w_heap (sy_world demo_sys2) 1))"
  "fss_find (fsp_this demo_ptr) (wf_fss (w_heap (sy_world demo_sys2) 1)) = None"
  "fss_wf (wf_fss (w_heap demo_world6 1))"
  "fss_find (fsp_this demo_ptr) (wf_fss (w_heap demo_world6 1)) = Some \<lparr>fss_vp = 55, fss_cleanup_function = 7\<rparr>"
  by code_simp+

theorem fsp_reset_then_get_witness:
  "(\<exists>w'. fsp_reset demo_ptr 55 (sy_world demo_sys2) (sy_mgr demo_sys2) = Some ([], w') \<and>
      fsp_get demo_ptr w' (sy_mgr demo_sys2) = Some 55) \<and>
   (\<exists>w'. fsp_reset demo_ptr 0 demo_world6 (sy_mgr demo_sys2) = Some ([(7, 55)], w') \<and>
      fsp_get demo_ptr w' (sy_mgr demo_sys2) = Some 0)"
  using fsp_reset_then_get [OF demo_ptr_facts(1,3,2), of 55] fsp_reset_then_get [OF demo_ptr_facts(1,5,2), of 0]
    demo_ptr_facts(4,6) by (auto split: if_splits)

theorem fsp_reset_existing_keeps_old_witness:
  "\<exists>w'. fsp_reset demo_ptr 66 demo_world6 (sy_mgr demo_sys2) = Some ([(7, 55)], w') \<and>
     fsp_get demo_ptr w' (sy_mgr demo_sys2) = Some 55"
  using fsp_reset_existing_keeps_old [OF demo_ptr_facts(1,5,2,6), of 66] by auto

theorem fsp_release_then_reset_lost_witness:
  "\<exists>w1 w2. fsp_release demo_ptr (sy_world demo_sys2) (sy_mgr demo_sys2) = Some (0, [], w1) \<and>
     fsp_reset demo_ptr 55 w1 (sy_mgr demo_sys2) = Some ([(7, 0)], w2) \<and> fsp_get demo_ptr w2 (sy_mgr demo_sys2) = Some 0"
  using fsp_release_then_reset_lost [OF demo_ptr_facts(1,3,2,4), of 55] by (simp add: demo_ptr_def)

theorem fsp_release_forgets_witness:
  "\<exists>w'. fsp_release demo_ptr demo_world6 (sy_mgr demo_sys2) = Some (55, [], w') \<and>
     fsp_get demo_ptr w' (sy_mgr demo_sys2) = Some 0"
  using fsp_release_forgets [OF demo_ptr_facts(1,5,2)] demo_ptr_facts(6) by (auto simp: get_fss_data_def)

theorem release_cleans_up_witness:
  "\<exists>evs w'. wf_release 2 ((sy_world demo_sys5)\<lparr>w_heap := the (set_terminated 2 (w_heap (sy_world demo_sys5)))\<rparr>) =
     Some (evs, w') \<and> is_ready (w_heap w') 1"
proof -
  let ?w = "(sy_world demo_sys5)\<lparr>w_heap := the (set_terminated 2 (w_heap (sy_world demo_sys5)))\<rparr>"
  have "fm_queues fifo_rep ?w (sy_mgr demo_sys5) [1] []" "wf_state (w_heap ?w 2) = TERMINATED"
    "wf_splk (w_heap ?w 2) = UNLOCKED" "wf_waiting (w_heap ?w 2) = [1]" by code_simp+
  with release_cleans_up [OF this(1-3)] show ?thesis by auto
qed

theorem interruption_guards_nest_witness:
  "\<exists>was_set w1. disable_interruption_ctor (sy_world demo_sys2) (sy_mgr demo_sys2) = Some (was_set, w1) \<and>
     \<not> this_interruption_enabled w1 (sy_mgr demo_sys2)"
  using interruption_guards_nest [OF demo_ptr_facts(1)] by blast

theorem interruption_point_spec_witness:
  "\<exists>w'. interruption_point (the (request_interruption True 1 (sy_world demo_sys2))) (sy_mgr demo_sys2) =
     Some (Inl fiber_interrupted, w') \<and> interruption_point w' (sy_mgr demo_sys2) = Some (Inr (), w')"
proof -
  let ?w = "the (request_interruption True 1 (sy_world demo_sys2))"
  have "interruption_requested (w_heap ?w 1)" "\<not> interruption_blocked (w_heap ?w 1)" by code_simp+
  with interruption_point_spec [OF demo_ptr_facts(1), of ?w] show ?thesis by auto
qed

theorem interrupt_wakes_waiting_witness:
  "\<exists>w'. request_interruption True 2 (sy_world demo_sys4) = Some w' \<and> is_ready (w_heap w') 2 \<and>
     interruption_requested (w_heap w' 2)"
  using interrupt_wakes_waiting [OF demo_sys4_queues(1), of 2] by auto

theorem interrupt_terminated_fails_witness:
  "request_interruption True 2 (sy_world demo_sys3) = None"
proof -
  have "wf_state (w_heap (sy_world demo_sys3) 2) = TERMINATED" by code_simp
  then show ?thesis by (rule interrupt_terminated_fails)
qed

end
