(* ===== verification/Blocking.thy ===== *)
theory Blocking
  imports Condition
begin

text \<open>
  What the classes built on a mutex and a condition variable share (\<^verbatim>\<open>bounded_queue.hpp\<close>,
  \<^verbatim>\<open>unbounded_queue.hpp\<close>, \<^verbatim>\<open>future/detail/shared_state.hpp\<close>). A call of them runs in
  segments: it can go to sleep in the line of the mutex or at the condition variable, and is
  continued from there.
\<close>

text \<open>
  How a segment of a call ends: with the result, in the line of the mutex the call begins with, at
  the condition, or in the line of a second mutex that it takes while it holds the first. In the
  last case the point in the call where that happened says how it goes on.
\<close>

datatype wait_point = Test_loop | Test_closed | Test_empty | At_lock

datatype 'r turn = Done 'r | In_line | Asleep | In_tail_line wait_point

text \<open>
  A segment of a call on an object of type \<open>'q\<close>, and a block of statements of it that cannot
  wait.
\<close>

type_synonym ('r, 'q, 's) segment =
  "world \<Rightarrow> 's fiber_manager \<Rightarrow> 'q \<Rightarrow> ('r turn \<times> 'q \<times> world \<times> 's fiber_manager) option"

type_synonym ('r, 'q) block = "world \<Rightarrow> 'q \<Rightarrow> ('r \<times> 'q \<times> world) option"

section \<open>Callers that are fibers or main contexts\<close>

text \<open>
  \<^verbatim>\<open>mutex::lock\<close>, \<^verbatim>\<open>condition::wait\<close> and \<^verbatim>\<open>condition::wait_until\<close> first ask whether a fiber
  is active. If not they put a \<^verbatim>\<open>main_fiber\<close> object on the stack, at the address \<open>k\<close>. A main
  context that waits turns the scheduler until its object is ready, and then goes on like a fiber
  that has been resumed.
\<close>

definition ctx_lock ::
  "mfid \<Rightarrow> world \<Rightarrow> 's fiber_manager \<Rightarrow> mutex \<Rightarrow> (bool \<times> mutex \<times> world \<times> 's fiber_manager) option" where
  "ctx_lock k w m mx =
     (case fm_active m of
        Some a \<Rightarrow> mutex_lock_fiber w m mx
      | None \<Rightarrow> do {
          (got, mx') \<leftarrow> mutex_lock_main k m mx;
          Some (got, mx', main_fiber_init k w, m) })"

definition ctx_wait_enter ::
  "mfid \<Rightarrow> mutex \<Rightarrow> world \<Rightarrow> 's fiber_manager \<Rightarrow> condition \<Rightarrow> (mutex \<times> condition \<times> world \<times> 's fiber_manager) option" where
  "ctx_wait_enter k mx w m cv =
     (case fm_active m of
        Some a \<Rightarrow> condition_wait_enter (\<lambda>l v. mutex_unlock v m l) mx w m cv
      | None \<Rightarrow> do {
          (mx', cv', w') \<leftarrow> condition_wait_main_enter (\<lambda>l v. mutex_unlock v m l) mx k w cv;
          Some (mx', cv', w', m) })"

definition ctx_wait_until_enter ::
  "mfid \<Rightarrow> mutex \<Rightarrow> time_point \<Rightarrow> world \<Rightarrow> 's fiber_manager \<Rightarrow> condition \<Rightarrow>
   (mutex \<times> condition \<times> world \<times> 's fiber_manager) option" where
  "ctx_wait_until_enter k mx t w m cv =
     (case fm_active m of
        Some a \<Rightarrow> condition_wait_until_enter (\<lambda>l v. mutex_unlock v m l) mx t w m cv
      | None \<Rightarrow> do {
          (mx', cv', w') \<leftarrow> condition_wait_until_main_enter (\<lambda>l v. mutex_unlock v m l) mx k w cv;
          Some (mx', cv', w', m) })"

section \<open>Mutexes nobody waits for\<close>

definition mutex_held :: "fid \<Rightarrow> mutex" where
  "mutex_held a = mutex_init\<lparr>mtx_state := LOCKED, mtx_owner := get_id a\<rparr>"

lemma mutex_free_held:
  assumes "fm_active m = Some a"
  shows "mutex_lock_fiber w m mutex_init = Some (True, mutex_held a, w, m)"
    and "mutex_lock_section n (this_get_id m) mutex_init = Some (True, mutex_held a)"
    and "mutex_unlock w m (mutex_held a) = Some (mutex_init, w)"
  using assms
  by (simp_all add: mutex_lock_fiber_def mutex_lock_section_def mutex_unlock_def mutex_unlock_section_def
      mutex_init_def mutex_held_def spinlock_init_def this_get_id_def notify_waiter_def)

text \<open>Notifying a condition at which only sleeping fibers of this thread wait.\<close>

definition condition_sleepers :: "condition \<Rightarrow> fid list \<Rightarrow> bool" where
  "condition_sleepers cv fs \<longleftrightarrow> cv_splk cv = UNLOCKED \<and> cv_waiting cv = map Worker fs"

lemma condition_notify_one_nobody:
  "condition_sleepers cv [] \<Longrightarrow> condition_notify_one cv w = Some (cv, w)"
  by (cases cv) (simp add: condition_sleepers_def condition_notify_one_def notify_waiter_def)

lemma condition_notify_one_sleepers:
  assumes "condition_sleepers cv fs" and "fm_queues fifo_rep w m ws rs" and "set fs \<subseteq> set ws"
  shows "\<exists>cv' w' ws'. condition_notify_one cv w = Some (cv', w') \<and> condition_sleepers cv' (tl fs) \<and>
     fm_queues fifo_rep w' m ws' rs \<and> set ws' = set ws \<and> (fs \<noteq> [] \<longrightarrow> is_ready (w_heap w') (hd fs)) \<and>
     ws' = (case fs of [] \<Rightarrow> ws | f # _ \<Rightarrow> f # remove1 f ws) \<and>
     (\<forall>g. g \<noteq> hd fs \<longrightarrow> wf_state (w_heap w' g) = wf_state (w_heap w g))"
proof (cases fs)
  case Nil
  with assms condition_notify_one_nobody [of cv w] show ?thesis by auto
next
  case (Cons f gs)
  with assms(1,3) have f: "cv_splk cv = UNLOCKED" "cv_waiting cv = Worker f # map Worker gs" "f \<in> set ws"
    by (auto simp: condition_sleepers_def)
  from condition_notify_one_ok [OF f(1,2) assms(2) f(3)] obtain w' where
    "condition_notify_one cv w = Some (cv\<lparr>cv_waiting := map Worker gs\<rparr>, w')"
    "fm_queues fifo_rep w' m (f # remove1 f ws) rs" "is_ready (w_heap w') f"
    "\<forall>g. g \<noteq> f \<longrightarrow> wf_state (w_heap w' g) = wf_state (w_heap w g)" by blast
  moreover have "set (f # remove1 f ws) = set ws"
    using fm_queuesD(1) [OF assms(2)] f(3) by (auto simp: wq_rep_def)
  ultimately show ?thesis using Cons f(1) by (auto simp: condition_sleepers_def)
qed

text \<open>The same for either kind of caller.\<close>

definition mutex_taken :: "fiber_id \<Rightarrow> mutex" where
  "mutex_taken i = mutex_init\<lparr>mtx_state := LOCKED, mtx_owner := i\<rparr>"

lemma mutex_held_taken: "mutex_held a = mutex_taken (get_id a)"
  by (simp add: mutex_held_def mutex_taken_def)

definition ctx_locked_world :: "mfid \<Rightarrow> 's fiber_manager \<Rightarrow> world \<Rightarrow> world" where
  "ctx_locked_world k m w = (if fm_active m = None then main_fiber_init k w else w)"

lemma ctx_locked_world_simps [simp]:
  "w_heap (ctx_locked_world k m w) = w_heap w" "w_wqs (ctx_locked_world k m w) = w_wqs w"
  "fm_active m = Some a \<Longrightarrow> ctx_locked_world k m w = w"
  "ctx_locked_world k m (ctx_locked_world k m w) = ctx_locked_world k m w"
  by (simp_all add: ctx_locked_world_def main_fiber_init_def)

lemma fm_queues_ctx_locked: "fm_queues rq (ctx_locked_world k m' w) m ws rs = fm_queues rq w m ws rs"
  by (simp add: fm_queues_def wq_rep_def)

lemma ctx_wait_fiber:
  "fm_active m = Some a \<Longrightarrow>
     ctx_wait_enter k mx w m cv = condition_wait_enter (\<lambda>l v. mutex_unlock v m l) mx w m cv"
  by (simp add: ctx_wait_enter_def)

lemma ctx_lock_free: "ctx_lock k w m mutex_init = Some (True, mutex_taken (this_get_id m), ctx_locked_world k m w, m)"
proof (cases "fm_active m")
  case None
  then show ?thesis
    by (simp add: ctx_lock_def mutex_lock_main_def mutex_lock_release_def mutex_lock_section_def mutex_init_def
        mutex_taken_def spinlock_init_def ctx_locked_world_def)
next
  case (Some a)
  then show ?thesis
    using mutex_free_held(1) [OF Some] by (simp add: ctx_lock_def mutex_held_taken this_get_id_def)
qed

lemma ctx_unlock: "mutex_unlock w m (mutex_taken (this_get_id m)) = Some (mutex_init, w)"
  by (simp add: mutex_unlock_def mutex_unlock_section_def mutex_init_def mutex_taken_def spinlock_init_def
      notify_waiter_def)

text \<open>A fiber goes to sleep at a condition and gives back a mutex nobody waits for.\<close>

lemma ctx_sleep_ok:
  assumes cv: "condition_sleepers cv fs" "a \<notin> set fs" and run: "fm_running w m a"
    and Q: "fm_queues fifo_rep w m ws rs"
  shows "\<exists>cv' w'. ctx_wait_enter k (mutex_taken (this_get_id m)) w m cv = Some (mutex_init, cv', w', m) \<and>
     condition_sleepers cv' (fs @ [a]) \<and> fm_queues fifo_rep w' m (ws @ [a]) rs \<and> is_waiting (w_heap w') a"
proof -
  have act: "fm_active m = Some a" using run by (simp add: fm_running_def)
  have "cv_splk cv = UNLOCKED" "Worker a \<notin> set (cv_waiting cv)" using cv by (auto simp: condition_sleepers_def)
  from condition_wait_enter_ok [of cv a m "\<lambda>l v. mutex_unlock v m l" "mutex_taken (this_get_id m)" w mutex_init w,
      OF this act ctx_unlock Q run] cv(1)
  show ?thesis unfolding ctx_wait_fiber [OF act] by (auto simp: condition_sleepers_def)
qed

end
