(* ===== verification/Queue_Chain.thy ===== *)
theory Queue_Chain
  imports Blocking
begin

text \<open>
  What \<^verbatim>\<open>bounded_queue\<close> and \<^verbatim>\<open>unbounded_queue\<close> have in common: a singly linked chain of nodes
  that ends in an empty node (\<^verbatim>\<open>tail_\<close>), the node a value is written to next; and the contract of
  a channel, that values come out in the order they went in.
\<close>

section \<open>Nodes\<close>

text \<open>
  \<open>qn_va\<close> is \<open>None\<close> while the member \<^verbatim>\<open>va\<close> has its default value. The reference counts
  of the nodes decide when a node is freed; nobody reads a node that has been freed, and the model
  keeps it.
\<close>

record 'a queue_node =
  qn_va :: "'a option"
  qn_next :: "nat option"

definition queue_node_init :: "'a queue_node" where
  "queue_node_init = \<lparr>qn_va = None, qn_next = None\<rparr>"

text \<open>\<open>qc_fresh\<close> is the next address \<^verbatim>\<open>new\<close> returns.\<close>

record 'a node_chain =
  qc_nodes :: "nat \<Rightarrow> 'a queue_node"
  qc_fresh :: nat
  qc_head :: nat
  qc_tail :: nat

definition qc_init :: "'a node_chain" where
  "qc_init = \<lparr>qc_nodes = (\<lambda>_. queue_node_init), qc_fresh = 1, qc_head = 0, qc_tail = 0\<rparr>"

definition qc_new :: "'a node_chain \<Rightarrow> nat \<times> 'a node_chain" where
  "qc_new c = (qc_fresh c, c\<lparr>qc_nodes := (qc_nodes c)(qc_fresh c := queue_node_init), qc_fresh := qc_fresh c + 1\<rparr>)"

text \<open>\<^verbatim>\<open>tail_->va = va; tail_->next = new_node; tail_ = new_node\<close>.\<close>

definition qc_link :: "nat \<Rightarrow> 'a \<Rightarrow> 'a node_chain \<Rightarrow> 'a node_chain" where
  "qc_link new_node va c =
     c\<lparr>qc_nodes := (qc_nodes c)(qc_tail c := \<lparr>qn_va = Some va, qn_next = Some new_node\<rparr>),
       qc_tail := new_node\<rparr>"

text \<open>
  \<^verbatim>\<open>va = move( head_->va)\<close> and \<^verbatim>\<open>pop_head_()\<close>; undefined if the node at the head has no
  successor.
\<close>

definition qc_pop_head :: "'a node_chain \<Rightarrow> ('a option \<times> 'a node_chain) option" where
  "qc_pop_head c = do {
     let old_head = qc_nodes c (qc_head c);
     nxt \<leftarrow> qn_next old_head;
     Some (qn_va old_head, c\<lparr>qc_head := nxt\<rparr>) }"

text \<open>\<^verbatim>\<open>swap( va, head_->va)\<close> as it changes the node.\<close>

definition qc_swap_head :: "'a \<Rightarrow> 'a node_chain \<Rightarrow> 'a node_chain" where
  "qc_swap_head va c =
     c\<lparr>qc_nodes := (qc_nodes c)(qc_head c := (qc_nodes c (qc_head c))\<lparr>qn_va := Some va\<rparr>)\<rparr>"

definition qc_empty :: "'a node_chain \<Rightarrow> bool" where
  "qc_empty c \<longleftrightarrow> qc_head c = qc_tail c"

section \<open>Chains as lists\<close>

fun qchain :: "(nat \<Rightarrow> 'a queue_node) \<Rightarrow> nat \<Rightarrow> (nat \<times> 'a) list \<Rightarrow> nat \<Rightarrow> bool" where
  "qchain N p [] t \<longleftrightarrow> p = t"
| "qchain N p ((a, v) # xs) t \<longleftrightarrow>
     p = a \<and> qn_va (N a) = Some v \<and> (\<exists>n. qn_next (N a) = Some n \<and> qchain N n xs t)"

definition qc_path :: "'a node_chain \<Rightarrow> (nat \<times> 'a) list \<Rightarrow> bool" where
  "qc_path c avs \<longleftrightarrow> qchain (qc_nodes c) (qc_head c) avs (qc_tail c) \<and>
     distinct (map fst avs @ [qc_tail c]) \<and> (\<forall>a \<in> set (map fst avs @ [qc_tail c]). a < qc_fresh c)"

definition qc_rep :: "'a node_chain \<Rightarrow> 'a list \<Rightarrow> bool" where
  "qc_rep c xs \<longleftrightarrow> (\<exists>avs. map snd avs = xs \<and> qc_path c avs)"

text \<open>A node that has been allocated for a value but is not linked yet.\<close>

definition qc_spare :: "nat \<Rightarrow> 'a node_chain \<Rightarrow> bool" where
  "qc_spare new_node c \<longleftrightarrow> new_node < qc_fresh c \<and>
     (\<forall>avs. qc_path c avs \<longrightarrow> new_node \<notin> set (map fst avs @ [qc_tail c]))"

lemma qchain_cong:
  "qchain N p avs t \<Longrightarrow> (\<And>a. a \<in> fst ` set avs \<Longrightarrow> N' a = N a) \<Longrightarrow> qchain N' p avs t"
  by (induction N p avs t rule: qchain.induct) auto

lemma qchain_snoc:
  "qchain N p avs t \<Longrightarrow> t \<notin> fst ` set avs \<Longrightarrow>
     qchain (N(t := \<lparr>qn_va = Some v, qn_next = Some n\<rparr>)) p (avs @ [(t, v)]) n"
  by (induction N p avs t rule: qchain.induct) auto

lemma qc_path_unique:
  assumes "qc_path c avs" and "qc_path c bvs"
  shows "avs = bvs"
proof -
  have "qchain N p avs t \<Longrightarrow> qchain N p bvs t \<Longrightarrow> t \<notin> fst ` set avs \<Longrightarrow> t \<notin> fst ` set bvs \<Longrightarrow> avs = bvs"
    for N p t
  proof (induction N p avs t arbitrary: bvs rule: qchain.induct)
    case (1 N p t)
    then show ?case by (cases bvs) auto
  next
    case (2 N p a v xs t)
    then obtain ys where "bvs = (a, v) # ys" by (cases bvs) auto
    with 2 show ?case by auto
  qed
  with assms show ?thesis by (auto simp: qc_path_def)
qed

lemma qc_rep_unique: "qc_rep c xs \<Longrightarrow> qc_rep c ys \<Longrightarrow> xs = ys"
  unfolding qc_rep_def using qc_path_unique by blast

lemma qc_init_rep: "qc_rep qc_init []"
  by (auto simp: qc_rep_def qc_path_def qc_init_def)

lemma qc_new_rep:
  assumes "qc_rep c xs" and "qc_new c = (n, c')"
  shows "qc_rep c' xs" and "qc_spare n c'"
proof -
  obtain avs where avs: "map snd avs = xs" "qc_path c avs" using assms(1) by (auto simp: qc_rep_def)
  have "qchain (qc_nodes c') (qc_head c') avs (qc_tail c')"
    by (rule qchain_cong [of "qc_nodes c"]) (use avs(2) assms(2) in \<open>auto simp: qc_path_def qc_new_def\<close>)
  then have path: "qc_path c' avs"
    using avs(2) assms(2) by (auto simp: qc_path_def qc_new_def image_iff less_Suc_eq)
  with avs(1) show "qc_rep c' xs" by (auto simp: qc_rep_def)
  have "n \<notin> set (map fst avs @ [qc_tail c'])"
    using avs(2) assms(2) by (auto simp: qc_path_def qc_new_def)
  then show "qc_spare n c'"
    using qc_path_unique [OF path] assms(2) by (auto simp: qc_spare_def qc_new_def)
qed

lemma qc_link_rep:
  assumes "qc_rep c xs" and "qc_spare n c"
  shows "qc_rep (qc_link n v c) (xs @ [v])"
proof -
  obtain avs where avs: "map snd avs = xs" "qc_path c avs" using assms(1) by (auto simp: qc_rep_def)
  have n: "n \<notin> fst ` set avs" "n \<noteq> qc_tail c" "n < qc_fresh c" "qc_tail c \<notin> fst ` set avs"
    using assms(2) avs(2) by (auto simp: qc_spare_def qc_path_def)
  have "qc_path (qc_link n v c) (avs @ [(qc_tail c, v)])"
    using qchain_snoc [of "qc_nodes c" "qc_head c" avs "qc_tail c" v n] avs(2) n
    by (auto simp: qc_path_def qc_link_def)
  with avs(1) show ?thesis unfolding qc_rep_def by (intro exI [of _ "avs @ [(qc_tail c, v)]"]) simp
qed

lemma qc_pop_head_rep:
  assumes "qc_rep c (x # xs)"
  shows "\<exists>c'. qc_pop_head c = Some (Some x, c') \<and> qc_rep c' xs"
proof -
  obtain a avs where avs: "map snd avs = xs" "qc_path c ((a, x) # avs)"
    using assms by (auto simp: qc_rep_def)
  then obtain n where n: "qn_next (qc_nodes c (qc_head c)) = Some n" "qn_va (qc_nodes c (qc_head c)) = Some x"
    "qchain (qc_nodes c) n avs (qc_tail c)" by (auto simp: qc_path_def)
  have "qc_path (c\<lparr>qc_head := n\<rparr>) avs" using avs(2) n by (auto simp: qc_path_def)
  with avs(1) n show ?thesis by (auto simp: qc_pop_head_def qc_rep_def)
qed

lemma qc_swap_head_rep:
  assumes "qc_rep c (x # xs)"
  shows "qc_rep (qc_swap_head va c) (va # xs)"
proof -
  obtain p avs where avs: "map snd avs = xs" "qc_path c ((p, x) # avs)"
    using assms by (auto simp: qc_rep_def)
  then obtain n where n: "qc_head c = p" "qn_next (qc_nodes c p) = Some n" "qchain (qc_nodes c) n avs (qc_tail c)"
    "p \<notin> fst ` set avs" by (auto simp: qc_path_def)
  have "qchain (qc_nodes (qc_swap_head va c)) n avs (qc_tail c)"
    by (rule qchain_cong [OF n(3)]) (use n(1,4) in \<open>auto simp: qc_swap_head_def image_iff\<close>)
  then have "qc_path (qc_swap_head va c) ((p, va) # avs)"
    using avs(2) n(1,2) by (auto simp: qc_path_def qc_swap_head_def)
  with avs(1) show ?thesis unfolding qc_rep_def by (intro exI [of _ "(p, va) # avs"]) simp
qed

lemma qc_empty_iff: "qc_rep c xs \<Longrightarrow> qc_empty c \<longleftrightarrow> xs = []"
  by (cases xs) (auto simp: qc_rep_def qc_path_def qc_empty_def)

lemmas qc_reps = qc_init_rep qc_new_rep qc_link_rep qc_pop_head_rep qc_empty_iff

section \<open>The contract of a channel\<close>

text \<open>
  \<open>put\<close> appends a value, \<open>get\<close> takes the first one; \<open>rep q xs\<close>: the channel \<open>q\<close>
  holds the values \<open>xs\<close>.
\<close>

locale channel =
  fixes rep :: "'q \<Rightarrow> 'a list \<Rightarrow> bool"
    and put :: "'a \<Rightarrow> 'q \<Rightarrow> 'q"
    and get :: "'q \<Rightarrow> ('a option \<times> 'q) option"
    and is_empty :: "'q \<Rightarrow> bool"
  assumes put_rep: "rep q xs \<Longrightarrow> rep (put v q) (xs @ [v])"
    and get_rep: "rep q (x # xs) \<Longrightarrow> \<exists>q'. get q = Some (Some x, q') \<and> rep q' xs"
    and empty_rep: "rep q xs \<Longrightarrow> is_empty q \<longleftrightarrow> xs = []"

datatype 'a channel_op = Put 'a | Get

text \<open>A run of a channel: the values that came out, and the channel afterwards.\<close>

fun channel_run ::
  "('a \<Rightarrow> 'q \<Rightarrow> 'q) \<Rightarrow> ('q \<Rightarrow> ('a option \<times> 'q) option) \<Rightarrow> ('q \<Rightarrow> bool) \<Rightarrow> 'a channel_op list \<Rightarrow> 'q \<Rightarrow>
   ('a option list \<times> 'q) option" where
  "channel_run put get is_empty [] q = Some ([], q)"
| "channel_run put get is_empty (Put v # ops) q = channel_run put get is_empty ops (put v q)"
| "channel_run put get is_empty (Get # ops) q =
     (if is_empty q then channel_run put get is_empty ops q
      else do {
        (v, q1) \<leftarrow> get q;
        (vs, q2) \<leftarrow> channel_run put get is_empty ops q1;
        Some (v # vs, q2) })"

fun channel_puts :: "'a channel_op list \<Rightarrow> 'a list" where
  "channel_puts [] = []"
| "channel_puts (Put v # ops) = v # channel_puts ops"
| "channel_puts (Get # ops) = channel_puts ops"

context channel
begin

lemma run_fifo:
  assumes "rep q xs"
  shows "\<exists>outs q' rest. channel_run put get is_empty ops q = Some (map Some outs, q') \<and> rep q' rest \<and>
     outs @ rest = xs @ channel_puts ops"
  using assms
proof (induction ops arbitrary: q xs)
  case Nil
  then show ?case by (intro exI [of _ "[]"] exI [of _ q] exI [of _ xs]) simp
next
  case (Cons op ops)
  show ?case
  proof (cases op)
    case (Put v)
    with Cons.IH [OF put_rep [OF Cons.prems], of v] show ?thesis by simp
  next
    case Get
    show ?thesis
    proof (cases xs)
      case Nil
      with Get Cons.IH [OF Cons.prems] Cons.prems show ?thesis by (simp add: empty_rep)
    next
      case xs: (Cons y ys)
      from get_rep [OF Cons.prems [unfolded xs]] obtain q1 where q1: "get q = Some (Some y, q1)" "rep q1 ys"
        by blast
      from Cons.IH [OF q1(2)] obtain outs q' rest where
        "channel_run put get is_empty ops q1 = Some (map Some outs, q')" "rep q' rest"
        "outs @ rest = ys @ channel_puts ops" by blast
      with q1(1) Get xs Cons.prems show ?thesis
        by (intro exI [of _ "y # outs"] exI [of _ q'] exI [of _ rest]) (simp add: empty_rep)
    qed
  qed
qed

end

end
