(* ===== verification/Unbounded_Queue.thy ===== *)
theory Unbounded_Queue
  imports Queue_Chain
begin

text \<open>
  The class template \<^verbatim>\<open>unbounded_queue\<close> (\<^verbatim>\<open>unbounded_queue.hpp\<close>) and its specialisation for
  pointers, used by fibers and by main contexts. An operation runs in segments: it can go to sleep in
  the line of a mutex or at the condition variable, and is continued from there. A copy or move of a
  value can throw;
  \<open>Some e\<close> as an argument says that it does.
\<close>

datatype queue_op_status = queue_success | queue_empty | queue_full | queue_closed | queue_timeout

datatype queue_state = OPEN | CLOSED

type_synonym 'a pop_result = "(queue_op_status \<times> 'a option) result"

record 'a unbounded_queue =
  uq_state :: queue_state
  uq_chain :: "'a node_chain"
  uq_head_mtx :: mutex
  uq_tail_mtx :: mutex
  uq_not_empty :: condition

definition unbounded_queue_ctor :: "'a unbounded_queue" where
  "unbounded_queue_ctor =
     \<lparr>uq_state = OPEN, uq_chain = qc_init, uq_head_mtx = mutex_init, uq_tail_mtx = mutex_init,
      uq_not_empty = condition_init\<rparr>"

section \<open>Private functions\<close>

definition uq_is_closed :: "'a unbounded_queue \<Rightarrow> bool" where
  "uq_is_closed q \<longleftrightarrow> CLOSED = uq_state q"

definition uq_close :: "world \<Rightarrow> 'a unbounded_queue \<Rightarrow> ('a unbounded_queue \<times> world) option" where
  "uq_close w q = do {
     (cv, w') \<leftarrow> condition_notify_all (uq_not_empty q) w;
     Some (q\<lparr>uq_state := CLOSED, uq_not_empty := cv\<rparr>, w') }"

text \<open>
  The specialisation for pointers has the same private functions, word for word but for this one.
\<close>

definition uq_ptr_is_closed :: "'a unbounded_queue \<Rightarrow> bool" where
  "uq_ptr_is_closed q \<longleftrightarrow> OPEN \<noteq> uq_state q"

definition uq_unlock_tail :: "world \<Rightarrow> 's fiber_manager \<Rightarrow> 'a unbounded_queue \<Rightarrow> ('a unbounded_queue \<times> world) option" where
  "uq_unlock_tail w m q = do {
     (mx, w') \<leftarrow> mutex_unlock w m (uq_tail_mtx q);
     Some (q\<lparr>uq_tail_mtx := mx\<rparr>, w') }"

definition uq_unlock_head :: "world \<Rightarrow> 's fiber_manager \<Rightarrow> 'a unbounded_queue \<Rightarrow> ('a unbounded_queue \<times> world) option" where
  "uq_unlock_head w m q = do {
     (mx, w') \<leftarrow> mutex_unlock w m (uq_head_mtx q);
     Some (q\<lparr>uq_head_mtx := mx\<rparr>, w') }"

text \<open>
  \<^verbatim>\<open>get_tail_\<close> takes the tail mutex for the reading; \<open>None\<close> instead of the pointer: the caller
  has to wait in the line of that mutex.
\<close>

definition uq_get_tail ::
  "mfid \<Rightarrow> world \<Rightarrow> 's fiber_manager \<Rightarrow> 'a unbounded_queue \<Rightarrow>
   (nat option \<times> 'a unbounded_queue \<times> world \<times> 's fiber_manager) option" where
  "uq_get_tail k w m q = do {
     (got, mx, w1, m1) \<leftarrow> ctx_lock k w m (uq_tail_mtx q);
     let q1 = q\<lparr>uq_tail_mtx := mx\<rparr>;
     if got then do {
       let tmp = qc_tail (uq_chain q1);
       (q2, w2) \<leftarrow> uq_unlock_tail w1 m1 q1;
       Some (Some tmp, q2, w2, m1) }
     else Some (None, q1, w1, m1) }"

definition uq_is_empty ::
  "mfid \<Rightarrow> world \<Rightarrow> 's fiber_manager \<Rightarrow> 'a unbounded_queue \<Rightarrow>
   (bool option \<times> 'a unbounded_queue \<times> world \<times> 's fiber_manager) option" where
  "uq_is_empty k w m q = do {
     (t, q', w', m') \<leftarrow> uq_get_tail k w m q;
     Some (map_option (\<lambda>p. qc_head (uq_chain q') = p) t, q', w', m') }"

text \<open>
  The statements that begin with the test for emptiness, at the point \<open>p\<close> of the call: \<open>cont\<close>
  gets the answer. A caller that waited in the line of the tail mutex comes here again.
\<close>

definition uq_test ::
  "wait_point \<Rightarrow> mfid \<Rightarrow> (bool \<Rightarrow> ('r, 'a unbounded_queue, 's) segment) \<Rightarrow> ('r, 'a unbounded_queue, 's) segment" where
  "uq_test p k cont w m q = do {
     (e, q1, w1, m1) \<leftarrow> uq_is_empty k w m q;
     case e of
       None \<Rightarrow> Some (In_tail_line p, q1, w1, m1)
     | Some b \<Rightarrow> cont b w1 m1 q1 }"

section \<open>Public functions without a loop\<close>

definition unbounded_queue_close :: "(unit, 'a unbounded_queue, 's) segment" where
  "unbounded_queue_close w m q = do { (q', w') \<leftarrow> uq_close w q; Some (Done (), q', w', m) }"

definition unbounded_queue_is_closed :: "'a unbounded_queue \<Rightarrow> bool" where
  "unbounded_queue_is_closed q \<longleftrightarrow> uq_is_closed q"

definition unbounded_queue_ptr_is_closed :: "'a unbounded_queue \<Rightarrow> bool" where
  "unbounded_queue_ptr_is_closed q \<longleftrightarrow> uq_ptr_is_closed q"

definition unbounded_queue_is_empty :: "mfid \<Rightarrow> (bool, 'a unbounded_queue, 's) segment" where
  "unbounded_queue_is_empty k w m q = uq_test Test_empty k (\<lambda>b w m q. Some (Done b, q, w, m)) w m q"

text \<open>The specialisation for pointers also takes the head mutex.\<close>

definition uq_ptr_is_empty_locked :: "mfid \<Rightarrow> (bool, 'a unbounded_queue, 's) segment" where
  "uq_ptr_is_empty_locked k w m q =
     uq_test Test_empty k
       (\<lambda>b w m q. do { (q', w') \<leftarrow> uq_unlock_head w m q; Some (Done b, q', w', m) }) w m q"

text \<open>\<^verbatim>\<open>mutex::scoped_lock lk( head_mtx_)\<close>, then \<open>seg\<close>; one that waited in line begins here again.\<close>

definition uq_lock_head :: "mfid \<Rightarrow> ('r, 'a unbounded_queue, 's) segment \<Rightarrow> ('r, 'a unbounded_queue, 's) segment" where
  "uq_lock_head k seg w m q = do {
     (got, mx, w1, m1) \<leftarrow> ctx_lock k w m (uq_head_mtx q);
     let q1 = q\<lparr>uq_head_mtx := mx\<rparr>;
     if got then seg w1 m1 q1 else Some (In_line, q1, w1, m1) }"

definition unbounded_queue_ptr_is_empty :: "mfid \<Rightarrow> (bool, 'a unbounded_queue, 's) segment" where
  "unbounded_queue_ptr_is_empty k w m q = uq_lock_head k (uq_ptr_is_empty_locked k) w m q"

section \<open>Pushing\<close>

text \<open>With the tail mutex held.\<close>

definition uq_push_locked ::
  "exn option \<Rightarrow> nat \<Rightarrow> 'a \<Rightarrow> world \<Rightarrow> 's fiber_manager \<Rightarrow> 'a unbounded_queue \<Rightarrow>
   (queue_op_status result turn \<times> 'a unbounded_queue \<times> world) option" where
  "uq_push_locked throws new_node va w m q =
     (if uq_is_closed q then do { (q', w') \<leftarrow> uq_unlock_tail w m q; Some (Done (Inr queue_closed), q', w') }
      else case throws of
        Some e \<Rightarrow> do { (q', w') \<leftarrow> uq_unlock_tail w m q; Some (Done (Inl e), q', w') }
      | None \<Rightarrow> do {
          let q1 = q\<lparr>uq_chain := qc_link new_node va (uq_chain q)\<rparr>;
          (cv, w1) \<leftarrow> condition_notify_one (uq_not_empty q1) w;
          (q', w') \<leftarrow> uq_unlock_tail w1 m (q1\<lparr>uq_not_empty := cv\<rparr>);
          Some (Done (Inr queue_success), q', w') })"

text \<open>After the new node has been made; a caller that waited in line begins here again.\<close>

definition uq_push_lock :: "exn option \<Rightarrow> nat \<Rightarrow> 'a \<Rightarrow> mfid \<Rightarrow> (queue_op_status result, 'a unbounded_queue, 's) segment" where
  "uq_push_lock throws new_node va k w m q = do {
     (got, mx, w1, m1) \<leftarrow> ctx_lock k w m (uq_tail_mtx q);
     let q1 = q\<lparr>uq_tail_mtx := mx\<rparr>;
     if got then do {
       (r, q2, w2) \<leftarrow> uq_push_locked throws new_node va w1 m1 q1;
       Some (r, q2, w2, m1) }
     else Some (In_line, q1, w1, m1) }"

definition unbounded_queue_push ::
  "exn option \<Rightarrow> 'a \<Rightarrow> mfid \<Rightarrow> (queue_op_status result, 'a unbounded_queue, 's) segment" where
  "unbounded_queue_push throws va k w m q =
     (let (new_node, c) = qc_new (uq_chain q) in uq_push_lock throws new_node va k w m (q\<lparr>uq_chain := c\<rparr>))"

text \<open>The specialisation for pointers gives the mutex back before it notifies.\<close>

definition uq_ptr_push_lock :: "nat \<Rightarrow> 'a \<Rightarrow> mfid \<Rightarrow> (queue_op_status result, 'a unbounded_queue, 's) segment" where
  "uq_ptr_push_lock new_node va k w m q = do {
     (got, mx, w1, m1) \<leftarrow> ctx_lock k w m (uq_tail_mtx q);
     let q1 = q\<lparr>uq_tail_mtx := mx\<rparr>;
     if \<not> got then Some (In_line, q1, w1, m1)
     else if uq_ptr_is_closed q1 then do {
       (q', w') \<leftarrow> uq_unlock_tail w1 m1 q1;
       Some (Done (Inr queue_closed), q', w', m1) }
     else do {
       (q2, w2) \<leftarrow> uq_unlock_tail w1 m1 (q1\<lparr>uq_chain := qc_link new_node va (uq_chain q1)\<rparr>);
       (cv, w3) \<leftarrow> condition_notify_one (uq_not_empty q2) w2;
       Some (Done (Inr queue_success), q2\<lparr>uq_not_empty := cv\<rparr>, w3, m1) } }"

definition unbounded_queue_ptr_push :: "'a \<Rightarrow> mfid \<Rightarrow> (queue_op_status result, 'a unbounded_queue, 's) segment" where
  "unbounded_queue_ptr_push va k w m q =
     (let (new_node, c) = qc_new (uq_chain q) in uq_ptr_push_lock new_node va k w m (q\<lparr>uq_chain := c\<rparr>))"

section \<open>Popping\<close>

text \<open>The \<^verbatim>\<open>try\<close> block: move the value out and advance the head; if the move throws, close the queue.
  The node and its value then stay in the queue; what a move assignment that throws leaves in the value
  is up to the class of the user, and the model takes one that leaves it as it was.\<close>

definition uq_take :: "exn option \<Rightarrow> ('a pop_result, 'a unbounded_queue) block" where
  "uq_take throws w q =
     (case throws of
        Some e \<Rightarrow> do { (q', w') \<leftarrow> uq_close w q; Some (Inl e, q', w') }
      | None \<Rightarrow> do {
          (va, c) \<leftarrow> qc_pop_head (uq_chain q);
          Some (Inr (queue_success, va), q\<lparr>uq_chain := c\<rparr>, w) })"

text \<open>
  For pointers the parameter \<^verbatim>\<open>va\<close> is taken by value: \<^verbatim>\<open>swap\<close> puts the caller's pointer into
  the node and the popped pointer into the local copy, which is lost.
\<close>

definition uq_ptr_take :: "'a \<Rightarrow> ('a pop_result, 'a unbounded_queue) block" where
  "uq_ptr_take va w q = do {
     (_, c) \<leftarrow> qc_pop_head (qc_swap_head va (uq_chain q));
     Some (Inr (queue_success, None), q\<lparr>uq_chain := c\<rparr>, w) }"

text \<open>A value is returned, or an exception leaves the function: the head mutex is given back.\<close>

definition uq_leave :: "('r, 'a unbounded_queue) block \<Rightarrow> ('r, 'a unbounded_queue, 's) segment" where
  "uq_leave blk w m q = do {
     (r, q1, w1) \<leftarrow> blk w q;
     (q2, w2) \<leftarrow> uq_unlock_head w1 m q1;
     Some (Done r, q2, w2, m) }"

definition uq_return :: "queue_op_status \<Rightarrow> ('a pop_result, 'a unbounded_queue) block" where
  "uq_return st w q = Some (Inr (st, None), q, w)"

text \<open>
  \<^verbatim>\<open>pop\<close> from the end to the beginning, with the head mutex held: the assertion and the \<^verbatim>\<open>try\<close>
  block \<open>tk\<close>; the second test, whose operands are evaluated from the left; one round of the loop,
  in which \<open>slp\<close> goes to sleep.
\<close>

definition uq_pop_assert ::
  "('a pop_result, 'a unbounded_queue) block \<Rightarrow> mfid \<Rightarrow> ('a pop_result, 'a unbounded_queue, 's) segment" where
  "uq_pop_assert tk k w m q =
     uq_test Test_empty k (\<lambda>b w m q. do { assert_that (\<not> b); uq_leave tk w m q }) w m q"

definition uq_pop_closed ::
  "('a pop_result, 'a unbounded_queue) block \<Rightarrow> mfid \<Rightarrow> ('a pop_result, 'a unbounded_queue, 's) segment" where
  "uq_pop_closed tk k w m q =
     uq_test Test_closed k
       (\<lambda>b w m q. if b then uq_leave (uq_return queue_closed) w m q else uq_pop_assert tk k w m q) w m q"

definition uq_pop_after ::
  "('a pop_result, 'a unbounded_queue) block \<Rightarrow> mfid \<Rightarrow> ('a pop_result, 'a unbounded_queue, 's) segment" where
  "uq_pop_after tk k w m q = (if uq_is_closed q then uq_pop_closed tk k w m q else uq_pop_assert tk k w m q)"

definition uq_pop_test ::
  "('a pop_result, 'a unbounded_queue, 's) segment \<Rightarrow> ('a pop_result, 'a unbounded_queue) block \<Rightarrow> mfid \<Rightarrow>
   ('a pop_result, 'a unbounded_queue, 's) segment" where
  "uq_pop_test slp tk k w m q =
     uq_test Test_loop k (\<lambda>b w m q. if b then slp w m q else uq_pop_after tk k w m q) w m q"

definition uq_pop_loop ::
  "('a pop_result, 'a unbounded_queue, 's) segment \<Rightarrow> ('a pop_result, 'a unbounded_queue) block \<Rightarrow> mfid \<Rightarrow>
   ('a pop_result, 'a unbounded_queue, 's) segment" where
  "uq_pop_loop slp tk k w m q =
     (if \<not> uq_is_closed q then uq_pop_test slp tk k w m q else uq_pop_after tk k w m q)"

text \<open>A caller that waited in the line of the tail mutex goes on at the test where it was.\<close>

definition uq_pop_resume ::
  "('a pop_result, 'a unbounded_queue, 's) segment \<Rightarrow> ('a pop_result, 'a unbounded_queue) block \<Rightarrow> mfid \<Rightarrow>
   wait_point \<Rightarrow> ('a pop_result, 'a unbounded_queue, 's) segment" where
  "uq_pop_resume slp tk k p w m q =
     (case p of
        Test_loop \<Rightarrow> uq_pop_test slp tk k w m q
      | Test_closed \<Rightarrow> uq_pop_closed tk k w m q
      | Test_empty \<Rightarrow> uq_pop_assert tk k w m q
      | At_lock \<Rightarrow> None)"

definition uq_pop_sleep :: "mfid \<Rightarrow> ('r, 'a unbounded_queue, 's) segment" where
  "uq_pop_sleep k w m q = do {
     (mx, cv, w', m') \<leftarrow> ctx_wait_enter k (uq_head_mtx q) w m (uq_not_empty q);
     Some (Asleep, q\<lparr>uq_head_mtx := mx, uq_not_empty := cv\<rparr>, w', m') }"

definition uq_pop_with ::
  "('a pop_result, 'a unbounded_queue) block \<Rightarrow> mfid \<Rightarrow> ('a pop_result, 'a unbounded_queue, 's) segment" where
  "uq_pop_with tk k w m q = uq_lock_head k (uq_pop_loop (uq_pop_sleep k) tk k) w m q"

text \<open>
  The caller runs again after it was asleep. It takes the mutex again and is back in the loop; an
  interruption leaves the call, the mutex is not held then.
\<close>

definition uq_pop_woken ::
  "('a pop_result, 'a unbounded_queue) block \<Rightarrow> mfid \<Rightarrow> ('a pop_result, 'a unbounded_queue, 's) segment" where
  "uq_pop_woken tk k w m q =
     (case fm_active m of
        Some a \<Rightarrow> do {
          (r, cv, w1) \<leftarrow> condition_wait_resumed w m (uq_not_empty q);
          let q1 = q\<lparr>uq_not_empty := cv\<rparr>;
          case r of
            Inl e \<Rightarrow> Some (Done (Inl e), q1, w1, m)
          | Inr u \<Rightarrow> uq_pop_with tk k w1 m q1 }
      | None \<Rightarrow> uq_pop_with tk k w m q)"

definition unbounded_queue_pop :: "exn option \<Rightarrow> mfid \<Rightarrow> ('a pop_result, 'a unbounded_queue, 's) segment" where
  "unbounded_queue_pop throws k w m q = uq_pop_with (uq_take throws) k w m q"

definition unbounded_queue_ptr_pop :: "'a \<Rightarrow> mfid \<Rightarrow> ('a pop_result, 'a unbounded_queue, 's) segment" where
  "unbounded_queue_ptr_pop va k w m q = uq_pop_with (uq_ptr_take va) k w m q"

section \<open>Popping with a deadline\<close>

definition uq_pop_sleep_until :: "time_point \<Rightarrow> mfid \<Rightarrow> ('r, 'a unbounded_queue, 's) segment" where
  "uq_pop_sleep_until t k w m q = do {
     (mx, cv, w', m') \<leftarrow> ctx_wait_until_enter k (uq_head_mtx q) t w m (uq_not_empty q);
     Some (Asleep, q\<lparr>uq_head_mtx := mx, uq_not_empty := cv\<rparr>, w', m') }"

definition uq_pop_until_with ::
  "time_point \<Rightarrow> ('a pop_result, 'a unbounded_queue) block \<Rightarrow> mfid \<Rightarrow> ('a pop_result, 'a unbounded_queue, 's) segment" where
  "uq_pop_until_with t tk k w m q = uq_lock_head k (uq_pop_loop (uq_pop_sleep_until t k) tk k) w m q"

text \<open>The condition has returned \<open>st\<close>, with the mutex held again.\<close>

definition uq_pop_until_status ::
  "cv_status \<Rightarrow> time_point \<Rightarrow> ('a pop_result, 'a unbounded_queue) block \<Rightarrow> mfid \<Rightarrow>
   ('a pop_result, 'a unbounded_queue, 's) segment" where
  "uq_pop_until_status st t tk k w m q =
     (if timeout = st then uq_leave (uq_return queue_timeout) w m q
      else uq_pop_loop (uq_pop_sleep_until t k) tk k w m q)"

text \<open>
  A fiber runs again, at the time \<open>now\<close>, after it slept until a value came or the deadline was
  over. While it waits for the head mutex it keeps the status, which is returned. A main context
  leaves its polling loop with a status and goes on with \<open>uq_lock_head\<close> in the same way.
\<close>

definition uq_pop_until_woken ::
  "time_point \<Rightarrow> time_point \<Rightarrow> ('a pop_result, 'a unbounded_queue) block \<Rightarrow> mfid \<Rightarrow> world \<Rightarrow> 's fiber_manager \<Rightarrow>
   'a unbounded_queue \<Rightarrow>
   (cv_status option \<times> 'a pop_result turn \<times> 'a unbounded_queue \<times> world \<times> 's fiber_manager) option" where
  "uq_pop_until_woken now t tk k w m q = do {
     (r, cv, w1) \<leftarrow> condition_wait_until_resumed now t w m (uq_not_empty q);
     let q1 = q\<lparr>uq_not_empty := cv\<rparr>;
     case r of
       Inl e \<Rightarrow> Some (None, Done (Inl e), q1, w1, m)
     | Inr st \<Rightarrow> do {
         r' \<leftarrow> uq_lock_head k (uq_pop_until_status st t tk k) w1 m q1;
         Some (Some st, r') } }"

definition unbounded_queue_pop_wait_until ::
  "exn option \<Rightarrow> time_point \<Rightarrow> mfid \<Rightarrow> ('a pop_result, 'a unbounded_queue, 's) segment" where
  "unbounded_queue_pop_wait_until throws t k w m q = uq_pop_until_with t (uq_take throws) k w m q"

definition unbounded_queue_ptr_pop_wait_until ::
  "'a \<Rightarrow> time_point \<Rightarrow> mfid \<Rightarrow> ('a pop_result, 'a unbounded_queue, 's) segment" where
  "unbounded_queue_ptr_pop_wait_until va t k w m q = uq_pop_until_with t (uq_ptr_take va) k w m q"

definition unbounded_queue_pop_wait_for ::
  "exn option \<Rightarrow> time_point \<Rightarrow> duration \<Rightarrow> mfid \<Rightarrow> ('a pop_result, 'a unbounded_queue, 's) segment" where
  "unbounded_queue_pop_wait_for throws now d k w m q = unbounded_queue_pop_wait_until throws (now + d) k w m q"

definition unbounded_queue_ptr_pop_wait_for ::
  "'a \<Rightarrow> time_point \<Rightarrow> duration \<Rightarrow> mfid \<Rightarrow> ('a pop_result, 'a unbounded_queue, 's) segment" where
  "unbounded_queue_ptr_pop_wait_for va now d k w m q = unbounded_queue_ptr_pop_wait_until va (now + d) k w m q"

section \<open>Popping without waiting for a value\<close>

text \<open>Here the move is not guarded by a handler. Again from the end to the beginning.\<close>

definition uq_try_pop_empty ::
  "('a pop_result, 'a unbounded_queue) block \<Rightarrow> mfid \<Rightarrow> ('a pop_result, 'a unbounded_queue, 's) segment" where
  "uq_try_pop_empty tk k w m q =
     uq_test Test_empty k (\<lambda>b w m q. uq_leave (if b then uq_return queue_empty else tk) w m q) w m q"

definition uq_try_pop_closed ::
  "('a pop_result, 'a unbounded_queue) block \<Rightarrow> mfid \<Rightarrow> ('a pop_result, 'a unbounded_queue, 's) segment" where
  "uq_try_pop_closed tk k w m q =
     uq_test Test_closed k
       (\<lambda>b w m q. if b then uq_leave (uq_return queue_closed) w m q else uq_try_pop_empty tk k w m q) w m q"

definition uq_try_pop_locked ::
  "('a pop_result, 'a unbounded_queue) block \<Rightarrow> mfid \<Rightarrow> ('a pop_result, 'a unbounded_queue, 's) segment" where
  "uq_try_pop_locked tk k w m q =
     (if uq_is_closed q then uq_try_pop_closed tk k w m q else uq_try_pop_empty tk k w m q)"

definition uq_try_take :: "exn option \<Rightarrow> ('a pop_result, 'a unbounded_queue) block" where
  "uq_try_take throws w q = (case throws of Some e \<Rightarrow> Some (Inl e, q, w) | None \<Rightarrow> uq_take None w q)"

definition unbounded_queue_try_pop :: "exn option \<Rightarrow> mfid \<Rightarrow> ('a pop_result, 'a unbounded_queue, 's) segment" where
  "unbounded_queue_try_pop throws k w m q = uq_lock_head k (uq_try_pop_locked (uq_try_take throws) k) w m q"

text \<open>A caller that waited in the line of the tail mutex goes on at the test where it was.\<close>

definition uq_try_pop_resume ::
  "('a pop_result, 'a unbounded_queue) block \<Rightarrow> mfid \<Rightarrow> wait_point \<Rightarrow> ('a pop_result, 'a unbounded_queue, 's) segment" where
  "uq_try_pop_resume tk k p w m q =
     (case p of
        Test_closed \<Rightarrow> uq_try_pop_closed tk k w m q
      | Test_empty \<Rightarrow> uq_try_pop_empty tk k w m q
      | _ \<Rightarrow> None)"

definition unbounded_queue_ptr_try_pop :: "'a \<Rightarrow> mfid \<Rightarrow> ('a pop_result, 'a unbounded_queue, 's) segment" where
  "unbounded_queue_ptr_try_pop va k w m q = uq_lock_head k (uq_try_pop_locked (uq_ptr_take va) k) w m q"

section \<open>What a queue holds\<close>

text \<open>The queue holds the values \<open>xs\<close>, nobody is inside of it, and \<open>fs\<close> wait for a value.\<close>

definition uq_rep :: "'a unbounded_queue \<Rightarrow> 'a list \<Rightarrow> fid list \<Rightarrow> bool" where
  "uq_rep q xs fs \<longleftrightarrow> qc_rep (uq_chain q) xs \<and> uq_head_mtx q = mutex_init \<and> uq_tail_mtx q = mutex_init \<and>
     condition_sleepers (uq_not_empty q) fs"

lemma uq_repD:
  assumes "uq_rep q xs fs"
  shows "qc_rep (uq_chain q) xs" "uq_head_mtx q = mutex_init" "uq_tail_mtx q = mutex_init"
    "condition_sleepers (uq_not_empty q) fs"
  using assms by (simp_all add: uq_rep_def)

lemma uq_ctor_rep: "uq_rep unbounded_queue_ctor [] []"
  by (simp add: uq_rep_def unbounded_queue_ctor_def qc_init_rep condition_sleepers_def condition_init_def
      spinlock_init_def)

text \<open>Every kind of caller finds the mutexes free.\<close>

lemma uq_unlock_eval:
  "uq_tail_mtx q = mutex_taken (this_get_id m) \<Longrightarrow> uq_unlock_tail w m q = Some (q\<lparr>uq_tail_mtx := mutex_init\<rparr>, w)"
  "uq_head_mtx q = mutex_taken (this_get_id m) \<Longrightarrow> uq_unlock_head w m q = Some (q\<lparr>uq_head_mtx := mutex_init\<rparr>, w)"
  by (simp_all add: uq_unlock_tail_def uq_unlock_head_def ctx_unlock)

lemma uq_test_free:
  assumes "uq_tail_mtx q = mutex_init"
  shows "uq_test p k cont w m q = cont (qc_empty (uq_chain q)) (ctx_locked_world k m w) m q"
proof -
  have same: "q\<lparr>uq_tail_mtx := mutex_init\<rparr> = q" using assms by (cases q) simp
  show ?thesis
    by (simp add: uq_test_def uq_is_empty_def uq_get_tail_def assms ctx_lock_free uq_unlock_eval qc_empty_def same)
qed

lemma uq_lock_head_free:
  "uq_head_mtx q = mutex_init \<Longrightarrow>
     uq_lock_head k seg w m q = seg (ctx_locked_world k m w) m (q\<lparr>uq_head_mtx := mutex_taken (this_get_id m)\<rparr>)"
  by (simp add: uq_lock_head_def ctx_lock_free)

lemma uq_state_closed: "uq_is_closed q \<longleftrightarrow> uq_state q = CLOSED"
  by (auto simp: uq_is_closed_def)

lemma uq_ptr_state_closed: "uq_ptr_is_closed q \<longleftrightarrow> uq_is_closed q"
  by (cases "uq_state q") (simp_all add: uq_ptr_is_closed_def uq_is_closed_def)

lemmas uq_pop_points = uq_pop_loop_def uq_pop_test_def uq_pop_after_def uq_pop_closed_def uq_pop_assert_def
  uq_try_pop_locked_def uq_try_pop_closed_def uq_try_pop_empty_def uq_state_closed uq_leave_def uq_return_def

text \<open>Pushing into an open queue.\<close>

lemma uq_push_ok:
  assumes rep: "uq_rep q xs fs" and opn: "uq_state q = OPEN"
    and note_one: "condition_notify_one (uq_not_empty q) (ctx_locked_world k m w) = Some (cv', w')"
      "condition_sleepers cv' gs"
  shows "\<exists>q'. unbounded_queue_push None v k w m q = Some (Done (Inr queue_success), q', w', m) \<and>
     uq_rep q' (xs @ [v]) gs \<and> uq_state q' = OPEN"
proof -
  obtain n c where c: "qc_new (uq_chain q) = (n, c)" by (cases "qc_new (uq_chain q)")
  note R = uq_repD [OF rep]
  from qc_new_rep [OF R(1) c] have "qc_rep (qc_link n v c) (xs @ [v])" by (rule qc_link_rep)
  with R c opn note_one show ?thesis
    by (simp add: unbounded_queue_push_def uq_push_lock_def uq_push_locked_def uq_state_closed ctx_lock_free
        uq_unlock_eval uq_rep_def)
qed

lemma uq_take_locked:
  assumes rep: "qc_rep (uq_chain q) (x # xs)"
    and mx: "uq_head_mtx q = mutex_taken (this_get_id m)" "uq_tail_mtx q = mutex_init"
  shows "\<exists>c'. qc_rep c' xs \<and> uq_pop_loop slp (uq_take None) k w m q =
      Some (Done (Inr (queue_success, Some x)), q\<lparr>uq_chain := c', uq_head_mtx := mutex_init\<rparr>, ctx_locked_world k m w, m) \<and>
    uq_try_pop_locked (uq_take None) k w m q =
      Some (Done (Inr (queue_success, Some x)), q\<lparr>uq_chain := c', uq_head_mtx := mutex_init\<rparr>, ctx_locked_world k m w, m)"
proof -
  obtain c' where c': "qc_pop_head (uq_chain q) = Some (Some x, c')" "qc_rep c' xs"
    using qc_pop_head_rep [OF rep] by blast
  have "\<not> qc_empty (uq_chain q)" using qc_empty_iff [OF rep] by simp
  with c' mx show ?thesis
    by (intro exI [of _ c']) (simp add: uq_pop_points uq_test_free uq_take_def uq_unlock_eval)
qed

lemma uq_try_take_none: "uq_try_take None = uq_take None"
  by (intro ext) (simp add: uq_try_take_def)

text \<open>Closing wakes everybody who waits for a value.\<close>

lemma uq_close_eval:
  assumes "condition_sleepers (uq_not_empty q) fs" and "fb_set_ready_all (map Worker fs) w = Some w'"
  shows "uq_close w q = Some (q\<lparr>uq_state := CLOSED, uq_not_empty := condition_init\<rparr>, w')"
proof -
  have "(uq_not_empty q)\<lparr>cv_waiting := [], cv_splk := UNLOCKED\<rparr> = condition_init"
    by (cases "uq_not_empty q") (simp add: condition_init_def spinlock_init_def)
  with assms show ?thesis by (simp add: uq_close_def condition_notify_all_def condition_sleepers_def)
qed

section \<open>The queue is a channel\<close>

text \<open>
  Pushes and pops with nobody asleep at the condition, on the queue together with the world; the
  caller is the active fiber of \<open>m\<close> or its main context.
\<close>

definition uq_chan_rep :: "'a unbounded_queue \<times> world \<Rightarrow> 'a list \<Rightarrow> bool" where
  "uq_chan_rep s xs \<longleftrightarrow> uq_rep (fst s) xs [] \<and> uq_state (fst s) = OPEN"

definition uq_chan_put ::
  "mfid \<Rightarrow> 's fiber_manager \<Rightarrow> 'a \<Rightarrow> 'a unbounded_queue \<times> world \<Rightarrow> 'a unbounded_queue \<times> world" where
  "uq_chan_put k m v s =
     (case unbounded_queue_push None v k (snd s) m (fst s) of Some (r, q, w, m') \<Rightarrow> (q, w) | None \<Rightarrow> s)"

definition uq_chan_get ::
  "mfid \<Rightarrow> 's fiber_manager \<Rightarrow> 'a unbounded_queue \<times> world \<Rightarrow> ('a option \<times> ('a unbounded_queue \<times> world)) option" where
  "uq_chan_get k m s =
     (case unbounded_queue_try_pop None k (snd s) m (fst s) of
        Some (Done (Inr (queue_success, v)), q, w, m') \<Rightarrow> Some (v, (q, w))
      | _ \<Rightarrow> None)"

definition uq_chan_empty :: "'a unbounded_queue \<times> world \<Rightarrow> bool" where
  "uq_chan_empty s \<longleftrightarrow> qc_empty (uq_chain (fst s))"

interpretation uqc: channel uq_chan_rep "uq_chan_put k m" "uq_chan_get k m" uq_chan_empty
  for k :: mfid and m :: "'s fiber_manager"
proof (unfold_locales, goal_cases)
  case (1 s xs v)
  then have a: "uq_rep (fst s) xs []" "uq_state (fst s) = OPEN" by (auto simp: uq_chan_rep_def)
  from uq_push_ok [OF a condition_notify_one_nobody [OF uq_repD(4) [OF a(1)]] uq_repD(4) [OF a(1)], of v k "snd s" m]
  show ?case by (auto simp: uq_chan_rep_def uq_chan_put_def)
next
  case (2 s x xs)
  then have a: "uq_rep (fst s) (x # xs) []" "uq_state (fst s) = OPEN" by (auto simp: uq_chan_rep_def)
  note R = uq_repD [OF a(1)]
  let ?q = "(fst s)\<lparr>uq_head_mtx := mutex_taken (this_get_id m)\<rparr>"
  from uq_take_locked [of ?q x xs m _ k "ctx_locked_world k m (snd s)"] R obtain c' where c': "qc_rep c' xs"
    "uq_try_pop_locked (uq_take None) k (ctx_locked_world k m (snd s)) m ?q =
      Some (Done (Inr (queue_success, Some x)), ?q\<lparr>uq_chain := c', uq_head_mtx := mutex_init\<rparr>,
        ctx_locked_world k m (snd s), m)" by auto
  then have "unbounded_queue_try_pop None k (snd s) m (fst s) =
      Some (Done (Inr (queue_success, Some x)), ?q\<lparr>uq_chain := c', uq_head_mtx := mutex_init\<rparr>,
        ctx_locked_world k m (snd s), m)"
    using R(2) by (simp add: unbounded_queue_try_pop_def uq_lock_head_free uq_try_take_none)
  with a c'(1) R show ?case by (simp add: uq_chan_get_def uq_chan_rep_def uq_rep_def)
next
  case (3 s xs)
  then show ?case by (simp add: uq_chan_rep_def uq_rep_def uq_chan_empty_def qc_empty_iff)
qed

section \<open>Properties\<close>

text \<open>
  An unbounded queue is first in, first out. Whatever sequence of pushes and pops is made on an
  open queue, by fibers or main contexts, the values that have come out, followed by those still
  inside, are the values that were inside, followed by those pushed, in this order; no value is lost
  or doubled.
\<close>

theorem unbounded_queue_fifo:
  assumes "uq_rep q xs []" and "uq_state q = OPEN"
  shows "\<exists>outs q' w' rest. channel_run (uq_chan_put k m) (uq_chan_get k m) uq_chan_empty ops (q, w) =
       Some (map Some outs, (q', w')) \<and> uq_rep q' rest [] \<and> outs @ rest = xs @ channel_puts ops"
proof -
  have "uq_chan_rep (q, w) xs" using assms by (simp add: uq_chan_rep_def)
  from uqc.run_fifo [OF this, of k m ops] show ?thesis by (auto simp: uq_chan_rep_def)
qed

theorem unbounded_queue_fifo_witness:
  "\<exists>s'. channel_run (uq_chan_put 0 (sy_mgr demo_sys2)) (uq_chan_get 0 (sy_mgr demo_sys2)) uq_chan_empty
      [Put (10 :: nat), Put 20, Get] (unbounded_queue_ctor, sy_world demo_sys2) = Some ([Some 10], s')"
proof -
  from unbounded_queue_fifo [OF uq_ctor_rep, of 0 "sy_mgr demo_sys2" "[Put (10 :: nat), Put 20, Get]" "sy_world demo_sys2"]
  obtain outs s' rest where s': "channel_run (uq_chan_put 0 (sy_mgr demo_sys2)) (uq_chan_get 0 (sy_mgr demo_sys2))
      uq_chan_empty [Put (10 :: nat), Put 20, Get] (unbounded_queue_ctor, sy_world demo_sys2) =
      Some (map Some outs, s')" "outs @ rest = [10, 20]"
    by (auto simp: unbounded_queue_ctor_def)
  have "map_option (length o fst) (channel_run (uq_chan_put 0 (sy_mgr demo_sys2)) (uq_chan_get 0 (sy_mgr demo_sys2))
      uq_chan_empty [Put (10 :: nat), Put 20, Get] (unbounded_queue_ctor, sy_world demo_sys2)) = Some 1"
    by code_simp
  with s' have "outs = [10]" by (cases outs) auto
  with s' show ?thesis by auto
qed

text \<open>
  \<^verbatim>\<open>push\<close> into an open queue succeeds, whether or not fibers wait for a value: the value is
  the last of the queue, and the fiber that has waited longest is woken. Pushing into a closed queue
  is refused and changes nothing.
\<close>

theorem unbounded_queue_push_spec:
  assumes "uq_rep q xs fs" and "fm_queues fifo_rep w m ws rs" and "set fs \<subseteq> set ws"
  shows "if uq_state q = OPEN
     then \<exists>q' w'. unbounded_queue_push None v k w m q = Some (Done (Inr queue_success), q', w', m) \<and>
       uq_rep q' (xs @ [v]) (tl fs) \<and> uq_state q' = OPEN \<and>
       fm_queues fifo_rep w' m (case fs of [] \<Rightarrow> ws | f # _ \<Rightarrow> f # remove1 f ws) rs \<and>
       (\<forall>f. hd_or None fs = Some f \<longrightarrow> is_ready (w_heap w') f)
     else \<exists>q'. unbounded_queue_push None v k w m q =
         Some (Done (Inr queue_closed), q', ctx_locked_world k m w, m) \<and> uq_rep q' xs fs"
proof -
  note R = uq_repD [OF assms(1)]
  have "fm_queues fifo_rep (ctx_locked_world k m w) m ws rs" using assms(2) by (simp add: fm_queues_ctx_locked)
  from condition_notify_one_sleepers [OF R(4) this assms(3)] obtain cv' w' ws' where n:
    "condition_notify_one (uq_not_empty q) (ctx_locked_world k m w) = Some (cv', w')" "condition_sleepers cv' (tl fs)"
    "fm_queues fifo_rep w' m ws' rs" "ws' = (case fs of [] \<Rightarrow> ws | f # _ \<Rightarrow> f # remove1 f ws)"
    "fs \<noteq> [] \<longrightarrow> is_ready (w_heap w') (hd fs)" by blast
  have "\<forall>f. hd_or None fs = Some f \<longrightarrow> is_ready (w_heap w') f" using n(5) by (cases fs) auto
  moreover have "\<exists>q'. unbounded_queue_push None v k w m q =
      Some (Done (Inr queue_closed), q', ctx_locked_world k m w, m) \<and> uq_rep q' xs fs"
    if "uq_state q = CLOSED"
  proof -
    obtain l c where c: "qc_new (uq_chain q) = (l, c)" by (cases "qc_new (uq_chain q)")
    with R qc_new_rep(1) [OF R(1) c] that show ?thesis
      by (simp add: unbounded_queue_push_def uq_push_lock_def uq_push_locked_def uq_state_closed ctx_lock_free
          uq_unlock_eval uq_rep_def)
  qed
  ultimately show ?thesis
    using uq_push_ok [OF assms(1) _ n(1,2), of v] n(3,4) by (cases "uq_state q") auto
qed

theorem unbounded_queue_push_spec_witness:
  "\<exists>q' w'. unbounded_queue_push None (10 :: nat) 0 (sy_world demo_sys4) (sy_mgr demo_sys4)
       (unbounded_queue_ctor\<lparr>uq_not_empty := \<lparr>cv_splk = UNLOCKED, cv_waiting = [Worker 2]\<rparr>\<rparr>) =
     Some (Done (Inr queue_success), q', w', sy_mgr demo_sys4) \<and> uq_rep q' [10] [] \<and> is_ready (w_heap w') 2"
proof -
  let ?q = "(unbounded_queue_ctor :: nat unbounded_queue)\<lparr>uq_not_empty := \<lparr>cv_splk = UNLOCKED, cv_waiting = [Worker 2]\<rparr>\<rparr>"
  have "uq_rep ?q [] [2]"
    by (simp add: uq_rep_def condition_sleepers_def unbounded_queue_ctor_def qc_init_rep)
  from unbounded_queue_push_spec [OF this demo_sys4_queues(1), of 10 0] show ?thesis
    by (auto simp: unbounded_queue_ctor_def)
qed

text \<open>
  \<^verbatim>\<open>pop\<close> called by a fiber hands out the oldest value of a queue that has one, closed or not; on
  an empty queue it reports that the queue is closed, or goes to sleep as the last of those that
  wait, with the mutex given back.
\<close>

theorem unbounded_queue_pop_spec:
  assumes "uq_rep q xs fs" and run: "fm_running w m a" and "fm_queues fifo_rep w m ws rs" and "a \<notin> set fs"
  shows "case xs of
       x # ys \<Rightarrow> \<exists>q'. unbounded_queue_pop None k w m q = Some (Done (Inr (queue_success, Some x)), q', w, m) \<and>
         uq_rep q' ys fs
     | [] \<Rightarrow>
       if uq_state q = CLOSED then unbounded_queue_pop None k w m q = Some (Done (Inr (queue_closed, None)), q, w, m)
       else \<exists>q' w'. unbounded_queue_pop None k w m q = Some (Asleep, q', w', m) \<and> uq_rep q' [] (fs @ [a]) \<and>
         uq_state q' = OPEN \<and> is_waiting (w_heap w') a \<and> fm_queues fifo_rep w' m (ws @ [a]) rs"
proof -
  have act: "fm_active m = Some a" using run by (simp add: fm_running_def)
  note R = uq_repD [OF assms(1)]
  let ?q = "q\<lparr>uq_head_mtx := mutex_taken (this_get_id m)\<rparr>"
  have pop: "unbounded_queue_pop None k w m q = uq_pop_loop (uq_pop_sleep k) (uq_take None) k w m ?q"
    using R(2) act by (simp add: unbounded_queue_pop_def uq_pop_with_def uq_lock_head_free)
  show ?thesis
  proof (cases xs)
    case (Cons x ys)
    with uq_take_locked [of ?q x ys m "uq_pop_sleep k" k w] R act obtain c' where "qc_rep c' ys"
      "uq_pop_loop (uq_pop_sleep k) (uq_take None) k w m ?q =
        Some (Done (Inr (queue_success, Some x)), ?q\<lparr>uq_chain := c', uq_head_mtx := mutex_init\<rparr>, w, m)" by auto
    with Cons pop R show ?thesis by (simp add: uq_rep_def)
  next
    case Nil
    then have empty: "qc_empty (uq_chain q)" using qc_empty_iff [OF R(1)] by simp
    have same: "?q\<lparr>uq_head_mtx := mutex_init\<rparr> = q" using R(2) by (cases q) simp
    have closed: "uq_pop_loop (uq_pop_sleep k) (uq_take None) k w m ?q = Some (Done (Inr (queue_closed, None)), q, w, m)"
      if "uq_state q = CLOSED"
      using that empty R same act by (simp add: uq_pop_points uq_test_free uq_unlock_eval)
    from ctx_sleep_ok [OF R(4) assms(4) run assms(3), of k] obtain cv' w' where w':
      "ctx_wait_enter k (mutex_taken (this_get_id m)) w m (uq_not_empty q) = Some (mutex_init, cv', w', m)"
      "condition_sleepers cv' (fs @ [a])" "fm_queues fifo_rep w' m (ws @ [a]) rs" "is_waiting (w_heap w') a" by blast
    have "uq_pop_loop (uq_pop_sleep k) (uq_take None) k w m ?q =
        Some (Asleep, ?q\<lparr>uq_head_mtx := mutex_init, uq_not_empty := cv'\<rparr>, w', m)"
      if "uq_state q = OPEN"
      using that empty R(3) w'(1) act by (simp add: uq_pop_points uq_test_free uq_pop_sleep_def)
    with closed w' pop Nil R show ?thesis by (cases "uq_state q") (auto simp: uq_rep_def)
  qed
qed

theorem unbounded_queue_pop_spec_witness:
  "\<exists>q' w'. unbounded_queue_pop None 0 (sy_world demo_sys2) (sy_mgr demo_sys2) (unbounded_queue_ctor :: nat unbounded_queue) =
     Some (Asleep, q', w', sy_mgr demo_sys2) \<and> uq_rep q' [] [1]"
  using unbounded_queue_pop_spec [OF uq_ctor_rep demo_sys2_queues(2,1), of 0]
  by (auto simp: unbounded_queue_ctor_def)

text \<open>
  \<^verbatim>\<open>pop\<close> of a queue of pointers loses what it pops: it reports success and takes the oldest
  pointer out of the queue, but the caller's variable, a copy of which is the parameter, does not
  get it.
\<close>

theorem unbounded_queue_ptr_pop_loses:
  assumes "uq_rep q (x # xs) fs"
  shows "\<exists>q'. unbounded_queue_ptr_pop va k w m q =
       Some (Done (Inr (queue_success, None)), q', ctx_locked_world k m w, m) \<and> uq_rep q' xs fs"
proof -
  note R = uq_repD [OF assms(1)]
  from qc_pop_head_rep [OF qc_swap_head_rep [OF R(1)]] obtain c' where c':
    "qc_pop_head (qc_swap_head va (uq_chain q)) = Some (Some va, c')" "qc_rep c' xs" by blast
  have "\<not> qc_empty (uq_chain q)" using qc_empty_iff [OF R(1)] by simp
  with c' R show ?thesis
    by (simp add: unbounded_queue_ptr_pop_def uq_pop_with_def uq_lock_head_free uq_pop_points uq_test_free
        uq_ptr_take_def uq_unlock_eval uq_rep_def)
qed

theorem unbounded_queue_ptr_pop_loses_witness:
  "\<exists>q'. unbounded_queue_ptr_pop (0 :: nat) 0 (sy_world demo_sys2) (sy_mgr demo_sys2)
       (fst (uq_chan_put 0 (sy_mgr demo_sys2) 99 (unbounded_queue_ctor, sy_world demo_sys2))) =
     Some (Done (Inr (queue_success, None)), q', ctx_locked_world 0 (sy_mgr demo_sys2) (sy_world demo_sys2), sy_mgr demo_sys2) \<and>
     uq_rep q' [] []"
proof -
  have "uq_chan_rep (unbounded_queue_ctor, sy_world demo_sys2) ([] :: nat list)"
    by (simp add: uq_chan_rep_def uq_ctor_rep unbounded_queue_ctor_def [THEN arg_cong, of uq_state])
  from uqc.put_rep [OF this, of 0 "sy_mgr demo_sys2" 99]
  have "uq_rep (fst (uq_chan_put 0 (sy_mgr demo_sys2) (99 :: nat) (unbounded_queue_ctor, sy_world demo_sys2))) [99] []"
    by (simp add: uq_chan_rep_def)
  from unbounded_queue_ptr_pop_loses [OF this] show ?thesis .
qed

text \<open>
  C40: a value can be in the queue while its consumer sleeps. A producer notifies under the tail mutex
  and a consumer decides under the head mutex. If, on another thread, a push comes after the consumer
  has found the queue empty and before it is on the list of the condition, nobody is notified, and
  the consumer goes to sleep without deadline although the queue holds a value.
\<close>

theorem unbounded_queue_lost_wakeup:
  assumes "uq_rep (q :: 'a unbounded_queue) [] []" and "uq_state q = OPEN" and "fm_running w m a"
    and "fm_queues fifo_rep w m ws rs"
  shows "\<exists>q1 q2 w2 q3 w3.
     unbounded_queue_pop None k w m q = uq_pop_sleep k w m q1 \<and>
     unbounded_queue_push None v k' w m' q1 = Some (Done (Inr queue_success), q2, w2, m') \<and>
     uq_pop_sleep k w2 m q2 = Some (Asleep :: 'a pop_result turn, q3, w3, m) \<and>
     uq_rep q3 [v] [a] \<and> is_waiting (w_heap w3) a \<and> fm_queues fifo_rep w3 m (ws @ [a]) rs"
proof -
  note R = uq_repD [OF assms(1)]
  let ?w2 = "ctx_locked_world k' m' w"
  let ?q1 = "q\<lparr>uq_head_mtx := mutex_taken (this_get_id m)\<rparr>"
  have act: "fm_active m = Some a" "fm_running ?w2 m a" "fm_queues fifo_rep ?w2 m ws rs"
    using assms(3,4) by (simp_all add: fm_running_def fm_queues_ctx_locked)
  have "qc_empty (uq_chain q)" using qc_empty_iff [OF R(1)] by simp
  then have pop: "unbounded_queue_pop None k w m q = uq_pop_sleep k w m ?q1"
    using R assms(2) act(1)
    by (simp add: unbounded_queue_pop_def uq_pop_with_def uq_lock_head_free uq_pop_loop_def uq_pop_test_def
        uq_test_free uq_state_closed)
  obtain n c where c: "qc_new (uq_chain q) = (n, c)" by (cases "qc_new (uq_chain q)")
  let ?q2 = "?q1\<lparr>uq_chain := qc_link n v c\<rparr>"
  have link: "qc_rep (qc_link n v c) [v]" using qc_link_rep [OF qc_new_rep [OF R(1) c]] by simp
  have same: "q'\<lparr>uq_tail_mtx := mutex_init, uq_not_empty := uq_not_empty q\<rparr> = q'"
    if "uq_tail_mtx q' = mutex_init" "uq_not_empty q' = uq_not_empty q" for q' :: "'a unbounded_queue"
    using that by (cases q') simp
  have push: "unbounded_queue_push None v k' w m' ?q1 = Some (Done (Inr queue_success), ?q2, ?w2, m')"
    using c R(3) assms(2) condition_notify_one_nobody [OF R(4)] same [of ?q2]
    by (simp add: unbounded_queue_push_def uq_push_lock_def uq_push_locked_def uq_state_closed ctx_lock_free uq_unlock_eval)
  from ctx_sleep_ok [OF R(4) _ act(2,3), of k] obtain cv' w3 where
    "ctx_wait_enter k (mutex_taken (this_get_id m)) ?w2 m (uq_not_empty q) = Some (mutex_init, cv', w3, m)"
    "condition_sleepers cv' [a]" "fm_queues fifo_rep w3 m (ws @ [a]) rs" "is_waiting (w_heap w3) a" by auto
  with link R have "uq_pop_sleep k ?w2 m ?q2 =
      Some (Asleep :: 'a pop_result turn, ?q2\<lparr>uq_head_mtx := mutex_init, uq_not_empty := cv'\<rparr>, w3, m)"
    "uq_rep (?q2\<lparr>uq_head_mtx := mutex_init, uq_not_empty := cv'\<rparr>) [v] [a]"
    "fm_queues fifo_rep w3 m (ws @ [a]) rs" "is_waiting (w_heap w3) a"
    by (simp_all add: uq_pop_sleep_def uq_rep_def)
  with pop push show ?thesis by blast
qed

theorem unbounded_queue_lost_wakeup_witness:
  "\<exists>q1 q2 w2 q3 w3.
     unbounded_queue_pop None 0 (sy_world demo_sys2) (sy_mgr demo_sys2) (unbounded_queue_ctor :: nat unbounded_queue) =
       uq_pop_sleep 0 (sy_world demo_sys2) (sy_mgr demo_sys2) q1 \<and>
     unbounded_queue_push None 7 9 (sy_world demo_sys2) (sy_mgr demo_sys1) q1 =
       Some (Done (Inr queue_success), q2, w2, sy_mgr demo_sys1) \<and>
     uq_pop_sleep 0 w2 (sy_mgr demo_sys2) q2 = Some (Asleep :: nat pop_result turn, q3, w3, sy_mgr demo_sys2) \<and>
     uq_rep q3 [7] [1]"
proof -
  have "uq_state (unbounded_queue_ctor :: nat unbounded_queue) = OPEN" by (simp add: unbounded_queue_ctor_def)
  from unbounded_queue_lost_wakeup [OF uq_ctor_rep this demo_sys2_queues(2,1), of 0 7 9 "sy_mgr demo_sys1"]
  show ?thesis by blast
qed

end
