(* ===== verification/Bounded_Queue.thy ===== *)
theory Bounded_Queue
  imports Unbounded_Queue
begin

text \<open>
  The class template \<^verbatim>\<open>bounded_queue\<close> (\<^verbatim>\<open>bounded_queue.hpp\<close>) and its specialisation for pointers,
  used by fibers and main contexts, with its two watermarks: a queue with as many values as the high one is full, and
  producers are woken when a pop leaves no more values than the low one. Segments and exceptions of
  user code are modelled as for \<^verbatim>\<open>unbounded_queue\<close>.
\<close>

record 'a bounded_queue =
  bq_state :: queue_state
  bq_count :: size_t
  bq_chain :: "'a node_chain"
  bq_head_mtx :: mutex
  bq_tail_mtx :: mutex
  bq_not_empty :: condition
  bq_not_full :: condition
  bq_hwm :: size_t
  bq_lwm :: size_t

definition bq_make :: "size_t \<Rightarrow> size_t \<Rightarrow> 'a bounded_queue" where
  "bq_make hwm lwm =
     \<lparr>bq_state = OPEN, bq_count = 0, bq_chain = qc_init, bq_head_mtx = mutex_init, bq_tail_mtx = mutex_init,
      bq_not_empty = condition_init, bq_not_full = condition_init, bq_hwm = hwm, bq_lwm = lwm\<rparr>"

definition bounded_queue_ctor2 :: "size_t \<Rightarrow> size_t \<Rightarrow> 'a bounded_queue result" where
  "bounded_queue_ctor2 hwm lwm =
     (if hwm < lwm
      then Inl (invalid_argument errc_invalid_argument
        ''boost fiber: high-watermark is less than low-watermark for bounded_queue'')
      else Inr (bq_make hwm lwm))"

definition bounded_queue_ctor :: "size_t \<Rightarrow> 'a bounded_queue" where
  "bounded_queue_ctor wm = bq_make wm wm"

definition bounded_queue_upper_bound :: "'a bounded_queue \<Rightarrow> size_t" where
  "bounded_queue_upper_bound q = bq_hwm q"

definition bounded_queue_lower_bound :: "'a bounded_queue \<Rightarrow> size_t" where
  "bounded_queue_lower_bound q = bq_lwm q"

section \<open>Private functions\<close>

definition bq_is_closed :: "'a bounded_queue \<Rightarrow> bool" where
  "bq_is_closed q \<longleftrightarrow> CLOSED = bq_state q"

definition bq_close :: "world \<Rightarrow> 'a bounded_queue \<Rightarrow> ('a bounded_queue \<times> world) option" where
  "bq_close w q = do {
     (ne, w1) \<leftarrow> condition_notify_all (bq_not_empty q) w;
     (nf, w2) \<leftarrow> condition_notify_all (bq_not_full q) w1;
     Some (q\<lparr>bq_state := CLOSED, bq_not_empty := ne, bq_not_full := nf\<rparr>, w2) }"

definition bq_is_full :: "'a bounded_queue \<Rightarrow> bool" where
  "bq_is_full q \<longleftrightarrow> bq_hwm q \<le> bq_count q"

definition bq_unlock_tail :: "world \<Rightarrow> 's fiber_manager \<Rightarrow> 'a bounded_queue \<Rightarrow> ('a bounded_queue \<times> world) option" where
  "bq_unlock_tail w m q = do {
     (mx, w') \<leftarrow> mutex_unlock w m (bq_tail_mtx q);
     Some (q\<lparr>bq_tail_mtx := mx\<rparr>, w') }"

definition bq_unlock_head :: "world \<Rightarrow> 's fiber_manager \<Rightarrow> 'a bounded_queue \<Rightarrow> ('a bounded_queue \<times> world) option" where
  "bq_unlock_head w m q = do {
     (mx, w') \<leftarrow> mutex_unlock w m (bq_head_mtx q);
     Some (q\<lparr>bq_head_mtx := mx\<rparr>, w') }"

definition bq_get_tail ::
  "mfid \<Rightarrow> world \<Rightarrow> 's fiber_manager \<Rightarrow> 'a bounded_queue \<Rightarrow>
   (nat option \<times> 'a bounded_queue \<times> world \<times> 's fiber_manager) option" where
  "bq_get_tail k w m q = do {
     (got, mx, w1, m1) \<leftarrow> ctx_lock k w m (bq_tail_mtx q);
     let q1 = q\<lparr>bq_tail_mtx := mx\<rparr>;
     if got then do {
       let tmp = qc_tail (bq_chain q1);
       (q2, w2) \<leftarrow> bq_unlock_tail w1 m1 q1;
       Some (Some tmp, q2, w2, m1) }
     else Some (None, q1, w1, m1) }"

definition bq_is_empty ::
  "mfid \<Rightarrow> world \<Rightarrow> 's fiber_manager \<Rightarrow> 'a bounded_queue \<Rightarrow>
   (bool option \<times> 'a bounded_queue \<times> world \<times> 's fiber_manager) option" where
  "bq_is_empty k w m q = do {
     (t, q', w', m') \<leftarrow> bq_get_tail k w m q;
     Some (map_option (\<lambda>p. qc_head (bq_chain q') = p) t, q', w', m') }"

definition bq_test ::
  "wait_point \<Rightarrow> mfid \<Rightarrow> (bool \<Rightarrow> ('r, 'a bounded_queue, 's) segment) \<Rightarrow> ('r, 'a bounded_queue, 's) segment" where
  "bq_test p k cont w m q = do {
     (e, q1, w1, m1) \<leftarrow> bq_is_empty k w m q;
     case e of
       None \<Rightarrow> Some (In_tail_line p, q1, w1, m1)
     | Some b \<Rightarrow> cont b w1 m1 q1 }"

definition bq_pop_head :: "'a bounded_queue \<Rightarrow> ('a option \<times> 'a bounded_queue) option" where
  "bq_pop_head q = do {
     (va, c) \<leftarrow> qc_pop_head (bq_chain q);
     Some (va, q\<lparr>bq_chain := c, bq_count := bq_count q - 1\<rparr>) }"

text \<open>Taking one of the mutexes, then \<open>seg\<close>; a caller that waited in line begins here again.\<close>

definition bq_lock_head :: "mfid \<Rightarrow> ('r, 'a bounded_queue, 's) segment \<Rightarrow> ('r, 'a bounded_queue, 's) segment" where
  "bq_lock_head k seg w m q = do {
     (got, mx, w1, m1) \<leftarrow> ctx_lock k w m (bq_head_mtx q);
     let q1 = q\<lparr>bq_head_mtx := mx\<rparr>;
     if got then seg w1 m1 q1 else Some (In_line, q1, w1, m1) }"

definition bq_lock_tail :: "mfid \<Rightarrow> ('r, 'a bounded_queue, 's) segment \<Rightarrow> ('r, 'a bounded_queue, 's) segment" where
  "bq_lock_tail k seg w m q = do {
     (got, mx, w1, m1) \<leftarrow> ctx_lock k w m (bq_tail_mtx q);
     let q1 = q\<lparr>bq_tail_mtx := mx\<rparr>;
     if got then seg w1 m1 q1 else Some (In_line, q1, w1, m1) }"

text \<open>A value is returned, or an exception leaves the function: the mutex is given back.\<close>

definition bq_leave_head :: "('r, 'a bounded_queue) block \<Rightarrow> ('r, 'a bounded_queue, 's) segment" where
  "bq_leave_head blk w m q = do {
     (r, q1, w1) \<leftarrow> blk w q;
     (q2, w2) \<leftarrow> bq_unlock_head w1 m q1;
     Some (Done r, q2, w2, m) }"

definition bq_leave_tail :: "('r, 'a bounded_queue) block \<Rightarrow> ('r, 'a bounded_queue, 's) segment" where
  "bq_leave_tail blk w m q = do {
     (r, q1, w1) \<leftarrow> blk w q;
     (q2, w2) \<leftarrow> bq_unlock_tail w1 m q1;
     Some (Done r, q2, w2, m) }"

section \<open>Public functions without a loop\<close>

definition bounded_queue_is_closed :: "'a bounded_queue \<Rightarrow> bool" where
  "bounded_queue_is_closed q \<longleftrightarrow> bq_is_closed q"

definition bounded_queue_is_full :: "'a bounded_queue \<Rightarrow> bool" where
  "bounded_queue_is_full q \<longleftrightarrow> bq_is_full q"

definition bounded_queue_is_empty :: "mfid \<Rightarrow> (bool, 'a bounded_queue, 's) segment" where
  "bounded_queue_is_empty k w m q = bq_test Test_empty k (\<lambda>b w m q. Some (Done b, q, w, m)) w m q"

text \<open>\<^verbatim>\<open>close\<close> takes both mutexes, the second while it holds the first.\<close>

definition bq_close_second :: "mfid \<Rightarrow> (unit, 'a bounded_queue, 's) segment" where
  "bq_close_second k w m q = do {
     (got, mx, w1, m1) \<leftarrow> ctx_lock k w m (bq_tail_mtx q);
     let q1 = q\<lparr>bq_tail_mtx := mx\<rparr>;
     if \<not> got then Some (In_tail_line At_lock, q1, w1, m1)
     else do {
       (q2, w2) \<leftarrow> bq_close w1 q1;
       (q3, w3) \<leftarrow> bq_unlock_tail w2 m1 q2;
       (q4, w4) \<leftarrow> bq_unlock_head w3 m1 q3;
       Some (Done (), q4, w4, m1) } }"

definition bounded_queue_close :: "mfid \<Rightarrow> (unit, 'a bounded_queue, 's) segment" where
  "bounded_queue_close k w m q = bq_lock_head k (bq_close_second k) w m q"

section \<open>Pushing\<close>

definition bq_store :: "nat \<Rightarrow> 'a \<Rightarrow> 'a bounded_queue \<Rightarrow> 'a bounded_queue" where
  "bq_store new_node va q = q\<lparr>bq_chain := qc_link new_node va (bq_chain q), bq_count := bq_count q + 1\<rparr>"

text \<open>\<^verbatim>\<open>push\<close> has no handler around the assignment; the other functions close the queue if it throws.\<close>

definition bq_put :: "exn option \<Rightarrow> nat \<Rightarrow> 'a \<Rightarrow> (queue_op_status result, 'a bounded_queue) block" where
  "bq_put throws new_node va w q =
     (case throws of
        Some e \<Rightarrow> Some (Inl e, q, w)
      | None \<Rightarrow> do {
          let q1 = bq_store new_node va q;
          (cv, w1) \<leftarrow> condition_notify_one (bq_not_empty q1) w;
          Some (Inr queue_success, q1\<lparr>bq_not_empty := cv\<rparr>, w1) })"

definition bq_put_guarded :: "exn option \<Rightarrow> nat \<Rightarrow> 'a \<Rightarrow> (queue_op_status result, 'a bounded_queue) block" where
  "bq_put_guarded throws new_node va w q =
     (case throws of
        Some e \<Rightarrow> do { (q', w') \<leftarrow> bq_close w q; Some (Inl e, q', w') }
      | None \<Rightarrow> bq_put None new_node va w q)"

definition bq_push_return :: "queue_op_status \<Rightarrow> (queue_op_status result, 'a bounded_queue) block" where
  "bq_push_return st w q = Some (Inr st, q, w)"

text \<open>One round of the loop of \<^verbatim>\<open>push\<close>, with the tail mutex held; the state is tested before the loop only.\<close>

definition bq_push_loop :: "exn option \<Rightarrow> nat \<Rightarrow> 'a \<Rightarrow> mfid \<Rightarrow> (queue_op_status result, 'a bounded_queue, 's) segment" where
  "bq_push_loop throws new_node va k w m q =
     (if bq_is_full q then do {
        (mx, cv, w1, m1) \<leftarrow> ctx_wait_enter k (bq_tail_mtx q) w m (bq_not_full q);
        Some (Asleep, q\<lparr>bq_tail_mtx := mx, bq_not_full := cv\<rparr>, w1, m1) }
      else bq_leave_tail (bq_put throws new_node va) w m q)"

definition bq_push_locked :: "exn option \<Rightarrow> nat \<Rightarrow> 'a \<Rightarrow> mfid \<Rightarrow> (queue_op_status result, 'a bounded_queue, 's) segment" where
  "bq_push_locked throws new_node va k w m q =
     (if bq_is_closed q then bq_leave_tail (bq_push_return queue_closed) w m q
      else bq_push_loop throws new_node va k w m q)"

definition bounded_queue_push :: "exn option \<Rightarrow> 'a \<Rightarrow> mfid \<Rightarrow> (queue_op_status result, 'a bounded_queue, 's) segment" where
  "bounded_queue_push throws va k w m q =
     (let (new_node, c) = qc_new (bq_chain q) in
      bq_lock_tail k (bq_push_locked throws new_node va k) w m (q\<lparr>bq_chain := c\<rparr>))"

text \<open>The producer runs again after it was asleep: it takes the mutex again and is back in the loop.\<close>

definition bq_push_woken :: "exn option \<Rightarrow> nat \<Rightarrow> 'a \<Rightarrow> mfid \<Rightarrow> (queue_op_status result, 'a bounded_queue, 's) segment" where
  "bq_push_woken throws new_node va k w m q =
     (case fm_active m of
        Some a \<Rightarrow> do {
          (r, cv, w1) \<leftarrow> condition_wait_resumed w m (bq_not_full q);
          let q1 = q\<lparr>bq_not_full := cv\<rparr>;
          case r of
            Inl e \<Rightarrow> Some (Done (Inl e), q1, w1, m)
          | Inr u \<Rightarrow> bq_lock_tail k (bq_push_loop throws new_node va k) w1 m q1 }
      | None \<Rightarrow> bq_lock_tail k (bq_push_loop throws new_node va k) w m q)"

section \<open>Pushing with a deadline\<close>

definition bq_push_until_loop ::
  "time_point \<Rightarrow> exn option \<Rightarrow> nat \<Rightarrow> 'a \<Rightarrow> mfid \<Rightarrow> (queue_op_status result, 'a bounded_queue, 's) segment" where
  "bq_push_until_loop t throws new_node va k w m q =
     (if bq_is_full q then do {
        (mx, cv, w1, m1) \<leftarrow> ctx_wait_until_enter k (bq_tail_mtx q) t w m (bq_not_full q);
        Some (Asleep, q\<lparr>bq_tail_mtx := mx, bq_not_full := cv\<rparr>, w1, m1) }
      else bq_leave_tail (bq_put_guarded throws new_node va) w m q)"

definition bq_push_until_locked ::
  "time_point \<Rightarrow> exn option \<Rightarrow> nat \<Rightarrow> 'a \<Rightarrow> mfid \<Rightarrow> (queue_op_status result, 'a bounded_queue, 's) segment" where
  "bq_push_until_locked t throws new_node va k w m q =
     (if bq_is_closed q then bq_leave_tail (bq_push_return queue_closed) w m q
      else bq_push_until_loop t throws new_node va k w m q)"

definition bounded_queue_push_wait_until ::
  "exn option \<Rightarrow> 'a \<Rightarrow> time_point \<Rightarrow> mfid \<Rightarrow> (queue_op_status result, 'a bounded_queue, 's) segment" where
  "bounded_queue_push_wait_until throws va t k w m q =
     (let (new_node, c) = qc_new (bq_chain q) in
      bq_lock_tail k (bq_push_until_locked t throws new_node va k) w m (q\<lparr>bq_chain := c\<rparr>))"

text \<open>The condition has returned \<open>st\<close>, with the mutex held again.\<close>

definition bq_push_until_status ::
  "cv_status \<Rightarrow> time_point \<Rightarrow> exn option \<Rightarrow> nat \<Rightarrow> 'a \<Rightarrow> mfid \<Rightarrow>
   (queue_op_status result, 'a bounded_queue, 's) segment" where
  "bq_push_until_status st t throws new_node va k w m q =
     (if timeout = st then bq_leave_tail (bq_push_return queue_timeout) w m q
      else bq_push_until_loop t throws new_node va k w m q)"

text \<open>
  A fiber runs again after it slept until there was a free place or the deadline was over. While it
  waits for the tail mutex it keeps the status, which is returned; a main context that leaves its
  polling loop with a status goes on in the same way.
\<close>

definition bq_push_until_woken ::
  "time_point \<Rightarrow> time_point \<Rightarrow> exn option \<Rightarrow> nat \<Rightarrow> 'a \<Rightarrow> mfid \<Rightarrow> world \<Rightarrow> 's fiber_manager \<Rightarrow> 'a bounded_queue \<Rightarrow>
   (cv_status option \<times> queue_op_status result turn \<times> 'a bounded_queue \<times> world \<times> 's fiber_manager) option" where
  "bq_push_until_woken now t throws new_node va k w m q = do {
     (r, cv, w1) \<leftarrow> condition_wait_until_resumed now t w m (bq_not_full q);
     let q1 = q\<lparr>bq_not_full := cv\<rparr>;
     case r of
       Inl e \<Rightarrow> Some (None, Done (Inl e), q1, w1, m)
     | Inr st \<Rightarrow> do {
         r' \<leftarrow> bq_lock_tail k (bq_push_until_status st t throws new_node va k) w1 m q1;
         Some (Some st, r') } }"

definition bounded_queue_push_wait_for ::
  "exn option \<Rightarrow> 'a \<Rightarrow> time_point \<Rightarrow> duration \<Rightarrow> mfid \<Rightarrow> (queue_op_status result, 'a bounded_queue, 's) segment" where
  "bounded_queue_push_wait_for throws va now d k w m q = bounded_queue_push_wait_until throws va (now + d) k w m q"

text \<open>\<^verbatim>\<open>try_push\<close> works on the tail but locks the head mutex.\<close>

definition bq_try_push_block :: "exn option \<Rightarrow> nat \<Rightarrow> 'a \<Rightarrow> (queue_op_status result, 'a bounded_queue) block" where
  "bq_try_push_block throws new_node va w q =
     (if bq_is_closed q then Some (Inr queue_closed, q, w)
      else if bq_is_full q then Some (Inr queue_full, q, w)
      else bq_put_guarded throws new_node va w q)"

definition bounded_queue_try_push :: "exn option \<Rightarrow> 'a \<Rightarrow> mfid \<Rightarrow> (queue_op_status result, 'a bounded_queue, 's) segment" where
  "bounded_queue_try_push throws va k w m q =
     (let (new_node, c) = qc_new (bq_chain q) in
      bq_lock_head k (bq_leave_head (bq_try_push_block throws new_node va)) w m (q\<lparr>bq_chain := c\<rparr>))"

text \<open>
  The specialisation for pointers repeats the text of these functions; assigning a pointer does not
  throw. Its node type declares the member \<^verbatim>\<open>va\<close> as a \<^verbatim>\<open>T\<close> where the functions assign a
  \<^verbatim>\<open>T *\<close>; the model has the pointer there, as the node type of \<^verbatim>\<open>unbounded_queue\<close> does.
\<close>

definition bounded_queue_ptr_push :: "'a \<Rightarrow> mfid \<Rightarrow> (queue_op_status result, 'a bounded_queue, 's) segment" where
  "bounded_queue_ptr_push va k w m q = bounded_queue_push None va k w m q"

definition bounded_queue_ptr_push_wait_until ::
  "'a \<Rightarrow> time_point \<Rightarrow> mfid \<Rightarrow> (queue_op_status result, 'a bounded_queue, 's) segment" where
  "bounded_queue_ptr_push_wait_until va t k w m q = bounded_queue_push_wait_until None va t k w m q"

definition bounded_queue_ptr_push_wait_for ::
  "'a \<Rightarrow> time_point \<Rightarrow> duration \<Rightarrow> mfid \<Rightarrow> (queue_op_status result, 'a bounded_queue, 's) segment" where
  "bounded_queue_ptr_push_wait_for va now d k w m q = bounded_queue_ptr_push_wait_until va (now + d) k w m q"

definition bounded_queue_ptr_try_push :: "'a \<Rightarrow> mfid \<Rightarrow> (queue_op_status result, 'a bounded_queue, 's) segment" where
  "bounded_queue_ptr_try_push va k w m q = bounded_queue_try_push None va k w m q"

section \<open>Popping\<close>

text \<open>Producers are woken when the queue has shrunk to the low watermark.\<close>

definition bq_notify_not_full :: "world \<Rightarrow> 'a bounded_queue \<Rightarrow> ('a bounded_queue \<times> world) option" where
  "bq_notify_not_full w q =
     (if bq_count q \<le> bq_lwm q then do {
        (cv, w') \<leftarrow> (if bq_lwm q = bq_hwm q then condition_notify_one (bq_not_full q) w
                     else condition_notify_all (bq_not_full q) w);
        Some (q\<lparr>bq_not_full := cv\<rparr>, w') }
      else Some (q, w))"

text \<open>The \<^verbatim>\<open>try\<close> block, with the same reading of a move that throws as in the unbounded queue.\<close>

definition bq_take :: "exn option \<Rightarrow> ('a pop_result, 'a bounded_queue) block" where
  "bq_take throws w q =
     (case throws of
        Some e \<Rightarrow> do { (q', w') \<leftarrow> bq_close w q; Some (Inl e, q', w') }
      | None \<Rightarrow> do {
          (va, q1) \<leftarrow> bq_pop_head q;
          (q2, w2) \<leftarrow> bq_notify_not_full w q1;
          Some (Inr (queue_success, va), q2, w2) })"

definition bq_ptr_take :: "'a \<Rightarrow> ('a pop_result, 'a bounded_queue) block" where
  "bq_ptr_take va w q = do {
     (_, q1) \<leftarrow> bq_pop_head (q\<lparr>bq_chain := qc_swap_head va (bq_chain q)\<rparr>);
     (q2, w2) \<leftarrow> bq_notify_not_full w q1;
     Some (Inr (queue_success, None), q2, w2) }"

definition bq_pop_return :: "queue_op_status \<Rightarrow> ('a pop_result, 'a bounded_queue) block" where
  "bq_pop_return st w q = Some (Inr (st, None), q, w)"

text \<open>\<^verbatim>\<open>pop\<close> from the end to the beginning, with the head mutex held, as in \<open>Unbounded_Queue\<close>.\<close>

definition bq_pop_assert ::
  "('a pop_result, 'a bounded_queue) block \<Rightarrow> mfid \<Rightarrow> ('a pop_result, 'a bounded_queue, 's) segment" where
  "bq_pop_assert tk k w m q =
     bq_test Test_empty k (\<lambda>b w m q. do { assert_that (\<not> b); bq_leave_head tk w m q }) w m q"

definition bq_pop_closed ::
  "('a pop_result, 'a bounded_queue) block \<Rightarrow> mfid \<Rightarrow> ('a pop_result, 'a bounded_queue, 's) segment" where
  "bq_pop_closed tk k w m q =
     bq_test Test_closed k
       (\<lambda>b w m q. if b then bq_leave_head (bq_pop_return queue_closed) w m q else bq_pop_assert tk k w m q) w m q"

definition bq_pop_after ::
  "('a pop_result, 'a bounded_queue) block \<Rightarrow> mfid \<Rightarrow> ('a pop_result, 'a bounded_queue, 's) segment" where
  "bq_pop_after tk k w m q = (if bq_is_closed q then bq_pop_closed tk k w m q else bq_pop_assert tk k w m q)"

definition bq_pop_test ::
  "('a pop_result, 'a bounded_queue, 's) segment \<Rightarrow> ('a pop_result, 'a bounded_queue) block \<Rightarrow> mfid \<Rightarrow>
   ('a pop_result, 'a bounded_queue, 's) segment" where
  "bq_pop_test slp tk k w m q =
     bq_test Test_loop k (\<lambda>b w m q. if b then slp w m q else bq_pop_after tk k w m q) w m q"

definition bq_pop_sleep :: "mfid \<Rightarrow> ('r, 'a bounded_queue, 's) segment" where
  "bq_pop_sleep k w m q = do {
     (mx, cv, w', m') \<leftarrow> ctx_wait_enter k (bq_head_mtx q) w m (bq_not_empty q);
     Some (Asleep, q\<lparr>bq_head_mtx := mx, bq_not_empty := cv\<rparr>, w', m') }"

text \<open>The loop of \<^verbatim>\<open>pop\<close> waits while the queue is closed and empty.\<close>

definition bq_pop_loop ::
  "('a pop_result, 'a bounded_queue) block \<Rightarrow> mfid \<Rightarrow> ('a pop_result, 'a bounded_queue, 's) segment" where
  "bq_pop_loop tk k w m q =
     (if bq_is_closed q then bq_pop_test (bq_pop_sleep k) tk k w m q else bq_pop_after tk k w m q)"

definition bq_pop_with ::
  "('a pop_result, 'a bounded_queue) block \<Rightarrow> mfid \<Rightarrow> ('a pop_result, 'a bounded_queue, 's) segment" where
  "bq_pop_with tk k w m q = bq_lock_head k (bq_pop_loop tk k) w m q"

text \<open>
  A caller that waited in the line of the tail mutex goes on at the test where it was; one that was
  asleep takes the head mutex again, unless it was interrupted, and is back in the loop.
\<close>

definition bq_pop_resume ::
  "('a pop_result, 'a bounded_queue, 's) segment \<Rightarrow> ('a pop_result, 'a bounded_queue) block \<Rightarrow> mfid \<Rightarrow>
   wait_point \<Rightarrow> ('a pop_result, 'a bounded_queue, 's) segment" where
  "bq_pop_resume slp tk k p w m q =
     (case p of
        Test_loop \<Rightarrow> bq_pop_test slp tk k w m q
      | Test_closed \<Rightarrow> bq_pop_closed tk k w m q
      | Test_empty \<Rightarrow> bq_pop_assert tk k w m q
      | At_lock \<Rightarrow> None)"

definition bq_pop_woken ::
  "('a pop_result, 'a bounded_queue) block \<Rightarrow> mfid \<Rightarrow> ('a pop_result, 'a bounded_queue, 's) segment" where
  "bq_pop_woken tk k w m q =
     (case fm_active m of
        Some a \<Rightarrow> do {
          (r, cv, w1) \<leftarrow> condition_wait_resumed w m (bq_not_empty q);
          let q1 = q\<lparr>bq_not_empty := cv\<rparr>;
          case r of
            Inl e \<Rightarrow> Some (Done (Inl e), q1, w1, m)
          | Inr u \<Rightarrow> bq_pop_with tk k w1 m q1 }
      | None \<Rightarrow> bq_pop_with tk k w m q)"

definition bounded_queue_pop :: "exn option \<Rightarrow> mfid \<Rightarrow> ('a pop_result, 'a bounded_queue, 's) segment" where
  "bounded_queue_pop throws k w m q = bq_pop_with (bq_take throws) k w m q"

definition bounded_queue_ptr_pop :: "'a \<Rightarrow> mfid \<Rightarrow> ('a pop_result, 'a bounded_queue, 's) segment" where
  "bounded_queue_ptr_pop va k w m q = bq_pop_with (bq_ptr_take va) k w m q"

section \<open>Popping with a deadline\<close>

text \<open>The loop of \<^verbatim>\<open>pop_wait_until\<close> waits while the queue is open and empty.\<close>

definition bq_pop_sleep_until :: "time_point \<Rightarrow> mfid \<Rightarrow> ('r, 'a bounded_queue, 's) segment" where
  "bq_pop_sleep_until t k w m q = do {
     (mx, cv, w', m') \<leftarrow> ctx_wait_until_enter k (bq_head_mtx q) t w m (bq_not_empty q);
     Some (Asleep, q\<lparr>bq_head_mtx := mx, bq_not_empty := cv\<rparr>, w', m') }"

definition bq_pop_until_loop ::
  "time_point \<Rightarrow> ('a pop_result, 'a bounded_queue) block \<Rightarrow> mfid \<Rightarrow> ('a pop_result, 'a bounded_queue, 's) segment" where
  "bq_pop_until_loop t tk k w m q =
     (if \<not> bq_is_closed q then bq_pop_test (bq_pop_sleep_until t k) tk k w m q else bq_pop_after tk k w m q)"

definition bq_pop_until_with ::
  "time_point \<Rightarrow> ('a pop_result, 'a bounded_queue) block \<Rightarrow> mfid \<Rightarrow> ('a pop_result, 'a bounded_queue, 's) segment" where
  "bq_pop_until_with t tk k w m q = bq_lock_head k (bq_pop_until_loop t tk k) w m q"

definition bq_pop_until_status ::
  "cv_status \<Rightarrow> time_point \<Rightarrow> ('a pop_result, 'a bounded_queue) block \<Rightarrow> mfid \<Rightarrow>
   ('a pop_result, 'a bounded_queue, 's) segment" where
  "bq_pop_until_status st t tk k w m q =
     (if timeout = st then bq_leave_head (bq_pop_return queue_timeout) w m q
      else bq_pop_until_loop t tk k w m q)"

definition bq_pop_until_woken ::
  "time_point \<Rightarrow> time_point \<Rightarrow> ('a pop_result, 'a bounded_queue) block \<Rightarrow> mfid \<Rightarrow> world \<Rightarrow> 's fiber_manager \<Rightarrow>
   'a bounded_queue \<Rightarrow>
   (cv_status option \<times> 'a pop_result turn \<times> 'a bounded_queue \<times> world \<times> 's fiber_manager) option" where
  "bq_pop_until_woken now t tk k w m q = do {
     (r, cv, w1) \<leftarrow> condition_wait_until_resumed now t w m (bq_not_empty q);
     let q1 = q\<lparr>bq_not_empty := cv\<rparr>;
     case r of
       Inl e \<Rightarrow> Some (None, Done (Inl e), q1, w1, m)
     | Inr st \<Rightarrow> do {
         r' \<leftarrow> bq_lock_head k (bq_pop_until_status st t tk k) w1 m q1;
         Some (Some st, r') } }"

definition bounded_queue_pop_wait_until ::
  "exn option \<Rightarrow> time_point \<Rightarrow> mfid \<Rightarrow> ('a pop_result, 'a bounded_queue, 's) segment" where
  "bounded_queue_pop_wait_until throws t k w m q = bq_pop_until_with t (bq_take throws) k w m q"

definition bounded_queue_ptr_pop_wait_until ::
  "'a \<Rightarrow> time_point \<Rightarrow> mfid \<Rightarrow> ('a pop_result, 'a bounded_queue, 's) segment" where
  "bounded_queue_ptr_pop_wait_until va t k w m q = bq_pop_until_with t (bq_ptr_take va) k w m q"

definition bounded_queue_pop_wait_for ::
  "exn option \<Rightarrow> time_point \<Rightarrow> duration \<Rightarrow> mfid \<Rightarrow> ('a pop_result, 'a bounded_queue, 's) segment" where
  "bounded_queue_pop_wait_for throws now d k w m q = bounded_queue_pop_wait_until throws (now + d) k w m q"

definition bounded_queue_ptr_pop_wait_for ::
  "'a \<Rightarrow> time_point \<Rightarrow> duration \<Rightarrow> mfid \<Rightarrow> ('a pop_result, 'a bounded_queue, 's) segment" where
  "bounded_queue_ptr_pop_wait_for va now d k w m q = bounded_queue_ptr_pop_wait_until va (now + d) k w m q"

section \<open>Popping without waiting for a value\<close>

definition bq_try_pop_empty ::
  "('a pop_result, 'a bounded_queue) block \<Rightarrow> mfid \<Rightarrow> ('a pop_result, 'a bounded_queue, 's) segment" where
  "bq_try_pop_empty tk k w m q =
     bq_test Test_empty k (\<lambda>b w m q. bq_leave_head (if b then bq_pop_return queue_empty else tk) w m q) w m q"

definition bq_try_pop_closed ::
  "('a pop_result, 'a bounded_queue) block \<Rightarrow> mfid \<Rightarrow> ('a pop_result, 'a bounded_queue, 's) segment" where
  "bq_try_pop_closed tk k w m q =
     bq_test Test_closed k
       (\<lambda>b w m q. if b then bq_leave_head (bq_pop_return queue_closed) w m q else bq_try_pop_empty tk k w m q) w m q"

definition bq_try_pop_locked ::
  "('a pop_result, 'a bounded_queue) block \<Rightarrow> mfid \<Rightarrow> ('a pop_result, 'a bounded_queue, 's) segment" where
  "bq_try_pop_locked tk k w m q =
     (if bq_is_closed q then bq_try_pop_closed tk k w m q else bq_try_pop_empty tk k w m q)"

definition bounded_queue_try_pop :: "exn option \<Rightarrow> mfid \<Rightarrow> ('a pop_result, 'a bounded_queue, 's) segment" where
  "bounded_queue_try_pop throws k w m q =
     bq_lock_head k (bq_try_pop_locked
       (\<lambda>w q. case throws of Some e \<Rightarrow> Some (Inl e, q, w) | None \<Rightarrow> bq_take None w q) k) w m q"

definition bounded_queue_ptr_try_pop :: "'a \<Rightarrow> mfid \<Rightarrow> ('a pop_result, 'a bounded_queue, 's) segment" where
  "bounded_queue_ptr_try_pop va k w m q = bq_lock_head k (bq_try_pop_locked (bq_ptr_take va) k) w m q"

section \<open>What a queue holds\<close>

text \<open>
  The queue holds the values \<open>xs\<close>, no more than the high watermark allows, and the counter counts
  them; nobody is inside of it; \<open>fs\<close> wait for a value, \<open>gs\<close> for a free place.
\<close>

definition bq_rep :: "'a bounded_queue \<Rightarrow> 'a list \<Rightarrow> fid list \<Rightarrow> fid list \<Rightarrow> bool" where
  "bq_rep q xs fs gs \<longleftrightarrow> qc_rep (bq_chain q) xs \<and> bq_head_mtx q = mutex_init \<and> bq_tail_mtx q = mutex_init \<and>
     condition_sleepers (bq_not_empty q) fs \<and> condition_sleepers (bq_not_full q) gs \<and>
     bq_count q = of_nat (length xs) \<and> length xs \<le> unat (bq_hwm q)"

lemma bq_repD:
  assumes "bq_rep q xs fs gs"
  shows "qc_rep (bq_chain q) xs" "bq_head_mtx q = mutex_init" "bq_tail_mtx q = mutex_init"
    "condition_sleepers (bq_not_empty q) fs" "condition_sleepers (bq_not_full q) gs"
    "bq_count q = of_nat (length xs)" "length xs \<le> unat (bq_hwm q)"
  using assms by (simp_all add: bq_rep_def)

lemma bq_make_rep: "bq_rep (bq_make hwm lwm) [] [] []"
  by (simp add: bq_rep_def bq_make_def qc_init_rep condition_sleepers_def condition_init_def spinlock_init_def)

lemma size_t_bound: "unat (n :: size_t) < 2 ^ 64"
  using unsigned_less [where ?'a = nat, of n] by simp

lemma size_t_of_nat: "n < 2 ^ 64 \<Longrightarrow> unat (of_nat n :: size_t) = n"
  by (simp add: unsigned_of_nat take_bit_nat_eq_self)

text \<open>The counter does not wrap around: it is the number of values.\<close>

lemma bq_count_exact:
  assumes "bq_rep q xs fs gs"
  shows "unat (bq_count q) = length xs"
proof -
  have "length xs < 2 ^ 64"
    using bq_repD(7) [OF assms] size_t_bound [of "bq_hwm q"] by simp
  with bq_repD(6) [OF assms] show ?thesis by (simp add: size_t_of_nat)
qed

lemma bq_is_full_iff:
  assumes "bq_rep q xs fs gs"
  shows "bq_is_full q \<longleftrightarrow> length xs = unat (bq_hwm q)"
  using bq_count_exact [OF assms] bq_repD(7) [OF assms] by (auto simp: bq_is_full_def word_le_nat_alt)

text \<open>Every kind of caller finds the mutexes free.\<close>

lemma bq_unlock_eval:
  "bq_tail_mtx q = mutex_taken (this_get_id m) \<Longrightarrow> bq_unlock_tail w m q = Some (q\<lparr>bq_tail_mtx := mutex_init\<rparr>, w)"
  "bq_head_mtx q = mutex_taken (this_get_id m) \<Longrightarrow> bq_unlock_head w m q = Some (q\<lparr>bq_head_mtx := mutex_init\<rparr>, w)"
  by (simp_all add: bq_unlock_tail_def bq_unlock_head_def ctx_unlock)

lemma bq_test_free:
  assumes "bq_tail_mtx q = mutex_init"
  shows "bq_test p k cont w m q = cont (qc_empty (bq_chain q)) (ctx_locked_world k m w) m q"
proof -
  have same: "q\<lparr>bq_tail_mtx := mutex_init\<rparr> = q" using assms by (cases q) simp
  show ?thesis
    by (simp add: bq_test_def bq_is_empty_def bq_get_tail_def assms ctx_lock_free bq_unlock_eval qc_empty_def same)
qed

lemma bq_lock_free:
  "bq_head_mtx q = mutex_init \<Longrightarrow>
     bq_lock_head k seg w m q = seg (ctx_locked_world k m w) m (q\<lparr>bq_head_mtx := mutex_taken (this_get_id m)\<rparr>)"
  "bq_tail_mtx q = mutex_init \<Longrightarrow>
     bq_lock_tail k seg w m q = seg (ctx_locked_world k m w) m (q\<lparr>bq_tail_mtx := mutex_taken (this_get_id m)\<rparr>)"
  by (simp_all add: bq_lock_head_def bq_lock_tail_def ctx_lock_free)

lemma bq_state_closed: "bq_is_closed q \<longleftrightarrow> bq_state q = CLOSED"
  by (auto simp: bq_is_closed_def)

lemmas bq_pop_points = bq_pop_with_def bq_pop_loop_def bq_pop_test_def bq_pop_after_def bq_pop_closed_def
  bq_pop_assert_def bq_state_closed bq_leave_head_def bq_pop_return_def bq_lock_free bq_test_free bq_unlock_eval

lemmas bq_push_points = bounded_queue_push_def bq_push_locked_def bq_push_loop_def bq_state_closed bq_leave_tail_def
  bq_push_return_def bq_lock_free bq_unlock_eval

text \<open>The steps on the data keep the contract of a channel; its counter counts modulo \<open>2 ^ 64\<close>.\<close>

definition bq_chan_rep :: "'a bounded_queue \<Rightarrow> 'a list \<Rightarrow> bool" where
  "bq_chan_rep q xs \<longleftrightarrow> qc_rep (bq_chain q) xs \<and> bq_count q = of_nat (length xs)"

definition bq_chan_put :: "'a \<Rightarrow> 'a bounded_queue \<Rightarrow> 'a bounded_queue" where
  "bq_chan_put v q = (case qc_new (bq_chain q) of (n, c) \<Rightarrow> bq_store n v (q\<lparr>bq_chain := c\<rparr>))"

definition bq_chan_empty :: "'a bounded_queue \<Rightarrow> bool" where
  "bq_chan_empty q \<longleftrightarrow> qc_empty (bq_chain q)"

interpretation bqc: channel bq_chan_rep bq_chan_put bq_pop_head bq_chan_empty
proof (unfold_locales, goal_cases)
  case (1 q xs v)
  obtain n c where c: "qc_new (bq_chain q) = (n, c)" by (cases "qc_new (bq_chain q)")
  with 1 qc_new_rep [of "bq_chain q" xs n c] show ?case
    by (simp add: bq_chan_rep_def bq_chan_put_def bq_store_def qc_link_rep)
next
  case (2 q x xs)
  with qc_pop_head_rep [of "bq_chain q" x xs] show ?case
    by (auto simp: bq_chan_rep_def bq_pop_head_def)
next
  case (3 q xs)
  then show ?case by (simp add: bq_chan_rep_def bq_chan_empty_def qc_empty_iff)
qed

section \<open>Properties\<close>

text \<open>
  C36: \<^verbatim>\<open>push\<close>, of a value whose copy does not throw, never overfills a bounded queue. While there are fewer values than the high
  watermark it appends the value and wakes the consumer that has waited longest; at the watermark
  the caller goes to sleep as the last of the producers, with the tail mutex given back and the
  queue unchanged; a closed queue refuses. In every case the number of values stays within the
  watermark and the 64-bit counter is exactly that number. The low watermark does not matter to
  \<^verbatim>\<open>push\<close>: the code has no memory of having been full, where the documentation
  (\<^verbatim>\<open>queue.qbk:266\<close>) lets a queue that was full refuse values until it has shrunk below the low
  watermark; \<open>bounded_queue_watermarks\<close> shows the difference.
\<close>

theorem bounded_queue_push_spec:
  assumes rep: "bq_rep q xs fs gs" and run: "fm_running w m a" and Q: "fm_queues fifo_rep w m ws rs"
    and fs: "set fs \<subseteq> set ws" and a: "a \<notin> set gs"
  shows "\<exists>r q' w'. bounded_queue_push None v k w m q = Some (r, q', w', m) \<and>
     (if bq_state q = CLOSED then r = Done (Inr queue_closed) \<and> w' = w \<and> bq_rep q' xs fs gs
      else if length xs = unat (bq_hwm q)
      then r = Asleep \<and> is_waiting (w_heap w') a \<and> fm_queues fifo_rep w' m (ws @ [a]) rs \<and>
        bq_rep q' xs fs (gs @ [a])
      else r = Done (Inr queue_success) \<and> bq_rep q' (xs @ [v]) (tl fs) gs \<and>
        (\<forall>f. hd_or None fs = Some f \<longrightarrow> is_ready (w_heap w') f))"
proof -
  have act: "fm_active m = Some a" using run by (simp add: fm_running_def)
  note R = bq_repD [OF rep]
  obtain n c where c: "qc_new (bq_chain q) = (n, c)" by (cases "qc_new (bq_chain q)")
  note new = qc_new_rep [OF R(1) c]
  have full: "bq_is_full (q\<lparr>bq_chain := d, bq_tail_mtx := mx\<rparr>) \<longleftrightarrow> length xs = unat (bq_hwm q)" for d mx
    using bq_is_full_iff [OF rep] by (simp add: bq_is_full_def)
  consider "bq_state q = CLOSED" | "bq_state q = OPEN" "length xs = unat (bq_hwm q)"
    | "bq_state q = OPEN" "length xs \<noteq> unat (bq_hwm q)" by (cases "bq_state q") auto
  then show ?thesis
  proof cases
    case 1
    with c R new act show ?thesis by (simp add: bq_push_points bq_rep_def)
  next
    case 2
    from ctx_sleep_ok [OF R(5) a run Q, of k] obtain cv' w' where
      "ctx_wait_enter k (mutex_taken (this_get_id m)) w m (bq_not_full q) = Some (mutex_init, cv', w', m)"
      "condition_sleepers cv' (gs @ [a])" "fm_queues fifo_rep w' m (ws @ [a]) rs" "is_waiting (w_heap w') a" by blast
    with 2 c full R new act show ?thesis by (simp add: bq_push_points bq_rep_def)
  next
    case 3
    from condition_notify_one_sleepers [OF R(4) Q fs] obtain cv' w' where nt:
      "condition_notify_one (bq_not_empty q) w = Some (cv', w')" "condition_sleepers cv' (tl fs)"
      "fs \<noteq> [] \<longrightarrow> is_ready (w_heap w') (hd fs)" by blast
    have "\<forall>f. hd_or None fs = Some f \<longrightarrow> is_ready (w_heap w') f" using nt(3) by (cases fs) auto
    moreover have "length xs + 1 \<le> unat (bq_hwm q)" using R(7) 3(2) by simp
    ultimately show ?thesis
      using 3 c act full R nt(1,2) qc_link_rep [OF new, of v]
      by (simp add: bq_push_points bq_put_def bq_store_def bq_rep_def)
  qed
qed

theorem bounded_queue_push_spec_witness:
  "(\<exists>q' w'. bounded_queue_push None (10 :: nat) 0 (sy_world demo_sys4) (sy_mgr demo_sys4) (bounded_queue_ctor 0) =
      Some (Asleep, q', w', sy_mgr demo_sys4) \<and> bq_rep q' [] [] [1]) \<and>
   (\<exists>q' w'. bounded_queue_push None (10 :: nat) 0 (sy_world demo_sys4) (sy_mgr demo_sys4) (bounded_queue_ctor 5) =
      Some (Done (Inr queue_success), q', w', sy_mgr demo_sys4) \<and> bq_rep q' [10] [] [])"
proof -
  have "bq_rep (bounded_queue_ctor n :: nat bounded_queue) [] [] []" for n
    by (simp add: bounded_queue_ctor_def bq_make_rep)
  note push = bounded_queue_push_spec [OF this demo_sys4_queues(2,1), where v = 10 and k = 0]
  from push [of 0] push [of 5] show ?thesis by (auto simp: bounded_queue_ctor_def bq_make_def)
qed

text \<open>What \<^verbatim>\<open>pop\<close> does with a value: it comes off the front, and producers are woken at the low watermark.\<close>

lemma bq_notify_not_full_ok:
  assumes "condition_sleepers (bq_not_full q) gs" and "fm_queues fifo_rep w m ws rs" and "set gs \<subseteq> set ws"
  shows "\<exists>cv' w' gs'. bq_notify_not_full w q = Some (q\<lparr>bq_not_full := cv'\<rparr>, w') \<and> condition_sleepers cv' gs' \<and>
     gs' = (if bq_lwm q < bq_count q then gs else if bq_lwm q = bq_hwm q then tl gs else []) \<and>
     (\<forall>g \<in> set gs - set gs'. is_ready (w_heap w') g)"
proof -
  consider "bq_lwm q < bq_count q" | "bq_count q \<le> bq_lwm q" "bq_lwm q = bq_hwm q"
    | "bq_count q \<le> bq_lwm q" "bq_lwm q \<noteq> bq_hwm q" by (metis not_le)
  then show ?thesis
  proof cases
    case 1
    have "q\<lparr>bq_not_full := bq_not_full q\<rparr> = q" "\<not> bq_count q \<le> bq_lwm q"
      using 1 by (cases q, simp, simp add: not_le)
    with 1 assms(1) show ?thesis
      by (intro exI [of _ "bq_not_full q"] exI [of _ w] exI [of _ gs]) (simp add: bq_notify_not_full_def)
  next
    case 2
    from condition_notify_one_sleepers [OF assms] obtain cv' w' where
      "condition_notify_one (bq_not_full q) w = Some (cv', w')" "condition_sleepers cv' (tl gs)"
      "gs \<noteq> [] \<longrightarrow> is_ready (w_heap w') (hd gs)" by blast
    with 2 show ?thesis
      by (intro exI [of _ cv'] exI [of _ w'] exI [of _ "tl gs"], cases gs) (auto simp: bq_notify_not_full_def)
  next
    case 3
    have cv: "cv_splk (bq_not_full q) = UNLOCKED" "cv_waiting (bq_not_full q) = map Worker gs"
      using assms(1) by (simp_all add: condition_sleepers_def)
    have "set gs \<subseteq> set ws \<union> set rs" using assms(3) by auto
    from condition_notify_all_ok [OF cv assms(2) this] obtain w' where
      "condition_notify_all (bq_not_full q) w = Some ((bq_not_full q)\<lparr>cv_waiting := []\<rparr>, w')"
      "\<forall>g. wf_state (w_heap w' g) = (if g \<in> set gs then READY else wf_state (w_heap w g))" by blast
    with 3 cv leD [OF 3(1)] show ?thesis
      by (intro exI [of _ "(bq_not_full q)\<lparr>cv_waiting := []\<rparr>"] exI [of _ w'] exI [of _ "[]"])
        (simp add: bq_notify_not_full_def condition_sleepers_def is_ready_def)
  qed
qed

lemma bounded_queue_pop_ok:
  assumes "bq_rep q (x # xs) fs gs" and "fm_queues fifo_rep w m ws rs" and "set gs \<subseteq> set ws"
  shows "\<exists>q' w' gs'. bounded_queue_pop None k w m q = Some (Done (Inr (queue_success, Some x)), q', w', m) \<and>
     bq_rep q' xs fs gs' \<and> bq_hwm q' = bq_hwm q \<and> (\<forall>g \<in> set gs - set gs'. is_ready (w_heap w') g) \<and>
     gs' = (if unat (bq_lwm q) < length xs then gs else if bq_lwm q = bq_hwm q then tl gs else [])"
proof -
  note R = bq_repD [OF assms(1)]
  obtain c' where c': "qc_pop_head (bq_chain q) = Some (Some x, c')" "qc_rep c' xs"
    using qc_pop_head_rep [OF R(1)] by blast
  let ?q = "q\<lparr>bq_head_mtx := mutex_taken (this_get_id m), bq_chain := c', bq_count := bq_count q - 1\<rparr>"
  have Q: "fm_queues fifo_rep (ctx_locked_world k m w) m ws rs" using assms(2) by (simp add: fm_queues_ctx_locked)
  have "length xs < 2 ^ 64" using R(7) size_t_bound [of "bq_hwm q"] by simp
  then have low: "bq_lwm q < bq_count q - 1 \<longleftrightarrow> unat (bq_lwm q) < length xs"
    using R(6) by (simp add: word_less_nat_alt size_t_of_nat)
  from bq_notify_not_full_ok [of ?q gs "ctx_locked_world k m w" m ws rs] R(5) Q assms(3) low obtain cv' w' gs' where nf:
    "bq_notify_not_full (ctx_locked_world k m w) ?q = Some (?q\<lparr>bq_not_full := cv'\<rparr>, w')" "condition_sleepers cv' gs'"
    "gs' = (if unat (bq_lwm q) < length xs then gs else if bq_lwm q = bq_hwm q then tl gs else [])"
    "\<forall>g \<in> set gs - set gs'. is_ready (w_heap w') g" by auto
  have "\<not> qc_empty (bq_chain q)" using qc_empty_iff [OF R(1)] by simp
  with c' nf(1) R
  have "bounded_queue_pop None k w m q = Some (Done (Inr (queue_success, Some x)),
      ?q\<lparr>bq_not_full := cv', bq_head_mtx := mutex_init\<rparr>, w', m)"
    by (simp add: bounded_queue_pop_def bq_pop_points bq_take_def bq_pop_head_def)
  moreover have "bq_rep (?q\<lparr>bq_not_full := cv', bq_head_mtx := mutex_init\<rparr>) xs fs gs'"
    using R c'(2) nf(2) by (simp add: bq_rep_def)
  ultimately show ?thesis using nf(3,4) by fastforce
qed

text \<open>
  C37: \<^verbatim>\<open>pop\<close> of a queue that holds a value hands out the oldest one, closed or not, if its move does not
  throw. When no more
  values than the low watermark remain it wakes producers: the one that has waited longest if the
  watermarks are equal, else all of them; and none while more remain. Producers are woken as soon as
  the low watermark is reached, where the documentation (\<^verbatim>\<open>queue.qbk:331\<close>) says that the number
  of values has to drop below it.
\<close>

theorem bounded_queue_pop_spec:
  assumes "bq_rep q (x # xs) fs gs" and "fm_queues fifo_rep w m ws rs" and "set gs \<subseteq> set ws"
  shows "\<exists>q' w' gs'. bounded_queue_pop None k w m q = Some (Done (Inr (queue_success, Some x)), q', w', m) \<and>
     bq_rep q' xs fs gs' \<and> (\<forall>g \<in> set gs - set gs'. is_ready (w_heap w') g) \<and>
     gs' = (if unat (bq_lwm q) < length xs then gs else if bq_lwm q = bq_hwm q then tl gs else [])"
  using bounded_queue_pop_ok [OF assms, of k] by blast

text \<open>
  The watermarks, as the code has them and as they are documented. A queue that was full takes new
  values after a single \<^verbatim>\<open>pop\<close>, however many values remain above the low watermark: \<^verbatim>\<open>is_full\<close> is
  false at once, where \<^verbatim>\<open>queue.qbk:270\<close> and \<^verbatim>\<open>queue.qbk:314\<close> say that it stays true until the
  number of values has dropped below the low watermark. And when exactly as many values remain as
  the low watermark, every producer is ready.
\<close>

theorem bounded_queue_watermarks:
  assumes "bq_rep q (x # xs) fs gs" and "bounded_queue_is_full q" and "unat (bounded_queue_lower_bound q) \<le> length xs"
    and "fm_queues fifo_rep w m ws rs" and "set gs \<subseteq> set ws"
  shows "\<exists>q' w' gs'. bounded_queue_pop None k w m q = Some (Done (Inr (queue_success, Some x)), q', w', m) \<and>
     bq_rep q' xs fs gs' \<and> \<not> bounded_queue_is_full q' \<and>
     (length xs = unat (bounded_queue_lower_bound q) \<longrightarrow> gs' = [] \<and> (\<forall>g \<in> set gs. is_ready (w_heap w') g))"
proof -
  have full: "length (x # xs) = unat (bq_hwm q)"
    using bq_is_full_iff [OF assms(1)] assms(2) by (simp add: bounded_queue_is_full_def)
  then have less: "bq_lwm q \<noteq> bq_hwm q" using assms(3) by (auto simp: bounded_queue_lower_bound_def)
  from bounded_queue_pop_ok [OF assms(1,4,5), of k] obtain q' w' gs' where p:
    "bounded_queue_pop None k w m q = Some (Done (Inr (queue_success, Some x)), q', w', m)" "bq_rep q' xs fs gs'"
    "\<forall>g \<in> set gs - set gs'. is_ready (w_heap w') g" "bq_hwm q' = bq_hwm q"
    "gs' = (if unat (bq_lwm q) < length xs then gs else if bq_lwm q = bq_hwm q then tl gs else [])" by blast
  have "\<not> bounded_queue_is_full q'"
    using bq_is_full_iff [OF p(2)] full p(4) by (simp add: bounded_queue_is_full_def)
  with p less show ?thesis
    by (intro exI [of _ q'] exI [of _ w'] exI [of _ gs']) (auto simp: bounded_queue_lower_bound_def)
qed

definition demo_bq :: "nat bounded_queue" where
  "demo_bq = (bq_chan_put 10 (bounded_queue_ctor 1))\<lparr>bq_not_full := \<lparr>cv_splk = UNLOCKED, cv_waiting = [Worker 2]\<rparr>\<rparr>"

lemma demo_bq_rep: "bq_rep demo_bq [10] [] [2]"
proof -
  have "bq_chan_rep (bounded_queue_ctor 1 :: nat bounded_queue) []"
    by (simp add: bq_chan_rep_def bounded_queue_ctor_def bq_make_def qc_init_rep)
  from bqc.put_rep [OF this, of 10] have "qc_rep (bq_chain demo_bq) [10]" "bq_count demo_bq = of_nat 1"
    by (simp_all add: bq_chan_rep_def demo_bq_def)
  moreover have "bq_hwm demo_bq = 1" "bq_head_mtx demo_bq = mutex_init" "bq_tail_mtx demo_bq = mutex_init"
    "condition_sleepers (bq_not_empty demo_bq) []"
    by (simp_all add: demo_bq_def bq_chan_put_def bq_store_def bounded_queue_ctor_def bq_make_def qc_new_def
        condition_sleepers_def condition_init_def spinlock_init_def)
  ultimately show ?thesis by (simp add: bq_rep_def demo_bq_def condition_sleepers_def)
qed

theorem bounded_queue_pop_spec_witness:
  "\<exists>q' w'. bounded_queue_pop None 0 (sy_world demo_sys4) (sy_mgr demo_sys4) demo_bq =
     Some (Done (Inr (queue_success, Some 10)), q', w', sy_mgr demo_sys4) \<and> bq_rep q' [] [] [] \<and>
     is_ready (w_heap w') 2"
proof -
  have "bq_lwm demo_bq = bq_hwm demo_bq"
    by (simp add: demo_bq_def bq_chan_put_def bq_store_def bounded_queue_ctor_def bq_make_def qc_new_def)
  with bounded_queue_pop_spec [OF demo_bq_rep demo_sys4_queues(1), of 0] show ?thesis by auto
qed

text \<open>A queue with watermarks 2 and 1 that is full, with fiber 2 waiting to push.\<close>

definition demo_bq2 :: "nat bounded_queue" where
  "demo_bq2 = (bq_chan_put 20 (bq_chan_put 10 (bq_make 2 1)))\<lparr>bq_not_full := \<lparr>cv_splk = UNLOCKED, cv_waiting = [Worker 2]\<rparr>\<rparr>"

lemma demo_bq2_rep: "bq_rep demo_bq2 [10, 20] [] [2]"
proof -
  have "bq_chan_rep (bq_make 2 1 :: nat bounded_queue) []"
    by (simp add: bq_chan_rep_def bq_make_def qc_init_rep)
  from bqc.put_rep [OF bqc.put_rep [OF this, of 10], of 20]
  have "qc_rep (bq_chain demo_bq2) [10, 20]" "bq_count demo_bq2 = of_nat 2"
    by (simp_all add: bq_chan_rep_def demo_bq2_def)
  moreover have "bq_hwm demo_bq2 = 2" "bq_head_mtx demo_bq2 = mutex_init" "bq_tail_mtx demo_bq2 = mutex_init"
    "condition_sleepers (bq_not_empty demo_bq2) []"
    by (simp_all add: demo_bq2_def bq_chan_put_def bq_store_def bq_make_def qc_new_def split_beta
        condition_sleepers_def condition_init_def spinlock_init_def)
  ultimately show ?thesis by (simp add: bq_rep_def demo_bq2_def condition_sleepers_def)
qed

theorem bounded_queue_watermarks_witness:
  "bounded_queue_is_full demo_bq2 \<and> bounded_queue_lower_bound demo_bq2 = 1 \<and>
   (\<exists>q' w'. bounded_queue_pop None 0 (sy_world demo_sys4) (sy_mgr demo_sys4) demo_bq2 =
       Some (Done (Inr (queue_success, Some 10)), q', w', sy_mgr demo_sys4) \<and> bq_rep q' [20] [] [] \<and>
     \<not> bounded_queue_is_full q' \<and> is_ready (w_heap w') 2)"
proof -
  have ev: "bounded_queue_is_full demo_bq2" "bounded_queue_lower_bound demo_bq2 = 1" by code_simp+
  with bounded_queue_watermarks [OF demo_bq2_rep ev(1) _ demo_sys4_queues(1), of 0] show ?thesis by auto
qed

text \<open>
  \<^verbatim>\<open>pop\<close> has the test of its waiting loop the wrong way round. On an open queue that is empty
  it does not wait for a value but fails the assertion that the queue is not empty; on a closed
  queue that is empty it does not report the closing but goes to sleep.
\<close>

theorem bounded_queue_pop_empty:
  assumes "bq_rep q [] fs gs" and "fm_running w m a" and "fm_queues fifo_rep w m ws rs" and "a \<notin> set fs"
  shows "(bq_state q = OPEN \<longrightarrow> bounded_queue_pop None k w m q = None) \<and>
     (bq_state q = CLOSED \<longrightarrow> (\<exists>q' w'. bounded_queue_pop None k w m q = Some (Asleep, q', w', m) \<and>
        is_waiting (w_heap w') a \<and> bq_rep q' [] (fs @ [a]) gs))"
proof -
  have act: "fm_active m = Some a" using assms(2) by (simp add: fm_running_def)
  note R = bq_repD [OF assms(1)]
  have empty: "qc_empty (bq_chain q)" using qc_empty_iff [OF R(1)] by simp
  from ctx_sleep_ok [OF R(4) assms(4,2,3), of k] obtain cv' w' where
    "ctx_wait_enter k (mutex_taken (this_get_id m)) w m (bq_not_empty q) = Some (mutex_init, cv', w', m)"
    "condition_sleepers cv' (fs @ [a])" "is_waiting (w_heap w') a" by blast
  with empty R act show ?thesis
    by (simp add: bounded_queue_pop_def bq_pop_points bq_pop_sleep_def bq_rep_def)
qed

theorem bounded_queue_pop_empty_witness:
  "bounded_queue_pop None 0 (sy_world demo_sys2) (sy_mgr demo_sys2) (bounded_queue_ctor 5 :: nat bounded_queue) = None"
  using bounded_queue_pop_empty [OF bq_make_rep demo_sys2_queues(2,1)]
  by (simp add: bounded_queue_ctor_def bq_make_def)

text \<open>
  A producer that waited for a free place does not look at the state again: once there is one it
  puts its value into the queue and reports success, although the queue has been closed meanwhile.
\<close>

theorem bounded_queue_push_ignores_close:
  assumes "bq_rep q xs fs gs" and "fm_active m = Some a" and "interruption_point w m = Some (Inr (), w)"
    and "fm_queues fifo_rep w m ws rs" and "set fs \<subseteq> set ws"
    and "bq_state q = CLOSED" and "length xs < unat (bq_hwm q)" and "qc_spare n (bq_chain q)"
  shows "\<exists>q' w'. bq_push_woken None n v k w m q = Some (Done (Inr queue_success), q', w', m) \<and>
     bq_state q' = CLOSED \<and> bq_rep q' (xs @ [v]) (tl fs) gs"
proof -
  note R = bq_repD [OF assms(1)]
  have same: "q\<lparr>bq_not_full := bq_not_full q\<rparr> = q" by (cases q) simp
  have full: "\<not> bq_is_full (q\<lparr>bq_tail_mtx := mx\<rparr>)" for mx
    using bq_is_full_iff [OF assms(1)] assms(7) by (simp add: bq_is_full_def)
  from condition_notify_one_sleepers [OF R(4) assms(4,5)] obtain cv' w' where
    "condition_notify_one (bq_not_empty q) w = Some (cv', w')" "condition_sleepers cv' (tl fs)" by blast
  with R full assms(2,3,6,7) same qc_link_rep [OF R(1) assms(8), of v] show ?thesis
    by (simp add: bq_push_woken_def condition_wait_resumed_def bq_push_points bq_put_def bq_store_def bq_rep_def)
qed

end
