(* ===== verification/Result_Cell.thy ===== *)
theory Result_Cell
  imports Exceptions
begin

text \<open>
  The abstract specification of a shared state: a cell that takes one result, a value or an
  exception, and keeps it. \<open>Abandon\<close> is the destruction of the promise or task that owns the
  cell. The contract \<open>result_cell\<close> is what \<open>Shared_State\<close> has to provide for each of its
  versions, \<open>Future\<close> and \<open>Packaged_Task\<close> rely on it.
\<close>

type_synonym 'v cell = "'v result option"

datatype 'v cell_op = Set_value 'v | Set_exception exn | Abandon

fun cell_outcome :: "'v cell_op \<Rightarrow> 'v result" where
  "cell_outcome (Set_value v) = Inr v"
| "cell_outcome (Set_exception e) = Inl e"
| "cell_outcome Abandon = Inl broken_promise"

text \<open>What an operation on a cell that already has its result returns.\<close>

fun cell_late :: "'v cell_op \<Rightarrow> unit result" where
  "cell_late Abandon = Inr ()"
| "cell_late _ = Inl promise_already_satisfied"

definition cell_step :: "'v cell_op \<Rightarrow> 'v cell \<Rightarrow> unit result \<times> 'v cell" where
  "cell_step op c = (case c of None \<Rightarrow> (Inr (), Some (cell_outcome op)) | Some r \<Rightarrow> (cell_late op, Some r))"

fun cell_run :: "('op \<Rightarrow> 's \<Rightarrow> ('r \<times> 's) option) \<Rightarrow> 'op list \<Rightarrow> 's \<Rightarrow> ('r list \<times> 's) option" where
  "cell_run put [] s = Some ([], s)"
| "cell_run put (op # ops) s = do {
     (r, s1) \<leftarrow> put op s;
     (rs, s2) \<leftarrow> cell_run put ops s1;
     Some (r # rs, s2) }"

text \<open>
  \<open>put\<close> carries out one operation, \<open>get\<close> is the result a reader sees, \<open>None\<close> if it has
  to wait.
\<close>

locale result_cell =
  fixes rep :: "'s \<Rightarrow> 'v cell \<Rightarrow> bool"
    and put :: "'v cell_op \<Rightarrow> 's \<Rightarrow> (unit result \<times> 's) option"
    and get :: "'s \<Rightarrow> 'v result option"
  assumes put_rep: "rep s c \<Longrightarrow>
      \<exists>s'. put op s = Some (fst (cell_step op c), s') \<and> rep s' (snd (cell_step op c))"
    and get_rep: "rep s c \<Longrightarrow> get s = c"

context result_cell
begin

lemma run_late:
  assumes "rep s (Some r)"
  shows "\<exists>s'. cell_run put ops s = Some (map cell_late ops, s') \<and> rep s' (Some r)"
  using assms
proof (induction ops arbitrary: s)
  case (Cons op ops)
  from put_rep [OF Cons.prems, of op] obtain s1 where s1: "put op s = Some (cell_late op, s1)" "rep s1 (Some r)"
    by (auto simp: cell_step_def)
  from Cons.IH [OF s1(2)] s1(1) show ?case by auto
qed simp

text \<open>The first result wins: every later attempt is refused and readers see the first one for ever.\<close>

lemma first_wins:
  assumes "rep s None"
  shows "\<exists>s'. cell_run put (op # ops) s = Some (Inr () # map cell_late ops, s') \<and> get s' = Some (cell_outcome op)"
proof -
  from put_rep [OF assms, of op] obtain s1 where s1: "put op s = Some (Inr (), s1)" "rep s1 (Some (cell_outcome op))"
    by (auto simp: cell_step_def)
  from run_late [OF s1(2), of ops] s1(1) get_rep show ?thesis by auto
qed

end

end
