(* ===== verification/Shared_State.thy ===== *)
theory Shared_State
  imports Blocking Result_Cell
begin

text \<open>
  The object a promise or task and its futures share (\<^verbatim>\<open>future/detail/shared_state.hpp\<close>,
  \<^verbatim>\<open>future/detail/shared_state_object.hpp\<close>, \<^verbatim>\<open>future/future_status.hpp\<close>). Its abstract
  meaning is a cell that is written once, with a value or with an exception; the theory shows that
  every sequence of its operations behaves like that cell, and that its waiters are woken.

  The template has three versions. This theory has the one for \<^verbatim>\<open>R\<close>, which keeps an
  \<^verbatim>\<open>optional\<close> value. \<^verbatim>\<open>void\<close> keeps no value: its two functions that differ are written out
  here, so that the contract below covers it, and the whole version in \<open>Void_Future\<close>. \<^verbatim>\<open>R &\<close>
  keeps the address of the object; that version is in \<open>Ref_Future\<close>.
\<close>

datatype future_status = future_ready | future_timeout | future_deferred

record 'v shared_state =
  ss_use_count :: size_t
  ss_mtx :: mutex
  ss_waiters :: condition
  ss_ready :: bool
  ss_value :: "'v option"
  ss_except :: "exn option"

definition shared_state_ctor :: "'v shared_state" where
  "shared_state_ctor =
     \<lparr>ss_use_count = 0, ss_mtx = mutex_init, ss_waiters = condition_init, ss_ready = False, ss_value = None,
      ss_except = None\<rparr>"

text \<open>Destruction runs the destructors of the two members that check something.\<close>

definition shared_state_dtor :: "'v shared_state \<Rightarrow> unit option" where
  "shared_state_dtor s = do {
     condition_dtor (ss_waiters s);
     mutex_dtor (ss_mtx s) }"

section \<open>Private functions\<close>

definition mark_ready_and_notify :: "'v shared_state \<Rightarrow> world \<Rightarrow> ('v shared_state \<times> world) option" where
  "mark_ready_and_notify s w = do {
     let s1 = s\<lparr>ss_ready := True\<rparr>;
     (cv, w') \<leftarrow> condition_notify_all (ss_waiters s1) w;
     Some (s1\<lparr>ss_waiters := cv\<rparr>, w') }"

definition ss_set_exception ::
  "exn \<Rightarrow> 'v shared_state \<Rightarrow> world \<Rightarrow> (unit result \<times> 'v shared_state \<times> world) option" where
  "ss_set_exception except s w =
     (if ss_ready s then Some (Inl promise_already_satisfied, s, w)
      else do {
        (s', w') \<leftarrow> mark_ready_and_notify (s\<lparr>ss_except := Some except\<rparr>) w;
        Some (Inr (), s', w') })"

definition ss_owner_destroyed ::
  "'v shared_state \<Rightarrow> world \<Rightarrow> (unit result \<times> 'v shared_state \<times> world) option" where
  "ss_owner_destroyed s w =
     (if \<not> ss_ready s then ss_set_exception broken_promise s w else Some (Inr (), s, w))"

text \<open>
  Assigning the value copies or moves an object of the user's type: \<open>cp\<close> is the copy, or the
  exception the copying throws.
\<close>

definition ss_set_value ::
  "'v result \<Rightarrow> 'v shared_state \<Rightarrow> world \<Rightarrow> (unit result \<times> 'v shared_state \<times> world) option" where
  "ss_set_value cp s w =
     (if ss_ready s then Some (Inl promise_already_satisfied, s, w)
      else case cp of
        Inl e \<Rightarrow> Some (Inl e, s, w)
      | Inr v \<Rightarrow> do {
          (s', w') \<leftarrow> mark_ready_and_notify (s\<lparr>ss_value := Some v\<rparr>) w;
          Some (Inr (), s', w') })"

definition ss_void_set_value ::
  "unit shared_state \<Rightarrow> world \<Rightarrow> (unit result \<times> unit shared_state \<times> world) option" where
  "ss_void_set_value s w =
     (if ss_ready s then Some (Inl promise_already_satisfied, s, w)
      else do {
        (s', w') \<leftarrow> mark_ready_and_notify s w;
        Some (Inr (), s', w') })"

text \<open>
  What \<^verbatim>\<open>get_\<close> does after \<^verbatim>\<open>wait_\<close>; reading an \<^verbatim>\<open>optional\<close> without value, or through
  the null pointer, is undefined.
\<close>

definition ss_result :: "'v shared_state \<Rightarrow> 'v result option" where
  "ss_result s = (case ss_except s of Some e \<Rightarrow> Some (Inl e) | None \<Rightarrow> do { v \<leftarrow> ss_value s; Some (Inr v) })"

definition ss_void_result :: "unit shared_state \<Rightarrow> unit result option" where
  "ss_void_result s = Some (case ss_except s of Some e \<Rightarrow> Inl e | None \<Rightarrow> Inr ())"

section \<open>The lock around a call\<close>

definition ss_unlock :: "world \<Rightarrow> 's fiber_manager \<Rightarrow> 'v shared_state \<Rightarrow> ('v shared_state \<times> world) option" where
  "ss_unlock w m s = do {
     (mx, w') \<leftarrow> mutex_unlock w m (ss_mtx s);
     Some (s\<lparr>ss_mtx := mx\<rparr>, w') }"

text \<open>\<^verbatim>\<open>unique_lock< mutex > lk( mtx_)\<close>, a private function, and the end of the block.\<close>

definition ss_guarded ::
  "('v shared_state \<Rightarrow> world \<Rightarrow> ('r \<times> 'v shared_state \<times> world) option) \<Rightarrow>
   mfid \<Rightarrow> world \<Rightarrow> 's fiber_manager \<Rightarrow> 'v shared_state \<Rightarrow>
   ('r turn \<times> 'v shared_state \<times> world \<times> 's fiber_manager) option" where
  "ss_guarded body k w m s = do {
     (got, mx, w1, m1) \<leftarrow> ctx_lock k w m (ss_mtx s);
     let s1 = s\<lparr>ss_mtx := mx\<rparr>;
     if got then do {
       (r, s2, w2) \<leftarrow> body s1 w1;
       (s3, w3) \<leftarrow> ss_unlock w2 m1 s2;
       Some (Done r, s3, w3, m1) }
     else Some (In_line, s1, w1, m1) }"

section \<open>Setting the result\<close>

definition shared_state_owner_destroyed ::
  "mfid \<Rightarrow> world \<Rightarrow> 's fiber_manager \<Rightarrow> 'v shared_state \<Rightarrow>
   (unit result turn \<times> 'v shared_state \<times> world \<times> 's fiber_manager) option" where
  "shared_state_owner_destroyed k w m s = ss_guarded ss_owner_destroyed k w m s"

definition shared_state_set_value ::
  "'v result \<Rightarrow> mfid \<Rightarrow> world \<Rightarrow> 's fiber_manager \<Rightarrow> 'v shared_state \<Rightarrow>
   (unit result turn \<times> 'v shared_state \<times> world \<times> 's fiber_manager) option" where
  "shared_state_set_value cp k w m s = ss_guarded (ss_set_value cp) k w m s"

definition shared_state_void_set_value ::
  "mfid \<Rightarrow> world \<Rightarrow> 's fiber_manager \<Rightarrow> unit shared_state \<Rightarrow>
   (unit result turn \<times> unit shared_state \<times> world \<times> 's fiber_manager) option" where
  "shared_state_void_set_value k w m s = ss_guarded ss_void_set_value k w m s"

definition shared_state_set_exception ::
  "exn \<Rightarrow> mfid \<Rightarrow> world \<Rightarrow> 's fiber_manager \<Rightarrow> 'v shared_state \<Rightarrow>
   (unit result turn \<times> 'v shared_state \<times> world \<times> 's fiber_manager) option" where
  "shared_state_set_exception except k w m s = ss_guarded (ss_set_exception except) k w m s"

text \<open>\<^verbatim>\<open>reset\<close> takes no lock and only clears the flag.\<close>

definition shared_state_reset :: "'v shared_state \<Rightarrow> 'v shared_state" where
  "shared_state_reset s = s\<lparr>ss_ready := False\<rparr>"

section \<open>Waiting for the result\<close>

text \<open>
  One round of the loop in \<^verbatim>\<open>wait_\<close>, with the mutex held; \<open>fin\<close> is what follows the loop. The
  mutex is given back when the function is left, also by an exception.
\<close>

definition ss_wait_round ::
  "('v shared_state \<Rightarrow> 'r result option) \<Rightarrow> mfid \<Rightarrow> world \<Rightarrow> 's fiber_manager \<Rightarrow> 'v shared_state \<Rightarrow>
   ('r result turn \<times> 'v shared_state \<times> world \<times> 's fiber_manager) option" where
  "ss_wait_round fin k w m s =
     (if ss_ready s then do {
        r \<leftarrow> fin s;
        (s', w') \<leftarrow> ss_unlock w m s;
        Some (Done r, s', w', m) }
      else do {
        (mx, cv, w', m') \<leftarrow> ctx_wait_enter k (ss_mtx s) w m (ss_waiters s);
        Some (Asleep, s\<lparr>ss_mtx := mx, ss_waiters := cv\<rparr>, w', m') })"

text \<open>Taking the mutex, at the beginning of the call or again before \<^verbatim>\<open>condition::wait\<close> returns.\<close>

definition ss_wait_lock ::
  "('v shared_state \<Rightarrow> 'r result option) \<Rightarrow> mfid \<Rightarrow> world \<Rightarrow> 's fiber_manager \<Rightarrow> 'v shared_state \<Rightarrow>
   ('r result turn \<times> 'v shared_state \<times> world \<times> 's fiber_manager) option" where
  "ss_wait_lock fin k w m s = do {
     (got, mx, w1, m1) \<leftarrow> ctx_lock k w m (ss_mtx s);
     let s1 = s\<lparr>ss_mtx := mx\<rparr>;
     if got then ss_wait_round fin k w1 m1 s1 else Some (In_line, s1, w1, m1) }"

text \<open>
  The caller runs again after it was asleep. An interruption leaves the call; the mutex is not held
  then.
\<close>

definition ss_wait_woken ::
  "('v shared_state \<Rightarrow> 'r result option) \<Rightarrow> mfid \<Rightarrow> world \<Rightarrow> 's fiber_manager \<Rightarrow> 'v shared_state \<Rightarrow>
   ('r result turn \<times> 'v shared_state \<times> world \<times> 's fiber_manager) option" where
  "ss_wait_woken fin k w m s =
     (case fm_active m of
        Some a \<Rightarrow> do {
          (r, cv, w1) \<leftarrow> condition_wait_resumed w m (ss_waiters s);
          let s1 = s\<lparr>ss_waiters := cv\<rparr>;
          case r of
            Inl e \<Rightarrow> Some (Done (Inl e), s1, w1, m)
          | Inr u \<Rightarrow> ss_wait_lock fin k w1 m s1 }
      | None \<Rightarrow> ss_wait_lock fin k w m s)"

definition shared_state_get ::
  "mfid \<Rightarrow> world \<Rightarrow> 's fiber_manager \<Rightarrow> 'v shared_state \<Rightarrow>
   ('v result turn \<times> 'v shared_state \<times> world \<times> 's fiber_manager) option" where
  "shared_state_get k w m s = ss_wait_lock ss_result k w m s"

definition shared_state_void_get ::
  "mfid \<Rightarrow> world \<Rightarrow> 's fiber_manager \<Rightarrow> unit shared_state \<Rightarrow>
   (unit result turn \<times> unit shared_state \<times> world \<times> 's fiber_manager) option" where
  "shared_state_void_get k w m s = ss_wait_lock ss_void_result k w m s"

definition shared_state_wait ::
  "mfid \<Rightarrow> world \<Rightarrow> 's fiber_manager \<Rightarrow> 'v shared_state \<Rightarrow>
   (unit result turn \<times> 'v shared_state \<times> world \<times> 's fiber_manager) option" where
  "shared_state_wait k w m s = ss_wait_lock (\<lambda>s. Some (Inr ())) k w m s"

section \<open>Waiting with a deadline\<close>

definition ss_until_round ::
  "time_point \<Rightarrow> mfid \<Rightarrow> world \<Rightarrow> 's fiber_manager \<Rightarrow> 'v shared_state \<Rightarrow>
   (future_status result turn \<times> 'v shared_state \<times> world \<times> 's fiber_manager) option" where
  "ss_until_round t k w m s =
     (if ss_ready s then do {
        (s', w') \<leftarrow> ss_unlock w m s;
        Some (Done (Inr future_ready), s', w', m) }
      else do {
        (mx, cv, w', m') \<leftarrow> ctx_wait_until_enter k (ss_mtx s) t w m (ss_waiters s);
        Some (Asleep, s\<lparr>ss_mtx := mx, ss_waiters := cv\<rparr>, w', m') })"

text \<open>The condition has returned \<open>st\<close>, with the mutex held again.\<close>

definition ss_until_status ::
  "cv_status \<Rightarrow> time_point \<Rightarrow> mfid \<Rightarrow> world \<Rightarrow> 's fiber_manager \<Rightarrow> 'v shared_state \<Rightarrow>
   (future_status result turn \<times> 'v shared_state \<times> world \<times> 's fiber_manager) option" where
  "ss_until_status st t k w m s =
     (if timeout = st \<and> \<not> ss_ready s then do {
        (s', w') \<leftarrow> ss_unlock w m s;
        Some (Done (Inr future_timeout), s', w', m) }
      else ss_until_round t k w m s)"

text \<open>
  A fiber runs again, at the time \<open>now\<close>, after it slept until a result or the deadline: first
  the rest of \<^verbatim>\<open>condition::wait_until\<close>, then the mutex, then the status. A fiber that has to
  wait for the mutex keeps the status.
\<close>

definition ss_until_woken ::
  "time_point \<Rightarrow> time_point \<Rightarrow> mfid \<Rightarrow> world \<Rightarrow> 's fiber_manager \<Rightarrow> 'v shared_state \<Rightarrow>
   (cv_status option \<times> future_status result turn \<times> 'v shared_state \<times> world \<times> 's fiber_manager) option" where
  "ss_until_woken now t k w m s = do {
     (r, cv, w1) \<leftarrow> condition_wait_until_resumed now t w m (ss_waiters s);
     let s1 = s\<lparr>ss_waiters := cv\<rparr>;
     case r of
       Inl e \<Rightarrow> Some (None, Done (Inl e), s1, w1, m)
     | Inr st \<Rightarrow> do {
         (got, mx, w2, m2) \<leftarrow> ctx_lock k w1 m (ss_mtx s1);
         let s2 = s1\<lparr>ss_mtx := mx\<rparr>;
         if got then do { (r', s3, w3, m3) \<leftarrow> ss_until_status st t k w2 m2 s2; Some (Some st, r', s3, w3, m3) }
         else Some (Some st, In_line, s2, w2, m2) } }"

definition shared_state_wait_until ::
  "time_point \<Rightarrow> mfid \<Rightarrow> world \<Rightarrow> 's fiber_manager \<Rightarrow> 'v shared_state \<Rightarrow>
   (future_status result turn \<times> 'v shared_state \<times> world \<times> 's fiber_manager) option" where
  "shared_state_wait_until t k w m s = do {
     (got, mx, w1, m1) \<leftarrow> ctx_lock k w m (ss_mtx s);
     let s1 = s\<lparr>ss_mtx := mx\<rparr>;
     if got then ss_until_round t k w1 m1 s1 else Some (In_line, s1, w1, m1) }"

text \<open>\<^verbatim>\<open>wait_for\<close> reads the clock and counts the duration anew in every round of its loop.\<close>

definition shared_state_wait_for ::
  "time_point \<Rightarrow> duration \<Rightarrow> mfid \<Rightarrow> world \<Rightarrow> 's fiber_manager \<Rightarrow> 'v shared_state \<Rightarrow>
   (future_status result turn \<times> 'v shared_state \<times> world \<times> 's fiber_manager) option" where
  "shared_state_wait_for now d k w m s = do {
     (got, mx, w1, m1) \<leftarrow> ctx_lock k w m (ss_mtx s);
     let s1 = s\<lparr>ss_mtx := mx\<rparr>;
     if got then ss_until_round (now + d) k w1 m1 s1 else Some (In_line, s1, w1, m1) }"

definition ss_for_status ::
  "cv_status \<Rightarrow> time_point \<Rightarrow> duration \<Rightarrow> mfid \<Rightarrow> world \<Rightarrow> 's fiber_manager \<Rightarrow> 'v shared_state \<Rightarrow>
   (future_status result turn \<times> 'v shared_state \<times> world \<times> 's fiber_manager) option" where
  "ss_for_status st now d k w m s = ss_until_status st (now + d) k w m s"

section \<open>A shared state is a result cell\<close>

text \<open>
  \<open>ss_rep res s c fs\<close>: nobody is inside, the state stands for the cell \<open>c\<close>, and the
  fibers \<open>fs\<close> wait for the result; \<open>res\<close> is how the version reads its result.
\<close>

definition ss_rep :: "('v shared_state \<Rightarrow> 'r result option) \<Rightarrow> 'v shared_state \<Rightarrow> 'r cell \<Rightarrow> fid list \<Rightarrow> bool" where
  "ss_rep res s c fs \<longleftrightarrow> ss_mtx s = mutex_init \<and> condition_sleepers (ss_waiters s) fs \<and>
     (case c of None \<Rightarrow> \<not> ss_ready s \<and> ss_except s = None | Some r \<Rightarrow> ss_ready s \<and> res s = Some r)"

lemma ss_repD:
  assumes "ss_rep res s c fs"
  shows "ss_mtx s = mutex_init" "condition_sleepers (ss_waiters s) fs" "ss_ready s \<longleftrightarrow> c \<noteq> None"
    "c = Some r \<Longrightarrow> res s = Some r" "c = None \<Longrightarrow> ss_except s = None"
  using assms by (auto simp: ss_rep_def split: option.splits)

lemma ss_ctor_rep: "ss_rep res shared_state_ctor None []"
  by (simp add: ss_rep_def shared_state_ctor_def condition_sleepers_def condition_init_def spinlock_init_def)

text \<open>The result does not depend on the mutex, the condition and the flag.\<close>

definition ss_reads :: "('v shared_state \<Rightarrow> 'r result option) \<Rightarrow> bool" where
  "ss_reads res \<longleftrightarrow> (\<forall>s mx cv b. res (s\<lparr>ss_mtx := mx\<rparr>) = res s \<and> res (s\<lparr>ss_waiters := cv\<rparr>) = res s \<and>
     res (s\<lparr>ss_ready := b\<rparr>) = res s)"

lemma ss_results_read: "ss_reads ss_result" "ss_reads ss_void_result"
  by (auto simp: ss_reads_def ss_result_def ss_void_result_def split: option.splits)

text \<open>A body between lock and unlock.\<close>

lemma ss_guarded_free:
  assumes "ss_mtx s = mutex_init"
    and "body (s\<lparr>ss_mtx := mutex_taken (this_get_id m)\<rparr>) (ctx_locked_world k m w) =
      Some (r, s1\<lparr>ss_mtx := mutex_taken (this_get_id m)\<rparr>, w')"
  shows "ss_guarded body k w m s = Some (Done r, s1\<lparr>ss_mtx := mutex_init\<rparr>, w', m)"
  using assms by (simp add: ss_guarded_def ctx_lock_free ss_unlock_def ctx_unlock)

text \<open>Making a state ready wakes everybody who waits.\<close>

lemma mark_ready_ok:
  assumes "condition_sleepers (ss_waiters s) fs" and "fm_queues fifo_rep w m ws rs" and "set fs \<subseteq> set ws"
  shows "\<exists>w' ws'. mark_ready_and_notify s w = Some (s\<lparr>ss_ready := True, ss_waiters := condition_init\<rparr>, w') \<and>
     fm_queues fifo_rep w' m ws' rs \<and> set ws' = set ws \<and>
     (\<forall>g. wf_state (w_heap w' g) = (if g \<in> set fs then READY else wf_state (w_heap w g)))"
proof -
  have cv: "cv_splk (ss_waiters s) = UNLOCKED" "cv_waiting (ss_waiters s) = map Worker fs"
    using assms(1) by (simp_all add: condition_sleepers_def)
  from condition_notify_all_ok [OF cv assms(2)] assms(3) obtain w' ws' where w:
    "condition_notify_all (ss_waiters s) w = Some ((ss_waiters s)\<lparr>cv_waiting := []\<rparr>, w')"
    "fm_queues fifo_rep w' m ws' rs" "set ws' = set ws"
    "\<forall>g. wf_state (w_heap w' g) = (if g \<in> set fs then READY else wf_state (w_heap w g))" by blast
  have "(ss_waiters s)\<lparr>cv_waiting := []\<rparr> = condition_init"
    using cv(1) by (cases "ss_waiters s") (simp add: condition_init_def spinlock_init_def)
  with w show ?thesis by (intro exI [of _ w'] exI [of _ ws']) (simp add: mark_ready_and_notify_def)
qed

subsection \<open>What the versions have in common\<close>

text \<open>
  \<open>opf\<close> are the private functions that set the result, \<open>store\<close> what each of them writes
  before it makes the state ready, \<open>res\<close> how the result is read.
\<close>

locale ss_version =
  fixes opf :: "'r cell_op \<Rightarrow> 'v shared_state \<Rightarrow> world \<Rightarrow> (unit result \<times> 'v shared_state \<times> world) option"
    and store :: "'r cell_op \<Rightarrow> 'v shared_state \<Rightarrow> 'v shared_state"
    and res :: "'v shared_state \<Rightarrow> 'r result option"
  assumes opf_conv: "opf op s w =
      (if ss_ready s then Some (cell_late op, s, w)
       else do { (s', w') \<leftarrow> mark_ready_and_notify (store op s) w; Some (Inr (), s', w') })"
    and store_res: "ss_except s = None \<Longrightarrow> res (store op s) = Some (cell_outcome op)"
    and store_mtx: "store op (s\<lparr>ss_mtx := mx\<rparr>) = (store op s)\<lparr>ss_mtx := mx\<rparr>"
    and store_waiters: "ss_waiters (store op s) = ss_waiters s"
    and res_reads: "ss_reads res"

context ss_version
begin

lemma res_simps [simp]:
  "res (s\<lparr>ss_mtx := mx\<rparr>) = res s" "res (s\<lparr>ss_waiters := cv\<rparr>) = res s" "res (s\<lparr>ss_ready := b\<rparr>) = res s"
  using res_reads by (simp_all add: ss_reads_def)

text \<open>Setting the result the first time.\<close>

lemma set_first:
  assumes rep: "ss_rep res s None fs" and Q: "fm_queues fifo_rep w m ws rs" and sub: "set fs \<subseteq> set ws"
  shows "\<exists>s' w' ws'. ss_guarded (opf op) k w m s = Some (Done (Inr ()), s', w', m) \<and>
     ss_rep res s' (Some (cell_outcome op)) [] \<and> fm_queues fifo_rep w' m ws' rs \<and> set ws' = set ws \<and>
     (\<forall>g. wf_state (w_heap w' g) = (if g \<in> set fs then READY else wf_state (w_heap w g)))"
proof -
  note R = ss_repD [OF rep]
  let ?s = "store op s" and ?w = "ctx_locked_world k m w"
  have Q': "fm_queues fifo_rep ?w m ws rs" using Q by (simp add: fm_queues_ctx_locked)
  have cs: "condition_sleepers (ss_waiters (?s\<lparr>ss_mtx := mutex_taken (this_get_id m)\<rparr>)) fs"
    using R(2) by (simp add: store_waiters)
  from mark_ready_ok [OF cs Q' sub] obtain w' ws' where w: "mark_ready_and_notify (?s\<lparr>ss_mtx := mutex_taken (this_get_id m)\<rparr>) ?w =
      Some (?s\<lparr>ss_mtx := mutex_taken (this_get_id m), ss_ready := True, ss_waiters := condition_init\<rparr>, w')"
    "fm_queues fifo_rep w' m ws' rs" "set ws' = set ws"
    "\<forall>g. wf_state (w_heap w' g) = (if g \<in> set fs then READY else wf_state (w_heap w g))" by auto
  let ?s1 = "?s\<lparr>ss_ready := True, ss_waiters := condition_init\<rparr>"
  have "ss_guarded (opf op) k w m s = Some (Done (Inr ()), ?s1\<lparr>ss_mtx := mutex_init\<rparr>, w', m)"
    by (rule ss_guarded_free [OF R(1)]) (use R(3) w(1) in \<open>simp add: opf_conv store_mtx\<close>)
  moreover have "ss_rep res (?s1\<lparr>ss_mtx := mutex_init\<rparr>) (Some (cell_outcome op)) []"
    using store_res [of s op] R(5)
    by (simp add: ss_rep_def condition_sleepers_def condition_init_def spinlock_init_def)
  ultimately show ?thesis using w(2-4) by blast
qed

text \<open>A second attempt is refused and changes nothing.\<close>

lemma set_again:
  assumes rep: "ss_rep res s (Some r) fs"
  shows "ss_guarded (opf op) k w m s = Some (Done (cell_late op), s, ctx_locked_world k m w, m)"
proof -
  note R = ss_repD [OF rep]
  have "s\<lparr>ss_mtx := mutex_init\<rparr> = s" using R(1) by (cases s) simp
  with ss_guarded_free [OF R(1), of "opf op" m k w "cell_late op" s] R(3) show ?thesis by (simp add: opf_conv)
qed

text \<open>Reading: at once if there is a result, else the caller sleeps.\<close>

lemma get_ready:
  assumes rep: "ss_rep res s (Some r) fs"
  shows "ss_wait_lock res k w m s = Some (Done r, s, ctx_locked_world k m w, m)"
proof -
  note R = ss_repD [OF rep]
  have "s\<lparr>ss_mtx := mutex_init\<rparr> = s" using R(1) by (cases s) simp
  with R(1,3,4) show ?thesis
    by (simp add: ss_wait_lock_def ctx_lock_free ss_wait_round_def ss_unlock_def ctx_unlock)
qed

end

text \<open>A fiber that finds no result registers as the last, gives the mutex back and sleeps.\<close>

lemma ss_wait_sleeps:
  assumes rep: "ss_rep res s None fs" and run: "fm_running w m a" and Q: "fm_queues fifo_rep w m ws rs"
    and new: "a \<notin> set fs"
  shows "\<exists>s' w'. ss_wait_lock fin k w m s = Some (Asleep, s', w', m) \<and> ss_rep res s' None (fs @ [a]) \<and>
     is_waiting (w_heap w') a \<and> fm_queues fifo_rep w' m (ws @ [a]) rs"
proof -
  note R = ss_repD [OF rep]
  have act: "fm_active m = Some a" using run by (simp add: fm_running_def)
  have cv: "cv_splk (ss_waiters s) = UNLOCKED" "Worker a \<notin> set (cv_waiting (ss_waiters s))"
    using R(2) new by (auto simp: condition_sleepers_def)
  from condition_wait_enter_ok [of "ss_waiters s" a m "\<lambda>l v. mutex_unlock v m l"
      "mutex_taken (this_get_id m)" w mutex_init w, OF cv act ctx_unlock Q run]
  obtain w' where w': "condition_wait_enter (\<lambda>l v. mutex_unlock v m l) (mutex_taken (this_get_id m)) w m (ss_waiters s) =
      Some (mutex_init, (ss_waiters s)\<lparr>cv_waiting := cv_waiting (ss_waiters s) @ [Worker a]\<rparr>, w', m)"
    "fm_queues fifo_rep w' m (ws @ [a]) rs" "is_waiting (w_heap w') a" by blast
  with act R show ?thesis
    by (simp add: ss_wait_lock_def ctx_lock_free ss_wait_round_def ctx_wait_enter_def ss_rep_def condition_sleepers_def)
qed

text \<open>A fiber that runs again after it slept asks for the result again, if it was not interrupted.\<close>

lemma ss_wait_woken_again:
  assumes "fm_active m = Some f" and "\<not> interruption_requested (w_heap w f)"
  shows "ss_wait_woken fin k w m s = ss_wait_lock fin k w m s"
proof -
  have "s\<lparr>ss_waiters := ss_waiters s\<rparr> = s" by (cases s) simp
  with assms show ?thesis
    by (simp add: ss_wait_woken_def condition_wait_resumed_def interruption_point_def
        this_interruption_requested_def)
qed

subsection \<open>The contract, for each version\<close>

fun ss_op :: "'v cell_op \<Rightarrow> 'v shared_state \<Rightarrow> world \<Rightarrow> (unit result \<times> 'v shared_state \<times> world) option" where
  "ss_op (Set_value v) = ss_set_value (Inr v)"
| "ss_op (Set_exception e) = ss_set_exception e"
| "ss_op Abandon = ss_owner_destroyed"

fun ss_store :: "'v cell_op \<Rightarrow> 'v shared_state \<Rightarrow> 'v shared_state" where
  "ss_store (Set_value v) s = s\<lparr>ss_value := Some v\<rparr>"
| "ss_store (Set_exception e) s = s\<lparr>ss_except := Some e\<rparr>"
| "ss_store Abandon s = s\<lparr>ss_except := Some broken_promise\<rparr>"

fun ss_void_op :: "unit cell_op \<Rightarrow> unit shared_state \<Rightarrow> world \<Rightarrow> (unit result \<times> unit shared_state \<times> world) option" where
  "ss_void_op (Set_value u) = ss_void_set_value"
| "ss_void_op (Set_exception e) = ss_set_exception e"
| "ss_void_op Abandon = ss_owner_destroyed"

fun ss_void_store :: "unit cell_op \<Rightarrow> unit shared_state \<Rightarrow> unit shared_state" where
  "ss_void_store (Set_value u) s = s"
| "ss_void_store (Set_exception e) s = s\<lparr>ss_except := Some e\<rparr>"
| "ss_void_store Abandon s = s\<lparr>ss_except := Some broken_promise\<rparr>"

interpretation ssr: ss_version ss_op ss_store ss_result
proof (unfold_locales, goal_cases)
  case (1 op s w)
  show ?case by (cases op) (simp_all add: ss_set_value_def ss_set_exception_def ss_owner_destroyed_def)
next
  case (2 s op)
  then show ?case by (cases op) (simp_all add: ss_result_def)
next
  case (3 op s mx)
  show ?case by (cases op) simp_all
next
  case (4 op s)
  show ?case by (cases op) simp_all
qed (rule ss_results_read)

interpretation ssv: ss_version ss_void_op ss_void_store ss_void_result
proof (unfold_locales, goal_cases)
  case (1 op s w)
  show ?case by (cases op) (simp_all add: ss_void_set_value_def ss_set_exception_def ss_owner_destroyed_def)
next
  case (2 s op)
  then show ?case by (cases op) (simp_all add: ss_void_result_def)
next
  case (3 op s mx)
  show ?case by (cases op) simp_all
next
  case (4 op s)
  show ?case by (cases op) simp_all
qed (rule ss_results_read)

text \<open>The calls as operations of a cell, on the state together with the world.\<close>

definition ss_put ::
  "('r cell_op \<Rightarrow> 'v shared_state \<Rightarrow> world \<Rightarrow> (unit result \<times> 'v shared_state \<times> world) option) \<Rightarrow>
   mfid \<Rightarrow> 's fiber_manager \<Rightarrow> 'r cell_op \<Rightarrow> 'v shared_state \<times> world \<Rightarrow>
   (unit result \<times> ('v shared_state \<times> world)) option" where
  "ss_put opf k m op sw =
     (case ss_guarded (opf op) k (snd sw) m (fst sw) of
        Some (Done r, s', w', m') \<Rightarrow> Some (r, (s', w'))
      | _ \<Rightarrow> None)"

definition ss_seen ::
  "('v shared_state \<Rightarrow> 'r result option) \<Rightarrow> mfid \<Rightarrow> 's fiber_manager \<Rightarrow> 'v shared_state \<times> world \<Rightarrow> 'r result option" where
  "ss_seen res k m sw =
     (case ss_wait_lock res k (snd sw) m (fst sw) of
        Some (Done r, s', w', m') \<Rightarrow> Some r
      | _ \<Rightarrow> None)"

definition ss_cell_rep ::
  "('v shared_state \<Rightarrow> 'r result option) \<Rightarrow> fifo fiber_manager \<Rightarrow> 'v shared_state \<times> world \<Rightarrow> 'r cell \<Rightarrow> bool" where
  "ss_cell_rep res m sw c \<longleftrightarrow>
     (\<exists>fs ws rs. ss_rep res (fst sw) c fs \<and> fm_queues fifo_rep (snd sw) m ws rs \<and> set fs \<subseteq> set ws)"

lemma ss_cell_repI:
  "ss_rep res s c fs \<Longrightarrow> fm_queues fifo_rep w m ws rs \<Longrightarrow> set fs \<subseteq> set ws \<Longrightarrow> ss_cell_rep res m (s, w) c"
  unfolding ss_cell_rep_def by (rule exI [of _ fs], rule exI [of _ ws], rule exI [of _ rs]) simp

sublocale ss_version \<subseteq> cell: result_cell "ss_cell_rep res m" "ss_put opf k m" "ss_seen res k m"
  for m :: "fifo fiber_manager" and k :: mfid
proof (unfold_locales, goal_cases)
  case (1 sw c op)
  then obtain fs ws rs where *: "ss_rep res (fst sw) c fs" "fm_queues fifo_rep (snd sw) m ws rs" "set fs \<subseteq> set ws"
    by (auto simp: ss_cell_rep_def)
  show ?case
  proof (cases c)
    case None
    from set_first [OF *(1) [unfolded None] *(2,3), of op k] obtain s' w' ws' where
      "ss_guarded (opf op) k (snd sw) m (fst sw) = Some (Done (Inr ()), s', w', m)"
      "ss_rep res s' (Some (cell_outcome op)) []" "fm_queues fifo_rep w' m ws' rs" by blast
    moreover from ss_cell_repI [OF this(2,3)] have "ss_cell_rep res m (s', w') (Some (cell_outcome op))" by simp
    ultimately show ?thesis using None by (simp add: ss_put_def cell_step_def)
  next
    case (Some r)
    have "ss_cell_rep res m (fst sw, ctx_locked_world k m (snd sw)) (Some r)"
      using * Some by (intro ss_cell_repI [of _ _ _ fs _ _ ws rs]) (simp_all add: fm_queues_ctx_locked)
    with set_again [OF *(1) [unfolded Some], of op k "snd sw" m] Some show ?thesis
      by (simp add: ss_put_def cell_step_def)
  qed
next
  case (2 sw c)
  then obtain fs where *: "ss_rep res (fst sw) c fs" by (auto simp: ss_cell_rep_def)
  show ?case
  proof (cases c)
    case None
    with ss_repD [OF *] show ?thesis
      by (auto simp: ss_seen_def ss_wait_lock_def ctx_lock_free ss_wait_round_def split: option.splits bind_splits)
  next
    case (Some r)
    from get_ready [OF * [unfolded Some], of k "snd sw" m] Some show ?thesis by (simp add: ss_seen_def)
  qed
qed

section \<open>Properties\<close>

text \<open>
  C13: a shared state refines the write-once cell. Whatever sequence of \<^verbatim>\<open>set_value\<close>,
  \<^verbatim>\<open>set_exception\<close> and \<^verbatim>\<open>owner_destroyed\<close> is called on a new state, by a fiber or by a main
  context, the first one succeeds and decides what \<^verbatim>\<open>get\<close> returns, for a value as for
  \<^verbatim>\<open>void\<close>; every later attempt to set a result throws \<^verbatim>\<open>promise_already_satisfied\<close> and changes
  nothing, and the destruction of the owner is then without effect.
\<close>

theorem shared_state_first_result_wins:
  assumes "fm_queues fifo_rep w m ws rs"
  shows "(\<exists>s' w'. cell_run (ss_put ss_op k m) (op # ops) (shared_state_ctor, w) =
         Some (Inr () # map cell_late ops, (s', w')) \<and>
       ss_seen ss_result k m (s', w') = Some (cell_outcome op)) \<and>
     (\<exists>s' w'. cell_run (ss_put ss_void_op k m) (vop # vops) (shared_state_ctor, w) =
         Some (Inr () # map cell_late vops, (s', w')) \<and>
       ss_seen ss_void_result k m (s', w') = Some (cell_outcome vop))"
proof -
  have "ss_cell_rep ss_result m (shared_state_ctor, w) None" "ss_cell_rep ss_void_result m (shared_state_ctor, w) None"
    using ss_cell_repI [OF ss_ctor_rep assms] by simp_all
  from ssr.cell.first_wins [OF this(1), of k op ops] ssv.cell.first_wins [OF this(2), of k vop vops]
  show ?thesis by auto
qed

theorem shared_state_first_result_wins_witness:
  "\<exists>s'. cell_run (ss_put ss_op 0 (sy_mgr demo_sys2)) [Set_value (7 :: int), Set_value 8, Set_exception forced_unwind, Abandon]
       (shared_state_ctor, sy_world demo_sys2) =
     Some ([Inr (), Inl promise_already_satisfied, Inl promise_already_satisfied, Inr ()], s') \<and>
     ss_seen ss_result 0 (sy_mgr demo_sys2) s' = Some (Inr 7)"
  using shared_state_first_result_wins [OF demo_sys2_queues(1), of 0 "Set_value (7 :: int)"
      "[Set_value 8, Set_exception forced_unwind, Abandon]" Abandon "[]"] by auto

text \<open>
  \<^verbatim>\<open>set_value\<close> wakes every fiber that waits for the result, and none other; each of them,
  when it runs again without having been interrupted, leaves \<^verbatim>\<open>get\<close> with the value and does not
  wait again.
\<close>

theorem shared_state_set_value_wakes:
  assumes "ss_rep ss_result s None fs" and "fm_queues fifo_rep w m ws rs" and "set fs \<subseteq> set ws"
  shows "\<exists>s' w' ws'. shared_state_set_value (Inr v) k w m s = Some (Done (Inr ()), s', w', m) \<and>
     fm_queues fifo_rep w' m ws' rs \<and> set ws' = set ws \<and>
     (\<forall>g. wf_state (w_heap w' g) = (if g \<in> set fs then READY else wf_state (w_heap w g))) \<and>
     (\<forall>f w1 (m1 :: fifo fiber_manager). fm_active m1 = Some f \<longrightarrow> \<not> interruption_requested (w_heap w1 f) \<longrightarrow>
        ss_wait_woken ss_result k w1 m1 s' = Some (Done (Inr v), s', w1, m1))"
proof -
  from ssr.set_first [OF assms, of "Set_value v" k] obtain s' w' ws' where s':
    "shared_state_set_value (Inr v) k w m s = Some (Done (Inr ()), s', w', m)"
    "ss_rep ss_result s' (Some (Inr v)) []" "fm_queues fifo_rep w' m ws' rs" "set ws' = set ws"
    "\<forall>g. wf_state (w_heap w' g) = (if g \<in> set fs then READY else wf_state (w_heap w g))"
    by (auto simp: shared_state_set_value_def)
  have "ss_wait_woken ss_result k w1 m1 s' = Some (Done (Inr v), s', w1, m1)"
    if "fm_active m1 = Some f" "\<not> interruption_requested (w_heap w1 f)" for f w1 and m1 :: "fifo fiber_manager"
    using ssr.get_ready [OF s'(2), of k w1 m1] that by (simp add: ss_wait_woken_again)
  with s' show ?thesis by blast
qed

theorem shared_state_set_value_wakes_witness:
  "\<exists>s' w'. shared_state_set_value (Inr (7 :: int)) 0 (sy_world demo_sys4) (sy_mgr demo_sys4)
       (shared_state_ctor\<lparr>ss_waiters := \<lparr>cv_splk = UNLOCKED, cv_waiting = [Worker 2]\<rparr>\<rparr>) =
     Some (Done (Inr ()), s', w', sy_mgr demo_sys4) \<and> is_ready (w_heap w') 2"
proof -
  let ?s = "(shared_state_ctor :: int shared_state)\<lparr>ss_waiters := \<lparr>cv_splk = UNLOCKED, cv_waiting = [Worker 2]\<rparr>\<rparr>"
  have "ss_rep ss_result ?s None [2]" by (simp add: ss_rep_def shared_state_ctor_def condition_sleepers_def)
  from shared_state_set_value_wakes [OF this demo_sys4_queues(1), of 7 0] show ?thesis
    by (auto simp: is_ready_def)
qed

end
