(* ===== verification/Future.thy ===== *)
theory Future
  imports Shared_State
begin

text \<open>
  The handles \<^verbatim>\<open>future\<close> and \<^verbatim>\<open>shared_future\<close> (\<^verbatim>\<open>future/future.hpp\<close>) and the store of the
  shared states they point to, with the reference counts that decide when a state is destroyed. This
  is the version of each class for a value type; \<^verbatim>\<open>get\<close> of \<^verbatim>\<open>void\<close> is written out here, the
  versions for \<^verbatim>\<open>void\<close> and for references as a whole in \<open>Void_Future\<close> and \<open>Ref_Future\<close>.
\<close>

section \<open>Shared states and pointers to them\<close>

text \<open>
  A \<open>sid\<close> is the address of a shared state, \<open>ptr_t\<close> an \<^verbatim>\<open>intrusive_ptr\<close>. A state that
  has been deallocated is \<open>None\<close> in the store, and using it is undefined; \<open>st_fresh\<close> is the next
  address the allocator returns.
\<close>

type_synonym sid = nat
type_synonym ptr_t = "sid option"

record 'v states =
  st_obj :: "sid \<Rightarrow> 'v shared_state option"
  st_fresh :: sid

definition states_init :: "'v states" where
  "states_init = \<lparr>st_obj = (\<lambda>_. None), st_fresh = 0\<rparr>"

definition st_set :: "sid \<Rightarrow> 'v shared_state \<Rightarrow> 'v states \<Rightarrow> 'v states" where
  "st_set i s st = st\<lparr>st_obj := (st_obj st)(i := Some s)\<rparr>"

definition intrusive_ptr_add_ref :: "sid \<Rightarrow> 'v states \<Rightarrow> 'v states option" where
  "intrusive_ptr_add_ref i st = do {
     s \<leftarrow> st_obj st i;
     Some (st_set i (s\<lparr>ss_use_count := ss_use_count s + 1\<rparr>) st) }"

text \<open>\<^verbatim>\<open>deallocate_future\<close>: destroy the object and give its memory back.\<close>

definition deallocate_future :: "sid \<Rightarrow> 'v states \<Rightarrow> 'v states option" where
  "deallocate_future i st = do {
     s \<leftarrow> st_obj st i;
     shared_state_dtor s;
     Some (st\<lparr>st_obj := (st_obj st)(i := None)\<rparr>) }"

definition intrusive_ptr_release :: "sid \<Rightarrow> 'v states \<Rightarrow> 'v states option" where
  "intrusive_ptr_release i st = do {
     s \<leftarrow> st_obj st i;
     let s' = s\<lparr>ss_use_count := ss_use_count s - 1\<rparr>;
     if 0 = ss_use_count s' then deallocate_future i (st_set i s' st)
     else Some (st_set i s' st) }"

text \<open>Copying and destroying a pointer; swapping two of them leaves the counts alone.\<close>

definition ptr_copy :: "ptr_t \<Rightarrow> 'v states \<Rightarrow> (ptr_t \<times> 'v states) option" where
  "ptr_copy p st =
     (case p of
        None \<Rightarrow> Some (None, st)
      | Some i \<Rightarrow> do { st' \<leftarrow> intrusive_ptr_add_ref i st; Some (Some i, st') })"

definition ptr_drop :: "ptr_t \<Rightarrow> 'v states \<Rightarrow> 'v states option" where
  "ptr_drop p st = (case p of None \<Rightarrow> Some st | Some i \<Rightarrow> intrusive_ptr_release i st)"

text \<open>\<^verbatim>\<open>ptr_t( ::new( a.allocate( 1) ) object_t( a) )\<close>.\<close>

definition ptr_new :: "'v states \<Rightarrow> (ptr_t \<times> 'v states) option" where
  "ptr_new st = do {
     let i = st_fresh st;
     st' \<leftarrow> intrusive_ptr_add_ref i ((st_set i shared_state_ctor st)\<lparr>st_fresh := i + 1\<rparr>);
     Some (Some i, st') }"

text \<open>A member function called through a pointer.\<close>

definition st_call ::
  "('v shared_state \<Rightarrow> ('r \<times> 'v shared_state \<times> 'x) option) \<Rightarrow> sid \<Rightarrow> 'v states \<Rightarrow> ('r \<times> 'v states \<times> 'x) option" where
  "st_call f i st = do {
     s \<leftarrow> st_obj st i;
     (r, s', x) \<leftarrow> f s;
     Some (r, st_set i s' st, x) }"

section \<open>Futures\<close>

text \<open>A \<^verbatim>\<open>future\<close> is its pointer \<^verbatim>\<open>state_\<close>.\<close>

type_synonym future = ptr_t

definition future_ctor :: future where
  "future_ctor = None"

definition future_ctor_ptr :: "ptr_t \<Rightarrow> 'v states \<Rightarrow> (future \<times> 'v states) option" where
  "future_ctor_ptr p st = ptr_copy p st"

definition future_dtor :: "future \<Rightarrow> 'v states \<Rightarrow> 'v states option" where
  "future_dtor p st = ptr_drop p st"

definition future_swap :: "future \<Rightarrow> future \<Rightarrow> future \<times> future" where
  "future_swap this other = (other, this)"

definition future_move_ctor :: "future \<Rightarrow> future \<times> future" where
  "future_move_ctor other = future_swap None other"

definition future_assign :: "future \<Rightarrow> future \<Rightarrow> 'v states \<Rightarrow> (future \<times> future \<times> 'v states) option" where
  "future_assign this other st = do {
     let (tmp, other') = future_move_ctor other;
     let (this', tmp') = future_swap this tmp;
     st' \<leftarrow> future_dtor tmp' st;
     Some (this', other', st') }"

definition future_valid :: "future \<Rightarrow> bool" where
  "future_valid p \<longleftrightarrow> p \<noteq> None"

text \<open>
  \<^verbatim>\<open>get\<close> moves the pointer into a local variable, so the future is not valid any more whatever
  happens. Results are how the segment ends, \<open>tmp\<close>, \<open>state_\<close> and the store; \<open>tmp\<close> lives
  until the call is left.
\<close>

definition future_get_end ::
  "ptr_t \<Rightarrow> 'r result turn \<times> 'v states \<times> world \<times> 's fiber_manager \<Rightarrow>
   ('r result turn \<times> ptr_t \<times> future \<times> 'v states \<times> world \<times> 's fiber_manager) option" where
  "future_get_end tmp = (\<lambda>(t, st, w, m). case t of
       Done r \<Rightarrow> do { st' \<leftarrow> ptr_drop tmp st; Some (Done r, None, None, st', w, m) }
     | _ \<Rightarrow> Some (t, tmp, None, st, w, m))"

definition future_get_with ::
  "(mfid \<Rightarrow> world \<Rightarrow> 's fiber_manager \<Rightarrow> 'v shared_state \<Rightarrow>
      ('r result turn \<times> 'v shared_state \<times> world \<times> 's fiber_manager) option) \<Rightarrow>
   mfid \<Rightarrow> world \<Rightarrow> 's fiber_manager \<Rightarrow> 'v states \<Rightarrow> future \<Rightarrow>
   ('r result turn \<times> ptr_t \<times> future \<times> 'v states \<times> world \<times> 's fiber_manager) option" where
  "future_get_with getf k w m st p =
     (case p of
        None \<Rightarrow> Some (Done (Inl future_uninitialized), None, None, st, w, m)
      | Some i \<Rightarrow> st_call (getf k w m) i st \<bind> future_get_end p)"

definition future_get ::
  "mfid \<Rightarrow> world \<Rightarrow> 's fiber_manager \<Rightarrow> 'v states \<Rightarrow> future \<Rightarrow>
   ('v result turn \<times> ptr_t \<times> future \<times> 'v states \<times> world \<times> 's fiber_manager) option" where
  "future_get k w m st p = future_get_with shared_state_get k w m st p"

definition future_void_get ::
  "mfid \<Rightarrow> world \<Rightarrow> 's fiber_manager \<Rightarrow> unit states \<Rightarrow> future \<Rightarrow>
   (unit result turn \<times> ptr_t \<times> future \<times> unit states \<times> world \<times> 's fiber_manager) option" where
  "future_void_get k w m st p = future_get_with shared_state_void_get k w m st p"

text \<open>The caller of \<^verbatim>\<open>get\<close> runs again; \<open>tmp\<close> is its local variable.\<close>

definition future_get_woken ::
  "mfid \<Rightarrow> world \<Rightarrow> 's fiber_manager \<Rightarrow> 'v states \<Rightarrow> ptr_t \<Rightarrow>
   ('v result turn \<times> ptr_t \<times> future \<times> 'v states \<times> world \<times> 's fiber_manager) option" where
  "future_get_woken k w m st tmp = do {
     i \<leftarrow> tmp;
     x \<leftarrow> st_call (ss_wait_woken ss_result k w m) i st;
     future_get_end tmp x }"

text \<open>The functions that wait need a valid future and leave it as it is.\<close>

definition future_call ::
  "('v shared_state \<Rightarrow> ('r result turn \<times> 'v shared_state \<times> world \<times> 's fiber_manager) option) \<Rightarrow>
   world \<Rightarrow> 's fiber_manager \<Rightarrow> 'v states \<Rightarrow> future \<Rightarrow>
   ('r result turn \<times> 'v states \<times> world \<times> 's fiber_manager) option" where
  "future_call f w m st p =
     (case p of
        None \<Rightarrow> Some (Done (Inl future_uninitialized), st, w, m)
      | Some i \<Rightarrow> st_call f i st)"

definition future_wait ::
  "mfid \<Rightarrow> world \<Rightarrow> 's fiber_manager \<Rightarrow> 'v states \<Rightarrow> future \<Rightarrow>
   (unit result turn \<times> 'v states \<times> world \<times> 's fiber_manager) option" where
  "future_wait k w m st p = future_call (shared_state_wait k w m) w m st p"

definition future_wait_for ::
  "time_point \<Rightarrow> duration \<Rightarrow> mfid \<Rightarrow> world \<Rightarrow> 's fiber_manager \<Rightarrow> 'v states \<Rightarrow> future \<Rightarrow>
   (future_status result turn \<times> 'v states \<times> world \<times> 's fiber_manager) option" where
  "future_wait_for now d k w m st p = future_call (shared_state_wait_for now d k w m) w m st p"

definition future_wait_until ::
  "time_point \<Rightarrow> mfid \<Rightarrow> world \<Rightarrow> 's fiber_manager \<Rightarrow> 'v states \<Rightarrow> future \<Rightarrow>
   (future_status result turn \<times> 'v states \<times> world \<times> 's fiber_manager) option" where
  "future_wait_until t k w m st p = future_call (shared_state_wait_until t k w m) w m st p"

section \<open>Shared futures\<close>

type_synonym shared_future = ptr_t

definition shared_future_copy_ctor :: "shared_future \<Rightarrow> 'v states \<Rightarrow> (shared_future \<times> 'v states) option" where
  "shared_future_copy_ctor other st = ptr_copy other st"

definition shared_future_swap :: "shared_future \<Rightarrow> shared_future \<Rightarrow> shared_future \<times> shared_future" where
  "shared_future_swap this other = (other, this)"

text \<open>From a future, which loses its state.\<close>

definition shared_future_ctor_future :: "future \<Rightarrow> shared_future \<times> future" where
  "shared_future_ctor_future other = (other, None)"

definition shared_future_move_ctor :: "shared_future \<Rightarrow> shared_future \<times> shared_future" where
  "shared_future_move_ctor other = shared_future_swap None other"

definition shared_future_dtor :: "shared_future \<Rightarrow> 'v states \<Rightarrow> 'v states option" where
  "shared_future_dtor p st = ptr_drop p st"

definition shared_future_move_assign ::
  "shared_future \<Rightarrow> shared_future \<Rightarrow> 'v states \<Rightarrow> (shared_future \<times> shared_future \<times> 'v states) option" where
  "shared_future_move_assign this other st = do {
     let (tmp, other') = shared_future_move_ctor other;
     let (this', tmp') = shared_future_swap this tmp;
     st' \<leftarrow> shared_future_dtor tmp' st;
     Some (this', other', st') }"

definition shared_future_copy_assign ::
  "shared_future \<Rightarrow> shared_future \<Rightarrow> 'v states \<Rightarrow> (shared_future \<times> 'v states) option" where
  "shared_future_copy_assign this other st = do {
     (tmp, st1) \<leftarrow> shared_future_copy_ctor other st;
     let (this', tmp') = shared_future_swap this tmp;
     st2 \<leftarrow> shared_future_dtor tmp' st1;
     Some (this', st2) }"

text \<open>
  \<^verbatim>\<open>operator=( future &&)\<close> hands its named parameter on without \<^verbatim>\<open>boost::move\<close>. Where Boost.Move
  emulates rvalue references (C++03) the parameter is an \<^verbatim>\<open>rv< future > &\<close> and the moving constructor
  takes it, which is modelled; with rvalue references of the language the function does not compile.
\<close>

definition shared_future_assign_future ::
  "shared_future \<Rightarrow> future \<Rightarrow> 'v states \<Rightarrow> (shared_future \<times> future \<times> 'v states) option" where
  "shared_future_assign_future this other st = do {
     let (tmp, other') = shared_future_ctor_future other;
     let (this', tmp') = shared_future_swap this tmp;
     st' \<leftarrow> shared_future_dtor tmp' st;
     Some (this', other', st') }"

definition shared_future_valid :: "shared_future \<Rightarrow> bool" where
  "shared_future_valid p \<longleftrightarrow> p \<noteq> None"

text \<open>\<^verbatim>\<open>get\<close> of a shared future keeps the state.\<close>

definition shared_future_get ::
  "mfid \<Rightarrow> world \<Rightarrow> 's fiber_manager \<Rightarrow> 'v states \<Rightarrow> shared_future \<Rightarrow>
   ('v result turn \<times> 'v states \<times> world \<times> 's fiber_manager) option" where
  "shared_future_get k w m st p = future_call (shared_state_get k w m) w m st p"

definition shared_future_void_get ::
  "mfid \<Rightarrow> world \<Rightarrow> 's fiber_manager \<Rightarrow> unit states \<Rightarrow> shared_future \<Rightarrow>
   (unit result turn \<times> unit states \<times> world \<times> 's fiber_manager) option" where
  "shared_future_void_get k w m st p = future_call (shared_state_void_get k w m) w m st p"

definition shared_future_wait ::
  "mfid \<Rightarrow> world \<Rightarrow> 's fiber_manager \<Rightarrow> 'v states \<Rightarrow> shared_future \<Rightarrow>
   (unit result turn \<times> 'v states \<times> world \<times> 's fiber_manager) option" where
  "shared_future_wait k w m st p = future_call (shared_state_wait k w m) w m st p"

definition shared_future_wait_for ::
  "time_point \<Rightarrow> duration \<Rightarrow> mfid \<Rightarrow> world \<Rightarrow> 's fiber_manager \<Rightarrow> 'v states \<Rightarrow> shared_future \<Rightarrow>
   (future_status result turn \<times> 'v states \<times> world \<times> 's fiber_manager) option" where
  "shared_future_wait_for now d k w m st p = future_call (shared_state_wait_for now d k w m) w m st p"

definition shared_future_wait_until ::
  "time_point \<Rightarrow> mfid \<Rightarrow> world \<Rightarrow> 's fiber_manager \<Rightarrow> 'v states \<Rightarrow> shared_future \<Rightarrow>
   (future_status result turn \<times> 'v states \<times> world \<times> 's fiber_manager) option" where
  "shared_future_wait_until t k w m st p = future_call (shared_state_wait_until t k w m) w m st p"

text \<open>\<^verbatim>\<open>future::share\<close>: the shared future and what is left of the future.\<close>

definition future_share :: "future \<Rightarrow> shared_future result \<times> future" where
  "future_share p =
     (if \<not> future_valid p then (Inl future_uninitialized, p)
      else let (sh, p') = shared_future_ctor_future p in (Inr sh, p'))"

end
