(* ===== verification/Promise.thy ===== *)
theory Promise
  imports Future "HOL-Library.Multiset"
begin

text \<open>
  The class \<^verbatim>\<open>promise\<close> (\<^verbatim>\<open>future/promise.hpp\<close>) and what holds of promises and futures together:
  the reference counts are exact, a result set through the promise reaches the future, a promise
  that is destroyed without a result is reported.
\<close>

record promise =
  pr_obtained :: bool
  pr_future :: ptr_t

text \<open>The constructor with an allocator differs from this one only in where the memory comes from.\<close>

definition promise_ctor :: "'v states \<Rightarrow> (promise \<times> 'v states) option" where
  "promise_ctor st = do {
     (p, st') \<leftarrow> ptr_new st;
     Some (\<lparr>pr_obtained = False, pr_future = p\<rparr>, st') }"

text \<open>
  The destructor gives up the ownership, which takes the mutex of the state, and then destroys the
  pointer.
\<close>

definition promise_dtor ::
  "mfid \<Rightarrow> world \<Rightarrow> 's fiber_manager \<Rightarrow> 'v states \<Rightarrow> promise \<Rightarrow>
   (unit result turn \<times> 'v states \<times> world \<times> 's fiber_manager) option" where
  "promise_dtor k w m st p =
     (case pr_future p of
        None \<Rightarrow> Some (Done (Inr ()), st, w, m)
      | Some i \<Rightarrow> do {
          (t, st1, w1, m1) \<leftarrow> st_call (shared_state_owner_destroyed k w m) i st;
          case t of
            Done r \<Rightarrow> do { st2 \<leftarrow> ptr_drop (Some i) st1; Some (Done r, st2, w1, m1) }
          | _ \<Rightarrow> Some (t, st1, w1, m1) })"

definition promise_swap :: "promise \<Rightarrow> promise \<Rightarrow> promise \<times> promise" where
  "promise_swap this other = (other, this)"

definition promise_move_ctor :: "promise \<Rightarrow> promise \<times> promise" where
  "promise_move_ctor other = promise_swap \<lparr>pr_obtained = False, pr_future = None\<rparr> other"

definition promise_assign ::
  "mfid \<Rightarrow> world \<Rightarrow> 's fiber_manager \<Rightarrow> 'v states \<Rightarrow> promise \<Rightarrow> promise \<Rightarrow>
   (unit result turn \<times> promise \<times> promise \<times> 'v states \<times> world \<times> 's fiber_manager) option" where
  "promise_assign k w m st this other = do {
     let (tmp, other') = promise_move_ctor other;
     let (this', tmp') = promise_swap this tmp;
     (t, st', w', m') \<leftarrow> promise_dtor k w m st tmp';
     Some (t, this', other', st', w', m') }"

definition promise_valid :: "promise \<Rightarrow> bool" where
  "promise_valid p \<longleftrightarrow> pr_future p \<noteq> None"

definition promise_get_future :: "'v states \<Rightarrow> promise \<Rightarrow> (future result \<times> promise \<times> 'v states) option" where
  "promise_get_future st p =
     (if pr_obtained p then Some (Inl future_already_retrieved, p, st)
      else if pr_future p = None then Some (Inl promise_uninitialized, p, st)
      else do {
        let p' = p\<lparr>pr_obtained := True\<rparr>;
        (f, st') \<leftarrow> future_ctor_ptr (pr_future p') st;
        Some (Inr f, p', st') })"

text \<open>The functions that set the result need a state.\<close>

definition promise_call ::
  "('v shared_state \<Rightarrow> (unit result turn \<times> 'v shared_state \<times> world \<times> 's fiber_manager) option) \<Rightarrow>
   world \<Rightarrow> 's fiber_manager \<Rightarrow> 'v states \<Rightarrow> promise \<Rightarrow>
   (unit result turn \<times> 'v states \<times> world \<times> 's fiber_manager) option" where
  "promise_call f w m st p =
     (case pr_future p of
        None \<Rightarrow> Some (Done (Inl promise_uninitialized), st, w, m)
      | Some i \<Rightarrow> st_call f i st)"

definition promise_set_value ::
  "'v result \<Rightarrow> mfid \<Rightarrow> world \<Rightarrow> 's fiber_manager \<Rightarrow> 'v states \<Rightarrow> promise \<Rightarrow>
   (unit result turn \<times> 'v states \<times> world \<times> 's fiber_manager) option" where
  "promise_set_value cp k w m st p = promise_call (shared_state_set_value cp k w m) w m st p"

definition promise_void_set_value ::
  "mfid \<Rightarrow> world \<Rightarrow> 's fiber_manager \<Rightarrow> unit states \<Rightarrow> promise \<Rightarrow>
   (unit result turn \<times> unit states \<times> world \<times> 's fiber_manager) option" where
  "promise_void_set_value k w m st p = promise_call (shared_state_void_set_value k w m) w m st p"

definition promise_set_exception ::
  "exn \<Rightarrow> mfid \<Rightarrow> world \<Rightarrow> 's fiber_manager \<Rightarrow> 'v states \<Rightarrow> promise \<Rightarrow>
   (unit result turn \<times> 'v states \<times> world \<times> 's fiber_manager) option" where
  "promise_set_exception except k w m st p = promise_call (shared_state_set_exception except k w m) w m st p"

section \<open>Reference counts\<close>

text \<open>
  \<open>handles st H\<close>: \<open>H\<close> are all pointers to shared states that exist, held by promises,
  futures, shared futures and the local variables of calls that have not ended. Every state that is
  alive has a pointer, its count is the number of its pointers, and no pointer dangles.
\<close>

fun state_refs :: "'v shared_state option \<Rightarrow> nat \<Rightarrow> bool" where
  "state_refs None n \<longleftrightarrow> n = 0"
| "state_refs (Some s) n \<longleftrightarrow> 0 < n \<and> unat (ss_use_count s) = n"

definition handles :: "'v states \<Rightarrow> ptr_t multiset \<Rightarrow> bool" where
  "handles st H \<longleftrightarrow> (\<forall>i. state_refs (st_obj st i) (count H (Some i))) \<and>
     (\<forall>i. st_fresh st \<le> i \<longrightarrow> st_obj st i = None) \<and> size H < 2 ^ 64"

lemma handlesD:
  assumes "handles st H"
  shows "state_refs (st_obj st i) (count H (Some i))" and "st_fresh st \<le> i \<Longrightarrow> st_obj st i = None"
    and "size H < 2 ^ 64"
  using assms unfolding handles_def by auto

lemma handles_obj:
  assumes "handles st H" and "Some i \<in># H"
  obtains s where "st_obj st i = Some s" "unat (ss_use_count s) = count H (Some i)" "0 < count H (Some i)"
  using handlesD(1) [OF assms(1), of i] assms(2) by (cases "st_obj st i") (auto simp: count_eq_zero_iff)

lemma handles_init: "handles states_init {#}"
  by (simp add: handles_def states_init_def)

text \<open>One state and the number of its pointers change together.\<close>

lemma handles_update:
  assumes H: "handles st H" and "state_refs x (count H' (Some i))" and "size H' < 2 ^ 64" and "i < st_fresh st"
    and "\<And>j. j \<noteq> i \<Longrightarrow> count H' (Some j) = count H (Some j)"
  shows "handles (st\<lparr>st_obj := (st_obj st)(i := x)\<rparr>) H'"
  using assms handlesD(1) [OF H] handlesD(2) [OF H] unfolding handles_def by auto

lemma handles_below: "handles st H \<Longrightarrow> st_obj st i = Some s \<Longrightarrow> i < st_fresh st"
  using handlesD(2) [of st H i] by (cases "i < st_fresh st") auto

lemma handles_null: "handles st H \<Longrightarrow> size H + 1 < 2 ^ 64 \<Longrightarrow> handles st (add_mset None H)"
  by (simp add: handles_def)

lemma handles_copy:
  assumes H: "handles st H" and p: "p \<in># H" and room: "size H + 1 < 2 ^ 64"
  shows "\<exists>st'. ptr_copy p st = Some (p, st') \<and> handles st' (add_mset p H)"
proof (cases p)
  case None
  with handles_null [OF H room] show ?thesis by (simp add: ptr_copy_def)
next
  case (Some i)
  with p handles_obj [OF H] obtain s where s: "st_obj st i = Some s" "unat (ss_use_count s) = count H (Some i)" by blast
  have "count H (Some i) + 1 < 2 ^ 64" using room count_le_size [of H "Some i"] by linarith
  with s(2) have "unat (ss_use_count s + 1) = count H (Some i) + 1" by (simp add: unat_word_ariths)
  then have "handles (st_set i (s\<lparr>ss_use_count := ss_use_count s + 1\<rparr>) st) (add_mset p H)"
    unfolding st_set_def using Some room handles_below [OF H s(1)] by (intro handles_update [OF H]) auto
  with Some s(1) show ?thesis by (simp add: ptr_copy_def intrusive_ptr_add_ref_def)
qed

lemma handles_new:
  assumes H: "handles st H" and room: "size H + 1 < 2 ^ 64"
  shows "\<exists>st'. ptr_new st = Some (Some (st_fresh st), st') \<and> handles st' (add_mset (Some (st_fresh st)) H) \<and>
     st_obj st' (st_fresh st) = Some (shared_state_ctor\<lparr>ss_use_count := 1\<rparr>)"
proof -
  let ?i = "st_fresh st" and ?st = "st\<lparr>st_fresh := st_fresh st + 1\<rparr>"
  have "handles ?st H" using H by (auto simp: handles_def)
  moreover have "count H (Some ?i) = 0" using handlesD(1,2) [OF H, of ?i] by simp
  ultimately have "handles (?st\<lparr>st_obj := (st_obj ?st)(?i := Some (shared_state_ctor\<lparr>ss_use_count := 1\<rparr>))\<rparr>) (add_mset (Some ?i) H)"
    using room by (intro handles_update [of ?st H]) auto
  then show ?thesis
    by (simp add: ptr_new_def intrusive_ptr_add_ref_def st_set_def shared_state_ctor_def Let_def)
qed

text \<open>The last pointer takes the state with it; if the state is not in use this is without error.\<close>

lemma handles_drop:
  assumes H: "handles st H" and p: "p \<in># H" and d: "ptr_drop p st = Some st'"
  shows "handles st' (H - {#p#})"
proof (cases p)
  case None
  with H p d show ?thesis by (auto simp: ptr_drop_def handles_def size_Diff_singleton_if)
next
  case (Some i)
  with p handles_obj [OF H] obtain s where s: "st_obj st i = Some s" "unat (ss_use_count s) = count H (Some i)"
    "0 < count H (Some i)" by blast
  let ?s = "s\<lparr>ss_use_count := ss_use_count s - 1\<rparr>"
  have "ss_use_count s \<noteq> 0" using s(2,3) by (auto simp: count_eq_zero_iff)
  then have c: "unat (ss_use_count ?s) = count H (Some i) - 1" using s(2) by (simp add: unat_minus_one)
  have sz: "size (H - {#p#}) < 2 ^ 64" using handlesD(3) [OF H] size_Diff1_le [of H p] by simp
  have cnt: "count (H - {#p#}) (Some i) = count H (Some i) - 1" using Some by simp
  show ?thesis
  proof (cases "ss_use_count ?s = 0")
    case True
    with c cnt have "count (H - {#p#}) (Some i) = 0" by simp
    moreover have "st' = st\<lparr>st_obj := (st_obj st)(i := None)\<rparr>"
      using d True Some s(1)
      by (auto simp: ptr_drop_def intrusive_ptr_release_def deallocate_future_def st_set_def split: bind_splits)
    ultimately show ?thesis using sz Some handles_below [OF H s(1)] by (auto intro!: handles_update [OF H])
  next
    case False
    with c have "0 < count H (Some i) - 1" by (metis gr0I unat_eq_zero)
    moreover have "st' = st\<lparr>st_obj := (st_obj st)(i := Some ?s)\<rparr>"
      using d False Some s(1) by (simp add: ptr_drop_def intrusive_ptr_release_def st_set_def)
    ultimately show ?thesis using sz Some c cnt handles_below [OF H s(1)] by (auto intro!: handles_update [OF H])
  qed
qed

text \<open>The member functions of a shared state do not touch its count.\<close>

definition keeps_count :: "('v shared_state \<Rightarrow> ('r \<times> 'v shared_state \<times> 'x) option) \<Rightarrow> bool" where
  "keeps_count f \<longleftrightarrow> (\<forall>s r s' x. f s = Some (r, s', x) \<longrightarrow> ss_use_count s' = ss_use_count s)"

lemma handles_call:
  assumes H: "handles st H" and i: "Some i \<in># H" and f: "keeps_count f" and c: "st_call f i st = Some (r, st', x)"
  shows "handles st' H"
proof -
  obtain s where s: "st_obj st i = Some s" "unat (ss_use_count s) = count H (Some i)" "0 < count H (Some i)"
    using handles_obj [OF H i] by blast
  with c obtain s' where s': "f s = Some (r, s', x)" "st' = st_set i s' st" by (auto simp: st_call_def split: bind_splits)
  with f have "ss_use_count s' = ss_use_count s" by (auto simp: keeps_count_def)
  with s s'(2) handlesD(3) [OF H] handles_below [OF H s(1)] show ?thesis
    unfolding st_set_def by (auto intro!: handles_update [OF H])
qed

lemma keeps_count_guarded:
  assumes "\<And>s w r s' w'. body s w = Some (r, s', w') \<Longrightarrow> ss_use_count s' = ss_use_count s"
  shows "keeps_count (ss_guarded body k w m)"
  unfolding keeps_count_def
proof (intro allI impI)
  fix s r s' x
  assume "ss_guarded body k w m s = Some (r, s', x)"
  then show "ss_use_count s' = ss_use_count s"
    by (fastforce simp: ss_guarded_def ss_unlock_def Let_def split: bind_splits if_splits dest: assms)
qed

lemma mark_ready_count: "mark_ready_and_notify s w = Some (s', w') \<Longrightarrow> ss_use_count s' = ss_use_count s"
  by (auto simp: mark_ready_and_notify_def Let_def split: bind_splits)

lemma ss_set_count:
  "ss_set_value cp s w = Some (r, s', w') \<Longrightarrow> ss_use_count s' = ss_use_count s"
  "ss_set_exception e s w = Some (r, s', w') \<Longrightarrow> ss_use_count s' = ss_use_count s"
  "ss_owner_destroyed s w = Some (r, s', w') \<Longrightarrow> ss_use_count s' = ss_use_count s"
  by (auto simp: ss_set_value_def ss_set_exception_def ss_owner_destroyed_def dest: mark_ready_count
      split: bind_splits if_splits sum.splits)

lemma ss_wait_count:
  "ss_wait_round fin k w m s = Some (r, s', x) \<Longrightarrow> ss_use_count s' = ss_use_count s"
  "ss_until_round t k w m s = Some (r', s', x') \<Longrightarrow> ss_use_count s' = ss_use_count s"
  by (auto simp: ss_wait_round_def ss_until_round_def ss_unlock_def split: bind_splits if_splits)

lemma ss_wait_lock_count: "ss_wait_lock fin k w m s = Some (r, s', x) \<Longrightarrow> ss_use_count s' = ss_use_count s"
  by (fastforce simp: ss_wait_lock_def Let_def split: bind_splits if_splits dest: ss_wait_count(1))

lemma ss_until_count:
  "ss_until_status st t k w m s = Some (r, s', x) \<Longrightarrow> ss_use_count s' = ss_use_count s"
  "ss_until_woken now t k w m s = Some (c, r, s', x) \<Longrightarrow> ss_use_count s' = ss_use_count s"
proof -
  show st: "ss_until_status st t k w m s = Some (r, s', x) \<Longrightarrow> ss_use_count s' = ss_use_count s" for st t k w m s r s' x
    by (auto simp: ss_until_status_def ss_unlock_def split: bind_splits if_splits dest: ss_wait_count(2))
  show "ss_until_woken now t k w m s = Some (c, r, s', x) \<Longrightarrow> ss_use_count s' = ss_use_count s"
    by (fastforce simp: ss_until_woken_def Let_def split: bind_splits if_splits sum.splits dest: st)
qed

lemma keeps_counts:
  "keeps_count (shared_state_set_value cp k w m)" "keeps_count (shared_state_set_exception e k w m)"
  "keeps_count (shared_state_owner_destroyed k w m)" "keeps_count (shared_state_get k w m)"
  "keeps_count (shared_state_wait k w m)" "keeps_count (shared_state_wait_until t k w m)"
  "keeps_count (ss_wait_woken fin k w m)" "keeps_count (shared_state_wait_for now d k w m)"
  "keeps_count (ss_wait_lock fin k w m)" "keeps_count (ss_until_status cs t k w m)"
proof -
  show "keeps_count (shared_state_set_value cp k w m)"
    unfolding shared_state_set_value_def [abs_def] by (rule keeps_count_guarded) (rule ss_set_count)
  show "keeps_count (shared_state_set_exception e k w m)"
    unfolding shared_state_set_exception_def [abs_def] by (rule keeps_count_guarded) (rule ss_set_count)
  show "keeps_count (shared_state_owner_destroyed k w m)"
    unfolding shared_state_owner_destroyed_def [abs_def] by (rule keeps_count_guarded) (rule ss_set_count)
  show "keeps_count (shared_state_get k w m)" "keeps_count (shared_state_wait k w m)"
    by (auto simp: keeps_count_def shared_state_get_def shared_state_wait_def dest: ss_wait_lock_count)
  show "keeps_count (shared_state_wait_until t k w m)" "keeps_count (shared_state_wait_for now d k w m)"
    by (fastforce simp: keeps_count_def shared_state_wait_until_def shared_state_wait_for_def Let_def
        split: bind_splits if_splits dest: ss_wait_count(2))+
  show "keeps_count (ss_wait_lock fin k w m)" "keeps_count (ss_until_status cs t k w m)"
    by (auto simp: keeps_count_def dest: ss_wait_lock_count ss_until_count(1))
  show "keeps_count (ss_wait_woken fin k w m)"
    by (fastforce simp: keeps_count_def ss_wait_woken_def Let_def split: bind_splits option.splits sum.splits
        dest: ss_wait_lock_count)
qed

text \<open>
  A program that uses promises, futures and shared futures: every operation of the three classes on
  handles that exist, in any order, whatever the fibers of the thread do meanwhile. \<open>H\<close> follows the
  pointers the operations create and destroy: those of the objects, and those of local variables
  of calls that wait, \<open>tmp\<close> in \<^verbatim>\<open>future::get\<close> and in \<^verbatim>\<open>promise::operator=\<close>. A call that waits, for
  the mutex or for a result, is continued by a step of its own.
\<close>

text \<open>The operations of a promise.\<close>

inductive promise_step ::
  "'v states \<times> ptr_t multiset \<Rightarrow> 'v states \<times> ptr_t multiset \<Rightarrow> bool" where
  new_promise: "promise_ctor st = Some (p, st') \<Longrightarrow> size H + 1 < 2 ^ 64 \<Longrightarrow>
    promise_step (st, H) (st', add_mset (pr_future p) H)"
| promise_ends: "pr_future p \<in># H \<Longrightarrow> promise_dtor k w (m :: fifo fiber_manager) st p = Some (Done r, st', w', m') \<Longrightarrow>
    promise_step (st, H) (st', H - {#pr_future p#})"
| promise_end_waits: "pr_future p \<in># H \<Longrightarrow> promise_dtor k w (m :: fifo fiber_manager) st p = Some (t, st', w', m') \<Longrightarrow>
    (\<forall>r. t \<noteq> Done r) \<Longrightarrow> promise_step (st, H) (st', H)"
| promise_moved: "pr_future p \<in># H \<Longrightarrow> promise_move_ctor p = (q, p') \<Longrightarrow> size H + 1 < 2 ^ 64 \<Longrightarrow>
    promise_step (st, H) (st, H - {#pr_future p#} + {#pr_future q, pr_future p'#})"
| promise_swapped: "{#pr_future p, pr_future q#} \<subseteq># H \<Longrightarrow> promise_swap p q = (p', q') \<Longrightarrow>
    promise_step (st, H) (st, H - {#pr_future p, pr_future q#} + {#pr_future p', pr_future q'#})"
| promise_assigned: "{#pr_future p, pr_future q#} \<subseteq># H \<Longrightarrow>
    promise_assign k w (m :: fifo fiber_manager) st p q = Some (Done r, p', q', st', w', m') \<Longrightarrow>
    promise_step (st, H) (st', H - {#pr_future p, pr_future q#} + {#pr_future p', pr_future q'#})"
| promise_assign_waits: "{#pr_future p, pr_future q#} \<subseteq># H \<Longrightarrow>
    promise_assign k w (m :: fifo fiber_manager) st p q = Some (t, p', q', st', w', m') \<Longrightarrow> (\<forall>r. t \<noteq> Done r) \<Longrightarrow>
    size H + 1 < 2 ^ 64 \<Longrightarrow>
    promise_step (st, H) (st', H - {#pr_future p, pr_future q#} + {#pr_future p', pr_future q', pr_future p#})"
| future_taken: "pr_future p \<in># H \<Longrightarrow> promise_get_future st p = Some (Inr f, p', st') \<Longrightarrow> size H + 1 < 2 ^ 64 \<Longrightarrow>
    promise_step (st, H) (st', add_mset f H)"
| future_refused: "pr_future p \<in># H \<Longrightarrow> promise_get_future st p = Some (Inl e, p', st') \<Longrightarrow>
    promise_step (st, H) (st', H)"
| value_set: "pr_future p \<in># H \<Longrightarrow> promise_set_value cp k w (m :: fifo fiber_manager) st p = Some (t, st', w', m') \<Longrightarrow>
    promise_step (st, H) (st', H)"
| exception_set: "pr_future p \<in># H \<Longrightarrow>
    promise_set_exception e k w (m :: fifo fiber_manager) st p = Some (t, st', w', m') \<Longrightarrow> promise_step (st, H) (st', H)"

text \<open>The operations of a future, and what follows in \<^verbatim>\<open>get\<close> after the caller has waited.\<close>

inductive future_step ::
  "'v states \<times> ptr_t multiset \<Rightarrow> 'v states \<times> ptr_t multiset \<Rightarrow> bool" where
  future_ends: "f \<in># H \<Longrightarrow> future_dtor f st = Some st' \<Longrightarrow> future_step (st, H) (st', H - {#f#})"
| future_moved: "f \<in># H \<Longrightarrow> future_move_ctor f = (g, f') \<Longrightarrow> size H + 1 < 2 ^ 64 \<Longrightarrow>
    future_step (st, H) (st, H - {#f#} + {#g, f'#})"
| future_swapped: "{#f, g#} \<subseteq># H \<Longrightarrow> future_swap f g = (f', g') \<Longrightarrow>
    future_step (st, H) (st, H - {#f, g#} + {#f', g'#})"
| future_assigned: "{#f, g#} \<subseteq># H \<Longrightarrow> future_assign f g st = Some (f', g', st') \<Longrightarrow>
    future_step (st, H) (st', H - {#f, g#} + {#f', g'#})"
| result_taken: "f \<in># H \<Longrightarrow> future_get k w (m :: fifo fiber_manager) st f = Some (t, tmp, f', st', w', m') \<Longrightarrow>
    size H + 1 < 2 ^ 64 \<Longrightarrow> future_step (st, H) (st', H - {#f#} + {#tmp, f'#})"
| result_taken_later: "tmp \<in># H \<Longrightarrow> future_get_woken k w (m :: fifo fiber_manager) st tmp = Some (t, tmp', f', st', w', m') \<Longrightarrow>
    future_step (st, H) (st', H - {#tmp#} + {#tmp'#})"
| result_taken_after_line: "Some i \<in># H \<Longrightarrow> st_call (shared_state_get k w (m :: fifo fiber_manager)) i st = Some x \<Longrightarrow>
    future_get_end (Some i) x = Some (t, tmp', f', st', w', m') \<Longrightarrow>
    future_step (st, H) (st', H - {#Some i#} + {#tmp'#})"
| waited: "f \<in># H \<Longrightarrow> future_wait k w (m :: fifo fiber_manager) st f = Some (t, st', w', m') \<Longrightarrow> future_step (st, H) (st', H)"
| waited_for: "f \<in># H \<Longrightarrow> future_wait_for now d k w (m :: fifo fiber_manager) st f = Some (t', st', w', m') \<Longrightarrow>
    future_step (st, H) (st', H)"
| waited_until: "f \<in># H \<Longrightarrow> future_wait_until u k w (m :: fifo fiber_manager) st f = Some (t', st', w', m') \<Longrightarrow>
    future_step (st, H) (st', H)"
| shared: "f \<in># H \<Longrightarrow> future_share f = (Inr sh, f') \<Longrightarrow> size H + 1 < 2 ^ 64 \<Longrightarrow>
    future_step (st, H) (st, H - {#f#} + {#sh, f'#})"

text \<open>The operations of a shared future.\<close>

inductive shared_future_step ::
  "'v states \<times> ptr_t multiset \<Rightarrow> 'v states \<times> ptr_t multiset \<Rightarrow> bool" where
  shared_constructed: "f \<in># H \<Longrightarrow> shared_future_ctor_future f = (sh, f') \<Longrightarrow> size H + 1 < 2 ^ 64 \<Longrightarrow>
    shared_future_step (st, H) (st, H - {#f#} + {#sh, f'#})"
| shared_ends: "f \<in># H \<Longrightarrow> shared_future_dtor f st = Some st' \<Longrightarrow> shared_future_step (st, H) (st', H - {#f#})"
| shared_copied: "f \<in># H \<Longrightarrow> shared_future_copy_ctor f st = Some (g, st') \<Longrightarrow> size H + 1 < 2 ^ 64 \<Longrightarrow>
    shared_future_step (st, H) (st', add_mset g H)"
| shared_moved: "f \<in># H \<Longrightarrow> shared_future_move_ctor f = (g, f') \<Longrightarrow> size H + 1 < 2 ^ 64 \<Longrightarrow>
    shared_future_step (st, H) (st, H - {#f#} + {#g, f'#})"
| shared_swapped: "{#f, g#} \<subseteq># H \<Longrightarrow> shared_future_swap f g = (f', g') \<Longrightarrow>
    shared_future_step (st, H) (st, H - {#f, g#} + {#f', g'#})"
| shared_copy_assigned: "{#f, g#} \<subseteq># H \<Longrightarrow> shared_future_copy_assign f g st = Some (f', st') \<Longrightarrow> size H + 1 < 2 ^ 64 \<Longrightarrow>
    shared_future_step (st, H) (st', H - {#f#} + {#f'#})"
| shared_move_assigned: "{#f, g#} \<subseteq># H \<Longrightarrow> shared_future_move_assign f g st = Some (f', g', st') \<Longrightarrow>
    shared_future_step (st, H) (st', H - {#f, g#} + {#f', g'#})"
| shared_assigned_future: "{#f, g#} \<subseteq># H \<Longrightarrow> shared_future_assign_future f g st = Some (f', g', st') \<Longrightarrow>
    shared_future_step (st, H) (st', H - {#f, g#} + {#f', g'#})"
| shared_result_read: "f \<in># H \<Longrightarrow> shared_future_get k w (m :: fifo fiber_manager) st f = Some (r, st', w', m') \<Longrightarrow>
    shared_future_step (st, H) (st', H)"
| shared_waited: "f \<in># H \<Longrightarrow> shared_future_wait k w (m :: fifo fiber_manager) st f = Some (t, st', w', m') \<Longrightarrow>
    shared_future_step (st, H) (st', H)"
| shared_waited_for: "f \<in># H \<Longrightarrow> shared_future_wait_for now d k w (m :: fifo fiber_manager) st f = Some (t', st', w', m') \<Longrightarrow>
    shared_future_step (st, H) (st', H)"
| shared_waited_until: "f \<in># H \<Longrightarrow> shared_future_wait_until u k w (m :: fifo fiber_manager) st f = Some (t', st', w', m') \<Longrightarrow>
    shared_future_step (st, H) (st', H)"

text \<open>A caller that was waiting for a result or for the mutex of a state goes on.\<close>

inductive wake_step ::
  "'v states \<times> ptr_t multiset \<Rightarrow> 'v states \<times> ptr_t multiset \<Rightarrow> bool" where
  read_woken: "Some i \<in># H \<Longrightarrow> st_call (ss_wait_woken ss_result k w (m :: fifo fiber_manager)) i st = Some (r, st', w', m') \<Longrightarrow>
    wake_step (st, H) (st', H)"
| wait_woken: "Some i \<in># H \<Longrightarrow>
    st_call (ss_wait_woken (\<lambda>s. Some (Inr ())) k w (m :: fifo fiber_manager)) i st = Some (t, st', w', m') \<Longrightarrow>
    wake_step (st, H) (st', H)"
| until_woken: "Some i \<in># H \<Longrightarrow> st_obj st i = Some s \<Longrightarrow>
    ss_until_woken now u k w (m :: fifo fiber_manager) s = Some (c, t', s', w', m') \<Longrightarrow>
    wake_step (st, H) (st_set i s' st, H)"
| until_after_line: "Some i \<in># H \<Longrightarrow>
    st_call (ss_until_status cs u k w (m :: fifo fiber_manager)) i st = Some (t', st', w', m') \<Longrightarrow>
    wake_step (st, H) (st', H)"

definition handle_step :: "'v states \<times> ptr_t multiset \<Rightarrow> 'v states \<times> ptr_t multiset \<Rightarrow> bool" where
  "handle_step x y \<longleftrightarrow> promise_step x y \<or> future_step x y \<or> shared_future_step x y \<or> wake_step x y"

text \<open>Moving a pointer, with a null pointer left behind.\<close>

lemma handles_move:
  assumes "handles st H" and "f \<in># H" and "size H + 1 < 2 ^ 64"
  shows "handles st (H - {#f#} + {#f, None#})"
proof -
  have "H - {#f#} + {#f, None#} = add_mset None H" using assms(2) by simp
  with handles_null [OF assms(1,3)] show ?thesis by (simp only:)
qed

lemma handles_get_end:
  assumes H: "handles st H" and f: "f \<in># H" and e: "future_get_end f (t, st, w, m) = Some (t', tmp, f', st', w', m')"
  shows "handles st' (H - {#f#} + {#tmp#})" and "f' = None"
proof -
  have "f' = None \<and> handles st' (H - {#f#} + {#tmp#})"
  proof (cases t)
    case (Done r)
    with e have d: "ptr_drop f st = Some st'" "tmp = None" "f' = None"
      by (auto simp: future_get_end_def split: bind_splits)
    have "size (H - {#f#}) + 1 < 2 ^ 64" using handlesD(3) [OF H] f by (simp add: size_Diff_singleton)
    with handles_null [OF handles_drop [OF H f d(1)]] d show ?thesis by simp
  qed (use H f e in \<open>auto simp: future_get_end_def\<close>)
  then show "handles st' (H - {#f#} + {#tmp#})" "f' = None" by simp_all
qed

text \<open>Assigning through a temporary: the old state of the left-hand side is given up.\<close>

lemma handles_assign:
  assumes H: "handles st H" and fg: "{#f, g#} \<subseteq># H" and a: "future_assign f g st = Some (f', g', st')"
  shows "handles st' (H - {#f, g#} + {#f', g'#})"
proof -
  have f: "f \<in># H" "g \<in># H - {#f#}"
    using fg by (auto simp: insert_subset_eq_iff dest: mset_subset_eqD)
  from a have d: "ptr_drop f st = Some st'" "f' = g" "g' = None"
    by (auto simp: future_assign_def future_move_ctor_def future_swap_def future_dtor_def split: bind_splits)
  have "size (H - {#f#}) + 1 < 2 ^ 64" using handlesD(3) [OF H] f(1) by (simp add: size_Diff_singleton)
  from handles_move [OF handles_drop [OF H f(1) d(1)] f(2) this] d show ?thesis
    by (simp add: add_mset_commute)
qed

lemma handles_copy_assign:
  assumes H: "handles st H" and fg: "{#f, g#} \<subseteq># H" and room: "size H + 1 < 2 ^ 64"
    and a: "shared_future_copy_assign f g st = Some (f', st')"
  shows "handles st' (H - {#f#} + {#f'#})"
proof -
  have fg: "f \<in># H" "g \<in># H" using fg by (auto dest: mset_subset_eqD)
  from handles_copy [OF H fg(2) room] obtain st1 where st1: "ptr_copy g st = Some (g, st1)" "handles st1 (add_mset g H)"
    by blast
  with a have d: "ptr_drop f st1 = Some st'" "f' = g"
    by (simp_all add: shared_future_copy_assign_def shared_future_copy_ctor_def shared_future_swap_def
        shared_future_dtor_def split: bind_splits)
  have "add_mset g H - {#f#} = H - {#f#} + {#g#}" using fg(1) by simp
  with handles_drop [OF st1(2) _ d(1)] fg(1) d(2) show ?thesis by simp
qed

text \<open>The shared futures assign in the same way, and swapping moves no pointer.\<close>

lemma shared_assign_conv:
  "shared_future_move_assign f g st = future_assign f g st" "shared_future_assign_future f g st = future_assign f g st"
  by (simp_all add: shared_future_move_assign_def shared_future_assign_future_def shared_future_ctor_future_def
      shared_future_move_ctor_def shared_future_swap_def shared_future_dtor_def
      future_assign_def future_move_ctor_def future_swap_def future_dtor_def)

lemma handles_swap:
  assumes "handles st H" and "{#f, g#} \<subseteq># H"
  shows "handles st (H - {#f, g#} + {#g, f#})"
proof -
  have "H - {#f, g#} + {#g, f#} = H" using assms(2) by (metis add_mset_commute subset_mset.diff_add)
  with assms(1) show ?thesis by (simp only:)
qed

lemma handles_future_call:
  assumes "handles st H" and "f \<in># H" and "keeps_count g" and "future_call g w m st f = Some (t, st', x)"
  shows "handles st' H"
  using assms by (auto simp: future_call_def split: option.splits dest: handles_call)

lemma handles_promise_dtor:
  assumes H: "handles st H" and p: "pr_future p \<in># H" and d: "promise_dtor k w m st p = Some (Done r, st', w', m')"
  shows "handles st' (H - {#pr_future p#})"
proof (cases "pr_future p")
  case None
  with d handles_drop [OF H p, of st] show ?thesis by (simp add: promise_dtor_def ptr_drop_def)
next
  case (Some i)
  with d obtain st1 where c: "st_call (shared_state_owner_destroyed k w m) i st = Some (Done r, st1, w', m')"
    "ptr_drop (Some i) st1 = Some st'"
    by (auto simp: promise_dtor_def split: bind_splits turn.splits)
  from handles_call [OF H _ keeps_counts(3) c(1)] Some p have "handles st1 H" by simp
  from handles_drop [OF this _ c(2)] Some p show ?thesis by simp
qed

lemma handles_promise_dtor_waits:
  assumes H: "handles st H" and p: "pr_future p \<in># H" and d: "promise_dtor k w m st p = Some (t, st', w', m')"
    and t: "\<forall>r. t \<noteq> Done r"
  shows "handles st' H"
proof (cases "pr_future p")
  case None
  with d t show ?thesis by (auto simp: promise_dtor_def)
next
  case (Some i)
  with d t have "st_call (shared_state_owner_destroyed k w m) i st = Some (t, st', w', m')"
    by (auto simp: promise_dtor_def split: bind_splits turn.splits)
  with handles_call [OF H _ keeps_counts(3)] Some p show ?thesis by simp
qed

text \<open>\<^verbatim>\<open>promise::operator=\<close>: the promise that held the old state is destroyed, or waits for that.\<close>

lemma promise_assign_conv:
  "promise_assign k w m st p q = Some (t, p', q', x) \<longleftrightarrow>
     promise_dtor k w m st p = Some (t, x) \<and> p' = q \<and> q' = \<lparr>pr_obtained = False, pr_future = None\<rparr>"
  by (auto simp: promise_assign_def promise_move_ctor_def promise_swap_def split: bind_splits)

lemma handles_promise_assign:
  assumes H: "handles st H" and pq: "{#pr_future p, pr_future q#} \<subseteq># H"
    and a: "promise_assign k w m st p q = Some (Done r, p', q', st', w', m')"
  shows "handles st' (H - {#pr_future p, pr_future q#} + {#pr_future p', pr_future q'#})"
proof -
  have f: "pr_future p \<in># H" "pr_future q \<in># H - {#pr_future p#}"
    using pq by (auto simp: insert_subset_eq_iff dest: mset_subset_eqD)
  have d: "promise_dtor k w m st p = Some (Done r, st', w', m')" "p' = q" "pr_future q' = None"
    using a by (simp_all add: promise_assign_conv)
  have "size (H - {#pr_future p#}) + 1 < 2 ^ 64" using handlesD(3) [OF H] f(1) by (simp add: size_Diff_singleton)
  from handles_move [OF handles_promise_dtor [OF H f(1) d(1)] f(2) this] d(2,3) show ?thesis
    by (simp add: add_mset_commute)
qed

lemma handles_promise_assign_waits:
  assumes H: "handles st H" and pq: "{#pr_future p, pr_future q#} \<subseteq># H" and room: "size H + 1 < 2 ^ 64"
    and a: "promise_assign k w m st p q = Some (t, p', q', st', w', m')" and t: "\<forall>r. t \<noteq> Done r"
  shows "handles st' (H - {#pr_future p, pr_future q#} + {#pr_future p', pr_future q', pr_future p#})"
proof -
  have f: "pr_future p \<in># H" using pq by (auto dest: mset_subset_eqD)
  have d: "promise_dtor k w m st p = Some (t, st', w', m')" "p' = q" "pr_future q' = None"
    using a by (simp_all add: promise_assign_conv)
  have "H - {#pr_future p, pr_future q#} + {#pr_future p', pr_future q', pr_future p#} = add_mset None H"
    using pq d(2,3) by (metis (no_types, lifting) add_mset_add_single add_mset_commute subset_mset.diff_add union_mset_add_mset_right)
  with handles_null [OF handles_promise_dtor_waits [OF H f d(1) t] room] show ?thesis by (simp only:)
qed

lemma handles_future_get:
  assumes H: "handles st H" and f: "f \<in># H" and room: "size H + 1 < 2 ^ 64"
    and g: "future_get k w m st f = Some (t, tmp, f', st', w', m')"
  shows "handles st' (add_mset f' (H - {#f#} + {#tmp#}))"
proof (cases f)
  case None
  with g handles_move [OF H f room] show ?thesis by (auto simp: future_get_def future_get_with_def)
next
  case (Some i)
  with g obtain t1 st1 w1 m1 where c: "st_call (shared_state_get k w m) i st = Some (t1, st1, w1, m1)"
    "future_get_end f (t1, st1, w1, m1) = Some (t, tmp, f', st', w', m')"
    by (auto simp: future_get_def future_get_with_def split: bind_splits)
  from handles_call [OF H _ keeps_counts(4) c(1)] Some f have "handles st1 H" by simp
  from handles_get_end [OF this f c(2)] f room show ?thesis
    by (auto intro!: handles_null simp: size_Diff_singleton)
qed

lemma handles_get_woken:
  assumes H: "handles st H" and f: "tmp \<in># H" and g: "future_get_woken k w m st tmp = Some (t, tmp', f', st', w', m')"
  shows "handles st' (H - {#tmp#} + {#tmp'#})"
proof -
  from g obtain i t1 st1 w1 m1 where c: "tmp = Some i" "st_call (ss_wait_woken ss_result k w m) i st = Some (t1, st1, w1, m1)"
    "future_get_end tmp (t1, st1, w1, m1) = Some (t, tmp', f', st', w', m')"
    by (auto simp: future_get_woken_def split: bind_splits)
  from handles_call [OF H _ keeps_counts(7) c(2)] c(1) f have "handles st1 H" by simp
  from handles_get_end(1) [OF this f c(3)] show ?thesis by simp
qed

lemma handles_get_after_line:
  assumes H: "handles st H" and i: "Some i \<in># H" and c: "st_call (shared_state_get k w m) i st = Some x"
    and e: "future_get_end (Some i) x = Some (t, tmp', f', st', w', m')"
  shows "handles st' (H - {#Some i#} + {#tmp'#})"
proof -
  obtain t0 st1 w1 m1 where x: "x = (t0, st1, w1, m1)" by (cases x)
  from handles_call [OF H i keeps_counts(4) c [unfolded x]] have "handles st1 H" .
  from handles_get_end(1) [OF this i e [unfolded x]] show ?thesis .
qed

lemma handles_until_woken:
  assumes H: "handles st H" and i: "Some i \<in># H" and s: "st_obj st i = Some s"
    and u: "ss_until_woken now u k w m s = Some (c, t, s', w', m')"
  shows "handles (st_set i s' st) H"
proof -
  have eq: "ss_use_count s' = ss_use_count s" using ss_until_count(2) [OF u] by simp
  have "unat (ss_use_count s) = count H (Some i)" "0 < count H (Some i)"
    using handlesD(1) [OF H, of i] s by simp_all
  with eq show ?thesis
    unfolding st_set_def by (intro handles_update [OF H _ handlesD(3) [OF H] handles_below [OF H s]]) simp_all
qed

lemmas handle_calls = handles_future_call [OF _ _ keeps_counts(4)] handles_future_call [OF _ _ keeps_counts(5)]
  handles_future_call [OF _ _ keeps_counts(6)] handles_future_call [OF _ _ keeps_counts(8)]

lemma promise_step_handles: "promise_step x y \<Longrightarrow> handles (fst x) (snd x) \<Longrightarrow> handles (fst y) (snd y)"
proof (induction rule: promise_step.induct)
  case (new_promise st p st' H)
  with handles_new [of st H] show ?case by (auto simp: promise_ctor_def split: bind_splits)
next
  case (promise_ends p H k w m st r st' w' m')
  then show ?case by (auto dest: handles_promise_dtor)
next
  case (promise_end_waits p H k w m st t st' w' m')
  then show ?case using handles_promise_dtor_waits [of st H p k w m t] by simp
next
  case (promise_moved p H q p' st)
  with handles_move [of st H "pr_future p"] show ?case by (auto simp: promise_move_ctor_def promise_swap_def)
next
  case (promise_swapped p q H p' q' st)
  with handles_swap [of st H "pr_future p" "pr_future q"] show ?case by (simp add: promise_swap_def)
next
  case (promise_assigned p q H k w m st r p' q' st' w' m')
  then show ?case using handles_promise_assign [of st H p q k w m r] by simp
next
  case (promise_assign_waits p q H k w m st t p' q' st' w' m')
  then show ?case using handles_promise_assign_waits [of st H p q k w m t] by simp
next
  case (future_taken p H st f p' st')
  with handles_copy [of st H "pr_future p"] show ?case
    by (auto simp: promise_get_future_def future_ctor_ptr_def split: bind_splits if_splits)
next
  case (future_refused p H st e p' st')
  then show ?case by (auto simp: promise_get_future_def split: bind_splits if_splits)
next
  case (value_set p H cp k w m st t st' w' m')
  then show ?case
    by (auto simp: promise_set_value_def promise_call_def split: option.splits dest: handles_call [OF _ _ keeps_counts(1)])
next
  case (exception_set p H e k w m st t st' w' m')
  then show ?case
    by (auto simp: promise_set_exception_def promise_call_def split: option.splits dest: handles_call [OF _ _ keeps_counts(2)])
qed

lemma future_step_handles: "future_step x y \<Longrightarrow> handles (fst x) (snd x) \<Longrightarrow> handles (fst y) (snd y)"
proof (induction rule: future_step.induct)
  case (future_ends f H st st')
  then show ?case by (auto simp: future_dtor_def dest: handles_drop)
next
  case (future_moved f H g f' st)
  with handles_move [of st H f] show ?case by (auto simp: future_move_ctor_def future_swap_def)
next
  case (future_swapped f g H f' g' st)
  with handles_swap [of st H f g] show ?case by (simp add: future_swap_def)
next
  case (future_assigned f g H st f' g' st')
  then show ?case by (auto dest: handles_assign)
next
  case (result_taken f H k w m st t tmp f' st' w' m')
  then show ?case by (auto dest: handles_future_get simp: add_mset_commute)
next
  case (result_taken_later tmp H k w m st t tmp' f' st' w' m')
  then show ?case by (auto dest: handles_get_woken)
next
  case (result_taken_after_line i H k w m st x t tmp' f' st' w' m')
  then show ?case by (auto dest: handles_get_after_line)
next
  case (waited f H k w m st t st' w' m')
  then show ?case by (auto simp: future_wait_def dest: handle_calls(2))
next
  case (waited_for f H now d k w m st t' st' w' m')
  then show ?case by (auto simp: future_wait_for_def dest: handle_calls(4))
next
  case (waited_until f H u k w m st t' st' w' m')
  then show ?case by (auto simp: future_wait_until_def dest: handle_calls(3))
next
  case (shared f H sh f' st)
  with handles_move [of st H f] show ?case
    by (auto simp: future_share_def shared_future_ctor_future_def split: if_splits)
qed

lemma shared_future_step_handles: "shared_future_step x y \<Longrightarrow> handles (fst x) (snd x) \<Longrightarrow> handles (fst y) (snd y)"
proof (induction rule: shared_future_step.induct)
  case (shared_constructed f H sh f' st)
  with handles_move [of st H f] show ?case by (auto simp: shared_future_ctor_future_def)
next
  case (shared_ends f H st st')
  then show ?case by (auto simp: shared_future_dtor_def dest: handles_drop)
next
  case (shared_copied f H st g st')
  with handles_copy [of st H f] show ?case by (auto simp: shared_future_copy_ctor_def)
next
  case (shared_moved f H g f' st)
  with handles_move [of st H f] show ?case by (auto simp: shared_future_move_ctor_def shared_future_swap_def)
next
  case (shared_swapped f g H f' g' st)
  with handles_swap [of st H f g] show ?case by (simp add: shared_future_swap_def)
next
  case (shared_copy_assigned f g H st f' st')
  then show ?case by (auto dest: handles_copy_assign)
next
  case (shared_move_assigned f g H st f' g' st')
  then show ?case by (auto simp: shared_assign_conv dest: handles_assign)
next
  case (shared_assigned_future f g H st f' g' st')
  then show ?case by (auto simp: shared_assign_conv dest: handles_assign)
next
  case (shared_result_read f H k w m st r st' w' m')
  then show ?case by (auto simp: shared_future_get_def dest: handle_calls(1))
next
  case (shared_waited f H k w m st t st' w' m')
  then show ?case by (auto simp: shared_future_wait_def dest: handle_calls(2))
next
  case (shared_waited_for f H now d k w m st t' st' w' m')
  then show ?case by (auto simp: shared_future_wait_for_def dest: handle_calls(4))
next
  case (shared_waited_until f H u k w m st t' st' w' m')
  then show ?case by (auto simp: shared_future_wait_until_def dest: handle_calls(3))
qed

lemma wake_step_handles: "wake_step x y \<Longrightarrow> handles (fst x) (snd x) \<Longrightarrow> handles (fst y) (snd y)"
proof (induction rule: wake_step.induct)
  case (read_woken i H k w m st r st' w' m')
  then show ?case by (auto dest: handles_call [OF _ _ keeps_counts(7)])
next
  case (wait_woken i H k w m st t st' w' m')
  then show ?case by (auto dest: handles_call [OF _ _ keeps_counts(7)])
next
  case (until_woken i H st s now u k w m c t' s' w' m')
  then show ?case by (auto dest: handles_until_woken)
next
  case (until_after_line i H cs u k w m st t' st' w' m')
  then show ?case by (auto dest: handles_call [OF _ _ keeps_counts(10)])
qed

lemma handle_step_handles: "handle_step x y \<Longrightarrow> handles (fst x) (snd x) \<Longrightarrow> handles (fst y) (snd y)"
  unfolding handle_step_def
  using promise_step_handles future_step_handles shared_future_step_handles wake_step_handles by blast

section \<open>Calls through pointers\<close>

lemma st_call_eval: "st_obj st i = Some s \<Longrightarrow> f s = Some (r, s', x) \<Longrightarrow> st_call f i st = Some (r, st_set i s' st, x)"
  by (simp add: st_call_def)

lemma st_set_obj [simp]: "st_obj (st_set i s st) j = (if j = i then Some s else st_obj st j)"
  by (simp add: st_set_def)

lemma st_set_same: "st_obj st i = Some s \<Longrightarrow> st_set i s st = st"
  by (cases st) (auto simp: st_set_def)

text \<open>Giving up a pointer that is not the last one.\<close>

lemma ptr_drop_shared:
  assumes H: "handles st H" and two: "{#Some i, Some i#} \<subseteq># H"
  obtains s where "st_obj st i = Some s"
    "ptr_drop (Some i) st = Some (st_set i (s\<lparr>ss_use_count := ss_use_count s - 1\<rparr>) st)"
proof -
  have c: "2 \<le> count H (Some i)" using mset_subset_eq_count [OF two, of "Some i"] by simp
  then have "Some i \<in># H" by (auto simp flip: count_greater_zero_iff)
  with handles_obj [OF H] obtain s where s: "st_obj st i = Some s" "unat (ss_use_count s) = count H (Some i)" by blast
  have "ss_use_count s - 1 \<noteq> 0"
  proof
    assume "ss_use_count s - 1 = 0"
    then have "unat (ss_use_count s) = 1" by simp
    with s(2) c show False by simp
  qed
  with s(1) that [of s] show thesis by (simp add: ptr_drop_def intrusive_ptr_release_def Let_def)
qed

text \<open>The representation of a state does not depend on its count.\<close>

lemma ss_rep_count [simp]:
  "ss_rep ss_result (s\<lparr>ss_use_count := n\<rparr>) c fs = ss_rep ss_result s c fs"
  by (auto simp: ss_rep_def ss_result_def split: option.splits)

text \<open>
  A future whose state has a result: \<^verbatim>\<open>get\<close> returns it, and the state survives if somebody else
  still refers to it.
\<close>

lemma future_get_ready:
  assumes H: "handles st H" and two: "{#Some i, Some i#} \<subseteq># H" and s: "st_obj st i = Some s"
    and rep: "ss_rep ss_result s (Some r) fs"
  shows "\<exists>st'. future_get k w m st (Some i) = Some (Done r, None, None, st', ctx_locked_world k m w, m) \<and>
     handles st' (H - {#Some i#}) \<and> st_obj st' i \<noteq> None"
proof -
  have "shared_state_get k w m s = Some (Done r, s, ctx_locked_world k m w, m)"
    unfolding shared_state_get_def by (rule ssr.get_ready [OF rep])
  from st_call_eval [of st i s "shared_state_get k w m", OF s this]
  have c: "st_call (shared_state_get k w m) i st = Some (Done r, st, ctx_locked_world k m w, m)"
    by (simp add: st_set_same [OF s])
  obtain st' where d: "ptr_drop (Some i) st = Some st'" "st_obj st' i \<noteq> None"
    using ptr_drop_shared [OF H two] by (metis st_set_obj option.distinct(1))
  have "Some i \<in># H" using two by (auto dest: mset_subset_eqD)
  from handles_drop [OF H this d(1)] c d show ?thesis
    by (simp add: future_get_def future_get_with_def future_get_end_def)
qed

text \<open>Setting a result through a pointer for the first time.\<close>

lemma st_set_first:
  assumes H: "handles st H" and i: "Some i \<in># H" and s: "st_obj st i = Some s"
    and rep: "ss_rep ss_result s None fs" and Q: "fm_queues fifo_rep w m ws rs" and sub: "set fs \<subseteq> set ws"
  shows "\<exists>st' s' w' ws'. st_call (ss_guarded (ss_op op) k w m) i st = Some (Done (Inr ()), st', w', m) \<and>
     handles st' H \<and> st_obj st' i = Some s' \<and> ss_rep ss_result s' (Some (cell_outcome op)) [] \<and>
     fm_queues fifo_rep w' m ws' rs \<and> (\<forall>f \<in> set fs. is_ready (w_heap w') f)"
proof -
  from ssr.set_first [OF rep Q sub, of op k] obtain s' w' ws' where s':
    "ss_guarded (ss_op op) k w m s = Some (Done (Inr ()), s', w', m)" "ss_rep ss_result s' (Some (cell_outcome op)) []"
    "fm_queues fifo_rep w' m ws' rs"
    "\<forall>g. wf_state (w_heap w' g) = (if g \<in> set fs then READY else wf_state (w_heap w g))" by blast
  note c = st_call_eval [of st i s "ss_guarded (ss_op op) k w m", OF s s'(1)]
  have "keeps_count (ss_guarded (ss_op op) k w m)"
    by (rule keeps_count_guarded) (cases op; auto dest: ss_set_count)
  from handles_call [OF H i this c] c s'(2-4) show ?thesis by (auto simp: is_ready_def)
qed

section \<open>Properties\<close>

text \<open>
  C14: a shared state lives exactly as long as something refers to it. Whatever a program does with
  its promises, futures and shared futures, by any sequence of their operations (constructing,
  moving, copying, swapping, assigning, sharing and destroying them, \<^verbatim>\<open>get_future\<close>, setting results,
  \<^verbatim>\<open>get\<close> and all forms of \<^verbatim>\<open>wait\<close>, the calls that have to wait included), with fewer than \<open>2 ^ 64\<close>
  handles at a time: no pointer refers to a state that has been destroyed, no state without a
  pointer is left behind, and the \<^verbatim>\<open>size_t\<close> count of every state is the number of its pointers. The
  versions for \<^verbatim>\<open>void\<close> and for references are those of \<open>Void_Erasure\<close> and \<open>Ref_Addresses\<close>.
\<close>

theorem shared_state_lives_while_referenced:
  assumes "handle_step\<^sup>*\<^sup>* (states_init, {#}) (st, H)"
  shows "(Some i \<in># H \<longleftrightarrow> st_obj st i \<noteq> None) \<and>
     (\<forall>s. st_obj st i = Some s \<longrightarrow> unat (ss_use_count s) = count H (Some i))"
proof -
  have "handles (fst y) (snd y)" if "handle_step\<^sup>*\<^sup>* (states_init :: 'a states, {#}) y" for y
    using that by (induction rule: rtranclp_induct) (auto simp: handles_init dest: handle_step_handles)
  with assms have "handles st H" by fastforce
  from handlesD(1) [OF this, of i] show ?thesis
    by (cases "st_obj st i") (auto simp: count_eq_zero_iff)
qed

text \<open>A promise and its future, as the witnesses use them.\<close>

definition demo_state :: "int shared_state" where
  "demo_state = shared_state_ctor\<lparr>ss_use_count := 2\<rparr>"

definition demo_states :: "int states" where
  "demo_states = \<lparr>st_obj = [0 \<mapsto> demo_state], st_fresh = 1\<rparr>"

definition demo_promise :: promise where
  "demo_promise = \<lparr>pr_obtained = True, pr_future = Some 0\<rparr>"

lemma demo_states_reached: "handle_step\<^sup>*\<^sup>* (states_init, {#}) (demo_states, {#Some 0, Some 0#})"
proof -
  let ?p = "\<lparr>pr_obtained = False, pr_future = Some 0\<rparr>"
  let ?st = "\<lparr>st_obj = [0 \<mapsto> shared_state_ctor\<lparr>ss_use_count := 1\<rparr>], st_fresh = 1\<rparr> :: int states"
  have a: "promise_ctor states_init = Some (?p, ?st)"
    by (simp add: promise_ctor_def ptr_new_def states_init_def intrusive_ptr_add_ref_def st_set_def
        shared_state_ctor_def)
  have b: "promise_get_future ?st ?p = Some (Inr (Some 0), demo_promise, demo_states)"
    by (simp add: promise_get_future_def future_ctor_ptr_def ptr_copy_def intrusive_ptr_add_ref_def st_set_def
        demo_promise_def demo_states_def demo_state_def shared_state_ctor_def)
  from promise_step.new_promise [OF a, of "{#}"] promise_step.future_taken [OF _ b, of "{#Some 0#}"]
  have "handle_step (states_init, {#}) (?st, {#Some 0#})" "handle_step (?st, {#Some 0#}) (demo_states, {#Some 0, Some 0#})"
    by (simp_all add: handle_step_def)
  then show ?thesis by (meson r_into_rtranclp rtranclp.rtrancl_into_rtrancl)
qed

text \<open>Two promises, and the second is assigned to the first: the first state goes, unless something refers to it.\<close>

definition demo_two_states :: "int states" where
  "demo_two_states = snd (the (promise_ctor (snd (the (promise_ctor states_init)))))"

theorem shared_state_lives_while_referenced_witness:
  "\<exists>st s. handle_step\<^sup>*\<^sup>* (states_init :: int states, {#}) (st, {#Some 1, None#}) \<and>
     st_obj st 0 = None \<and> st_obj st 1 = Some s \<and> unat (ss_use_count s) = 1"
proof -
  let ?p = "\<lambda>i. \<lparr>pr_obtained = False, pr_future = Some i\<rparr> :: promise"
  let ?s = "shared_state_ctor\<lparr>ss_use_count := 1\<rparr> :: int shared_state"
  let ?st = "\<lparr>st_obj = [0 \<mapsto> ?s], st_fresh = 1\<rparr>"
  have a: "promise_ctor states_init = Some (?p 0, ?st)" "promise_ctor ?st = Some (?p 1, demo_two_states)"
    by (simp_all add: promise_ctor_def ptr_new_def states_init_def intrusive_ptr_add_ref_def st_set_def
        shared_state_ctor_def demo_two_states_def)
  have "map_option fst (promise_dtor 0 (sy_world demo_sys2) (sy_mgr demo_sys2) demo_two_states (?p 0)) = Some (Done (Inr ()))"
    by code_simp
  then obtain st w' m' where "promise_dtor 0 (sy_world demo_sys2) (sy_mgr demo_sys2) demo_two_states (?p 0) =
    Some (Done (Inr ()), st, w', m')" by auto
  then have b: "promise_assign 0 (sy_world demo_sys2) (sy_mgr demo_sys2) demo_two_states (?p 0) (?p 1) =
      Some (Done (Inr ()), ?p 1, \<lparr>pr_obtained = False, pr_future = None\<rparr>, st, w', m')"
    by (simp add: promise_assign_conv)
  have "promise_step (states_init, {#}) (?st, {#Some 0#})"
    "promise_step (?st, {#Some 0#}) (demo_two_states, {#Some 1, Some 0#})"
    "promise_step (demo_two_states, {#Some 1, Some 0#}) (st, {#Some 1, None#})"
    using promise_step.new_promise [OF a(1), of "{#}"] promise_step.new_promise [OF a(2), of "{#Some 0#}"]
      promise_step.promise_assigned [OF _ b, of "{#Some 1, Some 0#}"] by simp_all
  then have "handle_step (states_init, {#}) (?st, {#Some 0#})"
    "handle_step (?st, {#Some 0#}) (demo_two_states, {#Some 1, Some 0#})"
    "handle_step (demo_two_states, {#Some 1, Some 0#}) (st, {#Some 1, None#})" by (simp_all add: handle_step_def)
  then have "handle_step\<^sup>*\<^sup>* (states_init :: int states, {#}) (st, {#Some 1, None#})"
    by (meson r_into_rtranclp rtranclp.rtrancl_into_rtrancl)
  with shared_state_lives_while_referenced [OF this, of 0] shared_state_lives_while_referenced [OF this, of 1]
  show ?thesis by (intro exI [of _ st]) auto
qed

lemma demo_handles: "handles demo_states {#Some 0, Some 0#}"
  by (simp add: handles_def demo_states_def demo_state_def)

lemma demo_state_rep: "st_obj demo_states 0 = Some demo_state" "ss_rep ss_result demo_state None []"
  using ss_ctor_rep [of ss_result] by (simp_all add: demo_states_def demo_state_def)

text \<open>
  The result a promise is given reaches its future. \<^verbatim>\<open>set_value\<close> succeeds, every fiber that
  waits for the result is ready, \<^verbatim>\<open>get\<close> then returns the value and makes the future invalid, and
  a second \<^verbatim>\<open>set_value\<close> throws \<^verbatim>\<open>promise_already_satisfied\<close> and leaves the value as it is.
\<close>

theorem promise_value_reaches_future:
  assumes H: "handles st H" and two: "{#pr_future p, f#} \<subseteq># H" and p: "pr_future p = Some i" "f = Some i"
    and s: "st_obj st i = Some s" and rep: "ss_rep ss_result s None fs"
    and Q: "fm_queues fifo_rep w m ws rs" and sub: "set fs \<subseteq> set ws"
  shows "\<exists>st1 w1. promise_set_value (Inr v) k w m st p = Some (Done (Inr ()), st1, w1, m) \<and>
     (\<forall>g \<in> set fs. is_ready (w_heap w1) g) \<and>
     (\<exists>st2 w2. future_get k w1 m st1 f = Some (Done (Inr v), None, None, st2, w2, m) \<and> handles st2 (H - {#f#})) \<and>
     (\<exists>w2. promise_set_value cp k w1 m st1 p = Some (Done (Inl promise_already_satisfied), st1, w2, m))"
proof -
  have i: "Some i \<in># H" using two p by (auto dest: mset_subset_eqD)
  from st_set_first [OF H i s rep Q sub, of "Set_value v" k] obtain st1 s1 w1 ws1 where c:
    "st_call (ss_guarded (ss_set_value (Inr v)) k w m) i st = Some (Done (Inr ()), st1, w1, m)"
    "handles st1 H" "st_obj st1 i = Some s1" "ss_rep ss_result s1 (Some (Inr v)) []"
    "\<forall>g \<in> set fs. is_ready (w_heap w1) g" by auto
  have g: "\<exists>st2 w2. future_get k w1 m st1 f = Some (Done (Inr v), None, None, st2, w2, m) \<and> handles st2 (H - {#f#})"
    using future_get_ready [OF c(2) _ c(3,4), of k w1 m] two p by auto
  have mx: "ss_mtx s1 = mutex_init" "ss_ready s1" using ss_repD(1,3) [OF c(4)] by simp_all
  then have same: "s1\<lparr>ss_mtx := mutex_init\<rparr> = s1" by (cases s1) simp
  have "ss_guarded (ss_set_value cp) k w1 m s1 = Some (Done (Inl promise_already_satisfied), s1, ctx_locked_world k m w1, m)"
    using ss_guarded_free [OF mx(1), of "ss_set_value cp" m k w1 _ s1] mx(2) same by (simp add: ss_set_value_def)
  then have "promise_set_value cp k w1 m st1 p = Some (Done (Inl promise_already_satisfied), st1, ctx_locked_world k m w1, m)"
    using p(1) c(3) st_set_same [OF c(3)]
    by (simp add: promise_set_value_def promise_call_def st_call_def shared_state_set_value_def)
  with c(1,5) g p(1) show ?thesis
    by (auto simp: promise_set_value_def promise_call_def shared_state_set_value_def [abs_def])
qed

theorem promise_value_reaches_future_witness:
  "\<exists>st1 w1 st2 w2. promise_set_value (Inr 7) 0 (sy_world demo_sys2) (sy_mgr demo_sys2) demo_states demo_promise =
       Some (Done (Inr ()), st1, w1, sy_mgr demo_sys2) \<and>
     future_get 0 w1 (sy_mgr demo_sys2) st1 (Some 0) = Some (Done (Inr 7), None, None, st2, w2, sy_mgr demo_sys2)"
proof -
  have "{#pr_future demo_promise, Some 0#} \<subseteq># {#Some 0, Some 0#}" "pr_future demo_promise = Some 0"
    by (simp_all add: demo_promise_def)
  from promise_value_reaches_future [OF demo_handles this(1,2) refl demo_state_rep demo_sys2_queues(1), of 7 0 "Inr 8"]
  show ?thesis by auto
qed

text \<open>
  C32: a promise that is destroyed before it has been given a result is broken: the destructor
  stores \<^verbatim>\<open>broken_promise\<close>, wakes every fiber that waits for the result, and \<^verbatim>\<open>get\<close> throws it;
  the state survives the promise as long as the future refers to it. A promise that has its result
  is destroyed without a trace.
\<close>

theorem promise_destroyed_is_broken:
  assumes H: "handles st H" and two: "{#pr_future p, f#} \<subseteq># H" and p: "pr_future p = Some i" "f = Some i"
    and s: "st_obj st i = Some s" and rep: "ss_rep ss_result s c fs"
    and Q: "fm_queues fifo_rep w m ws rs" and sub: "set fs \<subseteq> set ws"
  shows "\<exists>st1 s1 w1. promise_dtor k w m st p = Some (Done (Inr ()), st1, w1, m) \<and>
     handles st1 (H - {#pr_future p#}) \<and> st_obj st1 i = Some s1 \<and>
     (case c of
        None \<Rightarrow> (\<forall>g \<in> set fs. is_ready (w_heap w1) g) \<and> ss_rep ss_result s1 (Some (Inl broken_promise)) []
      | Some r \<Rightarrow> ss_rep ss_result s1 (Some r) fs) \<and>
     (\<exists>w2. shared_state_get k w1 m s1 =
        Some (Done (case c of None \<Rightarrow> Inl broken_promise | Some r \<Rightarrow> r), s1, w2, m))"
proof -
  have i: "Some i \<in># H" using two p by (auto dest: mset_subset_eqD)
  obtain st0 s0 w1 fs' where c: "st_call (shared_state_owner_destroyed k w m) i st = Some (Done (Inr ()), st0, w1, m)"
    "handles st0 H" "st_obj st0 i = Some s0"
    "ss_rep ss_result s0 (Some (case c of None \<Rightarrow> Inl broken_promise | Some r \<Rightarrow> r)) fs'"
    "case c of None \<Rightarrow> fs' = [] \<and> (\<forall>g \<in> set fs. is_ready (w_heap w1) g) | Some r \<Rightarrow> fs' = fs"
  proof (cases c)
    case None
    from st_set_first [OF H i s rep [unfolded None] Q sub, of Abandon k] that None show thesis
      by (auto simp: shared_state_owner_destroyed_def [abs_def])
  next
    case (Some r)
    from ssr.set_again [OF rep [unfolded Some], of Abandon k w m] st_set_same [OF s]
    have "st_call (shared_state_owner_destroyed k w m) i st = Some (Done (Inr ()), st, ctx_locked_world k m w, m)"
      using s by (simp add: st_call_def shared_state_owner_destroyed_def)
    with that [of st "ctx_locked_world k m w" s fs] H s rep Some show thesis by simp
  qed
  let ?s = "s0\<lparr>ss_use_count := ss_use_count s0 - 1\<rparr>"
  have d: "ptr_drop (Some i) st0 = Some (st_set i ?s st0)"
    using ptr_drop_shared [OF c(2), of i] two p c(3) by (metis option.inject)
  from handles_drop [OF c(2) i d] have h: "handles (st_set i ?s st0) (H - {#pr_future p#})" using p(1) by simp
  have r: "ss_rep ss_result ?s (Some (case c of None \<Rightarrow> Inl broken_promise | Some r \<Rightarrow> r)) fs'" using c(4) by simp
  from ssr.get_ready [OF r, of k w1 m] c(1,5) d h r p(1) show ?thesis
    by (intro exI [of _ "st_set i ?s st0"] exI [of _ ?s] exI [of _ w1])
      (auto simp: promise_dtor_def shared_state_get_def split: option.splits)
qed

theorem promise_destroyed_is_broken_witness:
  "\<exists>st1 s1 w1 w2. promise_dtor 0 (sy_world demo_sys2) (sy_mgr demo_sys2) demo_states demo_promise =
       Some (Done (Inr ()), st1, w1, sy_mgr demo_sys2) \<and> st_obj st1 0 = Some s1 \<and>
     shared_state_get 0 w1 (sy_mgr demo_sys2) s1 = Some (Done (Inl broken_promise), s1, w2, sy_mgr demo_sys2)"
proof -
  have "{#pr_future demo_promise, Some 0#} \<subseteq># {#Some 0, Some 0#}" "pr_future demo_promise = Some 0"
    by (simp_all add: demo_promise_def)
  from promise_destroyed_is_broken [OF demo_handles this(1,2) refl demo_state_rep demo_sys2_queues(1), of 0]
  show ?thesis by auto
qed

text \<open>
  \<^verbatim>\<open>get\<close> on a future without state throws \<^verbatim>\<open>future_uninitialized\<close> and changes nothing, and so
  do \<^verbatim>\<open>wait\<close> and \<^verbatim>\<open>wait_until\<close>. On a future whose result is not there yet the fiber goes to
  sleep as the last of those that wait, with the mutex given back; the future is invalid from then on,
  and the call itself keeps the state alive.
\<close>

theorem future_get_waits:
  assumes H: "handles st H" and f: "Some i \<in># H" and s: "st_obj st i = Some s" and rep: "ss_rep ss_result s None fs"
    and run: "fm_running w m a" and Q: "fm_queues fifo_rep w m ws rs" and new: "a \<notin> set fs"
  shows "future_get k w m st None = Some (Done (Inl future_uninitialized), None, None, st, w, m) \<and>
     future_wait k w m st None = Some (Done (Inl future_uninitialized), st, w, m) \<and>
     future_wait_until t k w m st None = Some (Done (Inl future_uninitialized), st, w, m) \<and>
     (\<exists>st' s' w'. future_get k w m st (Some i) = Some (Asleep, Some i, None, st', w', m) \<and> handles st' H \<and>
        st_obj st' i = Some s' \<and> ss_rep ss_result s' None (fs @ [a]) \<and> is_waiting (w_heap w') a \<and>
        fm_queues fifo_rep w' m (ws @ [a]) rs)"
proof -
  from ss_wait_sleeps [OF rep run Q new, of ss_result k] obtain s' w' where s':
    "shared_state_get k w m s = Some (Asleep, s', w', m)" "ss_rep ss_result s' None (fs @ [a])"
    "is_waiting (w_heap w') a" "fm_queues fifo_rep w' m (ws @ [a]) rs"
    by (auto simp: shared_state_get_def)
  note c = st_call_eval [of st i s "shared_state_get k w m", OF s s'(1)]
  from handles_call [OF H f keeps_counts(4) c] c s' show ?thesis
    by (simp add: future_get_def future_get_with_def future_get_end_def future_wait_def future_wait_until_def
        future_call_def)
qed

theorem future_get_waits_witness:
  "\<exists>st' s' w'. future_get 0 (sy_world demo_sys2) (sy_mgr demo_sys2) demo_states (Some 0) =
       Some (Asleep, Some 0, None, st', w', sy_mgr demo_sys2) \<and>
     st_obj st' 0 = Some s' \<and> ss_rep ss_result s' None [1] \<and> is_waiting (w_heap w') 1"
  using future_get_waits [OF demo_handles _ demo_state_rep demo_sys2_queues(2,1), of 0 0] by auto

text \<open>
  The future of a promise can be taken once. \<^verbatim>\<open>get_future\<close> gives a second pointer to the
  state and remembers it; a second call throws \<^verbatim>\<open>future_already_retrieved\<close>; a promise that has
  been moved from throws \<^verbatim>\<open>promise_uninitialized\<close>, while the promise moved to still remembers.
\<close>

theorem promise_future_once:
  assumes H: "handles st H" and p: "pr_future p = Some i" "pr_future p \<in># H" "\<not> pr_obtained p" "size H + 1 < 2 ^ 64"
  shows "\<exists>p1 st1. promise_get_future st p = Some (Inr (Some i), p1, st1) \<and> handles st1 (add_mset (Some i) H) \<and>
     promise_get_future st1 p1 = Some (Inl future_already_retrieved, p1, st1) \<and>
     (case promise_move_ctor p1 of (q, p2) \<Rightarrow>
        promise_get_future st1 q = Some (Inl future_already_retrieved, q, st1) \<and>
        promise_get_future st1 p2 = Some (Inl promise_uninitialized, p2, st1) \<and>
        promise_set_value cp k w (m :: fifo fiber_manager) st1 p2 = Some (Done (Inl promise_uninitialized), st1, w, m))"
proof -
  from handles_copy [OF H p(2,4)] p(1) obtain st1 where "ptr_copy (Some i) st = Some (Some i, st1)"
    "handles st1 (add_mset (Some i) H)" by auto
  with p show ?thesis
    by (simp add: promise_get_future_def future_ctor_ptr_def promise_move_ctor_def promise_swap_def
        promise_set_value_def promise_call_def)
qed

theorem promise_future_once_witness:
  "\<exists>p1 st1. promise_get_future demo_states (demo_promise\<lparr>pr_obtained := False\<rparr>) = Some (Inr (Some 0), p1, st1) \<and>
     promise_get_future st1 p1 = Some (Inl future_already_retrieved, p1, st1)"
  using promise_future_once [OF demo_handles, of "demo_promise\<lparr>pr_obtained := False\<rparr>" 0 "Inr 7" 0
      "sy_world demo_sys2" "sy_mgr demo_sys2"]
  by (auto simp: demo_promise_def)

end
