(* ===== verification/Packaged_Task.thy ===== *)
theory Packaged_Task
  imports Promise Fiber
begin

text \<open>
  The class \<^verbatim>\<open>packaged_task\<close> (\<^verbatim>\<open>future/packaged_task.hpp\<close>), the task object it points to
  (\<^verbatim>\<open>future/detail/task_object.hpp\<close>, \<^verbatim>\<open>future/detail/task_base.hpp\<close>) and \<^verbatim>\<open>async\<close>
  (\<^verbatim>\<open>future/async.hpp\<close>). A task object is a shared state together with the function; the function is
  the user's, and what it returns or throws is an argument of the model.
\<close>

section \<open>The task object\<close>

text \<open>
  \<^verbatim>\<open>run\<close>, from the moment the function has ended with \<open>r\<close>; \<open>mv\<close> is the move of the
  returned value into the state, which may throw. Whatever leaves the \<^verbatim>\<open>try\<close> block is handed to
  \<^verbatim>\<open>set_exception\<close>, and what that throws leaves \<^verbatim>\<open>run\<close>.
\<close>

definition task_object_run ::
  "('v \<Rightarrow> 'v result) \<Rightarrow> 'v result \<Rightarrow> mfid \<Rightarrow> world \<Rightarrow> 's fiber_manager \<Rightarrow> 'v shared_state \<Rightarrow>
   (unit result turn \<times> 'v shared_state \<times> world \<times> 's fiber_manager) option" where
  "task_object_run mv r k w m s =
     (case r of
        Inl e \<Rightarrow> shared_state_set_exception e k w m s
      | Inr v \<Rightarrow> do {
          (t, s1, w1, m1) \<leftarrow> shared_state_set_value (mv v) k w m s;
          case t of
            Done (Inl e) \<Rightarrow> shared_state_set_exception e k w1 m1 s1
          | _ \<Rightarrow> Some (t, s1, w1, m1) })"

definition task_object_void_run ::
  "unit result \<Rightarrow> mfid \<Rightarrow> world \<Rightarrow> 's fiber_manager \<Rightarrow> unit shared_state \<Rightarrow>
   (unit result turn \<times> unit shared_state \<times> world \<times> 's fiber_manager) option" where
  "task_object_void_run r k w m s =
     (case r of
        Inl e \<Rightarrow> shared_state_set_exception e k w m s
      | Inr u \<Rightarrow> do {
          (t, s1, w1, m1) \<leftarrow> shared_state_void_set_value k w m s;
          case t of
            Done (Inl e) \<Rightarrow> shared_state_set_exception e k w1 m1 s1
          | _ \<Rightarrow> Some (t, s1, w1, m1) })"

section \<open>The handle\<close>

record packaged_task =
  pt_obtained :: bool
  pt_task :: ptr_t

definition packaged_task_ctor :: packaged_task where
  "packaged_task_ctor = \<lparr>pt_obtained = False, pt_task = None\<rparr>"

text \<open>
  The constructors that take a function differ in how they take it and in the allocator; each of
  them creates one task object.
\<close>

definition packaged_task_ctor_fn :: "'v states \<Rightarrow> (packaged_task \<times> 'v states) option" where
  "packaged_task_ctor_fn st = do {
     (p, st') \<leftarrow> ptr_new st;
     Some (\<lparr>pt_obtained = False, pt_task = p\<rparr>, st') }"

definition packaged_task_dtor ::
  "mfid \<Rightarrow> world \<Rightarrow> 's fiber_manager \<Rightarrow> 'v states \<Rightarrow> packaged_task \<Rightarrow>
   (unit result turn \<times> 'v states \<times> world \<times> 's fiber_manager) option" where
  "packaged_task_dtor k w m st p =
     (case pt_task p of
        None \<Rightarrow> Some (Done (Inr ()), st, w, m)
      | Some i \<Rightarrow> do {
          (t, st1, w1, m1) \<leftarrow> st_call (shared_state_owner_destroyed k w m) i st;
          case t of
            Done r \<Rightarrow> do { st2 \<leftarrow> ptr_drop (Some i) st1; Some (Done r, st2, w1, m1) }
          | _ \<Rightarrow> Some (t, st1, w1, m1) })"

definition packaged_task_swap :: "packaged_task \<Rightarrow> packaged_task \<Rightarrow> packaged_task \<times> packaged_task" where
  "packaged_task_swap this other = (other, this)"

definition packaged_task_move_ctor :: "packaged_task \<Rightarrow> packaged_task \<times> packaged_task" where
  "packaged_task_move_ctor other = packaged_task_swap packaged_task_ctor other"

definition packaged_task_assign ::
  "mfid \<Rightarrow> world \<Rightarrow> 's fiber_manager \<Rightarrow> 'v states \<Rightarrow> packaged_task \<Rightarrow> packaged_task \<Rightarrow>
   (unit result turn \<times> packaged_task \<times> packaged_task \<times> 'v states \<times> world \<times> 's fiber_manager) option" where
  "packaged_task_assign k w m st this other = do {
     let (tmp, other') = packaged_task_move_ctor other;
     let (this', tmp') = packaged_task_swap this tmp;
     (t, st', w', m') \<leftarrow> packaged_task_dtor k w m st tmp';
     Some (t, this', other', st', w', m') }"

definition packaged_task_valid :: "packaged_task \<Rightarrow> bool" where
  "packaged_task_valid p \<longleftrightarrow> pt_task p \<noteq> None"

definition packaged_task_get_future ::
  "'v states \<Rightarrow> packaged_task \<Rightarrow> (future result \<times> packaged_task \<times> 'v states) option" where
  "packaged_task_get_future st p =
     (if pt_obtained p then Some (Inl future_already_retrieved, p, st)
      else if \<not> packaged_task_valid p then Some (Inl packaged_task_uninitialized, p, st)
      else do {
        let p' = p\<lparr>pt_obtained := True\<rparr>;
        (f, st') \<leftarrow> future_ctor_ptr (pt_task p') st;
        Some (Inr f, p', st') })"

definition packaged_task_call ::
  "('v \<Rightarrow> 'v result) \<Rightarrow> 'v result \<Rightarrow> mfid \<Rightarrow> world \<Rightarrow> 's fiber_manager \<Rightarrow> 'v states \<Rightarrow> packaged_task \<Rightarrow>
   (unit result turn \<times> 'v states \<times> world \<times> 's fiber_manager) option" where
  "packaged_task_call mv r k w m st p =
     (case pt_task p of
        None \<Rightarrow> Some (Done (Inl packaged_task_uninitialized), st, w, m)
      | Some i \<Rightarrow> st_call (task_object_run mv r k w m) i st)"

definition packaged_task_void_call ::
  "unit result \<Rightarrow> mfid \<Rightarrow> world \<Rightarrow> 's fiber_manager \<Rightarrow> unit states \<Rightarrow> packaged_task \<Rightarrow>
   (unit result turn \<times> unit states \<times> world \<times> 's fiber_manager) option" where
  "packaged_task_void_call r k w m st p =
     (case pt_task p of
        None \<Rightarrow> Some (Done (Inl packaged_task_uninitialized), st, w, m)
      | Some i \<Rightarrow> st_call (task_object_void_run r k w m) i st)"

definition packaged_task_reset ::
  "'v states \<Rightarrow> packaged_task \<Rightarrow> (unit result \<times> packaged_task \<times> 'v states) option" where
  "packaged_task_reset st p =
     (case pt_task p of
        None \<Rightarrow> Some (Inl packaged_task_uninitialized, p, st)
      | Some i \<Rightarrow> do {
          s \<leftarrow> st_obj st i;
          Some (Inr (), p\<lparr>pt_obtained := False\<rparr>, st_set i (shared_state_reset s) st) })"

section \<open>Async\<close>

text \<open>
  A task, its future, and a detached fiber, with its control block at \<open>f\<close>, that owns the task and
  will call it. The temporary handle and the task moved from are destroyed at the end; both are empty
  then. Results are the future and the task in the fiber: a control block has no field for the function
  it runs, which lives on the stack of its coroutine, so that \<open>f\<close> runs this task is what the
  caller of the model provides by calling \<open>packaged_task_call\<close> for it. \<^verbatim>\<open>detach\<close> is \<^verbatim>\<open>noexcept\<close>: an
  exception from it, like the destruction of a joinable fiber, would end the program.
\<close>

definition async ::
  "'s sched_algorithm \<Rightarrow> fid \<Rightarrow> world \<Rightarrow> 's fiber_manager \<Rightarrow> 'v states \<Rightarrow>
   ((future \<times> packaged_task) result turn \<times> 'v states \<times> world \<times> 's fiber_manager) option" where
  "async A f w m st = do {
     (pt, st1) \<leftarrow> packaged_task_ctor_fn st;
     (r, pt1, st2) \<leftarrow> packaged_task_get_future st1 pt;
     case r of
       Inl e \<Rightarrow> do {
         (t, st3, w3, m3) \<leftarrow> packaged_task_dtor 0 w m st2 pt1;
         Some (Done (Inl e), st3, w3, m3) }
     | Inr fi \<Rightarrow> do {
         let (moved, rest) = packaged_task_move_ctor pt1;
         (fb, w1, m1) \<leftarrow> fiber_ctor A f w m;
         (fb', d, w2) \<leftarrow> fiber_detach fb w1;
         assert_that (d = Inr ());
         x \<leftarrow> fiber_dtor fb' w2;
         assert_that (x \<noteq> Inl ());
         (t, st3, w3, m3) \<leftarrow> packaged_task_dtor 0 w2 m1 st2 rest;
         let (fi', fi0) = future_move_ctor fi;
         Some (Done (Inr (fi', moved)), st3, w3, m3) } }"

section \<open>Running a task\<close>

definition task_outcome :: "('v \<Rightarrow> 'v result) \<Rightarrow> 'v result \<Rightarrow> 'v result" where
  "task_outcome mv r = (case r of Inl e \<Rightarrow> Inl e | Inr v \<Rightarrow> mv v)"

lemma ss_guarded_refused:
  assumes "ss_mtx s = mutex_init"
    and "body (s\<lparr>ss_mtx := mutex_taken (this_get_id m)\<rparr>) (ctx_locked_world k m w) =
      Some (r, s\<lparr>ss_mtx := mutex_taken (this_get_id m)\<rparr>, ctx_locked_world k m w)"
  shows "ss_guarded body k w m s = Some (Done r, s, ctx_locked_world k m w, m)"
proof -
  have "s\<lparr>ss_mtx := mutex_init\<rparr> = s" using assms(1) by (cases s) simp
  with ss_guarded_free [of s body m k w r s, OF assms] show ?thesis by simp
qed

text \<open>The first run gives the state the outcome of the function and wakes everybody who waits.\<close>

lemma task_run_first:
  assumes rep: "ss_rep ss_result s None fs" and Q: "fm_queues fifo_rep w m ws rs" and sub: "set fs \<subseteq> set ws"
  shows "\<exists>s' w' ws'. task_object_run mv r k w m s = Some (Done (Inr ()), s', w', m) \<and>
     ss_rep ss_result s' (Some (task_outcome mv r)) [] \<and> fm_queues fifo_rep w' m ws' rs \<and> set ws' = set ws \<and>
     (\<forall>g. wf_state (w_heap w' g) = (if g \<in> set fs then READY else wf_state (w_heap w g)))"
proof -
  note R = ss_repD [OF rep]
  note ev = ssr.set_first [OF rep Q sub, of "Set_value v" k for v] ssr.set_first [OF rep Q sub, of "Set_exception e" k for e]
  have Q': "fm_queues fifo_rep (ctx_locked_world k m w) m ws rs" using Q by (simp add: fm_queues_ctx_locked)
  show ?thesis
  proof (cases r)
    case (Inl e)
    with ev(2) [of e] show ?thesis by (simp add: task_object_run_def task_outcome_def shared_state_set_exception_def)
  next
    case (Inr v)
    show ?thesis
    proof (cases "mv v")
      case (Inr v')
      with ev(1) [of v'] \<open>r = Inr v\<close> show ?thesis
        by (auto simp: task_object_run_def task_outcome_def shared_state_set_value_def)
    next
      case (Inl e)
      with ss_guarded_refused [OF R(1), of "ss_set_value (mv v)" m k w "Inl e"] R(3)
      have "shared_state_set_value (mv v) k w m s = Some (Done (Inl e), s, ctx_locked_world k m w, m)"
        by (simp add: shared_state_set_value_def ss_set_value_def)
      with ssr.set_first [OF rep Q' sub, of "Set_exception e" k] Inl \<open>r = Inr v\<close> show ?thesis
        by (simp add: task_object_run_def task_outcome_def shared_state_set_exception_def cong: if_cong)
    qed
  qed
qed

text \<open>A second run is refused: \<^verbatim>\<open>set_value\<close> throws, and so does \<^verbatim>\<open>set_exception\<close> in the handler.\<close>

lemma task_run_again:
  assumes rep: "ss_rep ss_result s (Some q) fs"
  shows "\<exists>w'. task_object_run mv r k w m s = Some (Done (Inl promise_already_satisfied), s, w', m)"
proof -
  note R = ss_repD [OF rep]
  have "shared_state_set_value cp k w m s = Some (Done (Inl promise_already_satisfied), s, ctx_locked_world k m w, m)" for cp
    unfolding shared_state_set_value_def
    by (rule ss_guarded_refused [OF R(1)]) (use R(3) in \<open>simp add: ss_set_value_def\<close>)
  moreover have "shared_state_set_exception e k w m s = Some (Done (Inl promise_already_satisfied), s, ctx_locked_world k m w, m)"
    for e w using ssr.set_again [OF rep, of "Set_exception e" k w m] by (simp add: shared_state_set_exception_def)
  ultimately show ?thesis by (cases r) (simp_all add: task_object_run_def)
qed

lemma keeps_countD: "keeps_count f \<Longrightarrow> f s = Some (r, s', x) \<Longrightarrow> ss_use_count s' = ss_use_count s"
  by (simp add: keeps_count_def)

lemma keeps_count_task: "keeps_count (task_object_run mv r k w m)"
  unfolding keeps_count_def task_object_run_def
  by (auto split: sum.splits bind_splits turn.splits
      dest!: keeps_countD [OF keeps_counts(1)] keeps_countD [OF keeps_counts(2)])

text \<open>The same through the pointers of a task and its future.\<close>

lemma task_call_first:
  assumes H: "handles st H" and two: "{#Some i, Some i#} \<subseteq># H" and p: "pt_task p = Some i"
    and s: "st_obj st i = Some s" and rep: "ss_rep ss_result s None fs"
    and Q: "fm_queues fifo_rep w m ws rs" and sub: "set fs \<subseteq> set ws"
  shows "\<exists>s1 st1 w1. packaged_task_call mv r k w m st p = Some (Done (Inr ()), st1, w1, m) \<and>
     st_obj st1 i = Some s1 \<and> ss_rep ss_result s1 (Some (task_outcome mv r)) [] \<and>
     (\<forall>g \<in> set fs. is_ready (w_heap w1) g) \<and>
     (\<exists>st2 w2. future_get k w1 m st1 (Some i) = Some (Done (task_outcome mv r), None, None, st2, w2, m) \<and>
        handles st2 (H - {#Some i#}))"
proof -
  have i: "Some i \<in># H" using two by (auto dest: mset_subset_eqD)
  from task_run_first [OF rep Q sub, of mv r k] obtain s1 w1 ws1 where c:
    "task_object_run mv r k w m s = Some (Done (Inr ()), s1, w1, m)"
    "ss_rep ss_result s1 (Some (task_outcome mv r)) []"
    "\<forall>g. wf_state (w_heap w1 g) = (if g \<in> set fs then READY else wf_state (w_heap w g))" by blast
  note e = st_call_eval [of st i s "task_object_run mv r k w m", OF s c(1)]
  have s1: "st_obj (st_set i s1 st) i = Some s1" by simp
  from future_get_ready [OF handles_call [OF H i keeps_count_task e] two s1 c(2), of k w1 m] e c(2,3) s1 p
  show ?thesis
    by (intro exI [of _ s1] exI [of _ "st_set i s1 st"] exI [of _ w1]) (auto simp: packaged_task_call_def is_ready_def)
qed

section \<open>Properties\<close>

text \<open>
  C31: running a packaged task hands the outcome of its function to the future. Whether the function
  returns a value or throws, and also if moving the value throws, the call itself succeeds, every
  fiber that waits is ready, and \<^verbatim>\<open>get\<close> returns or throws the outcome. Running it a second time
  throws \<^verbatim>\<open>promise_already_satisfied\<close> and leaves the outcome as it is.
\<close>

theorem packaged_task_outcome_reaches_future:
  assumes H: "handles st H" and two: "{#pt_task p, f#} \<subseteq># H" and p: "pt_task p = Some i" "f = Some i"
    and s: "st_obj st i = Some s" and rep: "ss_rep ss_result s None fs"
    and Q: "fm_queues fifo_rep w m ws rs" and sub: "set fs \<subseteq> set ws"
  shows "\<exists>st1 w1. packaged_task_call mv r k w m st p = Some (Done (Inr ()), st1, w1, m) \<and>
     (\<forall>g \<in> set fs. is_ready (w_heap w1) g) \<and>
     (\<exists>st2 w2. future_get k w1 m st1 f =
        Some (Done (case r of Inl e \<Rightarrow> Inl e | Inr v \<Rightarrow> mv v), None, None, st2, w2, m) \<and> handles st2 (H - {#f#})) \<and>
     (\<exists>w2. packaged_task_call mv r' k w1 m st1 p = Some (Done (Inl promise_already_satisfied), st1, w2, m))"
proof -
  have two': "{#Some i, Some i#} \<subseteq># H" using two p by simp
  from task_call_first [OF H two' p(1) s rep Q sub, of mv r k] obtain s1 st1 w1 where c:
    "packaged_task_call mv r k w m st p = Some (Done (Inr ()), st1, w1, m)" "st_obj st1 i = Some s1"
    "ss_rep ss_result s1 (Some (task_outcome mv r)) []" "\<forall>g \<in> set fs. is_ready (w_heap w1) g"
    "\<exists>st2 w2. future_get k w1 m st1 (Some i) = Some (Done (task_outcome mv r), None, None, st2, w2, m) \<and>
       handles st2 (H - {#Some i#})" by blast
  obtain w2 where "task_object_run mv r' k w1 m s1 = Some (Done (Inl promise_already_satisfied), s1, w2, m)"
    using task_run_again [OF c(3)] by blast
  then have "packaged_task_call mv r' k w1 m st1 p = Some (Done (Inl promise_already_satisfied), st1, w2, m)"
    using p(1) st_call_eval [of st1 i s1 "task_object_run mv r' k w1 m", OF c(2)] st_set_same [OF c(2)]
    by (simp add: packaged_task_call_def)
  with c(1,4,5) p(2) show ?thesis by (auto simp: task_outcome_def)
qed

theorem packaged_task_outcome_reaches_future_witness:
  "\<exists>st1 w1 st2 w2. packaged_task_call Inr (Inl (user_exception 3)) 0 (sy_world demo_sys2) (sy_mgr demo_sys2) demo_states
       \<lparr>pt_obtained = True, pt_task = Some 0\<rparr> = Some (Done (Inr ()), st1, w1, sy_mgr demo_sys2) \<and>
     future_get 0 w1 (sy_mgr demo_sys2) st1 (Some 0) =
       Some (Done (Inl (user_exception 3)), None, None, st2, w2, sy_mgr demo_sys2)"
  using packaged_task_outcome_reaches_future [OF demo_handles _ _ refl demo_state_rep demo_sys2_queues(1),
      of "\<lparr>pt_obtained = True, pt_task = Some 0\<rparr>" Inr "Inl (user_exception 3)" 0 "Inr 1"] by auto

text \<open>
  A task that is reset and run again successfully hands out the new value only if the previous
  run had not thrown. If it had, \<^verbatim>\<open>reset\<close>, which only clears the ready flag, has kept the
  exception, and \<^verbatim>\<open>get\<close> throws the old exception again although the new run returned a value.
\<close>

theorem packaged_task_reset_keeps_exception:
  assumes s: "st_obj st i = Some s" and rep: "ss_rep ss_result s (Some q) []" and p: "pt_task p = Some i"
    and Q: "fm_queues fifo_rep w m ws rs"
  shows "\<exists>p1 st1 st2 w2 s2 w3. packaged_task_reset st p = Some (Inr (), p1, st1) \<and>
     packaged_task_call Inr (Inr v) k w m st1 p1 = Some (Done (Inr ()), st2, w2, m) \<and> st_obj st2 i = Some s2 \<and>
     shared_state_get k w2 m s2 = Some (Done (case q of Inl e \<Rightarrow> Inl e | Inr u \<Rightarrow> Inr v), s2, w3, m)"
proof -
  note R = ss_repD [OF rep]
  let ?mx = "mutex_taken (this_get_id m)"
  let ?s0 = "s\<lparr>ss_ready := False\<rparr>" and ?s1 = "s\<lparr>ss_ready := False, ss_mtx := ?mx, ss_value := Some v\<rparr>"
  let ?s2 = "s\<lparr>ss_ready := True, ss_value := Some v, ss_waiters := condition_init\<rparr>"
  have "condition_sleepers (ss_waiters ?s1) []" using R(2) by simp
  from mark_ready_ok [OF this Q [folded fm_queues_ctx_locked [of _ k m w]]] obtain w2 where w2:
    "mark_ready_and_notify ?s1 (ctx_locked_world k m w) = Some (?s1\<lparr>ss_ready := True, ss_waiters := condition_init\<rparr>, w2)"
    by auto
  have "ss_guarded (ss_set_value (Inr v)) k w m ?s0 = Some (Done (Inr ()), ?s2\<lparr>ss_mtx := mutex_init\<rparr>, w2, m)"
    by (rule ss_guarded_free) (use R(1) w2 in \<open>simp_all add: ss_set_value_def\<close>)
  moreover have "?s2\<lparr>ss_mtx := mutex_init\<rparr> = ?s2" using R(1) by (cases s) simp
  ultimately have run: "task_object_run Inr (Inr v) k w m ?s0 = Some (Done (Inr ()), ?s2, w2, m)"
    by (simp add: task_object_run_def shared_state_set_value_def)
  have "ss_result s = Some q" using R(4) by simp
  then have "ss_result ?s2 = Some (case q of Inl e \<Rightarrow> Inl e | Inr u \<Rightarrow> Inr v)"
    by (auto simp: ss_result_def split: option.splits bind_splits)
  then have rep2: "ss_rep ss_result ?s2 (Some (case q of Inl e \<Rightarrow> Inl e | Inr u \<Rightarrow> Inr v)) []"
    using R(1) by (simp add: ss_rep_def condition_sleepers_def condition_init_def spinlock_init_def)
  let ?st1 = "st_set i ?s0 st"
  have "st_obj ?st1 i = Some ?s0" by simp
  from st_call_eval [of ?st1 i ?s0 "task_object_run Inr (Inr v) k w m", OF this run] ssr.get_ready [OF rep2, of k w2 m] p s
  show ?thesis by (auto simp: packaged_task_reset_def shared_state_reset_def packaged_task_call_def shared_state_get_def)
qed

theorem packaged_task_reset_keeps_exception_witness:
  "\<exists>p1 st1 st2 w2 s2 w3. packaged_task_reset
       (demo_states\<lparr>st_obj := [0 \<mapsto> demo_state\<lparr>ss_ready := True, ss_except := Some (user_exception 3)\<rparr>]\<rparr>)
       \<lparr>pt_obtained = True, pt_task = Some 0\<rparr> = Some (Inr (), p1, st1) \<and>
     packaged_task_call Inr (Inr 7) 0 (sy_world demo_sys2) (sy_mgr demo_sys2) st1 p1 =
       Some (Done (Inr ()), st2, w2, sy_mgr demo_sys2) \<and> st_obj st2 0 = Some s2 \<and>
     shared_state_get 0 w2 (sy_mgr demo_sys2) s2 = Some (Done (Inl (user_exception 3)), s2, w3, sy_mgr demo_sys2)"
proof -
  let ?s = "demo_state\<lparr>ss_ready := True, ss_except := Some (user_exception 3)\<rparr>"
  have "ss_rep ss_result ?s (Some (Inl (user_exception 3))) []"
    using demo_state_rep(2) by (simp add: ss_rep_def ss_result_def)
  from packaged_task_reset_keeps_exception [of "demo_states\<lparr>st_obj := [0 \<mapsto> ?s]\<rparr>" 0 ?s, OF _ this _ demo_sys2_queues(1),
      of "\<lparr>pt_obtained = True, pt_task = Some 0\<rparr>" 7 0]
  show ?thesis by simp
qed

text \<open>
  C30: \<^verbatim>\<open>async\<close> starts a detached fiber that owns the task and gives back a valid future for its
  result: the state is new and has exactly these two pointers, the fiber is ready. When the fiber has
  run the function and called the task, whatever has happened in between, the future's \<^verbatim>\<open>get\<close>
  returns or throws the outcome of the function.
\<close>

theorem async_returns_future:
  assumes H: "handles st H" and room: "size H + 2 < 2 ^ 64" and Q: "fm_queues fifo_rep w m ws rs"
    and f: "f \<notin> set ws" "f \<notin> set rs"
  shows "\<exists>i pt st1 w1 m1 ys. async round_robin_algo f w m st = Some (Done (Inr (Some i, pt)), st1, w1, m1) \<and>
     pt_task pt = Some i \<and> handles st1 (add_mset (Some i) (add_mset (Some i) H)) \<and> Some i \<notin># H \<and>
     fm_queues fifo_rep w1 m1 ws ys \<and> f \<in> set ys \<and> is_ready (w_heap w1) f \<and> detached (w_heap w1 f) \<and>
     (\<forall>r k w2 m2 ws2 rs2. fm_queues fifo_rep w2 m2 ws2 rs2 \<longrightarrow>
        (\<exists>st2 w3 st3 w4. packaged_task_call Inr r k w2 m2 st1 pt = Some (Done (Inr ()), st2, w3, m2) \<and>
           future_get k w3 m2 st2 (Some i) = Some (Done r, None, None, st3, w4, m2)))"
proof -
  let ?i = "st_fresh st" and ?pt = "\<lparr>pt_obtained = True, pt_task = Some (st_fresh st)\<rparr>"
  from handles_new [OF H] room obtain st0 where st0: "ptr_new st = Some (Some ?i, st0)"
    "handles st0 (add_mset (Some ?i) H)" "st_obj st0 ?i = Some (shared_state_ctor\<lparr>ss_use_count := 1\<rparr>)" by auto
  from handles_copy [OF st0(2), of "Some ?i"] room obtain st1 where st1: "ptr_copy (Some ?i) st0 = Some (Some ?i, st1)"
    "handles st1 (add_mset (Some ?i) (add_mset (Some ?i) H))" by auto
  have obj: "st_obj st1 ?i = Some (shared_state_ctor\<lparr>ss_use_count := 2\<rparr>)"
    using st1(1) st0(3) by (auto simp: ptr_copy_def intrusive_ptr_add_ref_def shared_state_ctor_def)
  have new: "Some ?i \<notin># H" using handlesD(1,2) [OF H, of ?i] by (simp add: count_eq_zero_iff)
  from rr.fiber_ctor_ok [OF Q f] obtain w1 m1 ys where w1: "fiber_ctor round_robin_algo f w m = Some (Some f, w1, m1)"
    "fm_queues fifo_rep w1 m1 ws ys" "set ys = insert f (set rs)" by blast
  let ?w = "w1\<lparr>w_heap := (w_heap w1)(f := detach (w_heap w1 f))\<rparr>"
  have Q1: "fm_queues fifo_rep ?w m1 ws ys"
    by (rule rr.queues_cong_fields [OF w1(2)]) (simp_all add: sched_same_def detach_def)
  have st: "is_ready (w_heap ?w) f" "detached (w_heap ?w f)"
    using fm_queuesD(6) [OF Q1, of f] w1(3) by (simp_all add: is_ready_def flag_updates)
  have a: "async round_robin_algo f w m st = Some (Done (Inr (Some ?i, ?pt)), st1, ?w, m1)"
    using st0(1) st1(1) w1(1)
    by (simp add: async_def packaged_task_ctor_fn_def packaged_task_get_future_def packaged_task_valid_def
        future_ctor_ptr_def packaged_task_move_ctor_def packaged_task_swap_def packaged_task_ctor_def
        fiber_detach_def fiber_joinable_def fiber_dtor_def packaged_task_dtor_def future_move_ctor_def
        future_swap_def upd_heap_def)
  have two: "{#Some ?i, Some ?i#} \<subseteq># add_mset (Some ?i) (add_mset (Some ?i) H)" by simp
  have rep: "ss_rep ss_result (shared_state_ctor\<lparr>ss_use_count := 2\<rparr> :: 'a shared_state) None []"
    using ss_ctor_rep by simp
  have "\<exists>st2 w3 st3 w4. packaged_task_call Inr r k w2 m2 st1 ?pt = Some (Done (Inr ()), st2, w3, m2) \<and>
      future_get k w3 m2 st2 (Some ?i) = Some (Done r, None, None, st3, w4, m2)"
    if "fm_queues fifo_rep w2 m2 ws2 rs2" for r k w2 m2 ws2 rs2
    using task_call_first [OF st1(2) two _ obj rep that, of ?pt Inr r k]
    by (cases r) (auto simp: task_outcome_def)
  with a st1(2) new Q1 w1(3) st show ?thesis by auto
qed

theorem async_returns_future_witness:
  "\<exists>i pt st1 w1 m1. async round_robin_algo 3 (sy_world demo_sys2) (sy_mgr demo_sys2) demo_states =
       Some (Done (Inr (Some i, pt)), st1, w1, m1) \<and> pt_task pt = Some i \<and> is_ready (w_heap w1) 3 \<and>
     detached (w_heap w1 3)"
proof -
  have "size {#Some (0 :: sid), Some 0#} + 2 < (2 :: nat) ^ 64" by simp
  from async_returns_future [OF demo_handles this demo_sys2_queues(1), of 3] show ?thesis by simp blast
qed

end
