(* ===== verification/Void_Future.thy ===== *)
theory Void_Future
  imports Packaged_Task
begin

text \<open>
  The \<^verbatim>\<open>void\<close> versions of the classes in the directory \<^verbatim>\<open>future\<close>: \<^verbatim>\<open>shared_state< void >\<close>,
  \<^verbatim>\<open>future< void >\<close>, \<^verbatim>\<open>shared_future< void >\<close>, \<^verbatim>\<open>promise< void >\<close>, \<^verbatim>\<open>packaged_task< void() >\<close>
  and the task object. They are written out a second time in the sources, over a state that keeps no
  value, and so they are here. The theory shows that they are the general versions with the values
  forgotten: whatever is called on either, the outcomes agree.
\<close>

section \<open>The state\<close>

record void_state =
  vs_use_count :: size_t
  vs_mtx :: mutex
  vs_waiters :: condition
  vs_ready :: bool
  vs_except :: "exn option"

definition void_state_ctor :: void_state where
  "void_state_ctor =
     \<lparr>vs_use_count = 0, vs_mtx = mutex_init, vs_waiters = condition_init, vs_ready = False, vs_except = None\<rparr>"

definition void_state_dtor :: "void_state \<Rightarrow> unit option" where
  "void_state_dtor s = do {
     condition_dtor (vs_waiters s);
     mutex_dtor (vs_mtx s) }"

text \<open>The private functions, called with the mutex held.\<close>

definition vs_mark_ready_and_notify :: "void_state \<Rightarrow> world \<Rightarrow> (void_state \<times> world) option" where
  "vs_mark_ready_and_notify s w = do {
     let s1 = s\<lparr>vs_ready := True\<rparr>;
     (cv, w') \<leftarrow> condition_notify_all (vs_waiters s1) w;
     Some (s1\<lparr>vs_waiters := cv\<rparr>, w') }"

definition vs_set_exception ::
  "exn \<Rightarrow> void_state \<Rightarrow> world \<Rightarrow> (unit result \<times> void_state \<times> world) option" where
  "vs_set_exception except s w =
     (if vs_ready s then Some (Inl promise_already_satisfied, s, w)
      else do {
        (s', w') \<leftarrow> vs_mark_ready_and_notify (s\<lparr>vs_except := Some except\<rparr>) w;
        Some (Inr (), s', w') })"

definition vs_owner_destroyed ::
  "void_state \<Rightarrow> world \<Rightarrow> (unit result \<times> void_state \<times> world) option" where
  "vs_owner_destroyed s w =
     (if \<not> vs_ready s then vs_set_exception broken_promise s w else Some (Inr (), s, w))"

definition vs_set_value ::
  "void_state \<Rightarrow> world \<Rightarrow> (unit result \<times> void_state \<times> world) option" where
  "vs_set_value s w =
     (if vs_ready s then Some (Inl promise_already_satisfied, s, w)
      else do {
        (s', w') \<leftarrow> vs_mark_ready_and_notify s w;
        Some (Inr (), s', w') })"

definition vs_result :: "void_state \<Rightarrow> unit result option" where
  "vs_result s = Some (case vs_except s of Some e \<Rightarrow> Inl e | None \<Rightarrow> Inr ())"

text \<open>The lock around a call.\<close>

definition vs_unlock :: "world \<Rightarrow> 's fiber_manager \<Rightarrow> void_state \<Rightarrow> (void_state \<times> world) option" where
  "vs_unlock w m s = do {
     (mx, w') \<leftarrow> mutex_unlock w m (vs_mtx s);
     Some (s\<lparr>vs_mtx := mx\<rparr>, w') }"

definition vs_guarded ::
  "(void_state \<Rightarrow> world \<Rightarrow> ('r \<times> void_state \<times> world) option) \<Rightarrow>
   mfid \<Rightarrow> world \<Rightarrow> 's fiber_manager \<Rightarrow> void_state \<Rightarrow>
   ('r turn \<times> void_state \<times> world \<times> 's fiber_manager) option" where
  "vs_guarded body k w m s = do {
     (got, mx, w1, m1) \<leftarrow> ctx_lock k w m (vs_mtx s);
     let s1 = s\<lparr>vs_mtx := mx\<rparr>;
     if got then do {
       (r, s2, w2) \<leftarrow> body s1 w1;
       (s3, w3) \<leftarrow> vs_unlock w2 m1 s2;
       Some (Done r, s3, w3, m1) }
     else Some (In_line, s1, w1, m1) }"

definition void_state_owner_destroyed ::
  "mfid \<Rightarrow> world \<Rightarrow> 's fiber_manager \<Rightarrow> void_state \<Rightarrow>
   (unit result turn \<times> void_state \<times> world \<times> 's fiber_manager) option" where
  "void_state_owner_destroyed k w m s = vs_guarded vs_owner_destroyed k w m s"

definition void_state_set_value ::
  "mfid \<Rightarrow> world \<Rightarrow> 's fiber_manager \<Rightarrow> void_state \<Rightarrow>
   (unit result turn \<times> void_state \<times> world \<times> 's fiber_manager) option" where
  "void_state_set_value k w m s = vs_guarded vs_set_value k w m s"

definition void_state_set_exception ::
  "exn \<Rightarrow> mfid \<Rightarrow> world \<Rightarrow> 's fiber_manager \<Rightarrow> void_state \<Rightarrow>
   (unit result turn \<times> void_state \<times> world \<times> 's fiber_manager) option" where
  "void_state_set_exception except k w m s = vs_guarded (vs_set_exception except) k w m s"

definition void_state_reset :: "void_state \<Rightarrow> void_state" where
  "void_state_reset s = s\<lparr>vs_ready := False\<rparr>"

text \<open>Waiting: one round of the loop, taking the mutex, going on after having slept.\<close>

definition vs_wait_round ::
  "(void_state \<Rightarrow> 'r result option) \<Rightarrow> mfid \<Rightarrow> world \<Rightarrow> 's fiber_manager \<Rightarrow> void_state \<Rightarrow>
   ('r result turn \<times> void_state \<times> world \<times> 's fiber_manager) option" where
  "vs_wait_round fin k w m s =
     (if vs_ready s then do {
        r \<leftarrow> fin s;
        (s', w') \<leftarrow> vs_unlock w m s;
        Some (Done r, s', w', m) }
      else do {
        (mx, cv, w', m') \<leftarrow> ctx_wait_enter k (vs_mtx s) w m (vs_waiters s);
        Some (Asleep, s\<lparr>vs_mtx := mx, vs_waiters := cv\<rparr>, w', m') })"

definition vs_wait_lock ::
  "(void_state \<Rightarrow> 'r result option) \<Rightarrow> mfid \<Rightarrow> world \<Rightarrow> 's fiber_manager \<Rightarrow> void_state \<Rightarrow>
   ('r result turn \<times> void_state \<times> world \<times> 's fiber_manager) option" where
  "vs_wait_lock fin k w m s = do {
     (got, mx, w1, m1) \<leftarrow> ctx_lock k w m (vs_mtx s);
     let s1 = s\<lparr>vs_mtx := mx\<rparr>;
     if got then vs_wait_round fin k w1 m1 s1 else Some (In_line, s1, w1, m1) }"

definition vs_wait_woken ::
  "(void_state \<Rightarrow> 'r result option) \<Rightarrow> mfid \<Rightarrow> world \<Rightarrow> 's fiber_manager \<Rightarrow> void_state \<Rightarrow>
   ('r result turn \<times> void_state \<times> world \<times> 's fiber_manager) option" where
  "vs_wait_woken fin k w m s =
     (case fm_active m of
        Some a \<Rightarrow> do {
          (r, cv, w1) \<leftarrow> condition_wait_resumed w m (vs_waiters s);
          let s1 = s\<lparr>vs_waiters := cv\<rparr>;
          case r of
            Inl e \<Rightarrow> Some (Done (Inl e), s1, w1, m)
          | Inr u \<Rightarrow> vs_wait_lock fin k w1 m s1 }
      | None \<Rightarrow> vs_wait_lock fin k w m s)"

definition void_state_get ::
  "mfid \<Rightarrow> world \<Rightarrow> 's fiber_manager \<Rightarrow> void_state \<Rightarrow>
   (unit result turn \<times> void_state \<times> world \<times> 's fiber_manager) option" where
  "void_state_get k w m s = vs_wait_lock vs_result k w m s"

definition void_state_wait ::
  "mfid \<Rightarrow> world \<Rightarrow> 's fiber_manager \<Rightarrow> void_state \<Rightarrow>
   (unit result turn \<times> void_state \<times> world \<times> 's fiber_manager) option" where
  "void_state_wait k w m s = vs_wait_lock (\<lambda>s. Some (Inr ())) k w m s"

text \<open>Waiting with a deadline.\<close>

definition vs_until_round ::
  "time_point \<Rightarrow> mfid \<Rightarrow> world \<Rightarrow> 's fiber_manager \<Rightarrow> void_state \<Rightarrow>
   (future_status result turn \<times> void_state \<times> world \<times> 's fiber_manager) option" where
  "vs_until_round t k w m s =
     (if vs_ready s then do {
        (s', w') \<leftarrow> vs_unlock w m s;
        Some (Done (Inr future_ready), s', w', m) }
      else do {
        (mx, cv, w', m') \<leftarrow> ctx_wait_until_enter k (vs_mtx s) t w m (vs_waiters s);
        Some (Asleep, s\<lparr>vs_mtx := mx, vs_waiters := cv\<rparr>, w', m') })"

definition vs_until_status ::
  "cv_status \<Rightarrow> time_point \<Rightarrow> mfid \<Rightarrow> world \<Rightarrow> 's fiber_manager \<Rightarrow> void_state \<Rightarrow>
   (future_status result turn \<times> void_state \<times> world \<times> 's fiber_manager) option" where
  "vs_until_status st t k w m s =
     (if timeout = st \<and> \<not> vs_ready s then do {
        (s', w') \<leftarrow> vs_unlock w m s;
        Some (Done (Inr future_timeout), s', w', m) }
      else vs_until_round t k w m s)"

definition vs_until_woken ::
  "time_point \<Rightarrow> time_point \<Rightarrow> mfid \<Rightarrow> world \<Rightarrow> 's fiber_manager \<Rightarrow> void_state \<Rightarrow>
   (cv_status option \<times> future_status result turn \<times> void_state \<times> world \<times> 's fiber_manager) option" where
  "vs_until_woken now t k w m s = do {
     (r, cv, w1) \<leftarrow> condition_wait_until_resumed now t w m (vs_waiters s);
     let s1 = s\<lparr>vs_waiters := cv\<rparr>;
     case r of
       Inl e \<Rightarrow> Some (None, Done (Inl e), s1, w1, m)
     | Inr st \<Rightarrow> do {
         (got, mx, w2, m2) \<leftarrow> ctx_lock k w1 m (vs_mtx s1);
         let s2 = s1\<lparr>vs_mtx := mx\<rparr>;
         if got then do { (r', s3, w3, m3) \<leftarrow> vs_until_status st t k w2 m2 s2; Some (Some st, r', s3, w3, m3) }
         else Some (Some st, In_line, s2, w2, m2) } }"

definition void_state_wait_until ::
  "time_point \<Rightarrow> mfid \<Rightarrow> world \<Rightarrow> 's fiber_manager \<Rightarrow> void_state \<Rightarrow>
   (future_status result turn \<times> void_state \<times> world \<times> 's fiber_manager) option" where
  "void_state_wait_until t k w m s = do {
     (got, mx, w1, m1) \<leftarrow> ctx_lock k w m (vs_mtx s);
     let s1 = s\<lparr>vs_mtx := mx\<rparr>;
     if got then vs_until_round t k w1 m1 s1 else Some (In_line, s1, w1, m1) }"

definition void_state_wait_for ::
  "time_point \<Rightarrow> duration \<Rightarrow> mfid \<Rightarrow> world \<Rightarrow> 's fiber_manager \<Rightarrow> void_state \<Rightarrow>
   (future_status result turn \<times> void_state \<times> world \<times> 's fiber_manager) option" where
  "void_state_wait_for now d k w m s = do {
     (got, mx, w1, m1) \<leftarrow> ctx_lock k w m (vs_mtx s);
     let s1 = s\<lparr>vs_mtx := mx\<rparr>;
     if got then vs_until_round (now + d) k w1 m1 s1 else Some (In_line, s1, w1, m1) }"

definition vs_for_status ::
  "cv_status \<Rightarrow> time_point \<Rightarrow> duration \<Rightarrow> mfid \<Rightarrow> world \<Rightarrow> 's fiber_manager \<Rightarrow> void_state \<Rightarrow>
   (future_status result turn \<times> void_state \<times> world \<times> 's fiber_manager) option" where
  "vs_for_status st now d k w m s = vs_until_status st (now + d) k w m s"

section \<open>The store\<close>

record void_states =
  vst_obj :: "sid \<Rightarrow> void_state option"
  vst_fresh :: sid

definition vst_set :: "sid \<Rightarrow> void_state \<Rightarrow> void_states \<Rightarrow> void_states" where
  "vst_set i s st = st\<lparr>vst_obj := (vst_obj st)(i := Some s)\<rparr>"

text \<open>The reference count, and the pointers that keep it.\<close>

definition void_intrusive_ptr_add_ref :: "sid \<Rightarrow> void_states \<Rightarrow> void_states option" where
  "void_intrusive_ptr_add_ref i st = do {
     s \<leftarrow> vst_obj st i;
     Some (vst_set i (s\<lparr>vs_use_count := vs_use_count s + 1\<rparr>) st) }"

definition void_deallocate_future :: "sid \<Rightarrow> void_states \<Rightarrow> void_states option" where
  "void_deallocate_future i st = do {
     s \<leftarrow> vst_obj st i;
     void_state_dtor s;
     Some (st\<lparr>vst_obj := (vst_obj st)(i := None)\<rparr>) }"

definition void_intrusive_ptr_release :: "sid \<Rightarrow> void_states \<Rightarrow> void_states option" where
  "void_intrusive_ptr_release i st = do {
     s \<leftarrow> vst_obj st i;
     let s' = s\<lparr>vs_use_count := vs_use_count s - 1\<rparr>;
     if 0 = vs_use_count s' then void_deallocate_future i (vst_set i s' st)
     else Some (vst_set i s' st) }"

definition vptr_copy :: "ptr_t \<Rightarrow> void_states \<Rightarrow> (ptr_t \<times> void_states) option" where
  "vptr_copy p st =
     (case p of
        None \<Rightarrow> Some (None, st)
      | Some i \<Rightarrow> do { st' \<leftarrow> void_intrusive_ptr_add_ref i st; Some (Some i, st') })"

definition vptr_drop :: "ptr_t \<Rightarrow> void_states \<Rightarrow> void_states option" where
  "vptr_drop p st = (case p of None \<Rightarrow> Some st | Some i \<Rightarrow> void_intrusive_ptr_release i st)"

definition vptr_new :: "void_states \<Rightarrow> (ptr_t \<times> void_states) option" where
  "vptr_new st = do {
     let i = vst_fresh st;
     st' \<leftarrow> void_intrusive_ptr_add_ref i ((vst_set i void_state_ctor st)\<lparr>vst_fresh := i + 1\<rparr>);
     Some (Some i, st') }"

definition vst_call ::
  "(void_state \<Rightarrow> ('r \<times> void_state \<times> 'x) option) \<Rightarrow> sid \<Rightarrow> void_states \<Rightarrow> ('r \<times> void_states \<times> 'x) option" where
  "vst_call f i st = do {
     s \<leftarrow> vst_obj st i;
     (r, s', x) \<leftarrow> f s;
     Some (r, vst_set i s' st, x) }"

section \<open>Futures\<close>

definition void_future_ctor :: future where
  "void_future_ctor = None"

definition void_future_ctor_ptr :: "ptr_t \<Rightarrow> void_states \<Rightarrow> (future \<times> void_states) option" where
  "void_future_ctor_ptr p st = vptr_copy p st"

definition void_future_dtor :: "future \<Rightarrow> void_states \<Rightarrow> void_states option" where
  "void_future_dtor p st = vptr_drop p st"

definition void_future_swap :: "future \<Rightarrow> future \<Rightarrow> future \<times> future" where
  "void_future_swap this other = (other, this)"

definition void_future_move_ctor :: "future \<Rightarrow> future \<times> future" where
  "void_future_move_ctor other = void_future_swap None other"

definition void_future_assign :: "future \<Rightarrow> future \<Rightarrow> void_states \<Rightarrow> (future \<times> future \<times> void_states) option" where
  "void_future_assign this other st = do {
     let (tmp, other') = void_future_move_ctor other;
     let (this', tmp') = void_future_swap this tmp;
     st' \<leftarrow> void_future_dtor tmp' st;
     Some (this', other', st') }"

definition void_future_valid :: "future \<Rightarrow> bool" where
  "void_future_valid p \<longleftrightarrow> p \<noteq> None"

text \<open>
  \<^verbatim>\<open>get\<close> takes the pointer out of the future into a local variable, which lives until the call is
  left.
\<close>

definition void_future_get_end ::
  "ptr_t \<Rightarrow> 'r result turn \<times> void_states \<times> world \<times> 's fiber_manager \<Rightarrow>
   ('r result turn \<times> ptr_t \<times> future \<times> void_states \<times> world \<times> 's fiber_manager) option" where
  "void_future_get_end tmp = (\<lambda>(t, st, w, m). case t of
       Done r \<Rightarrow> do { st' \<leftarrow> vptr_drop tmp st; Some (Done r, None, None, st', w, m) }
     | _ \<Rightarrow> Some (t, tmp, None, st, w, m))"

definition void_future_get_with ::
  "(mfid \<Rightarrow> world \<Rightarrow> 's fiber_manager \<Rightarrow> void_state \<Rightarrow>
      ('r result turn \<times> void_state \<times> world \<times> 's fiber_manager) option) \<Rightarrow>
   mfid \<Rightarrow> world \<Rightarrow> 's fiber_manager \<Rightarrow> void_states \<Rightarrow> future \<Rightarrow>
   ('r result turn \<times> ptr_t \<times> future \<times> void_states \<times> world \<times> 's fiber_manager) option" where
  "void_future_get_with getf k w m st p =
     (case p of
        None \<Rightarrow> Some (Done (Inl future_uninitialized), None, None, st, w, m)
      | Some i \<Rightarrow> vst_call (getf k w m) i st \<bind> void_future_get_end p)"

definition void_future_get ::
  "mfid \<Rightarrow> world \<Rightarrow> 's fiber_manager \<Rightarrow> void_states \<Rightarrow> future \<Rightarrow>
   (unit result turn \<times> ptr_t \<times> future \<times> void_states \<times> world \<times> 's fiber_manager) option" where
  "void_future_get k w m st p = void_future_get_with void_state_get k w m st p"

definition void_future_get_woken ::
  "mfid \<Rightarrow> world \<Rightarrow> 's fiber_manager \<Rightarrow> void_states \<Rightarrow> ptr_t \<Rightarrow>
   (unit result turn \<times> ptr_t \<times> future \<times> void_states \<times> world \<times> 's fiber_manager) option" where
  "void_future_get_woken k w m st tmp = do {
     i \<leftarrow> tmp;
     x \<leftarrow> vst_call (vs_wait_woken vs_result k w m) i st;
     void_future_get_end tmp x }"

text \<open>The functions that wait leave the future valid.\<close>

definition void_future_call ::
  "(void_state \<Rightarrow> ('r result turn \<times> void_state \<times> world \<times> 's fiber_manager) option) \<Rightarrow>
   world \<Rightarrow> 's fiber_manager \<Rightarrow> void_states \<Rightarrow> future \<Rightarrow>
   ('r result turn \<times> void_states \<times> world \<times> 's fiber_manager) option" where
  "void_future_call f w m st p =
     (case p of
        None \<Rightarrow> Some (Done (Inl future_uninitialized), st, w, m)
      | Some i \<Rightarrow> vst_call f i st)"

definition void_future_wait ::
  "mfid \<Rightarrow> world \<Rightarrow> 's fiber_manager \<Rightarrow> void_states \<Rightarrow> future \<Rightarrow>
   (unit result turn \<times> void_states \<times> world \<times> 's fiber_manager) option" where
  "void_future_wait k w m st p = void_future_call (void_state_wait k w m) w m st p"

definition void_future_wait_for ::
  "time_point \<Rightarrow> duration \<Rightarrow> mfid \<Rightarrow> world \<Rightarrow> 's fiber_manager \<Rightarrow> void_states \<Rightarrow> future \<Rightarrow>
   (future_status result turn \<times> void_states \<times> world \<times> 's fiber_manager) option" where
  "void_future_wait_for now d k w m st p = void_future_call (void_state_wait_for now d k w m) w m st p"

definition void_future_wait_until ::
  "time_point \<Rightarrow> mfid \<Rightarrow> world \<Rightarrow> 's fiber_manager \<Rightarrow> void_states \<Rightarrow> future \<Rightarrow>
   (future_status result turn \<times> void_states \<times> world \<times> 's fiber_manager) option" where
  "void_future_wait_until t k w m st p = void_future_call (void_state_wait_until t k w m) w m st p"

section \<open>Shared futures\<close>

definition void_shared_future_copy_ctor :: "shared_future \<Rightarrow> void_states \<Rightarrow> (shared_future \<times> void_states) option" where
  "void_shared_future_copy_ctor other st = vptr_copy other st"

definition void_shared_future_swap :: "shared_future \<Rightarrow> shared_future \<Rightarrow> shared_future \<times> shared_future" where
  "void_shared_future_swap this other = (other, this)"

definition void_shared_future_ctor_future :: "future \<Rightarrow> shared_future \<times> future" where
  "void_shared_future_ctor_future other = (other, None)"

definition void_shared_future_move_ctor :: "shared_future \<Rightarrow> shared_future \<times> shared_future" where
  "void_shared_future_move_ctor other = void_shared_future_swap None other"

definition void_shared_future_dtor :: "shared_future \<Rightarrow> void_states \<Rightarrow> void_states option" where
  "void_shared_future_dtor p st = vptr_drop p st"

definition void_shared_future_move_assign ::
  "shared_future \<Rightarrow> shared_future \<Rightarrow> void_states \<Rightarrow> (shared_future \<times> shared_future \<times> void_states) option" where
  "void_shared_future_move_assign this other st = do {
     let (tmp, other') = void_shared_future_move_ctor other;
     let (this', tmp') = void_shared_future_swap this tmp;
     st' \<leftarrow> void_shared_future_dtor tmp' st;
     Some (this', other', st') }"

definition void_shared_future_copy_assign ::
  "shared_future \<Rightarrow> shared_future \<Rightarrow> void_states \<Rightarrow> (shared_future \<times> void_states) option" where
  "void_shared_future_copy_assign this other st = do {
     (tmp, st1) \<leftarrow> void_shared_future_copy_ctor other st;
     let (this', tmp') = void_shared_future_swap this tmp;
     st2 \<leftarrow> void_shared_future_dtor tmp' st1;
     Some (this', st2) }"

definition void_shared_future_assign_future ::
  "shared_future \<Rightarrow> future \<Rightarrow> void_states \<Rightarrow> (shared_future \<times> future \<times> void_states) option" where
  "void_shared_future_assign_future this other st = do {
     let (tmp, other') = void_shared_future_ctor_future other;
     let (this', tmp') = void_shared_future_swap this tmp;
     st' \<leftarrow> void_shared_future_dtor tmp' st;
     Some (this', other', st') }"

definition void_shared_future_valid :: "shared_future \<Rightarrow> bool" where
  "void_shared_future_valid p \<longleftrightarrow> p \<noteq> None"

definition void_shared_future_get ::
  "mfid \<Rightarrow> world \<Rightarrow> 's fiber_manager \<Rightarrow> void_states \<Rightarrow> shared_future \<Rightarrow>
   (unit result turn \<times> void_states \<times> world \<times> 's fiber_manager) option" where
  "void_shared_future_get k w m st p = void_future_call (void_state_get k w m) w m st p"

definition void_shared_future_wait ::
  "mfid \<Rightarrow> world \<Rightarrow> 's fiber_manager \<Rightarrow> void_states \<Rightarrow> shared_future \<Rightarrow>
   (unit result turn \<times> void_states \<times> world \<times> 's fiber_manager) option" where
  "void_shared_future_wait k w m st p = void_future_call (void_state_wait k w m) w m st p"

definition void_shared_future_wait_for ::
  "time_point \<Rightarrow> duration \<Rightarrow> mfid \<Rightarrow> world \<Rightarrow> 's fiber_manager \<Rightarrow> void_states \<Rightarrow> shared_future \<Rightarrow>
   (future_status result turn \<times> void_states \<times> world \<times> 's fiber_manager) option" where
  "void_shared_future_wait_for now d k w m st p = void_future_call (void_state_wait_for now d k w m) w m st p"

definition void_shared_future_wait_until ::
  "time_point \<Rightarrow> mfid \<Rightarrow> world \<Rightarrow> 's fiber_manager \<Rightarrow> void_states \<Rightarrow> shared_future \<Rightarrow>
   (future_status result turn \<times> void_states \<times> world \<times> 's fiber_manager) option" where
  "void_shared_future_wait_until t k w m st p = void_future_call (void_state_wait_until t k w m) w m st p"

definition void_future_share :: "future \<Rightarrow> shared_future result \<times> future" where
  "void_future_share p =
     (if \<not> void_future_valid p then (Inl future_uninitialized, p)
      else let (sh, p') = void_shared_future_ctor_future p in (Inr sh, p'))"

text \<open>Only this version can exchange its state with that of a future.\<close>

definition void_shared_future_swap_future :: "shared_future \<Rightarrow> future \<Rightarrow> shared_future \<times> future" where
  "void_shared_future_swap_future this other = (other, this)"

section \<open>Promises and tasks\<close>

definition void_promise_ctor :: "void_states \<Rightarrow> (promise \<times> void_states) option" where
  "void_promise_ctor st = do {
     (p, st') \<leftarrow> vptr_new st;
     Some (\<lparr>pr_obtained = False, pr_future = p\<rparr>, st') }"

definition void_promise_dtor ::
  "mfid \<Rightarrow> world \<Rightarrow> 's fiber_manager \<Rightarrow> void_states \<Rightarrow> promise \<Rightarrow>
   (unit result turn \<times> void_states \<times> world \<times> 's fiber_manager) option" where
  "void_promise_dtor k w m st p =
     (case pr_future p of
        None \<Rightarrow> Some (Done (Inr ()), st, w, m)
      | Some i \<Rightarrow> do {
          (t, st1, w1, m1) \<leftarrow> vst_call (void_state_owner_destroyed k w m) i st;
          case t of
            Done r \<Rightarrow> do { st2 \<leftarrow> vptr_drop (Some i) st1; Some (Done r, st2, w1, m1) }
          | _ \<Rightarrow> Some (t, st1, w1, m1) })"

definition void_promise_swap :: "promise \<Rightarrow> promise \<Rightarrow> promise \<times> promise" where
  "void_promise_swap this other = (other, this)"

definition void_promise_move_ctor :: "promise \<Rightarrow> promise \<times> promise" where
  "void_promise_move_ctor other = void_promise_swap \<lparr>pr_obtained = False, pr_future = None\<rparr> other"

definition void_promise_assign ::
  "mfid \<Rightarrow> world \<Rightarrow> 's fiber_manager \<Rightarrow> void_states \<Rightarrow> promise \<Rightarrow> promise \<Rightarrow>
   (unit result turn \<times> promise \<times> promise \<times> void_states \<times> world \<times> 's fiber_manager) option" where
  "void_promise_assign k w m st this other = do {
     let (tmp, other') = void_promise_move_ctor other;
     let (this', tmp') = void_promise_swap this tmp;
     (t, st', w', m') \<leftarrow> void_promise_dtor k w m st tmp';
     Some (t, this', other', st', w', m') }"

definition void_promise_valid :: "promise \<Rightarrow> bool" where
  "void_promise_valid p \<longleftrightarrow> pr_future p \<noteq> None"

definition void_promise_get_future :: "void_states \<Rightarrow> promise \<Rightarrow> (future result \<times> promise \<times> void_states) option" where
  "void_promise_get_future st p =
     (if pr_obtained p then Some (Inl future_already_retrieved, p, st)
      else if pr_future p = None then Some (Inl promise_uninitialized, p, st)
      else do {
        let p' = p\<lparr>pr_obtained := True\<rparr>;
        (f, st') \<leftarrow> void_future_ctor_ptr (pr_future p') st;
        Some (Inr f, p', st') })"

definition void_promise_call ::
  "(void_state \<Rightarrow> (unit result turn \<times> void_state \<times> world \<times> 's fiber_manager) option) \<Rightarrow>
   world \<Rightarrow> 's fiber_manager \<Rightarrow> void_states \<Rightarrow> promise \<Rightarrow>
   (unit result turn \<times> void_states \<times> world \<times> 's fiber_manager) option" where
  "void_promise_call f w m st p =
     (case pr_future p of
        None \<Rightarrow> Some (Done (Inl promise_uninitialized), st, w, m)
      | Some i \<Rightarrow> vst_call f i st)"

definition void_promise_set_value ::
  "mfid \<Rightarrow> world \<Rightarrow> 's fiber_manager \<Rightarrow> void_states \<Rightarrow> promise \<Rightarrow>
   (unit result turn \<times> void_states \<times> world \<times> 's fiber_manager) option" where
  "void_promise_set_value k w m st p = void_promise_call (void_state_set_value k w m) w m st p"

definition void_promise_set_exception ::
  "exn \<Rightarrow> mfid \<Rightarrow> world \<Rightarrow> 's fiber_manager \<Rightarrow> void_states \<Rightarrow> promise \<Rightarrow>
   (unit result turn \<times> void_states \<times> world \<times> 's fiber_manager) option" where
  "void_promise_set_exception except k w m st p = void_promise_call (void_state_set_exception except k w m) w m st p"

text \<open>The task object, from the moment its function has ended with \<open>r\<close>, and the handle.\<close>

definition task_void_run ::
  "unit result \<Rightarrow> mfid \<Rightarrow> world \<Rightarrow> 's fiber_manager \<Rightarrow> void_state \<Rightarrow>
   (unit result turn \<times> void_state \<times> world \<times> 's fiber_manager) option" where
  "task_void_run r k w m s =
     (case r of
        Inl e \<Rightarrow> void_state_set_exception e k w m s
      | Inr u \<Rightarrow> do {
          (t, s1, w1, m1) \<leftarrow> void_state_set_value k w m s;
          case t of
            Done (Inl e) \<Rightarrow> void_state_set_exception e k w1 m1 s1
          | _ \<Rightarrow> Some (t, s1, w1, m1) })"

definition void_task_ctor :: packaged_task where
  "void_task_ctor = \<lparr>pt_obtained = False, pt_task = None\<rparr>"

definition void_task_ctor_fn :: "void_states \<Rightarrow> (packaged_task \<times> void_states) option" where
  "void_task_ctor_fn st = do {
     (p, st') \<leftarrow> vptr_new st;
     Some (\<lparr>pt_obtained = False, pt_task = p\<rparr>, st') }"

definition void_task_dtor ::
  "mfid \<Rightarrow> world \<Rightarrow> 's fiber_manager \<Rightarrow> void_states \<Rightarrow> packaged_task \<Rightarrow>
   (unit result turn \<times> void_states \<times> world \<times> 's fiber_manager) option" where
  "void_task_dtor k w m st p =
     (case pt_task p of
        None \<Rightarrow> Some (Done (Inr ()), st, w, m)
      | Some i \<Rightarrow> do {
          (t, st1, w1, m1) \<leftarrow> vst_call (void_state_owner_destroyed k w m) i st;
          case t of
            Done r \<Rightarrow> do { st2 \<leftarrow> vptr_drop (Some i) st1; Some (Done r, st2, w1, m1) }
          | _ \<Rightarrow> Some (t, st1, w1, m1) })"

definition void_task_swap :: "packaged_task \<Rightarrow> packaged_task \<Rightarrow> packaged_task \<times> packaged_task" where
  "void_task_swap this other = (other, this)"

definition void_task_move_ctor :: "packaged_task \<Rightarrow> packaged_task \<times> packaged_task" where
  "void_task_move_ctor other = void_task_swap void_task_ctor other"

definition void_task_assign ::
  "mfid \<Rightarrow> world \<Rightarrow> 's fiber_manager \<Rightarrow> void_states \<Rightarrow> packaged_task \<Rightarrow> packaged_task \<Rightarrow>
   (unit result turn \<times> packaged_task \<times> packaged_task \<times> void_states \<times> world \<times> 's fiber_manager) option" where
  "void_task_assign k w m st this other = do {
     let (tmp, other') = void_task_move_ctor other;
     let (this', tmp') = void_task_swap this tmp;
     (t, st', w', m') \<leftarrow> void_task_dtor k w m st tmp';
     Some (t, this', other', st', w', m') }"

definition void_task_valid :: "packaged_task \<Rightarrow> bool" where
  "void_task_valid p \<longleftrightarrow> pt_task p \<noteq> None"

definition void_task_get_future ::
  "void_states \<Rightarrow> packaged_task \<Rightarrow> (future result \<times> packaged_task \<times> void_states) option" where
  "void_task_get_future st p =
     (if pt_obtained p then Some (Inl future_already_retrieved, p, st)
      else if \<not> void_task_valid p then Some (Inl packaged_task_uninitialized, p, st)
      else do {
        let p' = p\<lparr>pt_obtained := True\<rparr>;
        (f, st') \<leftarrow> void_future_ctor_ptr (pt_task p') st;
        Some (Inr f, p', st') })"

definition void_task_call ::
  "unit result \<Rightarrow> mfid \<Rightarrow> world \<Rightarrow> 's fiber_manager \<Rightarrow> void_states \<Rightarrow> packaged_task \<Rightarrow>
   (unit result turn \<times> void_states \<times> world \<times> 's fiber_manager) option" where
  "void_task_call r k w m st p =
     (case pt_task p of
        None \<Rightarrow> Some (Done (Inl packaged_task_uninitialized), st, w, m)
      | Some i \<Rightarrow> vst_call (task_void_run r k w m) i st)"

definition void_task_reset ::
  "void_states \<Rightarrow> packaged_task \<Rightarrow> (unit result \<times> packaged_task \<times> void_states) option" where
  "void_task_reset st p =
     (case pt_task p of
        None \<Rightarrow> Some (Inl packaged_task_uninitialized, p, st)
      | Some i \<Rightarrow> do {
          s \<leftarrow> vst_obj st i;
          Some (Inr (), p\<lparr>pt_obtained := False\<rparr>, vst_set i (void_state_reset s) st) })"

end
