(* ===== verification/Future_Calls.thy ===== *)
theory Future_Calls
  imports Packaged_Task
begin

text \<open>
  What clients call on promises, futures, shared futures and tasks (\<^verbatim>\<open>future/promise.hpp\<close>,
  \<^verbatim>\<open>future.hpp\<close>, \<^verbatim>\<open>packaged_task.hpp\<close>), as values, and what they see of it; and the rewriting
  with which the versions of these classes are compared.
\<close>

section \<open>Comparing outcomes\<close>

text \<open>A pair or triple with the state in second place.\<close>

abbreviation snd_erased :: "('a \<Rightarrow> 'b) \<Rightarrow> ('s \<Rightarrow> 't) \<Rightarrow> ('a \<times> 's \<times> 'x) option \<Rightarrow> ('b \<times> 't \<times> 'x) option" where
  "snd_erased g e \<equiv> map_option (map_prod g (map_prod e id))"

lemma map_bind: "map_option g (x \<bind> f) = x \<bind> (\<lambda>y. map_option g (f y))"
  by (cases x) simp_all

lemma bind_map: "map_option g x \<bind> f = x \<bind> (\<lambda>y. f (g y))"
  by (cases x) simp_all

section \<open>Calls\<close>

text \<open>
  What clients call: on promises, futures, shared futures and tasks, with the handles as arguments.
  \<open>Get_woken\<close> is \<^verbatim>\<open>get\<close> going on after the caller slept; the result of a task is the outcome
  of its function.
\<close>

datatype 'v call =
    Promise_new | Promise_set 'v promise | Promise_throw exn promise | Promise_drop promise
  | Promise_assign promise promise | Promise_future promise
  | Get future | Get_woken ptr_t | Wait future | Wait_until time_point future | Wait_for time_point duration future
  | Future_drop future | Future_assign future future
  | Shared_get shared_future | Shared_wait shared_future | Shared_wait_until time_point shared_future
  | Shared_wait_for time_point duration shared_future
  | Shared_copy shared_future | Shared_drop shared_future | Shared_assign shared_future shared_future
  | Shared_move shared_future shared_future | Shared_take shared_future future
  | Task_new | Task_run "'v result" packaged_task | Task_drop packaged_task | Task_assign packaged_task packaged_task
  | Task_future packaged_task | Task_reset packaged_task

text \<open>What they see of it: how the call ends and the handles it leaves.\<close>

datatype 'v seen =
    Saw_value "'v result turn" ptr_t | Saw_end "unit result turn" | Saw_status "future_status result turn"
  | Saw_promise "unit result turn" "promise list" | Saw_future "future result" promise
  | Saw_task "unit result turn" "packaged_task list" | Saw_task_future "future result" packaged_task
  | Saw_handles "ptr_t list"

fun exec_call ::
  "'v call \<Rightarrow> mfid \<Rightarrow> world \<Rightarrow> 's fiber_manager \<Rightarrow> 'v states \<Rightarrow> ('v seen \<times> 'v states \<times> world \<times> 's fiber_manager) option" where
  "exec_call Promise_new k w m st = do { (p, st') \<leftarrow> promise_ctor st; Some (Saw_promise (Done (Inr ())) [p], st', w, m) }"
| "exec_call (Promise_set v p) k w m st = do { (t, x) \<leftarrow> promise_set_value (Inr v) k w m st p; Some (Saw_end t, x) }"
| "exec_call (Promise_throw e p) k w m st = do { (t, x) \<leftarrow> promise_set_exception e k w m st p; Some (Saw_end t, x) }"
| "exec_call (Promise_drop p) k w m st = do { (t, x) \<leftarrow> promise_dtor k w m st p; Some (Saw_end t, x) }"
| "exec_call (Promise_assign p q) k w m st = do {
     (t, p', q', x) \<leftarrow> promise_assign k w m st p q; Some (Saw_promise t [p', q'], x) }"
| "exec_call (Promise_future p) k w m st = do {
     (f, p', st') \<leftarrow> promise_get_future st p; Some (Saw_future f p', st', w, m) }"
| "exec_call (Get f) k w m st = do { (t, tmp, f', x) \<leftarrow> future_get k w m st f; Some (Saw_value t tmp, x) }"
| "exec_call (Get_woken tmp) k w m st = do { (t, tmp', f', x) \<leftarrow> future_get_woken k w m st tmp; Some (Saw_value t tmp', x) }"
| "exec_call (Wait f) k w m st = do { (t, x) \<leftarrow> future_wait k w m st f; Some (Saw_end t, x) }"
| "exec_call (Wait_until tp f) k w m st = do { (t, x) \<leftarrow> future_wait_until tp k w m st f; Some (Saw_status t, x) }"
| "exec_call (Wait_for now d f) k w m st = do { (t, x) \<leftarrow> future_wait_for now d k w m st f; Some (Saw_status t, x) }"
| "exec_call (Future_drop f) k w m st = do { st' \<leftarrow> future_dtor f st; Some (Saw_handles [], st', w, m) }"
| "exec_call (Future_assign f g) k w m st = do { (f', g', st') \<leftarrow> future_assign f g st; Some (Saw_handles [f', g'], st', w, m) }"
| "exec_call (Shared_get f) k w m st = do { (t, x) \<leftarrow> shared_future_get k w m st f; Some (Saw_value t f, x) }"
| "exec_call (Shared_wait f) k w m st = do { (t, x) \<leftarrow> shared_future_wait k w m st f; Some (Saw_end t, x) }"
| "exec_call (Shared_wait_until tp f) k w m st = do {
     (t, x) \<leftarrow> shared_future_wait_until tp k w m st f; Some (Saw_status t, x) }"
| "exec_call (Shared_wait_for now d f) k w m st = do {
     (t, x) \<leftarrow> shared_future_wait_for now d k w m st f; Some (Saw_status t, x) }"
| "exec_call (Shared_copy f) k w m st = do { (g, st') \<leftarrow> shared_future_copy_ctor f st; Some (Saw_handles [g], st', w, m) }"
| "exec_call (Shared_drop f) k w m st = do { st' \<leftarrow> shared_future_dtor f st; Some (Saw_handles [], st', w, m) }"
| "exec_call (Shared_assign f g) k w m st = do {
     (f', st') \<leftarrow> shared_future_copy_assign f g st; Some (Saw_handles [f', g], st', w, m) }"
| "exec_call (Shared_move f g) k w m st = do {
     (f', g', st') \<leftarrow> shared_future_move_assign f g st; Some (Saw_handles [f', g'], st', w, m) }"
| "exec_call (Shared_take f g) k w m st = do {
     (f', g', st') \<leftarrow> shared_future_assign_future f g st; Some (Saw_handles [f', g'], st', w, m) }"
| "exec_call Task_new k w m st = do { (p, st') \<leftarrow> packaged_task_ctor_fn st; Some (Saw_task (Done (Inr ())) [p], st', w, m) }"
| "exec_call (Task_run r p) k w m st = do { (t, x) \<leftarrow> packaged_task_call Inr r k w m st p; Some (Saw_end t, x) }"
| "exec_call (Task_drop p) k w m st = do { (t, x) \<leftarrow> packaged_task_dtor k w m st p; Some (Saw_end t, x) }"
| "exec_call (Task_assign p q) k w m st = do {
     (t, p', q', x) \<leftarrow> packaged_task_assign k w m st p q; Some (Saw_task t [p', q'], x) }"
| "exec_call (Task_future p) k w m st = do {
     (f, p', st') \<leftarrow> packaged_task_get_future st p; Some (Saw_task_future f p', st', w, m) }"
| "exec_call (Task_reset p) k w m st = do { (r, p', st') \<leftarrow> packaged_task_reset st p; Some (Saw_task (Done r) [p'], st', w, m) }"

section \<open>Runs\<close>

text \<open>
  A client makes one call after the other; between the calls anything may happen, so every call has
  the world and the scheduler it finds as arguments.
\<close>

fun run_calls ::
  "('v call \<times> mfid \<times> world \<times> 's fiber_manager) list \<Rightarrow> 'v states \<Rightarrow>
   (('v seen \<times> world \<times> 's fiber_manager) list \<times> 'v states) option" where
  "run_calls [] st = Some ([], st)"
| "run_calls ((c, k, w, m) # cs) st = do {
     (v, st1, x) \<leftarrow> exec_call c k w m st;
     (vs, st2) \<leftarrow> run_calls cs st1;
     Some ((v, x) # vs, st2) }"

section \<open>What every call keeps\<close>

text \<open>The values a call hands in.\<close>

fun call_values :: "'v call \<Rightarrow> 'v set" where
  "call_values (Promise_set v p) = {v}"
| "call_values (Task_run (Inr v) p) = {v}"
| "call_values _ = {}"

definition keeps_pred ::
  "('v shared_state \<Rightarrow> bool) \<Rightarrow> ('v shared_state \<Rightarrow> ('r \<times> 'v shared_state \<times> 'x) option) \<Rightarrow> bool" where
  "keeps_pred P f \<longleftrightarrow> (\<forall>s r s' x. P s \<longrightarrow> f s = Some (r, s', x) \<longrightarrow> P s')"

definition all_states :: "('v shared_state \<Rightarrow> bool) \<Rightarrow> 'v states \<Rightarrow> bool" where
  "all_states P st \<longleftrightarrow> (\<forall>i s. st_obj st i = Some s \<longrightarrow> P s)"

text \<open>
  A property of the result of a shared state that holds as long as only values \<open>ok\<close> are handed
  in.
\<close>

locale state_pred =
  fixes P :: "'v shared_state \<Rightarrow> bool" and ok :: "'v \<Rightarrow> bool"
  assumes P_updates [simp]: "P (s\<lparr>ss_use_count := n\<rparr>) = P s" "P (s\<lparr>ss_mtx := mx\<rparr>) = P s" "P (s\<lparr>ss_waiters := cv\<rparr>) = P s"
    and P_ctor [simp]: "P shared_state_ctor"
    and P_reset: "P s \<Longrightarrow> P (s\<lparr>ss_ready := False\<rparr>)"
    and P_value: "P s \<Longrightarrow> ok v \<Longrightarrow> P (s\<lparr>ss_value := Some v, ss_ready := True\<rparr>)"
    and P_except: "P s \<Longrightarrow> P (s\<lparr>ss_except := Some e, ss_ready := True\<rparr>)"
begin

lemma keeps_predD: "keeps_pred P f \<Longrightarrow> P s \<Longrightarrow> f s = Some (r, s', x) \<Longrightarrow> P s'"
  by (auto simp: keeps_pred_def)

lemma notify_keeps: "mark_ready_and_notify s w = Some (s', w') \<Longrightarrow> P (s\<lparr>ss_ready := True\<rparr>) \<Longrightarrow> P s'"
  by (auto simp: mark_ready_and_notify_def split: bind_splits)

lemma guarded_keeps:
  assumes "\<And>s w r s' w'. P s \<Longrightarrow> body s w = Some (r, s', w') \<Longrightarrow> P s'"
  shows "keeps_pred P (ss_guarded body k w m)"
  unfolding keeps_pred_def ss_guarded_def ss_unlock_def Let_def
  by (auto split: bind_splits if_splits dest!: assms [rotated])

lemma set_value_keeps: "(\<And>v. cp = Inr v \<Longrightarrow> ok v) \<Longrightarrow> keeps_pred P (shared_state_set_value cp k w m)"
  unfolding shared_state_set_value_def [abs_def]
  by (rule guarded_keeps) (auto simp: ss_set_value_def P_value split: bind_splits if_splits sum.splits dest!: notify_keeps)

lemma set_keeps:
  "keeps_pred P (shared_state_set_exception e k w m)" "keeps_pred P (shared_state_owner_destroyed k w m)"
  unfolding shared_state_set_exception_def [abs_def] shared_state_owner_destroyed_def [abs_def]
  by (rule guarded_keeps, auto simp: ss_set_exception_def ss_owner_destroyed_def P_except
      split: bind_splits if_splits sum.splits dest!: notify_keeps)+

lemma wait_lock_keeps: "keeps_pred P (ss_wait_lock fin k w m)"
  by (auto simp: keeps_pred_def ss_wait_lock_def ss_wait_round_def ss_unlock_def Let_def split: bind_splits if_splits)

lemma wait_keeps:
  "keeps_pred P (shared_state_get k w m)" "keeps_pred P (shared_state_wait k w m)"
  "keeps_pred P (shared_state_wait_until t k w m)" "keeps_pred P (shared_state_wait_for now d k w m)"
  "keeps_pred P (ss_wait_woken fin k w m)"
proof -
  show "keeps_pred P (shared_state_get k w m)" "keeps_pred P (shared_state_wait k w m)"
    unfolding shared_state_get_def [abs_def] shared_state_wait_def [abs_def] by (rule wait_lock_keeps)+
  show "keeps_pred P (shared_state_wait_until t k w m)" "keeps_pred P (shared_state_wait_for now d k w m)"
    by (auto simp: keeps_pred_def shared_state_wait_until_def shared_state_wait_for_def ss_until_round_def ss_unlock_def Let_def
        split: bind_splits if_splits)
  show "keeps_pred P (ss_wait_woken fin k w m)"
    unfolding keeps_pred_def
    by (auto simp: ss_wait_woken_def Let_def split: bind_splits option.splits sum.splits
        dest!: keeps_predD [OF wait_lock_keeps, rotated])
qed

lemma task_run_keeps:
  assumes "\<And>v. r = Inr v \<Longrightarrow> ok v"
  shows "keeps_pred P (task_object_run Inr r k w m)"
proof (cases r)
  case (Inr v)
  with assms set_value_keeps [of "Inr v"] have "keeps_pred P (shared_state_set_value (Inr v) k w m)" by simp
  with Inr show ?thesis
    unfolding keeps_pred_def task_object_run_def
    by (auto split: sum.splits bind_splits turn.splits dest!: keeps_predD [OF set_keeps(1), rotated])
qed (use set_keeps(1) in \<open>simp add: task_object_run_def [abs_def]\<close>)

lemma call_keeps: "st_call f i st = Some (r, st', x) \<Longrightarrow> keeps_pred P f \<Longrightarrow> all_states P st \<Longrightarrow> all_states P st'"
  unfolding st_call_def all_states_def st_set_def
  by (auto split: bind_splits if_splits dest!: keeps_predD [rotated 2])

lemmas calls_keep = call_keeps [OF _ set_keeps(1)] call_keeps [OF _ set_keeps(2)] call_keeps [OF _ wait_keeps(1)]
  call_keeps [OF _ wait_keeps(2)] call_keeps [OF _ wait_keeps(3)] call_keeps [OF _ wait_keeps(4)] call_keeps [OF _ wait_keeps(5)]

lemma ptr_keeps:
  "ptr_drop p st = Some st' \<Longrightarrow> all_states P st \<Longrightarrow> all_states P st'"
  "ptr_copy p st = Some (p', st') \<Longrightarrow> all_states P st \<Longrightarrow> all_states P st'"
  "ptr_new st = Some (p', st') \<Longrightarrow> all_states P st \<Longrightarrow> all_states P st'"
  by (auto simp: ptr_drop_def ptr_copy_def ptr_new_def intrusive_ptr_release_def intrusive_ptr_add_ref_def deallocate_future_def
      all_states_def st_set_def Let_def split: option.splits bind_splits if_splits)

lemma dtor_keeps:
  "promise_dtor k w m st p = Some (t, st', x) \<Longrightarrow> all_states P st \<Longrightarrow> all_states P st'"
  "packaged_task_dtor k w m st q = Some (t, st', x) \<Longrightarrow> all_states P st \<Longrightarrow> all_states P st'"
  by (auto simp: promise_dtor_def packaged_task_dtor_def split: option.splits bind_splits turn.splits
      dest!: calls_keep(2) ptr_keeps(1))

lemma get_keeps:
  "future_get k w m st f = Some (t, tmp, f', st', x) \<Longrightarrow> all_states P st \<Longrightarrow> all_states P st'"
  "future_get_woken k w m st f = Some (t, tmp, f', st', x) \<Longrightarrow> all_states P st \<Longrightarrow> all_states P st'"
  by (auto simp: future_get_def future_get_with_def future_get_woken_def future_get_end_def
      split: option.splits bind_splits turn.splits prod.splits dest!: calls_keep(3,7) ptr_keeps(1))

lemma reset_keeps: "packaged_task_reset st p = Some (r, p', st') \<Longrightarrow> all_states P st \<Longrightarrow> all_states P st'"
  by (auto simp: packaged_task_reset_def shared_state_reset_def all_states_def st_set_def P_reset
      split: option.splits bind_splits if_splits)

lemma values_keep:
  "promise_set_value (Inr v) k w m st p = Some (t, st', x) \<Longrightarrow> ok v \<Longrightarrow> all_states P st \<Longrightarrow> all_states P st'"
  "packaged_task_call Inr (Inr v) k w m st q = Some (t, st', x) \<Longrightarrow> ok v \<Longrightarrow> all_states P st \<Longrightarrow> all_states P st'"
  "packaged_task_call Inr (Inl e) k w m st q = Some (t, st', x) \<Longrightarrow> all_states P st \<Longrightarrow> all_states P st'"
  using call_keeps [OF _ set_value_keeps [of "Inr v" k w m], of _ st t st' x]
    call_keeps [OF _ task_run_keeps [of "Inr v" k w m], of _ st t st' x] call_keeps [OF _ task_run_keeps [of "Inl e" k w m], of _ st t st' x]
  by (auto simp: promise_set_value_def promise_call_def packaged_task_call_def split: option.splits)

lemma exec_call_keeps:
  assumes "exec_call c k w m st = Some (v, st', x)" and "all_states P st" and "\<forall>v \<in> call_values c. ok v"
  shows "all_states P st'"
proof (cases c)
  case (Task_run r p)
  with assms show ?thesis by (cases r) (auto split: bind_splits dest: values_keep(2,3))
next
  case (Promise_set v p)
  with assms show ?thesis by (auto split: bind_splits dest: values_keep(1))
qed (use assms in \<open>auto simp: promise_ctor_def promise_set_exception_def promise_call_def promise_assign_def
      promise_get_future_def future_ctor_ptr_def future_wait_def future_wait_until_def future_wait_for_def future_call_def
      future_dtor_def future_assign_def shared_future_get_def shared_future_wait_def shared_future_wait_until_def
      shared_future_wait_for_def shared_future_copy_ctor_def shared_future_dtor_def shared_future_copy_assign_def
      shared_future_move_assign_def shared_future_assign_future_def packaged_task_ctor_fn_def
      packaged_task_assign_def packaged_task_get_future_def split_def Let_def
      split: bind_splits option.splits if_splits dest!: calls_keep ptr_keeps dtor_keeps get_keeps reset_keeps\<close>)

end

end
