(* ===== verification/Void_Erasure.thy ===== *)
theory Void_Erasure
  imports Void_Future Future_Calls
begin

text \<open>
  The \<^verbatim>\<open>void\<close> versions are the general versions with the values forgotten. The theory defines what
  it means to forget the value of a state and of a store of states, shows for every member function
  that forgetting the value before or after it is the same, and concludes that clients who make the
  same calls on both see the same, up to the values.
\<close>

section \<open>Forgetting the value\<close>

definition erase :: "'v shared_state \<Rightarrow> void_state" where
  "erase s = \<lparr>vs_use_count = ss_use_count s, vs_mtx = ss_mtx s, vs_waiters = ss_waiters s, vs_ready = ss_ready s,
     vs_except = ss_except s\<rparr>"

lemma erase_simps [simp]:
  "vs_use_count (erase s) = ss_use_count s" "vs_mtx (erase s) = ss_mtx s" "vs_waiters (erase s) = ss_waiters s"
  "vs_ready (erase s) = ss_ready s" "vs_except (erase s) = ss_except s"
  by (simp_all add: erase_def)

lemma erase_updates [simp]:
  "(erase s)\<lparr>vs_use_count := n\<rparr> = erase (s\<lparr>ss_use_count := n\<rparr>)" "(erase s)\<lparr>vs_mtx := mx\<rparr> = erase (s\<lparr>ss_mtx := mx\<rparr>)"
  "(erase s)\<lparr>vs_waiters := cv\<rparr> = erase (s\<lparr>ss_waiters := cv\<rparr>)" "(erase s)\<lparr>vs_ready := b\<rparr> = erase (s\<lparr>ss_ready := b\<rparr>)"
  "(erase s)\<lparr>vs_except := x\<rparr> = erase (s\<lparr>ss_except := x\<rparr>)"
  by (simp_all add: erase_def)

lemma erase_value [simp]: "erase (s\<lparr>ss_value := v\<rparr>) = erase s"
  by (simp add: erase_def)

lemma erase_ctor: "void_state_ctor = erase (shared_state_ctor :: 'a shared_state)"
  by (simp add: void_state_ctor_def shared_state_ctor_def erase_def)

text \<open>The outcomes: a result without its value.\<close>

abbreviation forget :: "'v result \<Rightarrow> unit result" where
  "forget \<equiv> map_sum id (\<lambda>_. ())"

lemma erase_dtor: "void_state_dtor (erase s) = shared_state_dtor s"
  by (simp add: void_state_dtor_def shared_state_dtor_def)

lemma erase_notify: "vs_mark_ready_and_notify (erase s) w = map_option (map_prod erase id) (mark_ready_and_notify s w)"
  by (simp add: vs_mark_ready_and_notify_def mark_ready_and_notify_def map_bind split_def)

lemma erase_set_exception: "vs_set_exception e (erase s) w = snd_erased id erase (ss_set_exception e s w)"
  by (simp add: vs_set_exception_def ss_set_exception_def erase_notify map_bind bind_map split_def)

lemma erase_owner_destroyed: "vs_owner_destroyed (erase s) w = snd_erased id erase (ss_owner_destroyed s w)"
  by (simp add: vs_owner_destroyed_def ss_owner_destroyed_def erase_set_exception)

lemma erase_set_value: "vs_set_value (erase s) w = snd_erased id erase (ss_set_value (Inr v) s w)"
  using erase_notify [of "s\<lparr>ss_value := Some v\<rparr>" w]
  by (simp add: vs_set_value_def ss_set_value_def map_bind bind_map split_def)

lemma erase_unlock: "vs_unlock w m (erase s) = map_option (map_prod erase id) (ss_unlock w m s)"
  by (simp add: vs_unlock_def ss_unlock_def map_bind split_def)

lemma erase_guarded:
  assumes "\<And>s w. vbody (erase s) w = snd_erased id erase (body s w)"
  shows "vs_guarded vbody k w m (erase s) = snd_erased id erase (ss_guarded body k w m s)"
  by (simp add: vs_guarded_def ss_guarded_def assms erase_unlock map_bind bind_map split_def Let_def if_distrib
      cong: if_cong)

text \<open>A result that is there has a value or an exception.\<close>

definition full :: "'v shared_state \<Rightarrow> bool" where
  "full s \<longleftrightarrow> (ss_ready s \<longrightarrow> ss_except s = None \<longrightarrow> ss_value s \<noteq> None)"

lemma full_updates [simp]:
  "full (s\<lparr>ss_use_count := n\<rparr>) = full s" "full (s\<lparr>ss_mtx := mx\<rparr>) = full s" "full (s\<lparr>ss_waiters := cv\<rparr>) = full s"
  by (simp_all add: full_def)

lemma erase_result: "full s \<Longrightarrow> ss_ready s \<Longrightarrow> vs_result (erase s) = map_option forget (ss_result s)"
  by (auto simp: vs_result_def ss_result_def full_def split: option.splits)

lemma erase_wait_round:
  assumes "\<And>s. full s \<Longrightarrow> ss_ready s \<Longrightarrow> vfin (erase s) = map_option g (fin s)" and "full s"
  shows "vs_wait_round vfin k w m (erase s) = snd_erased (map_turn g) erase (ss_wait_round fin k w m s)"
  using assms by (simp add: vs_wait_round_def ss_wait_round_def erase_unlock map_bind bind_map split_def)

lemma erase_wait_lock:
  assumes "\<And>s. full s \<Longrightarrow> ss_ready s \<Longrightarrow> vfin (erase s) = map_option g (fin s)" and "full s"
  shows "vs_wait_lock vfin k w m (erase s) = snd_erased (map_turn g) erase (ss_wait_lock fin k w m s)"
  using assms
  by (simp add: vs_wait_lock_def ss_wait_lock_def erase_wait_round map_bind split_def Let_def if_distrib cong: if_cong)

lemma erase_wait_woken:
  assumes "\<And>s. full s \<Longrightarrow> ss_ready s \<Longrightarrow> vfin (erase s) = map_option (map_sum id g) (fin s)" and "full s"
  shows "vs_wait_woken vfin k w m (erase s) = snd_erased (map_turn (map_sum id g)) erase (ss_wait_woken fin k w m s)"
  using assms
  by (auto simp: vs_wait_woken_def ss_wait_woken_def erase_wait_lock map_bind Let_def split: option.splits bind_splits sum.splits)

lemma erase_until_round: "vs_until_round t k w m (erase s) = snd_erased id erase (ss_until_round t k w m s)"
  by (simp add: vs_until_round_def ss_until_round_def erase_unlock map_bind bind_map split_def)

lemma erase_until_status: "vs_until_status st t k w m (erase s) = snd_erased id erase (ss_until_status st t k w m s)"
  by (simp add: vs_until_status_def ss_until_status_def erase_unlock erase_until_round map_bind bind_map split_def)

lemma erase_wait_until:
  "void_state_wait_until t k w m (erase s) = snd_erased id erase (shared_state_wait_until t k w m s)"
  "void_state_wait_for now d k w m (erase s) = snd_erased id erase (shared_state_wait_for now d k w m s)"
  by (simp_all add: void_state_wait_until_def shared_state_wait_until_def void_state_wait_for_def shared_state_wait_for_def
      erase_until_round map_bind split_def Let_def if_distrib cong: if_cong)

lemma erase_until_woken:
  "vs_until_woken now t k w m (erase s) = map_option (map_prod id (map_prod id (map_prod erase id))) (ss_until_woken now t k w m s)"
  by (auto simp: vs_until_woken_def ss_until_woken_def erase_until_status Let_def split: bind_splits sum.splits)

text \<open>No operation leaves a result without value.\<close>

interpretation fl: state_pred full "\<lambda>v. True"
  by unfold_locales (auto simp: full_def shared_state_ctor_def)

section \<open>The store without values\<close>

definition erase_states :: "'v states \<Rightarrow> void_states" where
  "erase_states st = \<lparr>vst_obj = (\<lambda>i. map_option erase (st_obj st i)), vst_fresh = st_fresh st\<rparr>"

lemma erase_states_simps [simp]:
  "vst_obj (erase_states st) i = map_option erase (st_obj st i)" "vst_fresh (erase_states st) = st_fresh st"
  by (simp_all add: erase_states_def)

lemma erase_states_updates [simp]:
  "vst_set i (erase s) (erase_states st) = erase_states (st_set i s st)"
  "(erase_states st)\<lparr>vst_obj := (vst_obj (erase_states st))(i := None)\<rparr> = erase_states (st\<lparr>st_obj := (st_obj st)(i := None)\<rparr>)"
  "(erase_states st)\<lparr>vst_fresh := n\<rparr> = erase_states (st\<lparr>st_fresh := n\<rparr>)"
  by (auto simp: erase_states_def vst_set_def st_set_def)

lemma erase_add_ref: "void_intrusive_ptr_add_ref i (erase_states st) = map_option erase_states (intrusive_ptr_add_ref i st)"
  by (simp add: void_intrusive_ptr_add_ref_def intrusive_ptr_add_ref_def map_bind bind_map)

lemma erase_release: "void_intrusive_ptr_release i (erase_states st) = map_option erase_states (intrusive_ptr_release i st)"
  by (simp add: void_intrusive_ptr_release_def intrusive_ptr_release_def void_deallocate_future_def deallocate_future_def
      erase_dtor map_bind bind_map Let_def if_distrib cong: if_cong)

lemma erase_copy: "vptr_copy p (erase_states st) = map_option (map_prod id erase_states) (ptr_copy p st)"
  by (cases p) (simp_all add: vptr_copy_def ptr_copy_def erase_add_ref map_bind bind_map)

lemma erase_drop: "vptr_drop p (erase_states st) = map_option erase_states (ptr_drop p st)"
  by (cases p) (simp_all add: vptr_drop_def ptr_drop_def erase_release)

lemma erase_new: "vptr_new (erase_states (st :: 'v states)) = map_option (map_prod id erase_states) (ptr_new st)"
proof -
  have "vst_set i void_state_ctor (erase_states st) = erase_states (st_set i shared_state_ctor st)" for i
    unfolding erase_ctor [where 'a = 'v] by simp
  then show ?thesis by (simp add: vptr_new_def ptr_new_def erase_add_ref map_bind bind_map Let_def)
qed

lemma erase_call:
  assumes "\<And>s. full s \<Longrightarrow> vf (erase s) = snd_erased g erase (f s)" and "all_states full st"
  shows "vst_call vf i (erase_states st) = snd_erased g erase_states (st_call f i st)"
  using assms by (cases "st_obj st i") (auto simp: vst_call_def st_call_def all_states_def map_bind bind_map split_def)

section \<open>Calls\<close>

fun exec_void_call ::
  "unit call \<Rightarrow> mfid \<Rightarrow> world \<Rightarrow> 's fiber_manager \<Rightarrow> void_states \<Rightarrow> (unit seen \<times> void_states \<times> world \<times> 's fiber_manager) option" where
  "exec_void_call Promise_new k w m st = do { (p, st') \<leftarrow> void_promise_ctor st; Some (Saw_promise (Done (Inr ())) [p], st', w, m) }"
| "exec_void_call (Promise_set v p) k w m st = do { (t, x) \<leftarrow> void_promise_set_value k w m st p; Some (Saw_end t, x) }"
| "exec_void_call (Promise_throw e p) k w m st = do { (t, x) \<leftarrow> void_promise_set_exception e k w m st p; Some (Saw_end t, x) }"
| "exec_void_call (Promise_drop p) k w m st = do { (t, x) \<leftarrow> void_promise_dtor k w m st p; Some (Saw_end t, x) }"
| "exec_void_call (Promise_assign p q) k w m st = do {
     (t, p', q', x) \<leftarrow> void_promise_assign k w m st p q; Some (Saw_promise t [p', q'], x) }"
| "exec_void_call (Promise_future p) k w m st = do {
     (f, p', st') \<leftarrow> void_promise_get_future st p; Some (Saw_future f p', st', w, m) }"
| "exec_void_call (Get f) k w m st = do { (t, tmp, f', x) \<leftarrow> void_future_get k w m st f; Some (Saw_value t tmp, x) }"
| "exec_void_call (Get_woken tmp) k w m st = do { (t, tmp', f', x) \<leftarrow> void_future_get_woken k w m st tmp; Some (Saw_value t tmp', x) }"
| "exec_void_call (Wait f) k w m st = do { (t, x) \<leftarrow> void_future_wait k w m st f; Some (Saw_end t, x) }"
| "exec_void_call (Wait_until tp f) k w m st = do { (t, x) \<leftarrow> void_future_wait_until tp k w m st f; Some (Saw_status t, x) }"
| "exec_void_call (Wait_for now d f) k w m st = do { (t, x) \<leftarrow> void_future_wait_for now d k w m st f; Some (Saw_status t, x) }"
| "exec_void_call (Future_drop f) k w m st = do { st' \<leftarrow> void_future_dtor f st; Some (Saw_handles [], st', w, m) }"
| "exec_void_call (Future_assign f g) k w m st = do { (f', g', st') \<leftarrow> void_future_assign f g st; Some (Saw_handles [f', g'], st', w, m) }"
| "exec_void_call (Shared_get f) k w m st = do { (t, x) \<leftarrow> void_shared_future_get k w m st f; Some (Saw_value t f, x) }"
| "exec_void_call (Shared_wait f) k w m st = do { (t, x) \<leftarrow> void_shared_future_wait k w m st f; Some (Saw_end t, x) }"
| "exec_void_call (Shared_wait_until tp f) k w m st = do {
     (t, x) \<leftarrow> void_shared_future_wait_until tp k w m st f; Some (Saw_status t, x) }"
| "exec_void_call (Shared_wait_for now d f) k w m st = do {
     (t, x) \<leftarrow> void_shared_future_wait_for now d k w m st f; Some (Saw_status t, x) }"
| "exec_void_call (Shared_copy f) k w m st = do { (g, st') \<leftarrow> void_shared_future_copy_ctor f st; Some (Saw_handles [g], st', w, m) }"
| "exec_void_call (Shared_drop f) k w m st = do { st' \<leftarrow> void_shared_future_dtor f st; Some (Saw_handles [], st', w, m) }"
| "exec_void_call (Shared_assign f g) k w m st = do {
     (f', st') \<leftarrow> void_shared_future_copy_assign f g st; Some (Saw_handles [f', g], st', w, m) }"
| "exec_void_call (Shared_move f g) k w m st = do {
     (f', g', st') \<leftarrow> void_shared_future_move_assign f g st; Some (Saw_handles [f', g'], st', w, m) }"
| "exec_void_call (Shared_take f g) k w m st = do {
     (f', g', st') \<leftarrow> void_shared_future_assign_future f g st; Some (Saw_handles [f', g'], st', w, m) }"
| "exec_void_call Task_new k w m st = do { (p, st') \<leftarrow> void_task_ctor_fn st; Some (Saw_task (Done (Inr ())) [p], st', w, m) }"
| "exec_void_call (Task_run r p) k w m st = do { (t, x) \<leftarrow> void_task_call r k w m st p; Some (Saw_end t, x) }"
| "exec_void_call (Task_drop p) k w m st = do { (t, x) \<leftarrow> void_task_dtor k w m st p; Some (Saw_end t, x) }"
| "exec_void_call (Task_assign p q) k w m st = do {
     (t, p', q', x) \<leftarrow> void_task_assign k w m st p q; Some (Saw_task t [p', q'], x) }"
| "exec_void_call (Task_future p) k w m st = do {
     (f, p', st') \<leftarrow> void_task_get_future st p; Some (Saw_task_future f p', st', w, m) }"
| "exec_void_call (Task_reset p) k w m st = do { (r, p', st') \<leftarrow> void_task_reset st p; Some (Saw_task (Done r) [p'], st', w, m) }"

section \<open>The calls agree\<close>

lemma erase_state_set:
  "void_state_set_value k w m (erase s) = snd_erased id erase (shared_state_set_value (Inr v) k w m s)"
  "void_state_set_exception e k w m (erase s) = snd_erased id erase (shared_state_set_exception e k w m s)"
  "void_state_owner_destroyed k w m (erase s) = snd_erased id erase (shared_state_owner_destroyed k w m s)"
  unfolding void_state_set_value_def shared_state_set_value_def void_state_set_exception_def shared_state_set_exception_def
    void_state_owner_destroyed_def shared_state_owner_destroyed_def
  by (rule erase_guarded, rule erase_set_value erase_set_exception erase_owner_destroyed)+

lemma erase_state_get:
  assumes "full s"
  shows "void_state_get k w m (erase s) = snd_erased (map_turn forget) erase (shared_state_get k w m s)"
    "vs_wait_woken vs_result k w m (erase s) = snd_erased (map_turn forget) erase (ss_wait_woken ss_result k w m s)"
    "void_state_wait k w m (erase s) = snd_erased id erase (shared_state_wait k w m s)"
  unfolding void_state_get_def shared_state_get_def void_state_wait_def shared_state_wait_def
proof -
  show "vs_wait_lock vs_result k w m (erase s) = snd_erased (map_turn forget) erase (ss_wait_lock ss_result k w m s)"
    by (rule erase_wait_lock [OF _ assms]) (rule erase_result)
  show "vs_wait_woken vs_result k w m (erase s) = snd_erased (map_turn forget) erase (ss_wait_woken ss_result k w m s)"
    by (rule erase_wait_woken [OF _ assms]) (rule erase_result)
  show "vs_wait_lock (\<lambda>s. Some (Inr ())) k w m (erase s) = snd_erased id erase (ss_wait_lock (\<lambda>s. Some (Inr ())) k w m s)"
    using erase_wait_lock [of "\<lambda>s. Some (Inr ())" id "\<lambda>s. Some (Inr ())" s k w m] assms by (simp add: turn.map_id0)
qed

lemma erase_task_run: "task_void_run (forget r) k w m (erase s) = snd_erased id erase (task_object_run Inr r k w m s)"
proof (cases r)
  case (Inr v)
  show ?thesis
    by (auto simp: Inr task_void_run_def task_object_run_def erase_state_set(2) erase_state_set(1) [of k w m s v]
        split: turn.splits sum.splits bind_splits)
qed (simp add: task_void_run_def task_object_run_def erase_state_set(2))

text \<open>The member functions of the state, called through a pointer.\<close>

lemma erase_calls:
  assumes "all_states full st"
  shows "vst_call (void_state_set_value k w m) i (erase_states st) =
      snd_erased id erase_states (st_call (shared_state_set_value (Inr v) k w m) i st)"
    "vst_call (void_state_set_exception e k w m) i (erase_states st) =
      snd_erased id erase_states (st_call (shared_state_set_exception e k w m) i st)"
    "vst_call (void_state_owner_destroyed k w m) i (erase_states st) =
      snd_erased id erase_states (st_call (shared_state_owner_destroyed k w m) i st)"
    "vst_call (task_void_run (forget r) k w m) i (erase_states st) =
      snd_erased id erase_states (st_call (task_object_run Inr r k w m) i st)"
    "vst_call (void_state_wait k w m) i (erase_states st) = snd_erased id erase_states (st_call (shared_state_wait k w m) i st)"
    "vst_call (void_state_wait_until t k w m) i (erase_states st) =
      snd_erased id erase_states (st_call (shared_state_wait_until t k w m) i st)"
    "vst_call (void_state_wait_for now d k w m) i (erase_states st) =
      snd_erased id erase_states (st_call (shared_state_wait_for now d k w m) i st)"
    "vst_call (void_state_get k w m) i (erase_states st) =
      snd_erased (map_turn forget) erase_states (st_call (shared_state_get k w m) i st)"
    "vst_call (vs_wait_woken vs_result k w m) i (erase_states st) =
      snd_erased (map_turn forget) erase_states (st_call (ss_wait_woken ss_result k w m) i st)"
  by (rule erase_call [OF _ assms], rule erase_state_set erase_task_run erase_state_get erase_wait_until, assumption?)+

text \<open>Promises.\<close>

lemma sim_promise:
  assumes "all_states full st"
  shows "void_promise_ctor (erase_states st) = map_option (map_prod id erase_states) (promise_ctor st)"
    "void_promise_set_value k w m (erase_states st) p = snd_erased id erase_states (promise_set_value (Inr v) k w m st p)"
    "void_promise_set_exception e k w m (erase_states st) p = snd_erased id erase_states (promise_set_exception e k w m st p)"
    "void_promise_get_future (erase_states st) p =
       map_option (map_prod id (map_prod id erase_states)) (promise_get_future st p)"
proof -
  show "void_promise_set_value k w m (erase_states st) p = snd_erased id erase_states (promise_set_value (Inr v) k w m st p)"
    "void_promise_set_exception e k w m (erase_states st) p = snd_erased id erase_states (promise_set_exception e k w m st p)"
    by (auto simp: erase_calls(1) [OF assms, where v = v] erase_calls(2) [OF assms] void_promise_set_value_def promise_set_value_def void_promise_set_exception_def promise_set_exception_def
        void_promise_call_def promise_call_def split: option.splits)
qed (simp_all add: void_promise_ctor_def promise_ctor_def erase_new void_promise_get_future_def promise_get_future_def
      void_future_ctor_ptr_def future_ctor_ptr_def erase_copy map_bind bind_map split_def Let_def)

lemma sim_promise_dtor:
  assumes "all_states full st"
  shows "void_promise_dtor k w m (erase_states st) p = snd_erased id erase_states (promise_dtor k w m st p)"
  by (auto simp: erase_calls(3) [OF assms] void_promise_dtor_def promise_dtor_def erase_drop split: option.splits turn.splits bind_splits)

text \<open>Tasks.\<close>

lemma sim_task:
  assumes "all_states full st"
  shows "void_task_ctor_fn (erase_states st) = map_option (map_prod id erase_states) (packaged_task_ctor_fn st)"
    "void_task_call (forget r) k w m (erase_states st) p = snd_erased id erase_states (packaged_task_call Inr r k w m st p)"
    "void_task_dtor k w m (erase_states st) p = snd_erased id erase_states (packaged_task_dtor k w m st p)"
    "void_task_get_future (erase_states st) p =
       map_option (map_prod id (map_prod id erase_states)) (packaged_task_get_future st p)"
    "void_task_reset (erase_states st) p = map_option (map_prod id (map_prod id erase_states)) (packaged_task_reset st p)"
proof -
  show "void_task_call (forget r) k w m (erase_states st) p = snd_erased id erase_states (packaged_task_call Inr r k w m st p)"
    by (auto simp: erase_calls(4) [OF assms] void_task_call_def packaged_task_call_def split: option.splits)
  show "void_task_dtor k w m (erase_states st) p = snd_erased id erase_states (packaged_task_dtor k w m st p)"
    by (auto simp: erase_calls(3) [OF assms] void_task_dtor_def packaged_task_dtor_def erase_drop split: option.splits turn.splits bind_splits)
  show "void_task_reset (erase_states st) p = map_option (map_prod id (map_prod id erase_states)) (packaged_task_reset st p)"
    by (auto simp: void_task_reset_def packaged_task_reset_def void_state_reset_def shared_state_reset_def map_bind bind_map
        split: option.splits)
qed (simp_all add: void_task_ctor_fn_def packaged_task_ctor_fn_def erase_new void_task_get_future_def packaged_task_get_future_def
      void_task_valid_def packaged_task_valid_def void_future_ctor_ptr_def future_ctor_ptr_def erase_copy map_bind bind_map
      split_def Let_def)

text \<open>Futures and shared futures.\<close>

lemma sim_future_get:
  assumes "all_states full st"
  shows "void_future_get k w m (erase_states st) f =
      map_option (map_prod (map_turn forget) (map_prod id (map_prod id (map_prod erase_states id)))) (future_get k w m st f)"
    "void_future_get_woken k w m (erase_states st) f =
      map_option (map_prod (map_turn forget) (map_prod id (map_prod id (map_prod erase_states id)))) (future_get_woken k w m st f)"
proof -
  have e: "void_future_get_end p (map_prod (map_turn forget) (map_prod erase_states id) x) =
      map_option (map_prod (map_turn forget) (map_prod id (map_prod id (map_prod erase_states id)))) (future_get_end p x)"
    for p and x :: "'a result turn \<times> 'a states \<times> world \<times> 'b fiber_manager"
    by (auto simp: void_future_get_end_def future_get_end_def erase_drop map_bind bind_map split: turn.splits prod.splits)
  show "void_future_get k w m (erase_states st) f =
      map_option (map_prod (map_turn forget) (map_prod id (map_prod id (map_prod erase_states id)))) (future_get k w m st f)"
    by (cases f) (auto simp: erase_calls(8) [OF assms] void_future_get_def future_get_def void_future_get_with_def future_get_with_def e map_bind bind_map)
  show "void_future_get_woken k w m (erase_states st) f =
      map_option (map_prod (map_turn forget) (map_prod id (map_prod id (map_prod erase_states id)))) (future_get_woken k w m st f)"
    by (cases f) (auto simp: erase_calls(9) [OF assms] void_future_get_woken_def future_get_woken_def e map_bind bind_map)
qed

lemma sim_future_wait:
  assumes "all_states full st"
  shows "void_future_wait k w m (erase_states st) f = snd_erased id erase_states (future_wait k w m st f)"
    "void_future_wait_until t k w m (erase_states st) f = snd_erased id erase_states (future_wait_until t k w m st f)"
    "void_future_wait_for now d k w m (erase_states st) f = snd_erased id erase_states (future_wait_for now d k w m st f)"
    "void_shared_future_wait k w m (erase_states st) f = snd_erased id erase_states (shared_future_wait k w m st f)"
    "void_shared_future_wait_until t k w m (erase_states st) f =
       snd_erased id erase_states (shared_future_wait_until t k w m st f)"
    "void_shared_future_wait_for now d k w m (erase_states st) f =
       snd_erased id erase_states (shared_future_wait_for now d k w m st f)"
    "void_shared_future_get k w m (erase_states st) f =
       snd_erased (map_turn forget) erase_states (shared_future_get k w m st f)"
  by (cases f; simp add: erase_calls(5-8) [OF assms] void_future_wait_def future_wait_def void_future_wait_until_def future_wait_until_def
      void_future_wait_for_def future_wait_for_def void_shared_future_wait_def shared_future_wait_def
      void_shared_future_wait_until_def shared_future_wait_until_def void_shared_future_wait_for_def
      shared_future_wait_for_def void_shared_future_get_def shared_future_get_def void_future_call_def future_call_def)+

lemma sim_handles:
  "void_future_dtor f (erase_states st) = map_option erase_states (future_dtor f st)"
  "void_future_assign f g (erase_states st) = map_option (map_prod id (map_prod id erase_states)) (future_assign f g st)"
  "void_shared_future_dtor f (erase_states st) = map_option erase_states (shared_future_dtor f st)"
  "void_shared_future_copy_ctor f (erase_states st) = map_option (map_prod id erase_states) (shared_future_copy_ctor f st)"
  "void_shared_future_copy_assign f g (erase_states st) = map_option (map_prod id erase_states) (shared_future_copy_assign f g st)"
  "void_shared_future_move_assign f g (erase_states st) =
     map_option (map_prod id (map_prod id erase_states)) (shared_future_move_assign f g st)"
  "void_shared_future_assign_future f g (erase_states st) =
     map_option (map_prod id (map_prod id erase_states)) (shared_future_assign_future f g st)"
  by (simp_all add: void_future_dtor_def future_dtor_def void_future_assign_def future_assign_def void_future_move_ctor_def
      future_move_ctor_def void_future_swap_def future_swap_def void_shared_future_dtor_def shared_future_dtor_def
      void_shared_future_copy_ctor_def shared_future_copy_ctor_def void_shared_future_copy_assign_def
      shared_future_copy_assign_def void_shared_future_move_assign_def shared_future_move_assign_def
      void_shared_future_move_ctor_def shared_future_move_ctor_def void_shared_future_swap_def shared_future_swap_def
      void_shared_future_assign_future_def shared_future_assign_future_def void_shared_future_ctor_future_def
      shared_future_ctor_future_def erase_drop erase_copy map_bind bind_map split_def)

lemma sim_assign:
  assumes "all_states full st"
  shows "void_promise_assign k w m (erase_states st) p q =
      map_option (map_prod id (map_prod id (map_prod id (map_prod erase_states id)))) (promise_assign k w m st p q)"
    "void_task_assign k w m (erase_states st) x y =
      map_option (map_prod id (map_prod id (map_prod id (map_prod erase_states id)))) (packaged_task_assign k w m st x y)"
  by (simp_all add: void_promise_assign_def promise_assign_def void_promise_move_ctor_def promise_move_ctor_def
      void_promise_swap_def promise_swap_def sim_promise_dtor [OF assms] void_task_assign_def packaged_task_assign_def
      void_task_move_ctor_def packaged_task_move_ctor_def void_task_swap_def packaged_task_swap_def void_task_ctor_def
      packaged_task_ctor_def sim_task(3) [OF assms] map_bind bind_map split_def)

lemma exec_call_erase:
  assumes "all_states full st"
  shows "exec_void_call (map_call (\<lambda>_. ()) c) k w m (erase_states st) =
    snd_erased (map_seen (\<lambda>_. ())) erase_states (exec_call c k w m st)"
  using assms
  by (cases c) (simp_all add: sim_promise(1,3,4) sim_promise(2) [where v = "case c of Promise_set v p \<Rightarrow> v"] sim_promise_dtor
      sim_task sim_future_get sim_future_wait sim_handles sim_assign map_bind bind_map split_def)

section \<open>Runs\<close>

fun run_void_calls ::
  "(unit call \<times> mfid \<times> world \<times> 's fiber_manager) list \<Rightarrow> void_states \<Rightarrow>
   ((unit seen \<times> world \<times> 's fiber_manager) list \<times> void_states) option" where
  "run_void_calls [] st = Some ([], st)"
| "run_void_calls ((c, k, w, m) # cs) st = do {
     (v, st1, x) \<leftarrow> exec_void_call c k w m st;
     (vs, st2) \<leftarrow> run_void_calls cs st1;
     Some ((v, x) # vs, st2) }"

lemma run_calls_erase:
  "all_states full st \<Longrightarrow> run_void_calls (map (map_prod (map_call (\<lambda>_. ())) id) cs) (erase_states st) =
     map_option (map_prod (map (map_prod (map_seen (\<lambda>_. ())) id)) erase_states) (run_calls cs st)"
proof (induction cs st rule: run_calls.induct)
  case (2 c k w m cs st)
  show ?case
  proof (cases "exec_call c k w m st")
    case (Some y)
    obtain v st1 x where y: "y = (v, st1, x)" by (cases y)
    with fl.exec_call_keeps [of c k w m st] Some 2(2) have "all_states full st1" by auto
    from 2(1) [OF Some [unfolded y] refl refl this] Some y 2(2) show ?thesis
      by (simp add: exec_call_erase map_bind bind_map split_def)
  qed (use 2(2) in \<open>simp add: exec_call_erase\<close>)
qed simp

definition void_states_init :: void_states where
  "void_states_init = \<lparr>vst_obj = (\<lambda>_. None), vst_fresh = 0\<rparr>"

text \<open>
  C33: futures, promises and tasks of \<^verbatim>\<open>void\<close> behave as those of any other type with the values
  forgotten. Whatever sequence of calls clients make, from whatever worlds, one run fails if and only
  if the other does; every call ends in the same way, leaves the same handles, world and scheduler;
  and the states agree in everything but the value.
\<close>

theorem void_versions_forget_values:
  "run_void_calls (map (map_prod (map_call (\<lambda>_. ())) id) cs) void_states_init =
   map_option (map_prod (map (map_prod (map_seen (\<lambda>_. ())) id)) erase_states)
     (run_calls cs (states_init :: 'v states))"
proof -
  have "void_states_init = erase_states (states_init :: 'v states)"
    by (simp add: void_states_init_def erase_states_def states_init_def)
  moreover have "all_states full (states_init :: 'v states)" by (simp add: all_states_def states_init_def)
  ultimately show ?thesis using run_calls_erase by metis
qed

text \<open>The functions that only look at handles, and the \<^verbatim>\<open>void\<close> functions of \<open>Shared_State\<close>.\<close>

lemma void_handles_same:
  "void_future_ctor = future_ctor" "void_future_valid = future_valid" "void_shared_future_valid = shared_future_valid"
  "void_promise_valid = promise_valid" "void_task_valid = packaged_task_valid" "void_future_share = future_share"
  by (auto simp: void_future_ctor_def future_ctor_def void_future_valid_def future_valid_def void_shared_future_valid_def
      shared_future_valid_def void_promise_valid_def promise_valid_def void_task_valid_def packaged_task_valid_def
      void_future_share_def future_share_def void_shared_future_ctor_future_def shared_future_ctor_future_def)

lemma erase_void_functions:
  "vs_set_value (erase s) w = snd_erased id erase (ss_void_set_value s w)" "vs_result (erase s) = ss_void_result s"
  "vs_for_status cst now d k w m (erase s) = snd_erased id erase (ss_for_status cst now d k w m s)"
  by (simp_all add: vs_set_value_def ss_void_set_value_def erase_notify vs_result_def ss_void_result_def vs_for_status_def
      ss_for_status_def erase_until_status map_bind bind_map split_def)

end
