(* ===== verification/Ref_Future.thy ===== *)
theory Ref_Future
  imports Packaged_Task
begin

text \<open>
  The versions of the classes in the directory \<^verbatim>\<open>future\<close> for references: \<^verbatim>\<open>shared_state< R & >\<close>,
  \<^verbatim>\<open>future< R & >\<close>, \<^verbatim>\<open>shared_future< R & >\<close>, \<^verbatim>\<open>promise< R & >\<close>, and tasks whose function returns a
  reference. The sources write them out a second time, over a state that keeps the address of the
  object, null as long as there is none.
\<close>

section \<open>The state\<close>

text \<open>The address of an object of the user's; \<open>None\<close> is the null pointer.\<close>

type_synonym addr = nat

record ref_state =
  rs_use_count :: size_t
  rs_mtx :: mutex
  rs_waiters :: condition
  rs_ready :: bool
  rs_value :: "addr option"
  rs_except :: "exn option"

definition ref_state_ctor :: ref_state where
  "ref_state_ctor =
     \<lparr>rs_use_count = 0, rs_mtx = mutex_init, rs_waiters = condition_init, rs_ready = False, rs_value = None,
      rs_except = None\<rparr>"

definition ref_state_dtor :: "ref_state \<Rightarrow> unit option" where
  "ref_state_dtor s = do {
     condition_dtor (rs_waiters s);
     mutex_dtor (rs_mtx s) }"

text \<open>
  The private functions, called with the mutex held. \<^verbatim>\<open>set_value_\<close> stores the address of the
  object; nothing is copied, so nothing can throw. Reading through the null pointer is undefined.
\<close>

definition rs_mark_ready_and_notify :: "ref_state \<Rightarrow> world \<Rightarrow> (ref_state \<times> world) option" where
  "rs_mark_ready_and_notify s w = do {
     let s1 = s\<lparr>rs_ready := True\<rparr>;
     (cv, w') \<leftarrow> condition_notify_all (rs_waiters s1) w;
     Some (s1\<lparr>rs_waiters := cv\<rparr>, w') }"

definition rs_set_exception ::
  "exn \<Rightarrow> ref_state \<Rightarrow> world \<Rightarrow> (unit result \<times> ref_state \<times> world) option" where
  "rs_set_exception except s w =
     (if rs_ready s then Some (Inl promise_already_satisfied, s, w)
      else do {
        (s', w') \<leftarrow> rs_mark_ready_and_notify (s\<lparr>rs_except := Some except\<rparr>) w;
        Some (Inr (), s', w') })"

definition rs_owner_destroyed ::
  "ref_state \<Rightarrow> world \<Rightarrow> (unit result \<times> ref_state \<times> world) option" where
  "rs_owner_destroyed s w =
     (if \<not> rs_ready s then rs_set_exception broken_promise s w else Some (Inr (), s, w))"

definition rs_set_value ::
  "addr \<Rightarrow> ref_state \<Rightarrow> world \<Rightarrow> (unit result \<times> ref_state \<times> world) option" where
  "rs_set_value value s w =
     (if rs_ready s then Some (Inl promise_already_satisfied, s, w)
      else do {
        (s', w') \<leftarrow> rs_mark_ready_and_notify (s\<lparr>rs_value := Some value\<rparr>) w;
        Some (Inr (), s', w') })"

definition rs_result :: "ref_state \<Rightarrow> addr result option" where
  "rs_result s = (case rs_except s of Some e \<Rightarrow> Some (Inl e) | None \<Rightarrow> do { v \<leftarrow> rs_value s; Some (Inr v) })"

text \<open>The lock around a call.\<close>

definition rs_unlock :: "world \<Rightarrow> 's fiber_manager \<Rightarrow> ref_state \<Rightarrow> (ref_state \<times> world) option" where
  "rs_unlock w m s = do {
     (mx, w') \<leftarrow> mutex_unlock w m (rs_mtx s);
     Some (s\<lparr>rs_mtx := mx\<rparr>, w') }"

definition rs_guarded ::
  "(ref_state \<Rightarrow> world \<Rightarrow> ('r \<times> ref_state \<times> world) option) \<Rightarrow>
   mfid \<Rightarrow> world \<Rightarrow> 's fiber_manager \<Rightarrow> ref_state \<Rightarrow>
   ('r turn \<times> ref_state \<times> world \<times> 's fiber_manager) option" where
  "rs_guarded body k w m s = do {
     (got, mx, w1, m1) \<leftarrow> ctx_lock k w m (rs_mtx s);
     let s1 = s\<lparr>rs_mtx := mx\<rparr>;
     if got then do {
       (r, s2, w2) \<leftarrow> body s1 w1;
       (s3, w3) \<leftarrow> rs_unlock w2 m1 s2;
       Some (Done r, s3, w3, m1) }
     else Some (In_line, s1, w1, m1) }"

definition ref_state_owner_destroyed ::
  "mfid \<Rightarrow> world \<Rightarrow> 's fiber_manager \<Rightarrow> ref_state \<Rightarrow>
   (unit result turn \<times> ref_state \<times> world \<times> 's fiber_manager) option" where
  "ref_state_owner_destroyed k w m s = rs_guarded rs_owner_destroyed k w m s"

definition ref_state_set_value ::
  "addr \<Rightarrow> mfid \<Rightarrow> world \<Rightarrow> 's fiber_manager \<Rightarrow> ref_state \<Rightarrow>
   (unit result turn \<times> ref_state \<times> world \<times> 's fiber_manager) option" where
  "ref_state_set_value value k w m s = rs_guarded (rs_set_value value) k w m s"

definition ref_state_set_exception ::
  "exn \<Rightarrow> mfid \<Rightarrow> world \<Rightarrow> 's fiber_manager \<Rightarrow> ref_state \<Rightarrow>
   (unit result turn \<times> ref_state \<times> world \<times> 's fiber_manager) option" where
  "ref_state_set_exception except k w m s = rs_guarded (rs_set_exception except) k w m s"

definition ref_state_reset :: "ref_state \<Rightarrow> ref_state" where
  "ref_state_reset s = s\<lparr>rs_ready := False\<rparr>"

text \<open>Waiting: one round of the loop, taking the mutex, going on after having slept.\<close>

definition rs_wait_round ::
  "(ref_state \<Rightarrow> 'r result option) \<Rightarrow> mfid \<Rightarrow> world \<Rightarrow> 's fiber_manager \<Rightarrow> ref_state \<Rightarrow>
   ('r result turn \<times> ref_state \<times> world \<times> 's fiber_manager) option" where
  "rs_wait_round fin k w m s =
     (if rs_ready s then do {
        r \<leftarrow> fin s;
        (s', w') \<leftarrow> rs_unlock w m s;
        Some (Done r, s', w', m) }
      else do {
        (mx, cv, w', m') \<leftarrow> ctx_wait_enter k (rs_mtx s) w m (rs_waiters s);
        Some (Asleep, s\<lparr>rs_mtx := mx, rs_waiters := cv\<rparr>, w', m') })"

definition rs_wait_lock ::
  "(ref_state \<Rightarrow> 'r result option) \<Rightarrow> mfid \<Rightarrow> world \<Rightarrow> 's fiber_manager \<Rightarrow> ref_state \<Rightarrow>
   ('r result turn \<times> ref_state \<times> world \<times> 's fiber_manager) option" where
  "rs_wait_lock fin k w m s = do {
     (got, mx, w1, m1) \<leftarrow> ctx_lock k w m (rs_mtx s);
     let s1 = s\<lparr>rs_mtx := mx\<rparr>;
     if got then rs_wait_round fin k w1 m1 s1 else Some (In_line, s1, w1, m1) }"

definition rs_wait_woken ::
  "(ref_state \<Rightarrow> 'r result option) \<Rightarrow> mfid \<Rightarrow> world \<Rightarrow> 's fiber_manager \<Rightarrow> ref_state \<Rightarrow>
   ('r result turn \<times> ref_state \<times> world \<times> 's fiber_manager) option" where
  "rs_wait_woken fin k w m s =
     (case fm_active m of
        Some a \<Rightarrow> do {
          (r, cv, w1) \<leftarrow> condition_wait_resumed w m (rs_waiters s);
          let s1 = s\<lparr>rs_waiters := cv\<rparr>;
          case r of
            Inl e \<Rightarrow> Some (Done (Inl e), s1, w1, m)
          | Inr u \<Rightarrow> rs_wait_lock fin k w1 m s1 }
      | None \<Rightarrow> rs_wait_lock fin k w m s)"

definition ref_state_get ::
  "mfid \<Rightarrow> world \<Rightarrow> 's fiber_manager \<Rightarrow> ref_state \<Rightarrow>
   (addr result turn \<times> ref_state \<times> world \<times> 's fiber_manager) option" where
  "ref_state_get k w m s = rs_wait_lock rs_result k w m s"

definition ref_state_wait ::
  "mfid \<Rightarrow> world \<Rightarrow> 's fiber_manager \<Rightarrow> ref_state \<Rightarrow>
   (unit result turn \<times> ref_state \<times> world \<times> 's fiber_manager) option" where
  "ref_state_wait k w m s = rs_wait_lock (\<lambda>s. Some (Inr ())) k w m s"

text \<open>Waiting with a deadline.\<close>

definition rs_until_round ::
  "time_point \<Rightarrow> mfid \<Rightarrow> world \<Rightarrow> 's fiber_manager \<Rightarrow> ref_state \<Rightarrow>
   (future_status result turn \<times> ref_state \<times> world \<times> 's fiber_manager) option" where
  "rs_until_round t k w m s =
     (if rs_ready s then do {
        (s', w') \<leftarrow> rs_unlock w m s;
        Some (Done (Inr future_ready), s', w', m) }
      else do {
        (mx, cv, w', m') \<leftarrow> ctx_wait_until_enter k (rs_mtx s) t w m (rs_waiters s);
        Some (Asleep, s\<lparr>rs_mtx := mx, rs_waiters := cv\<rparr>, w', m') })"

definition rs_until_status ::
  "cv_status \<Rightarrow> time_point \<Rightarrow> mfid \<Rightarrow> world \<Rightarrow> 's fiber_manager \<Rightarrow> ref_state \<Rightarrow>
   (future_status result turn \<times> ref_state \<times> world \<times> 's fiber_manager) option" where
  "rs_until_status st t k w m s =
     (if timeout = st \<and> \<not> rs_ready s then do {
        (s', w') \<leftarrow> rs_unlock w m s;
        Some (Done (Inr future_timeout), s', w', m) }
      else rs_until_round t k w m s)"

definition rs_until_woken ::
  "time_point \<Rightarrow> time_point \<Rightarrow> mfid \<Rightarrow> world \<Rightarrow> 's fiber_manager \<Rightarrow> ref_state \<Rightarrow>
   (cv_status option \<times> future_status result turn \<times> ref_state \<times> world \<times> 's fiber_manager) option" where
  "rs_until_woken now t k w m s = do {
     (r, cv, w1) \<leftarrow> condition_wait_until_resumed now t w m (rs_waiters s);
     let s1 = s\<lparr>rs_waiters := cv\<rparr>;
     case r of
       Inl e \<Rightarrow> Some (None, Done (Inl e), s1, w1, m)
     | Inr st \<Rightarrow> do {
         (got, mx, w2, m2) \<leftarrow> ctx_lock k w1 m (rs_mtx s1);
         let s2 = s1\<lparr>rs_mtx := mx\<rparr>;
         if got then do { (r', s3, w3, m3) \<leftarrow> rs_until_status st t k w2 m2 s2; Some (Some st, r', s3, w3, m3) }
         else Some (Some st, In_line, s2, w2, m2) } }"

definition ref_state_wait_until ::
  "time_point \<Rightarrow> mfid \<Rightarrow> world \<Rightarrow> 's fiber_manager \<Rightarrow> ref_state \<Rightarrow>
   (future_status result turn \<times> ref_state \<times> world \<times> 's fiber_manager) option" where
  "ref_state_wait_until t k w m s = do {
     (got, mx, w1, m1) \<leftarrow> ctx_lock k w m (rs_mtx s);
     let s1 = s\<lparr>rs_mtx := mx\<rparr>;
     if got then rs_until_round t k w1 m1 s1 else Some (In_line, s1, w1, m1) }"

definition ref_state_wait_for ::
  "time_point \<Rightarrow> duration \<Rightarrow> mfid \<Rightarrow> world \<Rightarrow> 's fiber_manager \<Rightarrow> ref_state \<Rightarrow>
   (future_status result turn \<times> ref_state \<times> world \<times> 's fiber_manager) option" where
  "ref_state_wait_for now d k w m s = do {
     (got, mx, w1, m1) \<leftarrow> ctx_lock k w m (rs_mtx s);
     let s1 = s\<lparr>rs_mtx := mx\<rparr>;
     if got then rs_until_round (now + d) k w1 m1 s1 else Some (In_line, s1, w1, m1) }"

definition rs_for_status ::
  "cv_status \<Rightarrow> time_point \<Rightarrow> duration \<Rightarrow> mfid \<Rightarrow> world \<Rightarrow> 's fiber_manager \<Rightarrow> ref_state \<Rightarrow>
   (future_status result turn \<times> ref_state \<times> world \<times> 's fiber_manager) option" where
  "rs_for_status st now d k w m s = rs_until_status st (now + d) k w m s"

section \<open>The store\<close>

record ref_states =
  rst_obj :: "sid \<Rightarrow> ref_state option"
  rst_fresh :: sid

definition rst_set :: "sid \<Rightarrow> ref_state \<Rightarrow> ref_states \<Rightarrow> ref_states" where
  "rst_set i s st = st\<lparr>rst_obj := (rst_obj st)(i := Some s)\<rparr>"

text \<open>The reference count, and the pointers that keep it.\<close>

definition ref_intrusive_ptr_add_ref :: "sid \<Rightarrow> ref_states \<Rightarrow> ref_states option" where
  "ref_intrusive_ptr_add_ref i st = do {
     s \<leftarrow> rst_obj st i;
     Some (rst_set i (s\<lparr>rs_use_count := rs_use_count s + 1\<rparr>) st) }"

definition ref_deallocate_future :: "sid \<Rightarrow> ref_states \<Rightarrow> ref_states option" where
  "ref_deallocate_future i st = do {
     s \<leftarrow> rst_obj st i;
     ref_state_dtor s;
     Some (st\<lparr>rst_obj := (rst_obj st)(i := None)\<rparr>) }"

definition ref_intrusive_ptr_release :: "sid \<Rightarrow> ref_states \<Rightarrow> ref_states option" where
  "ref_intrusive_ptr_release i st = do {
     s \<leftarrow> rst_obj st i;
     let s' = s\<lparr>rs_use_count := rs_use_count s - 1\<rparr>;
     if 0 = rs_use_count s' then ref_deallocate_future i (rst_set i s' st)
     else Some (rst_set i s' st) }"

definition rptr_copy :: "ptr_t \<Rightarrow> ref_states \<Rightarrow> (ptr_t \<times> ref_states) option" where
  "rptr_copy p st =
     (case p of
        None \<Rightarrow> Some (None, st)
      | Some i \<Rightarrow> do { st' \<leftarrow> ref_intrusive_ptr_add_ref i st; Some (Some i, st') })"

definition rptr_drop :: "ptr_t \<Rightarrow> ref_states \<Rightarrow> ref_states option" where
  "rptr_drop p st = (case p of None \<Rightarrow> Some st | Some i \<Rightarrow> ref_intrusive_ptr_release i st)"

definition rptr_new :: "ref_states \<Rightarrow> (ptr_t \<times> ref_states) option" where
  "rptr_new st = do {
     let i = rst_fresh st;
     st' \<leftarrow> ref_intrusive_ptr_add_ref i ((rst_set i ref_state_ctor st)\<lparr>rst_fresh := i + 1\<rparr>);
     Some (Some i, st') }"

definition rst_call ::
  "(ref_state \<Rightarrow> ('r \<times> ref_state \<times> 'x) option) \<Rightarrow> sid \<Rightarrow> ref_states \<Rightarrow> ('r \<times> ref_states \<times> 'x) option" where
  "rst_call f i st = do {
     s \<leftarrow> rst_obj st i;
     (r, s', x) \<leftarrow> f s;
     Some (r, rst_set i s' st, x) }"

section \<open>Futures\<close>

definition ref_future_ctor :: future where
  "ref_future_ctor = None"

definition ref_future_ctor_ptr :: "ptr_t \<Rightarrow> ref_states \<Rightarrow> (future \<times> ref_states) option" where
  "ref_future_ctor_ptr p st = rptr_copy p st"

definition ref_future_dtor :: "future \<Rightarrow> ref_states \<Rightarrow> ref_states option" where
  "ref_future_dtor p st = rptr_drop p st"

definition ref_future_swap :: "future \<Rightarrow> future \<Rightarrow> future \<times> future" where
  "ref_future_swap this other = (other, this)"

definition ref_future_move_ctor :: "future \<Rightarrow> future \<times> future" where
  "ref_future_move_ctor other = ref_future_swap None other"

definition ref_future_assign :: "future \<Rightarrow> future \<Rightarrow> ref_states \<Rightarrow> (future \<times> future \<times> ref_states) option" where
  "ref_future_assign this other st = do {
     let (tmp, other') = ref_future_move_ctor other;
     let (this', tmp') = ref_future_swap this tmp;
     st' \<leftarrow> ref_future_dtor tmp' st;
     Some (this', other', st') }"

definition ref_future_valid :: "future \<Rightarrow> bool" where
  "ref_future_valid p \<longleftrightarrow> p \<noteq> None"

text \<open>
  \<^verbatim>\<open>get\<close> takes the pointer out of the future into a local variable, which lives until the call is
  left.
\<close>

definition ref_future_get_end ::
  "ptr_t \<Rightarrow> 'r result turn \<times> ref_states \<times> world \<times> 's fiber_manager \<Rightarrow>
   ('r result turn \<times> ptr_t \<times> future \<times> ref_states \<times> world \<times> 's fiber_manager) option" where
  "ref_future_get_end tmp = (\<lambda>(t, st, w, m). case t of
       Done r \<Rightarrow> do { st' \<leftarrow> rptr_drop tmp st; Some (Done r, None, None, st', w, m) }
     | _ \<Rightarrow> Some (t, tmp, None, st, w, m))"

definition ref_future_get_with ::
  "(mfid \<Rightarrow> world \<Rightarrow> 's fiber_manager \<Rightarrow> ref_state \<Rightarrow>
      ('r result turn \<times> ref_state \<times> world \<times> 's fiber_manager) option) \<Rightarrow>
   mfid \<Rightarrow> world \<Rightarrow> 's fiber_manager \<Rightarrow> ref_states \<Rightarrow> future \<Rightarrow>
   ('r result turn \<times> ptr_t \<times> future \<times> ref_states \<times> world \<times> 's fiber_manager) option" where
  "ref_future_get_with getf k w m st p =
     (case p of
        None \<Rightarrow> Some (Done (Inl future_uninitialized), None, None, st, w, m)
      | Some i \<Rightarrow> rst_call (getf k w m) i st \<bind> ref_future_get_end p)"

definition ref_future_get ::
  "mfid \<Rightarrow> world \<Rightarrow> 's fiber_manager \<Rightarrow> ref_states \<Rightarrow> future \<Rightarrow>
   (addr result turn \<times> ptr_t \<times> future \<times> ref_states \<times> world \<times> 's fiber_manager) option" where
  "ref_future_get k w m st p = ref_future_get_with ref_state_get k w m st p"

definition ref_future_get_woken ::
  "mfid \<Rightarrow> world \<Rightarrow> 's fiber_manager \<Rightarrow> ref_states \<Rightarrow> ptr_t \<Rightarrow>
   (addr result turn \<times> ptr_t \<times> future \<times> ref_states \<times> world \<times> 's fiber_manager) option" where
  "ref_future_get_woken k w m st tmp = do {
     i \<leftarrow> tmp;
     x \<leftarrow> rst_call (rs_wait_woken rs_result k w m) i st;
     ref_future_get_end tmp x }"

text \<open>The functions that wait leave the future valid.\<close>

definition ref_future_call ::
  "(ref_state \<Rightarrow> ('r result turn \<times> ref_state \<times> world \<times> 's fiber_manager) option) \<Rightarrow>
   world \<Rightarrow> 's fiber_manager \<Rightarrow> ref_states \<Rightarrow> future \<Rightarrow>
   ('r result turn \<times> ref_states \<times> world \<times> 's fiber_manager) option" where
  "ref_future_call f w m st p =
     (case p of
        None \<Rightarrow> Some (Done (Inl future_uninitialized), st, w, m)
      | Some i \<Rightarrow> rst_call f i st)"

definition ref_future_wait ::
  "mfid \<Rightarrow> world \<Rightarrow> 's fiber_manager \<Rightarrow> ref_states \<Rightarrow> future \<Rightarrow>
   (unit result turn \<times> ref_states \<times> world \<times> 's fiber_manager) option" where
  "ref_future_wait k w m st p = ref_future_call (ref_state_wait k w m) w m st p"

definition ref_future_wait_for ::
  "time_point \<Rightarrow> duration \<Rightarrow> mfid \<Rightarrow> world \<Rightarrow> 's fiber_manager \<Rightarrow> ref_states \<Rightarrow> future \<Rightarrow>
   (future_status result turn \<times> ref_states \<times> world \<times> 's fiber_manager) option" where
  "ref_future_wait_for now d k w m st p = ref_future_call (ref_state_wait_for now d k w m) w m st p"

definition ref_future_wait_until ::
  "time_point \<Rightarrow> mfid \<Rightarrow> world \<Rightarrow> 's fiber_manager \<Rightarrow> ref_states \<Rightarrow> future \<Rightarrow>
   (future_status result turn \<times> ref_states \<times> world \<times> 's fiber_manager) option" where
  "ref_future_wait_until t k w m st p = ref_future_call (ref_state_wait_until t k w m) w m st p"

section \<open>Shared futures\<close>

definition ref_shared_future_copy_ctor :: "shared_future \<Rightarrow> ref_states \<Rightarrow> (shared_future \<times> ref_states) option" where
  "ref_shared_future_copy_ctor other st = rptr_copy other st"

definition ref_shared_future_swap :: "shared_future \<Rightarrow> shared_future \<Rightarrow> shared_future \<times> shared_future" where
  "ref_shared_future_swap this other = (other, this)"

definition ref_shared_future_ctor_future :: "future \<Rightarrow> shared_future \<times> future" where
  "ref_shared_future_ctor_future other = (other, None)"

definition ref_shared_future_move_ctor :: "shared_future \<Rightarrow> shared_future \<times> shared_future" where
  "ref_shared_future_move_ctor other = ref_shared_future_swap None other"

definition ref_shared_future_dtor :: "shared_future \<Rightarrow> ref_states \<Rightarrow> ref_states option" where
  "ref_shared_future_dtor p st = rptr_drop p st"

definition ref_shared_future_move_assign ::
  "shared_future \<Rightarrow> shared_future \<Rightarrow> ref_states \<Rightarrow> (shared_future \<times> shared_future \<times> ref_states) option" where
  "ref_shared_future_move_assign this other st = do {
     let (tmp, other') = ref_shared_future_move_ctor other;
     let (this', tmp') = ref_shared_future_swap this tmp;
     st' \<leftarrow> ref_shared_future_dtor tmp' st;
     Some (this', other', st') }"

definition ref_shared_future_copy_assign ::
  "shared_future \<Rightarrow> shared_future \<Rightarrow> ref_states \<Rightarrow> (shared_future \<times> ref_states) option" where
  "ref_shared_future_copy_assign this other st = do {
     (tmp, st1) \<leftarrow> ref_shared_future_copy_ctor other st;
     let (this', tmp') = ref_shared_future_swap this tmp;
     st2 \<leftarrow> ref_shared_future_dtor tmp' st1;
     Some (this', st2) }"

text \<open>Without \<^verbatim>\<open>boost::move\<close>, as in the general version.\<close>

definition ref_shared_future_assign_future ::
  "shared_future \<Rightarrow> future \<Rightarrow> ref_states \<Rightarrow> (shared_future \<times> future \<times> ref_states) option" where
  "ref_shared_future_assign_future this other st = do {
     let (tmp, other') = ref_shared_future_ctor_future other;
     let (this', tmp') = ref_shared_future_swap this tmp;
     st' \<leftarrow> ref_shared_future_dtor tmp' st;
     Some (this', other', st') }"

definition ref_shared_future_valid :: "shared_future \<Rightarrow> bool" where
  "ref_shared_future_valid p \<longleftrightarrow> p \<noteq> None"

definition ref_shared_future_get ::
  "mfid \<Rightarrow> world \<Rightarrow> 's fiber_manager \<Rightarrow> ref_states \<Rightarrow> shared_future \<Rightarrow>
   (addr result turn \<times> ref_states \<times> world \<times> 's fiber_manager) option" where
  "ref_shared_future_get k w m st p = ref_future_call (ref_state_get k w m) w m st p"

definition ref_shared_future_wait ::
  "mfid \<Rightarrow> world \<Rightarrow> 's fiber_manager \<Rightarrow> ref_states \<Rightarrow> shared_future \<Rightarrow>
   (unit result turn \<times> ref_states \<times> world \<times> 's fiber_manager) option" where
  "ref_shared_future_wait k w m st p = ref_future_call (ref_state_wait k w m) w m st p"

definition ref_shared_future_wait_for ::
  "time_point \<Rightarrow> duration \<Rightarrow> mfid \<Rightarrow> world \<Rightarrow> 's fiber_manager \<Rightarrow> ref_states \<Rightarrow> shared_future \<Rightarrow>
   (future_status result turn \<times> ref_states \<times> world \<times> 's fiber_manager) option" where
  "ref_shared_future_wait_for now d k w m st p = ref_future_call (ref_state_wait_for now d k w m) w m st p"

definition ref_shared_future_wait_until ::
  "time_point \<Rightarrow> mfid \<Rightarrow> world \<Rightarrow> 's fiber_manager \<Rightarrow> ref_states \<Rightarrow> shared_future \<Rightarrow>
   (future_status result turn \<times> ref_states \<times> world \<times> 's fiber_manager) option" where
  "ref_shared_future_wait_until t k w m st p = ref_future_call (ref_state_wait_until t k w m) w m st p"

definition ref_future_share :: "future \<Rightarrow> shared_future result \<times> future" where
  "ref_future_share p =
     (if \<not> ref_future_valid p then (Inl future_uninitialized, p)
      else let (sh, p') = ref_shared_future_ctor_future p in (Inr sh, p'))"

section \<open>Promises and tasks\<close>

definition ref_promise_ctor :: "ref_states \<Rightarrow> (promise \<times> ref_states) option" where
  "ref_promise_ctor st = do {
     (p, st') \<leftarrow> rptr_new st;
     Some (\<lparr>pr_obtained = False, pr_future = p\<rparr>, st') }"

definition ref_promise_dtor ::
  "mfid \<Rightarrow> world \<Rightarrow> 's fiber_manager \<Rightarrow> ref_states \<Rightarrow> promise \<Rightarrow>
   (unit result turn \<times> ref_states \<times> world \<times> 's fiber_manager) option" where
  "ref_promise_dtor k w m st p =
     (case pr_future p of
        None \<Rightarrow> Some (Done (Inr ()), st, w, m)
      | Some i \<Rightarrow> do {
          (t, st1, w1, m1) \<leftarrow> rst_call (ref_state_owner_destroyed k w m) i st;
          case t of
            Done r \<Rightarrow> do { st2 \<leftarrow> rptr_drop (Some i) st1; Some (Done r, st2, w1, m1) }
          | _ \<Rightarrow> Some (t, st1, w1, m1) })"

definition ref_promise_swap :: "promise \<Rightarrow> promise \<Rightarrow> promise \<times> promise" where
  "ref_promise_swap this other = (other, this)"

definition ref_promise_move_ctor :: "promise \<Rightarrow> promise \<times> promise" where
  "ref_promise_move_ctor other = ref_promise_swap \<lparr>pr_obtained = False, pr_future = None\<rparr> other"

definition ref_promise_assign ::
  "mfid \<Rightarrow> world \<Rightarrow> 's fiber_manager \<Rightarrow> ref_states \<Rightarrow> promise \<Rightarrow> promise \<Rightarrow>
   (unit result turn \<times> promise \<times> promise \<times> ref_states \<times> world \<times> 's fiber_manager) option" where
  "ref_promise_assign k w m st this other = do {
     let (tmp, other') = ref_promise_move_ctor other;
     let (this', tmp') = ref_promise_swap this tmp;
     (t, st', w', m') \<leftarrow> ref_promise_dtor k w m st tmp';
     Some (t, this', other', st', w', m') }"

definition ref_promise_valid :: "promise \<Rightarrow> bool" where
  "ref_promise_valid p \<longleftrightarrow> pr_future p \<noteq> None"

definition ref_promise_get_future :: "ref_states \<Rightarrow> promise \<Rightarrow> (future result \<times> promise \<times> ref_states) option" where
  "ref_promise_get_future st p =
     (if pr_obtained p then Some (Inl future_already_retrieved, p, st)
      else if pr_future p = None then Some (Inl promise_uninitialized, p, st)
      else do {
        let p' = p\<lparr>pr_obtained := True\<rparr>;
        (f, st') \<leftarrow> ref_future_ctor_ptr (pr_future p') st;
        Some (Inr f, p', st') })"

definition ref_promise_call ::
  "(ref_state \<Rightarrow> (unit result turn \<times> ref_state \<times> world \<times> 's fiber_manager) option) \<Rightarrow>
   world \<Rightarrow> 's fiber_manager \<Rightarrow> ref_states \<Rightarrow> promise \<Rightarrow>
   (unit result turn \<times> ref_states \<times> world \<times> 's fiber_manager) option" where
  "ref_promise_call f w m st p =
     (case pr_future p of
        None \<Rightarrow> Some (Done (Inl promise_uninitialized), st, w, m)
      | Some i \<Rightarrow> rst_call f i st)"

definition ref_promise_set_value ::
  "addr \<Rightarrow> mfid \<Rightarrow> world \<Rightarrow> 's fiber_manager \<Rightarrow> ref_states \<Rightarrow> promise \<Rightarrow>
   (unit result turn \<times> ref_states \<times> world \<times> 's fiber_manager) option" where
  "ref_promise_set_value value k w m st p = ref_promise_call (ref_state_set_value value k w m) w m st p"

definition ref_promise_set_exception ::
  "exn \<Rightarrow> mfid \<Rightarrow> world \<Rightarrow> 's fiber_manager \<Rightarrow> ref_states \<Rightarrow> promise \<Rightarrow>
   (unit result turn \<times> ref_states \<times> world \<times> 's fiber_manager) option" where
  "ref_promise_set_exception except k w m st p = ref_promise_call (ref_state_set_exception except k w m) w m st p"

text \<open>
  A task whose function returns a reference: the general text of \<^verbatim>\<open>packaged_task\<close> and of the task
  object, over a shared state for references. The task object from the moment its function has ended
  with \<open>r\<close>, and the handle.
\<close>

definition task_ref_run ::
  "addr result \<Rightarrow> mfid \<Rightarrow> world \<Rightarrow> 's fiber_manager \<Rightarrow> ref_state \<Rightarrow>
   (unit result turn \<times> ref_state \<times> world \<times> 's fiber_manager) option" where
  "task_ref_run r k w m s =
     (case r of
        Inl e \<Rightarrow> ref_state_set_exception e k w m s
      | Inr a \<Rightarrow> do {
          (t, s1, w1, m1) \<leftarrow> ref_state_set_value a k w m s;
          case t of
            Done (Inl e) \<Rightarrow> ref_state_set_exception e k w1 m1 s1
          | _ \<Rightarrow> Some (t, s1, w1, m1) })"

definition ref_task_ctor :: packaged_task where
  "ref_task_ctor = \<lparr>pt_obtained = False, pt_task = None\<rparr>"

definition ref_task_ctor_fn :: "ref_states \<Rightarrow> (packaged_task \<times> ref_states) option" where
  "ref_task_ctor_fn st = do {
     (p, st') \<leftarrow> rptr_new st;
     Some (\<lparr>pt_obtained = False, pt_task = p\<rparr>, st') }"

definition ref_task_dtor ::
  "mfid \<Rightarrow> world \<Rightarrow> 's fiber_manager \<Rightarrow> ref_states \<Rightarrow> packaged_task \<Rightarrow>
   (unit result turn \<times> ref_states \<times> world \<times> 's fiber_manager) option" where
  "ref_task_dtor k w m st p =
     (case pt_task p of
        None \<Rightarrow> Some (Done (Inr ()), st, w, m)
      | Some i \<Rightarrow> do {
          (t, st1, w1, m1) \<leftarrow> rst_call (ref_state_owner_destroyed k w m) i st;
          case t of
            Done r \<Rightarrow> do { st2 \<leftarrow> rptr_drop (Some i) st1; Some (Done r, st2, w1, m1) }
          | _ \<Rightarrow> Some (t, st1, w1, m1) })"

definition ref_task_swap :: "packaged_task \<Rightarrow> packaged_task \<Rightarrow> packaged_task \<times> packaged_task" where
  "ref_task_swap this other = (other, this)"

definition ref_task_move_ctor :: "packaged_task \<Rightarrow> packaged_task \<times> packaged_task" where
  "ref_task_move_ctor other = ref_task_swap ref_task_ctor other"

definition ref_task_assign ::
  "mfid \<Rightarrow> world \<Rightarrow> 's fiber_manager \<Rightarrow> ref_states \<Rightarrow> packaged_task \<Rightarrow> packaged_task \<Rightarrow>
   (unit result turn \<times> packaged_task \<times> packaged_task \<times> ref_states \<times> world \<times> 's fiber_manager) option" where
  "ref_task_assign k w m st this other = do {
     let (tmp, other') = ref_task_move_ctor other;
     let (this', tmp') = ref_task_swap this tmp;
     (t, st', w', m') \<leftarrow> ref_task_dtor k w m st tmp';
     Some (t, this', other', st', w', m') }"

definition ref_task_valid :: "packaged_task \<Rightarrow> bool" where
  "ref_task_valid p \<longleftrightarrow> pt_task p \<noteq> None"

definition ref_task_get_future ::
  "ref_states \<Rightarrow> packaged_task \<Rightarrow> (future result \<times> packaged_task \<times> ref_states) option" where
  "ref_task_get_future st p =
     (if pt_obtained p then Some (Inl future_already_retrieved, p, st)
      else if \<not> ref_task_valid p then Some (Inl packaged_task_uninitialized, p, st)
      else do {
        let p' = p\<lparr>pt_obtained := True\<rparr>;
        (f, st') \<leftarrow> ref_future_ctor_ptr (pt_task p') st;
        Some (Inr f, p', st') })"

definition ref_task_call ::
  "addr result \<Rightarrow> mfid \<Rightarrow> world \<Rightarrow> 's fiber_manager \<Rightarrow> ref_states \<Rightarrow> packaged_task \<Rightarrow>
   (unit result turn \<times> ref_states \<times> world \<times> 's fiber_manager) option" where
  "ref_task_call r k w m st p =
     (case pt_task p of
        None \<Rightarrow> Some (Done (Inl packaged_task_uninitialized), st, w, m)
      | Some i \<Rightarrow> rst_call (task_ref_run r k w m) i st)"

definition ref_task_reset ::
  "ref_states \<Rightarrow> packaged_task \<Rightarrow> (unit result \<times> packaged_task \<times> ref_states) option" where
  "ref_task_reset st p =
     (case pt_task p of
        None \<Rightarrow> Some (Inl packaged_task_uninitialized, p, st)
      | Some i \<Rightarrow> do {
          s \<leftarrow> rst_obj st i;
          Some (Inr (), p\<lparr>pt_obtained := False\<rparr>, rst_set i (ref_state_reset s) st) })"

end
