(* ===== verification/Ref_Addresses.thy ===== *)
theory Ref_Addresses
  imports Ref_Future Future_Calls
begin

text \<open>
  The versions for references do with addresses what the general versions do with values. The
  theory relates the two states, shows for every member function that it does not matter on which
  of them it is called, and concludes that clients who make the same calls on both see the same.
  Since nothing is copied, \<^verbatim>\<open>get\<close> hands out the very objects that were handed in.
\<close>

section \<open>A state with an address as its value\<close>

definition aim :: "addr shared_state \<Rightarrow> ref_state" where
  "aim s = \<lparr>rs_use_count = ss_use_count s, rs_mtx = ss_mtx s, rs_waiters = ss_waiters s, rs_ready = ss_ready s,
     rs_value = ss_value s, rs_except = ss_except s\<rparr>"

lemma aim_simps [simp]:
  "rs_use_count (aim s) = ss_use_count s" "rs_mtx (aim s) = ss_mtx s" "rs_waiters (aim s) = ss_waiters s"
  "rs_ready (aim s) = ss_ready s" "rs_value (aim s) = ss_value s" "rs_except (aim s) = ss_except s"
  by (simp_all add: aim_def)

lemma aim_updates [simp]:
  "(aim s)\<lparr>rs_use_count := n\<rparr> = aim (s\<lparr>ss_use_count := n\<rparr>)" "(aim s)\<lparr>rs_mtx := mx\<rparr> = aim (s\<lparr>ss_mtx := mx\<rparr>)"
  "(aim s)\<lparr>rs_waiters := cv\<rparr> = aim (s\<lparr>ss_waiters := cv\<rparr>)" "(aim s)\<lparr>rs_ready := b\<rparr> = aim (s\<lparr>ss_ready := b\<rparr>)"
  "(aim s)\<lparr>rs_value := v\<rparr> = aim (s\<lparr>ss_value := v\<rparr>)" "(aim s)\<lparr>rs_except := x\<rparr> = aim (s\<lparr>ss_except := x\<rparr>)"
  by (simp_all add: aim_def)

lemma aim_ctor: "ref_state_ctor = aim shared_state_ctor"
  by (simp add: ref_state_ctor_def shared_state_ctor_def aim_def)

lemma aim_dtor: "ref_state_dtor (aim s) = shared_state_dtor s"
  by (simp add: ref_state_dtor_def shared_state_dtor_def)

lemma aim_notify: "rs_mark_ready_and_notify (aim s) w = map_option (map_prod aim id) (mark_ready_and_notify s w)"
  by (simp add: rs_mark_ready_and_notify_def mark_ready_and_notify_def map_bind split_def)

lemma aim_set_exception: "rs_set_exception e (aim s) w = snd_erased id aim (ss_set_exception e s w)"
  by (simp add: rs_set_exception_def ss_set_exception_def aim_notify map_bind bind_map split_def)

lemma aim_owner_destroyed: "rs_owner_destroyed (aim s) w = snd_erased id aim (ss_owner_destroyed s w)"
  by (simp add: rs_owner_destroyed_def ss_owner_destroyed_def aim_set_exception)

lemma aim_set_value: "rs_set_value v (aim s) w = snd_erased id aim (ss_set_value (Inr v) s w)"
  by (simp add: rs_set_value_def ss_set_value_def aim_notify map_bind bind_map split_def)

lemma aim_unlock: "rs_unlock w m (aim s) = map_option (map_prod aim id) (ss_unlock w m s)"
  by (simp add: rs_unlock_def ss_unlock_def map_bind split_def)

lemma aim_guarded:
  assumes "\<And>s w. rbody (aim s) w = snd_erased id aim (body s w)"
  shows "rs_guarded rbody k w m (aim s) = snd_erased id aim (ss_guarded body k w m s)"
  by (simp add: rs_guarded_def ss_guarded_def assms aim_unlock map_bind bind_map split_def Let_def if_distrib
      cong: if_cong)

lemma aim_result: "rs_result (aim s) = ss_result s"
  by (simp add: rs_result_def ss_result_def split: option.splits)

lemma aim_wait_round:
  assumes "\<And>s. rfin (aim s) = fin s"
  shows "rs_wait_round rfin k w m (aim s) = snd_erased id aim (ss_wait_round fin k w m s)"
  using assms by (simp add: rs_wait_round_def ss_wait_round_def aim_unlock map_bind bind_map split_def)

lemma aim_wait_lock:
  assumes "\<And>s. rfin (aim s) = fin s"
  shows "rs_wait_lock rfin k w m (aim s) = snd_erased id aim (ss_wait_lock fin k w m s)"
  using assms
  by (simp add: rs_wait_lock_def ss_wait_lock_def aim_wait_round map_bind split_def Let_def if_distrib cong: if_cong)

lemma aim_wait_woken:
  assumes "\<And>s. rfin (aim s) = fin s"
  shows "rs_wait_woken rfin k w m (aim s) = snd_erased id aim (ss_wait_woken fin k w m s)"
  using assms
  by (auto simp: rs_wait_woken_def ss_wait_woken_def aim_wait_lock map_bind Let_def split: option.splits bind_splits sum.splits)

lemma aim_until_round: "rs_until_round t k w m (aim s) = snd_erased id aim (ss_until_round t k w m s)"
  by (simp add: rs_until_round_def ss_until_round_def aim_unlock map_bind bind_map split_def)

lemma aim_until_status: "rs_until_status st t k w m (aim s) = snd_erased id aim (ss_until_status st t k w m s)"
  by (simp add: rs_until_status_def ss_until_status_def aim_unlock aim_until_round map_bind bind_map split_def)

lemma aim_wait_until:
  "ref_state_wait_until t k w m (aim s) = snd_erased id aim (shared_state_wait_until t k w m s)"
  "ref_state_wait_for now d k w m (aim s) = snd_erased id aim (shared_state_wait_for now d k w m s)"
  by (simp_all add: ref_state_wait_until_def shared_state_wait_until_def ref_state_wait_for_def shared_state_wait_for_def
      aim_until_round map_bind split_def Let_def if_distrib cong: if_cong)

lemma aim_until_woken:
  "rs_until_woken now t k w m (aim s) = map_option (map_prod id (map_prod id (map_prod aim id))) (ss_until_woken now t k w m s)"
  by (auto simp: rs_until_woken_def ss_until_woken_def aim_until_status Let_def split: bind_splits sum.splits)

section \<open>The store\<close>

definition aim_states :: "addr states \<Rightarrow> ref_states" where
  "aim_states st = \<lparr>rst_obj = (\<lambda>i. map_option aim (st_obj st i)), rst_fresh = st_fresh st\<rparr>"

lemma aim_states_simps [simp]:
  "rst_obj (aim_states st) i = map_option aim (st_obj st i)" "rst_fresh (aim_states st) = st_fresh st"
  by (simp_all add: aim_states_def)

lemma aim_states_updates [simp]:
  "rst_set i (aim s) (aim_states st) = aim_states (st_set i s st)"
  "(aim_states st)\<lparr>rst_obj := (rst_obj (aim_states st))(i := None)\<rparr> = aim_states (st\<lparr>st_obj := (st_obj st)(i := None)\<rparr>)"
  "(aim_states st)\<lparr>rst_fresh := n\<rparr> = aim_states (st\<lparr>st_fresh := n\<rparr>)"
  by (auto simp: aim_states_def rst_set_def st_set_def)

lemma aim_add_ref: "ref_intrusive_ptr_add_ref i (aim_states st) = map_option aim_states (intrusive_ptr_add_ref i st)"
  by (simp add: ref_intrusive_ptr_add_ref_def intrusive_ptr_add_ref_def map_bind bind_map)

lemma aim_release: "ref_intrusive_ptr_release i (aim_states st) = map_option aim_states (intrusive_ptr_release i st)"
  by (simp add: ref_intrusive_ptr_release_def intrusive_ptr_release_def ref_deallocate_future_def deallocate_future_def
      aim_dtor map_bind bind_map Let_def if_distrib cong: if_cong)

lemma aim_copy: "rptr_copy p (aim_states st) = map_option (map_prod id aim_states) (ptr_copy p st)"
  by (cases p) (simp_all add: rptr_copy_def ptr_copy_def aim_add_ref map_bind bind_map)

lemma aim_drop: "rptr_drop p (aim_states st) = map_option aim_states (ptr_drop p st)"
  by (cases p) (simp_all add: rptr_drop_def ptr_drop_def aim_release)

lemma aim_new: "rptr_new (aim_states (st :: addr states)) = map_option (map_prod id aim_states) (ptr_new st)"
proof -
  have "rst_set i ref_state_ctor (aim_states st) = aim_states (st_set i shared_state_ctor st)" for i
    unfolding aim_ctor by simp
  then show ?thesis by (simp add: rptr_new_def ptr_new_def aim_add_ref map_bind bind_map Let_def)
qed

lemma aim_call:
  assumes "\<And>s. rf (aim s) = snd_erased id aim (f s)"
  shows "rst_call rf i (aim_states st) = snd_erased id aim_states (st_call f i st)"
  using assms by (cases "st_obj st i") (auto simp: rst_call_def st_call_def map_bind bind_map split_def)

section \<open>Calls\<close>

fun exec_ref_call ::
  "addr call \<Rightarrow> mfid \<Rightarrow> world \<Rightarrow> 's fiber_manager \<Rightarrow> ref_states \<Rightarrow> (addr seen \<times> ref_states \<times> world \<times> 's fiber_manager) option" where
  "exec_ref_call Promise_new k w m st = do { (p, st') \<leftarrow> ref_promise_ctor st; Some (Saw_promise (Done (Inr ())) [p], st', w, m) }"
| "exec_ref_call (Promise_set v p) k w m st = do { (t, x) \<leftarrow> ref_promise_set_value v k w m st p; Some (Saw_end t, x) }"
| "exec_ref_call (Promise_throw e p) k w m st = do { (t, x) \<leftarrow> ref_promise_set_exception e k w m st p; Some (Saw_end t, x) }"
| "exec_ref_call (Promise_drop p) k w m st = do { (t, x) \<leftarrow> ref_promise_dtor k w m st p; Some (Saw_end t, x) }"
| "exec_ref_call (Promise_assign p q) k w m st = do {
     (t, p', q', x) \<leftarrow> ref_promise_assign k w m st p q; Some (Saw_promise t [p', q'], x) }"
| "exec_ref_call (Promise_future p) k w m st = do {
     (f, p', st') \<leftarrow> ref_promise_get_future st p; Some (Saw_future f p', st', w, m) }"
| "exec_ref_call (Get f) k w m st = do { (t, tmp, f', x) \<leftarrow> ref_future_get k w m st f; Some (Saw_value t tmp, x) }"
| "exec_ref_call (Get_woken tmp) k w m st = do { (t, tmp', f', x) \<leftarrow> ref_future_get_woken k w m st tmp; Some (Saw_value t tmp', x) }"
| "exec_ref_call (Wait f) k w m st = do { (t, x) \<leftarrow> ref_future_wait k w m st f; Some (Saw_end t, x) }"
| "exec_ref_call (Wait_until tp f) k w m st = do { (t, x) \<leftarrow> ref_future_wait_until tp k w m st f; Some (Saw_status t, x) }"
| "exec_ref_call (Wait_for now d f) k w m st = do { (t, x) \<leftarrow> ref_future_wait_for now d k w m st f; Some (Saw_status t, x) }"
| "exec_ref_call (Future_drop f) k w m st = do { st' \<leftarrow> ref_future_dtor f st; Some (Saw_handles [], st', w, m) }"
| "exec_ref_call (Future_assign f g) k w m st = do { (f', g', st') \<leftarrow> ref_future_assign f g st; Some (Saw_handles [f', g'], st', w, m) }"
| "exec_ref_call (Shared_get f) k w m st = do { (t, x) \<leftarrow> ref_shared_future_get k w m st f; Some (Saw_value t f, x) }"
| "exec_ref_call (Shared_wait f) k w m st = do { (t, x) \<leftarrow> ref_shared_future_wait k w m st f; Some (Saw_end t, x) }"
| "exec_ref_call (Shared_wait_until tp f) k w m st = do {
     (t, x) \<leftarrow> ref_shared_future_wait_until tp k w m st f; Some (Saw_status t, x) }"
| "exec_ref_call (Shared_wait_for now d f) k w m st = do {
     (t, x) \<leftarrow> ref_shared_future_wait_for now d k w m st f; Some (Saw_status t, x) }"
| "exec_ref_call (Shared_copy f) k w m st = do { (g, st') \<leftarrow> ref_shared_future_copy_ctor f st; Some (Saw_handles [g], st', w, m) }"
| "exec_ref_call (Shared_drop f) k w m st = do { st' \<leftarrow> ref_shared_future_dtor f st; Some (Saw_handles [], st', w, m) }"
| "exec_ref_call (Shared_assign f g) k w m st = do {
     (f', st') \<leftarrow> ref_shared_future_copy_assign f g st; Some (Saw_handles [f', g], st', w, m) }"
| "exec_ref_call (Shared_move f g) k w m st = do {
     (f', g', st') \<leftarrow> ref_shared_future_move_assign f g st; Some (Saw_handles [f', g'], st', w, m) }"
| "exec_ref_call (Shared_take f g) k w m st = do {
     (f', g', st') \<leftarrow> ref_shared_future_assign_future f g st; Some (Saw_handles [f', g'], st', w, m) }"
| "exec_ref_call Task_new k w m st = do { (p, st') \<leftarrow> ref_task_ctor_fn st; Some (Saw_task (Done (Inr ())) [p], st', w, m) }"
| "exec_ref_call (Task_run r p) k w m st = do { (t, x) \<leftarrow> ref_task_call r k w m st p; Some (Saw_end t, x) }"
| "exec_ref_call (Task_drop p) k w m st = do { (t, x) \<leftarrow> ref_task_dtor k w m st p; Some (Saw_end t, x) }"
| "exec_ref_call (Task_assign p q) k w m st = do {
     (t, p', q', x) \<leftarrow> ref_task_assign k w m st p q; Some (Saw_task t [p', q'], x) }"
| "exec_ref_call (Task_future p) k w m st = do {
     (f, p', st') \<leftarrow> ref_task_get_future st p; Some (Saw_task_future f p', st', w, m) }"
| "exec_ref_call (Task_reset p) k w m st = do { (r, p', st') \<leftarrow> ref_task_reset st p; Some (Saw_task (Done r) [p'], st', w, m) }"

section \<open>The calls agree\<close>

lemma aim_state_set:
  "ref_state_set_value v k w m (aim s) = snd_erased id aim (shared_state_set_value (Inr v) k w m s)"
  "ref_state_set_exception e k w m (aim s) = snd_erased id aim (shared_state_set_exception e k w m s)"
  "ref_state_owner_destroyed k w m (aim s) = snd_erased id aim (shared_state_owner_destroyed k w m s)"
  unfolding ref_state_set_value_def shared_state_set_value_def ref_state_set_exception_def shared_state_set_exception_def
    ref_state_owner_destroyed_def shared_state_owner_destroyed_def
  by (rule aim_guarded, rule aim_set_value aim_set_exception aim_owner_destroyed)+

lemma aim_state_get:
  "ref_state_get k w m (aim s) = snd_erased id aim (shared_state_get k w m s)"
    "rs_wait_woken rs_result k w m (aim s) = snd_erased id aim (ss_wait_woken ss_result k w m s)"
    "ref_state_wait k w m (aim s) = snd_erased id aim (shared_state_wait k w m s)"
  unfolding ref_state_get_def shared_state_get_def ref_state_wait_def shared_state_wait_def
proof -
  show "rs_wait_lock rs_result k w m (aim s) = snd_erased id aim (ss_wait_lock ss_result k w m s)"
    by (rule aim_wait_lock) (rule aim_result)
  show "rs_wait_woken rs_result k w m (aim s) = snd_erased id aim (ss_wait_woken ss_result k w m s)"
    by (rule aim_wait_woken) (rule aim_result)
  show "rs_wait_lock (\<lambda>s. Some (Inr ())) k w m (aim s) = snd_erased id aim (ss_wait_lock (\<lambda>s. Some (Inr ())) k w m s)"
    by (rule aim_wait_lock) (rule refl)
qed

lemma aim_task_run: "task_ref_run r k w m (aim s) = snd_erased id aim (task_object_run Inr r k w m s)"
proof (cases r)
  case (Inr v)
  show ?thesis
    by (auto simp: Inr task_ref_run_def task_object_run_def aim_state_set(1,2)
        split: turn.splits sum.splits bind_splits)
qed (simp add: task_ref_run_def task_object_run_def aim_state_set(2))

text \<open>The member functions of the state, called through a pointer.\<close>

lemma aim_calls:
  "rst_call (ref_state_set_value v k w m) i (aim_states st) =
      snd_erased id aim_states (st_call (shared_state_set_value (Inr v) k w m) i st)"
    "rst_call (ref_state_set_exception e k w m) i (aim_states st) =
      snd_erased id aim_states (st_call (shared_state_set_exception e k w m) i st)"
    "rst_call (ref_state_owner_destroyed k w m) i (aim_states st) =
      snd_erased id aim_states (st_call (shared_state_owner_destroyed k w m) i st)"
    "rst_call (task_ref_run r k w m) i (aim_states st) =
      snd_erased id aim_states (st_call (task_object_run Inr r k w m) i st)"
    "rst_call (ref_state_wait k w m) i (aim_states st) = snd_erased id aim_states (st_call (shared_state_wait k w m) i st)"
    "rst_call (ref_state_wait_until t k w m) i (aim_states st) =
      snd_erased id aim_states (st_call (shared_state_wait_until t k w m) i st)"
    "rst_call (ref_state_wait_for now d k w m) i (aim_states st) =
      snd_erased id aim_states (st_call (shared_state_wait_for now d k w m) i st)"
    "rst_call (ref_state_get k w m) i (aim_states st) =
      snd_erased id aim_states (st_call (shared_state_get k w m) i st)"
    "rst_call (rs_wait_woken rs_result k w m) i (aim_states st) =
      snd_erased id aim_states (st_call (ss_wait_woken ss_result k w m) i st)"
  by (rule aim_call, rule aim_state_set aim_task_run aim_state_get aim_wait_until)+

text \<open>Promises.\<close>

lemma same_promise:
  "ref_promise_ctor (aim_states st) = map_option (map_prod id aim_states) (promise_ctor st)"
    "ref_promise_set_value v k w m (aim_states st) p = snd_erased id aim_states (promise_set_value (Inr v) k w m st p)"
    "ref_promise_set_exception e k w m (aim_states st) p = snd_erased id aim_states (promise_set_exception e k w m st p)"
    "ref_promise_get_future (aim_states st) p =
       map_option (map_prod id (map_prod id aim_states)) (promise_get_future st p)"
proof -
  show "ref_promise_set_value v k w m (aim_states st) p = snd_erased id aim_states (promise_set_value (Inr v) k w m st p)"
    "ref_promise_set_exception e k w m (aim_states st) p = snd_erased id aim_states (promise_set_exception e k w m st p)"
    by (auto simp: aim_calls(1) aim_calls(2) ref_promise_set_value_def promise_set_value_def ref_promise_set_exception_def promise_set_exception_def
        ref_promise_call_def promise_call_def split: option.splits)
qed (simp_all add: ref_promise_ctor_def promise_ctor_def aim_new ref_promise_get_future_def promise_get_future_def
      ref_future_ctor_ptr_def future_ctor_ptr_def aim_copy map_bind bind_map split_def Let_def)

lemma same_promise_dtor:
  "ref_promise_dtor k w m (aim_states st) p = snd_erased id aim_states (promise_dtor k w m st p)"
  by (auto simp: aim_calls(3) ref_promise_dtor_def promise_dtor_def aim_drop split: option.splits turn.splits bind_splits)

text \<open>Tasks.\<close>

lemma same_task:
  "ref_task_ctor_fn (aim_states st) = map_option (map_prod id aim_states) (packaged_task_ctor_fn st)"
    "ref_task_call r k w m (aim_states st) p = snd_erased id aim_states (packaged_task_call Inr r k w m st p)"
    "ref_task_dtor k w m (aim_states st) p = snd_erased id aim_states (packaged_task_dtor k w m st p)"
    "ref_task_get_future (aim_states st) p =
       map_option (map_prod id (map_prod id aim_states)) (packaged_task_get_future st p)"
    "ref_task_reset (aim_states st) p = map_option (map_prod id (map_prod id aim_states)) (packaged_task_reset st p)"
proof -
  show "ref_task_call r k w m (aim_states st) p = snd_erased id aim_states (packaged_task_call Inr r k w m st p)"
    by (auto simp: aim_calls(4) ref_task_call_def packaged_task_call_def split: option.splits)
  show "ref_task_dtor k w m (aim_states st) p = snd_erased id aim_states (packaged_task_dtor k w m st p)"
    by (auto simp: aim_calls(3) ref_task_dtor_def packaged_task_dtor_def aim_drop split: option.splits turn.splits bind_splits)
  show "ref_task_reset (aim_states st) p = map_option (map_prod id (map_prod id aim_states)) (packaged_task_reset st p)"
    by (auto simp: ref_task_reset_def packaged_task_reset_def ref_state_reset_def shared_state_reset_def map_bind bind_map
        split: option.splits)
qed (simp_all add: ref_task_ctor_fn_def packaged_task_ctor_fn_def aim_new ref_task_get_future_def packaged_task_get_future_def
      ref_task_valid_def packaged_task_valid_def ref_future_ctor_ptr_def future_ctor_ptr_def aim_copy map_bind bind_map
      split_def Let_def)

text \<open>Futures and shared futures.\<close>

lemma same_future_get:
  "ref_future_get k w m (aim_states st) f =
      map_option (map_prod id (map_prod id (map_prod id (map_prod aim_states id)))) (future_get k w m st f)"
    "ref_future_get_woken k w m (aim_states st) f =
      map_option (map_prod id (map_prod id (map_prod id (map_prod aim_states id)))) (future_get_woken k w m st f)"
proof -
  have e: "ref_future_get_end p (map_prod id (map_prod aim_states id) x) =
      map_option (map_prod id (map_prod id (map_prod id (map_prod aim_states id)))) (future_get_end p x)"
    for p and x :: "addr result turn \<times> addr states \<times> world \<times> 'b fiber_manager"
    by (auto simp: ref_future_get_end_def future_get_end_def aim_drop map_bind bind_map split: turn.splits prod.splits)
  show "ref_future_get k w m (aim_states st) f =
      map_option (map_prod id (map_prod id (map_prod id (map_prod aim_states id)))) (future_get k w m st f)"
    by (cases f) (auto simp: aim_calls(8) ref_future_get_def future_get_def ref_future_get_with_def future_get_with_def e map_bind bind_map)
  show "ref_future_get_woken k w m (aim_states st) f =
      map_option (map_prod id (map_prod id (map_prod id (map_prod aim_states id)))) (future_get_woken k w m st f)"
    by (cases f) (auto simp: aim_calls(9) ref_future_get_woken_def future_get_woken_def e map_bind bind_map)
qed

lemma same_future_wait:
  "ref_future_wait k w m (aim_states st) f = snd_erased id aim_states (future_wait k w m st f)"
    "ref_future_wait_until t k w m (aim_states st) f = snd_erased id aim_states (future_wait_until t k w m st f)"
    "ref_future_wait_for now d k w m (aim_states st) f = snd_erased id aim_states (future_wait_for now d k w m st f)"
    "ref_shared_future_wait k w m (aim_states st) f = snd_erased id aim_states (shared_future_wait k w m st f)"
    "ref_shared_future_wait_until t k w m (aim_states st) f =
       snd_erased id aim_states (shared_future_wait_until t k w m st f)"
    "ref_shared_future_wait_for now d k w m (aim_states st) f =
       snd_erased id aim_states (shared_future_wait_for now d k w m st f)"
    "ref_shared_future_get k w m (aim_states st) f =
       snd_erased id aim_states (shared_future_get k w m st f)"
  by (cases f; simp add: aim_calls(5-8) ref_future_wait_def future_wait_def ref_future_wait_until_def future_wait_until_def
      ref_future_wait_for_def future_wait_for_def ref_shared_future_wait_def shared_future_wait_def
      ref_shared_future_wait_until_def shared_future_wait_until_def ref_shared_future_wait_for_def
      shared_future_wait_for_def ref_shared_future_get_def shared_future_get_def ref_future_call_def future_call_def)+

lemma same_handles:
  "ref_future_dtor f (aim_states st) = map_option aim_states (future_dtor f st)"
  "ref_future_assign f g (aim_states st) = map_option (map_prod id (map_prod id aim_states)) (future_assign f g st)"
  "ref_shared_future_dtor f (aim_states st) = map_option aim_states (shared_future_dtor f st)"
  "ref_shared_future_copy_ctor f (aim_states st) = map_option (map_prod id aim_states) (shared_future_copy_ctor f st)"
  "ref_shared_future_copy_assign f g (aim_states st) = map_option (map_prod id aim_states) (shared_future_copy_assign f g st)"
  "ref_shared_future_move_assign f g (aim_states st) =
     map_option (map_prod id (map_prod id aim_states)) (shared_future_move_assign f g st)"
  "ref_shared_future_assign_future f g (aim_states st) =
     map_option (map_prod id (map_prod id aim_states)) (shared_future_assign_future f g st)"
  by (simp_all add: ref_future_dtor_def future_dtor_def ref_future_assign_def future_assign_def ref_future_move_ctor_def
      future_move_ctor_def ref_future_swap_def future_swap_def ref_shared_future_dtor_def shared_future_dtor_def
      ref_shared_future_copy_ctor_def shared_future_copy_ctor_def ref_shared_future_copy_assign_def
      shared_future_copy_assign_def ref_shared_future_move_assign_def shared_future_move_assign_def
      ref_shared_future_move_ctor_def shared_future_move_ctor_def ref_shared_future_swap_def shared_future_swap_def
      ref_shared_future_assign_future_def shared_future_assign_future_def ref_shared_future_ctor_future_def
      shared_future_ctor_future_def aim_drop aim_copy map_bind bind_map split_def)

lemma same_assign:
  "ref_promise_assign k w m (aim_states st) p q =
      map_option (map_prod id (map_prod id (map_prod id (map_prod aim_states id)))) (promise_assign k w m st p q)"
    "ref_task_assign k w m (aim_states st) x y =
      map_option (map_prod id (map_prod id (map_prod id (map_prod aim_states id)))) (packaged_task_assign k w m st x y)"
  by (simp_all add: ref_promise_assign_def promise_assign_def ref_promise_move_ctor_def promise_move_ctor_def
      ref_promise_swap_def promise_swap_def same_promise_dtor ref_task_assign_def packaged_task_assign_def
      ref_task_move_ctor_def packaged_task_move_ctor_def ref_task_swap_def packaged_task_swap_def ref_task_ctor_def
      packaged_task_ctor_def same_task(3) map_bind bind_map split_def)

lemma exec_call_aim:
  "exec_ref_call c k w m (aim_states st) = snd_erased id aim_states (exec_call c k w m st)"
  by (cases c) (simp_all add: same_promise same_promise_dtor same_task same_future_get same_future_wait same_handles same_assign
      map_bind bind_map split_def)

section \<open>Runs\<close>

fun run_ref_calls ::
  "(addr call \<times> mfid \<times> world \<times> 's fiber_manager) list \<Rightarrow> ref_states \<Rightarrow>
   ((addr seen \<times> world \<times> 's fiber_manager) list \<times> ref_states) option" where
  "run_ref_calls [] st = Some ([], st)"
| "run_ref_calls ((c, k, w, m) # cs) st = do {
     (v, st1, x) \<leftarrow> exec_ref_call c k w m st;
     (vs, st2) \<leftarrow> run_ref_calls cs st1;
     Some ((v, x) # vs, st2) }"

lemma run_calls_aim: "run_ref_calls cs (aim_states st) = map_option (map_prod id aim_states) (run_calls cs st)"
proof (induction cs st rule: run_calls.induct)
  case (2 c k w m cs st)
  show ?case
    by (cases "exec_call c k w m st") (auto simp: exec_call_aim 2 map_bind bind_map split_def)
qed simp

definition ref_states_init :: ref_states where
  "ref_states_init = \<lparr>rst_obj = (\<lambda>_. None), rst_fresh = 0\<rparr>"

lemma ref_states_init_aim: "ref_states_init = aim_states states_init"
  by (simp add: ref_states_init_def aim_states_def states_init_def)

subsection \<open>Where results come from\<close>

text \<open>Every value that is stored is one of \<open>S\<close>.\<close>

definition within :: "'v set \<Rightarrow> 'v shared_state \<Rightarrow> bool" where
  "within S s \<longleftrightarrow> (\<forall>v. ss_value s = Some v \<longrightarrow> v \<in> S)"

interpretation wi: state_pred "within S" "\<lambda>v. v \<in> S" for S
  by unfold_locales (auto simp: within_def shared_state_ctor_def)

lemma got_value:
  "ss_wait_lock ss_result k w m s = Some (Done (Inr v), s', x) \<Longrightarrow> ss_value s = Some v"
  by (auto simp: ss_wait_lock_def ss_wait_round_def ss_result_def Let_def split: bind_splits if_splits option.splits)

lemma got_value_woken:
  "ss_wait_woken ss_result k w m s = Some (Done (Inr v), s', x) \<Longrightarrow> ss_value s = Some v"
  by (auto simp: ss_wait_woken_def Let_def split: option.splits bind_splits sum.splits dest!: got_value)

lemma exec_call_within:
  assumes "exec_call c k w m st = Some (Saw_value (Done (Inr a)) tmp, st', x)" and "all_states (within S) st"
  shows "a \<in> S"
  using assms
  by (cases c) (auto simp: future_get_def future_get_with_def future_get_woken_def future_get_end_def shared_future_get_def
      future_call_def shared_state_get_def st_call_def all_states_def within_def
      split: bind_splits option.splits turn.splits dest!: got_value got_value_woken)

lemma run_calls_within:
  assumes "run_calls cs st = Some (vs, st')" and "all_states (within S) st" and "i < length vs"
    and "vs ! i = (Saw_value (Done (Inr a)) tmp, x)"
  shows "a \<in> S \<or> (\<exists>j < i. a \<in> call_values (fst (cs ! j)))"
  using assms
proof (induction cs st arbitrary: vs S i rule: run_calls.induct)
  case (2 c k w m cs st)
  from 2(2) obtain v st1 y us where e: "exec_call c k w m st = Some (v, st1, y)" "run_calls cs st1 = Some (us, st')"
    "vs = (v, y) # us" by (auto split: bind_splits)
  show ?case
  proof (cases i)
    case 0
    with 2(3,5) e exec_call_within show ?thesis by fastforce
  next
    case (Suc n)
    let ?S = "S \<union> call_values c"
    have "all_states (within ?S) st" using 2(3) by (auto simp: all_states_def within_def)
    with wi.exec_call_keeps [OF e(1)] have "all_states (within ?S) st1" by blast
    with 2(1) [OF e(1) refl refl e(2), of ?S n] 2(4,5) e(3) Suc
    have "a \<in> ?S \<or> (\<exists>j < n. a \<in> call_values (fst (cs ! j)))" by auto
    then show ?thesis using Suc by (auto intro: exI [of _ 0] exI [of _ "Suc _"])
  qed
qed simp

section \<open>Properties\<close>

text \<open>
  C34: futures, promises and tasks of references hand out the objects they were given. Whatever
  sequence of calls clients make on the versions for \<^verbatim>\<open>R &\<close>, they see what the general versions do
  with the addresses as values, failures included; and every reference that \<^verbatim>\<open>get\<close> of a future
  or shared future returns is the address of an object that an earlier \<^verbatim>\<open>set_value\<close> or an
  earlier task was given: no copy, and never the null pointer.
\<close>

theorem references_keep_identity:
  "run_ref_calls cs ref_states_init = map_option (map_prod id aim_states) (run_calls cs states_init) \<and>
   (\<forall>vs st i a tmp x. run_ref_calls cs ref_states_init = Some (vs, st) \<longrightarrow> i < length vs \<longrightarrow>
      vs ! i = (Saw_value (Done (Inr a)) tmp, x) \<longrightarrow> (\<exists>j < i. a \<in> call_values (fst (cs ! j))))"
proof (intro conjI allI impI)
  show same: "run_ref_calls cs ref_states_init = map_option (map_prod id aim_states) (run_calls cs states_init)"
    by (simp add: ref_states_init_aim run_calls_aim)
  fix vs st i a tmp x
  assume "run_ref_calls cs ref_states_init = Some (vs, st)" and i: "i < length vs" "vs ! i = (Saw_value (Done (Inr a)) tmp, x)"
  then obtain st' where "run_calls cs states_init = Some (vs, st')" using same by (auto simp: map_prod_def)
  from run_calls_within [OF this, of "{}", OF _ i] show "\<exists>j < i. a \<in> call_values (fst (cs ! j))"
    by (simp add: all_states_def states_init_def)
qed

text \<open>A promise, its future, the object at the address 7 set and received.\<close>

definition demo_ref_calls :: "(addr call \<times> mfid \<times> world \<times> round_robin fiber_manager) list" where
  "demo_ref_calls =
     (let p = \<lparr>pr_obtained = False, pr_future = Some 0\<rparr>;
          at = \<lambda>c. (c, 0, sy_world demo_sys2, sy_mgr demo_sys2) in
      [at Promise_new, at (Promise_future p), at (Promise_set 7 (p\<lparr>pr_obtained := True\<rparr>)), at (Get (Some 0))])"

theorem references_keep_identity_witness:
  "\<exists>vs st tmp x. run_ref_calls demo_ref_calls ref_states_init = Some (vs, st) \<and>
     vs ! 3 = (Saw_value (Done (Inr 7)) tmp, x) \<and> (\<exists>j < 3. 7 \<in> call_values (fst (demo_ref_calls ! j)))"
proof -
  have "map_option (\<lambda>(vs, st). (length vs, map fst vs)) (run_ref_calls demo_ref_calls ref_states_init) =
      Some (4, [Saw_promise (Done (Inr ())) [\<lparr>pr_obtained = False, pr_future = Some 0\<rparr>],
        Saw_future (Inr (Some 0)) \<lparr>pr_obtained = True, pr_future = Some 0\<rparr>, Saw_end (Done (Inr ())),
        Saw_value (Done (Inr 7)) None])" by code_simp
  then obtain vs st where run: "run_ref_calls demo_ref_calls ref_states_init = Some (vs, st)" "length vs = 4"
    "map fst vs ! 3 = Saw_value (Done (Inr 7)) None" by auto
  then obtain x where "vs ! 3 = (Saw_value (Done (Inr 7)) None, x)" by (cases "vs ! 3") auto
  with references_keep_identity [of demo_ref_calls] run show ?thesis by fastforce
qed

end
