(* ===== verification/Scheduler_Instance.thy ===== *)
theory Scheduler_Instance
  imports Fiber_Manager
begin

text \<open>
  The scheduler of the calling thread (\<^verbatim>\<open>detail/scheduler.hpp\<close>, \<^verbatim>\<open>src/detail/scheduler.cpp\<close>,
  the free functions at the end of \<^verbatim>\<open>operations.hpp\<close>): a thread-local pointer that is null
  until it is first asked for; and the destructor of a scheduler. \<open>q\<close> is the address of the
  waiting queue inside a new scheduler.
\<close>

definition scheduler_instance :: "wqid \<Rightarrow> round_robin fiber_manager option \<Rightarrow> round_robin fiber_manager" where
  "scheduler_instance q inst = (case inst of None \<Rightarrow> fiber_manager_init q | Some m \<Rightarrow> m)"

definition scheduler_replace ::
  "'t option \<Rightarrow> wqid \<Rightarrow> round_robin fiber_manager option \<Rightarrow> 't fiber_manager option" where
  "scheduler_replace other q inst = do {
     algo \<leftarrow> other;
     Some (fm_set_sched_algo algo (scheduler_instance q inst)) }"

definition set_scheduling_algorithm ::
  "'t option \<Rightarrow> wqid \<Rightarrow> round_robin fiber_manager option \<Rightarrow> 't fiber_manager option" where
  "set_scheduling_algorithm al q inst = scheduler_replace al q inst"

text \<open>\<^verbatim>\<open>migrate\<close> of a handle; a null handle fails the assertion.\<close>

definition fibers_migrate ::
  "'s sched_algorithm \<Rightarrow> time_point \<Rightarrow> time_point \<Rightarrow> fid option \<Rightarrow> world \<Rightarrow> 's fiber_manager \<Rightarrow>
   (control \<times> world \<times> 's fiber_manager) option" where
  "fibers_migrate A now now' impl w m = do { f \<leftarrow> impl; fm_migrate A now now' f w m }"

text \<open>
  The destructor turns the scheduler until nobody waits. \<open>turn\<close> is one call of \<^verbatim>\<open>run\<close>
  together with what the resumed fiber does until control comes back.
\<close>

partial_function (option) fiber_manager_dtor ::
  "(world \<times> 's fiber_manager \<Rightarrow> (world \<times> 's fiber_manager) option) \<Rightarrow>
   world \<times> 's fiber_manager \<Rightarrow> (world \<times> 's fiber_manager) option" where
  "fiber_manager_dtor turn s =
     (if \<not> wq_empty (fm_wqueue (snd s)) (fst s)
      then do { s' \<leftarrow> turn s; fiber_manager_dtor turn s' }
      else Some s)"

declare fiber_manager_dtor.simps [code]

text \<open>
  It returns if every turn brings a measure down, for example the number of fibers that have not
  ended; and then nobody waits. Fibers that are only ready are left behind.
\<close>

lemma fiber_manager_dtor_returns:
  fixes \<mu> :: "world \<times> 's fiber_manager \<Rightarrow> nat"
  assumes "\<And>s. P s \<Longrightarrow> \<not> wq_empty (fm_wqueue (snd s)) (fst s) \<Longrightarrow> \<exists>s'. turn s = Some s' \<and> P s' \<and> \<mu> s' < \<mu> s"
    and "P s"
  shows "\<exists>s'. fiber_manager_dtor turn s = Some s' \<and> P s' \<and> wq_empty (fm_wqueue (snd s')) (fst s')"
  using assms(2)
proof (induction "\<mu> s" arbitrary: s rule: less_induct)
  case less
  show ?case
  proof (cases "wq_empty (fm_wqueue (snd s)) (fst s)")
    case True
    with less.prems show ?thesis by (simp add: fiber_manager_dtor.simps)
  next
    case False
    with assms(1) [OF less.prems] obtain s' where s': "turn s = Some s'" "P s'" "\<mu> s' < \<mu> s" by blast
    from less.hyps [OF s'(3,2)] s'(1) False show ?thesis by (simp add: fiber_manager_dtor.simps [of turn s])
  qed
qed

end
