(* ===== verification/Work_Stealing.thy ===== *)
theory Work_Stealing
  imports Scheduler_Properties Scheduler_Instance
begin

text \<open>
  The scheduling algorithm of the work-stealing example (\<^verbatim>\<open>examples/workstealing_queue.hpp\<close>,
  \<^verbatim>\<open>examples/workstealing_round_robin.hpp\<close>, \<^verbatim>\<open>examples/workstealing_round_robin.cpp\<close>): a ready
  queue, singly linked and protected by a spin lock, from which other threads may take fibers that
  are not bound to their thread. It is a second provider of the contract \<open>fifo_sched_contract\<close>,
  so what \<open>Scheduling\<close> and \<open>Fiber\<close> show of the scheduler holds for it as well.
\<close>

record ws_queue =
  ws_splk :: lock_state
  ws_head :: "fid option"
  ws_tail :: "fid option"

definition ws_queue_init :: ws_queue where
  "ws_queue_init = \<lparr>ws_splk = spinlock_init, ws_head = None, ws_tail = None\<rparr>"

definition ws_empty :: "ws_queue \<Rightarrow> bool" where
  "ws_empty q \<longleftrightarrow> ws_head q = None"

section \<open>Private functions\<close>

definition ws_push_item :: "fid \<Rightarrow> heap \<Rightarrow> ws_queue \<Rightarrow> (heap \<times> ws_queue) option" where
  "ws_push_item item h q = do {
     assert_that (wf_nxt (h item) = None);
     if ws_empty q then Some (h, q\<lparr>ws_head := Some item, ws_tail := Some item\<rparr>)
     else do {
       t \<leftarrow> ws_tail q;
       Some (next_set t (Some item) h, q\<lparr>ws_tail := Some item\<rparr>) } }"

definition ws_pop_item :: "heap \<Rightarrow> ws_queue \<Rightarrow> fid option \<times> heap \<times> ws_queue" where
  "ws_pop_item h q =
     (case ws_head q of
        None \<Rightarrow> (None, h, q)
      | Some item \<Rightarrow>
          let q1 = q\<lparr>ws_head := wf_nxt (h item)\<rparr>;
              q2 = (if ws_head q1 = None then q1\<lparr>ws_tail := None\<rparr> else q1)
          in (Some item, next_reset item h, q2))"

text \<open>The loop of \<^verbatim>\<open>steal_\<close>: \<open>f\<close> is the fiber looked at and \<open>prev\<close> the one before it.\<close>

partial_function (option) ws_steal_loop ::
  "fid option \<Rightarrow> fid option \<Rightarrow> heap \<Rightarrow> ws_queue \<Rightarrow> (fid option \<times> heap \<times> ws_queue) option" where
  "ws_steal_loop f prev h q =
     (case f of
        None \<Rightarrow> Some (None, h, q)
      | Some x \<Rightarrow>
          let nxt = wf_nxt (h x) in
          if \<not> thread_affinity (h x) then
            (if f = ws_head q then do {
               assert_that (prev = None);
               let q1 = q\<lparr>ws_head := nxt\<rparr>;
               let q2 = (if ws_head q1 = None then q1\<lparr>ws_tail := None\<rparr> else q1);
               Some (Some x, next_reset x h, q2) }
             else do {
               p \<leftarrow> prev;
               let q1 = (if nxt = None then q\<lparr>ws_tail := Some p\<rparr> else q);
               Some (Some x, next_reset x (next_set p nxt h), q1) })
          else ws_steal_loop nxt f h q)"

section \<open>Public functions\<close>

definition ws_push :: "fid \<Rightarrow> heap \<Rightarrow> ws_queue \<Rightarrow> (heap \<times> ws_queue) option" where
  "ws_push f h q = do {
     l \<leftarrow> spin_lock (ws_splk q);
     (h', q') \<leftarrow> ws_push_item f h q;
     l' \<leftarrow> spin_unlock l;
     Some (h', q'\<lparr>ws_splk := l'\<rparr>) }"

definition ws_pop :: "heap \<Rightarrow> ws_queue \<Rightarrow> (fid option \<times> heap \<times> ws_queue) option" where
  "ws_pop h q = do {
     l \<leftarrow> spin_lock (ws_splk q);
     let (r, h', q') = ws_pop_item h q;
     l' \<leftarrow> spin_unlock l;
     Some (r, h', q'\<lparr>ws_splk := l'\<rparr>) }"

definition ws_steal :: "heap \<Rightarrow> ws_queue \<Rightarrow> (fid option \<times> heap \<times> ws_queue) option" where
  "ws_steal h q = do {
     l \<leftarrow> spin_lock (ws_splk q);
     (r, h', q') \<leftarrow> ws_steal_loop (ws_head q) None h q;
     l' \<leftarrow> spin_unlock l;
     Some (r, h', q'\<lparr>ws_splk := l'\<rparr>) }"

section \<open>The algorithm\<close>

definition workstealing_awakened :: "fid \<Rightarrow> heap \<Rightarrow> ws_queue \<Rightarrow> (heap \<times> ws_queue) option" where
  "workstealing_awakened f h q = ws_push f h q"

definition workstealing_pick_next :: "heap \<Rightarrow> ws_queue \<Rightarrow> (fid option \<times> heap \<times> ws_queue) option" where
  "workstealing_pick_next h q = ws_pop h q"

definition workstealing_priority :: "fid \<Rightarrow> int \<Rightarrow> heap \<Rightarrow> ws_queue \<Rightarrow> (heap \<times> ws_queue) option" where
  "workstealing_priority f prio h q = Some (priority_set f prio h, q)"

text \<open>The stolen fiber as a handle, null if there is nothing to steal.\<close>

definition workstealing_steal :: "heap \<Rightarrow> ws_queue \<Rightarrow> (fiber \<times> heap \<times> ws_queue) option" where
  "workstealing_steal h q = ws_steal h q"

definition workstealing_algo :: "ws_queue sched_algorithm" where
  "workstealing_algo =
     \<lparr>sa_awakened = workstealing_awakened, sa_pick_next = workstealing_pick_next,
      sa_priority = workstealing_priority\<rparr>"

section \<open>The list behind the pointers\<close>

fun slseg :: "heap \<Rightarrow> fid list \<Rightarrow> fid option \<Rightarrow> bool" where
  "slseg h [] n = True"
| "slseg h (x # xs) n \<longleftrightarrow> wf_prev (h x) = None \<and> wf_nxt (h x) = hd_or n xs \<and> slseg h xs n"

definition ws_rep :: "heap \<Rightarrow> ws_queue \<Rightarrow> fid list \<Rightarrow> bool" where
  "ws_rep h q xs \<longleftrightarrow> distinct xs \<and> slseg h xs None \<and> ws_head q = hd_or None xs \<and> ws_tail q = last_or None xs \<and>
     ws_splk q = UNLOCKED"

lemma slseg_append [simp]: "slseg h (xs @ ys) n \<longleftrightarrow> slseg h xs (hd_or n ys) \<and> slseg h ys n"
  by (induction xs) auto

lemma slseg_cong:
  assumes "\<And>x. x \<in> set xs \<Longrightarrow> wf_prev (h' x) = wf_prev (h x) \<and> wf_nxt (h' x) = wf_nxt (h x)"
  shows "slseg h' xs n \<longleftrightarrow> slseg h xs n"
  using assms by (induction xs) auto

lemma ws_rep_cong:
  assumes "ws_rep h q xs"
    and "\<And>x. x \<in> set xs \<Longrightarrow> wf_prev (h' x) = wf_prev (h x) \<and> wf_nxt (h' x) = wf_nxt (h x)"
  shows "ws_rep h' q xs"
  using assms slseg_cong [of xs h' h] by (simp add: ws_rep_def)

lemma slseg_other: "x \<notin> set xs \<Longrightarrow> slseg (h(x := r)) xs n \<longleftrightarrow> slseg h xs n"
  by (rule slseg_cong) auto

lemma ws_push_rep:
  assumes rep: "ws_rep h q xs" and fresh: "item \<notin> set xs" and links: "wf_nxt (h item) = None" "wf_prev (h item) = None"
  shows "\<exists>h' q'. ws_push item h q = Some (h', q') \<and> ws_rep h' q' (xs @ [item]) \<and> links_frame (insert item (set xs)) h h'"
proof (cases xs rule: rev_cases)
  case Nil
  with rep links show ?thesis by (simp add: ws_push_def ws_push_item_def ws_rep_def ws_empty_def)
next
  case (snoc ys t)
  have "ws_head q \<noteq> None" "ws_tail q = Some t" "ws_splk q = UNLOCKED"
    using rep snoc by (cases ys; simp add: ws_rep_def)+
  moreover have "slseg (next_set t (Some item) h) (xs @ [item]) None"
    using rep snoc links fresh by (auto simp: ws_rep_def next_set_def slseg_other)
  ultimately show ?thesis
    using rep snoc links fresh links_frame_next_set [of t "insert item (set xs)" h "Some item"]
    by (simp add: ws_push_def ws_push_item_def ws_rep_def ws_empty_def)
qed

lemma ws_pop_rep:
  assumes rep: "ws_rep h q (x # xs)"
  shows "\<exists>h' q'. ws_pop h q = Some (Some x, h', q') \<and> ws_rep h' q' xs \<and> wf_nxt (h' x) = None \<and> wf_prev (h' x) = None \<and>
     links_frame (set (x # xs)) h h'"
proof -
  have "slseg (next_reset x h) xs None" using rep by (simp add: ws_rep_def next_reset_def slseg_other)
  with rep links_frame_reset(1) [of x "set (x # xs)" h] show ?thesis
    by (cases xs) (auto simp: ws_pop_def ws_pop_item_def ws_rep_def next_reset_def Let_def)
qed

lemma ws_rep_unique:
  assumes "ws_rep h q xs" and "ws_rep h q ys"
  shows "xs = ys"
proof -
  have "slseg h xs None \<Longrightarrow> slseg h ys None \<Longrightarrow> hd_or None xs = hd_or None ys \<Longrightarrow> xs = ys"
  proof (induction xs arbitrary: ys)
    case Nil
    then show ?case by (cases ys) auto
  next
    case (Cons x xs)
    then obtain zs where "ys = x # zs" by (cases ys) auto
    with Cons show ?case by auto
  qed
  with assms show ?thesis by (auto simp: ws_rep_def)
qed

text \<open>The algorithm keeps the contract, so every lemma about the scheduler holds for it.\<close>

interpretation wsa: fifo_sched_contract workstealing_algo ws_rep
proof (unfold_locales, goal_cases)
  case (1 h s xs)
  then show ?case by (simp add: ws_rep_def)
next
  case (2 h s xs h')
  then show ?case by (rule ws_rep_cong) blast
next
  case (3 h s xs f)
  then show ?case
    using ws_push_rep [of h s xs f] by (fastforce simp: workstealing_algo_def workstealing_awakened_def)
next
  case (4 h s)
  then show ?case
    by (simp add: workstealing_algo_def workstealing_pick_next_def ws_pop_def ws_pop_item_def ws_rep_def)
next
  case (5 h s xs)
  then obtain x ys where xs: "xs = x # ys" by (cases xs) auto
  then have "x \<notin> set ys" using 5 by (simp add: ws_rep_def)
  with ws_pop_rep [of h s x ys] 5 xs show ?case
    by (auto simp: workstealing_algo_def workstealing_pick_next_def)
next
  case (6 h s xs f h' s')
  then show ?case
    using ws_push_rep [of h s xs f] by (auto simp: workstealing_algo_def workstealing_awakened_def)
next
  case (7 h s x xs p h' s')
  then show ?case using ws_pop_rep [of h s x xs] by (auto simp: workstealing_algo_def workstealing_pick_next_def)
next
  case (8 h s xs ys)
  then show ?case by (rule ws_rep_unique)
qed

section \<open>Stealing\<close>

text \<open>Taking one fiber out of the middle of the chain.\<close>

lemma slseg_unlink:
  assumes "slseg h (as @ [p] @ x # ys) None" and "distinct (as @ [p] @ x # ys)"
  shows "slseg (next_reset x (next_set p (wf_nxt (h x)) h)) (as @ [p] @ ys) None"
proof -
  have "slseg (next_reset x (next_set p (wf_nxt (h x)) h)) as (Some p)"
    using assms by (simp add: next_reset_def next_set_def slseg_other)
  moreover have "slseg (next_reset x (next_set p (wf_nxt (h x)) h)) ys None"
    using assms by (simp add: next_reset_def next_set_def slseg_other)
  ultimately show ?thesis using assms by (simp add: next_reset_def next_set_def)
qed

lemma ws_steal_loop_rep:
  assumes "ws_rep h q (as @ bs)" and "\<forall>x \<in> set as. thread_affinity (h x)"
  shows "\<exists>r h' q'. ws_steal_loop (hd_or None bs) (last_or None as) h q = Some (r, h', q') \<and>
     (case dropWhile (\<lambda>x. thread_affinity (h x)) bs of
        [] \<Rightarrow> r = None \<and> h' = h \<and> q' = q
      | x # ys \<Rightarrow> r = Some x \<and> ws_rep h' q' (as @ takeWhile (\<lambda>x. thread_affinity (h x)) bs @ ys) \<and>
          wf_nxt (h' x) = None \<and> wf_prev (h' x) = None \<and> links_frame (set (as @ bs)) h h')"
  using assms
proof (induction bs arbitrary: as)
  case Nil
  then show ?case by (simp add: ws_steal_loop.simps)
next
  case (Cons x bs)
  have x: "wf_nxt (h x) = hd_or None bs" "wf_prev (h x) = None" using Cons.prems(1) by (auto simp: ws_rep_def)
  show ?case
  proof (cases "thread_affinity (h x)")
    case True
    with Cons.IH [of "as @ [x]"] Cons.prems x(1) show ?thesis
      by (simp add: ws_steal_loop.simps [of "Some x"] cong: list.case_cong)
  next
    case False
    show ?thesis
    proof (cases as rule: rev_cases)
      case Nil
      have "slseg (next_reset x h) bs None" using Cons.prems(1) Nil by (simp add: ws_rep_def next_reset_def slseg_other)
      with False Nil Cons.prems(1) links_frame_reset(1) [of x "insert x (set bs)" h] x show ?thesis
        by (cases bs) (simp_all add: ws_steal_loop.simps [of "Some x"] ws_rep_def next_reset_def Let_def)
    next
      case (snoc cs p)
      let ?h = "next_reset x (next_set p (wf_nxt (h x)) h)"
      have ne: "Some x \<noteq> ws_head q" using Cons.prems(1) snoc by (cases cs) (auto simp: ws_rep_def)
      have "slseg ?h (cs @ [p] @ bs) None"
        using Cons.prems(1) snoc by (intro slseg_unlink) (simp_all add: ws_rep_def)
      moreover have "links_frame (set (as @ x # bs)) h ?h"
        by (rule links_frame_trans [OF links_frame_next_set [of p "{p}"] links_frame_reset(1) [of x "{x}"]])
          (use snoc in auto)
      moreover have "wf_nxt (?h x) = None" "wf_prev (?h x) = None"
        using x Cons.prems(1) snoc by (auto simp: next_reset_def next_set_def ws_rep_def)
      ultimately show ?thesis
        using False snoc Cons.prems(1) ne x
        by (cases bs) (simp_all add: ws_steal_loop.simps [of "Some x"] ws_rep_def Let_def)
    qed
  qed
qed

lemma ws_steal_rep:
  assumes "ws_rep h q xs"
  shows "\<exists>r h' q'. ws_steal h q = Some (r, h', q') \<and>
     (case dropWhile (\<lambda>x. thread_affinity (h x)) xs of
        [] \<Rightarrow> r = None \<and> h' = h \<and> q' = q
      | x # ys \<Rightarrow> r = Some x \<and> ws_rep h' q' (takeWhile (\<lambda>x. thread_affinity (h x)) xs @ ys) \<and>
          wf_nxt (h' x) = None \<and> wf_prev (h' x) = None \<and> links_frame (set xs) h h')"
proof -
  from ws_steal_loop_rep [of h q "[]" xs, unfolded append_Nil last_or.simps] assms obtain r h' q' where l:
    "ws_steal_loop (hd_or None xs) None h q = Some (r, h', q')"
    "case dropWhile (\<lambda>x. thread_affinity (h x)) xs of
        [] \<Rightarrow> r = None \<and> h' = h \<and> q' = q
      | x # ys \<Rightarrow> r = Some x \<and> ws_rep h' q' (takeWhile (\<lambda>x. thread_affinity (h x)) xs @ ys) \<and>
          wf_nxt (h' x) = None \<and> wf_prev (h' x) = None \<and> links_frame (set xs) h h'" by auto
  have "ws_splk q = UNLOCKED" "ws_head q = hd_or None xs" using assms by (simp_all add: ws_rep_def)
  moreover from this l have "q'\<lparr>ws_splk := UNLOCKED\<rparr> = q'"
    by (cases q') (auto simp: ws_rep_def split: list.splits)
  ultimately show ?thesis using l by (intro exI [of _ r] exI [of _ h'] exI [of _ q']) (simp add: ws_steal_def)
qed

section \<open>Properties\<close>

text \<open>A thread whose scheduler has been given a new work-stealing algorithm.\<close>

definition ws_sys_init :: "wqid \<Rightarrow> heap \<Rightarrow> ws_queue sys option" where
  "ws_sys_init q h = do {
     m \<leftarrow> set_scheduling_algorithm (Some ws_queue_init) q None;
     Some \<lparr>sy_world = \<lparr>w_heap = h, w_wqs = (\<lambda>_. waiting_queue_init), w_mains = (\<lambda>_. False)\<rparr>,
           sy_mgr = m, sy_used = [], sy_pc = (\<lambda>_. At_large)\<rparr> }"

lemma ws_sys_init_inv:
  assumes "ws_sys_init q h = Some s0"
  shows "sys_inv ws_rep s0"
proof -
  have "wq_ordered h ([] @ [])" by (rule wq_orderedI) simp_all
  then have "sys_inv_at ws_rep s0 [] []"
    using assms unfolding ws_sys_init_def sys_inv_at_def
    by (auto intro!: sys_placedI simp: sys_joins_def set_scheduling_algorithm_def scheduler_replace_def
        scheduler_instance_def fm_set_sched_algo_def fiber_manager_init_def fm_queues_def wq_rep_def
        waiting_queue_init_def ws_rep_def ws_queue_init_def spinlock_init_def)
  then show ?thesis by (rule sys_invI)
qed

text \<open>
  C27: the scheduler is as safe with the work-stealing algorithm as with the default one. From every
  state a thread can reach after the algorithm has been set, every permitted request is carried out
  without failing assertion or endless loop, and afterwards the queues are well formed, disjoint and
  hold every fiber that is ready or waiting.
\<close>

theorem workstealing_no_assertion_fails:
  assumes "ws_sys_init q h = Some s0" and "sys_reachable workstealing_algo s0 s" and "sys_enabled r s"
  shows "\<exists>s' ws rs. sys_exec workstealing_algo r s = Some s' \<and>
     fm_queues ws_rep (sy_world s') (sy_mgr s') ws rs \<and> distinct (ws @ rs)"
proof -
  have "sys_inv ws_rep s" by (rule wsa.reachable_inv [OF assms(2) ws_sys_init_inv [OF assms(1)]])
  from wsa.exec_ok [OF this assms(3)] obtain s' where s': "sys_exec workstealing_algo r s = Some s'" "sys_inv ws_rep s'"
    by blast
  then obtain ws rs where "sys_inv_at ws_rep s' ws rs" by (auto simp: sys_inv_def)
  then have Q: "fm_queues ws_rep (sy_world s') (sy_mgr s') ws rs" by (simp add: sys_inv_at_def sys_placedD)
  then have "distinct (ws @ rs)" by (auto simp: fm_queues_def wq_rep_def ws_rep_def)
  with s'(1) Q show ?thesis by blast
qed

definition demo_ws :: "ws_queue sys" where
  "demo_ws = the (sys_script workstealing_algo [Rq_spawn 1, Rq_spawn 2, Rq_run 0 0] (the (ws_sys_init 0 (\<lambda>_. worker_fiber_init))))"

theorem workstealing_no_assertion_fails_witness:
  "\<exists>s'. sys_exec workstealing_algo (Rq_join 2) demo_ws = Some s'"
proof -
  obtain s0 where s0: "ws_sys_init 0 (\<lambda>_. worker_fiber_init) = Some s0"
    by (simp add: ws_sys_init_def set_scheduling_algorithm_def scheduler_replace_def)
  have "map_option (\<lambda>_. ()) (sys_script workstealing_algo [Rq_spawn 1, Rq_spawn 2, Rq_run 0 0]
      (the (ws_sys_init 0 (\<lambda>_. worker_fiber_init)))) = Some ()" by code_simp
  then have "sys_script workstealing_algo [Rq_spawn 1, Rq_spawn 2, Rq_run 0 0] s0 = Some demo_ws"
    using s0 by (auto simp: demo_ws_def)
  from sys_script_reachable [OF this sys_reachable.start] have "sys_reachable workstealing_algo s0 demo_ws" .
  moreover have "sys_enabled (Rq_join 2) demo_ws" by code_simp
  ultimately show ?thesis using workstealing_no_assertion_fails [OF s0] by blast
qed

text \<open>
  C28: stealing moves one fiber from one thread to another. \<^verbatim>\<open>steal\<close> takes the first ready fiber
  of the victim that is not bound to its thread, however many bound fibers stand before it; the
  other fibers of the victim keep their places. Handed to the scheduler of the thief, the fiber stands
  at the end of its line. No fiber is lost or in both threads.
\<close>

theorem steal_moves_fiber:
  assumes V: "fm_queues ws_rep w m1 ws1 rs1" and T: "fm_queues ws_rep w m2 ws2 rs2"
    and disj: "(set ws1 \<union> set rs1) \<inter> (set ws2 \<union> set rs2) = {}"
    and first: "rs1 = bound @ f # rest" "\<forall>x \<in> set bound. thread_affinity (w_heap w x)" "\<not> thread_affinity (w_heap w f)"
  shows "\<exists>h' q' w2 m2'. workstealing_steal (w_heap w) (fm_sched_algo m1) = Some (Some f, h', q') \<and>
     fm_spawn workstealing_algo f (w\<lparr>w_heap := h'\<rparr>) m2 = Some (w2, m2') \<and>
     fm_queues ws_rep w2 (m1\<lparr>fm_sched_algo := q'\<rparr>) ws1 (bound @ rest) \<and> fm_queues ws_rep w2 m2' ws2 (rs2 @ [f])"
proof -
  note D = fm_queuesD [OF V]
  have split: "takeWhile (\<lambda>x. thread_affinity (w_heap w x)) rs1 = bound"
    "dropWhile (\<lambda>x. thread_affinity (w_heap w x)) rs1 = f # rest"
    using first takeWhile_dropWhile_split [of bound "\<lambda>x. thread_affinity (w_heap w x)" "f # rest"] by auto
  from ws_steal_rep [OF D(3)] split obtain h' q' where st: "ws_steal (w_heap w) (fm_sched_algo m1) = Some (Some f, h', q')"
    "ws_rep h' q' (bound @ rest)" "wf_nxt (h' f) = None" "wf_prev (h' f) = None" "links_frame (set rs1) (w_heap w) h'"
    by auto
  let ?w = "w\<lparr>w_heap := h'\<rparr>"
  note F = links_frame_fields [OF st(5)]
  have out: "h' x = w_heap w x" if "x \<notin> set rs1" for x using links_frame_outside [OF st(5) that] .
  have outw: "h' x = w_heap w x" if "x \<in> set ws1" for x using out [of x] that D(4) by blast
  have dist: "distinct rs1" using D(3) by (simp add: ws_rep_def)
  have V1: "fm_queues ws_rep ?w (m1\<lparr>fm_sched_algo := q'\<rparr>) ws1 (bound @ rest)"
  proof -
    have "wq_rep ?w (fm_wqueue m1) ws1" by (rule wq_rep_cong [OF D(1)]) (simp_all add: outw)
    moreover have "wq_ordered h' ws1" by (rule wq_ordered_frame [OF st(5) D(2)])
    ultimately show ?thesis
      using st(2) V first(1) by (auto simp: fm_queues_def F has_coro_def)
  qed
  have T1: "fm_queues ws_rep ?w m2 ws2 rs2" by (rule wsa.queues_cong [OF T]) (use disj out in auto)
  have f: "f \<notin> set ws2" "f \<notin> set rs2" "f \<notin> set ws1" using disj first(1) D(4) by auto
  have fr: "wf_state (w_heap ?w f) = READY" "unqueued (w_heap ?w f)" "wf_tp (w_heap ?w f) = time_point_max" "has_coro (w_heap ?w f)"
    using V first(1) st(3,4) by (auto simp: fm_queues_def F unqueued_def has_coro_def)
  from wsa.spawn_ok [OF T1 f(1,2) fr] obtain w2 m2' ys where sp: "fm_spawn workstealing_algo f ?w m2 = Some (w2, m2')"
    "fm_queues ws_rep w2 m2' ws2 ys" "links_frame (insert f (set rs2)) h' (w_heap w2)" "w_wqs w2 = w_wqs w" by auto
  have "ws_rep (w_heap w2) (fm_sched_algo m2') (rs2 @ [f])"
    using sp(1) wsa.awakened_fifo [OF fm_queuesD(3) [OF T1] f(2), of "w_heap w2" "fm_sched_algo m2'"] fr
    by (auto simp: fm_spawn_def unqueued_def is_ready_def split: bind_splits)
  with fm_queuesD(3) [OF sp(2)] have "ys = rs2 @ [f]" by (rule wsa.rq_unique)
  moreover have "fm_queues ws_rep w2 (m1\<lparr>fm_sched_algo := q'\<rparr>) ws1 (bound @ rest)"
  proof (rule wsa.queues_cong [OF V1])
    show "w_heap w2 x = w_heap ?w x" if "x \<in> set ws1 \<union> set (bound @ rest)" for x
      using that links_frame_outside [OF sp(3), of x] disj first(1) f(3) dist by auto
  qed (simp_all add: sp(4))
  ultimately show ?thesis using st(1) sp by (auto simp: workstealing_steal_def)
qed

theorem steal_moves_fiber_witness:
  "\<exists>h' q' w2 m2'. workstealing_steal (w_heap (sy_world demo_ws)) (fm_sched_algo (sy_mgr demo_ws)) = Some (Some 2, h', q') \<and>
     fm_spawn workstealing_algo 2 ((sy_world demo_ws)\<lparr>w_heap := h'\<rparr>) (fm_set_sched_algo ws_queue_init (fiber_manager_init 1)) =
       Some (w2, m2') \<and>
     fm_queues ws_rep w2 ((sy_mgr demo_ws)\<lparr>fm_sched_algo := q'\<rparr>) [] [] \<and> fm_queues ws_rep w2 m2' [] [2]"
proof -
  have "fm_queues ws_rep (sy_world demo_ws) (sy_mgr demo_ws) [] [2]"
    "fm_queues ws_rep (sy_world demo_ws) (fm_set_sched_algo ws_queue_init (fiber_manager_init 1)) [] []"
    "\<not> thread_affinity (w_heap (sy_world demo_ws) 2)" by code_simp+
  from steal_moves_fiber [OF this(1,2), of "[]" 2 "[]"] this(3) show ?thesis by auto
qed

end
