(* ===== verification/Asio_Integration.thy ===== *)
theory Asio_Integration
  imports Packaged_Task Scheduler_Instance Scheduler_Properties
begin

text \<open>
  The adaptors that let a fiber wait for an asynchronous operation of Boost.Asio
  (\<^verbatim>\<open>examples/asio\<close>: \<^verbatim>\<open>spawn.hpp\<close>, \<^verbatim>\<open>yield.hpp\<close>, \<^verbatim>\<open>use_future.hpp\<close>, \<^verbatim>\<open>loop.hpp\<close> and the
  files of the same names under \<^verbatim>\<open>detail\<close>). Boost.Asio itself is not part of the sources: when it
  calls a completion handler, and with which error code and value, is an argument of the
  definitions; \<open>'h\<close> is the type of the handler of the user, which is only stored.
\<close>

section \<open>Contexts\<close>

text \<open>An \<^verbatim>\<open>error_code\<close> converts to true if its number is not 0; the default constructor gives \<open>no_error\<close>.\<close>

definition ec_failed :: "error_code \<Rightarrow> bool" where
  "ec_failed ec \<longleftrightarrow> fst ec \<noteq> 0"

definition no_error :: error_code where
  "no_error = (0, system_category)"

text \<open>Pointers to error codes and to values are addresses in this memory.\<close>

record 'v async_mem =
  am_ec :: "nat \<Rightarrow> error_code"
  am_value :: "nat \<Rightarrow> 'v"

record 'h yield_context =
  yc_fiber :: "fiber_base option"
  yc_handler :: 'h
  yc_ec :: "nat option"

definition yield_context_ctor :: "fiber_base option \<Rightarrow> 'h \<Rightarrow> 'h yield_context" where
  "yield_context_ctor fib handler = \<lparr>yc_fiber = fib, yc_handler = handler, yc_ec = None\<rparr>"

definition yield_context_subscript :: "nat \<Rightarrow> 'h yield_context \<Rightarrow> 'h yield_context" where
  "yield_context_subscript ec this = this\<lparr>yc_ec := Some ec\<rparr>"

text \<open>The constant \<^verbatim>\<open>yield\<close> of class \<^verbatim>\<open>yield_t\<close> is only the pointer \<^verbatim>\<open>ec_\<close>.\<close>

record yield_t =
  yt_ec :: "nat option"

definition yield_t_ctor :: yield_t where
  "yield_t_ctor = \<lparr>yt_ec = None\<rparr>"

definition yield_t_subscript :: "nat \<Rightarrow> yield_t \<Rightarrow> yield_t" where
  "yield_t_subscript ec this = yield_t_ctor\<lparr>yt_ec := Some ec\<rparr>"

section \<open>Completion handlers\<close>

record 'h fiber_handler =
  fh_fiber :: "fiber_base option"
  fh_handler :: 'h
  fh_ec :: "nat option"
  fh_value :: "nat option"

definition fiber_handler_ctor :: "'h yield_context \<Rightarrow> 'h fiber_handler" where
  "fiber_handler_ctor ctx =
     \<lparr>fh_fiber = yc_fiber ctx, fh_handler = yc_handler ctx, fh_ec = yc_ec ctx, fh_value = None\<rparr>"

text \<open>The handler of an operation without value has no pointer to one.\<close>

definition fiber_handler_void_ctor :: "'h yield_context \<Rightarrow> 'h fiber_handler" where
  "fiber_handler_void_ctor ctx =
     \<lparr>fh_fiber = yc_fiber ctx, fh_handler = yc_handler ctx, fh_ec = yc_ec ctx, fh_value = None\<rparr>"

text \<open>The handler has been called: store through the pointers, then wake the fiber.\<close>

definition fiber_handler_ec ::
  "error_code \<Rightarrow> 'v \<Rightarrow> 'h fiber_handler \<Rightarrow> 'v async_mem \<Rightarrow> world \<Rightarrow> ('v async_mem \<times> world) option" where
  "fiber_handler_ec ec value h mem w = do {
     e \<leftarrow> fh_ec h;
     let mem1 = mem\<lparr>am_ec := (am_ec mem)(e := ec)\<rparr>;
     v \<leftarrow> fh_value h;
     let mem2 = mem1\<lparr>am_value := (am_value mem1)(v := value)\<rparr>;
     n \<leftarrow> fh_fiber h;
     w' \<leftarrow> fb_set_ready n w;
     Some (mem2, w') }"

definition fiber_handler_call ::
  "'v \<Rightarrow> 'h fiber_handler \<Rightarrow> 'v async_mem \<Rightarrow> world \<Rightarrow> ('v async_mem \<times> world) option" where
  "fiber_handler_call value h mem w = fiber_handler_ec no_error value h mem w"

definition fiber_handler_void_ec ::
  "error_code \<Rightarrow> 'h fiber_handler \<Rightarrow> 'v async_mem \<Rightarrow> world \<Rightarrow> ('v async_mem \<times> world) option" where
  "fiber_handler_void_ec ec h mem w = do {
     e \<leftarrow> fh_ec h;
     let mem1 = mem\<lparr>am_ec := (am_ec mem)(e := ec)\<rparr>;
     n \<leftarrow> fh_fiber h;
     w' \<leftarrow> fb_set_ready n w;
     Some (mem1, w') }"

definition fiber_handler_void_call ::
  "'h fiber_handler \<Rightarrow> 'v async_mem \<Rightarrow> world \<Rightarrow> ('v async_mem \<times> world) option" where
  "fiber_handler_void_call h mem w = fiber_handler_void_ec no_error h mem w"

text \<open>
  \<^verbatim>\<open>yield_handler\<close> has the same members but no handler of the user, and takes the fiber that is
  active when it is constructed; its calls have the same text.
\<close>

type_synonym yield_handler = "unit fiber_handler"

definition yield_handler_ctor :: "'s fiber_manager \<Rightarrow> yield_t \<Rightarrow> yield_handler" where
  "yield_handler_ctor m y =
     \<lparr>fh_fiber = map_option Worker (fm_active m), fh_handler = (), fh_ec = yt_ec y, fh_value = None\<rparr>"

definition yield_handler_ec ::
  "error_code \<Rightarrow> 'v \<Rightarrow> yield_handler \<Rightarrow> 'v async_mem \<Rightarrow> world \<Rightarrow> ('v async_mem \<times> world) option" where
  "yield_handler_ec ec t h mem w = fiber_handler_ec ec t h mem w"

definition yield_handler_call ::
  "'v \<Rightarrow> yield_handler \<Rightarrow> 'v async_mem \<Rightarrow> world \<Rightarrow> ('v async_mem \<times> world) option" where
  "yield_handler_call t h mem w = yield_handler_ec no_error t h mem w"

definition yield_handler_void_ec ::
  "error_code \<Rightarrow> yield_handler \<Rightarrow> 'v async_mem \<Rightarrow> world \<Rightarrow> ('v async_mem \<times> world) option" where
  "yield_handler_void_ec ec h mem w = fiber_handler_void_ec ec h mem w"

definition yield_handler_void_call ::
  "yield_handler \<Rightarrow> 'v async_mem \<Rightarrow> world \<Rightarrow> ('v async_mem \<times> world) option" where
  "yield_handler_void_call h mem w = yield_handler_void_ec no_error h mem w"

section \<open>The result of the initiating function\<close>

text \<open>An \<^verbatim>\<open>async_result\<close>: its member \<^verbatim>\<open>out_ec_\<close> and the addresses of its members \<^verbatim>\<open>ec_\<close> and \<^verbatim>\<open>value_\<close>.\<close>

record async_result =
  ar_out_ec :: "nat option"
  ar_ec :: nat
  ar_value :: nat

definition async_result_bind :: "nat \<Rightarrow> nat \<Rightarrow> 'h fiber_handler \<Rightarrow> async_result \<times> 'h fiber_handler" where
  "async_result_bind e v h =
     (let out = fh_ec h;
          h1 = (if out = None then h\<lparr>fh_ec := Some e\<rparr> else h)
      in (\<lparr>ar_out_ec = out, ar_ec = e, ar_value = v\<rparr>, h1\<lparr>fh_value := Some v\<rparr>))"

text \<open>\<open>d\<close> is the value of \<^verbatim>\<open>T()\<close>.\<close>

definition async_result_ctor ::
  "'v \<Rightarrow> nat \<Rightarrow> nat \<Rightarrow> 'h fiber_handler \<Rightarrow> 'v async_mem \<Rightarrow> async_result \<times> 'h fiber_handler \<times> 'v async_mem" where
  "async_result_ctor d e v h mem =
     (let (r, h') = async_result_bind e v h
      in (r, h', mem\<lparr>am_ec := (am_ec mem)(e := no_error), am_value := (am_value mem)(v := d)\<rparr>))"

text \<open>The constructor in \<^verbatim>\<open>detail/yield.hpp\<close> leaves \<^verbatim>\<open>value_\<close> as it is.\<close>

definition yield_async_result_ctor ::
  "nat \<Rightarrow> nat \<Rightarrow> yield_handler \<Rightarrow> 'v async_mem \<Rightarrow> async_result \<times> yield_handler \<times> 'v async_mem" where
  "yield_async_result_ctor e v h mem =
     (let (r, h') = async_result_bind e v h
      in (r, h', mem\<lparr>am_ec := (am_ec mem)(e := no_error)\<rparr>))"

text \<open>For \<^verbatim>\<open>void\<close> there is no value.\<close>

definition async_result_void_ctor ::
  "nat \<Rightarrow> 'h fiber_handler \<Rightarrow> 'v async_mem \<Rightarrow> async_result \<times> 'h fiber_handler \<times> 'v async_mem" where
  "async_result_void_ctor e h mem =
     (let out = fh_ec h;
          h1 = (if out = None then h\<lparr>fh_ec := Some e\<rparr> else h)
      in (\<lparr>ar_out_ec = out, ar_ec = e, ar_value = 0\<rparr>, h1, mem\<lparr>am_ec := (am_ec mem)(e := no_error)\<rparr>))"

text \<open>\<^verbatim>\<open>get\<close>, up to the suspension inside \<^verbatim>\<open>wait\<close>, and after it.\<close>

definition async_result_get_enter ::
  "world \<Rightarrow> 's fiber_manager \<Rightarrow> (world \<times> 's fiber_manager) option" where
  "async_result_get_enter w m = do {
     l \<leftarrow> spin_lock spinlock_init;
     (l', w', m') \<leftarrow> fm_wait_enter l w m;
     Some (w', m') }"

definition async_result_get_leave :: "async_result \<Rightarrow> 'v async_mem \<Rightarrow> 'v result" where
  "async_result_get_leave r mem =
     (if ar_out_ec r = None \<and> ec_failed (am_ec mem (ar_ec r)) then Inl (system_error (am_ec mem (ar_ec r)))
      else Inr (am_value mem (ar_value r)))"

definition async_result_void_get_leave :: "async_result \<Rightarrow> 'v async_mem \<Rightarrow> unit result" where
  "async_result_void_get_leave r mem =
     (if ar_out_ec r = None \<and> ec_failed (am_ec mem (ar_ec r)) then Inl (system_error (am_ec mem (ar_ec r)))
      else Inr ())"

text \<open>The same functions of the result objects in \<^verbatim>\<open>detail/yield.hpp\<close> and of those for \<^verbatim>\<open>void\<close>.\<close>

definition async_result_void_get_enter ::
  "world \<Rightarrow> 's fiber_manager \<Rightarrow> (world \<times> 's fiber_manager) option" where
  "async_result_void_get_enter w m = async_result_get_enter w m"

definition yield_async_result_get_enter ::
  "world \<Rightarrow> 's fiber_manager \<Rightarrow> (world \<times> 's fiber_manager) option" where
  "yield_async_result_get_enter w m = async_result_get_enter w m"

definition yield_async_result_get_leave :: "async_result \<Rightarrow> 'v async_mem \<Rightarrow> 'v result" where
  "yield_async_result_get_leave r mem =
     (if ar_out_ec r = None \<and> ec_failed (am_ec mem (ar_ec r)) then Inl (system_error (am_ec mem (ar_ec r)))
      else Inr (am_value mem (ar_value r)))"

definition yield_async_result_void_ctor ::
  "nat \<Rightarrow> yield_handler \<Rightarrow> 'v async_mem \<Rightarrow> async_result \<times> yield_handler \<times> 'v async_mem" where
  "yield_async_result_void_ctor e h mem = async_result_void_ctor e h mem"

definition yield_async_result_void_get_leave :: "async_result \<Rightarrow> 'v async_mem \<Rightarrow> unit result" where
  "yield_async_result_void_get_leave r mem = async_result_void_get_leave r mem"

section \<open>Handlers that fulfil a promise\<close>

text \<open>A \<^verbatim>\<open>promise_handler\<close> owns its promise through a shared pointer.\<close>

definition promise_handler_ctor :: "'v states \<Rightarrow> (promise \<times> 'v states) option" where
  "promise_handler_ctor st = promise_ctor st"

definition promise_handler_call ::
  "'v \<Rightarrow> mfid \<Rightarrow> world \<Rightarrow> 's fiber_manager \<Rightarrow> 'v states \<Rightarrow> promise \<Rightarrow>
   (unit result turn \<times> 'v states \<times> world \<times> 's fiber_manager) option" where
  "promise_handler_call t k w m st p = promise_set_value (Inr t) k w m st p"

definition promise_handler_ec ::
  "error_code \<Rightarrow> 'v \<Rightarrow> mfid \<Rightarrow> world \<Rightarrow> 's fiber_manager \<Rightarrow> 'v states \<Rightarrow> promise \<Rightarrow>
   (unit result turn \<times> 'v states \<times> world \<times> 's fiber_manager) option" where
  "promise_handler_ec ec t k w m st p =
     (if ec_failed ec then promise_set_exception (system_error ec) k w m st p
      else promise_set_value (Inr t) k w m st p)"

definition promise_handler_void_call ::
  "mfid \<Rightarrow> world \<Rightarrow> 's fiber_manager \<Rightarrow> unit states \<Rightarrow> promise \<Rightarrow>
   (unit result turn \<times> unit states \<times> world \<times> 's fiber_manager) option" where
  "promise_handler_void_call k w m st p = promise_void_set_value k w m st p"

definition promise_handler_void_ec ::
  "error_code \<Rightarrow> mfid \<Rightarrow> world \<Rightarrow> 's fiber_manager \<Rightarrow> unit states \<Rightarrow> promise \<Rightarrow>
   (unit result turn \<times> unit states \<times> world \<times> 's fiber_manager) option" where
  "promise_handler_void_ec ec k w m st p =
     (if ec_failed ec then promise_set_exception (system_error ec) k w m st p
      else promise_void_set_value k w m st p)"

text \<open>A function invoked for the handler: what it throws, if it does, becomes the result.\<close>

definition asio_handler_invoke ::
  "unit result \<Rightarrow> mfid \<Rightarrow> world \<Rightarrow> 's fiber_manager \<Rightarrow> 'v states \<Rightarrow> promise \<Rightarrow>
   (unit result turn \<times> 'v states \<times> world \<times> 's fiber_manager) option" where
  "asio_handler_invoke f k w m st p =
     (case f of
        Inr u \<Rightarrow> Some (Done (Inr ()), st, w, m)
      | Inl e \<Rightarrow> promise_set_exception e k w m st p)"

text \<open>\<^verbatim>\<open>async_result\<close> of such a handler keeps the future until it is moved out.\<close>

definition promise_async_result_ctor :: "'v states \<Rightarrow> promise \<Rightarrow> (future result \<times> promise \<times> 'v states) option" where
  "promise_async_result_ctor st p = do {
     (r, p', st1) \<leftarrow> promise_get_future st p;
     case r of
       Inl e \<Rightarrow> Some (Inl e, p', st1)
     | Inr f \<Rightarrow> do {
         (value', f', st2) \<leftarrow> future_assign None f st1;
         Some (Inr value', p', st2) } }"

definition promise_async_result_get :: "future \<Rightarrow> future \<times> future" where
  "promise_async_result_get value = future_move_ctor value"

section \<open>Starting a fiber for a function\<close>

record 'h spawn_data =
  sd_fiber :: "fiber_base option"
  sd_handler :: 'h
  sd_call_handler :: bool

text \<open>The constructor does not set \<^verbatim>\<open>fiber_\<close>, which holds garbage \<open>g\<close> until the fiber runs.\<close>

definition spawn_data_ctor :: "fiber_base option \<Rightarrow> 'h \<Rightarrow> bool \<Rightarrow> 'h spawn_data" where
  "spawn_data_ctor g handler call_handler = \<lparr>sd_fiber = g, sd_handler = handler, sd_call_handler = call_handler\<rparr>"

text \<open>\<^verbatim>\<open>spawn_helper\<close>: a detached fiber at the address \<open>f\<close>, whose handle is destroyed.\<close>

definition spawn_helper_call ::
  "'s sched_algorithm \<Rightarrow> fid \<Rightarrow> world \<Rightarrow> 's fiber_manager \<Rightarrow> (unit result \<times> world \<times> 's fiber_manager) option" where
  "spawn_helper_call A f w m = do {
     (fb, w1, m1) \<leftarrow> fiber_ctor A f w m;
     (fb', r, w2) \<leftarrow> fiber_detach fb w1;
     x \<leftarrow> fiber_dtor fb' w2;
     case x of
       Inl u \<Rightarrow> None
     | Inr w3 \<Rightarrow> Some (r, w3, m1) }"

text \<open>
  \<^verbatim>\<open>fiber_entry_point\<close>, up to the call of the function of the user, to which it gives the context,
  and after it: whether the handler is called.
\<close>

definition fiber_entry_enter :: "'s fiber_manager \<Rightarrow> 'h spawn_data \<Rightarrow> 'h spawn_data \<times> 'h yield_context" where
  "fiber_entry_enter m data =
     (let data' = data\<lparr>sd_fiber := map_option Worker (fm_active m)\<rparr>
      in (data', yield_context_ctor (sd_fiber data') (sd_handler data')))"

definition fiber_entry_leave :: "'h spawn_data \<Rightarrow> 'h option" where
  "fiber_entry_leave data = (if sd_call_handler data then Some (sd_handler data) else None)"

text \<open>
  \<^verbatim>\<open>spawn\<close> with a handler hands the helper to Asio, which invokes it through that handler;
  the overloads for a strand and for a service pass the default handler of the strand.
\<close>

definition asio_spawn :: "fiber_base option \<Rightarrow> 'h \<Rightarrow> 'h spawn_data" where
  "asio_spawn g handler = spawn_data_ctor g handler True"

definition asio_spawn_strand :: "('d \<Rightarrow> 'h) \<Rightarrow> 'd \<Rightarrow> fiber_base option \<Rightarrow> 'h spawn_data" where
  "asio_spawn_strand wrap default_spawn_handler g = asio_spawn g (wrap default_spawn_handler)"

section \<open>The loop that runs the service\<close>

text \<open>
  \<^verbatim>\<open>timer_handler\<close> runs in the fiber of \<^verbatim>\<open>run_service\<close>: it lets the other fibers run, and sets
  the timer to the next deadline of the scheduler.
\<close>

definition timer_handler_enter :: "world \<Rightarrow> 's fiber_manager \<Rightarrow> (world \<times> 's fiber_manager) option" where
  "timer_handler_enter w m = fm_yield_enter w m"

definition timer_handler_leave :: "time_point \<Rightarrow> world \<Rightarrow> 's fiber_manager \<Rightarrow> time_point option" where
  "timer_handler_leave now w m = fm_next_wakeup now w m"

section \<open>Properties\<close>

text \<open>The handler points to the result object, or to the variable of the caller.\<close>

lemma async_result_ctor_shape:
  assumes "async_result_ctor d e v h0 mem = (r, h, mem1)"
  shows "fh_fiber h = fh_fiber h0" "fh_ec h = Some (case fh_ec h0 of None \<Rightarrow> e | Some p \<Rightarrow> p)" "fh_value h = Some v"
    "r = \<lparr>ar_out_ec = fh_ec h0, ar_ec = e, ar_value = v\<rparr>" "am_ec mem1 e = no_error" "am_value mem1 v = d"
  using assms by (auto simp: async_result_ctor_def async_result_bind_def Let_def split: option.splits if_splits)

text \<open>Waiting for the handler: the fiber sleeps without deadline.\<close>

lemma async_result_get_enter_ok:
  assumes "fm_queues fifo_rep w m ws rs" and "fm_running w m a"
  shows "\<exists>w'. async_result_get_enter w m = Some (w', m) \<and> fm_queues fifo_rep w' m (ws @ [a]) rs \<and>
     is_waiting (w_heap w') a \<and> (\<forall>g. g \<noteq> a \<longrightarrow> wf_state (w_heap w' g) = wf_state (w_heap w g))"
  using rr.wait_enter_ok [OF assms] by (auto simp: async_result_get_enter_def spin_lock_def spinlock_init_def)

lemma handler_wakes:
  assumes "fm_queues fifo_rep w m (ws @ [a]) rs"
  shows "\<exists>w'. fb_set_ready (Worker a) w = Some w' \<and> fm_queues fifo_rep w' m (a # remove1 a (ws @ [a])) rs \<and>
     is_ready (w_heap w') a"
proof -
  from rr.set_ready_queues [OF assms, of a] obtain w' where w': "set_ready a w = Some w'"
    "fm_queues fifo_rep w' m (a # remove1 a (ws @ [a])) rs"
    "links_frame (set (ws @ [a])) (ready_all {a} (w_heap w)) (w_heap w')" by auto
  then show ?thesis using links_frame_fields(5) [OF w'(3), of a]
    by (auto simp: fb_set_ready_def is_ready_def ready_all_def)
qed

text \<open>
  C24: an asynchronous operation delivers its outcome to the fiber that waits for it. The fiber sleeps
  in \<^verbatim>\<open>get\<close>; the completion handler stores the error code and the value and wakes it; the next turn
  of the scheduler resumes it if no other fiber was ready; then \<^verbatim>\<open>get\<close> throws \<^verbatim>\<open>system_error\<close> with the
  code if the operation failed and the caller gave no variable for the code, and returns the value
  otherwise; a variable given as \<^verbatim>\<open>yield[ec]\<close> holds the code.
\<close>

theorem async_result_delivers:
  assumes "fm_queues fifo_rep w m ws []" and "fm_running w m a"
    and "yc_fiber ctx = Some (Worker a)" and "yc_ec ctx \<noteq> Some e"
    and "async_result_ctor d e v (fiber_handler_ctor ctx) mem = (r, h, mem1)"
  shows "\<exists>w1 mem2 w2 w3 m3. async_result_get_enter w m = Some (w1, m) \<and> is_waiting (w_heap w1) a \<and>
     fiber_handler_ec ec x h mem1 w1 = Some (mem2, w2) \<and>
     fm_run round_robin_algo now now' w2 (m\<lparr>fm_active := None\<rparr>) = Some (Resumed a None, w3, m3) \<and>
     async_result_get_leave r mem2 =
       (if yc_ec ctx = None \<and> ec_failed ec then Inl (system_error ec) else Inr x) \<and>
     (\<forall>p. yc_ec ctx = Some p \<longrightarrow> am_ec mem2 p = ec)"
proof -
  from async_result_get_enter_ok [OF assms(1,2)] obtain w1 where w1: "async_result_get_enter w m = Some (w1, m)"
    "fm_queues fifo_rep w1 m (ws @ [a]) []" "is_waiting (w_heap w1) a" by blast
  from handler_wakes [OF w1(2)] obtain w2 where w2: "fb_set_ready (Worker a) w1 = Some w2"
    "fm_queues fifo_rep w2 m (a # remove1 a (ws @ [a])) []" "is_ready (w_heap w2) a" by blast
  from woken_is_resumed [OF w2(2,3), of now now'] obtain w3 m3 where
    "fm_run round_robin_algo now now' w2 (m\<lparr>fm_active := None\<rparr>) = Some (Resumed a None, w3, m3)" by blast
  moreover have "\<exists>mem2. fiber_handler_ec ec x h mem1 w1 = Some (mem2, w2) \<and>
     async_result_get_leave r mem2 = (if yc_ec ctx = None \<and> ec_failed ec then Inl (system_error ec) else Inr x) \<and>
     (\<forall>p. yc_ec ctx = Some p \<longrightarrow> am_ec mem2 p = ec)"
    using assms(3,4) w2(1) async_result_ctor_shape [OF assms(5)]
    by (auto simp: fiber_handler_ctor_def fiber_handler_ec_def async_result_get_leave_def split: option.splits)
  ultimately show ?thesis using w1(1,3) by blast
qed

text \<open>The context of fiber 1, as a witness uses it.\<close>

definition demo_mem :: "int async_mem" where
  "demo_mem = \<lparr>am_ec = (\<lambda>_. no_error), am_value = (\<lambda>_. 0)\<rparr>"

definition demo_ctx :: "unit yield_context" where
  "demo_ctx = yield_context_ctor (Some (Worker 1)) ()"

theorem async_result_delivers_witness:
  "\<exists>r h mem1 w1 mem2 w2 w3 m3.
     async_result_ctor 0 100 200 (fiber_handler_ctor demo_ctx) demo_mem = (r, h, mem1) \<and>
     async_result_get_enter (sy_world demo_sys4) (sy_mgr demo_sys4) = Some (w1, sy_mgr demo_sys4) \<and>
     fiber_handler_ec (104, system_category) 5 h mem1 w1 = Some (mem2, w2) \<and>
     fm_run round_robin_algo 1 2 w2 ((sy_mgr demo_sys4)\<lparr>fm_active := None\<rparr>) = Some (Resumed 1 None, w3, m3) \<and>
     async_result_get_leave r mem2 = Inl (system_error (104, system_category))"
proof -
  obtain r h mem1 where c: "async_result_ctor 0 100 200 (fiber_handler_ctor demo_ctx) demo_mem = (r, h, mem1)"
    by (metis prod_cases3)
  have "yc_fiber demo_ctx = Some (Worker 1)" "yc_ec demo_ctx \<noteq> Some 100" "yc_ec demo_ctx = None"
    by (simp_all add: demo_ctx_def yield_context_ctor_def)
  with async_result_delivers [OF demo_sys4_queues(1,2) this(1,2) c, of "(104, system_category)" 5 1 2] c show ?thesis
    by (fastforce simp: ec_failed_def)
qed

text \<open>
  An operation that completes too early is lost. If the handler is called, by a thread that runs
  the service, before the fiber that started the operation has reached \<^verbatim>\<open>get\<close>, the assertion in
  \<^verbatim>\<open>wait\<close> fails: the fiber is not running any more but ready.
\<close>

theorem async_completion_too_early:
  assumes "fm_running w m a" and "yc_fiber ctx = Some (Worker a)"
    and "async_result_ctor d e v (fiber_handler_ctor ctx) mem = (r, h, mem1)"
  shows "\<exists>mem2 w2. fiber_handler_ec ec x h mem1 w = Some (mem2, w2) \<and> async_result_get_enter w2 m = None"
proof -
  have a: "fm_active m = Some a" "wf_phead (w_heap w a) = None" "wf_state (w_heap w a) = RUNNING"
    using assms(1) by (simp_all add: fm_running_def unqueued_def)
  then have "set_ready a w = Some (mark_ready a w)" by (simp add: set_ready_outside)
  moreover have "\<not> is_running (w_heap (mark_ready a w)) a" by (simp add: is_running_def)
  ultimately show ?thesis
    using assms(2) a(1) async_result_ctor_shape [OF assms(3)]
    by (auto simp: fiber_handler_ctor_def fiber_handler_ec_def fb_set_ready_def async_result_get_enter_def
        spin_lock_def spinlock_init_def fm_wait_enter_def fm_wait_until_enter_def assert_that_def)
qed

theorem async_completion_too_early_witness:
  "\<exists>h :: unit fiber_handler. \<exists>mem1 mem2 w2. fiber_handler_ec no_error 5 h mem1 (sy_world demo_sys4) = Some (mem2 :: int async_mem, w2) \<and>
     async_result_get_enter w2 (sy_mgr demo_sys4) = None"
proof -
  obtain r h mem1 where c: "async_result_ctor 0 100 200 (fiber_handler_ctor demo_ctx) demo_mem = (r, h, mem1)"
    by (metis prod_cases3)
  have "yc_fiber demo_ctx = Some (Worker 1)" by (simp add: demo_ctx_def yield_context_ctor_def)
  from async_completion_too_early [OF demo_sys4_queues(2) this c, of no_error 5] show ?thesis by blast
qed

text \<open>
  A fiber that is interrupted while it waits for an operation returns from \<^verbatim>\<open>get\<close> before the
  operation has completed, without an error and with the initial value.
\<close>

theorem async_get_interrupted:
  assumes "fm_queues fifo_rep w m ws []" and "fm_running w m a"
    and "async_result_ctor d e v h0 mem = (r, h, mem1)"
  shows "\<exists>w1 w2 w3 m3. async_result_get_enter w m = Some (w1, m) \<and> request_interruption True a w1 = Some w2 \<and>
     fm_run round_robin_algo now now' w2 (m\<lparr>fm_active := None\<rparr>) = Some (Resumed a None, w3, m3) \<and>
     async_result_get_leave r mem1 = Inr d"
proof -
  from async_result_get_enter_ok [OF assms(1,2)] obtain w1 where w1: "async_result_get_enter w m = Some (w1, m)"
    "fm_queues fifo_rep w1 m (ws @ [a]) []" by blast
  from interrupt_wakes_waiting [OF w1(2), of a] obtain w2 where w2: "request_interruption True a w1 = Some w2"
    "fm_queues fifo_rep w2 m (a # remove1 a (ws @ [a])) []" "is_ready (w_heap w2) a" by auto
  from woken_is_resumed [OF w2(2,3), of now now'] w1(1) w2(1) async_result_ctor_shape [OF assms(3)] show ?thesis
    by (auto simp: async_result_get_leave_def ec_failed_def no_error_def)
qed

text \<open>
  With \<^verbatim>\<open>use_future\<close> the caller gets a future. The handler creates a promise, the result object
  takes its future and gives it to the caller; when the operation completes the handler sets the
  promise, and \<^verbatim>\<open>get\<close> returns the value, or throws \<^verbatim>\<open>system_error\<close> with the code of the
  operation.
\<close>

theorem asio_future_receives:
  assumes H: "handles st H" and room: "size H + 2 < 2 ^ 64" and Q: "fm_queues fifo_rep w m ws rs"
  shows "\<exists>i p st1 p1 st2 st3 w3 st4 w4. promise_handler_ctor st = Some (p, st1) \<and>
     promise_async_result_ctor st1 p = Some (Inr (Some i), p1, st2) \<and> Some i \<notin># H \<and>
     promise_async_result_get (Some i) = (Some i, None) \<and>
     promise_handler_ec ec t k w m st2 p1 = Some (Done (Inr ()), st3, w3, m) \<and>
     future_get k w3 m st3 (Some i) =
       Some (Done (if ec_failed ec then Inl (system_error ec) else Inr t), None, None, st4, w4, m)"
proof -
  let ?i = "st_fresh st" and ?op = "if ec_failed ec then Set_exception (system_error ec) else Set_value t"
  let ?p = "\<lparr>pr_obtained = False, pr_future = Some ?i\<rparr>" and ?H = "add_mset (Some ?i) (add_mset (Some ?i) H)"
  from handles_new [OF H] room obtain st1 where st1: "ptr_new st = Some (Some ?i, st1)"
    "handles st1 (add_mset (Some ?i) H)" "st_obj st1 ?i = Some (shared_state_ctor\<lparr>ss_use_count := 1\<rparr>)" by auto
  from handles_copy [OF st1(2), of "Some ?i"] room obtain st2 where st2: "ptr_copy (Some ?i) st1 = Some (Some ?i, st2)"
    "handles st2 ?H" by auto
  have obj: "st_obj st2 ?i = Some (shared_state_ctor\<lparr>ss_use_count := 2\<rparr>)"
    using st2(1) st1(3) by (auto simp: ptr_copy_def intrusive_ptr_add_ref_def shared_state_ctor_def)
  have rep: "ss_rep ss_result (shared_state_ctor\<lparr>ss_use_count := 2\<rparr> :: 'a shared_state) None []"
    using ss_ctor_rep by simp
  have new: "Some ?i \<notin># H" using handlesD(1,2) [OF H, of ?i] by (simp add: count_eq_zero_iff)
  from st_set_first [OF st2(2) _ obj rep Q, of ?op k] obtain st3 s3 w3 where c:
    "st_call (ss_guarded (ss_op ?op) k w m) ?i st2 = Some (Done (Inr ()), st3, w3, m)" "handles st3 ?H"
    "st_obj st3 ?i = Some s3" "ss_rep ss_result s3 (Some (cell_outcome ?op)) []" by auto
  from future_get_ready [OF c(2) _ c(3,4), of k w3 m] obtain st4 w4 where
    "future_get k w3 m st3 (Some ?i) = Some (Done (cell_outcome ?op), None, None, st4, w4, m)" by auto
  with st1(1) st2(1) c(1) new show ?thesis
    by (intro exI [of _ ?i] exI [of _ ?p] exI [of _ st1] exI [of _ "?p\<lparr>pr_obtained := True\<rparr>"] exI [of _ st2]
        exI [of _ st3] exI [of _ w3] exI [of _ st4] exI [of _ w4])
      (simp add: promise_handler_ctor_def promise_ctor_def promise_async_result_ctor_def promise_get_future_def
        future_ctor_ptr_def future_assign_def future_move_ctor_def future_swap_def future_dtor_def ptr_drop_def
        promise_async_result_get_def promise_handler_ec_def promise_set_value_def promise_set_exception_def
        promise_call_def shared_state_set_value_def [abs_def] shared_state_set_exception_def [abs_def] split: if_splits)
qed

theorem asio_future_receives_witness:
  "\<exists>i p st1 p1 st2 st3 w3 st4 w4. promise_handler_ctor demo_states = Some (p, st1) \<and>
     promise_async_result_ctor st1 p = Some (Inr (Some i), p1, st2) \<and>
     promise_handler_ec (104, system_category) 5 0 (sy_world demo_sys2) (sy_mgr demo_sys2) st2 p1 =
       Some (Done (Inr ()), st3, w3, sy_mgr demo_sys2) \<and>
     future_get 0 w3 (sy_mgr demo_sys2) st3 (Some i) =
       Some (Done (Inl (system_error (104, system_category))), None, None, st4, w4, sy_mgr demo_sys2)"
proof -
  have "size {#Some (0 :: sid), Some 0#} + 2 < (2 :: nat) ^ 64" "ec_failed (104, system_category)"
    by (simp_all add: ec_failed_def)
  with asio_future_receives [OF demo_handles this(1) demo_sys2_queues(1), of "(104, system_category)" 5 0] show ?thesis
    by (simp only: if_True) blast
qed

end
