(* ===== verification/Publish_Subscribe.thy ===== *)
theory Publish_Subscribe
  imports Asio_Integration
begin

text \<open>
  The server of the publish/subscribe example (\<^verbatim>\<open>examples/asio/publish_subscribe/server.cpp\<close>), in
  which every client has a fiber of its own: the subscriptions of a channel, the registry of the
  channels, the sessions of publishers and subscribers, and the functions that accept clients. It
  is the one program of the repository that uses mutexes, conditions, the scheduler and the
  adaptors of Asio together. What a client sends, and the error code of a read or write, are
  arguments.
\<close>

section \<open>Messages\<close>

text \<open>
  A message is a buffer of \<^verbatim>\<open>max_length\<close> characters. \<^verbatim>\<open>std::string( data)\<close> reads up to the first
  NUL; without one it reads beyond the buffer, which is undefined.
\<close>

definition max_length :: nat where
  "max_length = 1024"

definition NUL :: char where
  "NUL = CHR 0x00"

definition c_string :: "string \<Rightarrow> string option" where
  "c_string data = (if NUL \<in> set data then Some (takeWhile (\<lambda>c. c \<noteq> NUL) data) else None)"

text \<open>\<^verbatim>\<open>memset\<close> of the whole buffer and \<^verbatim>\<open>memcpy\<close> of the message, undefined if the message is too long.\<close>

definition fill_data :: "string \<Rightarrow> string option" where
  "fill_data msg =
     (if length msg \<le> max_length then Some (msg @ replicate (max_length - length msg) NUL) else None)"

section \<open>Sessions and channels\<close>

type_synonym sess_id = nat

record subscriber_session =
  sub_mtx :: mutex
  sub_cond :: condition
  sub_data :: string

definition subscriber_session_ctor :: "string \<Rightarrow> subscriber_session" where
  "subscriber_session_ctor garbage = \<lparr>sub_mtx = mutex_init, sub_cond = condition_init, sub_data = garbage\<rparr>"

text \<open>
  The registry with its mutex, the sessions the shared pointers refer to, and which sockets are
  open. A \<^verbatim>\<open>subscriptions\<close> object is the list of its subscribers.
\<close>

record server =
  sv_mtx :: mutex
  sv_channels :: "string \<Rightarrow> sess_id list option"
  sv_subs :: "sess_id \<Rightarrow> subscriber_session"
  sv_open :: "sess_id \<Rightarrow> bool"

text \<open>
  How a segment of a call of the registry ends: it has returned, it stands in the line of the
  registry's mutex, or it holds that mutex and stands in the line of a subscriber's mutex, with the
  message and the subscribers that have not got it yet.
\<close>

datatype reg_turn = Returned "unit result" | Reg_line | Sub_line string "sess_id list"

subsection \<open>Delivering a message\<close>

definition subscriber_publish ::
  "string \<Rightarrow> mfid \<Rightarrow> world \<Rightarrow> 's fiber_manager \<Rightarrow> subscriber_session \<Rightarrow>
   (bool \<times> subscriber_session \<times> world \<times> 's fiber_manager) option" where
  "subscriber_publish msg k w m s = do {
     (got, mx, w1, m1) \<leftarrow> ctx_lock k w m (sub_mtx s);
     if got then do {
       data \<leftarrow> fill_data msg;
       (cv, w2) \<leftarrow> condition_notify_one (sub_cond s) w1;
       (mx', w3) \<leftarrow> mutex_unlock w2 m1 mx;
       Some (True, s\<lparr>sub_mtx := mx', sub_cond := cv, sub_data := data\<rparr>, w3, m1) }
     else Some (False, s\<lparr>sub_mtx := mx\<rparr>, w1, m1) }"

definition set_sub :: "sess_id \<Rightarrow> subscriber_session \<Rightarrow> server \<Rightarrow> server" where
  "set_sub i s sv = sv\<lparr>sv_subs := (sv_subs sv)(i := s)\<rparr>"

text \<open>\<^verbatim>\<open>subscriptions::publish\<close>; the destructor does the same with the message \<^verbatim>\<open><fini>\<close>.\<close>

fun subscriptions_publish ::
  "string \<Rightarrow> mfid \<Rightarrow> sess_id list \<Rightarrow> world \<Rightarrow> 's fiber_manager \<Rightarrow> server \<Rightarrow>
   (reg_turn \<times> server \<times> world \<times> 's fiber_manager) option" where
  "subscriptions_publish msg k [] w m sv = Some (Returned (Inr ()), sv, w, m)"
| "subscriptions_publish msg k (i # ss) w m sv = do {
     (got, s, w1, m1) \<leftarrow> subscriber_publish msg k w m (sv_subs sv i);
     if got then subscriptions_publish msg k ss w1 m1 (set_sub i s sv)
     else Some (Sub_line msg (i # ss), set_sub i s sv, w1, m1) }"

definition subscriptions_dtor ::
  "mfid \<Rightarrow> sess_id list \<Rightarrow> world \<Rightarrow> 's fiber_manager \<Rightarrow> server \<Rightarrow>
   (reg_turn \<times> server \<times> world \<times> 's fiber_manager) option" where
  "subscriptions_dtor k ss w m sv = subscriptions_publish ''<fini>'' k ss w m sv"

definition subscriptions_subscribe :: "sess_id \<Rightarrow> sess_id list \<Rightarrow> sess_id list" where
  "subscriptions_subscribe s ss = ss @ [s]"

text \<open>The loop erases the first element that equals \<open>s\<close> and leaves.\<close>

fun subscriptions_unsubscribe :: "sess_id \<Rightarrow> sess_id list \<Rightarrow> sess_id list" where
  "subscriptions_unsubscribe s [] = []"
| "subscriptions_unsubscribe s (i # ss) = (if i = s then ss else i # subscriptions_unsubscribe s ss)"

subsection \<open>The private functions of the registry\<close>

type_synonym 's reg_body = "mfid \<Rightarrow> world \<Rightarrow> 's fiber_manager \<Rightarrow> server \<Rightarrow>
  (reg_turn \<times> server \<times> world \<times> 's fiber_manager) option"

definition register_channel_body :: "string \<Rightarrow> 's reg_body" where
  "register_channel_body ch k w m sv =
     (if sv_channels sv ch \<noteq> None then Some (Returned (Inl (runtime_error ''channel already exists'')), sv, w, m)
      else Some (Returned (Inr ()), sv\<lparr>sv_channels := (sv_channels sv)(ch \<mapsto> [])\<rparr>, w, m))"

text \<open>Erasing the entry destroys the \<^verbatim>\<open>subscriptions\<close> object, which nobody else refers to.\<close>

definition unregister_channel_body :: "string \<Rightarrow> 's reg_body" where
  "unregister_channel_body ch k w m sv =
     (case sv_channels sv ch of
        None \<Rightarrow> Some (Returned (Inr ()), sv, w, m)
      | Some ss \<Rightarrow> subscriptions_dtor k ss w m (sv\<lparr>sv_channels := (sv_channels sv)(ch := None)\<rparr>))"

definition subscribe_body :: "string \<Rightarrow> sess_id \<Rightarrow> 's reg_body" where
  "subscribe_body ch s k w m sv =
     (case sv_channels sv ch of
        None \<Rightarrow> Some (Returned (Inl (runtime_error ''channel does not exist'')), sv, w, m)
      | Some ss \<Rightarrow>
          Some (Returned (Inr ()), sv\<lparr>sv_channels := (sv_channels sv)(ch \<mapsto> subscriptions_subscribe s ss)\<rparr>, w, m))"

definition unsubscribe_body :: "string \<Rightarrow> sess_id \<Rightarrow> 's reg_body" where
  "unsubscribe_body ch s k w m sv =
     (case sv_channels sv ch of
        None \<Rightarrow> Some (Returned (Inr ()), sv, w, m)
      | Some ss \<Rightarrow>
          Some (Returned (Inr ()), sv\<lparr>sv_channels := (sv_channels sv)(ch \<mapsto> subscriptions_unsubscribe s ss)\<rparr>, w, m))"

definition publish_body :: "string \<Rightarrow> string \<Rightarrow> 's reg_body" where
  "publish_body ch msg k w m sv = do {
     assert_that (sv_channels sv ch \<noteq> None);
     ss \<leftarrow> sv_channels sv ch;
     subscriptions_publish msg k ss w m sv }"

subsection \<open>The public functions, which take the mutex\<close>

definition registry_unlock ::
  "reg_turn \<times> server \<times> world \<times> 's fiber_manager \<Rightarrow> (reg_turn \<times> server \<times> world \<times> 's fiber_manager) option" where
  "registry_unlock = (\<lambda>(t, sv, w, m).
     case t of
       Returned r \<Rightarrow> do {
         (mx, w') \<leftarrow> mutex_unlock w m (sv_mtx sv);
         Some (Returned r, sv\<lparr>sv_mtx := mx\<rparr>, w', m) }
     | _ \<Rightarrow> Some (t, sv, w, m))"

definition registry_call :: "'s reg_body \<Rightarrow> 's reg_body" where
  "registry_call body k w m sv = do {
     (got, mx, w1, m1) \<leftarrow> ctx_lock k w m (sv_mtx sv);
     let sv1 = sv\<lparr>sv_mtx := mx\<rparr>;
     if got then body k w1 m1 sv1 \<bind> registry_unlock
     else Some (Reg_line, sv1, w1, m1) }"

definition register_channel :: "string \<Rightarrow> 's reg_body" where
  "register_channel ch = registry_call (register_channel_body ch)"

definition unregister_channel :: "string \<Rightarrow> 's reg_body" where
  "unregister_channel ch = registry_call (unregister_channel_body ch)"

definition registry_subscribe :: "string \<Rightarrow> sess_id \<Rightarrow> 's reg_body" where
  "registry_subscribe ch s = registry_call (subscribe_body ch s)"

definition registry_unsubscribe :: "string \<Rightarrow> sess_id \<Rightarrow> 's reg_body" where
  "registry_unsubscribe ch s = registry_call (unsubscribe_body ch s)"

definition registry_publish :: "string \<Rightarrow> string \<Rightarrow> 's reg_body" where
  "registry_publish ch msg = registry_call (publish_body ch msg)"

text \<open>A fiber that stood in the line of a subscriber's mutex goes on; \<open>body\<close> is the call otherwise.\<close>

definition registry_resume :: "'s reg_body \<Rightarrow> reg_turn \<Rightarrow> 's reg_body" where
  "registry_resume body t k w m sv =
     (case t of
        Sub_line msg ss \<Rightarrow> subscriptions_publish msg k ss w m sv \<bind> registry_unlock
      | _ \<Rightarrow> body k w m sv)"

section \<open>The fiber of a publisher\<close>

text \<open>Where \<^verbatim>\<open>publisher_session::run\<close> waits; a text is the name of the channel.\<close>

datatype pub_pc =
    Pub_registering string
  | Pub_reading string
  | Pub_publishing string string reg_turn
  | Pub_unregistering string reg_turn
  | Pub_done

definition publisher_gone ::
  "string \<Rightarrow> reg_turn \<times> server \<times> world \<times> 's fiber_manager \<Rightarrow> (pub_pc \<times> server \<times> world \<times> 's fiber_manager) option" where
  "publisher_gone ch = (\<lambda>(t, sv, w, m).
     Some (case t of Returned r \<Rightarrow> Pub_done | _ \<Rightarrow> Pub_unregistering ch t, sv, w, m))"

text \<open>What follows the \<^verbatim>\<open>try\<close> block: all exceptions the session meets are caught.\<close>

definition publisher_leave ::
  "sess_id \<Rightarrow> string \<Rightarrow> mfid \<Rightarrow> world \<Rightarrow> 's fiber_manager \<Rightarrow> server \<Rightarrow>
   (pub_pc \<times> server \<times> world \<times> 's fiber_manager) option" where
  "publisher_leave p ch k w m sv =
     unregister_channel ch k w m (sv\<lparr>sv_open := (sv_open sv)(p := False)\<rparr>) \<bind> publisher_gone ch"

definition publisher_read ::
  "string \<Rightarrow> world \<Rightarrow> 's fiber_manager \<Rightarrow> server \<Rightarrow> (pub_pc \<times> server \<times> world \<times> 's fiber_manager) option" where
  "publisher_read ch w m sv = do {
     (w', m') \<leftarrow> async_result_get_enter w m;
     Some (Pub_reading ch, sv, w', m') }"

definition publisher_register ::
  "sess_id \<Rightarrow> string \<Rightarrow> mfid \<Rightarrow> world \<Rightarrow> 's fiber_manager \<Rightarrow> server \<Rightarrow>
   (pub_pc \<times> server \<times> world \<times> 's fiber_manager) option" where
  "publisher_register p ch k w m sv = do {
     (t, sv', w', m') \<leftarrow> register_channel ch k w m sv;
     case t of
       Returned (Inr u) \<Rightarrow> publisher_read ch w' m' sv'
     | Returned (Inl e) \<Rightarrow> publisher_leave p ch k w' m' sv'
     | _ \<Rightarrow> Some (Pub_registering ch, sv', w', m') }"

text \<open>The first read has completed.\<close>

definition publisher_started ::
  "error_code \<Rightarrow> string \<Rightarrow> sess_id \<Rightarrow> mfid \<Rightarrow> world \<Rightarrow> 's fiber_manager \<Rightarrow> server \<Rightarrow>
   (pub_pc \<times> server \<times> world \<times> 's fiber_manager) option" where
  "publisher_started ec data p k w m sv =
     (if ec_failed ec then publisher_leave p [] k w m sv
      else do { ch \<leftarrow> c_string data; publisher_register p ch k w m sv })"

definition publisher_published ::
  "sess_id \<Rightarrow> string \<Rightarrow> string \<Rightarrow> mfid \<Rightarrow> reg_turn \<times> server \<times> world \<times> 's fiber_manager \<Rightarrow>
   (pub_pc \<times> server \<times> world \<times> 's fiber_manager) option" where
  "publisher_published p ch msg k = (\<lambda>(t, sv, w, m).
     case t of
       Returned (Inr u) \<Rightarrow> publisher_read ch w m sv
     | Returned (Inl e) \<Rightarrow> publisher_leave p ch k w m sv
     | _ \<Rightarrow> Some (Pub_publishing ch msg t, sv, w, m))"

text \<open>A later read has completed; \<open>eof\<close> is \<^verbatim>\<open>boost::asio::error::eof\<close>.\<close>

definition publisher_received ::
  "error_code \<Rightarrow> error_code \<Rightarrow> string \<Rightarrow> sess_id \<Rightarrow> string \<Rightarrow> mfid \<Rightarrow> world \<Rightarrow> 's fiber_manager \<Rightarrow> server \<Rightarrow>
   (pub_pc \<times> server \<times> world \<times> 's fiber_manager) option" where
  "publisher_received eof ec data p ch k w m sv =
     (if ec = eof then publisher_leave p ch k w m sv
      else if ec_failed ec then publisher_leave p ch k w m sv
      else do {
        msg \<leftarrow> c_string data;
        x \<leftarrow> registry_publish ch msg k w m sv;
        publisher_published p ch msg k x })"

text \<open>The fiber runs again after it stood in a line.\<close>

definition publisher_resumed ::
  "sess_id \<Rightarrow> pub_pc \<Rightarrow> mfid \<Rightarrow> world \<Rightarrow> 's fiber_manager \<Rightarrow> server \<Rightarrow>
   (pub_pc \<times> server \<times> world \<times> 's fiber_manager) option" where
  "publisher_resumed p pc k w m sv =
     (case pc of
        Pub_registering ch \<Rightarrow> publisher_register p ch k w m sv
      | Pub_publishing ch msg t \<Rightarrow>
          registry_resume (registry_publish ch msg) t k w m sv \<bind> publisher_published p ch msg k
      | Pub_unregistering ch t \<Rightarrow> registry_resume (unregister_channel ch) t k w m sv \<bind> publisher_gone ch
      | _ \<Rightarrow> None)"

section \<open>The fiber of a subscriber\<close>

text \<open>Where \<^verbatim>\<open>subscriber_session::run\<close> waits; the socket is written with the mutex of the session held.\<close>

datatype sub_pc =
    Sub_subscribing string
  | Sub_locking string
  | Sub_waiting string
  | Sub_relocking string
  | Sub_writing string
  | Sub_unsubscribing string reg_turn
  | Sub_done

definition subscriber_gone ::
  "string \<Rightarrow> reg_turn \<times> server \<times> world \<times> 's fiber_manager \<Rightarrow> (sub_pc \<times> server \<times> world \<times> 's fiber_manager) option" where
  "subscriber_gone ch = (\<lambda>(t, sv, w, m).
     Some (case t of Returned r \<Rightarrow> Sub_done | _ \<Rightarrow> Sub_unsubscribing ch t, sv, w, m))"

definition subscriber_leave ::
  "sess_id \<Rightarrow> string \<Rightarrow> mfid \<Rightarrow> world \<Rightarrow> 's fiber_manager \<Rightarrow> server \<Rightarrow>
   (sub_pc \<times> server \<times> world \<times> 's fiber_manager) option" where
  "subscriber_leave i ch k w m sv =
     registry_unsubscribe ch i k w m (sv\<lparr>sv_open := (sv_open sv)(i := False)\<rparr>) \<bind> subscriber_gone ch"

text \<open>The beginning of a round of the loop: the lock, and \<^verbatim>\<open>wait\<close> of the condition.\<close>

definition subscriber_round ::
  "sess_id \<Rightarrow> string \<Rightarrow> mfid \<Rightarrow> world \<Rightarrow> 's fiber_manager \<Rightarrow> server \<Rightarrow>
   (sub_pc \<times> server \<times> world \<times> 's fiber_manager) option" where
  "subscriber_round i ch k w m sv = do {
     let s = sv_subs sv i;
     (got, mx, w1, m1) \<leftarrow> ctx_lock k w m (sub_mtx s);
     if got then do {
       (mx', cv, w2, m2) \<leftarrow> ctx_wait_enter k mx w1 m1 (sub_cond s);
       Some (Sub_waiting ch, set_sub i (s\<lparr>sub_mtx := mx', sub_cond := cv\<rparr>) sv, w2, m2) }
     else Some (Sub_locking ch, set_sub i (s\<lparr>sub_mtx := mx\<rparr>) sv, w1, m1) }"

definition subscriber_subscribe ::
  "sess_id \<Rightarrow> string \<Rightarrow> mfid \<Rightarrow> world \<Rightarrow> 's fiber_manager \<Rightarrow> server \<Rightarrow>
   (sub_pc \<times> server \<times> world \<times> 's fiber_manager) option" where
  "subscriber_subscribe i ch k w m sv = do {
     (t, sv', w', m') \<leftarrow> registry_subscribe ch i k w m sv;
     case t of
       Returned (Inr u) \<Rightarrow> subscriber_round i ch k w' m' sv'
     | Returned (Inl e) \<Rightarrow> subscriber_leave i ch k w' m' sv'
     | _ \<Rightarrow> Some (Sub_subscribing ch, sv', w', m') }"

text \<open>The first read has filled the buffer of the session.\<close>

definition subscriber_started ::
  "error_code \<Rightarrow> string \<Rightarrow> sess_id \<Rightarrow> mfid \<Rightarrow> world \<Rightarrow> 's fiber_manager \<Rightarrow> server \<Rightarrow>
   (sub_pc \<times> server \<times> world \<times> 's fiber_manager) option" where
  "subscriber_started ec data i k w m sv =
     (let sv1 = set_sub i ((sv_subs sv i)\<lparr>sub_data := data\<rparr>) sv
      in if ec_failed ec then subscriber_leave i [] k w m sv1
         else do { ch \<leftarrow> c_string data; subscriber_subscribe i ch k w m sv1 })"

text \<open>The mutex is held again after \<^verbatim>\<open>wait\<close>.\<close>

definition subscriber_message ::
  "sess_id \<Rightarrow> string \<Rightarrow> mfid \<Rightarrow> world \<Rightarrow> 's fiber_manager \<Rightarrow> server \<Rightarrow>
   (sub_pc \<times> server \<times> world \<times> 's fiber_manager) option" where
  "subscriber_message i ch k w m sv = do {
     let s = sv_subs sv i;
     msg \<leftarrow> c_string (sub_data s);
     if ''<fini>'' = msg then do {
       (mx, w') \<leftarrow> mutex_unlock w m (sub_mtx s);
       subscriber_leave i ch k w' m (set_sub i (s\<lparr>sub_mtx := mx\<rparr>) sv) }
     else do {
       (w', m') \<leftarrow> async_result_get_enter w m;
       Some (Sub_writing ch, sv, w', m') } }"

definition subscriber_relock ::
  "sess_id \<Rightarrow> string \<Rightarrow> mfid \<Rightarrow> world \<Rightarrow> 's fiber_manager \<Rightarrow> server \<Rightarrow>
   (sub_pc \<times> server \<times> world \<times> 's fiber_manager) option" where
  "subscriber_relock i ch k w m sv = do {
     let s = sv_subs sv i;
     (got, mx, w1, m1) \<leftarrow> ctx_lock k w m (sub_mtx s);
     let sv1 = set_sub i (s\<lparr>sub_mtx := mx\<rparr>) sv;
     if got then subscriber_message i ch k w1 m1 sv1 else Some (Sub_relocking ch, sv1, w1, m1) }"

text \<open>The fiber was asleep at the condition; an interruption leaves the loop without the mutex.\<close>

definition subscriber_woken ::
  "sess_id \<Rightarrow> string \<Rightarrow> mfid \<Rightarrow> world \<Rightarrow> 's fiber_manager \<Rightarrow> server \<Rightarrow>
   (sub_pc \<times> server \<times> world \<times> 's fiber_manager) option" where
  "subscriber_woken i ch k w m sv = do {
     let s = sv_subs sv i;
     (r, cv, w1) \<leftarrow> condition_wait_resumed w m (sub_cond s);
     let sv1 = set_sub i (s\<lparr>sub_cond := cv\<rparr>) sv;
     case r of
       Inl e \<Rightarrow> subscriber_leave i ch k w1 m sv1
     | Inr u \<Rightarrow> subscriber_relock i ch k w1 m sv1 }"

text \<open>The message has been written; the end of the round, and an exception, give the mutex back.\<close>

definition subscriber_written ::
  "error_code \<Rightarrow> sess_id \<Rightarrow> string \<Rightarrow> mfid \<Rightarrow> world \<Rightarrow> 's fiber_manager \<Rightarrow> server \<Rightarrow>
   (sub_pc \<times> server \<times> world \<times> 's fiber_manager) option" where
  "subscriber_written ec i ch k w m sv = do {
     let s = sv_subs sv i;
     (mx, w1) \<leftarrow> mutex_unlock w m (sub_mtx s);
     let sv1 = set_sub i (s\<lparr>sub_mtx := mx\<rparr>) sv;
     if ec_failed ec then subscriber_leave i ch k w1 m sv1 else subscriber_round i ch k w1 m sv1 }"

definition subscriber_resumed ::
  "sess_id \<Rightarrow> sub_pc \<Rightarrow> mfid \<Rightarrow> world \<Rightarrow> 's fiber_manager \<Rightarrow> server \<Rightarrow>
   (sub_pc \<times> server \<times> world \<times> 's fiber_manager) option" where
  "subscriber_resumed i pc k w m sv =
     (case pc of
        Sub_subscribing ch \<Rightarrow> subscriber_subscribe i ch k w m sv
      | Sub_locking ch \<Rightarrow> subscriber_round i ch k w m sv
      | Sub_waiting ch \<Rightarrow> subscriber_woken i ch k w m sv
      | Sub_relocking ch \<Rightarrow> subscriber_relock i ch k w m sv
      | Sub_unsubscribing ch t \<Rightarrow> registry_resume (registry_unsubscribe ch i) t k w m sv \<bind> subscriber_gone ch
      | _ \<Rightarrow> None)"

section \<open>Accepting clients\<close>

text \<open>
  A round of \<^verbatim>\<open>accept_publisher\<close> and of \<^verbatim>\<open>accept_subscriber\<close>: a new session is constructed, then the
  fiber waits for a client. A session whose client has come has an open socket and is run in a new
  fiber.
\<close>

definition accept_publisher_round ::
  "world \<Rightarrow> 's fiber_manager \<Rightarrow> server \<Rightarrow> (server \<times> world \<times> 's fiber_manager) option" where
  "accept_publisher_round w m sv = do {
     (w', m') \<leftarrow> async_result_get_enter w m;
     Some (sv, w', m') }"

definition accept_subscriber_round ::
  "string \<Rightarrow> sess_id \<Rightarrow> world \<Rightarrow> 's fiber_manager \<Rightarrow> server \<Rightarrow> (server \<times> world \<times> 's fiber_manager) option" where
  "accept_subscriber_round garbage new w m sv = do {
     let sv1 = set_sub new (subscriber_session_ctor garbage) sv;
     (w', m') \<leftarrow> async_result_get_enter w m;
     Some (sv1, w', m') }"

definition accept_completed :: "error_code \<Rightarrow> sess_id \<Rightarrow> server \<Rightarrow> server \<times> sess_id option" where
  "accept_completed ec new sv =
     (if \<not> ec_failed ec then (sv\<lparr>sv_open := (sv_open sv)(new := True)\<rparr>, Some new) else (sv, None))"

section \<open>Messages and buffers\<close>

lemma takeWhile_shorter: "x \<in> set xs \<Longrightarrow> \<not> P x \<Longrightarrow> length (takeWhile P xs) < length xs"
  by (induction xs) auto

lemma c_string_length: "c_string data = Some msg \<Longrightarrow> length msg < length data"
  by (auto simp: c_string_def split: if_splits intro: takeWhile_shorter)

lemma c_string_no_nul: "c_string data = Some msg \<Longrightarrow> NUL \<notin> set msg"
  by (auto simp: c_string_def split: if_splits dest: set_takeWhileD)

lemma c_string_padded: "NUL \<notin> set msg \<Longrightarrow> 0 < n \<Longrightarrow> c_string (msg @ replicate n NUL) = Some msg"
  by (auto simp: c_string_def takeWhile_append takeWhile_eq_all_conv)

lemma subscriptions_unsubscribe_remove1: "subscriptions_unsubscribe s ss = remove1 s ss"
  by (induction ss) auto

section \<open>A server at rest\<close>

text \<open>
  \<open>session_free s fs\<close>: nobody is inside the session, and the fibers \<open>fs\<close> wait for a message;
  \<open>server_free\<close>: the same for the registry and all sessions.
\<close>

definition session_free :: "subscriber_session \<Rightarrow> fid list \<Rightarrow> bool" where
  "session_free s fs \<longleftrightarrow> sub_mtx s = mutex_init \<and> condition_sleepers (sub_cond s) fs"

definition server_free :: "server \<Rightarrow> (sess_id \<Rightarrow> fid list) \<Rightarrow> bool" where
  "server_free sv fs \<longleftrightarrow> sv_mtx sv = mutex_init \<and> (\<forall>i. session_free (sv_subs sv i) (fs i))"

text \<open>A notification does not touch the fibers outside the scheduler's waiting queue.\<close>

lemma notify_one_outside:
  assumes "condition_notify_one cv w = Some (cv', w')" and "condition_sleepers cv fs"
    and "fm_queues fifo_rep w m ws rs" and "set fs \<subseteq> set ws" and "g \<notin> set ws"
  shows "w_heap w' g = w_heap w g"
proof (cases fs)
  case Nil
  with assms condition_notify_one_nobody [of cv w] show ?thesis by simp
next
  case (Cons f gs)
  with rr.set_ready_queues [OF assms(3), of f] assms(4) obtain w1 where w1: "set_ready f w = Some w1"
    "links_frame (set ws) (ready_all {f} (w_heap w)) (w_heap w1)" by auto
  moreover have "w1 = w'"
    using assms(1,2) Cons w1(1)
    by (auto simp: condition_sleepers_def condition_notify_one_def notify_waiter_def fb_set_ready_def split: bind_splits)
  ultimately show ?thesis using Cons assms(4,5) by (auto simp: links_frame_def ready_all_def)
qed

lemma subscriber_publish_ok:
  assumes s: "session_free s fs" and len: "length msg \<le> max_length"
    and Q: "fm_queues fifo_rep w m ws rs" and sub: "set fs \<subseteq> set ws"
  shows "\<exists>s' w' ws'. subscriber_publish msg k w m s = Some (True, s', w', m) \<and> session_free s' (tl fs) \<and>
     sub_data s' = msg @ replicate (max_length - length msg) NUL \<and>
     fm_queues fifo_rep w' m ws' rs \<and> set ws' = set ws \<and> (fs \<noteq> [] \<longrightarrow> is_ready (w_heap w') (hd fs)) \<and>
     ws' = (case fs of [] \<Rightarrow> ws | f # _ \<Rightarrow> f # remove1 f ws) \<and>
     (\<forall>g. g \<notin> set (take 1 fs) \<longrightarrow> wf_state (w_heap w' g) = wf_state (w_heap w g)) \<and>
     (\<forall>g. g \<notin> set ws \<longrightarrow> w_heap w' g = w_heap w g)"
proof -
  let ?w = "ctx_locked_world k m w"
  have Q': "fm_queues fifo_rep ?w m ws rs" using Q by (simp add: fm_queues_ctx_locked)
  from condition_notify_one_sleepers [OF _ Q' sub, of "sub_cond s"] s obtain cv w' ws' where n:
    "condition_notify_one (sub_cond s) ?w = Some (cv, w')" "condition_sleepers cv (tl fs)"
    "fm_queues fifo_rep w' m ws' rs" "set ws' = set ws" "fs \<noteq> [] \<longrightarrow> is_ready (w_heap w') (hd fs)"
    "ws' = (case fs of [] \<Rightarrow> ws | f # _ \<Rightarrow> f # remove1 f ws)"
    "\<forall>g. g \<noteq> hd fs \<longrightarrow> wf_state (w_heap w' g) = wf_state (w_heap w g)"
    unfolding session_free_def ctx_locked_world_simps by blast
  have "subscriber_publish msg k w m s =
      Some (True, s\<lparr>sub_mtx := mutex_init, sub_cond := cv, sub_data := msg @ replicate (max_length - length msg) NUL\<rparr>, w', m)"
    using s n(1) len by (simp add: subscriber_publish_def session_free_def ctx_lock_free ctx_unlock fill_data_def)
  moreover have "wf_state (w_heap w' g) = wf_state (w_heap w g)" if "g \<notin> set (take 1 fs)" for g
    using that n(1,7) s condition_notify_one_nobody [of "sub_cond s" ?w]
    by (cases fs) (auto simp: session_free_def)
  moreover have "w_heap w' g = w_heap w g" if "g \<notin> set ws" for g
    using notify_one_outside [OF n(1) _ Q' sub that] s by (simp add: session_free_def)
  ultimately show ?thesis using n(2-6) by (auto simp: session_free_def)
qed

lemma subscriptions_publish_ok:
  assumes "\<forall>i. session_free (sv_subs sv i) (fs i)" and "length msg \<le> max_length"
    and "fm_queues fifo_rep w m ws rs" and "\<forall>i. set (fs i) \<subseteq> set ws"
  shows "\<exists>subs fs' w' ws'. subscriptions_publish msg k ss w m sv = Some (Returned (Inr ()), sv\<lparr>sv_subs := subs\<rparr>, w', m) \<and>
     (\<forall>i. session_free (subs i) (fs' i)) \<and> (\<forall>i. i \<notin> set ss \<longrightarrow> subs i = sv_subs sv i) \<and>
     (\<forall>i \<in> set ss. sub_data (subs i) = msg @ replicate (max_length - length msg) NUL) \<and>
     fm_queues fifo_rep w' m ws' rs \<and> set ws' = set ws \<and> (\<forall>i. set (fs' i) \<subseteq> set (fs i)) \<and>
     (\<forall>i \<in> set ss. fs i \<noteq> [] \<longrightarrow> is_ready (w_heap w') (hd (fs i))) \<and>
     (\<forall>g. is_ready (w_heap w) g \<longrightarrow> is_ready (w_heap w') g) \<and>
     (\<forall>g. g \<notin> set ws \<longrightarrow> w_heap w' g = w_heap w g)"
  using assms
proof (induction ss arbitrary: w ws sv fs)
  case Nil
  then show ?case by (intro exI [of _ "sv_subs sv"] exI [of _ fs] exI [of _ w] exI [of _ ws]) simp
next
  case (Cons i ss)
  from subscriber_publish_ok [of "sv_subs sv i" "fs i" msg w m ws rs k] Cons.prems obtain s1 w1 ws1 where a:
    "subscriber_publish msg k w m (sv_subs sv i) = Some (True, s1, w1, m)" "session_free s1 (tl (fs i))"
    "sub_data s1 = msg @ replicate (max_length - length msg) NUL" "fm_queues fifo_rep w1 m ws1 rs" "set ws1 = set ws"
    "fs i \<noteq> [] \<longrightarrow> is_ready (w_heap w1) (hd (fs i))"
    "\<forall>g. g \<notin> set (take 1 (fs i)) \<longrightarrow> wf_state (w_heap w1 g) = wf_state (w_heap w g)"
    "\<forall>g. g \<notin> set ws \<longrightarrow> w_heap w1 g = w_heap w g" by blast
  let ?sv = "set_sub i s1 sv" and ?fs = "fs(i := tl (fs i))"
  have tl: "set (tl (fs i)) \<subseteq> set (fs i)" by (cases "fs i") auto
  have "\<forall>j. session_free (sv_subs ?sv j) (?fs j)" "\<forall>j. set (?fs j) \<subseteq> set ws1"
    using Cons.prems(1,4) a(2,5) subset_trans [OF tl, of "set ws"] by (simp_all add: set_sub_def)
  from Cons.IH [OF this(1) Cons.prems(2) a(4) this(2)] obtain subs fs' w' ws' where b:
    "subscriptions_publish msg k ss w1 m ?sv = Some (Returned (Inr ()), ?sv\<lparr>sv_subs := subs\<rparr>, w', m)"
    "\<forall>j. session_free (subs j) (fs' j)" "\<forall>j. j \<notin> set ss \<longrightarrow> subs j = sv_subs ?sv j"
    "\<forall>j \<in> set ss. sub_data (subs j) = msg @ replicate (max_length - length msg) NUL"
    "fm_queues fifo_rep w' m ws' rs" "set ws' = set ws1" "\<forall>j. set (fs' j) \<subseteq> set (?fs j)"
    "\<forall>j \<in> set ss. ?fs j \<noteq> [] \<longrightarrow> is_ready (w_heap w') (hd (?fs j))"
    "\<forall>g. is_ready (w_heap w1) g \<longrightarrow> is_ready (w_heap w') g" "\<forall>g. g \<notin> set ws1 \<longrightarrow> w_heap w' g = w_heap w1 g" by blast
  have r: "is_ready (w_heap w1) g" if "is_ready (w_heap w) g" for g
    using that a(6,7) by (cases "fs i"; cases "g \<in> set (take 1 (fs i))") (auto simp: is_ready_def)
  have sub: "set (fs' j) \<subseteq> set (fs j)" for j
    using b(7) [rule_format, of j] tl by (cases "j = i") auto
  have rdy: "is_ready (w_heap w') (hd (fs j))" if "j \<in> set (i # ss)" "fs j \<noteq> []" for j
    using that a(6) b(8) [rule_format, of j] b(9) by (cases "j = i") auto
  have "subscriptions_publish msg k (i # ss) w m sv = Some (Returned (Inr ()), sv\<lparr>sv_subs := subs\<rparr>, w', m)"
    using a(1) b(1) by (simp add: set_sub_def)
  moreover have "\<forall>j. j \<notin> set (i # ss) \<longrightarrow> subs j = sv_subs sv j" using b(3) by (simp add: set_sub_def)
  moreover have "\<forall>j \<in> set (i # ss). sub_data (subs j) = msg @ replicate (max_length - length msg) NUL"
    using a(3) b(3,4) by (auto simp: set_sub_def)
  moreover have "\<forall>g. g \<notin> set ws \<longrightarrow> w_heap w' g = w_heap w g" using a(5,8) b(10) by simp
  ultimately show ?case using b(2,5,6,9) a(5) sub rdy r by blast
qed

text \<open>A call of the registry while nobody is inside: the body, between lock and unlock.\<close>

lemma registry_call_free:
  assumes "sv_mtx sv = mutex_init"
    and "body k (ctx_locked_world k m w) m (sv\<lparr>sv_mtx := mutex_taken (this_get_id m)\<rparr>) =
      Some (Returned r, sv'\<lparr>sv_mtx := mutex_taken (this_get_id m)\<rparr>, w', m)"
  shows "registry_call body k w m sv = Some (Returned r, sv'\<lparr>sv_mtx := mutex_init\<rparr>, w', m)"
  using assms by (simp add: registry_call_def ctx_lock_free registry_unlock_def ctx_unlock)

section \<open>What the registry promises\<close>

text \<open>
  The five calls of the registry, and their meaning: the outcome, the channels afterwards, and the
  message that is delivered with its receivers. Publishing on a channel that does not exist is not
  allowed.
\<close>

datatype reg_op =
    Register string
  | Unregister string
  | Subscribe string sess_id
  | Unsubscribe string sess_id
  | Publish string string

fun reg_op_call :: "reg_op \<Rightarrow> 's reg_body" where
  "reg_op_call (Register ch) = register_channel ch"
| "reg_op_call (Unregister ch) = unregister_channel ch"
| "reg_op_call (Subscribe ch s) = registry_subscribe ch s"
| "reg_op_call (Unsubscribe ch s) = registry_unsubscribe ch s"
| "reg_op_call (Publish ch msg) = registry_publish ch msg"

fun reg_spec ::
  "reg_op \<Rightarrow> (string \<Rightarrow> sess_id list option) \<Rightarrow>
   (unit result \<times> (string \<Rightarrow> sess_id list option) \<times> string \<times> sess_id list) option" where
  "reg_spec (Register ch) C =
     Some (if C ch = None then (Inr (), C(ch \<mapsto> []), [], []) else (Inl (runtime_error ''channel already exists''), C, [], []))"
| "reg_spec (Unregister ch) C = Some (Inr (), C(ch := None), ''<fini>'', (case C ch of None \<Rightarrow> [] | Some ss \<Rightarrow> ss))"
| "reg_spec (Subscribe ch s) C =
     Some (case C ch of None \<Rightarrow> (Inl (runtime_error ''channel does not exist''), C, [], [])
       | Some ss \<Rightarrow> (Inr (), C(ch \<mapsto> ss @ [s]), [], []))"
| "reg_spec (Unsubscribe ch s) C = Some (Inr (), (case C ch of None \<Rightarrow> C | Some ss \<Rightarrow> C(ch \<mapsto> remove1 s ss)), [], [])"
| "reg_spec (Publish ch msg) C = (case C ch of None \<Rightarrow> None | Some ss \<Rightarrow> Some (Inr (), C, msg, ss))"

fun reg_op_body :: "reg_op \<Rightarrow> 's reg_body" where
  "reg_op_body (Register ch) = register_channel_body ch"
| "reg_op_body (Unregister ch) = unregister_channel_body ch"
| "reg_op_body (Subscribe ch s) = subscribe_body ch s"
| "reg_op_body (Unsubscribe ch s) = unsubscribe_body ch s"
| "reg_op_body (Publish ch msg) = publish_body ch msg"

lemma reg_op_call_body: "reg_op_call op = registry_call (reg_op_body op)"
  by (cases op) (simp_all add: register_channel_def unregister_channel_def registry_subscribe_def
      registry_unsubscribe_def registry_publish_def)

lemma reg_body_spec:
  "reg_op_body op k w m sv =
     (case reg_spec op (sv_channels sv) of
        None \<Rightarrow> None
      | Some (Inl e, C, msg, ss) \<Rightarrow> Some (Returned (Inl e), sv\<lparr>sv_channels := C\<rparr>, w, m)
      | Some (Inr u, C, msg, ss) \<Rightarrow> subscriptions_publish msg k ss w m (sv\<lparr>sv_channels := C\<rparr>))"
proof -
  have same: "sv\<lparr>sv_channels := sv_channels sv\<rparr> = sv" "sv_channels sv ch = None \<Longrightarrow> (sv_channels sv)(ch := None) = sv_channels sv"
    for ch by (cases sv, simp, rule ext, simp)
  show ?thesis
    by (cases op) (auto simp: register_channel_body_def unregister_channel_body_def subscribe_body_def unsubscribe_body_def publish_body_def
        subscriptions_dtor_def subscriptions_subscribe_def subscriptions_unsubscribe_remove1 same assert_that_def
        split: option.splits)
qed

lemma reg_spec_throws: "reg_spec op C = Some (Inl e, C', msg, ss) \<Longrightarrow> C' = C \<and> ss = []"
  by (cases op) (auto split: option.splits if_splits)

text \<open>A call that the specification allows, with a message that fits into the buffer.\<close>

definition reg_effect ::
  "server \<Rightarrow> (sess_id \<Rightarrow> fid list) \<Rightarrow> (string \<Rightarrow> sess_id list option) \<Rightarrow> string \<Rightarrow> sess_id list \<Rightarrow>
   server \<Rightarrow> (sess_id \<Rightarrow> fid list) \<Rightarrow> world \<Rightarrow> bool" where
  "reg_effect sv fs C msg ss sv' fs' w' \<longleftrightarrow>
     sv_channels sv' = C \<and> sv_open sv' = sv_open sv \<and> server_free sv' fs' \<and> (\<forall>i. set (fs' i) \<subseteq> set (fs i)) \<and>
     (\<forall>i. i \<notin> set ss \<longrightarrow> sv_subs sv' i = sv_subs sv i) \<and>
     (\<forall>i \<in> set ss. fill_data msg = Some (sub_data (sv_subs sv' i)) \<and>
        (fs i \<noteq> [] \<longrightarrow> is_ready (w_heap w') (hd (fs i))))"

lemma reg_op_ok:
  assumes free: "server_free sv fs" and Q: "fm_queues fifo_rep w m ws rs" and sub: "\<forall>i. set (fs i) \<subseteq> set ws"
    and spec: "reg_spec op (sv_channels sv) = Some (r, C, msg, ss)" and len: "length msg \<le> max_length"
  shows "\<exists>sv' fs' w' ws'. reg_op_call op k w m sv = Some (Returned r, sv', w', m) \<and>
     reg_effect sv fs C msg ss sv' fs' w' \<and> fm_queues fifo_rep w' m ws' rs \<and> set ws' = set ws \<and>
     (\<forall>g. g \<notin> set ws \<longrightarrow> w_heap w' g = w_heap w g)"
proof -
  let ?w = "ctx_locked_world k m w" and ?sv = "sv\<lparr>sv_mtx := mutex_taken (this_get_id m), sv_channels := C\<rparr>"
  have Q': "fm_queues fifo_rep ?w m ws rs" using Q by (simp add: fm_queues_ctx_locked)
  have f: "sv_mtx sv = mutex_init" "\<forall>i. session_free (sv_subs ?sv i) (fs i)" using free by (simp_all add: server_free_def)
  have body: "reg_op_body op k ?w m (sv\<lparr>sv_mtx := mutex_taken (this_get_id m)\<rparr>) =
      (case r of Inl e \<Rightarrow> Some (Returned r, ?sv, ?w, m) | Inr u \<Rightarrow> subscriptions_publish msg k ss ?w m ?sv)"
    using spec by (subst reg_body_spec) (auto split: sum.split)
  from subscriptions_publish_ok [OF f(2) len Q' sub, of k ss] obtain subs fs' w' ws' where p:
    "subscriptions_publish msg k ss ?w m ?sv = Some (Returned (Inr ()), ?sv\<lparr>sv_subs := subs\<rparr>, w', m)"
    "\<forall>i. session_free (subs i) (fs' i)" "\<forall>i. i \<notin> set ss \<longrightarrow> subs i = sv_subs sv i"
    "\<forall>i \<in> set ss. sub_data (subs i) = msg @ replicate (max_length - length msg) NUL"
    "fm_queues fifo_rep w' m ws' rs" "set ws' = set ws" "\<forall>i. set (fs' i) \<subseteq> set (fs i)"
    "\<forall>i \<in> set ss. fs i \<noteq> [] \<longrightarrow> is_ready (w_heap w') (hd (fs i))" "\<forall>g. g \<notin> set ws \<longrightarrow> w_heap w' g = w_heap w g" by auto
  show ?thesis
  proof (cases r)
    case (Inl e)
    have "registry_call (reg_op_body op) k w m sv = Some (Returned r, (sv\<lparr>sv_channels := C\<rparr>)\<lparr>sv_mtx := mutex_init\<rparr>, ?w, m)"
      by (rule registry_call_free [OF f(1)]) (simp add: body Inl)
    moreover have "ss = []" using reg_spec_throws [OF spec [unfolded Inl]] by simp
    ultimately show ?thesis using free Q'
      by (auto simp: reg_op_call_body reg_effect_def server_free_def intro: exI [of _ fs])
  next
    case (Inr u)
    let ?sv' = "sv\<lparr>sv_channels := C, sv_subs := subs\<rparr>"
    have "registry_call (reg_op_body op) k w m sv = Some (Returned r, ?sv'\<lparr>sv_mtx := mutex_init\<rparr>, w', m)"
      by (rule registry_call_free [OF f(1)]) (simp add: body Inr p(1))
    with p(2-9) len show ?thesis
      by (intro exI [of _ "?sv'\<lparr>sv_mtx := mutex_init\<rparr>"] exI [of _ fs'] exI [of _ w'] exI [of _ ws'])
        (simp add: reg_op_call_body reg_effect_def server_free_def fill_data_def)
  qed
qed

text \<open>
  C25: the registry of the channels implements its specification. Registering a channel that exists
  and subscribing to one that does not exist throw and change nothing; subscribing appends the
  subscriber, unsubscribing removes its first entry; publishing stores the message in the buffer of
  every subscriber of the channel, unregistering stores \<^verbatim>\<open><fini>\<close> there, and the first fiber that
  waits in each of these sessions is ready; all other sessions stay as they are and both mutexes are
  free again. Publishing on a channel that does not exist fails an assertion.
\<close>

theorem registry_refines_spec:
  assumes "server_free sv fs" and "fm_queues fifo_rep w m ws rs" and "\<forall>i. set (fs i) \<subseteq> set ws"
  shows "case reg_spec op (sv_channels sv) of
      None \<Rightarrow> reg_op_call op k w m sv = None
    | Some (r, C, msg, ss) \<Rightarrow> length msg \<le> max_length \<longrightarrow>
        (\<exists>sv' fs' w' ws'. reg_op_call op k w m sv = Some (Returned r, sv', w', m) \<and>
           sv_channels sv' = C \<and> server_free sv' fs' \<and>
           (\<forall>i. i \<notin> set ss \<longrightarrow> sv_subs sv' i = sv_subs sv i) \<and>
           (\<forall>i \<in> set ss. fill_data msg = Some (sub_data (sv_subs sv' i)) \<and>
              (fs i \<noteq> [] \<longrightarrow> is_ready (w_heap w') (hd (fs i)))) \<and>
           fm_queues fifo_rep w' m ws' rs \<and> set ws' = set ws)"
proof (cases "reg_spec op (sv_channels sv)")
  case None
  have "sv_mtx sv = mutex_init" using assms(1) by (simp add: server_free_def)
  with None show ?thesis by (simp add: reg_op_call_body registry_call_def ctx_lock_free reg_body_spec)
next
  case (Some x)
  obtain r C msg ss where x: "x = (r, C, msg, ss)" by (cases x)
  from reg_op_ok [OF assms, of op r C msg ss k] Some x show ?thesis by (fastforce simp: reg_effect_def)
qed

text \<open>A server with one channel and one subscriber, whose fiber 2 waits for a message.\<close>

definition demo_session :: "fid list \<Rightarrow> subscriber_session" where
  "demo_session fs = \<lparr>sub_mtx = mutex_init, sub_cond = condition_init\<lparr>cv_waiting := map Worker fs\<rparr>,
     sub_data = replicate max_length NUL\<rparr>"

definition demo_server :: server where
  "demo_server = \<lparr>sv_mtx = mutex_init, sv_channels = [''news'' \<mapsto> [7]],
     sv_subs = (\<lambda>i. demo_session (if i = 7 then [2] else [])), sv_open = (\<lambda>i. True)\<rparr>"

lemma demo_server_free: "server_free demo_server (\<lambda>i. if i = 7 then [2] else [])"
  by (simp add: server_free_def session_free_def demo_server_def demo_session_def condition_sleepers_def
      condition_init_def spinlock_init_def)

theorem registry_refines_spec_witness:
  "\<exists>sv' w'. registry_publish ''news'' ''hello'' 0 (sy_world demo_sys4) (sy_mgr demo_sys4) demo_server =
       Some (Returned (Inr ()), sv', w', sy_mgr demo_sys4) \<and>
     fill_data ''hello'' = Some (sub_data (sv_subs sv' 7)) \<and> is_ready (w_heap w') 2"
proof -
  have "\<forall>i :: sess_id. set (if i = 7 then [2 :: fid] else []) \<subseteq> set [2]" "sv_channels demo_server ''news'' = Some [7]"
    by (auto simp: demo_server_def)
  with registry_refines_spec [OF demo_server_free demo_sys4_queues(1) this(1), of "Publish ''news'' ''hello''" 0]
  show ?thesis by (fastforce simp: max_length_def)
qed

section \<open>Sessions\<close>

text \<open>
  A message never overflows the buffer of a subscriber, and arrives unchanged. A publisher reads
  its messages from a buffer of \<^verbatim>\<open>max_length\<close> characters, so a message that is terminated in that
  buffer fits into the buffer of the subscriber with room for the terminator, and the subscriber
  reads the same message from there.
\<close>

theorem message_fits_buffer:
  assumes "length data = max_length" and "c_string data = Some msg"
  shows "\<exists>d. fill_data msg = Some d \<and> length d = max_length \<and> c_string d = Some msg"
  using assms c_string_length [OF assms(2)] c_string_no_nul [OF assms(2)]
  by (auto simp: fill_data_def intro: c_string_padded)

theorem message_fits_buffer_witness:
  "\<exists>d. fill_data ''hello'' = Some d \<and> length d = max_length \<and> c_string d = Some ''hello''"
proof -
  have "c_string (''hello'' @ replicate 1019 NUL) = Some ''hello''" by (rule c_string_padded) (simp_all add: NUL_def)
  with message_fits_buffer [of "''hello'' @ replicate 1019 NUL" "''hello''"] show ?thesis by (simp add: max_length_def)
qed

lemma fini_message: "fill_data ''<fini>'' = Some d \<Longrightarrow> c_string d = Some ''<fini>''"
  by (auto simp: fill_data_def max_length_def NUL_def split: if_splits
      intro!: c_string_padded [of "''<fini>''" 1018, unfolded NUL_def, simplified])

text \<open>A call that delivers nothing leaves the sessions and those who wait there as they are.\<close>

lemma reg_effect_silent: "reg_effect sv fs C msg [] sv' fs' w \<Longrightarrow> server_free sv fs \<Longrightarrow> server_free sv' fs"
  by (auto simp: reg_effect_def server_free_def)

lemma server_free_open [simp]: "server_free (sv\<lparr>sv_open := x\<rparr>) fs = server_free sv fs"
  by (simp add: server_free_def)

text \<open>The end of a publisher's session, whoever has registered the channel.\<close>

lemma publisher_leave_ok:
  assumes "server_free sv fs" and "fm_queues fifo_rep w m ws rs" and "\<forall>i. set (fs i) \<subseteq> set ws"
    and "sv_channels sv ch = Some ss"
  shows "\<exists>sv' fs' w' ws'. publisher_leave p ch k w m sv = Some (Pub_done, sv', w', m) \<and> server_free sv' fs' \<and>
     sv_channels sv' = (sv_channels sv)(ch := None) \<and> sv_open sv' = (sv_open sv)(p := False) \<and>
     (\<forall>i \<in> set ss. c_string (sub_data (sv_subs sv' i)) = Some ''<fini>'' \<and>
        (fs i \<noteq> [] \<longrightarrow> is_ready (w_heap w') (hd (fs i)))) \<and>
     fm_queues fifo_rep w' m ws' rs \<and> set ws' = set ws"
proof -
  let ?sv = "sv\<lparr>sv_open := (sv_open sv)(p := False)\<rparr>"
  have "length ''<fini>'' \<le> max_length" by (simp add: max_length_def)
  with reg_op_ok [of ?sv fs w m ws rs "Unregister ch" "Inr ()" "(sv_channels sv)(ch := None)" "''<fini>''" ss k] assms
  obtain sv' fs' w' ws' where u: "unregister_channel ch k w m ?sv = Some (Returned (Inr ()), sv', w', m)"
    "reg_effect ?sv fs ((sv_channels sv)(ch := None)) ''<fini>'' ss sv' fs' w'"
    "fm_queues fifo_rep w' m ws' rs" "set ws' = set ws" by auto
  then show ?thesis
    by (intro exI [of _ sv'] exI [of _ fs'] exI [of _ w'] exI [of _ ws'])
      (auto simp: publisher_leave_def publisher_gone_def reg_effect_def intro: fini_message)
qed

text \<open>
  A publisher that asks for the name of a channel which another publisher has registered takes
  that channel down. Registering fails, and on its way out the session unregisters the channel
  nevertheless: all subscribers of the other publisher get \<^verbatim>\<open><fini>\<close>, and the next message of the
  owner of the channel fails an assertion.
\<close>

theorem publisher_name_clash:
  assumes free: "server_free sv fs" and Q: "fm_queues fifo_rep w m ws rs" and sub: "\<forall>i. set (fs i) \<subseteq> set ws"
    and ch: "sv_channels sv ch = Some ss" and data: "c_string data = Some ch" "\<not> ec_failed ec"
  shows "\<exists>sv' w' ws'. publisher_started ec data p k w m sv = Some (Pub_done, sv', w', m) \<and>
     fm_queues fifo_rep w' m ws' rs \<and> sv_channels sv' = (sv_channels sv)(ch := None) \<and>
     (\<forall>i \<in> set ss. c_string (sub_data (sv_subs sv' i)) = Some ''<fini>'' \<and>
        (fs i \<noteq> [] \<longrightarrow> is_ready (w_heap w') (hd (fs i)))) \<and>
     (\<forall>eof ec' data' q k'. ec' \<noteq> eof \<longrightarrow> \<not> ec_failed ec' \<longrightarrow>
        publisher_received eof ec' data' q ch k' w' m sv' = None)"
proof -
  from reg_op_ok [OF free Q sub, of "Register ch" _ _ _ _ k] ch obtain sv1 fs1 w1 ws1 where r:
    "register_channel ch k w m sv = Some (Returned (Inl (runtime_error ''channel already exists'')), sv1, w1, m)"
    "reg_effect sv fs (sv_channels sv) [] [] sv1 fs1 w1" "fm_queues fifo_rep w1 m ws1 rs" "set ws1 = set ws" by auto
  have ch1: "sv_channels sv1 = sv_channels sv" using r(2) by (simp add: reg_effect_def)
  from publisher_leave_ok [OF reg_effect_silent [OF r(2) free] r(3), of ch ss p k] sub r(4) ch ch1
  obtain sv' fs' w' ws' where l: "publisher_leave p ch k w1 m sv1 = Some (Pub_done, sv', w', m)" "server_free sv' fs'"
    "sv_channels sv' = (sv_channels sv)(ch := None)"
    "\<forall>i \<in> set ss. c_string (sub_data (sv_subs sv' i)) = Some ''<fini>'' \<and>
        (fs i \<noteq> [] \<longrightarrow> is_ready (w_heap w') (hd (fs i)))" "fm_queues fifo_rep w' m ws' rs" by auto
  have "registry_publish ch msg k' w' m sv' = None" for msg k'
    using l(2,3) by (simp add: registry_publish_def registry_call_def server_free_def ctx_lock_free publish_body_def assert_that_def)
  then have "publisher_received eof ec' data' q ch k' w' m sv' = None" if "ec' \<noteq> eof" "\<not> ec_failed ec'" for eof ec' data' q k'
    using that by (cases "c_string data'") (simp_all add: publisher_received_def)
  with r(1) l data show ?thesis
    by (intro exI [of _ sv'] exI [of _ w'] exI [of _ ws']) (simp add: publisher_started_def publisher_register_def)
qed

theorem publisher_name_clash_witness:
  "\<exists>sv' w'. publisher_started no_error (''news'' @ replicate 1020 NUL) 8 0 (sy_world demo_sys4) (sy_mgr demo_sys4) demo_server =
       Some (Pub_done, sv', w', sy_mgr demo_sys4) \<and> sv_channels sv' ''news'' = None \<and> is_ready (w_heap w') 2"
proof -
  have "\<forall>i :: sess_id. set (if i = 7 then [2 :: fid] else []) \<subseteq> set [2]" "sv_channels demo_server ''news'' = Some [7]"
    by (auto simp: demo_server_def)
  moreover have "c_string (''news'' @ replicate 1020 NUL) = Some ''news''" by (rule c_string_padded) (simp_all add: NUL_def)
  moreover have "\<not> ec_failed no_error" by (simp add: ec_failed_def no_error_def)
  ultimately show ?thesis
    using publisher_name_clash [OF demo_server_free demo_sys4_queues(1), of "''news''" "[7]" "''news'' @ replicate 1020 NUL" no_error 8 0]
    by auto
qed

text \<open>A fiber that finds a mutex taken waits in its line.\<close>

lemma ctx_lock_waits:
  assumes "fm_queues fifo_rep w m ws rs" and "fm_running w m a"
    and "mtx_splk mx = UNLOCKED" and "mtx_state mx = LOCKED" and "Worker a \<notin> set (mtx_waiting mx)"
  shows "\<exists>w'. ctx_lock k w m mx = Some (False, mx\<lparr>mtx_waiting := mtx_waiting mx @ [Worker a]\<rparr>, w', m) \<and>
     is_waiting (w_heap w') a"
  using mutex_lock_sleeps_in_line [OF assms] assms(2) by (auto simp: ctx_lock_def fm_running_def)

text \<open>
  A slow subscriber stops the whole server. A subscriber writes to its client with the mutex of
  its session held. A publisher that has a message for it meanwhile waits in the line of that mutex,
  with the mutex of the registry held; from then on every call of the registry by any other fiber,
  whichever channel it is about, goes to sleep in the line of the registry.
\<close>

theorem slow_subscriber_stalls_registry:
  assumes "sv_mtx sv = mutex_init" and "sv_channels sv ch = Some (i # ss)" and "sub_mtx (sv_subs sv i) = mutex_held b"
    and Q: "fm_queues fifo_rep w m ws rs" and run: "fm_running w m a"
  shows "\<exists>sv1 w1. registry_publish ch msg k w m sv = Some (Sub_line msg (i # ss), sv1, w1, m) \<and>
     is_waiting (w_heap w1) a \<and>
     (\<forall>op w2 m2 c ws2 rs2 k2. fm_queues fifo_rep w2 m2 ws2 rs2 \<longrightarrow> fm_running w2 (m2 :: fifo fiber_manager) c \<longrightarrow>
        (\<exists>sv2 w3. reg_op_call op k2 w2 m2 sv1 = Some (Reg_line, sv2, w3, m2) \<and> is_waiting (w_heap w3) c))"
proof -
  have act: "fm_active m = Some a" using run by (simp add: fm_running_def)
  have held: "mtx_splk (mutex_held b) = UNLOCKED" "mtx_state (mutex_held b) = LOCKED" "mtx_waiting (mutex_held b) = []" for b
    by (simp_all add: mutex_held_def mutex_init_def spinlock_init_def)
  from ctx_lock_waits [OF Q run held(1,2), of b k] obtain w1 where w1:
    "ctx_lock k w m (mutex_held b) = Some (False, (mutex_held b)\<lparr>mtx_waiting := [Worker a]\<rparr>, w1, m)"
    "is_waiting (w_heap w1) a" by (auto simp: held(3))
  let ?sv = "set_sub i ((sv_subs sv i)\<lparr>sub_mtx := (mutex_held b)\<lparr>mtx_waiting := [Worker a]\<rparr>\<rparr>) (sv\<lparr>sv_mtx := mutex_held a\<rparr>)"
  have "mutex_taken (this_get_id m) = mutex_held a" using act by (simp add: mutex_held_taken this_get_id_def)
  with assms(1-3) w1(1) act have "registry_publish ch msg k w m sv = Some (Sub_line msg (i # ss), ?sv, w1, m)"
    by (simp add: registry_publish_def registry_call_def ctx_lock_free publish_body_def assert_that_def
        subscriber_publish_def registry_unlock_def)
  moreover have "\<exists>sv2 w3. reg_op_call op k2 w2 m2 ?sv = Some (Reg_line, sv2, w3, m2) \<and> is_waiting (w_heap w3) c"
    if "fm_queues fifo_rep w2 m2 ws2 rs2" "fm_running w2 m2 c" for op w2 c ws2 rs2 k2 and m2 :: "fifo fiber_manager"
    using ctx_lock_waits [OF that held(1,2), of a k2]
    by (auto simp: reg_op_call_body registry_call_def set_sub_def held(3))
  ultimately show ?thesis using w1(2) by blast
qed

theorem slow_subscriber_stalls_registry_witness:
  "\<exists>sv1 w1 sv2 w3. registry_publish ''news'' ''hello'' 0 (sy_world demo_sys4) (sy_mgr demo_sys4)
       (set_sub 7 ((demo_session [])\<lparr>sub_mtx := mutex_held 2\<rparr>) demo_server) =
       Some (Sub_line ''hello'' [7], sv1, w1, sy_mgr demo_sys4) \<and>
     register_channel ''sport'' 0 (sy_world demo_sys2) (sy_mgr demo_sys2) sv1 = Some (Reg_line, sv2, w3, sy_mgr demo_sys2)"
proof -
  let ?sv = "set_sub 7 ((demo_session [])\<lparr>sub_mtx := mutex_held 2\<rparr>) demo_server"
  have "sv_mtx ?sv = mutex_init" "sv_channels ?sv ''news'' = Some [7]" "sub_mtx (sv_subs ?sv 7) = mutex_held 2"
    by (simp_all add: set_sub_def demo_server_def)
  from slow_subscriber_stalls_registry [OF this demo_sys4_queues(1,2), of "''hello''" 0] obtain sv1 w1 where
    "registry_publish ''news'' ''hello'' 0 (sy_world demo_sys4) (sy_mgr demo_sys4) ?sv =
       Some (Sub_line ''hello'' [7], sv1, w1, sy_mgr demo_sys4)"
    "\<exists>sv2 w3. reg_op_call (Register ''sport'') 0 (sy_world demo_sys2) (sy_mgr demo_sys2) sv1 =
       Some (Reg_line, sv2, w3, sy_mgr demo_sys2)"
    using demo_sys2_queues(1,2) by blast
  then show ?thesis by auto
qed

text \<open>A subscriber that has been woken and not interrupted holds its mutex and writes its message.\<close>

lemma subscriber_woken_writes:
  assumes "session_free (sv_subs sv i) []" and "fm_queues fifo_rep w m ws rs" and "fm_running w m b"
    and "interruption_point w m = Some (Inr (), w)" and "c_string (sub_data (sv_subs sv i)) = Some msg" and "msg \<noteq> ''<fini>''"
  shows "\<exists>sv' w'. subscriber_woken i ch k w m sv = Some (Sub_writing ch, sv', w', m) \<and> is_waiting (w_heap w') b \<and>
     sub_mtx (sv_subs sv' i) = mutex_held b \<and> c_string (sub_data (sv_subs sv' i)) = Some msg"
proof -
  have act: "fm_active m = Some b" using assms(3) by (simp add: fm_running_def)
  have taken: "mutex_taken (this_get_id m) = mutex_held b" using act by (simp add: mutex_held_taken this_get_id_def)
  from async_result_get_enter_ok [OF assms(2,3)] obtain w' where
    "async_result_get_enter w m = Some (w', m)" "is_waiting (w_heap w') b" by blast
  with act taken assms(1,4-6) show ?thesis
    by (auto simp: subscriber_woken_def condition_wait_resumed_def subscriber_relock_def subscriber_message_def
        set_sub_def session_free_def ctx_lock_free)
qed

text \<open>
  C26: a message travels from the client of a publisher to the client of a subscriber. The fiber of
  the publisher, which has read the message, stores it in the session of the subscriber and goes to
  sleep in its next read; if no other fiber was ready the next turn of the scheduler resumes the
  fiber of the subscriber, and, unless it has been interrupted, that fiber writes the same message to
  its client, with the mutex of its session held.
\<close>

theorem message_travels:
  assumes free: "server_free sv fs" and fs: "fs i = [b]" and b: "b \<in> set ws" and ch: "sv_channels sv ch = Some [i]"
    and Q: "fm_queues fifo_rep w m ws []" and run: "fm_running w m a"
    and data: "length data = max_length" "c_string data = Some msg" "msg \<noteq> ''<fini>''" "ec \<noteq> eof" "\<not> ec_failed ec"
  shows "\<exists>sv1 w1 w2 m2. publisher_received eof ec data p ch k w m sv = Some (Pub_reading ch, sv1, w1, m) \<and>
     is_waiting (w_heap w1) a \<and>
     fm_run round_robin_algo now now' w1 (m\<lparr>fm_active := None\<rparr>) = Some (Resumed b None, w2, m2) \<and>
     (interruption_point w2 m2 = Some (Inr (), w2) \<longrightarrow>
       (\<exists>sv2 w3. subscriber_resumed i (Sub_waiting ch) k' w2 m2 sv1 = Some (Sub_writing ch, sv2, w3, m2) \<and>
          c_string (sub_data (sv_subs sv2 i)) = Some msg \<and> sub_mtx (sv_subs sv2 i) = mutex_held b))"
proof -
  let ?d = "msg @ replicate (max_length - length msg) NUL"
  have act: "fm_active m = Some a" using run by (simp add: fm_running_def)
  have sf: "session_free (sv_subs sv i) [b]" "sv_mtx sv = mutex_init" using free fs by (simp_all add: server_free_def) metis
  have len: "length msg < max_length" using c_string_length [OF data(2)] data(1) by simp
  then have d: "c_string ?d = Some msg" using c_string_no_nul [OF data(2)] by (intro c_string_padded) auto
  from subscriber_publish_ok [OF sf(1) less_imp_le [OF len] Q, of k] b obtain s' w1 where p:
    "subscriber_publish msg k w m (sv_subs sv i) = Some (True, s', w1, m)" "session_free s' []" "sub_data s' = ?d"
    "fm_queues fifo_rep w1 m (b # remove1 b ws) []" "is_ready (w_heap w1) b" "\<forall>g. g \<notin> set ws \<longrightarrow> w_heap w1 g = w_heap w g"
    by auto
  have run1: "fm_running w1 m a" using run p(6) fm_running_outside(1) [OF Q run] by (simp add: fm_running_def)
  from async_result_get_enter_ok [OF p(4) run1] obtain w2 where g: "async_result_get_enter w1 m = Some (w2, m)"
    "fm_queues fifo_rep w2 m (b # remove1 b ws @ [a]) []" "is_waiting (w_heap w2) a"
    "\<forall>g. g \<noteq> a \<longrightarrow> wf_state (w_heap w2 g) = wf_state (w_heap w1 g)" by auto
  let ?sv = "set_sub i s' sv"
  have "?sv\<lparr>sv_mtx := mutex_init\<rparr> = ?sv" using sf(2) by (cases sv) (simp add: set_sub_def)
  then have r: "registry_publish ch msg k w m sv = Some (Returned (Inr ()), ?sv, w1, m)"
    unfolding registry_publish_def
    using registry_call_free [OF sf(2), of "publish_body ch msg" k m w "Inr ()" ?sv w1] ch p(1) act
    by (simp add: publish_body_def assert_that_def set_sub_def)
  have rdy: "is_ready (w_heap w2) b"
    using p(5) g(4) b fm_running_outside(1) [OF Q run] by (metis is_ready_def)
  from woken_is_resumed [OF g(2) rdy, of now now'] obtain w3 m3 ws3 rs3 where run3:
    "fm_run round_robin_algo now now' w2 (m\<lparr>fm_active := None\<rparr>) = Some (Resumed b None, w3, m3)"
    "fm_queues fifo_rep w3 m3 ws3 rs3" "fm_running w3 m3 b" by blast
  have s': "session_free (sv_subs ?sv i) []" "c_string (sub_data (sv_subs ?sv i)) = Some msg"
    using p(2,3) d by (simp_all add: set_sub_def)
  from subscriber_woken_writes [OF s'(1) run3(2,3) _ s'(2) data(3), of ch k'] r g(1,3) run3(1) data show ?thesis
    by (fastforce simp: publisher_received_def publisher_published_def publisher_read_def subscriber_resumed_def)
qed

definition demo_data :: string where
  "demo_data = ''hello'' @ replicate (max_length - 5) NUL"

lemma demo_data_msg: "length demo_data = max_length" "c_string demo_data = Some ''hello''"
  by (auto simp: demo_data_def max_length_def NUL_def intro!: c_string_padded [of "''hello''" 1019, unfolded NUL_def, simplified])

theorem message_travels_witness:
  "\<exists>sv1 w1 w2 m2 sv2 w3.
     publisher_received (2, system_category) no_error demo_data 9 ''news'' 0 (sy_world demo_sys4) (sy_mgr demo_sys4) demo_server =
       Some (Pub_reading ''news'', sv1, w1, sy_mgr demo_sys4) \<and>
     fm_run round_robin_algo 5 6 w1 ((sy_mgr demo_sys4)\<lparr>fm_active := None\<rparr>) = Some (Resumed 2 None, w2, m2) \<and>
     subscriber_resumed 7 (Sub_waiting ''news'') 0 w2 m2 sv1 = Some (Sub_writing ''news'', sv2, w3, m2) \<and>
     c_string (sub_data (sv_subs sv2 7)) = Some ''hello''"
proof -
  have "no_error \<noteq> (2, system_category)" "\<not> ec_failed no_error" "sv_channels demo_server ''news'' = Some [7]"
    by (simp_all add: no_error_def ec_failed_def demo_server_def)
  with message_travels [OF demo_server_free _ _ this(3) demo_sys4_queues(1,2) demo_data_msg _ this(1,2), of 2 9 0 5 6 0]
  obtain sv1 w1 w2 m2 where h:
    "publisher_received (2, system_category) no_error demo_data 9 ''news'' 0 (sy_world demo_sys4) (sy_mgr demo_sys4) demo_server =
       Some (Pub_reading ''news'', sv1, w1, sy_mgr demo_sys4)"
    "fm_run round_robin_algo 5 6 w1 ((sy_mgr demo_sys4)\<lparr>fm_active := None\<rparr>) = Some (Resumed 2 None, w2, m2)"
    "interruption_point w2 m2 = Some (Inr (), w2) \<longrightarrow>
       (\<exists>sv2 w3. subscriber_resumed 7 (Sub_waiting ''news'') 0 w2 m2 sv1 = Some (Sub_writing ''news'', sv2, w3, m2) \<and>
          c_string (sub_data (sv_subs sv2 7)) = Some ''hello'')" by fastforce
  have "(do {
      (pc, sv1, w1, m1) \<leftarrow> publisher_received (2, system_category) no_error demo_data 9 ''news'' 0
        (sy_world demo_sys4) (sy_mgr demo_sys4) demo_server;
      (c, w2, m2) \<leftarrow> fm_run round_robin_algo 5 6 w1 ((sy_mgr demo_sys4)\<lparr>fm_active := None\<rparr>);
      map_option fst (interruption_point w2 m2) }) = Some (Inr ())"
    by code_simp
  then have "map_option fst (interruption_point w2 m2) = Some (Inr ())" using h(1,2) by simp
  then have "interruption_point w2 m2 = Some (Inr (), w2)" using interruption_point_passed by fastforce
  with h show ?thesis by blast
qed

section \<open>Every buffer keeps its size\<close>

text \<open>
  The steps of the server: what the fibers of the sessions and the two accepting fibers do, in any
  order and in any state of the scheduler. A read fills a buffer of \<^verbatim>\<open>max_length\<close> characters.
\<close>

inductive server_step :: "server \<Rightarrow> server \<Rightarrow> bool" where
  new_subscriber: "accept_subscriber_round g i w (m :: fifo fiber_manager) sv = Some (sv', w', m') \<Longrightarrow>
    length g = max_length \<Longrightarrow> server_step sv sv'"
| new_publisher: "accept_publisher_round w (m :: fifo fiber_manager) sv = Some (sv', w', m') \<Longrightarrow> server_step sv sv'"
| client_accepted: "accept_completed ec i sv = (sv', r) \<Longrightarrow> server_step sv sv'"
| publisher_start: "publisher_started ec data p k w (m :: fifo fiber_manager) sv = Some (pc, sv', w', m') \<Longrightarrow> server_step sv sv'"
| publisher_receive: "publisher_received eof ec data p ch k w (m :: fifo fiber_manager) sv = Some (pc, sv', w', m') \<Longrightarrow>
    server_step sv sv'"
| publisher_resume: "publisher_resumed p pc k w (m :: fifo fiber_manager) sv = Some (pc', sv', w', m') \<Longrightarrow> server_step sv sv'"
| subscriber_start: "subscriber_started ec data i k w (m :: fifo fiber_manager) sv = Some (s, sv', w', m') \<Longrightarrow>
    length data = max_length \<Longrightarrow> server_step sv sv'"
| subscriber_write: "subscriber_written ec i ch k w (m :: fifo fiber_manager) sv = Some (s, sv', w', m') \<Longrightarrow> server_step sv sv'"
| subscriber_resume: "subscriber_resumed i s k w (m :: fifo fiber_manager) sv = Some (s', sv', w', m') \<Longrightarrow> server_step sv sv'"

definition server_wf :: "server \<Rightarrow> bool" where
  "server_wf sv \<longleftrightarrow> (\<forall>i. length (sub_data (sv_subs sv i)) = max_length)"

lemma server_wf_simps [simp]:
  "server_wf (sv\<lparr>sv_mtx := mx\<rparr>) = server_wf sv" "server_wf (sv\<lparr>sv_channels := C\<rparr>) = server_wf sv"
  "server_wf (sv\<lparr>sv_open := x\<rparr>) = server_wf sv"
  by (simp_all add: server_wf_def)

lemma server_wf_set: "server_wf sv \<Longrightarrow> length (sub_data s) = max_length \<Longrightarrow> server_wf (set_sub i s sv)"
  by (simp add: server_wf_def set_sub_def)

lemma server_wf_data: "server_wf sv \<Longrightarrow> length (sub_data (sv_subs sv i)) = max_length"
  by (simp add: server_wf_def)

definition keeps_wf :: "('x \<times> server \<times> 'y) option \<Rightarrow> bool" where
  "keeps_wf r \<longleftrightarrow> (case r of None \<Rightarrow> True | Some (x, sv, y) \<Rightarrow> server_wf sv)"

lemma keeps_wf_simps [simp]: "keeps_wf None" "keeps_wf (Some (x, sv, y)) = server_wf sv"
  by (simp_all add: keeps_wf_def)

lemma keeps_wf_bind:
  "keeps_wf r \<Longrightarrow> (\<And>x sv y. server_wf sv \<Longrightarrow> keeps_wf (f (x, sv, y))) \<Longrightarrow> keeps_wf (r \<bind> f)"
  by (cases r) auto

lemma subscriptions_publish_wf: "server_wf sv \<Longrightarrow> keeps_wf (subscriptions_publish msg k ss w m sv)"
proof (induction ss arbitrary: w m sv)
  case (Cons i ss)
  then show ?case
    by (auto simp: subscriber_publish_def fill_data_def intro!: Cons.IH server_wf_set dest: server_wf_data
        split: Option.bind_split if_splits)
qed simp

lemma registry_unlock_wf: "server_wf sv \<Longrightarrow> keeps_wf (registry_unlock (t, sv, w, m))"
  by (auto simp: registry_unlock_def split: reg_turn.splits Option.bind_split)

lemma registry_call_wf:
  assumes "\<And>k w m sv. server_wf sv \<Longrightarrow> keeps_wf (body k w m sv)" and "server_wf sv"
  shows "keeps_wf (registry_call body k w m sv)"
proof -
  have "keeps_wf (body k w1 m1 (sv\<lparr>sv_mtx := mx\<rparr>) \<bind> registry_unlock)" for w1 m1 mx
    using assms(2) by (intro keeps_wf_bind assms(1)) (auto intro: registry_unlock_wf)
  with assms(2) show ?thesis
    by (cases "ctx_lock k w m (sv_mtx sv)") (auto simp: registry_call_def Let_def)
qed

lemma reg_op_call_wf: "server_wf sv \<Longrightarrow> keeps_wf (reg_op_call op k w m sv)"
  unfolding reg_op_call_body
  by (rule registry_call_wf)
    (auto simp: reg_body_spec intro: subscriptions_publish_wf split: option.splits sum.splits)

lemmas registry_ops_wf =
  reg_op_call_wf [of _ "Register _", simplified] reg_op_call_wf [of _ "Unregister _", simplified]
  reg_op_call_wf [of _ "Subscribe _ _", simplified] reg_op_call_wf [of _ "Unsubscribe _ _", simplified]
  reg_op_call_wf [of _ "Publish _ _", simplified]

lemma registry_resume_wf:
  "server_wf sv \<Longrightarrow> keeps_wf (body k w m sv) \<Longrightarrow> keeps_wf (registry_resume body t k w m sv)"
  by (auto simp: registry_resume_def intro!: keeps_wf_bind registry_unlock_wf subscriptions_publish_wf split: reg_turn.splits)

lemma publisher_leave_wf: "server_wf sv \<Longrightarrow> keeps_wf (publisher_leave p ch k w m sv)"
  unfolding publisher_leave_def by (intro keeps_wf_bind registry_ops_wf) (auto simp: publisher_gone_def)

lemma publisher_read_wf: "server_wf sv \<Longrightarrow> keeps_wf (publisher_read ch w m sv)"
  by (auto simp: publisher_read_def split: Option.bind_split)

lemma publisher_register_wf: "server_wf sv \<Longrightarrow> keeps_wf (publisher_register p ch k w m sv)"
  unfolding publisher_register_def
  by (intro keeps_wf_bind registry_ops_wf)
    (auto intro: publisher_leave_wf publisher_read_wf split: reg_turn.splits sum.splits)

lemma publisher_published_wf: "server_wf sv \<Longrightarrow> keeps_wf (publisher_published p ch msg k (t, sv, w, m))"
  by (auto simp: publisher_published_def intro: publisher_leave_wf publisher_read_wf split: reg_turn.splits sum.splits)

lemmas publisher_wf = publisher_leave_wf publisher_read_wf publisher_register_wf publisher_published_wf

lemma publisher_steps_wf:
  assumes "server_wf sv"
  shows "keeps_wf (publisher_started ec data p k w m sv)" "keeps_wf (publisher_received eof ec data p ch k w m sv)"
    "keeps_wf (publisher_resumed p pc k w m sv)"
proof -
  show "keeps_wf (publisher_started ec data p k w m sv)"
    using publisher_wf [OF assms] by (auto simp: publisher_started_def split: Option.bind_split)
  have "keeps_wf (registry_publish ch msg k w m sv \<bind> publisher_published p ch msg k)" for msg
    by (intro keeps_wf_bind registry_ops_wf assms) (auto simp: split_paired_all intro: publisher_wf)
  then show "keeps_wf (publisher_received eof ec data p ch k w m sv)"
    using publisher_wf [OF assms] by (auto simp: publisher_received_def split: Option.bind_split)
  show "keeps_wf (publisher_resumed p pc k w m sv)"
    using assms
    by (auto simp: publisher_resumed_def publisher_gone_def split_paired_all split: pub_pc.splits
        intro!: keeps_wf_bind registry_resume_wf registry_ops_wf publisher_wf)
qed

lemma subscriber_leave_wf: "server_wf sv \<Longrightarrow> keeps_wf (subscriber_leave i ch k w m sv)"
  unfolding subscriber_leave_def by (intro keeps_wf_bind registry_ops_wf) (auto simp: subscriber_gone_def)

lemma subscriber_round_wf: "server_wf sv \<Longrightarrow> keeps_wf (subscriber_round i ch k w m sv)"
  by (auto simp: subscriber_round_def Let_def intro!: server_wf_set dest: server_wf_data split: Option.bind_split)

lemma subscriber_subscribe_wf: "server_wf sv \<Longrightarrow> keeps_wf (subscriber_subscribe i ch k w m sv)"
  unfolding subscriber_subscribe_def
  by (intro keeps_wf_bind registry_ops_wf)
    (auto intro: subscriber_leave_wf subscriber_round_wf split: reg_turn.splits sum.splits)

lemma subscriber_message_wf: "server_wf sv \<Longrightarrow> keeps_wf (subscriber_message i ch k w m sv)"
  by (auto simp: subscriber_message_def Let_def intro!: server_wf_set subscriber_leave_wf dest: server_wf_data
      split: Option.bind_split)

lemma subscriber_relock_wf: "server_wf sv \<Longrightarrow> keeps_wf (subscriber_relock i ch k w m sv)"
  by (auto simp: subscriber_relock_def Let_def intro!: server_wf_set subscriber_message_wf dest: server_wf_data
      split: Option.bind_split)

lemma subscriber_woken_wf: "server_wf sv \<Longrightarrow> keeps_wf (subscriber_woken i ch k w m sv)"
  by (auto simp: subscriber_woken_def Let_def intro!: server_wf_set subscriber_leave_wf subscriber_relock_wf
      dest: server_wf_data split: Option.bind_split sum.splits)

lemma subscriber_steps_wf:
  assumes "server_wf sv"
  shows "length data = max_length \<Longrightarrow> keeps_wf (subscriber_started ec data i k w m sv)"
    "keeps_wf (subscriber_written ec i ch k w m sv)" "keeps_wf (subscriber_resumed i pc k w m sv)"
proof -
  show "keeps_wf (subscriber_started ec data i k w m sv)" if "length data = max_length"
    using assms that
    by (auto simp: subscriber_started_def Let_def intro!: server_wf_set subscriber_leave_wf subscriber_subscribe_wf
        split: Option.bind_split)
  show "keeps_wf (subscriber_written ec i ch k w m sv)"
    using assms
    by (auto simp: subscriber_written_def Let_def intro!: server_wf_set subscriber_leave_wf subscriber_round_wf
        dest: server_wf_data split: Option.bind_split)
  show "keeps_wf (subscriber_resumed i pc k w m sv)"
    using assms
    by (auto simp: subscriber_resumed_def subscriber_gone_def split_paired_all split: sub_pc.splits
        intro!: keeps_wf_bind registry_resume_wf registry_ops_wf subscriber_subscribe_wf subscriber_round_wf
        subscriber_woken_wf subscriber_relock_wf)
qed

lemma server_step_wf: "server_step sv sv' \<Longrightarrow> server_wf sv \<Longrightarrow> server_wf sv'"
proof (induction rule: server_step.induct)
  case (new_subscriber g i w m sv sv' w' m')
  then show ?case
    by (auto simp: accept_subscriber_round_def Let_def subscriber_session_ctor_def intro!: server_wf_set split: bind_splits)
next
  case (new_publisher w m sv sv' w' m')
  then show ?case by (auto simp: accept_publisher_round_def split: bind_splits)
next
  case (client_accepted ec i sv sv' r)
  then show ?case by (auto simp: accept_completed_def split: if_splits)
qed (use publisher_steps_wf subscriber_steps_wf in \<open>metis keeps_wf_simps(2)\<close>)+

section \<open>No message overflows a buffer\<close>



text \<open>
  A client that sends a full buffer without a terminator makes the server read beyond the buffer,
  whether it is the name of a channel or a message.
\<close>

theorem unterminated_message_undefined:
  assumes "NUL \<notin> set data" and "\<not> ec_failed ec" and "ec \<noteq> eof"
  shows "publisher_started ec data p k w m sv = None" and "publisher_received eof ec data p ch k w m sv = None"
    and "subscriber_started ec data p k w m sv = None"
  using assms by (simp_all add: publisher_started_def publisher_received_def subscriber_started_def c_string_def Let_def)

end
