(* ===== verification/Sleepers.thy ===== *)
theory Sleepers
  imports Thread_System
begin

text \<open>
  What a request does to the fibers that have nothing to do with it. A fiber that waits without
  deadline and without pending interruption sleeps until somebody wakes it by name; a fiber that
  has been woken stays ready until the scheduler resumes it; a fiber that lives goes on living
  until it returns. The synchronisation objects rely on this for the fibers in their lines.
\<close>

definition asleep :: "'s sys \<Rightarrow> fid \<Rightarrow> bool" where
  "asleep s f \<longleftrightarrow> f \<in> set (sy_used s) \<and> sy_pc s f = In_wait \<and> wf_state (w_heap (sy_world s) f) = WAITING \<and>
     wf_tp (w_heap (sy_world s) f) = time_point_max \<and> \<not> interruption_requested (w_heap (sy_world s) f)"

definition roused :: "'s sys \<Rightarrow> fid \<Rightarrow> bool" where
  "roused s f \<longleftrightarrow> f \<in> set (sy_used s) \<and> sy_pc s f = In_wait \<and> wf_state (w_heap (sy_world s) f) = READY"

definition alive :: "'s sys \<Rightarrow> fid \<Rightarrow> bool" where
  "alive s f \<longleftrightarrow> f \<in> set (sy_used s) \<and> wf_state (w_heap (sy_world s) f) \<noteq> TERMINATED"

text \<open>The fiber \<open>f\<close> as the others see it has not changed.\<close>

definition undisturbed :: "fid \<Rightarrow> 's sys \<Rightarrow> 's sys \<Rightarrow> bool" where
  "undisturbed f s s' \<longleftrightarrow> f \<in> set (sy_used s') \<and> sy_pc s' f = sy_pc s f \<and>
     wf_state (w_heap (sy_world s') f) = wf_state (w_heap (sy_world s) f) \<and>
     wf_tp (w_heap (sy_world s') f) = wf_tp (w_heap (sy_world s) f) \<and>
     interruption_requested (w_heap (sy_world s') f) = interruption_requested (w_heap (sy_world s) f)"

lemma undisturbedD:
  assumes "undisturbed f s s'"
  shows "asleep s f \<Longrightarrow> asleep s' f" "roused s f \<Longrightarrow> roused s' f" "alive s f \<Longrightarrow> alive s' f"
  using assms by (simp_all add: undisturbed_def asleep_def roused_def alive_def)

text \<open>The fibers a request names.\<close>

fun rq_target :: "request \<Rightarrow> fid option" where
  "rq_target (Rq_notify f) = Some f"
| "rq_target (Rq_interrupt f) = Some f"
| "rq_target (Rq_main_join f) = Some f"
| "rq_target _ = None"

fun rq_is_run :: "request \<Rightarrow> bool" where
  "rq_is_run (Rq_run now now') = True"
| "rq_is_run _ = False"

lemma frame_undisturbed:
  assumes "links_frame B h h2" and "w_heap (sy_world s') = h2" and "f \<in> set (sy_used s')" and "sy_pc s' f = sy_pc s f"
    and "wf_state (h f) = wf_state (w_heap (sy_world s) f)" and "wf_tp (h f) = wf_tp (w_heap (sy_world s) f)"
    and "interruption_requested (h f) = interruption_requested (w_heap (sy_world s) f)"
  shows "undisturbed f s s'"
  using assms(2-7) links_frame_fields [OF assms(1), of f] by (simp add: undisturbed_def interruption_requested_def)

text \<open>The running fiber \<open>a\<close> has suspended itself.\<close>

lemma suspend_undisturbed:
  assumes "links_frame B h (w_heap w)" and "fm_active m = Some a" and "wf_state (h a) \<noteq> TERMINATED"
    and "sys_leave a c w m s = Some s'" and "f \<in> set (sy_used s)"
    and "f \<noteq> a \<Longrightarrow> wf_state (h f) = wf_state (w_heap (sy_world s) f) \<and> wf_tp (h f) = wf_tp (w_heap (sy_world s) f) \<and>
      wf_flags (h f) = wf_flags (w_heap (sy_world s) f)"
  shows "f \<noteq> a \<and> undisturbed f s s' \<or> f = a \<and> alive s' f"
proof -
  have "wf_state (w_heap w a) \<noteq> TERMINATED" using links_frame_fields(5) [OF assms(1), of a] assms(3) by simp
  from leave_live [OF assms(2) this, of c s] assms(4)
  have "s' = s\<lparr>sy_world := w, sy_mgr := m\<lparr>fm_active := None\<rparr>, sy_pc := (sy_pc s)(a := c)\<rparr>" by simp
  with assms(3,5,6) links_frame_fields [OF assms(1), of f] show ?thesis
    by (cases "f = a") (simp_all add: undisturbed_def alive_def interruption_requested_def)
qed

text \<open>A turn of the scheduler that resumes \<open>g\<close>, as the other fibers see it.\<close>

definition run_calm :: "fid \<Rightarrow> heap \<Rightarrow> heap \<Rightarrow> bool" where
  "run_calm g h h' \<longleftrightarrow> (\<forall>x. (wf_state (h x) \<noteq> TERMINATED \<longrightarrow> wf_state (h' x) \<noteq> TERMINATED) \<and>
     (wf_state (h x) = READY \<longrightarrow> x \<noteq> g \<longrightarrow> wf_state (h' x) = READY) \<and>
     (wf_state (h x) = WAITING \<longrightarrow> wf_tp (h x) = time_point_max \<longrightarrow> \<not> interruption_requested (h x) \<longrightarrow>
        x \<noteq> g \<and> wf_state (h' x) = WAITING \<and> wf_tp (h' x) = time_point_max \<and> \<not> interruption_requested (h' x)))"

context sched_contract
begin

lemma spawn_undisturbed:
  assumes I: "sys_inv_at rq s ws rs" and g: "g \<notin> set (sy_used s)" and ex: "sys_exec A (Rq_spawn g) s = Some s'"
    and f: "f \<in> set (sy_used s)"
  shows "undisturbed f s s'"
proof -
  let ?h = "w_heap (sy_world s)"
  have P: "sys_placed rq s ws rs" using I by (simp add: sys_inv_at_def)
  have "g \<notin> set ws" "g \<notin> set rs" using sys_placedD(3,4) [OF P] g by blast+
  from fiber_ctor_ok [OF sys_placedD(1) [OF P] this] obtain w' m' where c:
    "fiber_ctor A g (sy_world s) (sy_mgr s) = Some (Some g, w', m')"
    "links_frame (insert g (set rs)) (?h(g := new_fiber)) (w_heap w')" by blast
  with ex have "s' = s\<lparr>sy_world := w', sy_mgr := m', sy_used := g # sy_used s, sy_pc := (sy_pc s)(g := At_large)\<rparr>"
    by (simp add: sys_exec_def)
  with f g show ?thesis by (intro frame_undisturbed [OF c(2)]) auto
qed

lemma wait_undisturbed:
  assumes I: "sys_inv_at rq s ws rs" and a: "fm_active (sy_mgr s) = Some a" "t \<le> time_point_max"
    and ex: "sys_exec A (Rq_wait t) s = Some s'" and f: "f \<in> set (sy_used s)"
  shows "f \<noteq> a \<and> undisturbed f s s' \<or> f = a \<and> alive s' f"
proof -
  let ?h = "w_heap (sy_world s)"
  have P: "sys_placed rq s ws rs" using I by (simp add: sys_inv_at_def)
  from wait_until_enter_ok [OF sys_placedD(1) [OF P] sys_placedD(6) [OF P a(1)] a(2)] obtain w' where w:
    "fm_wait_until_enter t LOCKED (sy_world s) (sy_mgr s) = Some (UNLOCKED, w', sy_mgr s)"
    "links_frame (insert a (set ws)) (?h(a := (?h a)\<lparr>wf_state := WAITING, wf_tp := t,
       wf_phead := Some (fm_wqueue (sy_mgr s)), wf_ptail := Some (fm_wqueue (sy_mgr s))\<rparr>)) (w_heap w')" by blast
  with ex a(1) have "sys_leave a In_wait w' (sy_mgr s) s = Some s'" by (simp add: sys_exec_def)
  from suspend_undisturbed [OF w(2) a(1) _ this f] show ?thesis by simp
qed

lemma yield_undisturbed:
  assumes I: "sys_inv_at rq s ws rs" and a: "fm_active (sy_mgr s) = Some a"
    and ex: "sys_exec A Rq_yield s = Some s'" and f: "f \<in> set (sy_used s)"
  shows "f \<noteq> a \<and> undisturbed f s s' \<or> f = a \<and> alive s' f"
proof -
  let ?h = "w_heap (sy_world s)"
  have P: "sys_placed rq s ws rs" using I by (simp add: sys_inv_at_def)
  from yield_enter_ok [OF sys_placedD(1) [OF P] sys_placedD(6) [OF P a]] obtain w' where w:
    "fm_yield_enter (sy_world s) (sy_mgr s) = Some (w', sy_mgr s)"
    "links_frame (insert a (set ws)) (?h(a := (?h a)\<lparr>wf_state := READY,
       wf_phead := Some (fm_wqueue (sy_mgr s)), wf_ptail := Some (fm_wqueue (sy_mgr s))\<rparr>)) (w_heap w')" by blast
  with ex a have "sys_leave a At_large w' (sy_mgr s) s = Some s'" by (simp add: sys_exec_def)
  from suspend_undisturbed [OF w(2) a _ this f] show ?thesis by simp
qed

lemma join_undisturbed:
  assumes I: "sys_inv_at rq s ws rs" and a: "fm_active (sy_mgr s) = Some a" and g: "g \<in> set (sy_used s)" "g \<noteq> a"
    and ex: "sys_exec A (Rq_join g) s = Some s'" and f: "f \<in> set (sy_used s)"
  shows "f \<noteq> a \<and> undisturbed f s s' \<or> f = a \<and> alive s' f"
proof -
  let ?h = "w_heap (sy_world s)"
  have P: "sys_placed rq s ws rs"
    and J: "sys_joins ?h (set ws) (set rs) (sy_pc s) (set (sy_used s))"
    using I by (simp_all add: sys_inv_at_def)
  note Q = sys_placedD(1) [OF P] and run = sys_placedD(6) [OF P a] and splk = sys_joinsD(1) [OF J g(1)]
  obtain h w' where w: "fm_join_enter g (sy_world s) (sy_mgr s) = Some (w', sy_mgr s)"
    "links_frame (insert a (set ws)) h (w_heap w')" "wf_state (h a) \<noteq> TERMINATED"
    "\<And>x. x \<noteq> a \<Longrightarrow> wf_state (h x) = wf_state (?h x) \<and> wf_tp (h x) = wf_tp (?h x) \<and> wf_flags (h x) = wf_flags (?h x)"
  proof (cases "wf_state (?h g) = TERMINATED")
    case True
    from join_enter_terminated [OF Q run g(2) True splk] that show ?thesis by force
  next
    case False
    from join_enter_waits [OF Q run g(2) False splk] g(2) that show ?thesis by force
  qed
  with ex a have "sys_leave a (In_join g) w' (sy_mgr s) s = Some s'" by (simp add: sys_exec_def)
  from suspend_undisturbed [OF w(2) a w(3) this f] w(4) [of f] show ?thesis by simp
qed

lemma return_undisturbed:
  assumes I: "sys_inv_at rq s ws rs" and a: "fm_active (sy_mgr s) = Some a"
    and oc: "oc = Fn_returned \<or> oc = Fn_interrupted" and ex: "sys_exec A (Rq_return oc) s = Some s'"
    and f: "f \<in> set (sy_used s)" "f \<noteq> a"
  shows "sy_pc s f \<noteq> In_join a \<Longrightarrow> undisturbed f s s'" and "alive s f \<Longrightarrow> alive s' f"
proof -
  let ?h = "w_heap (sy_world s)"
  have P: "sys_placed rq s ws rs"
    and J: "sys_joins ?h (set ws) (set rs) (sy_pc s) (set (sy_used s))"
    using I by (simp_all add: sys_inv_at_def)
  from return_exit [OF I a oc] obtain x evs w' ws' where w:
    "trampoline_exit oc a (sy_world s) = Some (Suspended_for_good, evs, w')" "fm_queues rq w' (sy_mgr s) ws' rs"
    "links_frame (set ws) (ready_all (set (wf_waiting (?h a))) (?h(a :=
       (?h a)\<lparr>wf_except := x, wf_state := TERMINATED, wf_waiting := []\<rparr>))) (w_heap w')" by blast
  note used = sys_placedD(5) [OF P a]
  have aw: "a \<notin> set (wf_waiting (?h a))" using active_at_large(2) [OF I a used] .
  have same: "wf_state (w_heap w' f) = (if f \<in> set (wf_waiting (?h a)) then READY else wf_state (?h f))"
    "wf_tp (w_heap w' f) = wf_tp (?h f)" "wf_flags (w_heap w' f) = wf_flags (?h f)" "wf_waiting (w_heap w' a) = []"
    using links_frame_fields [OF w(3), of f] links_frame_fields(10) [OF w(3), of a] f(2) aw by (simp_all add: ready_all_def)
  from resume_leave_ok [OF w(2) a, of None] same(4) obtain w'' where lv:
    "fm_resume_leave None w' (sy_mgr s) = Some (w'', (sy_mgr s)\<lparr>fm_active := None\<rparr>)" "w_heap w'' f = w_heap w' f"
    using f(2) by auto
  have s': "w_heap (sy_world s') f = w_heap w' f" "f \<in> set (sy_used s')" "sy_pc s' f = sy_pc s f"
    using ex w(1) a f lv by (auto simp: sys_exec_def sys_leave_def)
  show "undisturbed f s s'" if "sy_pc s f \<noteq> In_join a"
  proof -
    have "f \<notin> set (wf_waiting (?h a))" using sys_joinsD(4) [OF J used, of f] that by blast
    with same s' show ?thesis by (simp add: undisturbed_def interruption_requested_def)
  qed
  show "alive s' f" if "alive s f" using that same(1) s' by (simp add: alive_def)
qed

lemma ready_undisturbed:
  assumes "set_ready g w = Some w'" and "fm_queues rq w m ws rs" and "g \<in> set ws \<union> set rs"
  shows "wf_state (w_heap w' f) = (if f = g then READY else wf_state (w_heap w f))" "wf_tp (w_heap w' f) = wf_tp (w_heap w f)"
    "wf_flags (w_heap w' f) = wf_flags (w_heap w f)"
proof -
  from set_ready_member [OF assms(2,3)] assms(1) have "links_frame (set ws) (ready_all {g} (w_heap w)) (w_heap w')" by auto
  from links_frame_fields [OF this, of f] show
    "wf_state (w_heap w' f) = (if f = g then READY else wf_state (w_heap w f))" "wf_tp (w_heap w' f) = wf_tp (w_heap w f)"
    "wf_flags (w_heap w' f) = wf_flags (w_heap w f)" by (simp_all add: ready_all_def)
qed

text \<open>Notifying and interrupting a fiber that is in one of the queues.\<close>

lemma notify_effect:
  assumes I: "sys_inv_at rq s ws rs" and g: "g \<in> set (sy_used s)" "sy_pc s g = In_wait"
    and ex: "sys_exec A (Rq_notify g) s = Some s'"
  shows "f \<in> set (sy_used s) \<Longrightarrow> f \<noteq> g \<Longrightarrow> undisturbed f s s'" and "roused s' g" and "sy_mgr s' = sy_mgr s"
    and "sy_used s' = sy_used s" and "sy_pc s' = sy_pc s"
proof -
  have P: "sys_placed rq s ws rs"
    and J: "sys_joins (w_heap (sy_world s)) (set ws) (set rs) (sy_pc s) (set (sy_used s))"
    using I by (simp_all add: sys_inv_at_def)
  have mem: "g \<in> set ws \<union> set rs" using sys_joinsD(3) [OF J g(1)] g(2) by simp
  obtain w' where w: "set_ready g (sy_world s) = Some w'" "s' = s\<lparr>sy_world := w'\<rparr>"
    using ex by (auto simp: sys_exec_def split: bind_splits)
  note rd = ready_undisturbed [OF w(1) sys_placedD(1) [OF P] mem]
  show "undisturbed f s s'" if "f \<in> set (sy_used s)" "f \<noteq> g"
    using that rd [of f] by (simp add: w(2) undisturbed_def interruption_requested_def)
  show "roused s' g" "sy_mgr s' = sy_mgr s" "sy_used s' = sy_used s" "sy_pc s' = sy_pc s"
    using g rd(1) [of g] by (simp_all add: w(2) roused_def)
qed

lemma interrupt_undisturbed:
  assumes I: "sys_inv_at rq s ws rs" and g: "g \<in> set (sy_used s)" "fm_active (sy_mgr s) \<noteq> Some g"
    "\<not> is_terminated (w_heap (sy_world s)) g"
    and ex: "sys_exec A (Rq_interrupt g) s = Some s'" and f: "f \<in> set (sy_used s)"
  shows "f \<noteq> g \<Longrightarrow> undisturbed f s s'" and "alive s f \<Longrightarrow> alive s' f"
proof -
  have P: "sys_placed rq s ws rs" using I by (simp add: sys_inv_at_def)
  have mem: "g \<in> set ws \<union> set rs" using sys_placedD(7) [OF P g(1)] g(2,3) by (auto simp: is_terminated_def)
  define w1 where "w1 = (sy_world s)\<lparr>w_heap := (w_heap (sy_world s))(g := interruption_requested_set True (w_heap (sy_world s) g))\<rparr>"
  have Q1: "fm_queues rq w1 (sy_mgr s) ws rs"
    by (rule queues_cong_fields [OF sys_placedD(1) [OF P]])
      (simp_all add: w1_def sched_same_def interruption_requested_set_def)
  obtain w' where w: "set_ready g w1 = Some w'" "s' = s\<lparr>sy_world := w'\<rparr>"
    using ex by (auto simp: sys_exec_def fiber_interrupt_def request_interruption_def upd_heap_def w1_def Let_def split: bind_splits)
  from ready_undisturbed [OF w(1) Q1 mem, of f] f show "f \<noteq> g \<Longrightarrow> undisturbed f s s'" "alive s f \<Longrightarrow> alive s' f"
    by (simp_all add: w(2) undisturbed_def alive_def interruption_requested_def w1_def)
qed

text \<open>The end of a join: the joined fiber has ended and is gone, nothing else changes.\<close>

lemma join_leave_effect:
  assumes "sys_join_leave g s = Some s'"
  shows "wf_state (w_heap (sy_world s) g) = TERMINATED" "sy_used s' = remove1 g (sy_used s)" "sy_pc s' = sy_pc s"
    "sy_mgr s' = sy_mgr s" "f \<noteq> g \<Longrightarrow> w_heap (sy_world s') f = w_heap (sy_world s) f"
  using assms
  by (auto simp: sys_join_leave_def fiber_join_leave_def fm_join_leave_def deallocate_def worker_fiber_dtor_def Let_def
      is_terminated_def assert_that_def split: bind_splits if_splits)

lemma run_states:
  assumes Q: "fm_queues rq w m ws rs" and act: "fm_active m = None" and now: "now < time_point_max"
    and some: "rs \<noteq> [] \<or> takeWhile (\<lambda>x. fm_due now (w_heap w x)) ws \<noteq> []"
  shows "\<exists>g w' m'. fm_run A now now' w m = Some (Resumed g None, w', m') \<and> fm_active m' = Some g \<and>
     run_calm g (w_heap w) (w_heap w')"
proof -
  let ?T = "takeWhile (\<lambda>x. fm_due now (w_heap w x)) ws"
  from run_resumes [OF Q _ some, of now'] act obtain g w' m' ys h2 where r:
    "fm_run A now now' w m = Some (Resumed g None, w', m')" "fm_running w' m' g" "insert g (set ys) = set rs \<union> set ?T"
    "links_frame (set ws \<union> set rs) (wake_all (set ?T) (w_heap w)) h2" "w_heap w' = h2(g := (h2 g)\<lparr>wf_state := RUNNING\<rparr>)"
    by auto
  have h: "wf_state (w_heap w' x) = (if x = g then RUNNING else if x \<in> set ?T then READY else wf_state (w_heap w x))"
    "x \<notin> set ?T \<Longrightarrow> wf_tp (w_heap w' x) = wf_tp (w_heap w x)"
    "x \<notin> set ?T \<Longrightarrow> wf_flags (w_heap w' x) = wf_flags (w_heap w x)" for x
    using links_frame_fields(2,5,6) [OF r(4), of x] by (auto simp: r(5) wake_all_def)
  have T: "fm_due now (w_heap w x)" "x \<in> set ws" if "x \<in> set ?T" for x using that by (auto dest: set_takeWhileD)
  have g: "g \<in> set rs \<union> set ?T" using r(3) by blast
  have "x \<noteq> g \<and> wf_state (w_heap w' x) = WAITING \<and> wf_tp (w_heap w' x) = time_point_max \<and>
      \<not> interruption_requested (w_heap w' x)"
    if x: "wf_state (w_heap w x) = WAITING" "wf_tp (w_heap w x) = time_point_max" "\<not> interruption_requested (w_heap w x)" for x
  proof -
    have "x \<notin> set ?T" using T(1) [of x] now x by (auto simp: fm_due_def)
    moreover have "x \<notin> set rs" using fm_queuesD(6) [OF Q, of x] x(1) by auto
    ultimately show ?thesis using g x h [of x] by (auto simp: interruption_requested_def)
  qed
  moreover have "wf_state (w_heap w' x) \<noteq> TERMINATED" if "wf_state (w_heap w x) \<noteq> TERMINATED" for x
    using that by (simp add: h(1))
  moreover have "wf_state (w_heap w' x) = READY" if "wf_state (w_heap w x) = READY" "x \<noteq> g" for x
    using that by (simp add: h(1))
  ultimately have "run_calm g (w_heap w) (w_heap w')" unfolding run_calm_def by blast
  with r(1,2) show ?thesis by (auto simp: fm_running_def)
qed

lemma run_keeps:
  assumes I: "sys_inv_at rq s ws rs" and act: "fm_active (sy_mgr s) = None" and now: "now < time_point_max"
    and ex: "sys_exec A (Rq_run now now') s = Some s'"
  shows "(asleep s f \<longrightarrow> asleep s' f) \<and> (roused s f \<longrightarrow> roused s' f \<or> fm_active (sy_mgr s') = Some f) \<and>
    (alive s f \<longrightarrow> alive s' f)"
proof (cases "rs \<noteq> [] \<or> takeWhile (\<lambda>x. fm_due now (w_heap (sy_world s) x)) ws \<noteq> []")
  case False
  then have "fm_queues rq (sy_world s) (sy_mgr s) ws []" using I by (simp add: sys_inv_at_def sys_placed_def)
  from run_sleeps [OF this act, of now now'] False ex show ?thesis by (simp add: sys_exec_def)
next
  case True
  have P: "sys_placed rq s ws rs" using I by (simp add: sys_inv_at_def)
  from run_states [OF sys_placedD(1) [OF P] act now True, of now'] obtain g w' m' where r:
    "fm_run A now now' (sy_world s) (sy_mgr s) = Some (Resumed g None, w', m')" "fm_active m' = Some g"
    "run_calm g (w_heap (sy_world s)) (w_heap w')" by blast
  define s1 where "s1 = s\<lparr>sy_world := w', sy_mgr := m'\<rparr>"
  have ex1: "sys_continue g s1 = Some s'" using ex r(1) by (simp add: sys_exec_def s1_def)
  have "f \<in> set (sy_used s') \<and> w_heap (sy_world s') f = w_heap w' f \<and> (f \<noteq> g \<longrightarrow> sy_pc s' f = sy_pc s f) \<and> sy_mgr s' = m'"
    if f: "f \<in> set (sy_used s)" "wf_state (w_heap w' f) \<noteq> TERMINATED"
  proof (cases "sy_pc s g")
    case (In_join k)
    with ex1 obtain s2 where s2: "sys_join_leave k s1 = Some s2" "s' = s2\<lparr>sy_pc := (sy_pc s2)(g := At_large)\<rparr>"
      by (auto simp: sys_continue_def s1_def split: bind_splits)
    note jl = join_leave_effect [OF s2(1)]
    have "f \<noteq> k" using jl(1) f(2) by (auto simp: s1_def)
    with jl(2-5) f(1) show ?thesis by (simp add: s2(2) s1_def)
  qed (use ex1 f(1) in \<open>auto simp: sys_continue_def s1_def\<close>)
  with r(2) spec [OF r(3) [unfolded run_calm_def], of f] show ?thesis
    by (auto simp: asleep_def roused_def alive_def)
qed

text \<open>All requests together.\<close>

lemma exec_undisturbed:
  assumes I: "sys_inv_at rq s ws rs" and en: "sys_enabled r s" and ex: "sys_exec A r s = Some s'"
    and f: "f \<in> set (sy_used s)" "fm_active (sy_mgr s) \<noteq> Some f" "\<And>g. sy_pc s f \<noteq> In_join g"
    and r: "rq_target r \<noteq> Some f" "\<not> rq_is_run r"
  shows "undisturbed f s s'"
proof -
  note en' = en [unfolded sys_enabled_def Let_def]
  show ?thesis
  proof (cases r)
    case (Rq_spawn g)
    with en' spawn_undisturbed [OF I _ _ f(1)] ex show ?thesis by auto
  next
    case (Rq_wait t)
    with en' wait_undisturbed [OF I _ _ _ f(1), of _ t] ex f(2) show ?thesis by auto
  next
    case Rq_yield
    with en' yield_undisturbed [OF I _ _ f(1)] ex f(2) show ?thesis by auto
  next
    case (Rq_join g)
    with en' join_undisturbed [OF I _ _ _ _ f(1), of _ g] ex f(2) show ?thesis by (auto split: option.splits)
  next
    case (Rq_main_join g)
    then have "f \<noteq> g" "sys_join_leave g s = Some s'" using r(1) ex by (auto simp: sys_exec_def Let_def)
    with join_leave_effect [OF this(2)] f(1) show ?thesis by (simp add: undisturbed_def)
  next
    case (Rq_return oc)
    with en' obtain a where "fm_active (sy_mgr s) = Some a" "oc = Fn_returned \<or> oc = Fn_interrupted" by auto
    with return_undisturbed(1) [OF I this _ f(1)] Rq_return ex f(2,3) show ?thesis by auto
  next
    case (Rq_notify g)
    with en' notify_effect(1) [OF I, of g s' f] ex f(1) r(1) show ?thesis by auto
  next
    case (Rq_interrupt g)
    with en' interrupt_undisturbed(1) [OF I, of g s' f] ex f(1) r(1) show ?thesis by auto
  next
    case Rq_interruption_point
    with en' ex f(1,2) show ?thesis
      by (auto simp: sys_exec_def interruption_point_def request_interruption_def upd_heap_def undisturbed_def Let_def
          split: bind_splits if_splits)
  next
    case (Rq_detach g)
    with ex f(1) show ?thesis
      by (auto simp: sys_exec_def fiber_detach_def fiber_joinable_def upd_heap_def undisturbed_def flag_updates Let_def
          split: bind_splits if_splits)
  qed (use r(2) in simp)
qed

lemma exec_alive:
  assumes I: "sys_inv_at rq s ws rs" and en: "sys_enabled r s" and ex: "sys_exec A r s = Some s'"
    and f: "alive s f" and r: "fm_active (sy_mgr s) = Some f \<Longrightarrow> \<forall>oc. r \<noteq> Rq_return oc"
  shows "alive s' f"
proof -
  note en' = en [unfolded sys_enabled_def Let_def]
  have u: "f \<in> set (sy_used s)" using f by (simp add: alive_def)
  show ?thesis
  proof (cases r)
    case (Rq_spawn g)
    with en' spawn_undisturbed [OF I _ _ u] ex undisturbedD(3) [of f s s'] f show ?thesis by auto
  next
    case (Rq_run now now')
    with en' run_keeps [OF I, of now now' s' f] ex f show ?thesis by auto
  next
    case (Rq_wait t)
    with en' wait_undisturbed [OF I _ _ _ u, of _ t] ex undisturbedD(3) [of f s s'] f show ?thesis by auto
  next
    case Rq_yield
    with en' yield_undisturbed [OF I _ _ u] ex undisturbedD(3) [of f s s'] f show ?thesis by auto
  next
    case (Rq_join g)
    with en' join_undisturbed [OF I _ _ _ _ u, of _ g] ex undisturbedD(3) [of f s s'] f show ?thesis by (auto split: option.splits)
  next
    case (Rq_main_join g)
    then have "sys_join_leave g s = Some s'" using ex by (auto simp: sys_exec_def Let_def)
    with join_leave_effect [OF this] f show ?thesis by (cases "f = g") (auto simp: alive_def)
  next
    case (Rq_return oc)
    with en' obtain a where "fm_active (sy_mgr s) = Some a" "oc = Fn_returned \<or> oc = Fn_interrupted" by auto
    with return_undisturbed(2) [OF I this _ u] Rq_return ex f r show ?thesis by auto
  next
    case (Rq_notify g)
    with en' notify_effect(1,2) [OF I, of g s'] ex u f undisturbedD(3) [of f s s'] show ?thesis
      by (cases "f = g") (auto simp: roused_def alive_def)
  next
    case (Rq_interrupt g)
    with en' interrupt_undisturbed(2) [OF I, of g s' f] ex f u show ?thesis by auto
  next
    case Rq_interruption_point
    with en' ex f show ?thesis
      by (auto simp: sys_exec_def interruption_point_def request_interruption_def upd_heap_def alive_def Let_def flag_updates
          split: bind_splits if_splits)
  next
    case (Rq_detach g)
    with ex f show ?thesis
      by (auto simp: sys_exec_def fiber_detach_def fiber_joinable_def upd_heap_def alive_def flag_updates Let_def
          split: bind_splits if_splits)
  qed
qed

text \<open>What the lines of the synchronisation objects rely on.\<close>

lemma exec_keeps:
  assumes I: "sys_inv rq s" and en: "sys_enabled r s" and ex: "sys_exec A r s = Some s'" and r: "rq_target r \<noteq> Some f"
  shows "asleep s f \<Longrightarrow> asleep s' f" and "roused s f \<Longrightarrow> roused s' f \<or> fm_active (sy_mgr s') = Some f"
proof -
  obtain ws rs where I: "sys_inv_at rq s ws rs" using I by (auto simp: sys_inv_def)
  have P: "sys_placed rq s ws rs" using I by (simp add: sys_inv_at_def)
  have na: "fm_active (sy_mgr s) \<noteq> Some f" if "wf_state (w_heap (sy_world s) f) \<noteq> RUNNING"
    using sys_placedD(6) [OF P, of f] that by (auto simp: fm_running_def)
  have "(asleep s f \<longrightarrow> asleep s' f) \<and> (roused s f \<longrightarrow> roused s' f \<or> fm_active (sy_mgr s') = Some f)"
  proof (cases "rq_is_run r")
    case True
    then obtain now now' where "r = Rq_run now now'" by (cases r) auto
    with run_keeps [OF I, of now now' s' f] en ex show ?thesis by (auto simp: sys_enabled_def Let_def)
  next
    case False
    have "undisturbed f s s'" if "f \<in> set (sy_used s)" "sy_pc s f = In_wait" "wf_state (w_heap (sy_world s) f) \<noteq> RUNNING"
      using exec_undisturbed [OF I en ex that(1) na [OF that(3)] _ r False] that(2) by simp
    then show ?thesis using undisturbedD(1,2) [of f s s'] by (auto simp: asleep_def roused_def)
  qed
  then show "asleep s f \<Longrightarrow> asleep s' f" "roused s f \<Longrightarrow> roused s' f \<or> fm_active (sy_mgr s') = Some f" by blast+
qed

end

end
