(* ===== verification/Mutex_System.thy ===== *)
theory Mutex_System
  imports Sleepers Mutex
begin

text \<open>
  A thread whose fibers share any number of mutexes. The requests of \<open>Thread_System\<close> are joined
  by the calls of \<^verbatim>\<open>mutex::lock\<close>, \<^verbatim>\<open>try_lock\<close> and \<^verbatim>\<open>unlock\<close> (\<^verbatim>\<open>src/mutex.cpp\<close>), each of
  them composed with the scheduler the way the code does it. The theory shows that the two parts
  fit together: no assertion of either fails, and a mutex in whose line fibers sleep is never
  forgotten.
\<close>

section \<open>States and requests\<close>

text \<open>
  The mutexes are numbered in the order they are constructed; \<open>ms_count\<close> is how many there are.
  \<open>ms_in f\<close> is the mutex in whose \<^verbatim>\<open>lock\<close> the fiber \<open>f\<close> is: the loop there has put it in
  line and it has not yet gone round again.
\<close>

record 's mx_sys =
  ms_sys :: "'s sys"
  ms_count :: nat
  ms_mx :: "nat \<Rightarrow> mutex"
  ms_in :: "fid \<Rightarrow> nat option"

datatype mx_request = Mx_sys request | Mx_new | Mx_lock nat | Mx_try nat time_point time_point | Mx_unlock nat

definition mx_init :: "wqid \<Rightarrow> heap \<Rightarrow> round_robin mx_sys" where
  "mx_init q h = \<lparr>ms_sys = sys_init q h, ms_count = 0, ms_mx = (\<lambda>_. mutex_init), ms_in = (\<lambda>_. None)\<rparr>"

text \<open>One round of \<^verbatim>\<open>lock\<close>: the caller gets the mutex or suspends itself.\<close>

definition mx_lock_round :: "nat \<Rightarrow> 's mx_sys \<Rightarrow> 's mx_sys option" where
  "mx_lock_round i s = do {
     a \<leftarrow> fm_active (sy_mgr (ms_sys s));
     (got, mx, w, m) \<leftarrow> mutex_lock_fiber (sy_world (ms_sys s)) (sy_mgr (ms_sys s)) (ms_mx s i);
     y \<leftarrow> (if got then Some ((ms_sys s)\<lparr>sy_world := w, sy_mgr := m\<rparr>) else sys_leave a In_wait w m (ms_sys s));
     Some (s\<lparr>ms_sys := y, ms_mx := (ms_mx s)(i := mx), ms_in := (ms_in s)(a := if got then None else Some i)\<rparr>) }"

definition mx_try_lock :: "'s sched_algorithm \<Rightarrow> nat \<Rightarrow> time_point \<Rightarrow> time_point \<Rightarrow> 's mx_sys \<Rightarrow> 's mx_sys option" where
  "mx_try_lock A i now now' s = do {
     a \<leftarrow> fm_active (sy_mgr (ms_sys s));
     (got, c, mx, w, m) \<leftarrow> mutex_try_lock A now now' (sy_world (ms_sys s)) (sy_mgr (ms_sys s)) (ms_mx s i);
     y \<leftarrow> (if got then Some ((ms_sys s)\<lparr>sy_world := w, sy_mgr := m\<rparr>) else sys_leave a At_large w m (ms_sys s));
     Some (s\<lparr>ms_sys := y, ms_mx := (ms_mx s)(i := mx)\<rparr>) }"

definition mx_unlock :: "nat \<Rightarrow> 's mx_sys \<Rightarrow> 's mx_sys option" where
  "mx_unlock i s = do {
     (mx, w) \<leftarrow> mutex_unlock (sy_world (ms_sys s)) (sy_mgr (ms_sys s)) (ms_mx s i);
     Some (s\<lparr>ms_sys := (ms_sys s)\<lparr>sy_world := w\<rparr>, ms_mx := (ms_mx s)(i := mx)\<rparr>) }"

definition mx_exec :: "'s sched_algorithm \<Rightarrow> mx_request \<Rightarrow> 's mx_sys \<Rightarrow> 's mx_sys option" where
  "mx_exec A r s =
     (case r of
        Mx_sys q \<Rightarrow> do { y \<leftarrow> sys_exec A q (ms_sys s); Some (s\<lparr>ms_sys := y\<rparr>) }
      | Mx_new \<Rightarrow> Some (s\<lparr>ms_count := ms_count s + 1, ms_mx := (ms_mx s)(ms_count s := mutex_init)\<rparr>)
      | Mx_lock i \<Rightarrow> mx_lock_round i s
      | Mx_try i now now' \<Rightarrow> mx_try_lock A i now now' s
      | Mx_unlock i \<Rightarrow> mx_unlock i s)"

text \<open>
  The rules. A fiber inside \<^verbatim>\<open>lock\<close> does nothing else than going round the loop, nobody wakes
  or interrupts it from outside, and it does not start to wait with an interruption pending; only
  the holder unlocks, and no fiber ends while it holds a mutex.
\<close>

definition mx_holds :: "'s mx_sys \<Rightarrow> fid \<Rightarrow> nat \<Rightarrow> bool" where
  "mx_holds s f i \<longleftrightarrow> mtx_state (ms_mx s i) = LOCKED \<and> mtx_owner (ms_mx s i) = get_id f"

fun rq_is_return :: "request \<Rightarrow> bool" where
  "rq_is_return (Rq_return oc) = True"
| "rq_is_return _ = False"

definition mx_enabled :: "mx_request \<Rightarrow> 's mx_sys \<Rightarrow> bool" where
  "mx_enabled r s \<longleftrightarrow>
     (let active = fm_active (sy_mgr (ms_sys s)); h = w_heap (sy_world (ms_sys s)) in
      case r of
        Mx_sys q \<Rightarrow> sys_enabled q (ms_sys s) \<and>
          (case rq_target q of None \<Rightarrow> True | Some f \<Rightarrow> ms_in s f = None) \<and>
          (case active of None \<Rightarrow> True
           | Some a \<Rightarrow> ms_in s a = None \<and> (rq_is_return q \<longrightarrow> (\<forall>i < ms_count s. \<not> mx_holds s a i)))
      | Mx_new \<Rightarrow> True
      | Mx_lock i \<Rightarrow> i < ms_count s \<and>
          (case active of None \<Rightarrow> False
           | Some a \<Rightarrow> (ms_in s a = None \<or> ms_in s a = Some i) \<and> \<not> interruption_requested (h a))
      | Mx_try i now now' \<Rightarrow> i < ms_count s \<and>
          (case active of None \<Rightarrow> False | Some a \<Rightarrow> ms_in s a = None)
      | Mx_unlock i \<Rightarrow> i < ms_count s \<and>
          (case active of None \<Rightarrow> False | Some a \<Rightarrow> ms_in s a = None \<and> mx_holds s a i))"

inductive mx_reachable :: "'s sched_algorithm \<Rightarrow> 's mx_sys \<Rightarrow> 's mx_sys \<Rightarrow> bool" for A s0 where
  start: "mx_reachable A s0 s0"
| step: "mx_reachable A s0 s \<Longrightarrow> mx_enabled r s \<Longrightarrow> mx_exec A r s = Some s' \<Longrightarrow> mx_reachable A s0 s'"

section \<open>The invariant\<close>

text \<open>
  The fibers in line sleep there and nowhere else; a fiber that has been taken off the line is
  ready or running; a locked mutex has a living holder; and if a free mutex has a line, somebody
  has been woken for it who has not tried yet.
\<close>

definition mx_line :: "'s sys \<Rightarrow> (fid \<Rightarrow> nat option) \<Rightarrow> nat \<Rightarrow> fiber_base list \<Rightarrow> bool" where
  "mx_line y inl i ns \<longleftrightarrow> distinct ns \<and> (\<forall>n \<in> set ns. \<exists>f. n = Worker f \<and> inl f = Some i \<and> asleep y f)"

definition mx_one :: "'s sys \<Rightarrow> (fid \<Rightarrow> nat option) \<Rightarrow> nat \<Rightarrow> mutex \<Rightarrow> bool" where
  "mx_one y inl i mx \<longleftrightarrow> mutex_inv mx \<and> mx_line y inl i (mtx_waiting mx) \<and>
     (\<forall>f. inl f = Some i \<longrightarrow> Worker f \<in> set (mtx_waiting mx) \<or> roused y f \<or> fm_active (sy_mgr y) = Some f) \<and>
     (mtx_state mx = LOCKED \<longrightarrow> (\<exists>g. mtx_owner mx = get_id g \<and> alive y g)) \<and>
     (mtx_state mx = UNLOCKED \<longrightarrow> mtx_waiting mx \<noteq> [] \<longrightarrow> (\<exists>f. inl f = Some i \<and> Worker f \<notin> set (mtx_waiting mx)))"

definition mx_inv :: "(heap \<Rightarrow> 's \<Rightarrow> fid list \<Rightarrow> bool) \<Rightarrow> 's mx_sys \<Rightarrow> bool" where
  "mx_inv rq s \<longleftrightarrow> sys_inv rq (ms_sys s) \<and> (\<forall>i. mx_one (ms_sys s) (ms_in s) i (ms_mx s i)) \<and>
     (\<forall>i \<ge> ms_count s. ms_mx s i = mutex_init)"

lemma mx_init_inv: "mx_inv fifo_rep (mx_init q h)"
  using sys_init_inv [of q h] by (simp add: mx_inv_def mx_init_def mx_one_def mx_line_def mutex_init_inv)
    (simp add: mutex_init_def)

text \<open>What the change of the thread must keep for a mutex that is not concerned.\<close>

definition mx_calm :: "'s sys \<Rightarrow> 's sys \<Rightarrow> (fid \<Rightarrow> nat option) \<Rightarrow> nat \<Rightarrow> mutex \<Rightarrow> bool" where
  "mx_calm y y' inl i mx \<longleftrightarrow>
     (\<forall>f. inl f = Some i \<longrightarrow> (asleep y f \<longrightarrow> asleep y' f) \<and>
        (roused y f \<or> fm_active (sy_mgr y) = Some f \<longrightarrow> roused y' f \<or> fm_active (sy_mgr y') = Some f)) \<and>
     (\<forall>g. mtx_state mx = LOCKED \<longrightarrow> mtx_owner mx = get_id g \<longrightarrow> alive y g \<longrightarrow> alive y' g)"

lemma mx_one_calm:
  assumes "mx_one y inl i mx" and "mx_calm y y' inl i mx" and "\<And>f. inl' f = Some i \<longleftrightarrow> inl f = Some i"
  shows "mx_one y' inl' i mx"
  unfolding mx_one_def mx_line_def assms(3)
  using assms(1,2) unfolding mx_one_def mx_line_def mx_calm_def by blast

section \<open>Each request\<close>

context sched_contract
begin

lemma active_facts:
  assumes "sys_inv rq y" and "fm_active (sy_mgr y) = Some a"
  shows "alive y a" "\<not> asleep y a" "\<not> roused y a"
proof -
  obtain ws rs where P: "sys_placed rq y ws rs" using assms(1) by (auto simp: sys_inv_def sys_inv_at_def)
  from sys_placedD(5,6) [OF P assms(2)] show "alive y a" "\<not> asleep y a" "\<not> roused y a"
    by (auto simp: fm_running_def alive_def asleep_def roused_def)
qed

text \<open>A request to the thread alone.\<close>

lemma sys_part:
  assumes I: "sys_inv rq y" and en: "sys_enabled q y"
    and tgt: "\<And>f. rq_target q = Some f \<Longrightarrow> inl f \<noteq> Some i"
    and act: "\<And>a. fm_active (sy_mgr y) = Some a \<Longrightarrow> inl a \<noteq> Some i"
    and ret: "\<And>a. fm_active (sy_mgr y) = Some a \<Longrightarrow> rq_is_return q \<Longrightarrow> mtx_state mx = LOCKED \<Longrightarrow> mtx_owner mx \<noteq> get_id a"
    and ex: "sys_exec A q y = Some y'"
  shows "mx_calm y y' inl i mx"
proof -
  obtain ws rs where I': "sys_inv_at rq y ws rs" using I by (auto simp: sys_inv_def)
  have "(asleep y f \<longrightarrow> asleep y' f) \<and>
      (roused y f \<or> fm_active (sy_mgr y) = Some f \<longrightarrow> roused y' f \<or> fm_active (sy_mgr y') = Some f)"
    if "inl f = Some i" for f
    using exec_keeps [OF I en ex, of f] tgt [of f] act [of f] that by blast
  moreover have "alive y' g" if "mtx_state mx = LOCKED" "mtx_owner mx = get_id g" "alive y g" for g
  proof (rule exec_alive [OF I' en ex that(3)])
    assume "fm_active (sy_mgr y) = Some g"
    with ret [of g] that(1,2) show "\<forall>oc. q \<noteq> Rq_return oc" by auto
  qed
  ultimately show ?thesis unfolding mx_calm_def by blast
qed

lemma mx_sys_ok:
  assumes I: "mx_inv rq s" and en: "mx_enabled (Mx_sys q) s"
  shows "\<exists>s'. mx_exec A (Mx_sys q) s = Some s' \<and> mx_inv rq s'"
proof -
  have S: "sys_inv rq (ms_sys s)" using I by (simp add: mx_inv_def)
  note en' = en [unfolded mx_enabled_def Let_def mx_request.case mx_holds_def]
  have free: "mtx_state (ms_mx s i) = UNLOCKED" if "ms_count s \<le> i" for i using I that by (simp add: mx_inv_def mutex_init_def)
  from exec_ok [OF S] en' obtain y where y: "sys_exec A q (ms_sys s) = Some y" "sys_inv rq y" by blast
  have "mx_one y (ms_in s) i (ms_mx s i)" for i
  proof (rule mx_one_calm)
    show "mx_one (ms_sys s) (ms_in s) i (ms_mx s i)" using I by (simp add: mx_inv_def)
    show "mx_calm (ms_sys s) y (ms_in s) i (ms_mx s i)"
      by (rule sys_part [OF S _ _ _ _ y(1)]) (use en' free [of i] in \<open>auto simp: not_less [symmetric]\<close>)
  qed simp
  with y I show ?thesis by (simp add: mx_exec_def mx_inv_def)
qed

text \<open>The calling fiber takes a free mutex.\<close>

definition mx_taken :: "fid \<Rightarrow> nat \<Rightarrow> 's mx_sys \<Rightarrow> 's mx_sys" where
  "mx_taken a i s = s\<lparr>ms_mx := (ms_mx s)(i := (ms_mx s i)\<lparr>mtx_state := LOCKED, mtx_owner := get_id a\<rparr>),
     ms_in := (ms_in s)(a := None)\<rparr>"

lemma mutex_splk_eqs:
  assumes "mtx_splk mx = UNLOCKED"
  shows "mx\<lparr>mtx_state := LOCKED, mtx_owner := i, mtx_splk := UNLOCKED\<rparr> = mx\<lparr>mtx_state := LOCKED, mtx_owner := i\<rparr>"
    "mx\<lparr>mtx_waiting := ns, mtx_splk := UNLOCKED\<rparr> = mx\<lparr>mtx_waiting := ns\<rparr>"
    "mx\<lparr>mtx_waiting := ns, mtx_owner := no_id, mtx_state := UNLOCKED, mtx_splk := UNLOCKED\<rparr> =
     mx\<lparr>mtx_waiting := ns, mtx_owner := no_id, mtx_state := UNLOCKED\<rparr>"
  using assms by (cases mx; simp)+

lemma mx_taken_ok:
  assumes I: "mx_inv rq s" and a: "fm_active (sy_mgr (ms_sys s)) = Some a" "ms_in s a = None \<or> ms_in s a = Some i"
    and i: "i < ms_count s"
  shows "mx_inv rq (mx_taken a i s)"
proof -
  have S: "sys_inv rq (ms_sys s)" and M: "\<And>j. mx_one (ms_sys s) (ms_in s) j (ms_mx s j)"
    using I by (auto simp: mx_inv_def)
  note act = active_facts [OF S a(1)]
  have "mx_one (ms_sys s) (ms_in (mx_taken a i s)) j (ms_mx (mx_taken a i s) j)" for j
  proof (cases "j = i")
    case True
    from M [of i] act show ?thesis
      unfolding mx_one_def mx_line_def by (simp add: True mx_taken_def mutex_inv_def) (metis act(1,2))
  next
    case False
    have "mx_one (ms_sys s) (ms_in (mx_taken a i s)) j (ms_mx s j)"
      by (rule mx_one_calm [OF M [of j]]) (use a(2) False in \<open>auto simp: mx_calm_def mx_taken_def\<close>)
    with False show ?thesis by (simp add: mx_taken_def)
  qed
  with S I i show ?thesis by (simp add: mx_inv_def mx_taken_def)
qed

lemma mx_try_free:
  assumes I: "mx_inv rq s" and a: "fm_active (sy_mgr (ms_sys s)) = Some a" and L: "mtx_state (ms_mx s i) = UNLOCKED"
    and out: "ms_in s a = None"
  shows "mx_exec A (Mx_try i now now') s = Some (mx_taken a i s)"
  using I a L out
  by (auto simp: mx_inv_def mx_one_def mutex_inv_def mx_exec_def mx_try_lock_def mutex_try_lock_def mutex_try_section_def
      this_get_id_def mx_taken_def mutex_splk_eqs(1) fun_upd_idem)

lemma mx_try_held:
  assumes I: "mx_inv rq s" and a: "fm_active (sy_mgr (ms_sys s)) = Some a" and L: "mtx_state (ms_mx s i) = LOCKED"
  shows "mx_exec A (Mx_try i now now') s = mx_exec A (Mx_sys Rq_yield) s"
proof -
  have "mtx_splk (ms_mx s i) = UNLOCKED" using I by (simp add: mx_inv_def mx_one_def mutex_inv_def)
  with a L show ?thesis
    by (simp add: mx_exec_def mx_try_lock_def mutex_try_lock_def mutex_try_section_def this_get_id_def this_yield_def
        sys_exec_def Let_def fun_upd_idem split: bind_splits)
qed

lemma mx_try_ok:
  assumes I: "mx_inv rq s" and en: "mx_enabled (Mx_try i now now') s"
  shows "\<exists>s'. mx_exec A (Mx_try i now now') s = Some s' \<and> mx_inv rq s'"
proof -
  obtain a where a: "fm_active (sy_mgr (ms_sys s)) = Some a" "ms_in s a = None" and i: "i < ms_count s"
    using en by (auto simp: mx_enabled_def split: option.splits)
  show ?thesis
  proof (cases "mtx_state (ms_mx s i)")
    case UNLOCKED
    with mx_try_free [OF I a(1) _ a(2)] mx_taken_ok [OF I a(1), of i] a(2) i show ?thesis by simp
  next
    case LOCKED
    have "mx_enabled (Mx_sys Rq_yield) s" using a by (simp add: mx_enabled_def sys_enabled_def)
    with mx_sys_ok [OF I] mx_try_held [OF I a(1) LOCKED] show ?thesis by simp
  qed
qed

text \<open>A fiber without pending interruption falls asleep.\<close>

lemma wait_sleeps:
  assumes I: "sys_inv rq y" and a: "fm_active (sy_mgr y) = Some a" "\<not> interruption_requested (w_heap (sy_world y) a)"
  shows "\<exists>w y'. fm_wait_enter LOCKED (sy_world y) (sy_mgr y) = Some (UNLOCKED, w, sy_mgr y) \<and>
     sys_leave a In_wait w (sy_mgr y) y = Some y' \<and> sys_exec A (Rq_wait time_point_max) y = Some y' \<and>
     asleep y' a"
proof -
  let ?h = "w_heap (sy_world y)"
  obtain ws rs where P: "sys_placed rq y ws rs" using I by (auto simp: sys_inv_def sys_inv_at_def)
  from wait_until_enter_ok [OF sys_placedD(1) [OF P] sys_placedD(6) [OF P a(1)], of time_point_max] obtain w where w:
    "fm_wait_until_enter time_point_max LOCKED (sy_world y) (sy_mgr y) = Some (UNLOCKED, w, sy_mgr y)"
    "links_frame (insert a (set ws)) (?h(a := (?h a)\<lparr>wf_state := WAITING, wf_tp := time_point_max,
       wf_phead := Some (fm_wqueue (sy_mgr y)), wf_ptail := Some (fm_wqueue (sy_mgr y))\<rparr>)) (w_heap w)" by auto
  note F = links_frame_fields [OF w(2), of a]
  have "wf_state (w_heap w a) \<noteq> TERMINATED" using F(5) by simp
  note lv = leave_live [OF a(1) this, of In_wait y]
  define y' where "y' = y\<lparr>sy_world := w, sy_mgr := (sy_mgr y)\<lparr>fm_active := None\<rparr>, sy_pc := (sy_pc y)(a := In_wait)\<rparr>"
  have "sys_leave a In_wait w (sy_mgr y) y = Some y'" using lv by (simp add: y'_def)
  moreover have "asleep y' a"
    using F a(2) sys_placedD(5) [OF P a(1)] by (simp add: asleep_def y'_def interruption_requested_def)
  ultimately show ?thesis using w(1) a(1) by (simp add: sys_exec_def fm_wait_enter_def)
qed

text \<open>A fiber that sleeps now has joined the line.\<close>

lemma mx_one_append:
  assumes M: "mx_one y inl i mx" and calm: "mx_calm y y' (inl(a := None)) i mx" and a: "asleep y' a"
    and new: "Worker a \<notin> set (mtx_waiting mx)" and L: "mtx_state mx = LOCKED"
  shows "mx_one y' (inl(a := Some i)) i (mx\<lparr>mtx_waiting := mtx_waiting mx @ [Worker a]\<rparr>)"
proof -
  let ?in = "inl(a := Some i)" and ?ns = "mtx_waiting mx @ [Worker a]"
  have line: "mx_line y inl i (mtx_waiting mx)" using M by (simp add: mx_one_def)
  have c: "(asleep y f \<longrightarrow> asleep y' f) \<and>
      (roused y f \<or> fm_active (sy_mgr y) = Some f \<longrightarrow> roused y' f \<or> fm_active (sy_mgr y') = Some f)"
    if "f \<noteq> a" "inl f = Some i" for f using calm that by (auto simp: mx_calm_def)
  have "mx_line y' ?in i ?ns"
    unfolding mx_line_def
  proof (intro conjI ballI)
    show "distinct ?ns" using line new by (simp add: mx_line_def)
    show "\<exists>f. n = Worker f \<and> ?in f = Some i \<and> asleep y' f" if "n \<in> set ?ns" for n
    proof (cases "n = Worker a")
      case False
      with that line obtain f where "n = Worker f" "inl f = Some i" "asleep y f" by (auto simp: mx_line_def)
      with c [of f] False show ?thesis by auto
    qed (use a in simp)
  qed
  moreover have "Worker f \<in> set ?ns \<or> roused y' f \<or> fm_active (sy_mgr y') = Some f" if "?in f = Some i" for f
    using that M c [of f] by (cases "f = a") (auto simp: mx_one_def)
  ultimately show ?thesis using M calm L by (auto simp: mx_one_def mx_calm_def mutex_inv_def)
qed

lemma mx_lock_held:
  assumes I: "mx_inv rq s" and a: "fm_active (sy_mgr (ms_sys s)) = Some a" "\<not> interruption_requested (w_heap (sy_world (ms_sys s)) a)"
    and L: "mtx_state (ms_mx s i) = LOCKED"
  shows "\<exists>y. sys_exec A (Rq_wait time_point_max) (ms_sys s) = Some y \<and> asleep y a \<and> Worker a \<notin> set (mtx_waiting (ms_mx s i)) \<and>
     mx_exec A (Mx_lock i) s = Some (s\<lparr>ms_sys := y, ms_in := (ms_in s)(a := Some i),
       ms_mx := (ms_mx s)(i := (ms_mx s i)\<lparr>mtx_waiting := mtx_waiting (ms_mx s i) @ [Worker a]\<rparr>)\<rparr>)"
proof -
  have S: "sys_inv rq (ms_sys s)" and M: "mx_one (ms_sys s) (ms_in s) i (ms_mx s i)" using I by (auto simp: mx_inv_def)
  have splk: "mtx_splk (ms_mx s i) = UNLOCKED" using M by (simp add: mx_one_def mutex_inv_def)
  have new: "Worker a \<notin> set (mtx_waiting (ms_mx s i))"
    using M active_facts(2) [OF S a(1)] by (auto simp: mx_one_def mx_line_def)
  from wait_sleeps [OF S a] obtain w y where w:
    "fm_wait_enter LOCKED (sy_world (ms_sys s)) (sy_mgr (ms_sys s)) = Some (UNLOCKED, w, sy_mgr (ms_sys s))"
    "sys_leave a In_wait w (sy_mgr (ms_sys s)) (ms_sys s) = Some y"
    "sys_exec A (Rq_wait time_point_max) (ms_sys s) = Some y" "asleep y a" by blast
  with a(1) splk L new show ?thesis
    by (simp add: mx_exec_def mx_lock_round_def mutex_lock_fiber_def mutex_lock_section_def mutex_splk_eqs(2))
qed

lemma mx_lock_free:
  assumes I: "mx_inv rq s" and a: "fm_active (sy_mgr (ms_sys s)) = Some a" and L: "mtx_state (ms_mx s i) = UNLOCKED"
  shows "mx_exec A (Mx_lock i) s = Some (mx_taken a i s)"
  using I a L
  by (auto simp: mx_inv_def mx_one_def mutex_inv_def mx_exec_def mx_lock_round_def mutex_lock_fiber_def mutex_lock_section_def
      this_get_id_def mx_taken_def mutex_splk_eqs(1))

lemma mx_lock_held_ok:
  assumes I: "mx_inv rq s" and a: "fm_active (sy_mgr (ms_sys s)) = Some a" "ms_in s a = None \<or> ms_in s a = Some i"
    "\<not> interruption_requested (w_heap (sy_world (ms_sys s)) a)" and L: "mtx_state (ms_mx s i) = LOCKED"
    and i: "i < ms_count s"
  shows "\<exists>s'. mx_exec A (Mx_lock i) s = Some s' \<and> mx_inv rq s'"
proof -
  have S: "sys_inv rq (ms_sys s)" and M: "\<And>j. mx_one (ms_sys s) (ms_in s) j (ms_mx s j)"
    using I by (auto simp: mx_inv_def)
  define mx where "mx = (ms_mx s i)\<lparr>mtx_waiting := mtx_waiting (ms_mx s i) @ [Worker a]\<rparr>"
  from mx_lock_held [OF I a(1,3) L] obtain y where y: "sys_exec A (Rq_wait time_point_max) (ms_sys s) = Some y" "asleep y a"
    "Worker a \<notin> set (mtx_waiting (ms_mx s i))"
    "mx_exec A (Mx_lock i) s = Some (s\<lparr>ms_sys := y, ms_in := (ms_in s)(a := Some i), ms_mx := (ms_mx s)(i := mx)\<rparr>)"
    by (auto simp: mx_def)
  have en: "sys_enabled (Rq_wait time_point_max) (ms_sys s)" using a(1) by (simp add: sys_enabled_def)
  have S': "sys_inv rq y" using exec_ok [OF S en] y(1) by auto
  have calm: "mx_calm (ms_sys s) y ((ms_in s)(a := None)) j (ms_mx s j)" for j
    by (rule sys_part [OF S en _ _ _ y(1)]) (use a(1) in auto)
  have "mx_one y ((ms_in s)(a := Some i)) j (if j = i then mx else ms_mx s j)" for j
  proof (cases "j = i")
    case False
    have "mx_one (ms_sys s) ((ms_in s)(a := None)) j (ms_mx s j)"
      by (rule mx_one_calm [OF M [of j]]) (use a(2) False in \<open>auto simp: mx_calm_def\<close>)
    from mx_one_calm [OF this calm, of "(ms_in s)(a := Some i)"] False show ?thesis by auto
  qed (use mx_one_append [OF M [of i] calm [of i] y(2,3) L] in \<open>simp add: mx_def\<close>)
  with y(4) S' I i show ?thesis by (simp add: mx_inv_def)
qed

lemma mx_lock_ok:
  assumes I: "mx_inv rq s" and en: "mx_enabled (Mx_lock i) s"
  shows "\<exists>s'. mx_exec A (Mx_lock i) s = Some s' \<and> mx_inv rq s'"
proof -
  obtain a where a: "fm_active (sy_mgr (ms_sys s)) = Some a" "ms_in s a = None \<or> ms_in s a = Some i"
    "\<not> interruption_requested (w_heap (sy_world (ms_sys s)) a)" and i: "i < ms_count s"
    using en by (auto simp: mx_enabled_def split: option.splits)
  show ?thesis
  proof (cases "mtx_state (ms_mx s i)")
    case LOCKED
    with mx_lock_held_ok [OF I a _ i] show ?thesis by simp
  next
    case UNLOCKED
    with mx_lock_free [OF I a(1)] mx_taken_ok [OF I a(1,2) i] show ?thesis by simp
  qed
qed

text \<open>Giving the mutex back; \<open>y\<close> is the thread after the first in line, if any, has been woken.\<close>

lemma mx_released_ok:
  assumes S: "sys_inv rq y" and M: "\<And>j. mx_one y inl j (mxs j)" and L: "mtx_state (mxs i) = LOCKED"
    and S': "sys_inv rq y'" and same: "sy_mgr y' = sy_mgr y"
    and others: "\<And>f. Worker f \<notin> set (take 1 (mtx_waiting (mxs i))) \<Longrightarrow> (asleep y f \<longrightarrow> asleep y' f) \<and> (roused y f \<longrightarrow> roused y' f)"
    and first: "\<And>f. Worker f \<in> set (take 1 (mtx_waiting (mxs i))) \<Longrightarrow> roused y' f"
    and live: "\<And>g. alive y g \<Longrightarrow> alive y' g"
  shows "mx_one y' inl j ((mxs(i := (mxs i)\<lparr>mtx_waiting := tl (mtx_waiting (mxs i)), mtx_owner := no_id, mtx_state := UNLOCKED\<rparr>)) j)"
proof (cases "j = i")
  case False
  have "Worker f \<notin> set (take 1 (mtx_waiting (mxs i)))" if "inl f = Some j" for f
    using M [of i] that False set_take_subset [of 1 "mtx_waiting (mxs i)"] by (fastforce simp: mx_one_def mx_line_def)
  then have "mx_calm y y' inl j (mxs j)" using others live by (auto simp: mx_calm_def same)
  from mx_one_calm [OF M [of j] this] False show ?thesis by simp
next
  case True
  show ?thesis
  proof (cases "mtx_waiting (mxs i)")
    case Nil
    with M [of i] others show ?thesis by (auto simp: mx_one_def mx_line_def True same mutex_inv_def)
  next
    case (Cons n ns)
    with M [of i] obtain f where f: "n = Worker f" "inl f = Some i" "Worker f \<notin> set ns" by (auto simp: mx_one_def mx_line_def)
    have t: "take 1 (mtx_waiting (mxs i)) = [Worker f]" using Cons f(1) by simp
    from M [of i] f others [unfolded t] first [unfolded t] Cons show ?thesis
      by (fastforce simp: mx_one_def mx_line_def True same mutex_inv_def)
  qed
qed

lemma mx_unlock_exec:
  assumes I: "mx_inv rq s" and a: "fm_active (sy_mgr (ms_sys s)) = Some a" "mx_holds s a i"
  shows "\<exists>y. mx_exec A (Mx_unlock i) s = Some (s\<lparr>ms_sys := y, ms_mx := (ms_mx s)(i :=
       (ms_mx s i)\<lparr>mtx_waiting := tl (mtx_waiting (ms_mx s i)), mtx_owner := no_id, mtx_state := UNLOCKED\<rparr>)\<rparr>) \<and>
     (case mtx_waiting (ms_mx s i) of [] \<Rightarrow> y = ms_sys s
      | n # ns \<Rightarrow> \<exists>f. n = Worker f \<and> ms_in s f = Some i \<and> asleep (ms_sys s) f \<and> sys_enabled (Rq_notify f) (ms_sys s) \<and>
          sys_exec A (Rq_notify f) (ms_sys s) = Some y)"
proof -
  have S: "sys_inv rq (ms_sys s)" and M: "mx_one (ms_sys s) (ms_in s) i (ms_mx s i)" using I by (auto simp: mx_inv_def)
  have h: "mtx_state (ms_mx s i) = LOCKED" "mtx_owner (ms_mx s i) = get_id a" "mtx_splk (ms_mx s i) = UNLOCKED"
    using a(2) M by (simp_all add: mx_holds_def mx_one_def mutex_inv_def)
  note defs = mx_exec_def mx_unlock_def mutex_unlock_def mutex_unlock_section_def this_get_id_def notify_waiter_def
    mutex_splk_eqs(3) [OF h(3)]
  show ?thesis
  proof (cases "mtx_waiting (ms_mx s i)")
    case Nil
    with a(1) h show ?thesis by (simp add: defs)
  next
    case (Cons n ns)
    with M obtain f where f: "n = Worker f" "ms_in s f = Some i" "asleep (ms_sys s) f" by (auto simp: mx_one_def mx_line_def)
    have en: "sys_enabled (Rq_notify f) (ms_sys s)" using f(3) by (simp add: sys_enabled_def asleep_def)
    from exec_ok [OF S en] obtain y where y: "sys_exec A (Rq_notify f) (ms_sys s) = Some y" by blast
    then obtain w where "set_ready f (sy_world (ms_sys s)) = Some w" "y = (ms_sys s)\<lparr>sy_world := w\<rparr>"
      by (auto simp: sys_exec_def split: bind_splits)
    with a(1) h Cons f y en show ?thesis by (simp add: defs fb_set_ready_def)
  qed
qed

lemma mx_unlock_ok:
  assumes I: "mx_inv rq s" and en: "mx_enabled (Mx_unlock i) s"
  shows "\<exists>s'. mx_exec A (Mx_unlock i) s = Some s' \<and> mx_inv rq s'"
proof -
  have S: "sys_inv rq (ms_sys s)" and M: "\<And>j. mx_one (ms_sys s) (ms_in s) j (ms_mx s j)"
    using I by (auto simp: mx_inv_def)
  obtain a where a: "fm_active (sy_mgr (ms_sys s)) = Some a" "mx_holds s a i" and i: "i < ms_count s"
    using en by (auto simp: mx_enabled_def split: option.splits)
  from mx_unlock_exec [OF I a] obtain y where y: "mx_exec A (Mx_unlock i) s = Some (s\<lparr>ms_sys := y, ms_mx := (ms_mx s)(i :=
       (ms_mx s i)\<lparr>mtx_waiting := tl (mtx_waiting (ms_mx s i)), mtx_owner := no_id, mtx_state := UNLOCKED\<rparr>)\<rparr>)"
    and eff: "case mtx_waiting (ms_mx s i) of [] \<Rightarrow> y = ms_sys s
      | n # ns \<Rightarrow> \<exists>f. n = Worker f \<and> ms_in s f = Some i \<and> asleep (ms_sys s) f \<and> sys_enabled (Rq_notify f) (ms_sys s) \<and>
          sys_exec A (Rq_notify f) (ms_sys s) = Some y" by blast
  have L: "mtx_state (ms_mx s i) = LOCKED" using a(2) by (simp add: mx_holds_def)
  have "mx_one y (ms_in s) j (((ms_mx s)(i := (ms_mx s i)\<lparr>mtx_waiting := tl (mtx_waiting (ms_mx s i)), mtx_owner := no_id,
      mtx_state := UNLOCKED\<rparr>)) j) \<and> sys_inv rq y" for j
  proof (cases "mtx_waiting (ms_mx s i)")
    case Nil
    with eff S mx_released_ok [OF S M L S, of j] show ?thesis by simp
  next
    case (Cons n ns)
    with eff obtain f where f: "n = Worker f" "asleep (ms_sys s) f" "sys_enabled (Rq_notify f) (ms_sys s)"
      "sys_exec A (Rq_notify f) (ms_sys s) = Some y" by auto
    obtain ws rs where S': "sys_inv_at rq (ms_sys s) ws rs" using S by (auto simp: sys_inv_def)
    have "f \<in> set (sy_used (ms_sys s))" "sy_pc (ms_sys s) f = In_wait" using f(2) by (auto simp: asleep_def)
    note ne = notify_effect [OF S' this f(4)]
    have inv: "sys_inv rq y" using exec_ok [OF S f(3)] f(4) by auto
    have "(asleep (ms_sys s) g \<longrightarrow> asleep y g) \<and> (roused (ms_sys s) g \<longrightarrow> roused y g)" if "g \<noteq> f" for g
      using ne(1) [OF _ that] undisturbedD(1,2) [of g "ms_sys s" y] by (auto simp: asleep_def roused_def)
    with mx_released_ok [OF S M L inv ne(3), of j] Cons f(1) ne(2) exec_alive [OF S' f(3,4)] inv show ?thesis by auto
  qed
  with y I i show ?thesis by (simp add: mx_inv_def)
qed

lemma mx_new_ok:
  assumes "mx_inv rq s"
  shows "\<exists>s'. mx_exec A Mx_new s = Some s' \<and> mx_inv rq s'"
proof -
  have "(ms_mx s)(ms_count s := mutex_init) = ms_mx s" using assms by (simp add: mx_inv_def fun_upd_idem)
  with assms show ?thesis by (simp add: mx_exec_def mx_inv_def)
qed

lemma mx_exec_ok:
  assumes "mx_inv rq s" and "mx_enabled r s"
  shows "\<exists>s'. mx_exec A r s = Some s' \<and> mx_inv rq s'"
  using assms mx_sys_ok mx_new_ok mx_lock_ok mx_try_ok mx_unlock_ok by (cases r) simp_all

text \<open>
  Seen from the thread, a call on a mutex is at most one request, and it names at most a fiber that
  waits for a mutex.
\<close>

lemma mx_exec_sys:
  assumes I: "mx_inv rq s" and en: "mx_enabled r s" and ex: "mx_exec A r s = Some s'"
  shows "(ms_sys s' = ms_sys s \<or> (\<exists>q. sys_enabled q (ms_sys s) \<and> sys_exec A q (ms_sys s) = Some (ms_sys s') \<and>
       (\<forall>f. rq_target q = Some f \<longrightarrow> ms_in s f \<noteq> None \<or> r = Mx_sys q))) \<and>
     (\<forall>f. fm_active (sy_mgr (ms_sys s)) \<noteq> Some f \<longrightarrow> ms_in s' f = ms_in s f) \<and> ms_count s \<le> ms_count s'"
proof (cases r)
  case (Mx_sys q)
  with en ex show ?thesis by (auto simp: mx_enabled_def mx_exec_def split: bind_splits)
next
  case Mx_new
  with ex show ?thesis by (auto simp: mx_exec_def)
next
  case (Mx_lock i)
  with en obtain a where a: "fm_active (sy_mgr (ms_sys s)) = Some a" "\<not> interruption_requested (w_heap (sy_world (ms_sys s)) a)"
    by (auto simp: mx_enabled_def split: option.splits)
  show ?thesis
  proof (cases "mtx_state (ms_mx s i)")
    case UNLOCKED
    with mx_lock_free [OF I a(1)] ex Mx_lock a(1) show ?thesis by (auto simp: mx_taken_def)
  next
    case LOCKED
    have "sys_enabled (Rq_wait time_point_max) (ms_sys s)" using a(1) by (simp add: sys_enabled_def)
    with mx_lock_held [OF I a LOCKED] ex Mx_lock a(1) show ?thesis by fastforce
  qed
next
  case (Mx_try i now now')
  with en obtain a where a: "fm_active (sy_mgr (ms_sys s)) = Some a" and out: "ms_in s a = None"
    by (auto simp: mx_enabled_def split: option.splits)
  have "sys_enabled Rq_yield (ms_sys s)" using a by (simp add: sys_enabled_def)
  with mx_try_free [OF I a _ out, of i now now'] mx_try_held [OF I a, of i now now'] ex Mx_try a show ?thesis
    by (cases "mtx_state (ms_mx s i)")
      (auto simp: mx_taken_def mx_exec_def [of _ "Mx_sys Rq_yield"] split: bind_splits intro: exI [of _ Rq_yield])
next
  case (Mx_unlock i)
  with en obtain a where a: "fm_active (sy_mgr (ms_sys s)) = Some a" "mx_holds s a i"
    by (auto simp: mx_enabled_def split: option.splits)
  from mx_unlock_exec [OF I a] ex Mx_unlock show ?thesis by (cases "mtx_waiting (ms_mx s i)") fastforce+
qed

lemma mx_exec_calm:
  assumes I: "mx_inv rq s" and en: "mx_enabled r s" and ex: "mx_exec A r s = Some s'"
    and f: "ms_in s f = None" "\<forall>q. r = Mx_sys q \<longrightarrow> rq_target q \<noteq> Some f"
  shows "asleep (ms_sys s) f \<Longrightarrow> asleep (ms_sys s') f"
    and "roused (ms_sys s) f \<Longrightarrow> roused (ms_sys s') f \<or> fm_active (sy_mgr (ms_sys s')) = Some f"
proof -
  have S: "sys_inv rq (ms_sys s)" using I by (simp add: mx_inv_def)
  have "ms_sys s' = ms_sys s \<or> (\<exists>q. sys_enabled q (ms_sys s) \<and> sys_exec A q (ms_sys s) = Some (ms_sys s') \<and> rq_target q \<noteq> Some f)"
    using mx_exec_sys [OF I en ex] f by blast
  then show "asleep (ms_sys s) f \<Longrightarrow> asleep (ms_sys s') f"
    "roused (ms_sys s) f \<Longrightarrow> roused (ms_sys s') f \<or> fm_active (sy_mgr (ms_sys s')) = Some f"
    using exec_keeps [OF S] by (auto, metis)
qed

lemma mx_reachable_inv:
  assumes "mx_reachable A s0 s" and "mx_inv rq s0"
  shows "mx_inv rq s"
  using assms
proof (induction rule: mx_reachable.induct)
  case (step s r s')
  with mx_exec_ok [of s r] show ?case by auto
qed

end

section \<open>Properties\<close>

lemma mx_rr_inv: "mx_reachable round_robin_algo (mx_init q h) s \<Longrightarrow> mx_inv fifo_rep s"
  using rr.mx_reachable_inv mx_init_inv by blast

fun mx_script :: "'s sched_algorithm \<Rightarrow> mx_request list \<Rightarrow> 's mx_sys \<Rightarrow> 's mx_sys option" where
  "mx_script A [] s = Some s"
| "mx_script A (r # rs) s = (if mx_enabled r s then do { s' \<leftarrow> mx_exec A r s; mx_script A rs s' } else None)"

lemma mx_script_reachable:
  "mx_script A rs s = Some s' \<Longrightarrow> mx_reachable A s0 s \<Longrightarrow> mx_reachable A s0 s'"
  by (induction A rs s rule: mx_script.induct) (auto split: if_splits bind_splits intro: mx_reachable.step)

text \<open>
  Fiber 1 holds the mutex and runs while fiber 2 sleeps in line; then fiber 1 has unlocked it.
\<close>

definition demo_mx_requests :: "mx_request list" where
  "demo_mx_requests = [Mx_new, Mx_sys (Rq_spawn 1), Mx_sys (Rq_spawn 2), Mx_sys (Rq_run 0 0), Mx_lock 0, Mx_sys Rq_yield,
     Mx_sys (Rq_run 1 1), Mx_lock 0, Mx_sys (Rq_run 2 2)]"

definition demo_mx1 :: "round_robin mx_sys" where
  "demo_mx1 = the (mx_script round_robin_algo demo_mx_requests (mx_init 0 (\<lambda>_. worker_fiber_init)))"

definition demo_mx2 :: "round_robin mx_sys" where
  "demo_mx2 = the (mx_script round_robin_algo (demo_mx_requests @ [Mx_unlock 0]) (mx_init 0 (\<lambda>_. worker_fiber_init)))"

lemma mx_script_the:
  assumes "\<not> Option.is_none (mx_script round_robin_algo rs (mx_init 0 (\<lambda>_. worker_fiber_init)))"
  shows "mx_reachable round_robin_algo (mx_init 0 (\<lambda>_. worker_fiber_init))
    (the (mx_script round_robin_algo rs (mx_init 0 (\<lambda>_. worker_fiber_init))))"
proof -
  obtain s' where s': "mx_script round_robin_algo rs (mx_init 0 (\<lambda>_. worker_fiber_init)) = Some s'"
    using assms by (auto simp: Option.is_none_def)
  with mx_script_reachable [OF s' mx_reachable.start] show ?thesis by simp
qed

lemma demo_mx_reachable:
  "mx_reachable round_robin_algo (mx_init 0 (\<lambda>_. worker_fiber_init)) demo_mx1"
  "mx_reachable round_robin_algo (mx_init 0 (\<lambda>_. worker_fiber_init)) demo_mx2"
  unfolding demo_mx1_def demo_mx2_def by (rule mx_script_the, code_simp)+

text \<open>
  Fibers that share mutexes run into no assertion. Whatever fibers have done with each other,
  with the scheduler and with any number of mutexes, the next permitted call of \<^verbatim>\<open>lock\<close>,
  \<^verbatim>\<open>try_lock\<close> or \<^verbatim>\<open>unlock\<close>, and every other permitted request, is carried out.
\<close>

theorem mutex_calls_never_fail:
  assumes "mx_reachable round_robin_algo (mx_init q h) s" and "mx_enabled r s"
  shows "\<exists>s'. mx_exec round_robin_algo r s = Some s'"
  using rr.mx_exec_ok [OF mx_rr_inv [OF assms(1)] assms(2)] by blast

theorem mutex_calls_never_fail_witness:
  "mx_enabled (Mx_unlock 0) demo_mx1 \<and> (\<exists>s'. mx_exec round_robin_algo (Mx_unlock 0) demo_mx1 = Some s')"
proof -
  have "mx_enabled (Mx_unlock 0) demo_mx1" by code_simp
  with mutex_calls_never_fail [OF demo_mx_reachable(1) this] show ?thesis by blast
qed

text \<open>
  C8: nobody waits for a mutex in vain. While a fiber is inside \<^verbatim>\<open>lock\<close> it sleeps in line or is
  on its way back; and the mutex it waits for is held by a fiber that has not ended, or some fiber
  inside \<^verbatim>\<open>lock\<close> of this mutex is ready or running and will try to take it.
\<close>

theorem mutex_waiter_not_forgotten:
  assumes "mx_reachable round_robin_algo (mx_init q h) s" and "ms_in s f = Some i"
  shows "(Worker f \<in> set (mtx_waiting (ms_mx s i)) \<and> is_waiting (w_heap (sy_world (ms_sys s))) f \<or>
       is_ready (w_heap (sy_world (ms_sys s))) f \<or> fm_active (sy_mgr (ms_sys s)) = Some f) \<and>
     ((\<exists>g. mx_holds s g i \<and> g \<in> set (sy_used (ms_sys s)) \<and> \<not> is_terminated (w_heap (sy_world (ms_sys s))) g) \<or>
      (\<exists>g. ms_in s g = Some i \<and> (is_ready (w_heap (sy_world (ms_sys s))) g \<or> fm_active (sy_mgr (ms_sys s)) = Some g)))"
proof -
  have M: "mx_one (ms_sys s) (ms_in s) i (ms_mx s i)" using mx_rr_inv [OF assms(1)] by (simp add: mx_inv_def)
  have line: "is_waiting (w_heap (sy_world (ms_sys s))) g" if "Worker g \<in> set (mtx_waiting (ms_mx s i))" for g
    using M that by (auto simp: mx_one_def mx_line_def asleep_def is_waiting_def)
  have retry: "is_ready (w_heap (sy_world (ms_sys s))) g \<or> fm_active (sy_mgr (ms_sys s)) = Some g"
    if "ms_in s g = Some i" "Worker g \<notin> set (mtx_waiting (ms_mx s i))" for g
    using M that by (auto simp: mx_one_def roused_def is_ready_def)
  show ?thesis
  proof (cases "mtx_state (ms_mx s i)")
    case LOCKED
    with M line [of f] retry [OF assms(2)] show ?thesis by (auto simp: mx_one_def mx_holds_def alive_def is_terminated_def)
  next
    case UNLOCKED
    with M have "\<exists>g. ms_in s g = Some i \<and> Worker g \<notin> set (mtx_waiting (ms_mx s i))"
      using assms(2) by (cases "mtx_waiting (ms_mx s i)") (auto simp: mx_one_def)
    with line [of f] retry retry [OF assms(2)] show ?thesis by blast
  qed
qed

theorem mutex_waiter_not_forgotten_witness:
  "ms_in demo_mx2 2 = Some 0 \<and> mtx_state (ms_mx demo_mx2 0) = UNLOCKED \<and>
   (\<exists>g. ms_in demo_mx2 g = Some 0 \<and>
     (is_ready (w_heap (sy_world (ms_sys demo_mx2))) g \<or> fm_active (sy_mgr (ms_sys demo_mx2)) = Some g))"
proof -
  have "ms_in demo_mx2 2 = Some 0" "mtx_state (ms_mx demo_mx2 0) = UNLOCKED" by code_simp+
  with mutex_waiter_not_forgotten [OF demo_mx_reachable(2) this(1)] show ?thesis by (auto simp: mx_holds_def)
qed

text \<open>
  The rule that nobody interrupts a fiber inside \<^verbatim>\<open>lock\<close> cannot be dropped. The scheduler wakes
  the interrupted fiber, which goes round the loop, finds the mutex still locked and itself still
  in line, and fails the assertion that it is not.
\<close>

theorem mutex_lock_interrupted_fails:
  assumes "mtx_splk mx = UNLOCKED" and "mtx_state mx = LOCKED" and "fm_active m = Some a"
    and "Worker a \<in> set (mtx_waiting mx)"
  shows "mutex_lock_fiber w m mx = None"
  using assms by (simp add: mutex_lock_fiber_def mutex_lock_section_def)

definition demo_mx3 :: "round_robin mx_sys" where
  "demo_mx3 = the (do {
     s1 \<leftarrow> mx_exec round_robin_algo (Mx_sys Rq_yield) demo_mx1;
     s2 \<leftarrow> mx_exec round_robin_algo (Mx_sys (Rq_interrupt 2)) s1;
     mx_exec round_robin_algo (Mx_sys (Rq_run 3 3)) s2 })"

theorem mutex_lock_interrupted_fails_witness:
  "fm_active (sy_mgr (ms_sys demo_mx3)) = Some 2 \<and>
   mutex_lock_fiber (sy_world (ms_sys demo_mx3)) (sy_mgr (ms_sys demo_mx3)) (ms_mx demo_mx3 0) = None"
proof -
  have "mtx_splk (ms_mx demo_mx3 0) = UNLOCKED" "mtx_state (ms_mx demo_mx3 0) = LOCKED"
    "fm_active (sy_mgr (ms_sys demo_mx3)) = Some 2" "Worker 2 \<in> set (mtx_waiting (ms_mx demo_mx3 0))" by code_simp+
  with mutex_lock_interrupted_fails [OF this] show ?thesis by simp
qed

end
