(* ===== verification/Condition_System.thy ===== *)
theory Condition_System
  imports Mutex_System Condition
begin

text \<open>
  Fibers that share mutexes and condition variables: \<open>Mutex_System\<close> extended by the calls of
  \<^verbatim>\<open>condition::wait\<close>, \<^verbatim>\<open>notify_one\<close> and \<^verbatim>\<open>notify_all\<close> (\<^verbatim>\<open>condition.hpp\<close>,
  \<^verbatim>\<open>src/condition.cpp\<close>) with a \<^verbatim>\<open>mutex\<close> as the external lock. No assertion fails, and a fiber
  that has been notified finds its way back to its mutex.
\<close>

section \<open>States and requests\<close>

text \<open>
  \<open>cs_in f = Some (c, i)\<close>: the fiber \<open>f\<close> is inside \<^verbatim>\<open>wait\<close> of the condition \<open>c\<close> with
  the mutex \<open>i\<close>, up to where it takes the mutex again; from there on it is inside \<^verbatim>\<open>lock\<close>.
\<close>

record 's cv_sys =
  cs_mx :: "'s mx_sys"
  cs_count :: nat
  cs_cv :: "nat \<Rightarrow> condition"
  cs_in :: "fid \<Rightarrow> (nat \<times> nat) option"

datatype cv_request = Cs_mx mx_request | Cs_new | Cs_wait nat nat | Cs_resume | Cs_notify_one nat | Cs_notify_all nat

definition cs_init :: "wqid \<Rightarrow> heap \<Rightarrow> round_robin cv_sys" where
  "cs_init q h = \<lparr>cs_mx = mx_init q h, cs_count = 0, cs_cv = (\<lambda>_. condition_init), cs_in = (\<lambda>_. None)\<rparr>"

abbreviation cs_sys :: "'s cv_sys \<Rightarrow> 's sys" where
  "cs_sys s \<equiv> ms_sys (cs_mx s)"

text \<open>A fiber in \<^verbatim>\<open>wait\<close>, up to its suspension.\<close>

definition cs_wait :: "nat \<Rightarrow> nat \<Rightarrow> 's cv_sys \<Rightarrow> 's cv_sys option" where
  "cs_wait c i s = do {
     let m = sy_mgr (cs_sys s);
     a \<leftarrow> fm_active m;
     (mx, cv, w', m') \<leftarrow>
       condition_wait_enter (\<lambda>l v. mutex_unlock v m l) (ms_mx (cs_mx s) i) (sy_world (cs_sys s)) m (cs_cv s c);
     y \<leftarrow> sys_leave a In_wait w' m' (cs_sys s);
     Some (s\<lparr>cs_mx := (cs_mx s)\<lparr>ms_sys := y, ms_mx := (ms_mx (cs_mx s))(i := mx)\<rparr>,
             cs_cv := (cs_cv s)(c := cv), cs_in := (cs_in s)(a := Some (c, i))\<rparr>) }"

text \<open>
  The fiber runs again: the interruption point, and the first round of taking the mutex. An
  interruption leaves \<^verbatim>\<open>wait\<close> with the exception.
\<close>

definition cs_resume :: "'s cv_sys \<Rightarrow> 's cv_sys option" where
  "cs_resume s = do {
     a \<leftarrow> fm_active (sy_mgr (cs_sys s));
     (c, i) \<leftarrow> cs_in s a;
     (r, cv, w) \<leftarrow> condition_wait_resumed (sy_world (cs_sys s)) (sy_mgr (cs_sys s)) (cs_cv s c);
     let s1 = s\<lparr>cs_mx := (cs_mx s)\<lparr>ms_sys := (cs_sys s)\<lparr>sy_world := w\<rparr>\<rparr>,
                cs_cv := (cs_cv s)(c := cv), cs_in := (cs_in s)(a := None)\<rparr>;
     case r of
       Inl e \<Rightarrow> Some s1
     | Inr u \<Rightarrow> do { x \<leftarrow> mx_lock_round i (cs_mx s1); Some (s1\<lparr>cs_mx := x\<rparr>) } }"

definition cs_notify ::
  "(condition \<Rightarrow> world \<Rightarrow> (condition \<times> world) option) \<Rightarrow> nat \<Rightarrow> 's cv_sys \<Rightarrow> 's cv_sys option" where
  "cs_notify ntf c s = do {
     (cv, w) \<leftarrow> ntf (cs_cv s c) (sy_world (cs_sys s));
     Some (s\<lparr>cs_mx := (cs_mx s)\<lparr>ms_sys := (cs_sys s)\<lparr>sy_world := w\<rparr>\<rparr>, cs_cv := (cs_cv s)(c := cv)\<rparr>) }"

definition cs_exec :: "'s sched_algorithm \<Rightarrow> cv_request \<Rightarrow> 's cv_sys \<Rightarrow> 's cv_sys option" where
  "cs_exec A r s =
     (case r of
        Cs_mx q \<Rightarrow> do { x \<leftarrow> mx_exec A q (cs_mx s); Some (s\<lparr>cs_mx := x\<rparr>) }
      | Cs_new \<Rightarrow> Some (s\<lparr>cs_count := cs_count s + 1, cs_cv := (cs_cv s)(cs_count s := condition_init)\<rparr>)
      | Cs_wait c i \<Rightarrow> cs_wait c i s
      | Cs_resume \<Rightarrow> cs_resume s
      | Cs_notify_one c \<Rightarrow> cs_notify condition_notify_one c s
      | Cs_notify_all c \<Rightarrow> cs_notify condition_notify_all c s)"

text \<open>
  The rules: \<^verbatim>\<open>wait\<close> is called with the mutex held, nobody wakes or interrupts a fiber inside
  \<^verbatim>\<open>wait\<close> but through the condition, and such a fiber, when it runs, goes on in \<^verbatim>\<open>wait\<close>.
  Fibers and the main context may notify.
\<close>

fun mx_target :: "mx_request \<Rightarrow> fid option" where
  "mx_target (Mx_sys q) = rq_target q"
| "mx_target _ = None"

fun cs_target :: "cv_request \<Rightarrow> fid option" where
  "cs_target (Cs_mx q) = mx_target q"
| "cs_target _ = None"

definition cs_free :: "'s cv_sys \<Rightarrow> fid option \<Rightarrow> bool" where
  "cs_free s af \<longleftrightarrow> (case af of None \<Rightarrow> True | Some a \<Rightarrow> cs_in s a = None)"

definition cs_enabled :: "cv_request \<Rightarrow> 's cv_sys \<Rightarrow> bool" where
  "cs_enabled r s \<longleftrightarrow>
     (let active = fm_active (sy_mgr (cs_sys s)); h = w_heap (sy_world (cs_sys s)); x = cs_mx s in
      case r of
        Cs_mx q \<Rightarrow> mx_enabled q x \<and> cs_free s active \<and> cs_free s (mx_target q)
      | Cs_new \<Rightarrow> True
      | Cs_wait c i \<Rightarrow> c < cs_count s \<and> i < ms_count x \<and>
          (case active of None \<Rightarrow> False
           | Some a \<Rightarrow> cs_in s a = None \<and> ms_in x a = None \<and> mx_holds x a i \<and> \<not> interruption_requested (h a))
      | Cs_resume \<Rightarrow>
          (case active of None \<Rightarrow> False | Some a \<Rightarrow> cs_in s a \<noteq> None \<and> \<not> interruption_requested (h a))
      | Cs_notify_one c \<Rightarrow> c < cs_count s \<and> cs_free s active \<and>
          (case active of None \<Rightarrow> True | Some a \<Rightarrow> ms_in x a = None)
      | Cs_notify_all c \<Rightarrow> c < cs_count s \<and> cs_free s active \<and>
          (case active of None \<Rightarrow> True | Some a \<Rightarrow> ms_in x a = None))"

inductive cs_reachable :: "'s sched_algorithm \<Rightarrow> 's cv_sys \<Rightarrow> 's cv_sys \<Rightarrow> bool" for A s0 where
  start: "cs_reachable A s0 s0"
| step: "cs_reachable A s0 s \<Longrightarrow> cs_enabled r s \<Longrightarrow> cs_exec A r s = Some s' \<Longrightarrow> cs_reachable A s0 s'"

section \<open>The invariant\<close>

definition cv_one :: "'s sys \<Rightarrow> (fid \<Rightarrow> (nat \<times> nat) option) \<Rightarrow> nat \<Rightarrow> condition \<Rightarrow> bool" where
  "cv_one y inl c cv \<longleftrightarrow> cv_splk cv = UNLOCKED \<and> distinct (cv_waiting cv) \<and>
     (\<forall>n \<in> set (cv_waiting cv). \<exists>f i. n = Worker f \<and> inl f = Some (c, i) \<and> asleep y f) \<and>
     (\<forall>f i. inl f = Some (c, i) \<longrightarrow> Worker f \<in> set (cv_waiting cv) \<or> roused y f \<or> fm_active (sy_mgr y) = Some f)"

definition cs_inv :: "(heap \<Rightarrow> 's \<Rightarrow> fid list \<Rightarrow> bool) \<Rightarrow> 's cv_sys \<Rightarrow> bool" where
  "cs_inv rq s \<longleftrightarrow> mx_inv rq (cs_mx s) \<and> (\<forall>c. cv_one (cs_sys s) (cs_in s) c (cs_cv s c)) \<and>
     (\<forall>c \<ge> cs_count s. cs_cv s c = condition_init) \<and>
     (\<forall>f c i. cs_in s f = Some (c, i) \<longrightarrow> ms_in (cs_mx s) f = None \<and> i < ms_count (cs_mx s))"

lemma cs_invD:
  assumes "cs_inv rq s"
  shows "mx_inv rq (cs_mx s)" "cv_one (cs_sys s) (cs_in s) c (cs_cv s c)" "cs_count s \<le> c \<Longrightarrow> cs_cv s c = condition_init"
    "cs_in s f = Some (c, i) \<Longrightarrow> ms_in (cs_mx s) f = None" "cs_in s f = Some (c, i) \<Longrightarrow> i < ms_count (cs_mx s)"
  using assms unfolding cs_inv_def by blast+

lemma cs_init_inv: "cs_inv fifo_rep (cs_init q h)"
  using mx_init_inv [of q h] by (simp add: cs_inv_def cs_init_def cv_one_def condition_init_def spinlock_init_def)

text \<open>A change of the thread that the fibers inside \<^verbatim>\<open>wait\<close> do not notice.\<close>

definition cs_calm :: "'s sys \<Rightarrow> 's sys \<Rightarrow> (fid \<Rightarrow> (nat \<times> nat) option) \<Rightarrow> bool" where
  "cs_calm y y' inl \<longleftrightarrow> (\<forall>f. inl f \<noteq> None \<longrightarrow> (asleep y f \<longrightarrow> asleep y' f) \<and>
     (roused y f \<or> fm_active (sy_mgr y) = Some f \<longrightarrow> roused y' f \<or> fm_active (sy_mgr y') = Some f))"

lemma cs_calm_trans: "cs_calm y y1 inl \<Longrightarrow> cs_calm y1 y2 inl \<Longrightarrow> cs_calm y y2 inl"
  unfolding cs_calm_def by blast

lemma cv_one_calm: "cv_one y inl c cv \<Longrightarrow> cs_calm y y' inl \<Longrightarrow> cv_one y' inl c cv"
  unfolding cv_one_def cs_calm_def by blast

text \<open>The fibers \<open>fs\<close> at the head of the line have been woken and taken off it.\<close>

lemma cv_one_notified:
  assumes O: "cv_one y inl c cv" and split: "cv_waiting cv = map Worker fs @ rest" and mgr: "sy_mgr y' = sy_mgr y"
    and up: "\<forall>f \<in> set fs. roused y' f"
    and keep: "\<forall>g. g \<notin> set fs \<longrightarrow> (asleep y g \<longrightarrow> asleep y' g) \<and> (roused y g \<longrightarrow> roused y' g)"
  shows "cv_one y' inl c (cv\<lparr>cv_waiting := rest\<rparr>)"
proof -
  have dis: "distinct (map Worker fs @ rest)" using O split by (simp add: cv_one_def)
  have "\<exists>f i. n = Worker f \<and> inl f = Some (c, i) \<and> asleep y' f" if "n \<in> set rest" for n
  proof -
    have "n \<in> set (cv_waiting cv)" using split that by simp
    with O obtain f i where f: "n = Worker f" "inl f = Some (c, i)" "asleep y f" unfolding cv_one_def by blast
    then have "f \<notin> set fs" using dis that by auto
    with f keep show ?thesis by blast
  qed
  moreover have "Worker f \<in> set rest \<or> roused y' f \<or> fm_active (sy_mgr y') = Some f" if "inl f = Some (c, i)" for f i
  proof (cases "f \<in> set fs")
    case False
    have "Worker f \<in> set (cv_waiting cv) \<or> roused y f \<or> fm_active (sy_mgr y) = Some f" using O that by (auto simp: cv_one_def)
    with False keep split mgr show ?thesis by auto
  qed (use up in simp)
  ultimately show ?thesis using O dis by (simp add: cv_one_def)
qed

lemma cv_one_others_notified:
  assumes "cv_one y inl d cv" and "sy_mgr y' = sy_mgr y" and "\<And>f i. inl f = Some (d, i) \<Longrightarrow> f \<notin> set fs"
    and "\<forall>g. g \<notin> set fs \<longrightarrow> (asleep y g \<longrightarrow> asleep y' g) \<and> (roused y g \<longrightarrow> roused y' g)"
  shows "cv_one y' inl d cv"
  using assms unfolding cv_one_def by simp metis

text \<open>A fiber that sleeps now has joined the line of \<open>c\<close>.\<close>

lemma cv_one_entered:
  assumes O: "\<And>d. cv_one y inl d (cvs d)" and a: "inl a = None" "asleep y a" "Worker a \<notin> set (cv_waiting (cvs c))"
  shows "cv_one y (inl(a := Some (c, i))) d ((cvs(c := (cvs c)\<lparr>cv_waiting := cv_waiting (cvs c) @ [Worker a]\<rparr>)) d)"
proof (cases "d = c")
  case True
  from O [of c] a show ?thesis unfolding cv_one_def by (simp add: True) (metis option.distinct(1))
next
  case False
  from O [of d] a(1) False show ?thesis unfolding cv_one_def by simp (metis option.distinct(1))
qed

text \<open>A fiber that runs has left the line.\<close>

lemma cv_one_left: "cv_one y inl d cv \<Longrightarrow> \<not> asleep y a \<Longrightarrow> cv_one y (inl(a := None)) d cv"
  unfolding cv_one_def by (simp, metis)

text \<open>Fibers outside of \<^verbatim>\<open>wait\<close> do not notice the change.\<close>

definition cs_untouched :: "'s cv_sys \<Rightarrow> 's cv_sys \<Rightarrow> bool" where
  "cs_untouched s s' \<longleftrightarrow> sy_mgr (cs_sys s') = sy_mgr (cs_sys s) \<and> ms_in (cs_mx s') = ms_in (cs_mx s) \<and> cs_in s' = cs_in s \<and>
     (\<forall>g. cs_in s g = None \<longrightarrow>
        (asleep (cs_sys s) g \<longrightarrow> asleep (cs_sys s') g) \<and> (roused (cs_sys s) g \<longrightarrow> roused (cs_sys s') g))"

section \<open>Each request\<close>

lemma cv_splk_eq: "cv_splk cv = UNLOCKED \<Longrightarrow> cv\<lparr>cv_waiting := ns, cv_splk := UNLOCKED\<rparr> = cv\<lparr>cv_waiting := ns\<rparr>"
  by (cases cv) simp

lemma sys_leave_world [simp]: "sys_leave a c w m (y\<lparr>sy_world := v\<rparr>) = sys_leave a c w m y"
  by (simp add: sys_leave_def)

text \<open>Only the state of the fibers and the queues matter to the thread.\<close>

lemma sys_inv_world:
  assumes "w_heap w' = w_heap (sy_world y)" and "w_wqs w' = w_wqs (sy_world y)"
  shows "sys_inv rq (y\<lparr>sy_world := w'\<rparr>) = sys_inv rq y"
  using assms by (simp add: sys_inv_def sys_inv_at_def sys_placed_def fm_queues_def wq_rep_def fm_running_def)

lemma places_world:
  assumes "w_heap w' = w_heap (sy_world y)"
  shows "asleep (y\<lparr>sy_world := w'\<rparr>) f = asleep y f" "roused (y\<lparr>sy_world := w'\<rparr>) f = roused y f"
    "alive (y\<lparr>sy_world := w'\<rparr>) f = alive y f"
  using assms by (simp_all add: asleep_def roused_def alive_def)

lemma mx_inv_world:
  assumes "w_heap w' = w_heap (sy_world (ms_sys x))" and "w_wqs w' = w_wqs (sy_world (ms_sys x))"
  shows "mx_inv rq (x\<lparr>ms_sys := (ms_sys x)\<lparr>sy_world := w'\<rparr>\<rparr>) = mx_inv rq x"
  using sys_inv_world [OF assms] places_world [OF assms(1)] by (simp add: mx_inv_def mx_one_def mx_line_def)

text \<open>The part of the mutexes changes in a way the fibers at conditions do not notice.\<close>

lemma cs_inv_mx:
  assumes I: "cs_inv rq s" and x: "mx_inv rq x" "ms_in x = ms_in (cs_mx s)" "ms_count x = ms_count (cs_mx s)"
    and calm: "cs_calm (cs_sys s) (ms_sys x) (cs_in s)"
  shows "cs_inv rq (s\<lparr>cs_mx := x\<rparr>)"
  using cv_one_calm [OF cs_invD(2) [OF I] calm] cs_invD(3-5) [OF I] x by (simp add: cs_inv_def)

lemma cs_inv_world:
  assumes "w_heap w' = w_heap (sy_world (cs_sys s))" and "w_wqs w' = w_wqs (sy_world (cs_sys s))"
  shows "cs_inv rq (s\<lparr>cs_mx := (cs_mx s)\<lparr>ms_sys := (cs_sys s)\<lparr>sy_world := w'\<rparr>\<rparr>\<rparr>) = cs_inv rq s"
  using mx_inv_world [OF assms] places_world [OF assms(1)] by (simp add: cs_inv_def cv_one_def)

context sched_contract
begin

text \<open>A request to the thread or to a mutex, by a fiber that is not inside \<^verbatim>\<open>wait\<close>.\<close>

lemma mx_part:
  assumes I: "mx_inv rq x" and en: "mx_enabled r x" and ex: "mx_exec A r x = Some x'"
    and out: "\<And>f. inl f \<noteq> None \<Longrightarrow> ms_in x f = None \<and> fm_active (sy_mgr (ms_sys x)) \<noteq> Some f \<and> mx_target r \<noteq> Some f"
  shows "cs_calm (ms_sys x) (ms_sys x') inl"
  unfolding cs_calm_def
proof (intro allI impI)
  fix f assume "inl f \<noteq> None"
  note o = out [OF this]
  have t: "\<forall>q. r = Mx_sys q \<longrightarrow> rq_target q \<noteq> Some f" using o by auto
  show "(asleep (ms_sys x) f \<longrightarrow> asleep (ms_sys x') f) \<and>
    (roused (ms_sys x) f \<or> fm_active (sy_mgr (ms_sys x)) = Some f \<longrightarrow>
      roused (ms_sys x') f \<or> fm_active (sy_mgr (ms_sys x')) = Some f)"
    using mx_exec_calm [OF I en ex, of f] o t by auto
qed

lemma cs_mx_ok:
  assumes I: "cs_inv rq s" and en: "cs_enabled (Cs_mx r) s"
  shows "\<exists>s'. cs_exec A (Cs_mx r) s = Some s' \<and> cs_inv rq s'"
proof -
  note D = cs_invD [OF I]
  note en' = en [unfolded cs_enabled_def Let_def cv_request.case]
  from mx_exec_ok [OF D(1)] en' obtain x where x: "mx_exec A r (cs_mx s) = Some x" "mx_inv rq x" by blast
  have out: "ms_in (cs_mx s) f = None \<and> fm_active (sy_mgr (cs_sys s)) \<noteq> Some f \<and> mx_target r \<noteq> Some f" if "cs_in s f \<noteq> None" for f
    using that D(4) [of f] en' by (auto simp: cs_free_def)
  have "cs_calm (cs_sys s) (ms_sys x) (cs_in s)" by (rule mx_part [OF D(1) _ x(1) out]) (use en' in auto)
  from cv_one_calm [OF D(2) this] have "cv_one (ms_sys x) (cs_in s) c (cs_cv s c)" for c .
  moreover have "ms_in x f = None \<and> i < ms_count x" if "cs_in s f = Some (c, i)" for f c i
    using mx_exec_sys [OF D(1) _ x(1)] en' out [of f] D(4,5) [OF that] that by fastforce
  ultimately show ?thesis using x D(3) by (simp add: cs_exec_def cs_inv_def)
qed

text \<open>Giving up the mutex and falling asleep, as one step of the thread with its mutexes.\<close>

lemma unlock_and_sleep:
  assumes I: "mx_inv rq x" and a: "fm_active (sy_mgr (ms_sys x)) = Some a" "ms_in x a = None" "mx_holds x a i" "i < ms_count x"
    "\<not> interruption_requested (w_heap (sy_world (ms_sys x)) a)"
  shows "\<exists>mx w1 w2 x1 y. mutex_unlock (sy_world (ms_sys x)) (sy_mgr (ms_sys x)) (ms_mx x i) = Some (mx, w1) \<and>
     x1 = x\<lparr>ms_sys := (ms_sys x)\<lparr>sy_world := w1\<rparr>, ms_mx := (ms_mx x)(i := mx)\<rparr> \<and> mx_inv rq x1 \<and>
     mx_exec A (Mx_unlock i) x = Some x1 \<and>
     fm_wait_enter LOCKED w1 (sy_mgr (ms_sys x)) = Some (UNLOCKED, w2, sy_mgr (ms_sys x)) \<and>
     sys_leave a In_wait w2 (sy_mgr (ms_sys x)) (ms_sys x) = Some y \<and>
     mx_exec A (Mx_sys (Rq_wait time_point_max)) x1 = Some (x1\<lparr>ms_sys := y\<rparr>) \<and> mx_inv rq (x1\<lparr>ms_sys := y\<rparr>) \<and> asleep y a"
proof -
  have en: "mx_enabled (Mx_unlock i) x" using a by (simp add: mx_enabled_def)
  from mx_unlock_ok [OF I en] obtain x1 where x1: "mx_exec A (Mx_unlock i) x = Some x1" "mx_inv rq x1" by blast
  then obtain mx w1 where u: "mutex_unlock (sy_world (ms_sys x)) (sy_mgr (ms_sys x)) (ms_mx x i) = Some (mx, w1)"
    "x1 = x\<lparr>ms_sys := (ms_sys x)\<lparr>sy_world := w1\<rparr>, ms_mx := (ms_mx x)(i := mx)\<rparr>"
    by (auto simp: mx_exec_def mx_unlock_def split: bind_splits)
  have S: "sys_inv rq (ms_sys x)" and S1: "sys_inv rq (ms_sys x1)" using I x1(2) by (simp_all add: mx_inv_def)
  have "\<not> interruption_requested (w_heap (sy_world (ms_sys x1)) a)"
  proof (cases "mtx_waiting (ms_mx x i)")
    case Nil
    with mx_unlock_exec [OF I a(1,3)] x1(1) a(5) show ?thesis by auto
  next
    case (Cons n ns)
    with mx_unlock_exec [OF I a(1,3)] x1(1) obtain f where f: "asleep (ms_sys x) f"
      "sys_exec A (Rq_notify f) (ms_sys x) = Some (ms_sys x1)" by fastforce
    obtain ws rs where S': "sys_inv_at rq (ms_sys x) ws rs" using S by (auto simp: sys_inv_def)
    have fu: "f \<in> set (sy_used (ms_sys x))" "sy_pc (ms_sys x) f = In_wait" using f(1) by (auto simp: asleep_def)
    have "a \<noteq> f" "a \<in> set (sy_used (ms_sys x))" using active_facts [OF S a(1)] f(1) by (auto simp: alive_def)
    with notify_effect(1) [OF S' fu f(2), of a] a(5) show ?thesis by (simp add: undisturbed_def)
  qed
  from wait_sleeps [OF S1 _ this] a(1) u(2) obtain w2 y where w:
    "fm_wait_enter LOCKED w1 (sy_mgr (ms_sys x)) = Some (UNLOCKED, w2, sy_mgr (ms_sys x))"
    "sys_leave a In_wait w2 (sy_mgr (ms_sys x)) (ms_sys x) = Some y"
    "sys_exec A (Rq_wait time_point_max) (ms_sys x1) = Some y" "asleep y a" by auto
  have en1: "mx_enabled (Mx_sys (Rq_wait time_point_max)) x1" using a(1,2) u(2) by (simp add: mx_enabled_def sys_enabled_def)
  have ex1: "mx_exec A (Mx_sys (Rq_wait time_point_max)) x1 = Some (x1\<lparr>ms_sys := y\<rparr>)" using w(3) by (simp add: mx_exec_def)
  from mx_sys_ok [OF x1(2) en1] ex1 have "mx_inv rq (x1\<lparr>ms_sys := y\<rparr>)" by auto
  with u x1 w ex1 show ?thesis by blast
qed

lemma cs_wait_exec:
  assumes I: "cs_inv rq s" and en: "cs_enabled (Cs_wait c i) s"
    and out: "\<And>f. inl f \<noteq> None \<Longrightarrow> ms_in (cs_mx s) f = None \<and> fm_active (sy_mgr (cs_sys s)) \<noteq> Some f"
  shows "\<exists>a x1 y. fm_active (sy_mgr (cs_sys s)) = Some a \<and> cs_in s a = None \<and> ms_in (cs_mx s) a = None \<and>
     cs_calm (cs_sys s) (ms_sys x1) inl \<and> cs_calm (ms_sys x1) y inl \<and> mx_inv rq (x1\<lparr>ms_sys := y\<rparr>) \<and>
     ms_in x1 = ms_in (cs_mx s) \<and> ms_count x1 = ms_count (cs_mx s) \<and> asleep y a \<and>
     cv_splk (cs_cv s c) = UNLOCKED \<and> Worker a \<notin> set (cv_waiting (cs_cv s c)) \<and>
     cs_exec A (Cs_wait c i) s = Some (s\<lparr>cs_mx := x1\<lparr>ms_sys := y\<rparr>, cs_in := (cs_in s)(a := Some (c, i)),
       cs_cv := (cs_cv s)(c := (cs_cv s c)\<lparr>cv_waiting := cv_waiting (cs_cv s c) @ [Worker a]\<rparr>)\<rparr>)"
proof -
  note D = cs_invD [OF I]
  obtain a where a: "fm_active (sy_mgr (cs_sys s)) = Some a" "ms_in (cs_mx s) a = None" "mx_holds (cs_mx s) a i"
    "i < ms_count (cs_mx s)" "\<not> interruption_requested (w_heap (sy_world (cs_sys s)) a)"
    and free: "cs_in s a = None"
    using en by (auto simp: cs_enabled_def Let_def split: option.splits)
  from unlock_and_sleep [OF D(1) a] obtain mx w1 w2 x1 y where u:
    "mutex_unlock (sy_world (cs_sys s)) (sy_mgr (cs_sys s)) (ms_mx (cs_mx s) i) = Some (mx, w1)"
    and x1: "x1 = (cs_mx s)\<lparr>ms_sys := (cs_sys s)\<lparr>sy_world := w1\<rparr>, ms_mx := (ms_mx (cs_mx s))(i := mx)\<rparr>" "mx_inv rq x1"
      "mx_exec A (Mx_unlock i) (cs_mx s) = Some x1"
    and w: "fm_wait_enter LOCKED w1 (sy_mgr (cs_sys s)) = Some (UNLOCKED, w2, sy_mgr (cs_sys s))"
      "sys_leave a In_wait w2 (sy_mgr (cs_sys s)) (cs_sys s) = Some y"
    and x2: "mx_exec A (Mx_sys (Rq_wait time_point_max)) x1 = Some (x1\<lparr>ms_sys := y\<rparr>)" "mx_inv rq (x1\<lparr>ms_sys := y\<rparr>)" "asleep y a"
    by blast
  have "sys_inv rq (cs_sys s)" using D(1) by (simp add: mx_inv_def)
  note act = active_facts [OF this a(1)]
  have cv: "cv_splk (cs_cv s c) = UNLOCKED" "Worker a \<notin> set (cv_waiting (cs_cv s c))"
    using D(2) [of c] act(2) by (auto simp: cv_one_def)
  have ex: "cs_exec A (Cs_wait c i) s = Some (s\<lparr>cs_mx := x1\<lparr>ms_sys := y\<rparr>, cs_in := (cs_in s)(a := Some (c, i)),
      cs_cv := (cs_cv s)(c := (cs_cv s c)\<lparr>cv_waiting := cv_waiting (cs_cv s c) @ [Worker a]\<rparr>)\<rparr>)"
    using a(1) cv u w x1(1) by (simp add: cs_exec_def cs_wait_def condition_wait_enter_def cv_splk_eq)
  have c1: "cs_calm (cs_sys s) (ms_sys x1) inl"
    by (rule mx_part [OF D(1) _ x1(3)]) (use a out in \<open>auto simp: mx_enabled_def\<close>)
  have c2: "cs_calm (ms_sys x1) y inl"
    using mx_part [OF x1(2) _ x2(1), of inl] a(1,2) out by (auto simp: mx_enabled_def sys_enabled_def x1(1))
  show ?thesis using a(1,2) free c1 c2 x2(2,3) cv ex by (intro exI [of _ a] exI [of _ x1] exI [of _ y]) (simp add: x1(1))
qed

lemma cs_wait_ok:
  assumes I: "cs_inv rq s" and en: "cs_enabled (Cs_wait c i) s"
  shows "\<exists>s'. cs_exec A (Cs_wait c i) s = Some s' \<and> cs_inv rq s'"
proof -
  note D = cs_invD [OF I]
  have ci: "c < cs_count s" "i < ms_count (cs_mx s)"
    and busy: "\<And>a. fm_active (sy_mgr (cs_sys s)) = Some a \<Longrightarrow> cs_in s a = None"
    using en by (auto simp: cs_enabled_def Let_def split: option.splits)
  define cv' where "cv' a = (cs_cv s c)\<lparr>cv_waiting := cv_waiting (cs_cv s c) @ [Worker a]\<rparr>" for a
  have "ms_in (cs_mx s) f = None \<and> fm_active (sy_mgr (cs_sys s)) \<noteq> Some f" if "cs_in s f \<noteq> None" for f
    using that D(4) [of f] busy by auto
  from cs_wait_exec [of s c i "cs_in s", OF I en this] obtain a x1 y where
    a: "fm_active (sy_mgr (cs_sys s)) = Some a" "cs_in s a = None" "ms_in (cs_mx s) a = None"
    and calm: "cs_calm (cs_sys s) (ms_sys x1) (cs_in s)" "cs_calm (ms_sys x1) y (cs_in s)"
    and x: "mx_inv rq (x1\<lparr>ms_sys := y\<rparr>)" "ms_in x1 = ms_in (cs_mx s)" "ms_count x1 = ms_count (cs_mx s)" "asleep y a"
    and cv: "cv_splk (cs_cv s c) = UNLOCKED" "Worker a \<notin> set (cv_waiting (cs_cv s c))"
    and ex: "cs_exec A (Cs_wait c i) s =
      Some (s\<lparr>cs_mx := x1\<lparr>ms_sys := y\<rparr>, cs_in := (cs_in s)(a := Some (c, i)), cs_cv := (cs_cv s)(c := cv' a)\<rparr>)"
    unfolding cv'_def by blast
  have "cv_one y (cs_in s) d (cs_cv s d)" for d by (rule cv_one_calm [OF D(2) cs_calm_trans [OF calm]])
  from cv_one_entered [OF this a(2) x(4) cv(2)]
  have "cv_one y ((cs_in s)(a := Some (c, i))) d (((cs_cv s)(c := cv' a)) d)" for d by (simp add: cv'_def)
  with ex x(1-3) D(3-5) a(3) ci show ?thesis by (auto simp: cs_inv_def)
qed

lemma cs_resume_exec:
  assumes I: "cs_inv rq s" and en: "cs_enabled Cs_resume s"
  shows "\<exists>a c i x. fm_active (sy_mgr (cs_sys s)) = Some a \<and> cs_in s a = Some (c, i) \<and>
     mx_enabled (Mx_lock i) (cs_mx s) \<and> mx_exec A (Mx_lock i) (cs_mx s) = Some x \<and> mx_inv rq x \<and>
     cs_exec A Cs_resume s = Some (s\<lparr>cs_mx := x, cs_in := (cs_in s)(a := None)\<rparr>)"
proof -
  note D = cs_invD [OF I]
  obtain a c i where a: "fm_active (sy_mgr (cs_sys s)) = Some a" "cs_in s a = Some (c, i)"
    "\<not> interruption_requested (w_heap (sy_world (cs_sys s)) a)"
    using en by (auto simp: cs_enabled_def Let_def split: option.splits)
  have en: "mx_enabled (Mx_lock i) (cs_mx s)" using a(1,3) D(4,5) [OF a(2)] by (simp add: mx_enabled_def)
  from mx_lock_ok [OF D(1) en] obtain x where x: "mx_exec A (Mx_lock i) (cs_mx s) = Some x" "mx_inv rq x" by blast
  have "condition_wait_resumed (sy_world (cs_sys s)) (sy_mgr (cs_sys s)) (cs_cv s c) = Some (Inr (), cs_cv s c, sy_world (cs_sys s))"
    using a(1,3) by (simp add: condition_wait_resumed_def interruption_point_def this_interruption_requested_def)
  then have "cs_exec A Cs_resume s = Some (s\<lparr>cs_mx := x, cs_in := (cs_in s)(a := None)\<rparr>)"
    using a(1,2) x(1) by (simp add: cs_exec_def cs_resume_def mx_exec_def fun_upd_idem)
  with a(1,2) en x show ?thesis by blast
qed

lemma cs_resume_ok:
  assumes I: "cs_inv rq s" and en: "cs_enabled Cs_resume s"
  shows "\<exists>s'. cs_exec A Cs_resume s = Some s' \<and> cs_inv rq s'"
proof -
  note D = cs_invD [OF I]
  from cs_resume_exec [OF I en] obtain a c i x where a: "fm_active (sy_mgr (cs_sys s)) = Some a" "cs_in s a = Some (c, i)"
    and x: "mx_enabled (Mx_lock i) (cs_mx s)" "mx_exec A (Mx_lock i) (cs_mx s) = Some x" "mx_inv rq x"
    and ex: "cs_exec A Cs_resume s = Some (s\<lparr>cs_mx := x, cs_in := (cs_in s)(a := None)\<rparr>)" by blast
  let ?in = "(cs_in s)(a := None)"
  have calm: "cs_calm (cs_sys s) (ms_sys x) ?in"
  proof (rule mx_part [OF D(1) x(1,2)])
    fix f assume "?in f \<noteq> None"
    then have "ms_in (cs_mx s) f = None" "f \<noteq> a" using D(4) [of f] by (auto split: if_splits)
    with a(1) show "ms_in (cs_mx s) f = None \<and> fm_active (sy_mgr (cs_sys s)) \<noteq> Some f \<and> mx_target (Mx_lock i) \<noteq> Some f" by simp
  qed
  have "\<not> asleep (cs_sys s) a" using active_facts(2) [OF _ a(1)] D(1) by (auto simp: mx_inv_def)
  from cv_one_calm [OF cv_one_left [OF D(2) this] calm] have "cv_one (ms_sys x) ?in d (cs_cv s d)" for d .
  moreover have "ms_in x f = None \<and> j < ms_count x" if "f \<noteq> a" "cs_in s f = Some (d, j)" for f d j
    using mx_exec_sys [OF D(1) x(1,2)] a(1) that D(4,5) [OF that(2)] by fastforce
  ultimately show ?thesis using ex x(3) D(3) by (auto simp: cs_inv_def)
qed

text \<open>Waking some of the fibers in the line of a condition, one after the other.\<close>

lemma notify_line:
  assumes "mx_inv rq x" and "\<forall>f \<in> set fs. f \<in> set (sy_used (ms_sys x)) \<and> sy_pc (ms_sys x) f = In_wait \<and> ms_in x f = None"
    and "\<forall>a. fm_active (sy_mgr (ms_sys x)) = Some a \<longrightarrow> ms_in x a = None"
  shows "\<exists>w x'. fb_set_ready_all (map Worker fs) (sy_world (ms_sys x)) = Some w \<and>
     x' = x\<lparr>ms_sys := (ms_sys x)\<lparr>sy_world := w\<rparr>\<rparr> \<and> mx_inv rq x' \<and> (\<forall>f \<in> set fs. roused (ms_sys x') f) \<and>
     (\<forall>g. g \<notin> set fs \<longrightarrow> (asleep (ms_sys x) g \<longrightarrow> asleep (ms_sys x') g) \<and> (roused (ms_sys x) g \<longrightarrow> roused (ms_sys x') g))"
  using assms
proof (induction fs arbitrary: x)
  case (Cons f fs)
  have S: "sys_inv rq (ms_sys x)" using Cons.prems(1) by (simp add: mx_inv_def)
  then obtain ws rs where S': "sys_inv_at rq (ms_sys x) ws rs" by (auto simp: sys_inv_def)
  have f: "f \<in> set (sy_used (ms_sys x))" "sy_pc (ms_sys x) f = In_wait" using Cons.prems(2) by auto
  have en: "mx_enabled (Mx_sys (Rq_notify f)) x" using Cons.prems(2,3)
    by (auto simp: mx_enabled_def sys_enabled_def split: option.splits)
  from mx_sys_ok [OF Cons.prems(1) en] obtain x1 where x1: "mx_exec A (Mx_sys (Rq_notify f)) x = Some x1" "mx_inv rq x1" by blast
  then obtain w1 where w1: "set_ready f (sy_world (ms_sys x)) = Some w1" "x1 = x\<lparr>ms_sys := (ms_sys x)\<lparr>sy_world := w1\<rparr>\<rparr>"
    by (auto simp: mx_exec_def sys_exec_def split: bind_splits)
  have ex: "sys_exec A (Rq_notify f) (ms_sys x) = Some (ms_sys x1)" using w1 by (simp add: sys_exec_def)
  note ne = notify_effect [OF S' f ex]
  have keep: "(asleep (ms_sys x) g \<longrightarrow> asleep (ms_sys x1) g) \<and> (roused (ms_sys x) g \<longrightarrow> roused (ms_sys x1) g)" if "g \<noteq> f" for g
    using ne(1) [OF _ that] undisturbedD(1,2) [of g "ms_sys x" "ms_sys x1"] by (auto simp: asleep_def roused_def)
  from Cons.IH [OF x1(2)] Cons.prems(2,3) obtain w x' where w: "fb_set_ready_all (map Worker fs) (sy_world (ms_sys x1)) = Some w"
    "x' = x1\<lparr>ms_sys := (ms_sys x1)\<lparr>sy_world := w\<rparr>\<rparr>" "mx_inv rq x'" "\<forall>f \<in> set fs. roused (ms_sys x') f"
    "\<forall>g. g \<notin> set fs \<longrightarrow> (asleep (ms_sys x1) g \<longrightarrow> asleep (ms_sys x') g) \<and> (roused (ms_sys x1) g \<longrightarrow> roused (ms_sys x') g)"
    by (auto simp: w1(2))
  have "roused (ms_sys x') f" using w(4,5) ne(2) by blast
  with w keep w1 show ?case
    by (intro exI [of _ w] exI [of _ x']) (auto simp: fb_set_ready_def)
qed simp

lemma cs_notify_ok:
  assumes I: "cs_inv rq s" and split: "cv_waiting (cs_cv s c) = ns @ rest"
    and ntf: "ntf (cs_cv s c) (sy_world (cs_sys s)) =
      do { w \<leftarrow> fb_set_ready_all ns (sy_world (cs_sys s)); Some ((cs_cv s c)\<lparr>cv_waiting := rest\<rparr>, w) }"
    and c: "c < cs_count s" and act: "\<forall>a. fm_active (sy_mgr (cs_sys s)) = Some a \<longrightarrow> ms_in (cs_mx s) a = None"
  shows "\<exists>s'. cs_notify ntf c s = Some s' \<and> cs_inv rq s' \<and> cv_waiting (cs_cv s' c) = rest \<and>
     (\<forall>f. Worker f \<in> set ns \<longrightarrow> roused (cs_sys s') f) \<and> cs_untouched s s'"
proof -
  note D = cs_invD [OF I]
  have line: "n \<in> set ns \<Longrightarrow> \<exists>f i. n = Worker f \<and> cs_in s f = Some (c, i) \<and> asleep (cs_sys s) f" for n
    using D(2) [of c] split by (auto simp: cv_one_def)
  then obtain fs where fs: "ns = map Worker fs" by (metis ex_map_conv)
  have fs': "f \<in> set (sy_used (cs_sys s)) \<and> sy_pc (cs_sys s) f = In_wait \<and> ms_in (cs_mx s) f = None \<and>
      (\<exists>i. cs_in s f = Some (c, i))" if "f \<in> set fs" for f
    using line [of "Worker f"] that D(4) [of f] by (auto simp: fs asleep_def)
  from notify_line [OF D(1), of fs] fs' act obtain w x where w: "fb_set_ready_all ns (sy_world (cs_sys s)) = Some w"
    "x = (cs_mx s)\<lparr>ms_sys := (cs_sys s)\<lparr>sy_world := w\<rparr>\<rparr>" "mx_inv rq x" "\<forall>f \<in> set fs. roused (ms_sys x) f"
    "\<forall>g. g \<notin> set fs \<longrightarrow> (asleep (cs_sys s) g \<longrightarrow> asleep (ms_sys x) g) \<and> (roused (cs_sys s) g \<longrightarrow> roused (ms_sys x) g)"
    by (auto simp: fs)
  define s' where "s' = s\<lparr>cs_mx := x, cs_cv := (cs_cv s)(c := (cs_cv s c)\<lparr>cv_waiting := rest\<rparr>)\<rparr>"
  have ex: "cs_notify ntf c s = Some s'" using ntf w(1,2) by (simp add: cs_notify_def s'_def)
  have mgr: "sy_mgr (ms_sys x) = sy_mgr (cs_sys s)" by (simp add: w(2))
  have "cv_one (ms_sys x) (cs_in s) d (cs_cv s' d)" for d
  proof (cases "d = c")
    case False
    then have "g \<notin> set fs" if "cs_in s g = Some (d, i)" for g i using fs' [of g] that by auto
    from cv_one_others_notified [OF D(2) mgr this w(5)] False show ?thesis by (simp add: s'_def)
  next
    case True
    from cv_one_notified [OF D(2) split [unfolded fs] mgr w(4,5)] True show ?thesis by (simp add: s'_def)
  qed
  moreover have "cs_untouched s s'"
  proof -
    have "g \<notin> set fs" if "cs_in s g = None" for g using fs' [of g] that by auto
    with w(2,5) show ?thesis by (simp add: cs_untouched_def s'_def)
  qed
  ultimately show ?thesis using ex w D(3-5) c fs by (auto simp: cs_inv_def s'_def)
qed

lemma cs_notify_one_ok:
  assumes I: "cs_inv rq s" and en: "cs_enabled (Cs_notify_one c) s"
  shows "\<exists>s'. cs_exec A (Cs_notify_one c) s = Some s' \<and> cs_inv rq s' \<and> cv_waiting (cs_cv s' c) = tl (cv_waiting (cs_cv s c)) \<and>
     (\<forall>f. Worker f \<in> set (take 1 (cv_waiting (cs_cv s c))) \<longrightarrow> roused (cs_sys s') f) \<and> cs_untouched s s'"
proof -
  have splk: "cv_splk (cs_cv s c) = UNLOCKED" using cs_invD(2) [OF I, of c] by (simp add: cv_one_def)
  have split: "cv_waiting (cs_cv s c) = take 1 (cv_waiting (cs_cv s c)) @ tl (cv_waiting (cs_cv s c))"
    by (cases "cv_waiting (cs_cv s c)") simp_all
  have ntf: "condition_notify_one (cs_cv s c) (sy_world (cs_sys s)) =
      do { w \<leftarrow> fb_set_ready_all (take 1 (cv_waiting (cs_cv s c))) (sy_world (cs_sys s));
           Some ((cs_cv s c)\<lparr>cv_waiting := tl (cv_waiting (cs_cv s c))\<rparr>, w) }"
    using splk by (cases "cv_waiting (cs_cv s c)") (simp_all add: condition_notify_one_def notify_waiter_def cv_splk_eq)
  from cs_notify_ok [of _ _ _ _ condition_notify_one, OF I split ntf] en show ?thesis
    by (auto simp: cs_enabled_def cs_exec_def Let_def split: option.splits)
qed

lemma cs_notify_all_ok:
  assumes I: "cs_inv rq s" and en: "cs_enabled (Cs_notify_all c) s"
  shows "\<exists>s'. cs_exec A (Cs_notify_all c) s = Some s' \<and> cs_inv rq s' \<and> cv_waiting (cs_cv s' c) = [] \<and>
     (\<forall>f. Worker f \<in> set (cv_waiting (cs_cv s c)) \<longrightarrow> roused (cs_sys s') f) \<and> cs_untouched s s'"
proof -
  have splk: "cv_splk (cs_cv s c) = UNLOCKED" using cs_invD(2) [OF I, of c] by (simp add: cv_one_def)
  have ntf: "condition_notify_all (cs_cv s c) (sy_world (cs_sys s)) =
      do { w \<leftarrow> fb_set_ready_all (cv_waiting (cs_cv s c)) (sy_world (cs_sys s)); Some ((cs_cv s c)\<lparr>cv_waiting := []\<rparr>, w) }"
    using splk by (simp add: condition_notify_all_def cv_splk_eq)
  from cs_notify_ok [of _ _ _ _ condition_notify_all, OF I append_Nil2 [symmetric] ntf] en show ?thesis
    by (auto simp: cs_enabled_def cs_exec_def Let_def split: option.splits)
qed

lemma cs_exec_ok:
  assumes I: "cs_inv rq s" and en: "cs_enabled r s"
  shows "\<exists>s'. cs_exec A r s = Some s' \<and> cs_inv rq s'"
proof (cases r)
  case Cs_new
  have "(cs_cv s)(cs_count s := condition_init) = cs_cv s" using I by (simp add: cs_inv_def fun_upd_idem)
  with I Cs_new show ?thesis by (simp add: cs_exec_def cs_inv_def)
qed (use cs_mx_ok [OF I] cs_wait_ok [OF I] cs_resume_ok [OF I] cs_notify_one_ok [OF I] cs_notify_all_ok [OF I] en in \<open>blast+\<close>)

text \<open>
  A fiber that is neither running nor inside a call on a mutex or condition, and that the request
  does not name, sleeps on or stays woken.
\<close>

lemma cs_exec_calm:
  assumes I: "cs_inv rq s" and en: "cs_enabled r s" and ex: "cs_exec A r s = Some s'"
    and out: "\<And>f. inl f \<noteq> None \<Longrightarrow> ms_in (cs_mx s) f = None \<and> cs_in s f = None \<and>
      fm_active (sy_mgr (cs_sys s)) \<noteq> Some f \<and> cs_target r \<noteq> Some f"
  shows "cs_calm (cs_sys s) (cs_sys s') inl \<and> (\<forall>f. inl f \<noteq> None \<longrightarrow> ms_in (cs_mx s') f = None \<and> cs_in s' f = None)"
proof (cases r)
  case (Cs_mx q)
  note D = cs_invD [OF I]
  obtain x where x: "mx_exec A q (cs_mx s) = Some x" "s' = s\<lparr>cs_mx := x\<rparr>" "mx_enabled q (cs_mx s)"
    using ex en Cs_mx by (auto simp: cs_exec_def cs_enabled_def split: bind_splits)
  have "cs_calm (cs_sys s) (ms_sys x) inl" by (rule mx_part [OF D(1) x(3,1)]) (use out Cs_mx in auto)
  with mx_exec_sys [OF D(1) x(3,1)] out x(2) show ?thesis by auto
next
  case Cs_new
  with ex out show ?thesis by (auto simp: cs_exec_def cs_calm_def)
next
  case (Cs_wait c i)
  from cs_wait_exec [of s c i inl, OF I en [unfolded Cs_wait]] out obtain a x1 y where
    "fm_active (sy_mgr (cs_sys s)) = Some a" "cs_calm (cs_sys s) (ms_sys x1) inl" "cs_calm (ms_sys x1) y inl"
    "ms_in x1 = ms_in (cs_mx s)" "cs_in s' = (cs_in s)(a := Some (c, i))" "cs_mx s' = x1\<lparr>ms_sys := y\<rparr>"
    using ex Cs_wait by fastforce
  with out cs_calm_trans [of "cs_sys s" "ms_sys x1" inl y] show ?thesis by auto
next
  case Cs_resume
  note D = cs_invD [OF I]
  from cs_resume_exec [OF I en [unfolded Cs_resume]] ex Cs_resume obtain a i x where
    a: "fm_active (sy_mgr (cs_sys s)) = Some a" and x: "mx_enabled (Mx_lock i) (cs_mx s)" "mx_exec A (Mx_lock i) (cs_mx s) = Some x"
    "s' = s\<lparr>cs_mx := x, cs_in := (cs_in s)(a := None)\<rparr>" by auto
  have "cs_calm (cs_sys s) (ms_sys x) inl" by (rule mx_part [OF D(1) x(1,2)]) (use out in auto)
  with mx_exec_sys [OF D(1) x(1,2)] out x(3) show ?thesis by auto
next
  case (Cs_notify_one c)
  with cs_notify_one_ok [OF I, of c] en ex have "cs_untouched s s'" by auto
  with out show ?thesis by (auto simp: cs_untouched_def cs_calm_def)
next
  case (Cs_notify_all c)
  with cs_notify_all_ok [OF I, of c] en ex have "cs_untouched s s'" by auto
  with out show ?thesis by (auto simp: cs_untouched_def cs_calm_def)
qed

text \<open>
  What a class built on these parts may do to the thread: let the running fiber sleep, and wake
  sleeping fibers. \<open>inl\<close> are the fibers inside calls of that class.
\<close>

lemma sleep_part:
  assumes I: "cs_inv rq s" and a: "fm_active (sy_mgr (cs_sys s)) = Some a"
    "\<not> interruption_requested (w_heap (sy_world (cs_sys s)) a)" "cs_in s a = None" "ms_in (cs_mx s) a = None"
    and out: "\<And>f. inl f \<noteq> None \<Longrightarrow> ms_in (cs_mx s) f = None \<and> cs_in s f = None \<and> f \<noteq> a"
  shows "\<exists>w y. fm_wait_enter LOCKED (sy_world (cs_sys s)) (sy_mgr (cs_sys s)) = Some (UNLOCKED, w, sy_mgr (cs_sys s)) \<and>
     sys_leave a In_wait w (sy_mgr (cs_sys s)) (cs_sys s) = Some y \<and> asleep y a \<and>
     cs_inv rq (s\<lparr>cs_mx := (cs_mx s)\<lparr>ms_sys := y\<rparr>\<rparr>) \<and> cs_calm (cs_sys s) y inl"
proof -
  let ?q = "Cs_mx (Mx_sys (Rq_wait time_point_max))"
  have "sys_inv rq (cs_sys s)" using cs_invD(1) [OF I] by (simp add: mx_inv_def)
  from wait_sleeps [OF this a(1,2)] obtain w y where w:
    "fm_wait_enter LOCKED (sy_world (cs_sys s)) (sy_mgr (cs_sys s)) = Some (UNLOCKED, w, sy_mgr (cs_sys s))"
    "sys_leave a In_wait w (sy_mgr (cs_sys s)) (cs_sys s) = Some y"
    "sys_exec A (Rq_wait time_point_max) (cs_sys s) = Some y" "asleep y a" by blast
  have en: "cs_enabled ?q s" using a by (simp add: cs_enabled_def mx_enabled_def sys_enabled_def cs_free_def)
  have ex: "cs_exec A ?q s = Some (s\<lparr>cs_mx := (cs_mx s)\<lparr>ms_sys := y\<rparr>\<rparr>)" using w(3) by (simp add: cs_exec_def mx_exec_def)
  have "ms_in (cs_mx s) f = None \<and> cs_in s f = None \<and> fm_active (sy_mgr (cs_sys s)) \<noteq> Some f \<and> cs_target ?q \<noteq> Some f"
    if "inl f \<noteq> None" for f using out [OF that] a(1) by auto
  from cs_exec_calm [OF I en ex this] cs_exec_ok [OF I en] ex w(1,2,4) show ?thesis by auto
qed

lemma notify_part:
  assumes I: "cs_inv rq s" and act: "\<And>a. fm_active (sy_mgr (cs_sys s)) = Some a \<Longrightarrow> ms_in (cs_mx s) a = None"
    and fs: "\<And>f. f \<in> set fs \<Longrightarrow> asleep (cs_sys s) f \<and> ms_in (cs_mx s) f = None \<and> cs_in s f = None"
    and v: "w_heap v = w_heap (sy_world (cs_sys s))" "w_wqs v = w_wqs (sy_world (cs_sys s))"
  shows "\<exists>w y. fb_set_ready_all (map Worker fs) v = Some w \<and> y = (cs_sys s)\<lparr>sy_world := w\<rparr> \<and>
     cs_inv rq (s\<lparr>cs_mx := (cs_mx s)\<lparr>ms_sys := y\<rparr>\<rparr>) \<and> (\<forall>f \<in> set fs. roused y f) \<and>
     (\<forall>g. g \<notin> set fs \<longrightarrow> (asleep (cs_sys s) g \<longrightarrow> asleep y g) \<and> (roused (cs_sys s) g \<longrightarrow> roused y g))"
proof -
  let ?x = "(cs_mx s)\<lparr>ms_sys := (cs_sys s)\<lparr>sy_world := v\<rparr>\<rparr>"
  have "mx_inv rq ?x" using cs_invD(1) [OF I] v by (simp add: mx_inv_world)
  from notify_line [OF this, of fs] fs act obtain w x where w: "fb_set_ready_all (map Worker fs) v = Some w"
    "x = (cs_mx s)\<lparr>ms_sys := (cs_sys s)\<lparr>sy_world := w\<rparr>\<rparr>" "mx_inv rq x" "\<forall>f \<in> set fs. roused (ms_sys x) f"
    "\<forall>g. g \<notin> set fs \<longrightarrow> (asleep (cs_sys s) g \<longrightarrow> asleep (ms_sys x) g) \<and> (roused (cs_sys s) g \<longrightarrow> roused (ms_sys x) g)"
    by (auto simp: places_world v(1) asleep_def)
  have "sy_mgr (ms_sys x) = sy_mgr (cs_sys s)" by (simp add: w(2))
  then have "cs_calm (cs_sys s) (ms_sys x) (cs_in s)" using fs w(5) unfolding cs_calm_def by metis
  from cs_inv_mx [OF I w(3) _ _ this] w show ?thesis by auto
qed

lemma cs_reachable_inv:
  assumes "cs_reachable A s0 s" and "cs_inv rq s0"
  shows "cs_inv rq s"
  using assms
proof (induction rule: cs_reachable.induct)
  case (step s r s')
  with cs_exec_ok [of s r] show ?case by auto
qed

end

section \<open>Properties\<close>

lemma cs_rr_inv: "cs_reachable round_robin_algo (cs_init q h) s \<Longrightarrow> cs_inv fifo_rep s"
  using rr.cs_reachable_inv cs_init_inv by blast

fun cs_script :: "'s sched_algorithm \<Rightarrow> cv_request list \<Rightarrow> 's cv_sys \<Rightarrow> 's cv_sys option" where
  "cs_script A [] s = Some s"
| "cs_script A (r # rs) s = (if cs_enabled r s then do { s' \<leftarrow> cs_exec A r s; cs_script A rs s' } else None)"

lemma cs_script_reachable:
  "cs_script A rs s = Some s' \<Longrightarrow> cs_reachable A s0 s \<Longrightarrow> cs_reachable A s0 s'"
  by (induction A rs s rule: cs_script.induct) (auto split: if_splits bind_splits intro: cs_reachable.step)

text \<open>Fiber 1 waits at the condition, fiber 2 holds the mutex and runs.\<close>

definition demo_cs_requests :: "cv_request list" where
  "demo_cs_requests =
     [Cs_mx Mx_new, Cs_new, Cs_mx (Mx_sys (Rq_spawn 1)), Cs_mx (Mx_sys (Rq_spawn 2)), Cs_mx (Mx_sys (Rq_run 0 0)),
      Cs_mx (Mx_lock 0), Cs_wait 0 0, Cs_mx (Mx_sys (Rq_run 1 1)), Cs_mx (Mx_lock 0)]"

definition demo_cs :: "round_robin cv_sys" where
  "demo_cs = the (cs_script round_robin_algo demo_cs_requests (cs_init 0 (\<lambda>_. worker_fiber_init)))"

lemma demo_cs_reachable: "cs_reachable round_robin_algo (cs_init 0 (\<lambda>_. worker_fiber_init)) demo_cs"
proof -
  have "\<not> Option.is_none (cs_script round_robin_algo demo_cs_requests (cs_init 0 (\<lambda>_. worker_fiber_init)))"
    by code_simp
  then obtain s' where s': "cs_script round_robin_algo demo_cs_requests (cs_init 0 (\<lambda>_. worker_fiber_init)) = Some s'"
    by (auto simp: Option.is_none_def)
  with cs_script_reachable [OF s' cs_reachable.start] show ?thesis by (simp add: demo_cs_def)
qed

text \<open>
  C7: fibers that share mutexes and condition variables run into no assertion. Whatever fibers have
  done with each other, with the scheduler, with any number of mutexes and of condition variables,
  the next permitted call of \<^verbatim>\<open>wait\<close>, \<^verbatim>\<open>notify_one\<close>, \<^verbatim>\<open>notify_all\<close>, \<^verbatim>\<open>lock\<close>,
  \<^verbatim>\<open>try_lock\<close> or \<^verbatim>\<open>unlock\<close>, and every other permitted request, is carried out.
\<close>

theorem condition_calls_never_fail:
  assumes "cs_reachable round_robin_algo (cs_init q h) s" and "cs_enabled r s"
  shows "\<exists>s'. cs_exec round_robin_algo r s = Some s'"
  using rr.cs_exec_ok [OF cs_rr_inv [OF assms(1)] assms(2)] by blast

theorem condition_calls_never_fail_witness:
  "cs_enabled (Cs_wait 0 0) demo_cs \<and> (\<exists>s'. cs_exec round_robin_algo (Cs_wait 0 0) demo_cs = Some s')"
proof -
  have "cs_enabled (Cs_wait 0 0) demo_cs" by code_simp
  with condition_calls_never_fail [OF demo_cs_reachable this] show ?thesis by blast
qed

text \<open>
  C9: no waiter is lost. A fiber inside \<^verbatim>\<open>wait\<close> sleeps in the line of its condition or has been
  woken and is ready or running; and if \<^verbatim>\<open>notify_all\<close> is called now it is ready or running
  afterwards.
\<close>

theorem condition_waiter_not_lost:
  assumes "cs_reachable round_robin_algo (cs_init q h) s" and "cs_in s f = Some (c, i)"
  shows "(Worker f \<in> set (cv_waiting (cs_cv s c)) \<and> is_waiting (w_heap (sy_world (cs_sys s))) f \<or>
       is_ready (w_heap (sy_world (cs_sys s))) f \<or> fm_active (sy_mgr (cs_sys s)) = Some f) \<and>
     (cs_enabled (Cs_notify_all c) s \<longrightarrow> (\<exists>s'. cs_exec round_robin_algo (Cs_notify_all c) s = Some s' \<and>
        (is_ready (w_heap (sy_world (cs_sys s'))) f \<or> fm_active (sy_mgr (cs_sys s')) = Some f)))"
proof (intro conjI impI)
  note I = cs_rr_inv [OF assms(1)]
  from cs_invD(2) [OF I, of c] assms(2)
  show "Worker f \<in> set (cv_waiting (cs_cv s c)) \<and> is_waiting (w_heap (sy_world (cs_sys s))) f \<or>
      is_ready (w_heap (sy_world (cs_sys s))) f \<or> fm_active (sy_mgr (cs_sys s)) = Some f"
    by (fastforce simp: cv_one_def asleep_def roused_def is_waiting_def is_ready_def)
  assume "cs_enabled (Cs_notify_all c) s"
  from rr.cs_notify_all_ok [OF I this] obtain s' where s': "cs_exec round_robin_algo (Cs_notify_all c) s = Some s'"
    "cs_inv fifo_rep s'" "cv_waiting (cs_cv s' c) = []" by blast
  have "cs_in s' f = Some (c, i)"
    using s'(1) assms(2) by (auto simp: cs_exec_def cs_notify_def split: bind_splits)
  with cs_invD(2) [OF s'(2), of c] s'(3) have "roused (cs_sys s') f \<or> fm_active (sy_mgr (cs_sys s')) = Some f"
    by (auto simp: cv_one_def)
  with s'(1) show "\<exists>s'. cs_exec round_robin_algo (Cs_notify_all c) s = Some s' \<and>
      (is_ready (w_heap (sy_world (cs_sys s'))) f \<or> fm_active (sy_mgr (cs_sys s')) = Some f)"
    by (auto simp: roused_def is_ready_def)
qed

theorem condition_waiter_not_lost_witness:
  "cs_in demo_cs 1 = Some (0, 0) \<and> is_waiting (w_heap (sy_world (cs_sys demo_cs))) 1 \<and>
   (\<exists>s'. cs_exec round_robin_algo (Cs_notify_all 0) demo_cs = Some s' \<and>
     (is_ready (w_heap (sy_world (cs_sys s'))) 1 \<or> fm_active (sy_mgr (cs_sys s')) = Some 1))"
proof -
  have "cs_in demo_cs 1 = Some (0, 0)" "is_waiting (w_heap (sy_world (cs_sys demo_cs))) 1" "cs_enabled (Cs_notify_all 0) demo_cs"
    by code_simp+
  with condition_waiter_not_lost [OF demo_cs_reachable this(1)] show ?thesis by blast
qed

end
