(* ===== verification/Future_System.thy ===== *)
theory Future_System
  imports Condition_System Shared_State
begin

text \<open>
  Fibers that share mutexes, condition variables and the shared states of futures:
  \<open>Condition_System\<close> extended by the calls of \<^verbatim>\<open>shared_state::get\<close>, \<^verbatim>\<open>wait\<close>,
  \<^verbatim>\<open>set_value\<close>, \<^verbatim>\<open>set_exception\<close> and \<^verbatim>\<open>owner_destroyed\<close>
  (\<^verbatim>\<open>future/detail/shared_state.hpp\<close>). Every shared state has its own mutex and its own condition
  variable. The theory shows that no call fails, whatever the fibers have done before, that nobody
  waits for a result that is there, and that the first result reaches everybody who asks for it.
\<close>

section \<open>States and requests\<close>

text \<open>
  A fiber inside a call sleeps in the line of the mutex or at the condition variable of the state.
\<close>

datatype 'v fu_call = Call_get | Call_wait | Call_set "'v cell_op"

datatype place = At_mutex | At_condition

record ('s, 'v) fu_sys =
  fu_cs :: "'s cv_sys"
  fu_count :: nat
  fu_ss :: "nat \<Rightarrow> 'v shared_state"
  fu_in :: "fid \<Rightarrow> (nat \<times> 'v fu_call \<times> place) option"

datatype 'v fu_request = Fu_cs cv_request | Fu_new | Fu_call nat "'v fu_call" mfid | Fu_resume mfid

text \<open>What the caller sees of a call.\<close>

datatype 'v fu_out = Silent | Blocked | Got "'v result" | Waited "unit result" | Put "unit result"

definition fu_init :: "wqid \<Rightarrow> heap \<Rightarrow> (round_robin, 'v) fu_sys" where
  "fu_init q h = \<lparr>fu_cs = cs_init q h, fu_count = 0, fu_ss = (\<lambda>_. shared_state_ctor), fu_in = (\<lambda>_. None)\<rparr>"

abbreviation fu_mx :: "('s, 'v) fu_sys \<Rightarrow> 's mx_sys" where
  "fu_mx s \<equiv> cs_mx (fu_cs s)"

abbreviation fu_thread :: "('s, 'v) fu_sys \<Rightarrow> 's sys" where
  "fu_thread s \<equiv> ms_sys (fu_mx s)"

definition fu_turn ::
  "('r \<Rightarrow> 'v fu_out) \<Rightarrow> ('r turn \<times> 'v shared_state \<times> world \<times> 's fiber_manager) option \<Rightarrow>
   ('v fu_out turn \<times> 'v shared_state \<times> world \<times> 's fiber_manager) option" where
  "fu_turn g seg = do { (t, ss, w, m) \<leftarrow> seg; Some (map_turn g t, ss, w, m) }"

text \<open>A call from its beginning; a fiber that was woken in the line of the mutex tries that again.\<close>

definition fu_begin ::
  "'v fu_call \<Rightarrow> mfid \<Rightarrow> world \<Rightarrow> 's fiber_manager \<Rightarrow> 'v shared_state \<Rightarrow>
   ('v fu_out turn \<times> 'v shared_state \<times> world \<times> 's fiber_manager) option" where
  "fu_begin c k w m ss =
     (case c of
        Call_get \<Rightarrow> fu_turn Got (shared_state_get k w m ss)
      | Call_wait \<Rightarrow> fu_turn Waited (shared_state_wait k w m ss)
      | Call_set op \<Rightarrow> fu_turn Put
          (case op of
             Set_value v \<Rightarrow> shared_state_set_value (Inr v) k w m ss
           | Set_exception e \<Rightarrow> shared_state_set_exception e k w m ss
           | Abandon \<Rightarrow> shared_state_owner_destroyed k w m ss))"

text \<open>A fiber that was woken at the condition variable.\<close>

definition fu_woken ::
  "'v fu_call \<Rightarrow> mfid \<Rightarrow> world \<Rightarrow> 's fiber_manager \<Rightarrow> 'v shared_state \<Rightarrow>
   ('v fu_out turn \<times> 'v shared_state \<times> world \<times> 's fiber_manager) option" where
  "fu_woken c k w m ss =
     (case c of
        Call_get \<Rightarrow> fu_turn Got (ss_wait_woken ss_result k w m ss)
      | Call_wait \<Rightarrow> fu_turn Waited (ss_wait_woken (\<lambda>s. Some (Inr ())) k w m ss)
      | Call_set op \<Rightarrow> None)"

text \<open>
  The end of a segment: the caller goes on, or control passes to the thread and the caller is
  inside the call. A main context that has to wait turns the scheduler itself.
\<close>

definition fu_settle ::
  "nat \<Rightarrow> 'v fu_call \<Rightarrow> 'v fu_out turn \<times> 'v shared_state \<times> world \<times> 's fiber_manager \<Rightarrow> ('s, 'v) fu_sys \<Rightarrow>
   ('v fu_out \<times> ('s, 'v) fu_sys) option" where
  "fu_settle j c seg s =
     (let (t, ss, w, m) = seg;
          put = (\<lambda>y. s\<lparr>fu_cs := (fu_cs s)\<lparr>cs_mx := (fu_mx s)\<lparr>ms_sys := y\<rparr>\<rparr>, fu_ss := (fu_ss s)(j := ss)\<rparr>);
          stay = put ((fu_thread s)\<lparr>sy_world := w, sy_mgr := m\<rparr>);
          leave = (\<lambda>a p. do {
            y \<leftarrow> sys_leave a In_wait w m (fu_thread s);
            Some (Blocked, (put y)\<lparr>fu_in := (fu_in s)(a := Some (j, c, p))\<rparr>) }) in
      case fm_active (sy_mgr (fu_thread s)) of
        None \<Rightarrow> Some (case t of Done out \<Rightarrow> out | _ \<Rightarrow> Blocked, stay)
      | Some a \<Rightarrow>
          (case t of
             Done out \<Rightarrow> Some (out, stay\<lparr>fu_in := (fu_in s)(a := None)\<rparr>)
           | In_line \<Rightarrow> leave a At_mutex
           | _ \<Rightarrow> leave a At_condition))"

definition fu_exec ::
  "'s sched_algorithm \<Rightarrow> 'v fu_request \<Rightarrow> ('s, 'v) fu_sys \<Rightarrow> ('v fu_out \<times> ('s, 'v) fu_sys) option" where
  "fu_exec A r s =
     (let w = sy_world (fu_thread s); m = sy_mgr (fu_thread s) in
      case r of
        Fu_cs q \<Rightarrow> do { x \<leftarrow> cs_exec A q (fu_cs s); Some (Silent, s\<lparr>fu_cs := x\<rparr>) }
      | Fu_new \<Rightarrow> Some (Silent, s\<lparr>fu_count := fu_count s + 1, fu_ss := (fu_ss s)(fu_count s := shared_state_ctor)\<rparr>)
      | Fu_call j c k \<Rightarrow> do { seg \<leftarrow> fu_begin c k w m (fu_ss s j); fu_settle j c seg s }
      | Fu_resume k \<Rightarrow> do {
          a \<leftarrow> fm_active m;
          (j, c, p) \<leftarrow> fu_in s a;
          seg \<leftarrow> (case p of At_mutex \<Rightarrow> fu_begin c k w m (fu_ss s j) | At_condition \<Rightarrow> fu_woken c k w m (fu_ss s j));
          fu_settle j c seg s })"

text \<open>
  The rules: nobody wakes or interrupts a fiber inside a call but through the shared state, and such
  a fiber, when it runs, goes on in the call. A result may be set by fibers and by the main context.
\<close>

definition fu_free :: "('s, 'v) fu_sys \<Rightarrow> fid option \<Rightarrow> bool" where
  "fu_free s af \<longleftrightarrow> (case af of None \<Rightarrow> True | Some a \<Rightarrow> fu_in s a = None)"

fun fu_sets :: "'v fu_call \<Rightarrow> bool" where
  "fu_sets (Call_set op) = True"
| "fu_sets _ = False"

definition fu_enabled :: "'v fu_request \<Rightarrow> ('s, 'v) fu_sys \<Rightarrow> bool" where
  "fu_enabled r s \<longleftrightarrow>
     (let active = fm_active (sy_mgr (fu_thread s)); h = w_heap (sy_world (fu_thread s)) in
      case r of
        Fu_cs q \<Rightarrow> cs_enabled q (fu_cs s) \<and> fu_free s active \<and> fu_free s (cs_target q)
      | Fu_new \<Rightarrow> True
      | Fu_call j c k \<Rightarrow> j < fu_count s \<and>
          (case active of None \<Rightarrow> fu_sets c
           | Some a \<Rightarrow> fu_in s a = None \<and> cs_in (fu_cs s) a = None \<and> ms_in (fu_mx s) a = None \<and>
               (\<not> fu_sets c \<longrightarrow> \<not> interruption_requested (h a)))
      | Fu_resume k \<Rightarrow>
          (case active of None \<Rightarrow> False | Some a \<Rightarrow> fu_in s a \<noteq> None \<and> \<not> interruption_requested (h a)))"

inductive fu_reachable :: "'s sched_algorithm \<Rightarrow> ('s, 'v) fu_sys \<Rightarrow> ('s, 'v) fu_sys \<Rightarrow> bool" for A s0 where
  start: "fu_reachable A s0 s0"
| step: "fu_reachable A s0 s \<Longrightarrow> fu_enabled r s \<Longrightarrow> fu_exec A r s = Some (out, s') \<Longrightarrow> fu_reachable A s0 s'"

section \<open>The invariant\<close>

text \<open>The fibers inside calls, as \<open>Condition_System\<close> sees the fibers at its conditions.\<close>

definition fu_line :: "('s, 'v) fu_sys \<Rightarrow> fid \<Rightarrow> (nat \<times> nat) option" where
  "fu_line s f = map_option (\<lambda>(j, c, p). (j, 0)) (fu_in s f)"

text \<open>
  Nobody holds the mutex of a shared state between two steps. Before there is a result exactly the
  fibers inside calls are in the line of the condition variable, and sleep; afterwards the line is
  empty.
\<close>

definition fu_one :: "'s sys \<Rightarrow> (fid \<Rightarrow> (nat \<times> nat) option) \<Rightarrow> nat \<Rightarrow> 'v shared_state \<Rightarrow> bool" where
  "fu_one y inl j ss \<longleftrightarrow> cv_one y inl j (ss_waiters ss) \<and>
     (\<exists>c fs. ss_rep ss_result ss c fs \<and> (c \<noteq> None \<longrightarrow> fs = []) \<and>
        (c = None \<longrightarrow> (\<forall>f. (\<exists>i. inl f = Some (j, i)) \<longrightarrow> f \<in> set fs)))"

definition fu_inv :: "(heap \<Rightarrow> 's \<Rightarrow> fid list \<Rightarrow> bool) \<Rightarrow> ('s, 'v) fu_sys \<Rightarrow> bool" where
  "fu_inv rq s \<longleftrightarrow> cs_inv rq (fu_cs s) \<and> (\<forall>j. fu_one (fu_thread s) (fu_line s) j (fu_ss s j)) \<and>
     (\<forall>j \<ge> fu_count s. fu_ss s j = shared_state_ctor) \<and>
     (\<forall>f j c p. fu_in s f = Some (j, c, p) \<longrightarrow>
        cs_in (fu_cs s) f = None \<and> ms_in (fu_mx s) f = None \<and> p = At_condition \<and> \<not> fu_sets c)"

lemma fu_invD:
  assumes "fu_inv rq s"
  shows "cs_inv rq (fu_cs s)" "mx_inv rq (fu_mx s)" "sys_inv rq (fu_thread s)" "fu_one (fu_thread s) (fu_line s) j (fu_ss s j)"
    "fu_count s \<le> j \<Longrightarrow> fu_ss s j = shared_state_ctor"
    "fu_in s f = Some (j, c, p) \<Longrightarrow> cs_in (fu_cs s) f = None \<and> ms_in (fu_mx s) f = None \<and> p = At_condition \<and> \<not> fu_sets c"
  using assms unfolding fu_inv_def cs_inv_def mx_inv_def by blast+

lemma fu_line_eq: "fu_line s f = Some (j, i) \<longleftrightarrow> i = 0 \<and> (\<exists>c p. fu_in s f = Some (j, c, p))"
  "fu_line s f = None \<longleftrightarrow> fu_in s f = None"
  by (auto simp: fu_line_def)

lemma fu_init_inv: "fu_inv fifo_rep (fu_init q h :: (round_robin, 'v) fu_sys)"
proof -
  have "fu_one y (\<lambda>f. None) j (shared_state_ctor :: 'v shared_state)" for y :: "round_robin sys" and j
    using ss_ctor_rep by (auto simp: fu_one_def cv_one_def shared_state_ctor_def condition_init_def spinlock_init_def)
  moreover have "fu_line (fu_init q h :: (round_robin, 'v) fu_sys) = (\<lambda>f. None)"
    by (rule ext) (simp add: fu_line_def fu_init_def)
  ultimately show ?thesis using cs_init_inv [of q h] by (simp add: fu_inv_def) (simp add: fu_init_def)
qed

lemma fu_one_line:
  assumes O: "fu_one y inl j ss" and cv: "cv_one y' inl' j (ss_waiters ss)"
    and sub: "\<And>f i. inl' f = Some (j, i) \<Longrightarrow> inl f = Some (j, i)"
  shows "fu_one y' inl' j ss"
  using O cv unfolding fu_one_def by (metis sub)

lemma fu_one_calm: "fu_one y inl j ss \<Longrightarrow> cs_calm y y' inl \<Longrightarrow> fu_one y' inl j ss"
  by (rule fu_one_line) (auto intro: cv_one_calm simp: fu_one_def)

lemma fu_one_waiting:
  assumes "fu_one y inl j ss" and "\<not> ss_ready ss"
  obtains fs where "ss_rep ss_result ss None fs" "cv_one y inl j (ss_waiters ss)" "cv_waiting (ss_waiters ss) = map Worker fs"
    "\<And>f i. inl f = Some (j, i) \<Longrightarrow> f \<in> set fs"
proof -
  obtain fs where fs: "ss_rep ss_result ss None fs" "\<And>f i. inl f = Some (j, i) \<Longrightarrow> f \<in> set fs"
    using assms ss_repD(3) unfolding fu_one_def by (metis (full_types))
  with assms(1) ss_repD(2) [OF fs(1)] that show thesis by (auto simp: fu_one_def condition_sleepers_def)
qed

lemma fu_one_ready:
  assumes "fu_one y inl j ss" and "ss_ready ss"
  obtains r where "ss_rep ss_result ss (Some r) []" "cv_one y inl j (ss_waiters ss)" "cv_waiting (ss_waiters ss) = []"
proof -
  obtain r where r: "ss_rep ss_result ss (Some r) []"
    using assms ss_repD(3) unfolding fu_one_def by (metis not_None_eq)
  with assms(1) ss_repD(2) [OF r] that show thesis by (auto simp: fu_one_def condition_sleepers_def)
qed

lemma fu_oneI:
  "cv_one y inl j (ss_waiters ss) \<Longrightarrow> ss_rep ss_result ss None fs \<Longrightarrow> (\<And>f i. inl f = Some (j, i) \<Longrightarrow> f \<in> set fs) \<Longrightarrow> fu_one y inl j ss"
  "cv_one y inl j (ss_waiters ss) \<Longrightarrow> ss_rep ss_result ss (Some r) [] \<Longrightarrow> fu_one y inl j ss"
  unfolding fu_one_def by blast+

text \<open>A fiber that sleeps now has joined the line of the shared state \<open>j\<close>.\<close>

lemma fu_one_entered:
  assumes O: "\<And>i. fu_one y inl i (ssf i)" and rep: "ss_rep ss_result (ssf j) None fs" "\<And>f i. inl f = Some (j, i) \<Longrightarrow> f \<in> set fs"
    and a: "inl a = None" "asleep y a" "a \<notin> set fs"
  defines "ss \<equiv> (ssf j)\<lparr>ss_waiters := (ss_waiters (ssf j))\<lparr>cv_waiting := map Worker (fs @ [a])\<rparr>\<rparr>"
  shows "fu_one y (inl(a := Some (j, 0))) i ((ssf(j := ss)) i)"
proof -
  have cv: "cv_one y inl i (ss_waiters (ssf i))" for i using O by (simp add: fu_one_def)
  have line: "cv_waiting (ss_waiters (ssf j)) = map Worker fs"
    using ss_repD(2) [OF rep(1)] by (simp add: condition_sleepers_def)
  note ent = cv_one_entered [of y inl "\<lambda>i. ss_waiters (ssf i)" a j 0 i, OF cv a(1,2)]
  show ?thesis
  proof (cases "i = j")
    case True
    have "cv_one y (inl(a := Some (j, 0))) j (ss_waiters ss)" using ent True a(3) by (auto simp: ss_def line)
    moreover have "ss_rep ss_result ss None (fs @ [a])" using rep(1) by (simp add: ss_rep_def ss_def condition_sleepers_def)
    ultimately show ?thesis using True rep(2) by (auto intro!: fu_oneI(1) split: if_splits)
  next
    case False
    have "cv_one y (inl(a := Some (j, 0))) i (ss_waiters (ssf i))" using ent False a(3) by (auto simp: line)
    from fu_one_line [OF O [of i] this] have "fu_one y (inl(a := Some (j, 0))) i (ssf i)"
      using False by (metis fun_upd_apply option.inject prod.inject)
    with False show ?thesis by simp
  qed
qed

text \<open>The shared state \<open>j\<close> has got a result and the fibers in its line have been woken.\<close>

lemma fu_one_notified:
  fixes op :: "'v cell_op"
  assumes O: "\<And>i. fu_one y inl i (ssf i)" and rep: "ss_rep ss_result (ssf j) None fs"
    and mgr: "sy_mgr y' = sy_mgr y" and up: "\<forall>f \<in> set fs. roused y' f"
    and keep: "\<forall>g. g \<notin> set fs \<longrightarrow> (asleep y g \<longrightarrow> asleep y' g) \<and> (roused y g \<longrightarrow> roused y' g)"
  defines "ss \<equiv> (ss_store op (ssf j))\<lparr>ss_ready := True, ss_waiters := condition_init\<rparr>"
  shows "fu_one y' inl i ((ssf(j := ss)) i)"
proof (cases "i = j")
  case True
  note R = ss_repD [OF rep]
  have cv: "cv_splk (ss_waiters (ssf j)) = UNLOCKED" "cv_waiting (ss_waiters (ssf j)) = map Worker fs @ []"
    using R(2) by (simp_all add: condition_sleepers_def)
  have one: "cv_one y inl j (ss_waiters (ssf j))" using O by (simp add: fu_one_def)
  have "(ss_waiters (ssf j))\<lparr>cv_waiting := []\<rparr> = condition_init"
    using cv(1) by (cases "ss_waiters (ssf j)") (simp add: condition_init_def spinlock_init_def)
  with cv_one_notified [OF one cv(2) mgr up keep] have "cv_one y' inl j (ss_waiters ss)" by (simp add: ss_def)
  moreover have "ss_mtx ss = mutex_init" using R(1) by (cases op) (simp_all add: ss_def)
  then have "ss_rep ss_result ss (Some (cell_outcome op)) []"
    using ssr.store_res [of "ssf j" op] R(5)
    by (simp add: ss_rep_def ss_def condition_sleepers_def condition_init_def spinlock_init_def)
  ultimately show ?thesis using True fu_oneI(2) by simp
next
  case False
  have "f \<notin> set fs" if "inl f = Some (i, l)" for f l
  proof
    assume "f \<in> set fs"
    then have "Worker f \<in> set (cv_waiting (ss_waiters (ssf j)))"
      using ss_repD(2) [OF rep] by (simp add: condition_sleepers_def)
    with O [of j] that False show False by (auto simp: fu_one_def cv_one_def)
  qed
  with cv_one_others_notified [OF _ mgr _ keep] O [of i] False show ?thesis unfolding fu_one_def by (metis fun_upd_other)
qed

text \<open>Results that are there stay.\<close>

definition fu_keeps :: "('s, 'v) fu_sys \<Rightarrow> ('s, 'v) fu_sys \<Rightarrow> bool" where
  "fu_keeps s s' \<longleftrightarrow> (\<forall>j. ss_ready (fu_ss s j) \<longrightarrow> fu_ss s' j = fu_ss s j)"

section \<open>Each request\<close>

lemma fu_one_world:
  "w_heap w' = w_heap (sy_world y) \<Longrightarrow> fu_one (y\<lparr>sy_world := w'\<rparr>) inl j ss = fu_one y inl j ss"
  using places_world [of w' y] by (simp add: fu_one_def cv_one_def)

text \<open>What a call does to a shared state nobody has locked.\<close>

lemma fu_begin_set: "fu_begin (Call_set op) k w m ss = fu_turn Put (ss_guarded (ss_op op) k w m ss)"
  by (cases op) (simp_all add: fu_begin_def shared_state_set_value_def shared_state_set_exception_def
      shared_state_owner_destroyed_def)

lemma ss_wait_done:
  assumes "ss_mtx ss = mutex_init" and "ss_ready ss" and "\<And>mx. fin (ss\<lparr>ss_mtx := mx\<rparr>) = Some r"
  shows "ss_wait_lock fin k w m ss = Some (Done r, ss, ctx_locked_world k m w, m)"
proof -
  have "ss\<lparr>ss_mtx := mutex_init\<rparr> = ss" using assms(1) by (cases ss) simp
  with assms show ?thesis by (simp add: ss_wait_lock_def ctx_lock_free ss_wait_round_def ss_unlock_def ctx_unlock)
qed

definition fu_answer :: "'v fu_call \<Rightarrow> 'v result \<Rightarrow> 'v fu_out" where
  "fu_answer c r = (case c of Call_get \<Rightarrow> Got r | Call_wait \<Rightarrow> Waited (Inr ()) | Call_set op \<Rightarrow> Put (cell_late op))"

lemma fu_begin_ready:
  assumes "ss_rep ss_result ss (Some r) fs"
  shows "fu_begin c k w m ss = Some (Done (fu_answer c r), ss, ctx_locked_world k m w, m)"
proof -
  note R = ss_repD [OF assms]
  have res: "ss_result (ss\<lparr>ss_mtx := mx\<rparr>) = Some r" for mx using R(4) by simp
  show ?thesis
  proof (cases c)
    case Call_get
    with R(3) show ?thesis
      by (simp add: ss_wait_done [of ss ss_result r, OF R(1) _ res] fu_begin_def shared_state_get_def fu_turn_def fu_answer_def)
  next
    case Call_wait
    with R(3) show ?thesis
      by (simp add: ss_wait_done [of ss "\<lambda>s. Some (Inr ())" "Inr ()", OF R(1)] fu_begin_def shared_state_wait_def fu_turn_def fu_answer_def)
  next
    case (Call_set op)
    then show ?thesis by (simp add: ssr.set_again [OF assms] fu_begin_set fu_turn_def fu_answer_def)
  qed
qed

lemma fu_woken_again:
  assumes "fm_active m = Some a" and "\<not> interruption_requested (w_heap w a)" and "\<not> fu_sets c"
  shows "fu_woken c k w m ss = fu_begin c k w m ss"
  using assms(3)
  by (cases c) (simp_all add: ss_wait_woken_again [OF assms(1,2)] fu_woken_def fu_begin_def shared_state_get_def shared_state_wait_def)

lemma ss_mtx_eqs:
  "ss_mtx ss = mx \<Longrightarrow> ss\<lparr>ss_mtx := mx, ss_waiters := cv\<rparr> = ss\<lparr>ss_waiters := cv\<rparr>"
  "ss_mtx ss = mx \<Longrightarrow> ss\<lparr>ss_ready := b, ss_waiters := cv, ss_mtx := mx\<rparr> = ss\<lparr>ss_ready := b, ss_waiters := cv\<rparr>"
  "ss\<lparr>ss_mtx := mx, ss_ready := b, ss_waiters := cv\<rparr> = ss\<lparr>ss_ready := b, ss_waiters := cv, ss_mtx := mx\<rparr>"
  by (cases ss; simp)+

lemma ss_wait_asleep:
  assumes "ss_rep ss_result ss None fs" and "fm_active m = Some a" and "a \<notin> set fs"
    and "fm_wait_enter LOCKED w m = Some (UNLOCKED, w', m)"
  shows "ss_wait_lock fin k w m ss =
     Some (Asleep, ss\<lparr>ss_waiters := (ss_waiters ss)\<lparr>cv_waiting := map Worker (fs @ [a])\<rparr>\<rparr>, w', m)"
proof -
  note R = ss_repD [OF assms(1)]
  have "Worker a \<notin> Worker ` set fs" using assms(3) by auto
  with R(1-3) assms(2,4) show ?thesis
    by (simp add: ss_wait_lock_def ctx_lock_free ss_wait_round_def ctx_wait_enter_def condition_wait_enter_def
        ctx_unlock cv_splk_eq condition_sleepers_def ss_mtx_eqs(1))
qed

lemma ss_set_notifies:
  assumes "ss_rep ss_result ss None fs" and "fb_set_ready_all (map Worker fs) (ctx_locked_world k m w) = Some w'"
  shows "ss_guarded (ss_op op) k w m ss =
     Some (Done (Inr ()), (ss_store op ss)\<lparr>ss_ready := True, ss_waiters := condition_init\<rparr>, w', m)"
proof -
  note R = ss_repD [OF assms(1)]
  let ?s = "ss_store op ss" and ?mx = "mutex_taken (this_get_id m)"
  have cv: "cv_splk (ss_waiters ss) = UNLOCKED" "cv_waiting (ss_waiters ss) = map Worker fs"
    using R(2) by (simp_all add: condition_sleepers_def)
  have new: "(ss_waiters ss)\<lparr>cv_waiting := [], cv_splk := UNLOCKED\<rparr> = condition_init"
    by (cases "ss_waiters ss") (simp add: condition_init_def spinlock_init_def)
  have "mark_ready_and_notify (?s\<lparr>ss_mtx := ?mx\<rparr>) (ctx_locked_world k m w) =
      Some (?s\<lparr>ss_ready := True, ss_waiters := condition_init, ss_mtx := ?mx\<rparr>, w')"
    using assms(2) cv
    by (simp add: mark_ready_and_notify_def ssr.store_waiters condition_notify_all_def new ss_mtx_eqs(3))
  then have "ss_guarded (ss_op op) k w m ss = Some (Done (Inr ()),
      ?s\<lparr>ss_ready := True, ss_waiters := condition_init, ss_mtx := mutex_init\<rparr>, w', m)"
    using R(3) by (intro ss_guarded_free [OF R(1)]) (simp add: ssr.opf_conv ssr.store_mtx)
  moreover have "ss_mtx ?s = mutex_init" using R(1) by (cases op) simp_all
  ultimately show ?thesis by (simp add: ss_mtx_eqs(2))
qed

context sched_contract
begin

text \<open>Requests that do not concern the shared states.\<close>

lemma fu_cs_ok:
  assumes I: "fu_inv rq s" and en: "fu_enabled (Fu_cs q) s"
  shows "\<exists>s'. fu_exec A (Fu_cs q) s = Some (Silent, s') \<and> fu_inv rq s' \<and> fu_keeps s s'"
proof -
  note D = fu_invD [OF I]
  have en': "cs_enabled q (fu_cs s)" "fu_free s (fm_active (sy_mgr (fu_thread s)))" "fu_free s (cs_target q)"
    using en by (simp_all add: fu_enabled_def Let_def)
  from cs_exec_ok [OF D(1) en'(1)] obtain x where x: "cs_exec A q (fu_cs s) = Some x" "cs_inv rq x" by blast
  have "ms_in (fu_mx s) f = None \<and> cs_in (fu_cs s) f = None \<and> fm_active (sy_mgr (fu_thread s)) \<noteq> Some f \<and> cs_target q \<noteq> Some f"
    if "fu_line s f \<noteq> None" for f
    using that D(6) [of f] en'(2,3) by (auto simp: fu_line_eq fu_free_def)
  from cs_exec_calm [OF D(1) en'(1) x(1) this]
  have calm: "cs_calm (fu_thread s) (cs_sys x) (fu_line s)"
    "\<And>f. fu_line s f \<noteq> None \<Longrightarrow> ms_in (cs_mx x) f = None \<and> cs_in x f = None" by auto
  have line: "fu_line (s\<lparr>fu_cs := x\<rparr>) = fu_line s" by (rule ext) (simp add: fu_line_def)
  have "fu_inv rq (s\<lparr>fu_cs := x\<rparr>)"
    unfolding fu_inv_def line using x(2) fu_one_calm [OF D(4) calm(1)] D(5,6) calm(2) by (auto simp: fu_line_eq)
  with x(1) show ?thesis by (auto simp: fu_exec_def fu_keeps_def)
qed

text \<open>The caller finds the answer there.\<close>

lemma fu_done_ok:
  assumes I: "fu_inv rq s" and w: "w_heap w = w_heap (sy_world (fu_thread s))" "w_wqs w = w_wqs (sy_world (fu_thread s))"
    and act: "fm_active (sy_mgr (fu_thread s)) = af" "\<And>a. af = Some a \<Longrightarrow> fu_in s a = None \<or> fu_in s a = Some (j, c, p)"
  shows "\<exists>s'. fu_settle j c (Done out, fu_ss s j, w, sy_mgr (fu_thread s)) s = Some (out, s') \<and> fu_inv rq s' \<and> fu_keeps s s' \<and>
     (\<forall>a. af = Some a \<longrightarrow> fu_in s' a = None)"
proof -
  note D = fu_invD [OF I]
  define s1 where "s1 = s\<lparr>fu_cs := (fu_cs s)\<lparr>cs_mx := (fu_mx s)\<lparr>ms_sys := (fu_thread s)\<lparr>sy_world := w\<rparr>\<rparr>\<rparr>\<rparr>"
  have line: "fu_line s1 = fu_line s" by (rule ext) (simp add: fu_line_def s1_def)
  have I1: "fu_inv rq s1"
    unfolding fu_inv_def line using D(1,4-6) by (auto simp: s1_def cs_inv_world [OF w] fu_one_world [OF w(1)])
  show ?thesis
  proof (cases af)
    case None
    then show ?thesis using act(1) I1 by (simp add: fu_settle_def s1_def fu_keeps_def)
  next
    case (Some a)
    define s2 where "s2 = s1\<lparr>fu_in := (fu_in s)(a := None)\<rparr>"
    have "\<not> asleep (fu_thread s) a" using active_facts(2) [OF D(3), of a] act(1) Some by auto
    have line2: "fu_line s2 = (fu_line s)(a := None)" by (rule ext) (simp add: fu_line_def s2_def s1_def)
    have one: "fu_one (fu_thread s2) (fu_line s2) i (fu_ss s2 i)" for i
    proof -
      from D(4) [of i] have O: "fu_one (fu_thread s2) (fu_line s) i (fu_ss s2 i)"
        by (simp add: s1_def s2_def fu_one_world [OF w(1)])
      have na: "\<not> asleep (fu_thread s2) a" using \<open>\<not> asleep (fu_thread s) a\<close> places_world [OF w(1)] by (simp add: s1_def s2_def)
      from O cv_one_left [OF _ na] show ?thesis unfolding fu_one_def line2 by (metis fun_upd_apply option.distinct(1))
    qed
    have "fu_inv rq s2" unfolding fu_inv_def
      using one I1 by (auto simp: s2_def fu_inv_def s1_def)
    with Some act(1) show ?thesis
      by (intro exI [of _ s2]) (simp add: fu_settle_def s1_def s2_def fu_keeps_def)
  qed
qed

text \<open>The caller of \<^verbatim>\<open>get\<close> or \<^verbatim>\<open>wait\<close> finds no result and goes to sleep.\<close>

lemma fu_sleep_ok:
  assumes I: "fu_inv rq s" and en: "fu_enabled (Fu_call j c k) s" and nc: "\<not> fu_sets c" and new: "\<not> ss_ready (fu_ss s j)"
  shows "\<exists>s'. fu_exec A (Fu_call j c k) s = Some (Blocked, s') \<and> fu_inv rq s' \<and> fu_keeps s s'"
proof -
  note D = fu_invD [OF I]
  let ?y = "fu_thread s"
  obtain a where a: "fm_active (sy_mgr ?y) = Some a" "\<not> interruption_requested (w_heap (sy_world ?y) a)"
    "fu_in s a = None" "cs_in (fu_cs s) a = None" "ms_in (fu_mx s) a = None" and j: "j < fu_count s"
    using en nc by (auto simp: fu_enabled_def Let_def split: option.splits)
  obtain fs where rep: "ss_rep ss_result (fu_ss s j) None fs" and cv: "cv_one ?y (fu_line s) j (ss_waiters (fu_ss s j))"
    and wait: "cv_waiting (ss_waiters (fu_ss s j)) = map Worker fs" and all: "\<And>f i. fu_line s f = Some (j, i) \<Longrightarrow> f \<in> set fs"
    using fu_one_waiting [OF D(4) new] by metis
  have afs: "a \<notin> set fs" using cv active_facts(2) [OF D(3) a(1)] wait by (auto simp: cv_one_def)
  have "ms_in (fu_mx s) f = None \<and> cs_in (fu_cs s) f = None \<and> f \<noteq> a" if "fu_line s f \<noteq> None" for f
    using that D(6) [of f] a(1,3) by (auto simp: fu_line_eq)
  from sleep_part [OF D(1) a(1,2,4,5) this] obtain w y where w:
    "fm_wait_enter LOCKED (sy_world ?y) (sy_mgr ?y) = Some (UNLOCKED, w, sy_mgr ?y)"
    "sys_leave a In_wait w (sy_mgr ?y) ?y = Some y" "asleep y a"
    "cs_inv rq ((fu_cs s)\<lparr>cs_mx := (fu_mx s)\<lparr>ms_sys := y\<rparr>\<rparr>)" and calm: "cs_calm ?y y (fu_line s)" by blast
  define x where "x = (fu_cs s)\<lparr>cs_mx := (fu_mx s)\<lparr>ms_sys := y\<rparr>\<rparr>"
  define ss where "ss = (fu_ss s j)\<lparr>ss_waiters := (ss_waiters (fu_ss s j))\<lparr>cv_waiting := map Worker (fs @ [a])\<rparr>\<rparr>"
  define s' where "s' = s\<lparr>fu_cs := x, fu_ss := (fu_ss s)(j := ss), fu_in := (fu_in s)(a := Some (j, c, At_condition))\<rparr>"
  note seg = ss_wait_asleep [OF rep a(1) afs w(1)]
  have "fu_begin c k (sy_world ?y) (sy_mgr ?y) (fu_ss s j) = Some (Asleep, ss, w, sy_mgr ?y)"
    using nc by (cases c) (simp_all add: fu_begin_def shared_state_get_def shared_state_wait_def fu_turn_def seg ss_def)
  then have ex: "fu_exec A (Fu_call j c k) s = Some (Blocked, s')"
    using a(1) w(2) by (simp add: fu_exec_def fu_settle_def s'_def x_def)
  have line: "fu_line s' = (fu_line s)(a := Some (j, 0))" by (rule ext) (simp add: fu_line_def s'_def)
  have "fu_one y (fu_line s') i (fu_ss s' i)" for i
    using fu_one_entered [of y "fu_line s" "fu_ss s", OF fu_one_calm [OF D(4) calm] rep all _ w(3) afs] a(3)
    unfolding line by (simp add: fu_line_eq s'_def ss_def)
  moreover have "fu_ss s' i = shared_state_ctor" if "fu_count s' \<le> i" for i using that j D(5) by (simp add: s'_def)
  ultimately have "fu_inv rq s'"
    unfolding fu_inv_def using w(4) D(6) a(4,5) nc by (auto simp: s'_def x_def)
  with ex new show ?thesis by (auto simp: fu_keeps_def s'_def)
qed

text \<open>The first result wakes everybody who waits.\<close>

lemma fu_set_ok:
  assumes I: "fu_inv rq s" and en: "fu_enabled (Fu_call j (Call_set op) k) s" and new: "\<not> ss_ready (fu_ss s j)"
  shows "\<exists>s'. fu_exec A (Fu_call j (Call_set op) k) s = Some (Put (Inr ()), s') \<and> fu_inv rq s' \<and> fu_keeps s s' \<and>
     ss_rep ss_result (fu_ss s' j) (Some (cell_outcome op)) []"
proof -
  note D = fu_invD [OF I]
  let ?y = "fu_thread s" and ?m = "sy_mgr (fu_thread s)"
  let ?w = "ctx_locked_world k ?m (sy_world ?y)" and ?x = "fu_mx s"
  have en': "j < fu_count s" "\<And>a. fm_active ?m = Some a \<Longrightarrow> fu_in s a = None \<and> ms_in ?x a = None"
    using en by (auto simp: fu_enabled_def Let_def split: option.splits)
  obtain fs where rep: "ss_rep ss_result (fu_ss s j) None fs" and cv: "cv_one ?y (fu_line s) j (ss_waiters (fu_ss s j))"
    and wait: "cv_waiting (ss_waiters (fu_ss s j)) = map Worker fs"
    using fu_one_waiting [OF D(4) new] by metis
  have fs: "asleep ?y f" "fu_in s f \<noteq> None" "ms_in ?x f = None" "cs_in (fu_cs s) f = None" if "f \<in> set fs" for f
  proof -
    from cv wait that have *: "asleep ?y f" "\<exists>i. fu_line s f = Some (j, i)" by (auto simp: cv_one_def)
    then show "asleep ?y f" "fu_in s f \<noteq> None" "ms_in ?x f = None" "cs_in (fu_cs s) f = None"
      using D(6) [of f] by (auto simp: fu_line_eq)
  qed
  from notify_part [OF D(1), of fs ?w] fs en'(2) obtain w' y where w: "fb_set_ready_all (map Worker fs) ?w = Some w'"
    "y = ?y\<lparr>sy_world := w'\<rparr>" "cs_inv rq ((fu_cs s)\<lparr>cs_mx := ?x\<lparr>ms_sys := y\<rparr>\<rparr>)" "\<forall>f \<in> set fs. roused y f"
    "\<forall>g. g \<notin> set fs \<longrightarrow> (asleep ?y g \<longrightarrow> asleep y g) \<and> (roused ?y g \<longrightarrow> roused y g)" by auto
  have mgr: "sy_mgr y = ?m" by (simp add: w(2))
  define ss where "ss = (ss_store op (fu_ss s j))\<lparr>ss_ready := True, ss_waiters := condition_init\<rparr>"
  define s' where "s' = s\<lparr>fu_cs := (fu_cs s)\<lparr>cs_mx := ?x\<lparr>ms_sys := y\<rparr>\<rparr>, fu_ss := (fu_ss s)(j := ss)\<rparr>"
  have line: "fu_line s' = fu_line s" by (rule ext) (simp add: fu_line_def s'_def)
  have ex: "fu_exec A (Fu_call j (Call_set op) k) s = Some (Put (Inr ()), s')"
  proof (cases "fm_active ?m")
    case None
    then show ?thesis using ss_set_notifies [OF rep w(1)]
      by (simp add: fu_exec_def fu_begin_set fu_turn_def fu_settle_def s'_def ss_def w(2))
  next
    case (Some a)
    then have "(fu_in s)(a := None) = fu_in s" using en'(2) by (simp add: fun_upd_idem)
    with Some show ?thesis using ss_set_notifies [OF rep w(1)]
      by (simp add: fu_exec_def fu_begin_set fu_turn_def fu_settle_def s'_def ss_def w(2))
  qed
  have one: "fu_one y (fu_line s') i (fu_ss s' i)" for i
    using fu_one_notified [OF D(4) rep mgr w(4,5), of i op] unfolding line by (simp add: s'_def ss_def)
  have "fu_ss s' i = shared_state_ctor" if "fu_count s' \<le> i" for i using that en'(1) D(5) by (simp add: s'_def)
  with one w(3) D(6) have "fu_inv rq s'" unfolding fu_inv_def by (auto simp: s'_def w(2))
  moreover have "ss_ready ss" "ss_result ss = Some (cell_outcome op)"
    using ssr.store_res [of "fu_ss s j" op] ss_repD(5) [OF rep] by (simp_all add: ss_def)
  then have "ss_rep ss_result ss (Some (cell_outcome op)) []"
    using fu_one_ready [OF one [of j]] by (auto simp: s'_def ss_rep_def)
  ultimately show ?thesis using ex new by (auto simp: fu_keeps_def s'_def)
qed

text \<open>All requests together.\<close>

lemma fu_call_ready_ok:
  assumes I: "fu_inv rq s" and en: "fu_enabled (Fu_call j c k) s" and r: "ss_rep ss_result (fu_ss s j) (Some r) []"
  shows "\<exists>s'. fu_exec A (Fu_call j c k) s = Some (fu_answer c r, s') \<and> fu_inv rq s' \<and> fu_keeps s s'"
proof -
  let ?y = "fu_thread s"
  have "\<exists>s'. fu_settle j c (Done (fu_answer c r), fu_ss s j, ctx_locked_world k (sy_mgr ?y) (sy_world ?y), sy_mgr ?y) s =
      Some (fu_answer c r, s') \<and> fu_inv rq s' \<and> fu_keeps s s' \<and> (\<forall>a. fm_active (sy_mgr ?y) = Some a \<longrightarrow> fu_in s' a = None)"
    by (rule fu_done_ok [OF I _ _ refl]) (use en in \<open>auto simp: fu_enabled_def Let_def\<close>)
  then show ?thesis by (auto simp: fu_exec_def fu_begin_ready [OF r])
qed

lemma fu_resume_ok:
  assumes I: "fu_inv rq s" and en: "fu_enabled (Fu_resume k) s"
  shows "\<exists>a j c r s'. fm_active (sy_mgr (fu_thread s)) = Some a \<and> fu_in s a = Some (j, c, At_condition) \<and>
     ss_rep ss_result (fu_ss s j) (Some r) [] \<and> fu_exec A (Fu_resume k) s = Some (fu_answer c r, s') \<and>
     fu_inv rq s' \<and> fu_keeps s s' \<and> fu_in s' a = None"
proof -
  note D = fu_invD [OF I]
  let ?y = "fu_thread s"
  obtain a j c p where a: "fm_active (sy_mgr ?y) = Some a" "\<not> interruption_requested (w_heap (sy_world ?y) a)" "fu_in s a = Some (j, c, p)"
    using en by (auto simp: fu_enabled_def Let_def split: option.splits)
  note p = D(6) [OF a(3)]
  have "ss_ready (fu_ss s j)"
  proof (rule ccontr)
    assume "\<not> ss_ready (fu_ss s j)"
    from fu_one_waiting [OF D(4) this] obtain fs where "cv_one ?y (fu_line s) j (ss_waiters (fu_ss s j))"
      "cv_waiting (ss_waiters (fu_ss s j)) = map Worker fs" "\<And>f i. fu_line s f = Some (j, i) \<Longrightarrow> f \<in> set fs" by metis
    with a(3) have "asleep ?y a" by (auto simp: cv_one_def fu_line_eq)
    with active_facts(2) [OF D(3) a(1)] show False by simp
  qed
  with fu_one_ready [OF D(4)] obtain r where r: "ss_rep ss_result (fu_ss s j) (Some r) []" by metis
  have "\<exists>s'. fu_settle j c (Done (fu_answer c r), fu_ss s j, ctx_locked_world k (sy_mgr ?y) (sy_world ?y), sy_mgr ?y) s =
      Some (fu_answer c r, s') \<and> fu_inv rq s' \<and> fu_keeps s s' \<and> (\<forall>b. fm_active (sy_mgr ?y) = Some b \<longrightarrow> fu_in s' b = None)"
    by (rule fu_done_ok [OF I _ _ refl]) (use a in auto)
  with a p r show ?thesis
    by (auto simp: fu_exec_def fu_woken_again [OF a(1,2)] fu_begin_ready [OF r])
qed

lemma fu_exec_ok:
  assumes I: "fu_inv rq s" and en: "fu_enabled r s"
  shows "\<exists>out s'. fu_exec A r s = Some (out, s') \<and> fu_inv rq s' \<and> fu_keeps s s'"
proof (cases r)
  case (Fu_cs q)
  with fu_cs_ok [OF I] en show ?thesis by blast
next
  case Fu_new
  note D = fu_invD [OF I]
  have "(fu_ss s)(fu_count s := shared_state_ctor) = fu_ss s" using D(5) by (simp add: fun_upd_idem)
  moreover have "fu_line (s\<lparr>fu_count := n\<rparr>) = fu_line s" for n by (rule ext) (simp add: fu_line_def)
  ultimately show ?thesis using I Fu_new by (simp add: fu_exec_def fu_inv_def fu_keeps_def)
next
  case (Fu_call j c k)
  show ?thesis
  proof (cases "ss_ready (fu_ss s j)")
    case True
    with fu_one_ready [OF fu_invD(4) [OF I]] obtain r where "ss_rep ss_result (fu_ss s j) (Some r) []" by metis
    with fu_call_ready_ok [OF I] en Fu_call show ?thesis by blast
  next
    case False
    with fu_sleep_ok [OF I] fu_set_ok [OF I] en Fu_call show ?thesis by (cases c) (fastforce+)
  qed
next
  case (Fu_resume k)
  with fu_resume_ok [OF I] en show ?thesis by blast
qed

lemma fu_reachable_inv:
  assumes "fu_reachable A s0 s" and "fu_inv rq s0"
  shows "fu_inv rq s \<and> fu_keeps s0 s"
  using assms
proof (induction rule: fu_reachable.induct)
  case start
  then show ?case by (simp add: fu_keeps_def)
next
  case (step s r out s')
  with fu_exec_ok [of s r] show ?case by (auto simp: fu_keeps_def)
qed

end

section \<open>Properties\<close>

lemma fu_rr_inv: "fu_reachable round_robin_algo (fu_init q h) s \<Longrightarrow> fu_inv fifo_rep s"
  using rr.fu_reachable_inv fu_init_inv by blast

lemma fu_in_ready:
  assumes I: "fu_inv rq s" and f: "fu_in s f = Some (j, c, p)" and rd: "ss_ready (fu_ss s j)"
  shows "is_ready (w_heap (sy_world (fu_thread s))) f \<or> fm_active (sy_mgr (fu_thread s)) = Some f"
proof -
  have "fu_line s f = Some (j, 0)" using f by (simp add: fu_line_def)
  moreover obtain r where "cv_one (fu_thread s) (fu_line s) j (ss_waiters (fu_ss s j))" "cv_waiting (ss_waiters (fu_ss s j)) = []"
    using fu_one_ready [OF fu_invD(4) [OF I] rd] by metis
  ultimately show ?thesis by (auto simp: cv_one_def roused_def is_ready_def)
qed

lemma fu_in_waiting:
  assumes I: "fu_inv rq s" and f: "fu_in s f = Some (j, c, p)" and rd: "\<not> ss_ready (fu_ss s j)"
  shows "Worker f \<in> set (cv_waiting (ss_waiters (fu_ss s j))) \<and> is_waiting (w_heap (sy_world (fu_thread s))) f"
proof -
  have "fu_line s f = Some (j, 0)" using f by (simp add: fu_line_def)
  moreover obtain fs where "cv_one (fu_thread s) (fu_line s) j (ss_waiters (fu_ss s j))"
    "cv_waiting (ss_waiters (fu_ss s j)) = map Worker fs" "\<And>f i. fu_line s f = Some (j, i) \<Longrightarrow> f \<in> set fs"
    using fu_one_waiting [OF fu_invD(4) [OF I] rd] by metis
  ultimately show ?thesis by (auto simp: cv_one_def asleep_def is_waiting_def)
qed

text \<open>A sequence of requests, if all of them are permitted.\<close>

fun fu_script :: "'s sched_algorithm \<Rightarrow> 'v fu_request list \<Rightarrow> ('s, 'v) fu_sys \<Rightarrow> ('v fu_out list \<times> ('s, 'v) fu_sys) option" where
  "fu_script A [] s = Some ([], s)"
| "fu_script A (r # rs) s =
     (if fu_enabled r s
      then do { (out, s') \<leftarrow> fu_exec A r s; (outs, s'') \<leftarrow> fu_script A rs s'; Some (out # outs, s'') }
      else None)"

lemma fu_script_reachable:
  "fu_script A rs s = Some (outs, s') \<Longrightarrow> fu_reachable A s0 s \<Longrightarrow> fu_reachable A s0 s'"
proof (induction rs arbitrary: s outs)
  case (Cons r rs)
  from Cons.prems(1) obtain out s1 outs1 where
    "fu_enabled r s" "fu_exec A r s = Some (out, s1)" "fu_script A rs s1 = Some (outs1, s')"
    by (auto split: if_splits bind_splits)
  with Cons.IH fu_reachable.step [OF Cons.prems(2)] show ?case by blast
qed simp

lemma fu_script_step:
  assumes "fu_enabled r s" and "fu_exec A r s = Some (out, s1)" and "fu_script A (r # rs) s = Some (outs, s2)"
  shows "\<exists>outs1. fu_script A rs s1 = Some (outs1, s2)"
  using assms by (auto split: bind_splits)

text \<open>Fibers 1 and 2 wait for the same result, fiber 2 with \<^verbatim>\<open>get\<close>; the main context runs.\<close>

definition demo_fu_requests :: "int fu_request list" where
  "demo_fu_requests =
     (let sysq = \<lambda>q. Fu_cs (Cs_mx (Mx_sys q)) in
      [Fu_new, sysq (Rq_spawn 1), sysq (Rq_spawn 2), sysq (Rq_run 0 0), Fu_call 0 Call_wait 0,
       sysq (Rq_run 1 1), Fu_call 0 Call_get 0])"

definition demo_fu :: "(round_robin, int) fu_sys" where
  "demo_fu = snd (the (fu_script round_robin_algo demo_fu_requests (fu_init 0 (\<lambda>_. worker_fiber_init))))"

lemma demo_fu_reachable: "fu_reachable round_robin_algo (fu_init 0 (\<lambda>_. worker_fiber_init)) demo_fu"
proof -
  let ?run = "fu_script round_robin_algo demo_fu_requests (fu_init 0 (\<lambda>_. worker_fiber_init))"
  have "map_option fst ?run \<noteq> None" by code_simp
  then obtain outs s' where s': "?run = Some (outs, s')" by auto
  with fu_script_reachable [OF s' fu_reachable.start] show ?thesis by (simp add: demo_fu_def)
qed

text \<open>
  C11: fibers that share futures run into no assertion and into no undefined read. Whatever fibers
  have done with each other, with the scheduler, with any number of mutexes, conditions and shared
  states, the next permitted call of \<^verbatim>\<open>get\<close>, \<^verbatim>\<open>wait\<close>, \<^verbatim>\<open>set_value\<close>, \<^verbatim>\<open>set_exception\<close> or
  \<^verbatim>\<open>owner_destroyed\<close>, and every other permitted request, is carried out; and a fiber inside
  \<^verbatim>\<open>get\<close> or \<^verbatim>\<open>wait\<close> sleeps in the line of the shared state exactly as long as there is no
  result.
\<close>

theorem future_calls_never_fail:
  assumes "fu_reachable round_robin_algo (fu_init q h) s"
  shows "(fu_enabled r s \<longrightarrow> (\<exists>out s'. fu_exec round_robin_algo r s = Some (out, s'))) \<and>
     (\<forall>f j c p. fu_in s f = Some (j, c, p) \<longrightarrow>
       (if ss_ready (fu_ss s j)
        then is_ready (w_heap (sy_world (fu_thread s))) f \<or> fm_active (sy_mgr (fu_thread s)) = Some f
        else Worker f \<in> set (cv_waiting (ss_waiters (fu_ss s j))) \<and> is_waiting (w_heap (sy_world (fu_thread s))) f))"
proof (intro conjI impI allI)
  note I = fu_rr_inv [OF assms]
  show "\<exists>out s'. fu_exec round_robin_algo r s = Some (out, s')" if "fu_enabled r s" using rr.fu_exec_ok [OF I that] by blast
  show "if ss_ready (fu_ss s j)
    then is_ready (w_heap (sy_world (fu_thread s))) f \<or> fm_active (sy_mgr (fu_thread s)) = Some f
    else Worker f \<in> set (cv_waiting (ss_waiters (fu_ss s j))) \<and> is_waiting (w_heap (sy_world (fu_thread s))) f"
    if "fu_in s f = Some (j, c, p)" for f j c p
    using fu_in_ready [OF I that] fu_in_waiting [OF I that] by simp
qed

theorem future_calls_never_fail_witness:
  "fu_in demo_fu 2 = Some (0, Call_get, At_condition) \<and> is_waiting (w_heap (sy_world (fu_thread demo_fu))) 2 \<and>
   (\<exists>out s'. fu_exec round_robin_algo (Fu_call 0 (Call_set (Set_value 8)) 0) demo_fu = Some (out, s'))"
proof -
  have "fu_in demo_fu 2 = Some (0, Call_get, At_condition)" "\<not> ss_ready (fu_ss demo_fu 0)"
    "fu_enabled (Fu_call 0 (Call_set (Set_value 8)) 0) demo_fu" by code_simp+
  with future_calls_never_fail [OF demo_fu_reachable] show ?thesis by fastforce
qed

text \<open>
  C12: the first result reaches everybody who asks for it, as long as the state is not reset. If the
  result of a shared state is set and it has none yet, the call succeeds. Afterwards fibers may go
  on with the permitted requests: those of \<open>Condition_System\<close>, new states, and all calls of
  \<^verbatim>\<open>set_value\<close>, \<^verbatim>\<open>set_exception\<close>, \<^verbatim>\<open>owner_destroyed\<close>, \<^verbatim>\<open>get\<close> and \<^verbatim>\<open>wait\<close> on any state,
  by fibers that are not interrupted inside them; \<^verbatim>\<open>reset\<close>, which \<^verbatim>\<open>packaged_task::reset\<close> calls
  and which takes the result back, is not among them. Then every fiber inside \<^verbatim>\<open>get\<close> or
  \<^verbatim>\<open>wait\<close> of this state is ready or running, when it runs again its \<^verbatim>\<open>get\<close> returns with exactly
  that result, the value or the exception, and so does every later call of \<^verbatim>\<open>get\<close>, at once.
\<close>

theorem future_result_delivered:
  assumes "fu_reachable round_robin_algo (fu_init q h) s" and "fu_enabled (Fu_call j (Call_set op) k) s"
    and "\<not> ss_ready (fu_ss s j)" and "fu_exec round_robin_algo (Fu_call j (Call_set op) k) s = Some (out, s')"
    and "fu_reachable round_robin_algo s' s''"
  shows "out = Put (Inr ()) \<and>
     (\<forall>f c p. fu_in s'' f = Some (j, c, p) \<longrightarrow>
       is_ready (w_heap (sy_world (fu_thread s''))) f \<or> fm_active (sy_mgr (fu_thread s'')) = Some f) \<and>
     (\<forall>f p l. fu_enabled (Fu_resume l) s'' \<longrightarrow> fm_active (sy_mgr (fu_thread s'')) = Some f \<longrightarrow> fu_in s'' f = Some (j, Call_get, p) \<longrightarrow>
       (\<exists>s3. fu_exec round_robin_algo (Fu_resume l) s'' = Some (Got (cell_outcome op), s3) \<and> fu_in s3 f = None)) \<and>
     (\<forall>l. fu_enabled (Fu_call j Call_get l) s'' \<longrightarrow>
       (\<exists>s3. fu_exec round_robin_algo (Fu_call j Call_get l) s'' = Some (Got (cell_outcome op), s3)))"
proof -
  from rr.fu_set_ok [OF fu_rr_inv [OF assms(1)] assms(2,3)] assms(4)
  have s': "out = Put (Inr ())" "fu_inv fifo_rep s'" "ss_rep ss_result (fu_ss s' j) (Some (cell_outcome op)) []" by auto
  from rr.fu_reachable_inv [OF assms(5) s'(2)] have I: "fu_inv fifo_rep s''" and keep: "fu_keeps s' s''" by auto
  have rep: "ss_rep ss_result (fu_ss s'' j) (Some (cell_outcome op)) []"
    using keep s'(3) ss_repD(3) [OF s'(3)] by (simp add: fu_keeps_def)
  have "is_ready (w_heap (sy_world (fu_thread s''))) f \<or> fm_active (sy_mgr (fu_thread s'')) = Some f"
    if "fu_in s'' f = Some (j, c, p)" for f c p
    using fu_in_ready [OF I that] ss_repD(3) [OF rep] by simp
  moreover have "\<exists>s3. fu_exec round_robin_algo (Fu_resume l) s'' = Some (Got (cell_outcome op), s3) \<and> fu_in s3 f = None"
    if "fu_enabled (Fu_resume l) s''" "fm_active (sy_mgr (fu_thread s'')) = Some f" "fu_in s'' f = Some (j, Call_get, p)" for f p l
    using rr.fu_resume_ok [OF I that(1)] that(2,3) ss_repD(4) [OF rep refl] by (auto simp: ss_rep_def fu_answer_def)
  moreover have "\<exists>s3. fu_exec round_robin_algo (Fu_call j Call_get l) s'' = Some (Got (cell_outcome op), s3)"
    if "fu_enabled (Fu_call j Call_get l) s''" for l
    using rr.fu_call_ready_ok [OF I that rep] by (auto simp: fu_answer_def)
  ultimately show ?thesis using s'(1) by blast
qed

theorem future_result_delivered_witness:
  "\<exists>s' s'' s3. fu_exec round_robin_algo (Fu_call 0 (Call_set (Set_value 8)) 0) demo_fu = Some (Put (Inr ()), s') \<and>
     fu_reachable round_robin_algo s' s'' \<and> fm_active (sy_mgr (fu_thread s'')) = Some 2 \<and>
     fu_exec round_robin_algo (Fu_resume 0) s'' = Some (Got (Inr 8), s3)"
proof -
  let ?set = "Fu_call 0 (Call_set (Set_value 8)) 0"
  have en: "fu_enabled ?set demo_fu" "\<not> ss_ready (fu_ss demo_fu 0)" by code_simp+
  obtain out s' where s': "fu_exec round_robin_algo ?set demo_fu = Some (out, s')"
    using rr.fu_exec_ok [OF fu_rr_inv [OF demo_fu_reachable] en(1)] by blast
  let ?rest = "[Fu_cs (Cs_mx (Mx_sys (Rq_run 3 3)))]"
  have "(case fu_script round_robin_algo (?set # ?rest) demo_fu of
      Some (outs, s) \<Rightarrow> fu_enabled (Fu_resume 0) s \<and> fm_active (sy_mgr (fu_thread s)) = Some 2 \<and>
        fu_in s 2 = Some (0, Call_get, At_condition)
    | None \<Rightarrow> False)" by code_simp
  then obtain outs0 s'' where run: "fu_script round_robin_algo (?set # ?rest) demo_fu = Some (outs0, s'')"
    and s''0: "fu_enabled (Fu_resume 0) s''" "fm_active (sy_mgr (fu_thread s'')) = Some 2"
      "fu_in s'' 2 = Some (0, Call_get, At_condition)"
    by (auto simp del: fu_script.simps split: option.splits)
  from fu_script_step [OF en(1) s' run] s''0 obtain outs where s'': "fu_script round_robin_algo ?rest s' = Some (outs, s'')"
    "fu_enabled (Fu_resume 0) s''" "fm_active (sy_mgr (fu_thread s'')) = Some 2" "fu_in s'' 2 = Some (0, Call_get, At_condition)"
    by blast
  have reach: "fu_reachable round_robin_algo s' s''" by (rule fu_script_reachable [OF s''(1) fu_reachable.start])
  note dl = future_result_delivered [OF demo_fu_reachable en s' reach]
  from dl have "out = Put (Inr ())" by (rule conjunct1)
  moreover from dl s''(2-4) obtain s3 where "fu_exec round_robin_algo (Fu_resume 0) s'' = Some (Got (Inr 8), s3)"
    by (metis cell_outcome.simps(1))
  ultimately show ?thesis using s' s''(3) reach by blast
qed

end
