(* ===== verification/Queue_System.thy ===== *)
theory Queue_System
  imports Condition_System Unbounded_Queue
begin

text \<open>
  Fibers that share mutexes, condition variables and unbounded queues: \<open>Condition_System\<close> extended
  by the calls of \<^verbatim>\<open>unbounded_queue::push\<close>, \<^verbatim>\<open>pop\<close>, \<^verbatim>\<open>try_pop\<close> and \<^verbatim>\<open>close\<close>
  (\<^verbatim>\<open>unbounded_queue.hpp\<close>). Any number of fibers, and the main context, produce and consume. The
  theory shows that inside one thread no call fails, that every value that is pushed comes out
  once and in order, and that no value is left behind while all consumers sleep.
\<close>

section \<open>States and requests\<close>

text \<open>
  Where a call can stop: in the line of the mutex it begins with (\<^verbatim>\<open>push\<close> has made its node
  before), in the line of the tail mutex during a test, at the condition variable. The copy or move
  of a value throws if the call says so.
\<close>

datatype 'v qs_call = Call_push "exn option" 'v | Call_pop "exn option" | Call_try_pop "exn option" | Call_close

datatype stop = At_first nat | At_tail wait_point | At_not_empty

record ('s, 'v) qs_sys =
  qs_cs :: "'s cv_sys"
  qs_count :: nat
  qs_q :: "nat \<Rightarrow> 'v unbounded_queue"
  qs_in :: "fid \<Rightarrow> (nat \<times> 'v qs_call \<times> stop) option"

datatype 'v qs_request = Qs_cs cv_request | Qs_new | Qs_call nat "'v qs_call" mfid | Qs_resume mfid

text \<open>What the caller sees of a call on the queue with the given number.\<close>

datatype 'v qs_out = Silent | Stopped | Pushed nat 'v "queue_op_status result" | Popped nat "'v pop_result"

definition qs_init :: "wqid \<Rightarrow> heap \<Rightarrow> (round_robin, 'v) qs_sys" where
  "qs_init q h = \<lparr>qs_cs = cs_init q h, qs_count = 0, qs_q = (\<lambda>_. unbounded_queue_ctor), qs_in = (\<lambda>_. None)\<rparr>"

abbreviation qs_mx :: "('s, 'v) qs_sys \<Rightarrow> 's mx_sys" where
  "qs_mx s \<equiv> cs_mx (qs_cs s)"

abbreviation qs_thread :: "('s, 'v) qs_sys \<Rightarrow> 's sys" where
  "qs_thread s \<equiv> ms_sys (qs_mx s)"

definition qs_turn :: "('r \<Rightarrow> 'o) \<Rightarrow> ('r, 'q, 's) segment \<Rightarrow> ('o, 'q, 's) segment" where
  "qs_turn g seg w m q = do { (t, q', w', m') \<leftarrow> seg w m q; Some (map_turn g t, q', w', m') }"

text \<open>A call from its beginning.\<close>

definition qs_begin :: "nat \<Rightarrow> 'v qs_call \<Rightarrow> mfid \<Rightarrow> ('v qs_out, 'v unbounded_queue, 's) segment" where
  "qs_begin j c k =
     (case c of
        Call_push throws v \<Rightarrow> qs_turn (Pushed j v) (unbounded_queue_push throws v k)
      | Call_pop throws \<Rightarrow> qs_turn (Popped j) (unbounded_queue_pop throws k)
      | Call_try_pop throws \<Rightarrow> qs_turn (Popped j) (unbounded_queue_try_pop throws k)
      | Call_close \<Rightarrow> qs_turn (\<lambda>u. Silent) unbounded_queue_close)"

text \<open>A fiber that stopped at \<open>p\<close> goes on.\<close>

definition qs_again :: "nat \<Rightarrow> 'v qs_call \<Rightarrow> stop \<Rightarrow> mfid \<Rightarrow> ('v qs_out, 'v unbounded_queue, 's) segment" where
  "qs_again j c p k =
     (case c of
        Call_push throws v \<Rightarrow>
          (case p of
             At_first new_node \<Rightarrow> qs_turn (Pushed j v) (uq_push_lock throws new_node v k)
           | _ \<Rightarrow> (\<lambda>w m q. None))
      | Call_pop throws \<Rightarrow> qs_turn (Popped j)
          (case p of
             At_first n \<Rightarrow> unbounded_queue_pop throws k
           | At_tail t \<Rightarrow> uq_pop_resume (uq_pop_sleep k) (uq_take throws) k t
           | At_not_empty \<Rightarrow> uq_pop_woken (uq_take throws) k)
      | Call_try_pop throws \<Rightarrow> qs_turn (Popped j)
          (case p of
             At_first n \<Rightarrow> unbounded_queue_try_pop throws k
           | At_tail t \<Rightarrow> uq_try_pop_resume (uq_try_take throws) k t
           | At_not_empty \<Rightarrow> (\<lambda>w m q. None))
      | Call_close \<Rightarrow> (\<lambda>w m q. None))"

text \<open>
  The end of a segment: the caller goes on, or control passes to the thread and the caller is
  inside the call; \<open>n\<close> is the node a push has made. A main context that has to wait turns the
  scheduler itself.
\<close>

definition qs_settle ::
  "nat \<Rightarrow> 'v qs_call \<Rightarrow> nat \<Rightarrow> 'v qs_out turn \<times> 'v unbounded_queue \<times> world \<times> 's fiber_manager \<Rightarrow> ('s, 'v) qs_sys \<Rightarrow>
   ('v qs_out \<times> ('s, 'v) qs_sys) option" where
  "qs_settle j c n seg s =
     (let (t, q, w, m) = seg;
          put = (\<lambda>y. s\<lparr>qs_cs := (qs_cs s)\<lparr>cs_mx := (qs_mx s)\<lparr>ms_sys := y\<rparr>\<rparr>, qs_q := (qs_q s)(j := q)\<rparr>);
          stay = put ((qs_thread s)\<lparr>sy_world := w, sy_mgr := m\<rparr>);
          leave = (\<lambda>a p. do {
            y \<leftarrow> sys_leave a In_wait w m (qs_thread s);
            Some (Stopped, (put y)\<lparr>qs_in := (qs_in s)(a := Some (j, c, p))\<rparr>) }) in
      case fm_active (sy_mgr (qs_thread s)) of
        None \<Rightarrow> Some (case t of Done out \<Rightarrow> out | _ \<Rightarrow> Stopped, stay)
      | Some a \<Rightarrow>
          (case t of
             Done out \<Rightarrow> Some (out, stay\<lparr>qs_in := (qs_in s)(a := None)\<rparr>)
           | In_line \<Rightarrow> leave a (At_first n)
           | In_tail_line p \<Rightarrow> leave a (At_tail p)
           | Asleep \<Rightarrow> leave a At_not_empty))"

definition qs_segment ::
  "nat \<Rightarrow> 'v qs_call \<Rightarrow> nat \<Rightarrow> ('v qs_out, 'v unbounded_queue, 's) segment \<Rightarrow> ('s, 'v) qs_sys \<Rightarrow>
   ('v qs_out \<times> ('s, 'v) qs_sys) option" where
  "qs_segment j c n seg s = do {
     x \<leftarrow> seg (sy_world (qs_thread s)) (sy_mgr (qs_thread s)) (qs_q s j);
     qs_settle j c n x s }"

definition qs_node :: "stop \<Rightarrow> nat" where
  "qs_node p = (case p of At_first n \<Rightarrow> n | _ \<Rightarrow> 0)"

definition qs_exec ::
  "'s sched_algorithm \<Rightarrow> 'v qs_request \<Rightarrow> ('s, 'v) qs_sys \<Rightarrow> ('v qs_out \<times> ('s, 'v) qs_sys) option" where
  "qs_exec A r s =
     (case r of
        Qs_cs q \<Rightarrow> do { x \<leftarrow> cs_exec A q (qs_cs s); Some (Silent, s\<lparr>qs_cs := x\<rparr>) }
      | Qs_new \<Rightarrow> Some (Silent, s\<lparr>qs_count := qs_count s + 1, qs_q := (qs_q s)(qs_count s := unbounded_queue_ctor)\<rparr>)
      | Qs_call j c k \<Rightarrow> qs_segment j c (fst (qc_new (uq_chain (qs_q s j)))) (qs_begin j c k) s
      | Qs_resume k \<Rightarrow> do {
          a \<leftarrow> fm_active (sy_mgr (qs_thread s));
          (j, c, p) \<leftarrow> qs_in s a;
          qs_segment j c (qs_node p) (qs_again j c p k) s })"

text \<open>
  The rules: nobody wakes or interrupts a fiber inside a call but through the queue, and such a
  fiber, when it runs, goes on in the call. The main context may make the calls that do not wait
  for a value.
\<close>

definition qs_free :: "('s, 'v) qs_sys \<Rightarrow> fid option \<Rightarrow> bool" where
  "qs_free s af \<longleftrightarrow> (case af of None \<Rightarrow> True | Some a \<Rightarrow> qs_in s a = None)"

fun qs_waits :: "'v qs_call \<Rightarrow> bool" where
  "qs_waits (Call_pop throws) = True"
| "qs_waits _ = False"

definition qs_enabled :: "'v qs_request \<Rightarrow> ('s, 'v) qs_sys \<Rightarrow> bool" where
  "qs_enabled r s \<longleftrightarrow>
     (let active = fm_active (sy_mgr (qs_thread s)); h = w_heap (sy_world (qs_thread s)) in
      case r of
        Qs_cs q \<Rightarrow> cs_enabled q (qs_cs s) \<and> qs_free s active \<and> qs_free s (cs_target q)
      | Qs_new \<Rightarrow> True
      | Qs_call j c k \<Rightarrow> j < qs_count s \<and>
          (case active of None \<Rightarrow> \<not> qs_waits c
           | Some a \<Rightarrow> qs_in s a = None \<and> cs_in (qs_cs s) a = None \<and> ms_in (qs_mx s) a = None \<and>
               (qs_waits c \<longrightarrow> \<not> interruption_requested (h a)))
      | Qs_resume k \<Rightarrow>
          (case active of None \<Rightarrow> False | Some a \<Rightarrow> qs_in s a \<noteq> None \<and> \<not> interruption_requested (h a)))"

text \<open>A history of the thread, with everything its callers have seen.\<close>

inductive qs_run ::
  "'s sched_algorithm \<Rightarrow> ('s, 'v) qs_sys \<Rightarrow> 'v qs_out list \<Rightarrow> ('s, 'v) qs_sys \<Rightarrow> bool" for A s0 where
  start: "qs_run A s0 [] s0"
| step: "qs_run A s0 outs s \<Longrightarrow> qs_enabled r s \<Longrightarrow> qs_exec A r s = Some (out, s') \<Longrightarrow> qs_run A s0 (outs @ [out]) s'"

text \<open>The values that went into the queue \<open>j\<close>, and those that came out.\<close>

fun qs_puts :: "nat \<Rightarrow> 'v qs_out \<Rightarrow> 'v list" where
  "qs_puts j (Pushed i v (Inr queue_success)) = (if i = j then [v] else [])"
| "qs_puts j _ = []"

fun qs_gets :: "nat \<Rightarrow> 'v qs_out \<Rightarrow> 'v list" where
  "qs_gets j (Popped i (Inr (queue_success, Some v))) = (if i = j then [v] else [])"
| "qs_gets j _ = []"

section \<open>Calls on a queue nobody has locked\<close>

lemma notify_one_eval:
  assumes "condition_sleepers cv fs" and "fb_set_ready_all (map Worker (take 1 fs)) w = Some w'"
  shows "\<exists>cv'. condition_notify_one cv w = Some (cv', w') \<and> condition_sleepers cv' (drop 1 fs)"
  using assms by (cases fs) (auto simp: condition_sleepers_def condition_notify_one_def notify_waiter_def split: bind_splits)

lemma qs_push_open:
  assumes "uq_rep q xs fs" and "uq_state q = OPEN"
    and "fb_set_ready_all (map Worker (take 1 fs)) (ctx_locked_world k m w) = Some w'"
  shows "\<exists>q'. unbounded_queue_push None v k w m q = Some (Done (Inr queue_success), q', w', m) \<and>
     uq_rep q' (xs @ [v]) (drop 1 fs) \<and> uq_state q' = OPEN"
  using notify_one_eval [OF uq_repD(4) [OF assms(1)] assms(3)] uq_push_ok [OF assms(1,2)] by metis

lemma qs_push_refused:
  assumes "uq_rep q xs fs" and "uq_state q = CLOSED \<or> throws \<noteq> None"
  shows "\<exists>q'. unbounded_queue_push throws v k w m q =
       Some (Done (if uq_state q = CLOSED then Inr queue_closed else Inl (the throws)), q', ctx_locked_world k m w, m) \<and>
     uq_rep q' xs fs \<and> uq_state q' = uq_state q"
proof -
  note R = uq_repD [OF assms(1)]
  obtain n c where c: "qc_new (uq_chain q) = (n, c)" by (cases "qc_new (uq_chain q)")
  from R qc_new_rep(1) [OF R(1) c] c assms(2) show ?thesis
    by (auto simp: unbounded_queue_push_def uq_push_lock_def uq_push_locked_def uq_state_closed ctx_lock_free
        uq_unlock_eval uq_rep_def)
qed

text \<open>The head mutex is taken and given back.\<close>

lemma uq_same: "uq_head_mtx q = mx \<Longrightarrow> q\<lparr>uq_head_mtx := mx\<rparr> = q"
  by (cases q) simp

lemmas qs_pop_defs = unbounded_queue_pop_def unbounded_queue_try_pop_def uq_pop_with_def uq_lock_head_free

lemma qs_pop_value:
  assumes "uq_rep q (x # xs) fs"
  shows "\<exists>q'. unbounded_queue_pop None k w m q = Some (Done (Inr (queue_success, Some x)), q', ctx_locked_world k m w, m) \<and>
     unbounded_queue_try_pop None k w m q = Some (Done (Inr (queue_success, Some x)), q', ctx_locked_world k m w, m) \<and>
     uq_rep q' xs fs \<and> uq_state q' = uq_state q"
proof -
  note R = uq_repD [OF assms]
  let ?q = "q\<lparr>uq_head_mtx := mutex_taken (this_get_id m)\<rparr>"
  from uq_take_locked [of ?q x xs m "uq_pop_sleep k" k "ctx_locked_world k m w"] R(1,3) obtain c' where "qc_rep c' xs"
    "uq_pop_loop (uq_pop_sleep k) (uq_take None) k (ctx_locked_world k m w) m ?q =
      Some (Done (Inr (queue_success, Some x)), ?q\<lparr>uq_chain := c', uq_head_mtx := mutex_init\<rparr>, ctx_locked_world k m w, m)"
    "uq_try_pop_locked (uq_take None) k (ctx_locked_world k m w) m ?q =
      Some (Done (Inr (queue_success, Some x)), ?q\<lparr>uq_chain := c', uq_head_mtx := mutex_init\<rparr>, ctx_locked_world k m w, m)"
    by auto
  with R show ?thesis by (simp add: qs_pop_defs uq_try_take_none uq_rep_def)
qed

lemma qs_pop_throws:
  assumes "uq_rep q (x # xs) fs" and "fb_set_ready_all (map Worker fs) (ctx_locked_world k m w) = Some w'"
  shows "\<exists>q'. unbounded_queue_pop (Some e) k w m q = Some (Done (Inl e), q', w', m) \<and>
     uq_rep q' (x # xs) [] \<and> uq_state q' = CLOSED"
proof -
  note R = uq_repD [OF assms(1)]
  let ?q = "q\<lparr>uq_head_mtx := mutex_taken (this_get_id m)\<rparr>"
  have ne: "\<not> qc_empty (uq_chain q)" using qc_empty_iff [OF R(1)] by simp
  have "uq_close (ctx_locked_world k m w) ?q = Some (?q\<lparr>uq_state := CLOSED, uq_not_empty := condition_init\<rparr>, w')"
    by (rule uq_close_eval [OF _ assms(2)]) (use R(4) in simp)
  with R ne show ?thesis
    by (simp add: qs_pop_defs uq_pop_points uq_test_free uq_take_def uq_unlock_eval uq_rep_def condition_sleepers_def
        condition_init_def spinlock_init_def)
qed

lemma qs_try_pop_throws:
  assumes "uq_rep q (x # xs) fs"
  shows "unbounded_queue_try_pop (Some e) k w m q = Some (Done (Inl e), q, ctx_locked_world k m w, m)"
proof -
  note R = uq_repD [OF assms(1)]
  have "\<not> qc_empty (uq_chain q)" using qc_empty_iff [OF R(1)] by simp
  with R show ?thesis by (simp add: qs_pop_defs uq_pop_points uq_test_free uq_try_take_def uq_unlock_eval uq_same)
qed

lemma qs_pop_nothing:
  assumes "uq_rep q [] fs"
  shows "uq_state q = CLOSED \<Longrightarrow> unbounded_queue_pop throws k w m q =
      Some (Done (Inr (queue_closed, None)), q, ctx_locked_world k m w, m)"
    "unbounded_queue_try_pop throws k w m q =
      Some (Done (Inr (if uq_state q = CLOSED then queue_closed else queue_empty, None)), q, ctx_locked_world k m w, m)"
proof -
  note R = uq_repD [OF assms(1)]
  have "qc_empty (uq_chain q)" using qc_empty_iff [OF R(1)] by simp
  with R show "uq_state q = CLOSED \<Longrightarrow> unbounded_queue_pop throws k w m q =
      Some (Done (Inr (queue_closed, None)), q, ctx_locked_world k m w, m)"
    "unbounded_queue_try_pop throws k w m q =
      Some (Done (Inr (if uq_state q = CLOSED then queue_closed else queue_empty, None)), q, ctx_locked_world k m w, m)"
    by (simp_all add: qs_pop_defs uq_pop_points uq_test_free uq_unlock_eval uq_same)
qed

lemma qs_pop_asleep:
  assumes "uq_rep q [] fs" and "uq_state q = OPEN" and "fm_active m = Some a" and "a \<notin> set fs"
    and "fm_wait_enter LOCKED w m = Some (UNLOCKED, w', m)"
  shows "unbounded_queue_pop throws k w m q =
     Some (Asleep, q\<lparr>uq_not_empty := (uq_not_empty q)\<lparr>cv_waiting := map Worker (fs @ [a])\<rparr>\<rparr>, w', m)"
proof -
  note R = uq_repD [OF assms(1)]
  have "qc_empty (uq_chain q)" using qc_empty_iff [OF R(1)] by simp
  moreover have "Worker a \<notin> Worker ` set fs" using assms(4) by auto
  moreover have "q\<lparr>uq_head_mtx := mutex_init, uq_not_empty := cv\<rparr> = q\<lparr>uq_not_empty := cv\<rparr>" for cv
    using R(2) by (cases q) simp
  ultimately show ?thesis using R assms(2-5)
    by (simp add: qs_pop_defs uq_pop_points uq_test_free uq_pop_sleep_def ctx_wait_enter_def
        condition_wait_enter_def ctx_unlock cv_splk_eq condition_sleepers_def)
qed

lemma qs_pop_again:
  assumes "fm_active m = Some a" and "\<not> interruption_requested (w_heap w a)"
  shows "uq_pop_woken (uq_take throws) k w m q = unbounded_queue_pop throws k w m q"
proof -
  have "condition_wait_resumed w m (uq_not_empty q) = Some (Inr (), uq_not_empty q, w)"
    using assms by (simp add: condition_wait_resumed_def interruption_point_def this_interruption_requested_def)
  moreover have "q\<lparr>uq_not_empty := uq_not_empty q\<rparr> = q" by (cases q) simp
  ultimately show ?thesis using assms(1) by (simp add: uq_pop_woken_def unbounded_queue_pop_def)
qed

section \<open>The invariant\<close>

text \<open>The fibers inside calls, as \<open>Condition_System\<close> sees the fibers at its conditions.\<close>

definition qs_line :: "('s, 'v) qs_sys \<Rightarrow> fid \<Rightarrow> (nat \<times> nat) option" where
  "qs_line s f = map_option (\<lambda>(j, c, p). (j, 0)) (qs_in s f)"

text \<open>The fibers inside \<^verbatim>\<open>pop\<close> of the queue \<open>j\<close> that are not in its line any more.\<close>

definition qs_woken :: "(fid \<Rightarrow> (nat \<times> nat) option) \<Rightarrow> nat \<Rightarrow> fid list \<Rightarrow> fid set" where
  "qs_woken inl j fs = {f. inl f = Some (j, 0) \<and> f \<notin> set fs}"

text \<open>
  The queue holds \<open>xs\<close>. Nobody holds its mutexes between two steps; at a closed queue nobody
  sleeps; and while anybody sleeps there is a woken fiber for every value.
\<close>

definition qs_one :: "'s sys \<Rightarrow> (fid \<Rightarrow> (nat \<times> nat) option) \<Rightarrow> nat \<Rightarrow> 'v unbounded_queue \<Rightarrow> 'v list \<Rightarrow> bool" where
  "qs_one y inl j q xs \<longleftrightarrow> cv_one y inl j (uq_not_empty q) \<and>
     (\<exists>fs. uq_rep q xs fs \<and> (uq_state q = CLOSED \<longrightarrow> fs = []) \<and> (fs \<noteq> [] \<longrightarrow> length xs \<le> card (qs_woken inl j fs)))"

definition qs_inv :: "(heap \<Rightarrow> 's \<Rightarrow> fid list \<Rightarrow> bool) \<Rightarrow> (nat \<Rightarrow> 'v list) \<Rightarrow> ('s, 'v) qs_sys \<Rightarrow> bool" where
  "qs_inv rq X s \<longleftrightarrow> cs_inv rq (qs_cs s) \<and> (\<forall>j. qs_one (qs_thread s) (qs_line s) j (qs_q s j) (X j)) \<and>
     (\<forall>j \<ge> qs_count s. qs_q s j = unbounded_queue_ctor \<and> X j = []) \<and> finite (dom (qs_line s)) \<and>
     (\<forall>f j c p. qs_in s f = Some (j, c, p) \<longrightarrow>
        cs_in (qs_cs s) f = None \<and> ms_in (qs_mx s) f = None \<and> p = At_not_empty \<and> qs_waits c \<and> j < qs_count s)"

lemma qs_invD:
  assumes "qs_inv rq X s"
  shows "cs_inv rq (qs_cs s)" "sys_inv rq (qs_thread s)" "qs_one (qs_thread s) (qs_line s) j (qs_q s j) (X j)"
    "qs_count s \<le> j \<Longrightarrow> qs_q s j = unbounded_queue_ctor \<and> X j = []" "finite (dom (qs_line s))"
    "qs_in s f = Some (j, c, p) \<Longrightarrow> cs_in (qs_cs s) f = None \<and> ms_in (qs_mx s) f = None \<and> p = At_not_empty \<and> qs_waits c \<and> j < qs_count s"
  using assms unfolding qs_inv_def cs_inv_def mx_inv_def by blast+

lemma qs_line_eq: "qs_line s f = Some (j, i) \<longleftrightarrow> i = 0 \<and> (\<exists>c p. qs_in s f = Some (j, c, p))"
  "qs_line s f = None \<longleftrightarrow> qs_in s f = None"
  by (auto simp: qs_line_def)

lemma qs_init_inv: "qs_inv fifo_rep (\<lambda>_. []) (qs_init q h :: (round_robin, 'v) qs_sys)"
proof -
  have "qs_one y (\<lambda>f. None) j (unbounded_queue_ctor :: 'v unbounded_queue) []" for y :: "round_robin sys" and j
    using uq_ctor_rep by (auto simp: qs_one_def cv_one_def unbounded_queue_ctor_def condition_init_def spinlock_init_def)
  moreover have "qs_line (qs_init q h :: (round_robin, 'v) qs_sys) = (\<lambda>f. None)"
    by (rule ext) (simp add: qs_line_def qs_init_def)
  ultimately show ?thesis using cs_init_inv [of q h] by (simp add: qs_inv_def) (simp add: qs_init_def)
qed

lemma qs_oneD:
  assumes "qs_one y inl j q xs" and "uq_rep q xs' fs"
  shows "cv_one y inl j (uq_not_empty q)" "uq_state q = CLOSED \<Longrightarrow> fs = []"
    "fs \<noteq> [] \<Longrightarrow> length xs \<le> card (qs_woken inl j fs)" "distinct fs"
    "\<And>f. f \<in> set fs \<Longrightarrow> asleep y f \<and> (\<exists>i. inl f = Some (j, i))"
proof -
  from assms(1) obtain gs where gs: "uq_rep q xs gs" "uq_state q = CLOSED \<longrightarrow> gs = []"
    "gs \<noteq> [] \<longrightarrow> length xs \<le> card (qs_woken inl j gs)" and cv: "cv_one y inl j (uq_not_empty q)" by (auto simp: qs_one_def)
  have "map Worker gs = map Worker fs" using gs(1) assms(2) by (simp add: uq_rep_def condition_sleepers_def)
  then have "gs = fs" by (rule map_injective) (simp add: inj_on_def)
  moreover have "cv_waiting (uq_not_empty q) = map Worker fs" using assms(2) by (simp add: uq_rep_def condition_sleepers_def)
  ultimately show "cv_one y inl j (uq_not_empty q)" "uq_state q = CLOSED \<Longrightarrow> fs = []"
    "fs \<noteq> [] \<Longrightarrow> length xs \<le> card (qs_woken inl j fs)" "distinct fs"
    "\<And>f. f \<in> set fs \<Longrightarrow> asleep y f \<and> (\<exists>i. inl f = Some (j, i))"
    using cv gs(2,3) by (auto simp: cv_one_def distinct_map)
qed

lemma qs_oneE:
  assumes "qs_one y inl j q xs"
  obtains fs where "uq_rep q xs fs"
  using assms by (auto simp: qs_one_def)

text \<open>A change of the thread that the fibers inside calls do not notice.\<close>

lemma qs_one_calm: "qs_one y inl j q xs \<Longrightarrow> cs_calm y y' inl \<Longrightarrow> qs_one y' inl j q xs"
  unfolding qs_one_def using cv_one_calm by blast

lemma cv_one_gone:
  assumes "cv_one y inl d cv" and "\<And>f. inl' f \<noteq> inl f \<Longrightarrow> inl' f = None \<and> \<not> asleep y f"
  shows "cv_one y inl' d cv"
  using assms unfolding cv_one_def by (metis option.distinct(1))

text \<open>
  A call has been served: the fibers \<open>ns\<close> at the head of the line have been woken, the queue holds
  \<open>xs'\<close> now, and the caller, if it had been inside, is not any more.
\<close>

lemma woken_count:
  assumes fin: "finite (dom inl)" and dis: "distinct (ns @ rest)" and ns: "\<And>f. f \<in> set ns \<Longrightarrow> inl f = Some (j, 0)"
    and gone: "\<And>f. inl' f \<noteq> inl f \<Longrightarrow> inl' f = None"
  shows "card (qs_woken inl j (ns @ rest)) + length ns \<le> card (qs_woken inl' j rest) + card {f. inl f = Some (j, 0) \<and> inl' f = None}"
proof -
  let ?W = "qs_woken inl j (ns @ rest)" and ?L = "{f. inl f = Some (j, 0) \<and> inl' f = None}"
  have sub: "qs_woken inl j fs \<subseteq> dom inl" "?L \<subseteq> dom inl" "qs_woken inl' j fs \<subseteq> dom inl" for fs
    using gone by (auto simp: qs_woken_def dom_def) (metis option.distinct(1))
  note f = finite_subset [OF sub(1) fin] finite_subset [OF sub(2) fin] finite_subset [OF sub(3) fin]
  have "card ?W + length ns = card (?W \<union> set ns)"
  proof (subst card_Un_disjoint)
    show "?W \<inter> set ns = {}" by (auto simp: qs_woken_def)
  qed (use dis f(1) in \<open>simp_all add: distinct_card\<close>)
  also have "\<dots> \<le> card (qs_woken inl' j rest \<union> ?L)"
  proof (rule card_mono)
    have "inl' f = Some (j, 0) \<or> inl' f = None" if "inl f = Some (j, 0)" for f using gone that by metis
    then show "?W \<union> set ns \<subseteq> qs_woken inl' j rest \<union> ?L" using dis ns by (fastforce simp: qs_woken_def)
  qed (use f in simp)
  also have "\<dots> \<le> card (qs_woken inl' j rest) + card ?L" by (rule card_Un_le)
  finally show ?thesis .
qed

lemma qs_one_served:
  assumes O: "\<And>i. qs_one y inl i (qf i) (X i)" and rep: "uq_rep (qf j) (X j) (ns @ rest)" and mgr: "sy_mgr y' = sy_mgr y"
    and up: "\<forall>f \<in> set ns. roused y' f"
    and keep: "\<forall>g. g \<notin> set ns \<longrightarrow> (asleep y g \<longrightarrow> asleep y' g) \<and> (roused y g \<longrightarrow> roused y' g)"
    and q': "uq_rep q' xs' rest" "uq_state q' = CLOSED \<Longrightarrow> rest = []"
    and gone: "\<And>f. inl' f \<noteq> inl f \<Longrightarrow> inl' f = None \<and> inl f = Some (j, 0) \<and> \<not> asleep y' f"
    and zero: "\<And>f i l. inl f = Some (i, l) \<Longrightarrow> l = 0" and fin: "finite (dom inl)"
    and count: "rest \<noteq> [] \<Longrightarrow> length xs' + card {f. inl f = Some (j, 0) \<and> inl' f = None} \<le> length (X j) + length ns"
  shows "qs_one y' inl' i ((qf(j := q')) i) ((X(j := xs')) i)"
proof (cases "i = j")
  case False
  note OD = qs_oneD [OF O [of j] rep]
  have "f \<notin> set ns" if "inl f = Some (i, l)" for f l using OD(5) [of f] that False by auto
  from cv_one_others_notified [OF _ mgr this keep] O [of i] have "cv_one y' inl i (uq_not_empty (qf i))" by (auto simp: qs_one_def)
  then have "cv_one y' inl' i (uq_not_empty (qf i))" by (rule cv_one_gone) (use gone in blast)
  moreover have "qs_woken inl' i fs = qs_woken inl i fs" for fs
    using gone False by (auto simp: qs_woken_def) (metis option.inject prod.inject option.distinct(1))+
  ultimately show ?thesis using O [of i] False by (simp add: qs_one_def)
next
  case True
  note OD = qs_oneD [OF O [of j] rep]
  have line: "cv_waiting (uq_not_empty (qf j)) = map Worker ns @ map Worker rest"
    using rep by (simp add: uq_rep_def condition_sleepers_def)
  have "uq_not_empty q' = (uq_not_empty (qf j))\<lparr>cv_waiting := map Worker rest\<rparr>"
    using rep q'(1) by (simp add: uq_rep_def condition_sleepers_def)
  with cv_one_notified [OF OD(1) line mgr up keep] have "cv_one y' inl j (uq_not_empty q')" by simp
  then have cv: "cv_one y' inl' j (uq_not_empty q')" by (rule cv_one_gone) (use gone in blast)
  have ns: "inl f = Some (j, 0)" if "f \<in> set ns" for f using OD(5) [of f] that zero by fastforce
  have "length xs' \<le> card (qs_woken inl' j rest)" if "rest \<noteq> []"
    using woken_count [of inl ns rest j inl', OF fin OD(4) ns] gone count [OF that] OD(3) that by fastforce
  with cv q' True show ?thesis by (auto simp: qs_one_def)
qed

text \<open>The caller \<open>a\<close> sleeps now at the end of the line of an empty queue.\<close>

lemma qs_one_slept:
  assumes O: "\<And>i. qs_one y inl i (qf i) (X i)" and rep: "uq_rep (qf j) [] fs" "X j = []" "uq_state (qf j) = OPEN"
    and calm: "cs_calm y y' (inl(a := None))" and a: "\<not> asleep y a" "asleep y' a" "inl a = None \<or> inl a = Some (j, 0)"
  defines "q' \<equiv> (qf j)\<lparr>uq_not_empty := (uq_not_empty (qf j))\<lparr>cv_waiting := map Worker (fs @ [a])\<rparr>\<rparr>"
  shows "qs_one y' (inl(a := Some (j, 0))) i ((qf(j := q')) i) (X i)"
proof -
  have cv: "cv_one y' (inl(a := None)) i (uq_not_empty (qf i))" for i
    using cv_one_calm [OF cv_one_left [OF _ a(1)] calm] O [of i] by (simp add: qs_one_def)
  have line: "cv_waiting (uq_not_empty (qf j)) = map Worker fs" using rep(1) by (simp add: uq_rep_def condition_sleepers_def)
  have "a \<notin> set fs" using qs_oneD(5) [OF O rep(1)] a(1) by blast
  then have "Worker a \<notin> set (cv_waiting (uq_not_empty (qf j)))" by (auto simp: line)
  from cv_one_entered [of y' "inl(a := None)" "\<lambda>i. uq_not_empty (qf i)" a j 0 i, OF cv _ a(2) this]
  have cv': "cv_one y' (inl(a := Some (j, 0))) i (uq_not_empty ((qf(j := q')) i))"
    by (cases "i = j") (simp_all add: q'_def line)
  show ?thesis
  proof (cases "i = j")
    case True
    have "uq_rep q' [] (fs @ [a])" using rep(1) by (simp add: uq_rep_def q'_def condition_sleepers_def)
    with cv' True rep show ?thesis by (auto simp: qs_one_def q'_def)
  next
    case False
    have "qs_woken (inl(a := Some (j, 0))) i gs = qs_woken inl i gs" for gs using a(3) False by (auto simp: qs_woken_def)
    with O [of i] cv' False show ?thesis by (simp add: qs_one_def)
  qed
qed

text \<open>What comes out of the queues was in them, and what goes in is there afterwards.\<close>

definition qs_flow :: "(nat \<Rightarrow> 'v list) \<Rightarrow> 'v qs_out \<Rightarrow> (nat \<Rightarrow> 'v list) \<Rightarrow> bool" where
  "qs_flow X out X' \<longleftrightarrow> (\<forall>i. qs_gets i out @ X' i = X i @ qs_puts i out)"

text \<open>Who may make the call \<open>c\<close> on the queue \<open>j\<close>, at its beginning or after having slept in it.\<close>

definition qs_caller :: "nat \<Rightarrow> 'v qs_call \<Rightarrow> ('s, 'v) qs_sys \<Rightarrow> bool" where
  "qs_caller j c s \<longleftrightarrow> j < qs_count s \<and>
     (case fm_active (sy_mgr (qs_thread s)) of None \<Rightarrow> \<not> qs_waits c
      | Some a \<Rightarrow> cs_in (qs_cs s) a = None \<and> ms_in (qs_mx s) a = None \<and>
          (qs_in s a = None \<or> qs_waits c \<and> (\<exists>c p. qs_in s a = Some (j, c, p))) \<and>
          (qs_waits c \<longrightarrow> \<not> interruption_requested (w_heap (sy_world (qs_thread s)) a)))"

lemma qs_callerD:
  assumes "qs_caller j c s"
  shows "j < qs_count s"
    "fm_active (sy_mgr (qs_thread s)) = Some a \<Longrightarrow> ms_in (qs_mx s) a = None \<and> (qs_in s a = None \<or> (\<exists>c p. qs_in s a = Some (j, c, p)))"
    "\<not> qs_waits c \<Longrightarrow> fm_active (sy_mgr (qs_thread s)) = Some a \<Longrightarrow> qs_in s a = None"
  using assms by (auto simp: qs_caller_def)

section \<open>Each request\<close>

context sched_contract
begin

text \<open>Requests that do not concern the queues.\<close>

lemma qs_cs_ok:
  assumes I: "qs_inv rq X s" and en: "qs_enabled (Qs_cs q) s"
  shows "\<exists>s'. qs_exec A (Qs_cs q) s = Some (Silent, s') \<and> qs_inv rq X s'"
proof -
  note D = qs_invD [OF I]
  have en': "cs_enabled q (qs_cs s)" "qs_free s (fm_active (sy_mgr (qs_thread s)))" "qs_free s (cs_target q)"
    using en by (simp_all add: qs_enabled_def Let_def)
  from cs_exec_ok [OF D(1) en'(1)] obtain x where x: "cs_exec A q (qs_cs s) = Some x" "cs_inv rq x" by blast
  have "ms_in (qs_mx s) f = None \<and> cs_in (qs_cs s) f = None \<and> fm_active (sy_mgr (qs_thread s)) \<noteq> Some f \<and> cs_target q \<noteq> Some f"
    if "qs_line s f \<noteq> None" for f
    using that D(6) [of f] en'(2,3) by (auto simp: qs_line_eq qs_free_def)
  from cs_exec_calm [OF D(1) en'(1) x(1) this]
  have calm: "cs_calm (qs_thread s) (cs_sys x) (qs_line s)"
    "\<And>f. qs_line s f \<noteq> None \<Longrightarrow> ms_in (cs_mx x) f = None \<and> cs_in x f = None" by auto
  have line: "qs_line (s\<lparr>qs_cs := x\<rparr>) = qs_line s" by (rule ext) (simp add: qs_line_def)
  have "qs_inv rq X (s\<lparr>qs_cs := x\<rparr>)"
    unfolding qs_inv_def line using x(2) qs_one_calm [OF D(3) calm(1)] D(4-6) calm(2) by (auto simp: qs_line_eq)
  with x(1) show ?thesis by (auto simp: qs_exec_def)
qed

text \<open>Waking fibers in the line of a queue.\<close>

lemma qs_notify_ok:
  assumes I: "qs_inv rq X s" and rep: "uq_rep (qs_q s j) (X j) (ns @ rest)"
    and act: "\<And>a. fm_active (sy_mgr (qs_thread s)) = Some a \<Longrightarrow> ms_in (qs_mx s) a = None"
    and v: "w_heap v = w_heap (sy_world (qs_thread s))" "w_wqs v = w_wqs (sy_world (qs_thread s))"
  shows "\<exists>w y. fb_set_ready_all (map Worker ns) v = Some w \<and>
     y = (qs_thread s)\<lparr>sy_world := w\<rparr> \<and> cs_inv rq ((qs_cs s)\<lparr>cs_mx := (qs_mx s)\<lparr>ms_sys := y\<rparr>\<rparr>) \<and> (\<forall>f \<in> set ns. roused y f) \<and>
     (\<forall>g. g \<notin> set ns \<longrightarrow> (asleep (qs_thread s) g \<longrightarrow> asleep y g) \<and> (roused (qs_thread s) g \<longrightarrow> roused y g))"
proof (rule notify_part [OF qs_invD(1) [OF I] act])
  fix f assume "f \<in> set ns"
  then have "f \<in> set (ns @ rest)" by simp
  from qs_oneD(5) [OF qs_invD(3) [OF I] rep this] qs_invD(6) [OF I, of f]
  show "asleep (qs_thread s) f \<and> ms_in (qs_mx s) f = None \<and> cs_in (qs_cs s) f = None" by (auto simp: qs_line_eq)
qed (simp_all add: v)

text \<open>The caller finds what it needs and goes on; \<open>ns\<close> are the fibers it wakes.\<close>

lemma qs_served_ok:
  assumes I: "qs_inv rq X s" and j: "j < qs_count s" and rep: "uq_rep (qs_q s j) (X j) (ns @ rest)"
    and act: "\<And>a. fm_active (sy_mgr (qs_thread s)) = Some a \<Longrightarrow>
      ms_in (qs_mx s) a = None \<and> (qs_in s a = None \<or> (\<exists>c p. qs_in s a = Some (j, c, p)))"
    and v: "w_heap v = w_heap (sy_world (qs_thread s))" "w_wqs v = w_wqs (sy_world (qs_thread s))" and w: "fb_set_ready_all (map Worker ns) v = Some w"
    and q': "uq_rep q' xs' rest" "uq_state q' = CLOSED \<Longrightarrow> rest = []"
    and count: "\<And>a. rest \<noteq> [] \<Longrightarrow> fm_active (sy_mgr (qs_thread s)) = Some a \<Longrightarrow> qs_in s a \<noteq> None \<Longrightarrow> length xs' < length (X j) + length ns"
      "rest \<noteq> [] \<Longrightarrow> length xs' \<le> length (X j) + length ns"
  shows "\<exists>s'. qs_settle j c n (Done out, q', w, sy_mgr (qs_thread s)) s = Some (out, s') \<and> qs_inv rq (X(j := xs')) s' \<and>
     (\<forall>a. fm_active (sy_mgr (qs_thread s)) = Some a \<longrightarrow> qs_in s' a = None)"
proof -
  note D = qs_invD [OF I]
  let ?y = "qs_thread s" and ?af = "fm_active (sy_mgr (qs_thread s))"
  define inn where "inn f = (if ?af = Some f then None else qs_in s f)" for f
  from qs_notify_ok [OF I rep _ v] act w obtain y where y: "y = ?y\<lparr>sy_world := w\<rparr>"
    "cs_inv rq ((qs_cs s)\<lparr>cs_mx := (qs_mx s)\<lparr>ms_sys := y\<rparr>\<rparr>)" "\<forall>f \<in> set ns. roused y f"
    "\<forall>g. g \<notin> set ns \<longrightarrow> (asleep ?y g \<longrightarrow> asleep y g) \<and> (roused ?y g \<longrightarrow> roused y g)" by auto
  define s' where "s' = s\<lparr>qs_cs := (qs_cs s)\<lparr>cs_mx := (qs_mx s)\<lparr>ms_sys := y\<rparr>\<rparr>, qs_q := (qs_q s)(j := q'), qs_in := inn\<rparr>"
  have inn: "inn = (case ?af of None \<Rightarrow> qs_in s | Some a \<Rightarrow> (qs_in s)(a := None))"
    by (rule ext) (simp add: inn_def split: option.splits)
  have ex: "qs_settle j c n (Done out, q', w, sy_mgr ?y) s = Some (out, s')"
    by (simp add: qs_settle_def s'_def inn y(1) split: option.splits)
  have awake: "\<not> asleep y a" if "?af = Some a" for a
  proof -
    from active_facts [OF D(2) that] have "\<not> asleep ?y a" "\<not> roused ?y a" "alive ?y a" by auto
    moreover have "sys_inv rq y" using y(2) by (simp add: cs_inv_def mx_inv_def)
    ultimately show ?thesis using active_facts(2) [of y a] that y(1) by simp
  qed
  have line: "qs_line s' f = (if ?af = Some f then None else qs_line s f)" for f by (simp add: qs_line_def s'_def inn_def)
  have "{f. qs_line s f = Some (j, 0) \<and> qs_line s' f = None} = (case ?af of None \<Rightarrow> {} | Some a \<Rightarrow> if qs_in s a = None then {} else {a})"
    using act by (auto simp: line qs_line_eq split: option.splits if_splits)
  then have cnt: "length xs' + card {f. qs_line s f = Some (j, 0) \<and> qs_line s' f = None} \<le> length (X j) + length ns" if "rest \<noteq> []"
    using count that by (fastforce split: option.splits if_splits)
  have "qs_one y (qs_line s') i (((qs_q s)(j := q')) i) ((X(j := xs')) i)" for i
  proof (rule qs_one_served [OF D(3) rep _ y(3,4) q' _ _ D(5) cnt])
    fix f assume "qs_line s' f \<noteq> qs_line s f"
    then have "?af = Some f" "qs_line s f \<noteq> None" by (metis line)+
    with act [of f] awake [of f] show "qs_line s' f = None \<and> qs_line s f = Some (j, 0) \<and> \<not> asleep y f"
      by (auto simp: line qs_line_eq(1) simp del: not_None_eq simp: qs_line_eq(2))
  qed (simp_all add: y(1) qs_line_eq)
  moreover have "finite (dom (qs_line s'))" by (rule finite_subset [OF _ D(5)]) (auto simp: line split: if_splits)
  ultimately have "qs_inv rq (X(j := xs')) s'"
    unfolding qs_inv_def using y(2) D(4,6) j by (auto simp: s'_def y(1) inn_def split: if_splits)
  with ex show ?thesis by (auto simp: s'_def inn_def)
qed

text \<open>A fiber in \<^verbatim>\<open>pop\<close> finds the queue empty and goes to sleep.\<close>

lemma qs_slept_ok:
  assumes I: "qs_inv rq X s" and j: "j < qs_count s" and rep: "uq_rep (qs_q s j) [] fs" "X j = []" "uq_state (qs_q s j) = OPEN"
    and a: "fm_active (sy_mgr (qs_thread s)) = Some a" "\<not> interruption_requested (w_heap (sy_world (qs_thread s)) a)"
      "cs_in (qs_cs s) a = None" "ms_in (qs_mx s) a = None" "qs_in s a = None \<or> (\<exists>c p. qs_in s a = Some (j, c, p))"
  shows "\<exists>s'. qs_segment j (Call_pop throws) n (qs_begin j (Call_pop throws) k) s = Some (Stopped, s') \<and> qs_inv rq X s'"
proof -
  note D = qs_invD [OF I]
  let ?y = "qs_thread s" and ?c = "Call_pop throws"
  have "ms_in (qs_mx s) f = None \<and> cs_in (qs_cs s) f = None \<and> f \<noteq> a" if "((qs_line s)(a := None)) f \<noteq> None" for f
    using that D(6) [of f] by (auto simp: qs_line_eq split: if_splits)
  from sleep_part [OF D(1) a(1-4) this] obtain w y where w:
    "fm_wait_enter LOCKED (sy_world ?y) (sy_mgr ?y) = Some (UNLOCKED, w, sy_mgr ?y)"
    "sys_leave a In_wait w (sy_mgr ?y) ?y = Some y" "asleep y a"
    "cs_inv rq ((qs_cs s)\<lparr>cs_mx := (qs_mx s)\<lparr>ms_sys := y\<rparr>\<rparr>)" "cs_calm ?y y ((qs_line s)(a := None))" by blast
  note na = active_facts(2) [OF D(2) a(1)]
  have afs: "a \<notin> set fs" using qs_oneD(5) [OF D(3) rep(1)] na by blast
  define q' where "q' = (qs_q s j)\<lparr>uq_not_empty := (uq_not_empty (qs_q s j))\<lparr>cv_waiting := map Worker (fs @ [a])\<rparr>\<rparr>"
  define s' where "s' = s\<lparr>qs_cs := (qs_cs s)\<lparr>cs_mx := (qs_mx s)\<lparr>ms_sys := y\<rparr>\<rparr>, qs_q := (qs_q s)(j := q'),
    qs_in := (qs_in s)(a := Some (j, ?c, At_not_empty))\<rparr>"
  have ex: "qs_segment j ?c n (qs_begin j ?c k) s = Some (Stopped, s')"
    using qs_pop_asleep [OF rep(1,3) a(1) afs w(1)] w(2) a(1)
    by (simp add: qs_segment_def qs_begin_def qs_turn_def qs_settle_def s'_def q'_def)
  have line: "qs_line s' = (qs_line s)(a := Some (j, 0))" by (rule ext) (simp add: qs_line_def s'_def)
  have "qs_one y (qs_line s') i (((qs_q s)(j := q')) i) (X i)" for i
    unfolding line q'_def by (rule qs_one_slept [OF D(3) rep w(5) na w(3)]) (use a(5) in \<open>auto simp: qs_line_eq\<close>)
  moreover have "finite (dom (qs_line s'))" using D(5) by (simp add: line)
  ultimately have "qs_inv rq X s'"
    unfolding qs_inv_def using w(4) D(4,6) a(3,4) j by (auto simp: s'_def)
  with ex show ?thesis by blast
qed

text \<open>A call that is served, as a whole.\<close>

lemma qs_answer_ok:
  assumes I: "qs_inv rq X s" and cl: "qs_caller j c s" and rep: "uq_rep (qs_q s j) (X j) (ns @ rest)"
    and v: "w_heap v = w_heap (sy_world (qs_thread s))" "w_wqs v = w_wqs (sy_world (qs_thread s))"
    and seg: "\<And>w. fb_set_ready_all (map Worker ns) v = Some w \<Longrightarrow>
      \<exists>q'. qs_begin j c k (sy_world (qs_thread s)) (sy_mgr (qs_thread s)) (qs_q s j) = Some (Done out, q', w, sy_mgr (qs_thread s)) \<and>
        uq_rep q' xs' rest \<and> (uq_state q' = CLOSED \<longrightarrow> rest = [])"
    and count: "rest \<noteq> [] \<Longrightarrow> length xs' + (if qs_waits c then 1 else 0) \<le> length (X j) + length ns"
    and flow: "qs_flow X out (X(j := xs'))"
  shows "\<exists>s' X'. qs_segment j c n (qs_begin j c k) s = Some (out, s') \<and> qs_inv rq X' s' \<and> qs_flow X out X' \<and>
     (\<forall>a. fm_active (sy_mgr (qs_thread s)) = Some a \<longrightarrow> qs_in s' a = None)"
proof -
  note C = qs_callerD [OF cl]
  let ?m = "sy_mgr (qs_thread s)"
  from qs_notify_ok [OF I rep _ v] C(2) obtain w where w: "fb_set_ready_all (map Worker ns) v = Some w" by blast
  from seg [OF this] obtain q' where q': "qs_begin j c k (sy_world (qs_thread s)) ?m (qs_q s j) = Some (Done out, q', w, ?m)"
    "uq_rep q' xs' rest" "uq_state q' = CLOSED \<Longrightarrow> rest = []" by blast
  have "length xs' < length (X j) + length ns" if "rest \<noteq> []" "fm_active ?m = Some a" "qs_in s a \<noteq> None" for a
    using count [OF that(1)] C(3) [OF _ that(2)] that(3) by (cases "qs_waits c") auto
  from qs_served_ok [OF I C(1) rep C(2) v w q'(2,3) this, where c = c and n = n and out = out] count q'(1) flow show ?thesis
    by (fastforce simp: qs_segment_def)
qed

text \<open>A call that wakes nobody.\<close>

lemma qs_quiet_ok:
  assumes I: "qs_inv rq X s" and cl: "qs_caller j c s" and rep: "uq_rep (qs_q s j) (X j) fs"
    and seg: "qs_begin j c k (sy_world (qs_thread s)) (sy_mgr (qs_thread s)) (qs_q s j) =
        Some (Done out, q', ctx_locked_world k (sy_mgr (qs_thread s)) (sy_world (qs_thread s)), sy_mgr (qs_thread s))"
      "uq_rep q' xs' fs" "uq_state q' = uq_state (qs_q s j)"
    and count: "fs \<noteq> [] \<Longrightarrow> length xs' + (if qs_waits c then 1 else 0) \<le> length (X j)" and flow: "qs_flow X out (X(j := xs'))"
  shows "\<exists>s' X'. qs_segment j c n (qs_begin j c k) s = Some (out, s') \<and> qs_inv rq X' s' \<and> qs_flow X out X' \<and>
     (\<forall>a. fm_active (sy_mgr (qs_thread s)) = Some a \<longrightarrow> qs_in s' a = None)"
proof (rule qs_answer_ok [OF I cl, of "[]" fs "ctx_locked_world k (sy_mgr (qs_thread s)) (sy_world (qs_thread s))", OF _ _ _ _ _ flow])
  show "\<exists>q'. qs_begin j c k (sy_world (qs_thread s)) (sy_mgr (qs_thread s)) (qs_q s j) = Some (Done out, q', w, sy_mgr (qs_thread s)) \<and>
      uq_rep q' xs' fs \<and> (uq_state q' = CLOSED \<longrightarrow> fs = [])"
    if "fb_set_ready_all (map Worker []) (ctx_locked_world k (sy_mgr (qs_thread s)) (sy_world (qs_thread s))) = Some w" for w
    using that seg qs_oneD(2) [OF qs_invD(3) [OF I] rep] by auto
qed (use rep count in auto)

lemma qs_push_ok:
  assumes I: "qs_inv rq X s" and cl: "qs_caller j (Call_push throws v) s"
  shows "\<exists>out s' X'. qs_segment j (Call_push throws v) n (qs_begin j (Call_push throws v) k) s = Some (out, s') \<and>
     qs_inv rq X' s' \<and> qs_flow X out X'"
proof -
  let ?w = "sy_world (qs_thread s)" and ?m = "sy_mgr (qs_thread s)"
  obtain fs where rep: "uq_rep (qs_q s j) (X j) fs" using qs_invD(3) [OF I, of j] by (rule qs_oneE)
  show ?thesis
  proof (cases "uq_state (qs_q s j) = CLOSED \<or> throws \<noteq> None")
    case True
    from qs_push_refused [OF rep True, of v k ?w ?m] obtain q' where "unbounded_queue_push throws v k ?w ?m (qs_q s j) =
      Some (Done (if uq_state (qs_q s j) = CLOSED then Inr queue_closed else Inl (the throws)), q', ctx_locked_world k ?m ?w, ?m)"
      "uq_rep q' (X j) fs" "uq_state q' = uq_state (qs_q s j)" by blast
    with qs_quiet_ok [OF I cl rep, where q' = q' and k = k and xs' = "X j" and n = n] show ?thesis
      by (fastforce simp: qs_begin_def qs_turn_def qs_flow_def)
  next
    case False
    then have opn: "uq_state (qs_q s j) = OPEN" "throws = None" by (metis queue_state.exhaust)+
    have "\<exists>s' X'. qs_segment j (Call_push throws v) n (qs_begin j (Call_push throws v) k) s = Some (Pushed j v (Inr queue_success), s') \<and>
      qs_inv rq X' s' \<and> qs_flow X (Pushed j v (Inr queue_success)) X' \<and>
      (\<forall>a. fm_active ?m = Some a \<longrightarrow> qs_in s' a = None)"
    proof (rule qs_answer_ok [OF I cl, of "take 1 fs" "drop 1 fs" "ctx_locked_world k ?m ?w", where xs' = "X j @ [v]"])
      show "\<exists>q'. qs_begin j (Call_push throws v) k ?w ?m (qs_q s j) = Some (Done (Pushed j v (Inr queue_success)), q', w, ?m) \<and>
        uq_rep q' (X j @ [v]) (drop 1 fs) \<and> (uq_state q' = CLOSED \<longrightarrow> drop 1 fs = [])"
        if "fb_set_ready_all (map Worker (take 1 fs)) (ctx_locked_world k ?m ?w) = Some w" for w
        using qs_push_open [OF rep opn(1) that, of v] opn(2) by (auto simp: qs_begin_def qs_turn_def)
    qed (use rep in \<open>auto simp: qs_flow_def\<close>)
    then show ?thesis by blast
  qed
qed

text \<open>A call that closes the queue wakes everybody.\<close>

lemma qs_closing_ok:
  assumes I: "qs_inv rq X s" and cl: "qs_caller j c s" and rep: "uq_rep (qs_q s j) (X j) fs"
    and v: "w_heap v = w_heap (sy_world (qs_thread s))" "w_wqs v = w_wqs (sy_world (qs_thread s))"
    and seg: "\<And>w. fb_set_ready_all (map Worker fs) v = Some w \<Longrightarrow>
      \<exists>q'. qs_begin j c k (sy_world (qs_thread s)) (sy_mgr (qs_thread s)) (qs_q s j) = Some (Done out, q', w, sy_mgr (qs_thread s)) \<and>
        uq_rep q' (X j) []"
    and flow: "qs_flow X out X"
  shows "\<exists>s' X'. qs_segment j c n (qs_begin j c k) s = Some (out, s') \<and> qs_inv rq X' s' \<and> qs_flow X out X' \<and>
     (\<forall>a. fm_active (sy_mgr (qs_thread s)) = Some a \<longrightarrow> qs_in s' a = None)"
  by (rule qs_answer_ok [OF I cl, of fs "[]" v, where xs' = "X j"]) (use rep v seg flow in auto)

lemma qs_pop_ok:
  assumes I: "qs_inv rq X s" and cl: "qs_caller j (Call_pop throws) s"
  shows "\<exists>out s' X'. qs_segment j (Call_pop throws) n (qs_begin j (Call_pop throws) k) s = Some (out, s') \<and>
     qs_inv rq X' s' \<and> qs_flow X out X' \<and> (\<forall>x xs. X j = x # xs \<longrightarrow> throws = None \<longrightarrow> out = Popped j (Inr (queue_success, Some x)))"
proof -
  let ?w = "sy_world (qs_thread s)" and ?m = "sy_mgr (qs_thread s)" and ?c = "Call_pop throws"
  let ?w' = "ctx_locked_world k ?m ?w"
  note D = qs_invD [OF I]
  obtain fs where rep: "uq_rep (qs_q s j) (X j) fs" using D(3) [of j] by (rule qs_oneE)
  note OD = qs_oneD [OF D(3) rep]
  show ?thesis
  proof (cases "X j")
    case (Cons x xs)
    note rep' = rep [unfolded Cons]
    show ?thesis
    proof (cases throws)
      case None
      from qs_pop_value [OF rep', of k ?w ?m] obtain q' where "unbounded_queue_pop None k ?w ?m (qs_q s j) =
        Some (Done (Inr (queue_success, Some x)), q', ?w', ?m)" "uq_rep q' xs fs" "uq_state q' = uq_state (qs_q s j)" by blast
      with qs_quiet_ok [OF I cl rep, where q' = q' and k = k and xs' = xs and n = n] None Cons show ?thesis
        by (fastforce simp: qs_begin_def qs_turn_def qs_flow_def)
    next
      case (Some e)
      have "\<exists>s' X'. qs_segment j ?c n (qs_begin j ?c k) s = Some (Popped j (Inl e), s') \<and> qs_inv rq X' s' \<and>
        qs_flow X (Popped j (Inl e)) X' \<and> (\<forall>a. fm_active ?m = Some a \<longrightarrow> qs_in s' a = None)"
      proof (rule qs_closing_ok [OF I cl rep, of ?w'])
        show "\<exists>q'. qs_begin j ?c k ?w ?m (qs_q s j) = Some (Done (Popped j (Inl e)), q', v, ?m) \<and> uq_rep q' (X j) []"
          if "fb_set_ready_all (map Worker fs) ?w' = Some v" for v
          using qs_pop_throws [OF rep' that, of e] Some Cons by (auto simp: qs_begin_def qs_turn_def)
      qed (simp_all add: qs_flow_def)
      with Some show ?thesis by blast
    qed
  next
    case Nil
    note rep' = rep [unfolded Nil]
    show ?thesis
    proof (cases "uq_state (qs_q s j)")
      case CLOSED
      from qs_quiet_ok [OF I cl rep, where q' = "qs_q s j" and k = k and xs' = "[]" and n = n]
        qs_pop_nothing(1) [OF rep' CLOSED, of throws k ?w ?m] rep' OD(2) [OF CLOSED] Nil show ?thesis
        by (fastforce simp: qs_begin_def qs_turn_def qs_flow_def)
    next
      case OPEN
      obtain a where a: "fm_active ?m = Some a" "\<not> interruption_requested (w_heap ?w a)" "cs_in (qs_cs s) a = None"
        "ms_in (qs_mx s) a = None" "qs_in s a = None \<or> (\<exists>c p. qs_in s a = Some (j, c, p))"
        using cl by (auto simp: qs_caller_def split: option.splits)
      from qs_slept_ok [OF I qs_callerD(1) [OF cl] rep' Nil OPEN a] Nil show ?thesis by (fastforce simp: qs_flow_def)
    qed
  qed
qed

lemma qs_try_pop_ok:
  assumes I: "qs_inv rq X s" and cl: "qs_caller j (Call_try_pop throws) s"
  shows "\<exists>out s' X'. qs_segment j (Call_try_pop throws) n (qs_begin j (Call_try_pop throws) k) s = Some (out, s') \<and>
     qs_inv rq X' s' \<and> qs_flow X out X'"
proof -
  let ?w = "sy_world (qs_thread s)" and ?m = "sy_mgr (qs_thread s)"
  obtain fs where rep: "uq_rep (qs_q s j) (X j) fs" using qs_invD(3) [OF I, of j] by (rule qs_oneE)
  note quiet = qs_quiet_ok [OF I cl rep, where k = k and n = n]
  show ?thesis
  proof (cases "X j")
    case Nil
    from quiet [where q' = "qs_q s j" and xs' = "[]"] qs_pop_nothing(2) [OF rep [unfolded Nil], of throws k ?w ?m] rep Nil show ?thesis
      by (fastforce simp: qs_begin_def qs_turn_def qs_flow_def)
  next
    case (Cons x xs)
    note rep' = rep [unfolded Cons]
    show ?thesis
    proof (cases throws)
      case None
      from qs_pop_value [OF rep', of k ?w ?m] obtain q' where "unbounded_queue_try_pop None k ?w ?m (qs_q s j) =
        Some (Done (Inr (queue_success, Some x)), q', ctx_locked_world k ?m ?w, ?m)" "uq_rep q' xs fs"
        "uq_state q' = uq_state (qs_q s j)" by blast
      with quiet [where q' = q' and xs' = xs] None Cons show ?thesis by (fastforce simp: qs_begin_def qs_turn_def qs_flow_def)
    next
      case (Some e)
      from quiet [where q' = "qs_q s j" and xs' = "X j"] qs_try_pop_throws [OF rep', of e k ?w ?m] rep Some show ?thesis
        by (fastforce simp: qs_begin_def qs_turn_def qs_flow_def)
    qed
  qed
qed

lemma qs_close_ok:
  assumes I: "qs_inv rq X s" and cl: "qs_caller j Call_close s"
  shows "\<exists>out s' X'. qs_segment j Call_close n (qs_begin j Call_close k) s = Some (out, s') \<and> qs_inv rq X' s' \<and> qs_flow X out X'"
proof -
  let ?w = "sy_world (qs_thread s)" and ?m = "sy_mgr (qs_thread s)"
  obtain fs where rep: "uq_rep (qs_q s j) (X j) fs" using qs_invD(3) [OF I, of j] by (rule qs_oneE)
  have "\<exists>s' X'. qs_segment j Call_close n (qs_begin j Call_close k) s = Some (Silent, s') \<and> qs_inv rq X' s' \<and>
    qs_flow X Silent X' \<and> (\<forall>a. fm_active ?m = Some a \<longrightarrow> qs_in s' a = None)"
  proof (rule qs_closing_ok [OF I cl rep, of ?w])
    show "\<exists>q'. qs_begin j Call_close k ?w ?m (qs_q s j) = Some (Done Silent, q', w, ?m) \<and> uq_rep q' (X j) []"
      if "fb_set_ready_all (map Worker fs) ?w = Some w" for w
      using uq_close_eval [OF uq_repD(4) [OF rep] that] rep
      by (simp add: qs_begin_def qs_turn_def unbounded_queue_close_def uq_rep_def condition_sleepers_def condition_init_def
          spinlock_init_def)
  qed (simp_all add: qs_flow_def)
  then show ?thesis by blast
qed

text \<open>All requests together.\<close>

lemma qs_call_ok:
  assumes I: "qs_inv rq X s" and cl: "qs_caller j c s"
  shows "\<exists>out s' X'. qs_segment j c n (qs_begin j c k) s = Some (out, s') \<and> qs_inv rq X' s' \<and> qs_flow X out X'"
proof (cases c)
  case (Call_push throws v)
  with qs_push_ok [OF I] cl show ?thesis by simp
next
  case (Call_pop throws)
  with qs_pop_ok [OF I, of j throws] cl show ?thesis by blast
next
  case (Call_try_pop throws)
  with qs_try_pop_ok [OF I] cl show ?thesis by simp
next
  case Call_close
  with qs_close_ok [OF I] cl show ?thesis by simp
qed

text \<open>A fiber that goes on in \<^verbatim>\<open>pop\<close> does what it would do at the beginning.\<close>

lemma qs_resume_eq:
  assumes I: "qs_inv rq X s" and en: "qs_enabled (Qs_resume k) s"
  shows "\<exists>a j throws. fm_active (sy_mgr (qs_thread s)) = Some a \<and> qs_in s a = Some (j, Call_pop throws, At_not_empty) \<and>
     qs_caller j (Call_pop throws) s \<and>
     qs_exec A (Qs_resume k) s = qs_segment j (Call_pop throws) 0 (qs_begin j (Call_pop throws) k) s"
proof -
  note D = qs_invD [OF I]
  obtain a j c p where a: "fm_active (sy_mgr (qs_thread s)) = Some a" "\<not> interruption_requested (w_heap (sy_world (qs_thread s)) a)"
    "qs_in s a = Some (j, c, p)" using en by (auto simp: qs_enabled_def Let_def split: option.splits)
  note p = D(6) [OF a(3)]
  obtain throws where c: "c = Call_pop throws" using p by (cases c) auto
  with a c p show ?thesis
    by (auto simp: qs_caller_def qs_exec_def qs_segment_def qs_again_def qs_begin_def qs_turn_def qs_pop_again qs_node_def)
qed

lemma qs_exec_ok:
  assumes I: "qs_inv rq X s" and en: "qs_enabled r s"
  shows "\<exists>out s' X'. qs_exec A r s = Some (out, s') \<and> qs_inv rq X' s' \<and> qs_flow X out X'"
proof (cases r)
  case (Qs_cs q)
  from qs_cs_ok [OF I en [unfolded Qs_cs]] have "\<exists>s'. qs_exec A r s = Some (Silent, s') \<and> qs_inv rq X s'" by (simp add: Qs_cs)
  moreover have "qs_flow X Silent X" by (simp add: qs_flow_def)
  ultimately show ?thesis by blast
next
  case Qs_new
  have "(qs_q s)(qs_count s := unbounded_queue_ctor) = qs_q s" using qs_invD(4) [OF I] by (simp add: fun_upd_idem)
  moreover have "qs_line (s\<lparr>qs_count := n\<rparr>) = qs_line s" for n by (rule ext) (simp add: qs_line_def)
  ultimately have "qs_inv rq X (s\<lparr>qs_count := qs_count s + 1\<rparr>)" "qs_exec A r s = Some (Silent, s\<lparr>qs_count := qs_count s + 1\<rparr>)"
    using I Qs_new by (auto simp: qs_exec_def qs_inv_def less_SucI)
  moreover have "qs_flow X Silent X" by (simp add: qs_flow_def)
  ultimately show ?thesis by blast
next
  case (Qs_call j c k)
  with en have "qs_caller j c s" by (auto simp: qs_enabled_def qs_caller_def Let_def split: option.splits)
  from qs_call_ok [OF I this] Qs_call show ?thesis by (simp add: qs_exec_def)
next
  case (Qs_resume k)
  from qs_resume_eq [OF I en [unfolded Qs_resume]] obtain j throws where
    "qs_caller j (Call_pop throws) s" "qs_exec A r s = qs_segment j (Call_pop throws) 0 (qs_begin j (Call_pop throws) k) s"
    using Qs_resume by auto
  with qs_call_ok [OF I] show ?thesis by metis
qed

lemma qs_run_inv:
  assumes "qs_run A s0 outs s" and "qs_inv rq X0 s0"
  shows "\<exists>X. qs_inv rq X s \<and> (\<forall>j. concat (map (qs_gets j) outs) @ X j = X0 j @ concat (map (qs_puts j) outs))"
  using assms
proof (induction rule: qs_run.induct)
  case start
  then show ?case by auto
next
  case (step outs s r out s')
  then obtain X where X: "qs_inv rq X s" "\<And>j. concat (map (qs_gets j) outs) @ X j = X0 j @ concat (map (qs_puts j) outs)" by blast
  from qs_exec_ok [OF X(1) step.hyps(2)] step.hyps(3) obtain X' where X': "qs_inv rq X' s'" "qs_flow X out X'" by auto
  have "concat (map (qs_gets j) (outs @ [out])) @ X' j = X0 j @ concat (map (qs_puts j) (outs @ [out]))" for j
    using X(2) [of j] X'(2) by (simp add: qs_flow_def)
  with X'(1) show ?case by blast
qed

end

section \<open>Properties\<close>

lemma qs_rr_inv:
  assumes "qs_run round_robin_algo (qs_init q h) outs s"
  shows "\<exists>X. qs_inv fifo_rep X s \<and> (\<forall>j. concat (map (qs_gets j) outs) @ X j = concat (map (qs_puts j) outs))"
  using rr.qs_run_inv [OF assms qs_init_inv] by simp

text \<open>A fiber inside \<^verbatim>\<open>pop\<close> is in the line, or it is on its way to the head of the queue.\<close>

lemma qs_in_place:
  assumes I: "qs_inv rq X s" and rep: "uq_rep (qs_q s j) (X j) fs" and f: "qs_in s f = Some (j, c, p)"
  shows "if f \<in> set fs then is_waiting (w_heap (sy_world (qs_thread s))) f
     else is_ready (w_heap (sy_world (qs_thread s))) f \<or> fm_active (sy_mgr (qs_thread s)) = Some f"
proof -
  note OD = qs_oneD [OF qs_invD(3) [OF I] rep]
  have "qs_line s f = Some (j, 0)" using f by (simp add: qs_line_def)
  then have "Worker f \<in> set (cv_waiting (uq_not_empty (qs_q s j))) \<or> roused (qs_thread s) f \<or> fm_active (sy_mgr (qs_thread s)) = Some f"
    using OD(1) by (auto simp: cv_one_def)
  moreover have "cv_waiting (uq_not_empty (qs_q s j)) = map Worker fs" using rep by (simp add: uq_rep_def condition_sleepers_def)
  ultimately show ?thesis using OD(5) [of f] by (auto simp: asleep_def roused_def is_waiting_def is_ready_def)
qed

lemma qs_woken_enough:
  assumes I: "qs_inv rq X s" and rep: "uq_rep (qs_q s j) (X j) fs" and ne: "fs \<noteq> []"
  shows "length (X j) \<le> card {g. (\<exists>c p. qs_in s g = Some (j, c, p)) \<and>
     (is_ready (w_heap (sy_world (qs_thread s))) g \<or> fm_active (sy_mgr (qs_thread s)) = Some g)}" (is "_ \<le> card ?G")
proof -
  have "qs_woken (qs_line s) j fs \<subseteq> ?G"
  proof
    fix g assume "g \<in> qs_woken (qs_line s) j fs"
    then obtain c p where "qs_in s g = Some (j, c, p)" "g \<notin> set fs" by (auto simp: qs_woken_def qs_line_eq)
    with qs_in_place [OF I rep this(1)] show "g \<in> ?G" by simp
  qed
  moreover have "?G \<subseteq> dom (qs_line s)" by (auto simp: dom_def qs_line_def)
  then have "finite ?G" by (rule finite_subset [OF _ qs_invD(5) [OF I]])
  ultimately have "card (qs_woken (qs_line s) j fs) \<le> card ?G" by (intro card_mono)
  with qs_oneD(3) [OF qs_invD(3) [OF I] rep ne] show ?thesis by simp
qed

fun qs_script :: "'s sched_algorithm \<Rightarrow> 'v qs_request list \<Rightarrow> ('s, 'v) qs_sys \<Rightarrow> ('v qs_out list \<times> ('s, 'v) qs_sys) option" where
  "qs_script A [] s = Some ([], s)"
| "qs_script A (r # rs) s =
     (if qs_enabled r s
      then do { (out, s') \<leftarrow> qs_exec A r s; (outs, s'') \<leftarrow> qs_script A rs s'; Some (out # outs, s'') }
      else None)"

lemma qs_script_run:
  "qs_script A rs s = Some (outs, s') \<Longrightarrow> qs_run A s0 before s \<Longrightarrow> qs_run A s0 (before @ outs) s'"
proof (induction rs arbitrary: s outs before)
  case (Cons r rs)
  from Cons.prems(1) obtain out s1 outs1 where
    "qs_enabled r s" "qs_exec A r s = Some (out, s1)" "qs_script A rs s1 = Some (outs1, s')" "outs = out # outs1"
    by (auto split: if_splits bind_splits)
  with Cons.IH [of s1 outs1 "before @ [out]"] qs_run.step [OF Cons.prems(2)] show ?case by simp
qed simp

text \<open>Fibers 1 and 2 wait for a value; the main context pushes one, which wakes fiber 1.\<close>

definition demo_qs_requests :: "int qs_request list" where
  "demo_qs_requests =
     (let sysq = \<lambda>q. Qs_cs (Cs_mx (Mx_sys q)) in
      [Qs_new, sysq (Rq_spawn 1), sysq (Rq_spawn 2), sysq (Rq_run 0 0), Qs_call 0 (Call_pop None) 0,
       sysq (Rq_run 1 1), Qs_call 0 (Call_pop None) 0, Qs_call 0 (Call_push None 8) 0])"

definition demo_qs :: "int qs_out list \<times> (round_robin, int) qs_sys" where
  "demo_qs = the (qs_script round_robin_algo demo_qs_requests (qs_init 0 (\<lambda>_. worker_fiber_init)))"

lemma demo_qs_run: "qs_run round_robin_algo (qs_init 0 (\<lambda>_. worker_fiber_init)) (fst demo_qs) (snd demo_qs)"
proof -
  let ?run = "qs_script round_robin_algo demo_qs_requests (qs_init 0 (\<lambda>_. worker_fiber_init))"
  have "map_option fst ?run \<noteq> None" by code_simp
  then obtain outs s' where s': "?run = Some (outs, s')" by auto
  with qs_script_run [OF s' qs_run.start] show ?thesis by (simp add: demo_qs_def)
qed

text \<open>
  C15: inside one thread an unbounded queue loses, doubles and reorders nothing. Whatever any number of
  fibers and the main context have done with each other, with mutexes, conditions and queues, also
  when copies of values have thrown and queues have been closed, the next permitted call of
  \<^verbatim>\<open>push\<close>, \<^verbatim>\<open>pop\<close>, \<^verbatim>\<open>try_pop\<close> or \<^verbatim>\<open>close\<close> runs into no assertion and into no
  undefined access; and for every queue the values that the callers of \<^verbatim>\<open>pop\<close> and
  \<^verbatim>\<open>try_pop\<close> have got, followed by those it holds, are the values whose \<^verbatim>\<open>push\<close> has
  succeeded, in this order.
\<close>

theorem queue_calls_keep_order:
  assumes "qs_run round_robin_algo (qs_init q h) outs s"
  shows "(qs_enabled r s \<longrightarrow> (\<exists>out s'. qs_exec round_robin_algo r s = Some (out, s'))) \<and>
     (\<exists>xs fs. uq_rep (qs_q s j) xs fs \<and> concat (map (qs_gets j) outs) @ xs = concat (map (qs_puts j) outs))"
proof -
  from qs_rr_inv [OF assms] obtain X where X: "qs_inv fifo_rep X s"
    "\<And>j. concat (map (qs_gets j) outs) @ X j = concat (map (qs_puts j) outs)" by blast
  obtain fs where "uq_rep (qs_q s j) (X j) fs" using qs_invD(3) [OF X(1), of j] by (rule qs_oneE)
  with X(2) rr.qs_exec_ok [OF X(1), of r] show ?thesis by blast
qed

theorem queue_calls_keep_order_witness:
  "fst demo_qs ! 7 = Pushed 0 8 (Inr queue_success) \<and>
   (\<exists>out s'. qs_exec round_robin_algo (Qs_call 0 (Call_try_pop None) 0) (snd demo_qs) = Some (out, s')) \<and>
   (\<exists>xs fs. uq_rep (qs_q (snd demo_qs) 0) xs fs \<and> xs = [8])"
proof -
  have ev: "concat (map (qs_gets 0) (fst demo_qs)) = []" "concat (map (qs_puts 0) (fst demo_qs)) = [8]"
    "fst demo_qs ! 7 = Pushed 0 8 (Inr queue_success)" "qs_enabled (Qs_call 0 (Call_try_pop None) 0) (snd demo_qs)" by code_simp+
  from queue_calls_keep_order [OF demo_qs_run, of "Qs_call 0 (Call_try_pop None) 0" 0] ev(3,4) show ?thesis
    unfolding ev(1,2) by auto
qed

text \<open>
  C16: inside one thread no value is left behind. A fiber inside \<^verbatim>\<open>pop\<close> is in the line of the
  queue and sleeps, or is ready or running. While fibers sleep there the queue is open, and as many
  fibers as it holds values are inside \<^verbatim>\<open>pop\<close> and ready or running; and a woken fiber that runs
  while the queue holds a value returns with the oldest one.
\<close>

theorem queue_values_not_stranded:
  assumes "qs_run round_robin_algo (qs_init q h) outs s" and "qs_in s f = Some (j, c, p)"
  shows "\<exists>xs fs. uq_rep (qs_q s j) xs fs \<and>
     (if f \<in> set fs
      then is_waiting (w_heap (sy_world (qs_thread s))) f \<and> uq_state (qs_q s j) = OPEN \<and>
        length xs \<le> card {g. (\<exists>c p. qs_in s g = Some (j, c, p)) \<and>
          (is_ready (w_heap (sy_world (qs_thread s))) g \<or> fm_active (sy_mgr (qs_thread s)) = Some g)}
      else is_ready (w_heap (sy_world (qs_thread s))) f \<or> fm_active (sy_mgr (qs_thread s)) = Some f) \<and>
     (\<forall>k x ys. fm_active (sy_mgr (qs_thread s)) = Some f \<longrightarrow> c = Call_pop None \<longrightarrow> qs_enabled (Qs_resume k) s \<longrightarrow> xs = x # ys \<longrightarrow>
       (\<exists>s'. qs_exec round_robin_algo (Qs_resume k) s = Some (Popped j (Inr (queue_success, Some x)), s')))"
proof -
  from qs_rr_inv [OF assms(1)] obtain X where I: "qs_inv fifo_rep X s" by blast
  obtain fs where rep: "uq_rep (qs_q s j) (X j) fs" using qs_invD(3) [OF I, of j] by (rule qs_oneE)
  note OD = qs_oneD [OF qs_invD(3) [OF I] rep]
  have "uq_state (qs_q s j) = OPEN" if "f \<in> set fs" using OD(2) that by (cases "uq_state (qs_q s j)") auto
  moreover have "\<exists>s'. qs_exec round_robin_algo (Qs_resume k) s = Some (Popped j (Inr (queue_success, Some x)), s')"
    if "fm_active (sy_mgr (qs_thread s)) = Some f" "c = Call_pop None" "qs_enabled (Qs_resume k) s" "X j = x # ys" for k x ys
  proof -
    from rr.qs_resume_eq [OF I that(3)] that(1,2) assms(2)
    have "qs_caller j (Call_pop None) s"
      "qs_exec round_robin_algo (Qs_resume k) s = qs_segment j (Call_pop None) 0 (qs_begin j (Call_pop None) k) s" by auto
    with rr.qs_pop_ok [OF I this(1), of 0 k] that(4) show ?thesis by auto
  qed
  moreover have "length (X j) \<le> card {g. (\<exists>c p. qs_in s g = Some (j, c, p)) \<and>
      (is_ready (w_heap (sy_world (qs_thread s))) g \<or> fm_active (sy_mgr (qs_thread s)) = Some g)}" if "f \<in> set fs"
    by (rule qs_woken_enough [OF I rep]) (use that in auto)
  ultimately show ?thesis using rep qs_in_place [OF I rep assms(2)]
    by (intro exI [of _ "X j"] exI [of _ fs]) (simp split: if_splits)
qed

theorem queue_values_not_stranded_witness:
  "qs_in (snd demo_qs) 2 = Some (0, Call_pop None, At_not_empty) \<and>
   (\<exists>xs fs. uq_rep (qs_q (snd demo_qs) 0) xs fs \<and> 2 \<in> set fs \<and>
      length xs \<le> card {g. (\<exists>c p. qs_in (snd demo_qs) g = Some (0, c, p)) \<and>
        (is_ready (w_heap (sy_world (qs_thread (snd demo_qs)))) g \<or>
         fm_active (sy_mgr (qs_thread (snd demo_qs))) = Some g)})"
proof -
  have ev: "qs_in (snd demo_qs) 2 = Some (0, Call_pop None, At_not_empty)"
    "\<not> is_ready (w_heap (sy_world (qs_thread (snd demo_qs)))) 2" "fm_active (sy_mgr (qs_thread (snd demo_qs))) \<noteq> Some 2"
    by code_simp+
  from queue_values_not_stranded [OF demo_qs_run ev(1)] ev show ?thesis by (auto split: if_splits)
qed

end
