(* ===== verification/Barrier.thy ===== *)
theory Barrier
  imports Blocking
begin

text \<open>
  The class \<^verbatim>\<open>barrier\<close> (\<^verbatim>\<open>barrier.hpp\<close>, \<^verbatim>\<open>src/barrier.cpp\<close>), built from a mutex and a
  condition variable, for callers that are fibers and for main contexts. A call of \<^verbatim>\<open>wait\<close> runs
  in segments: it can stop in the line of the mutex or at the condition, and is continued from
  there.
\<close>

record barrier =
  br_initial :: size_t
  br_current :: size_t
  br_cycle :: bool
  br_mtx :: mutex
  br_cond :: condition

definition barrier_ctor :: "size_t \<Rightarrow> barrier result" where
  "barrier_ctor initial =
     (if initial = 0 then Inl (invalid_argument errc_invalid_argument ''boost fiber: zero initial barrier count'')
      else Inr \<lparr>br_initial = initial, br_current = initial, br_cycle = True, br_mtx = mutex_init,
                br_cond = condition_init\<rparr>)"

section \<open>Waiting\<close>

text \<open>The counting of \<^verbatim>\<open>wait\<close>, done with the mutex held: whether the caller is the last to come.\<close>

definition barrier_count :: "barrier \<Rightarrow> bool \<times> barrier" where
  "barrier_count b =
     (let b1 = b\<lparr>br_current := br_current b - 1\<rparr> in
      if br_current b1 = 0 then (True, b1\<lparr>br_cycle := \<not> br_cycle b1, br_current := br_initial b1\<rparr>)
      else (False, b1))"

text \<open>\<^verbatim>\<open>cond_.wait( lk)\<close>, up to where the caller sleeps, and giving the mutex back at the end.\<close>

definition barrier_sleep :: "mfid \<Rightarrow> (bool result, barrier, 's) segment" where
  "barrier_sleep k w m b = do {
     (mx, cv, w', m') \<leftarrow> ctx_wait_enter k (br_mtx b) w m (br_cond b);
     Some (Asleep, b\<lparr>br_cond := cv, br_mtx := mx\<rparr>, w', m') }"

definition barrier_leave :: "bool \<Rightarrow> (bool result, barrier, 's) segment" where
  "barrier_leave r w m b = do {
     (mx, w') \<leftarrow> mutex_unlock w m (br_mtx b);
     Some (Done (Inr r), b\<lparr>br_mtx := mx\<rparr>, w', m) }"

text \<open>
  From the moment the caller has the mutex: the last one notifies the others and leaves with true,
  the others wait for the cycle to change. The caller remembers the value of \<^verbatim>\<open>cycle_\<close> from
  before.
\<close>

definition barrier_arrive :: "mfid \<Rightarrow> (bool result, barrier, 's) segment" where
  "barrier_arrive k w m b =
     (let (last, b1) = barrier_count b in
      if last then do {
        (cv, w1) \<leftarrow> condition_notify_all (br_cond b1) w;
        barrier_leave True w1 m (b1\<lparr>br_cond := cv\<rparr>) }
      else barrier_sleep k w m b1)"

definition barrier_wait :: "mfid \<Rightarrow> (bool result, barrier, 's) segment" where
  "barrier_wait k w m b = do {
     (got, mx, w1, m1) \<leftarrow> ctx_lock k w m (br_mtx b);
     let b1 = b\<lparr>br_mtx := mx\<rparr>;
     if got then barrier_arrive k w1 m1 b1 else Some (In_line, b1, w1, m1) }"

text \<open>The test of the loop, with the mutex held: wait on, or leave with false.\<close>

definition barrier_recheck :: "bool \<Rightarrow> mfid \<Rightarrow> (bool result, barrier, 's) segment" where
  "barrier_recheck cycle k w m b =
     (if cycle = br_cycle b then barrier_sleep k w m b else barrier_leave False w m b)"

text \<open>
  A woken caller: the interruption point of \<^verbatim>\<open>condition::wait\<close>, then the mutex again. One that
  has to wait in the line of the mutex comes back to \<open>barrier_relock\<close>. An interruption leaves
  \<^verbatim>\<open>wait\<close>; the arrival stays counted.
\<close>

definition barrier_relock :: "bool \<Rightarrow> mfid \<Rightarrow> (bool result, barrier, 's) segment" where
  "barrier_relock cycle k w m b = do {
     (got, mx, w1, m1) \<leftarrow> ctx_lock k w m (br_mtx b);
     let b1 = b\<lparr>br_mtx := mx\<rparr>;
     if got then barrier_recheck cycle k w1 m1 b1 else Some (In_line, b1, w1, m1) }"

definition barrier_woken :: "bool \<Rightarrow> mfid \<Rightarrow> (bool result, barrier, 's) segment" where
  "barrier_woken cycle k w m b =
     (case fm_active m of
        Some a \<Rightarrow> do {
          (r, cv, w1) \<leftarrow> condition_wait_resumed w m (br_cond b);
          let b1 = b\<lparr>br_cond := cv\<rparr>;
          case r of
            Inl e \<Rightarrow> Some (Done (Inl e), b1, w1, m)
          | Inr u \<Rightarrow> barrier_relock cycle k w1 m b1 }
      | None \<Rightarrow> barrier_relock cycle k w m b)"

section \<open>Counting\<close>

fun barrier_counts :: "nat \<Rightarrow> barrier \<Rightarrow> bool list \<times> barrier" where
  "barrier_counts 0 b = ([], b)"
| "barrier_counts (Suc n) b =
     (let (l, b1) = barrier_count b; (ls, b2) = barrier_counts n b1 in (l # ls, b2))"

lemma barrier_counts_part:
  "n < unat (br_current b) \<Longrightarrow>
     barrier_counts n b = (replicate n False, b\<lparr>br_current := br_current b - of_nat n\<rparr>)"
proof (induction n arbitrary: b)
  case (Suc n)
  have c: "unat (br_current b - 1) = unat (br_current b) - 1"
    using Suc.prems by (intro unat_minus_one) auto
  with Suc.prems have ne: "br_current b - 1 \<noteq> 0" by auto
  have "barrier_counts n (b\<lparr>br_current := br_current b - 1\<rparr>) =
      (replicate n False, b\<lparr>br_current := br_current b - 1 - of_nat n\<rparr>)"
    using Suc.IH [of "b\<lparr>br_current := br_current b - 1\<rparr>"] Suc.prems c by simp
  with ne show ?case by (simp add: barrier_count_def Let_def algebra_simps)
qed simp

lemma barrier_counts_append:
  "barrier_counts (n + k) b =
     (let (ls, b1) = barrier_counts n b; (ls', b2) = barrier_counts k b1 in (ls @ ls', b2))"
  by (induction n arbitrary: b) (auto simp: Let_def split: prod.splits)

text \<open>
  Of every \<open>initial\<close> successive arrivals at a barrier exactly the last is told that it is the
  last; it starts the next cycle, with the full count again. This holds up to the greatest count a
  \<^verbatim>\<open>size_t\<close> can hold.
\<close>

theorem barrier_counts_cycle:
  assumes "br_current b = br_initial b" and "0 < br_initial b"
  shows "barrier_counts (unat (br_initial b)) b =
     (replicate (unat (br_initial b) - 1) False @ [True], b\<lparr>br_cycle := \<not> br_cycle b\<rparr>)"
proof -
  let ?n = "unat (br_initial b) - 1"
  have n: "unat (br_initial b) = ?n + 1" using assms(2) by (simp add: word_less_nat_alt)
  have "of_nat (?n + 1) = br_initial b" unfolding n [symmetric] by simp
  then have "br_initial b - of_nat ?n = 1" by (auto simp: algebra_simps)
  moreover have "barrier_counts ?n b = (replicate ?n False, b\<lparr>br_current := br_current b - of_nat ?n\<rparr>)"
    using n assms(1) by (intro barrier_counts_part) simp
  ultimately have "barrier_counts (?n + 1) b = (replicate ?n False @ [True], b\<lparr>br_cycle := \<not> br_cycle b\<rparr>)"
    using assms(1) by (subst barrier_counts_append) (simp add: barrier_count_def)
  with n show ?thesis by simp
qed

theorem barrier_counts_cycle_witness:
  "case barrier_ctor 3 of Inr b \<Rightarrow> barrier_counts 3 b = ([False, False, True], b\<lparr>br_cycle := False\<rparr>) | _ \<Rightarrow> False"
proof -
  let ?b = "\<lparr>br_initial = 3, br_current = 3, br_cycle = True, br_mtx = mutex_init, br_cond = condition_init\<rparr>"
  have "unat (3 :: size_t) = 3" "(3 :: size_t) \<noteq> 0" "(0 :: size_t) < 3" by code_simp+
  with barrier_counts_cycle [of ?b] show ?thesis
    by (simp only: barrier_ctor_def barrier.simps if_False sum.case) (simp add: numeral_2_eq_2)
qed

section \<open>Barriers nobody has locked\<close>

text \<open>The fibers \<open>fs\<close> wait at the barrier.\<close>

definition barrier_rep :: "barrier \<Rightarrow> fid list \<Rightarrow> bool" where
  "barrier_rep b fs \<longleftrightarrow> br_mtx b = mutex_init \<and> condition_sleepers (br_cond b) fs"

lemma barrier_repD:
  assumes "barrier_rep b fs"
  shows "br_mtx b = mutex_init" "condition_sleepers (br_cond b) fs" "cv_splk (br_cond b) = UNLOCKED"
    "cv_waiting (br_cond b) = map Worker fs"
  using assms by (simp_all add: barrier_rep_def condition_sleepers_def)

lemma barrier_ctor_rep: "barrier_ctor n = Inr b \<Longrightarrow> barrier_rep b []"
  by (auto simp: barrier_ctor_def barrier_rep_def condition_sleepers_def condition_init_def spinlock_init_def split: if_splits)

lemma barrier_same: "br_mtx b = mx \<Longrightarrow> b\<lparr>br_mtx := mx\<rparr> = b"
  by (cases b) simp

lemma condition_emptied: "cv\<lparr>cv_waiting := [], cv_splk := UNLOCKED\<rparr> = condition_init"
  by (cases cv) (simp add: condition_init_def spinlock_init_def)

lemma barrier_last_arrives:
  assumes "barrier_rep b fs" and "br_current b = 1" and "fb_set_ready_all (map Worker fs) (ctx_locked_world k m w) = Some w'"
  shows "barrier_wait k w m b =
     Some (Done (Inr True), b\<lparr>br_cycle := \<not> br_cycle b, br_current := br_initial b, br_cond := condition_init\<rparr>, w', m)"
proof -
  note R = barrier_repD [OF assms(1)]
  have "b\<lparr>br_mtx := mx, br_current := x, br_cycle := y, br_cond := z, br_mtx := mutex_init\<rparr> =
      b\<lparr>br_cycle := y, br_current := x, br_cond := z\<rparr>" for mx x y z using R(1) by (cases b) simp
  with R assms(2,3) show ?thesis
    by (simp add: barrier_wait_def ctx_lock_free barrier_arrive_def barrier_count_def condition_notify_all_def
        condition_emptied barrier_leave_def ctx_unlock)
qed

lemma barrier_fiber_sleeps:
  assumes "barrier_rep b fs" and "fm_active m = Some a" and "a \<notin> set fs" and "fm_wait_enter LOCKED w m = Some (UNLOCKED, w', m)"
  shows "br_current b \<noteq> 1 \<Longrightarrow> barrier_wait k w m b = Some (Asleep,
      b\<lparr>br_current := br_current b - 1, br_cond := (br_cond b)\<lparr>cv_waiting := map Worker (fs @ [a])\<rparr>\<rparr>, w', m)"
    "cycle = br_cycle b \<Longrightarrow> barrier_relock cycle k w m b = Some (Asleep,
      b\<lparr>br_cond := (br_cond b)\<lparr>cv_waiting := map Worker (fs @ [a])\<rparr>\<rparr>, w', m)"
proof -
  note R = barrier_repD [OF assms(1)]
  have new: "Worker a \<notin> Worker ` set fs" using assms(3) by auto
  have eqs: "b\<lparr>br_mtx := mx, br_current := x, br_cond := z, br_mtx := mutex_init\<rparr> = b\<lparr>br_current := x, br_cond := z\<rparr>"
    "b\<lparr>br_cond := z, br_mtx := mutex_init\<rparr> = b\<lparr>br_cond := z\<rparr>"
    "(br_cond b)\<lparr>cv_waiting := ns, cv_splk := UNLOCKED\<rparr> = (br_cond b)\<lparr>cv_waiting := ns\<rparr>" for mx x z ns
    using R(1,3) by (cases b; cases "br_cond b"; simp)+
  have sl: "barrier_sleep k w m (c\<lparr>br_mtx := mutex_taken (this_get_id m)\<rparr>) = Some (Asleep,
      c\<lparr>br_cond := (br_cond b)\<lparr>cv_waiting := map Worker (fs @ [a])\<rparr>, br_mtx := mutex_init\<rparr>, w', m)"
    if "br_cond c = br_cond b" for c
    using R new assms(2,4) that
    by (simp add: barrier_sleep_def ctx_wait_enter_def condition_wait_enter_def ctx_unlock eqs(3))
  have cm: "b\<lparr>br_mtx := mx, br_current := x\<rparr> = b\<lparr>br_current := x, br_mtx := mx\<rparr>"
    "b\<lparr>br_current := x, br_cond := z, br_mtx := mutex_init\<rparr> = b\<lparr>br_current := x, br_cond := z\<rparr>" for mx x z
    using R(1) by (cases b; simp)+
  show "br_current b \<noteq> 1 \<Longrightarrow> barrier_wait k w m b = Some (Asleep,
      b\<lparr>br_current := br_current b - 1, br_cond := (br_cond b)\<lparr>cv_waiting := map Worker (fs @ [a])\<rparr>\<rparr>, w', m)"
    using R(1) assms(2) sl [of "b\<lparr>br_current := br_current b - 1\<rparr>"]
    by (simp add: barrier_wait_def ctx_lock_free barrier_arrive_def barrier_count_def cm)
  show "cycle = br_cycle b \<Longrightarrow> barrier_relock cycle k w m b = Some (Asleep,
      b\<lparr>br_cond := (br_cond b)\<lparr>cv_waiting := map Worker (fs @ [a])\<rparr>\<rparr>, w', m)"
    using R(1) assms(2) sl [of b] by (simp add: barrier_relock_def ctx_lock_free barrier_recheck_def eqs(2))
qed

lemma barrier_released:
  assumes "barrier_rep b fs" and "cycle \<noteq> br_cycle b"
  shows "barrier_relock cycle k w m b = Some (Done (Inr False), b, ctx_locked_world k m w, m)"
  using barrier_repD [OF assms(1)] assms(2)
  by (simp add: barrier_relock_def ctx_lock_free barrier_recheck_def barrier_leave_def ctx_unlock barrier_same)

lemma barrier_woken_again:
  assumes "fm_active m = Some a" and "\<not> interruption_requested (w_heap w a)"
  shows "barrier_woken cycle k w m b = barrier_relock cycle k w m b"
proof -
  have "condition_wait_resumed w m (br_cond b) = Some (Inr (), br_cond b, w)"
    using assms by (simp add: condition_wait_resumed_def interruption_point_def this_interruption_requested_def)
  moreover have "b\<lparr>br_cond := br_cond b\<rparr> = b" by (cases b) simp
  ultimately show ?thesis using assms(1) by (simp add: barrier_woken_def)
qed

section \<open>Properties\<close>

text \<open>
  The last arrival at a barrier lets everybody go. Every fiber that waits at the barrier becomes
  ready, the count is full again, and each of them, whenever it runs, finds the cycle changed and
  leaves \<^verbatim>\<open>wait\<close> with false instead of waiting again, unless other arrivals have completed
  another cycle by then.
\<close>

theorem barrier_last_releases_all:
  assumes "barrier_rep b fs" and "br_current b = 1" and "fm_queues fifo_rep w (m :: round_robin fiber_manager) ws rs"
    and "set fs \<subseteq> set ws"
  shows "\<exists>b' w' ws'. barrier_wait k w m b = Some (Done (Inr True), b', w', m) \<and> barrier_rep b' [] \<and>
     br_current b' = br_initial b \<and> fm_queues fifo_rep w' m ws' rs \<and> (\<forall>f \<in> set fs. is_ready (w_heap w') f) \<and>
     (\<forall>k1 w1 (m1 :: round_robin fiber_manager). barrier_relock (br_cycle b) k1 w1 m1 b' = Some (Done (Inr False), b', ctx_locked_world k1 m1 w1, m1))"
proof -
  note R = barrier_repD [OF assms(1)]
  have "fm_queues fifo_rep (ctx_locked_world k m w) m ws rs" using assms(3) by (simp add: fm_queues_ctx_locked)
  from rr.set_ready_all_ok [OF this, of fs] assms(4) obtain w' ws' where w:
    "set_ready_all fs (ctx_locked_world k m w) = Some w'" "fm_queues fifo_rep w' m ws' rs"
    "links_frame (set ws) (ready_all (set fs) (w_heap (ctx_locked_world k m w))) (w_heap w')" by blast
  define b' where "b' = b\<lparr>br_cycle := \<not> br_cycle b, br_current := br_initial b, br_cond := condition_init\<rparr>"
  have "barrier_wait k w m b = Some (Done (Inr True), b', w', m)"
    using barrier_last_arrives [OF assms(1,2)] w(1) by (simp add: fb_set_ready_all_workers b'_def)
  moreover have rep: "barrier_rep b' []"
    using R(1) by (simp add: barrier_rep_def condition_sleepers_def condition_init_def spinlock_init_def b'_def)
  moreover have "barrier_relock (br_cycle b) k1 w1 m1 b' = Some (Done (Inr False), b', ctx_locked_world k1 m1 w1, m1)"
    for k1 w1 and m1 :: "round_robin fiber_manager" by (rule barrier_released [OF rep]) (simp add: b'_def)
  ultimately show ?thesis using w(2) links_frame_fields(5) [OF w(3)]
    by (intro exI [of _ b'] exI [of _ w'] exI [of _ ws']) (simp add: b'_def is_ready_def ready_all_def)
qed

theorem barrier_last_releases_all_witness:
  "\<exists>b' w'. barrier_wait 0 (sy_world demo_sys4) (sy_mgr demo_sys4)
       \<lparr>br_initial = 2, br_current = 1, br_cycle = True, br_mtx = mutex_init,
         br_cond = \<lparr>cv_splk = UNLOCKED, cv_waiting = [Worker 2]\<rparr>\<rparr> =
     Some (Done (Inr True), b', w', sy_mgr demo_sys4) \<and> br_current b' = 2 \<and> is_ready (w_heap w') 2"
proof -
  let ?b = "\<lparr>br_initial = 2, br_current = 1, br_cycle = True, br_mtx = mutex_init,
    br_cond = \<lparr>cv_splk = UNLOCKED, cv_waiting = [Worker 2]\<rparr>\<rparr>"
  have "barrier_rep ?b [2]" by (simp add: barrier_rep_def condition_sleepers_def)
  from barrier_last_releases_all [OF this _ demo_sys4_queues(1), of 0] show ?thesis by auto
qed

text \<open>
  An interrupted fiber leaves \<^verbatim>\<open>wait\<close> with the exception while its arrival stays counted: the
  barrier opens for the others when one fiber less than \<open>initial\<close> is there.
\<close>

theorem barrier_interrupted_stays_counted:
  assumes "fm_active m = Some a" and "interruption_point w m = Some (Inl e, w1)"
    and "barrier_woken cycle k w m b = Some (t, b', w', m')"
  shows "t = Done (Inl e) \<and> br_current b' = br_current b \<and> Worker a \<in> set (cv_waiting (br_cond b))"
  using assms
  by (auto simp: barrier_woken_def condition_wait_resumed_def condition_forget_def erase_found_def split: bind_splits if_splits)

text \<open>
  With more fibers than the initial count a barrier can leave one behind, because \<^verbatim>\<open>cycle_\<close> has two
  values only. The first round of a barrier for two has opened, the fiber \<open>a\<close> has been woken but has
  not run yet. Before it does, two others come: the first sleeps, the second opens the barrier and
  turns \<^verbatim>\<open>cycle_\<close> back to the value that \<open>a\<close> remembers. When \<open>a\<close> runs, it sleeps again, and the
  barrier waits for two fibers more.
\<close>

theorem barrier_leaves_behind:
  assumes "barrier_rep b []" and "br_initial b = 2" and "br_current b = 2" and "cycle \<noteq> br_cycle b"
    and "fm_active m1 = Some f" and "fm_wait_enter LOCKED w1 m1 = Some (UNLOCKED, w1', m1)"
    and "set_ready f (ctx_locked_world k m2 w2) = Some w2'"
    and "fm_active m = Some a" and "fm_wait_enter LOCKED w m = Some (UNLOCKED, w', m)"
  shows "\<exists>b1 b2 b3. barrier_wait k w1 m1 b = Some (Asleep, b1, w1', m1) \<and>
     barrier_wait k w2 m2 b1 = Some (Done (Inr True), b2, w2', m2) \<and>
     barrier_relock cycle k w m b2 = Some (Asleep, b3, w', m) \<and> barrier_rep b3 [a] \<and> br_current b3 = 2"
proof -
  have "br_current b \<noteq> 1" unfolding assms(3) by code_simp
  define b1 where "b1 = b\<lparr>br_current := br_current b - 1, br_cond := (br_cond b)\<lparr>cv_waiting := map Worker ([] @ [f])\<rparr>\<rparr>"
  have 1: "barrier_wait k w1 m1 b = Some (Asleep, b1, w1', m1)"
    unfolding b1_def by (rule barrier_fiber_sleeps(1) [OF assms(1,5) _ assms(6)]) (simp, fact)
  have rep1: "barrier_rep b1 [f]" "br_current b1 = 1"
    using assms(1,3) by (simp_all add: b1_def barrier_rep_def condition_sleepers_def)
  define b2 where "b2 = b1\<lparr>br_cycle := \<not> br_cycle b1, br_current := br_initial b1, br_cond := condition_init\<rparr>"
  have 2: "barrier_wait k w2 m2 b1 = Some (Done (Inr True), b2, w2', m2)"
    unfolding b2_def by (rule barrier_last_arrives [OF rep1]) (use assms(7) in \<open>simp add: fb_set_ready_def\<close>)
  have rep2: "barrier_rep b2 []" "cycle = br_cycle b2" "br_current b2 = 2"
    using rep1 assms(2,4) by (auto simp: b2_def b1_def barrier_rep_def condition_sleepers_def condition_init_def spinlock_init_def)
  define b3 where "b3 = b2\<lparr>br_cond := (br_cond b2)\<lparr>cv_waiting := map Worker ([] @ [a])\<rparr>\<rparr>"
  have "barrier_relock cycle k w m b2 = Some (Asleep, b3, w', m)"
    unfolding b3_def by (rule barrier_fiber_sleeps(2) [OF rep2(1) assms(8) _ assms(9) rep2(2)]) simp
  moreover have "barrier_rep b3 [a]" "br_current b3 = 2"
    using rep2 by (simp_all add: b3_def barrier_rep_def condition_sleepers_def)
  ultimately show ?thesis using 1 2 by blast
qed

end
