(* ===== verification/Barrier_System.thy ===== *)
theory Barrier_System
  imports Condition_System Barrier
begin

text \<open>
  Fibers that share mutexes, condition variables and barriers: \<open>Condition_System\<close> extended by the
  calls of \<^verbatim>\<open>barrier::wait\<close> (\<^verbatim>\<open>src/barrier.cpp\<close>). The theory shows that a barrier that is used by
  no more fibers than it was constructed for opens exactly when all of them have come, round after
  round, that nobody leaves earlier and that everybody leaves then. With more fibers one of them can
  be left behind (\<open>barrier_leaves_behind\<close> in \<open>Barrier\<close>).
\<close>

section \<open>States and requests\<close>

text \<open>
  \<open>bs_in f = Some (j, c, p)\<close>: the fiber \<open>f\<close> is inside \<^verbatim>\<open>wait\<close> of the barrier \<open>j\<close>, remembers
  the cycle \<open>c\<close> and has stopped at \<open>p\<close>: in the line of the mutex before it has counted, at the
  condition, or in the line of the mutex after that. \<open>bs_users j\<close> are the fibers that have called
  \<^verbatim>\<open>wait\<close> of \<open>j\<close>.
\<close>

datatype bs_place = Entering | Sleeping | Returning

record 's bs_sys =
  bs_cs :: "'s cv_sys"
  bs_count :: nat
  bs_b :: "nat \<Rightarrow> barrier"
  bs_users :: "nat \<Rightarrow> fid list"
  bs_in :: "fid \<Rightarrow> (nat \<times> bool \<times> bs_place) option"

datatype bs_request = Bs_cs cv_request | Bs_new size_t | Bs_wait nat mfid | Bs_resume mfid

text \<open>
  What happens at the barrier with the given number: a caller has been counted and waits, a woken
  one waits again, one waits for the mutex, or one leaves with a result.
\<close>

datatype bs_out = Silent | Refused exn | Waits nat | Waits_again nat | In_mutex_line nat | Leaves nat "bool result"

definition bs_init :: "wqid \<Rightarrow> heap \<Rightarrow> round_robin bs_sys" where
  "bs_init q h = \<lparr>bs_cs = cs_init q h, bs_count = 0,
     bs_b = (\<lambda>_. \<lparr>br_initial = 1, br_current = 1, br_cycle = True, br_mtx = mutex_init, br_cond = condition_init\<rparr>),
     bs_users = (\<lambda>_. []), bs_in = (\<lambda>_. None)\<rparr>"

abbreviation bs_mx :: "'s bs_sys \<Rightarrow> 's mx_sys" where
  "bs_mx s \<equiv> cs_mx (bs_cs s)"

abbreviation bs_thread :: "'s bs_sys \<Rightarrow> 's sys" where
  "bs_thread s \<equiv> ms_sys (bs_mx s)"

text \<open>
  The end of a segment of a call at the barrier \<open>j\<close> by the fiber \<open>a\<close>, which remembers the cycle
  \<open>c\<close>; \<open>zz\<close> is what is seen if it sleeps, \<open>p\<close> where it is if it stops in the line of the mutex.
\<close>

definition bs_settle ::
  "fid \<Rightarrow> nat \<Rightarrow> bool \<Rightarrow> bs_out \<Rightarrow> bs_place \<Rightarrow> bool result turn \<times> barrier \<times> world \<times> 's fiber_manager \<Rightarrow> 's bs_sys \<Rightarrow>
   (bs_out \<times> 's bs_sys) option" where
  "bs_settle a j c zz p seg s =
     (let (t, b, w, m) = seg;
          put = (\<lambda>y. s\<lparr>bs_cs := (bs_cs s)\<lparr>cs_mx := (bs_mx s)\<lparr>ms_sys := y\<rparr>\<rparr>, bs_b := (bs_b s)(j := b),
                      bs_users := (bs_users s)(j := List.insert a (bs_users s j))\<rparr>);
          leave = (\<lambda>out place. do {
            y \<leftarrow> sys_leave a In_wait w m (bs_thread s);
            Some (out, (put y)\<lparr>bs_in := (bs_in s)(a := Some (j, c, place))\<rparr>) }) in
      case t of
        Done r \<Rightarrow> Some (Leaves j r, (put ((bs_thread s)\<lparr>sy_world := w, sy_mgr := m\<rparr>))\<lparr>bs_in := (bs_in s)(a := None)\<rparr>)
      | Asleep \<Rightarrow> leave zz Sleeping
      | _ \<Rightarrow> leave (In_mutex_line j) p)"

definition bs_exec :: "'s sched_algorithm \<Rightarrow> bs_request \<Rightarrow> 's bs_sys \<Rightarrow> (bs_out \<times> 's bs_sys) option" where
  "bs_exec A r s =
     (let w = sy_world (bs_thread s); m = sy_mgr (bs_thread s) in
      case r of
        Bs_cs q \<Rightarrow> do { x \<leftarrow> cs_exec A q (bs_cs s); Some (Silent, s\<lparr>bs_cs := x\<rparr>) }
      | Bs_new n \<Rightarrow>
          (case barrier_ctor n of
             Inl e \<Rightarrow> Some (Refused e, s)
           | Inr b \<Rightarrow> Some (Silent, s\<lparr>bs_count := bs_count s + 1, bs_b := (bs_b s)(bs_count s := b)\<rparr>))
      | Bs_wait j k \<Rightarrow> do {
          a \<leftarrow> fm_active m;
          seg \<leftarrow> barrier_wait k w m (bs_b s j);
          bs_settle a j (br_cycle (bs_b s j)) (Waits j) Entering seg s }
      | Bs_resume k \<Rightarrow> do {
          a \<leftarrow> fm_active m;
          (j, c, p) \<leftarrow> bs_in s a;
          case p of
            Entering \<Rightarrow> do {
              seg \<leftarrow> barrier_wait k w m (bs_b s j);
              bs_settle a j (br_cycle (bs_b s j)) (Waits j) Entering seg s }
          | Sleeping \<Rightarrow> do {
              seg \<leftarrow> barrier_woken c k w m (bs_b s j);
              bs_settle a j c (Waits_again j) Returning seg s }
          | Returning \<Rightarrow> do {
              seg \<leftarrow> barrier_relock c k w m (bs_b s j);
              bs_settle a j c (Waits_again j) Returning seg s } })"

text \<open>
  The rules: nobody wakes or interrupts a fiber inside \<^verbatim>\<open>wait\<close> but through the barrier, such a
  fiber, when it runs, goes on in \<^verbatim>\<open>wait\<close>, and no more fibers than the initial count use a barrier.
\<close>

definition bs_free :: "'s bs_sys \<Rightarrow> fid option \<Rightarrow> bool" where
  "bs_free s af \<longleftrightarrow> (case af of None \<Rightarrow> True | Some a \<Rightarrow> bs_in s a = None)"

definition bs_invited :: "'s bs_sys \<Rightarrow> nat \<Rightarrow> fid \<Rightarrow> bool" where
  "bs_invited s j a \<longleftrightarrow> a \<in> set (bs_users s j) \<or> length (bs_users s j) < unat (br_initial (bs_b s j))"

definition bs_enabled :: "bs_request \<Rightarrow> 's bs_sys \<Rightarrow> bool" where
  "bs_enabled r s \<longleftrightarrow>
     (let active = fm_active (sy_mgr (bs_thread s)); h = w_heap (sy_world (bs_thread s)) in
      case r of
        Bs_cs q \<Rightarrow> cs_enabled q (bs_cs s) \<and> bs_free s active \<and> bs_free s (cs_target q)
      | Bs_new n \<Rightarrow> True
      | Bs_wait j k \<Rightarrow> j < bs_count s \<and>
          (case active of None \<Rightarrow> False
           | Some a \<Rightarrow> bs_in s a = None \<and> cs_in (bs_cs s) a = None \<and> ms_in (bs_mx s) a = None \<and>
               \<not> interruption_requested (h a) \<and> bs_invited s j a)
      | Bs_resume k \<Rightarrow>
          (case active of None \<Rightarrow> False | Some a \<Rightarrow> bs_in s a \<noteq> None \<and> \<not> interruption_requested (h a)))"

text \<open>A history of the thread, with everything that happened at its barriers.\<close>

inductive bs_run :: "'s sched_algorithm \<Rightarrow> 's bs_sys \<Rightarrow> bs_out list \<Rightarrow> 's bs_sys \<Rightarrow> bool" for A s0 where
  start: "bs_run A s0 [] s0"
| step: "bs_run A s0 outs s \<Longrightarrow> bs_enabled r s \<Longrightarrow> bs_exec A r s = Some (out, s') \<Longrightarrow> bs_run A s0 (outs @ [out]) s'"

section \<open>The invariant\<close>

text \<open>The fibers inside calls, with the cycle they remember.\<close>

definition bs_line :: "'s bs_sys \<Rightarrow> fid \<Rightarrow> (nat \<times> nat) option" where
  "bs_line s f = map_option (\<lambda>(j, c, p). (j, of_bool c)) (bs_in s f)"

definition bs_woken :: "(fid \<Rightarrow> (nat \<times> nat) option) \<Rightarrow> nat \<Rightarrow> fid list \<Rightarrow> fid set" where
  "bs_woken inl j fs = {f. (\<exists>i. inl f = Some (j, i)) \<and> f \<notin> set fs}"

text \<open>How many fibers have been sent to sleep, how often the barrier has opened, and how many fibers have been let go.\<close>

definition bs_tally :: "nat \<Rightarrow> bs_out list \<Rightarrow> nat \<Rightarrow> nat \<Rightarrow> nat \<Rightarrow> bool" where
  "bs_tally j outs n x y \<longleftrightarrow>
     count_list outs (Waits j) = (n - 1) * count_list outs (Leaves j (Inr True)) + x \<and>
     count_list outs (Leaves j (Inr False)) + y = (n - 1) * count_list outs (Leaves j (Inr True))"

text \<open>
  Nobody holds the mutex of a barrier between two steps. The fibers that remember the present cycle
  sleep in the line, the others have been woken. The counter says how many are missing.
\<close>

definition bs_one ::
  "'s sys \<Rightarrow> (fid \<Rightarrow> (nat \<times> nat) option) \<Rightarrow> nat \<Rightarrow> barrier \<Rightarrow> fid list \<Rightarrow> bs_out list \<Rightarrow> bool" where
  "bs_one y inl j b us outs \<longleftrightarrow> cv_one y inl j (br_cond b) \<and> distinct us \<and> length us \<le> unat (br_initial b) \<and>
     (\<exists>fs. barrier_rep b fs \<and> unat (br_current b) + length fs = unat (br_initial b) \<and> 0 < unat (br_current b) \<and>
       (\<forall>f i. inl f = Some (j, i) \<longrightarrow> f \<in> set us \<and> (f \<in> set fs \<longleftrightarrow> i = of_bool (br_cycle b))) \<and>
       bs_tally j outs (unat (br_initial b)) (length fs) (card (bs_woken inl j fs)))"

definition bs_inv :: "(heap \<Rightarrow> 's \<Rightarrow> fid list \<Rightarrow> bool) \<Rightarrow> bs_out list \<Rightarrow> 's bs_sys \<Rightarrow> bool" where
  "bs_inv rq outs s \<longleftrightarrow> cs_inv rq (bs_cs s) \<and>
     (\<forall>j < bs_count s. bs_one (bs_thread s) (bs_line s) j (bs_b s j) (bs_users s j) outs) \<and>
     (\<forall>j \<ge> bs_count s. bs_users s j = [] \<and> bs_tally j outs 1 0 0 \<and> count_list outs (Leaves j (Inr True)) = 0) \<and>
     (\<forall>f j c p. bs_in s f = Some (j, c, p) \<longrightarrow>
        cs_in (bs_cs s) f = None \<and> ms_in (bs_mx s) f = None \<and> p = Sleeping \<and> j < bs_count s)"

lemma bs_invD:
  assumes "bs_inv rq outs s"
  shows "cs_inv rq (bs_cs s)" "sys_inv rq (bs_thread s)"
    "j < bs_count s \<Longrightarrow> bs_one (bs_thread s) (bs_line s) j (bs_b s j) (bs_users s j) outs"
    "bs_count s \<le> j \<Longrightarrow> bs_users s j = [] \<and> bs_tally j outs 1 0 0 \<and> count_list outs (Leaves j (Inr True)) = 0"
    "bs_in s f = Some (j, c, p) \<Longrightarrow> cs_in (bs_cs s) f = None \<and> ms_in (bs_mx s) f = None \<and> p = Sleeping \<and> j < bs_count s"
  using assms unfolding bs_inv_def cs_inv_def mx_inv_def by blast+

lemma bs_line_eq: "bs_line s f = Some (j, i) \<longleftrightarrow> (\<exists>c p. i = of_bool c \<and> bs_in s f = Some (j, c, p))"
  "bs_line s f = None \<longleftrightarrow> bs_in s f = None"
  by (auto simp: bs_line_def)

lemma bs_init_inv: "bs_inv fifo_rep [] (bs_init q h)"
  using cs_init_inv [of q h] by (simp add: bs_inv_def bs_init_def bs_tally_def)

lemma bs_lines:
  assumes "bs_inv rq outs s"
  shows "cv_one (bs_thread s) (bs_line s) j (if j < bs_count s then br_cond (bs_b s j) else condition_init)"
proof (cases "j < bs_count s")
  case False
  then have "bs_line s f \<noteq> Some (j, i)" for f i using bs_invD(5) [OF assms, of f j] by (auto simp: bs_line_eq)
  with False show ?thesis by (simp add: cv_one_def condition_init_def spinlock_init_def)
qed (use bs_invD(3) [OF assms] in \<open>simp add: bs_one_def\<close>)

text \<open>What happens elsewhere does not change the tally.\<close>

fun bs_at :: "bs_out \<Rightarrow> nat option" where
  "bs_at (Waits j) = Some j"
| "bs_at (Leaves j (Inr r)) = Some j"
| "bs_at _ = None"

lemma bs_tally_other: "bs_at out \<noteq> Some j \<Longrightarrow> bs_tally j (outs @ [out]) n x y = bs_tally j outs n x y"
  by (cases out) (auto simp: bs_tally_def split: if_splits)

lemma bs_one_other:
  assumes "bs_at out \<noteq> Some j"
  shows "bs_one y inl j b us (outs @ [out]) = bs_one y inl j b us outs"
  by (simp add: bs_one_def bs_tally_other [OF assms])

lemma bs_one_calm: "bs_one y inl j b us outs \<Longrightarrow> cs_calm y y' inl \<Longrightarrow> bs_one y' inl j b us outs"
  unfolding bs_one_def using cv_one_calm by blast

lemma bs_oneE:
  assumes "bs_one y inl j b us outs"
  obtains fs where "barrier_rep b fs" "cv_one y inl j (br_cond b)" "unat (br_current b) + length fs = unat (br_initial b)"
    "0 < unat (br_current b)" "\<And>f i. inl f = Some (j, i) \<Longrightarrow> f \<in> set us \<and> (f \<in> set fs \<longleftrightarrow> i = of_bool (br_cycle b))"
    "bs_tally j outs (unat (br_initial b)) (length fs) (card (bs_woken inl j fs))"
    "distinct us" "length us \<le> unat (br_initial b)" "distinct fs" "\<And>f. f \<in> set fs \<Longrightarrow> asleep y f \<and> (\<exists>i. inl f = Some (j, i))"
proof -
  obtain fs where fs: "barrier_rep b fs" "cv_one y inl j (br_cond b)" "unat (br_current b) + length fs = unat (br_initial b)"
    "0 < unat (br_current b)" "\<And>f i. inl f = Some (j, i) \<Longrightarrow> f \<in> set us \<and> (f \<in> set fs \<longleftrightarrow> i = of_bool (br_cycle b))"
    "bs_tally j outs (unat (br_initial b)) (length fs) (card (bs_woken inl j fs))" "distinct us" "length us \<le> unat (br_initial b)"
    using assms unfolding bs_one_def by metis
  have "distinct fs" "\<And>f. f \<in> set fs \<Longrightarrow> asleep y f \<and> (\<exists>i. inl f = Some (j, i))"
    using fs(2) barrier_repD(4) [OF fs(1)] by (auto simp: cv_one_def distinct_map)
  with fs that show thesis by blast
qed

text \<open>If all but one of the users are in the line and the last one comes, nobody else is inside.\<close>

lemma bs_nobody_woken:
  assumes us: "distinct us" "length us \<le> n" and fs: "distinct fs" "length fs = n - 1" "0 < n" "set fs \<subseteq> set us"
    and a: "a \<in> set us" "a \<notin> set fs" and f: "f \<in> set us" "f \<noteq> a"
  shows "f \<in> set fs"
proof -
  have "card (insert a (set fs)) = n" using fs(1-3) a(2) by (simp add: distinct_card)
  moreover have "card (set us) \<le> n" using us by (simp add: distinct_card)
  ultimately have "insert a (set fs) = set us" using a(1) fs(4) by (intro card_seteq) auto
  with f show ?thesis by auto
qed

text \<open>The last one has come.\<close>

definition barrier_opened :: "barrier \<Rightarrow> barrier" where
  "barrier_opened b = b\<lparr>br_cycle := \<not> br_cycle b, br_current := br_initial b, br_cond := condition_init\<rparr>"

lemma bs_one_opened:
  assumes O: "bs_one y inl j b us outs" and rep: "barrier_rep b fs" and cur: "br_current b = 1" and mgr: "sy_mgr y' = sy_mgr y"
    and up: "\<forall>f \<in> set fs. roused y' f"
    and keep: "\<forall>g. g \<notin> set fs \<longrightarrow> (asleep y g \<longrightarrow> asleep y' g) \<and> (roused y g \<longrightarrow> roused y' g)"
    and a: "inl a = None" "a \<in> set us \<or> length us < unat (br_initial b)"
  shows "bs_one y' inl j (barrier_opened b) (List.insert a us) (outs @ [Leaves j (Inr True)])"
proof -
  let ?n = "unat (br_initial b)" and ?us = "List.insert a us"
  from O obtain gs where gs: "barrier_rep b gs" "cv_one y inl j (br_cond b)" "unat (br_current b) + length gs = ?n"
    "\<And>f i. inl f = Some (j, i) \<Longrightarrow> f \<in> set us \<and> (f \<in> set gs \<longleftrightarrow> i = of_bool (br_cycle b))"
    "bs_tally j outs ?n (length gs) (card (bs_woken inl j gs))" "distinct us" "length us \<le> ?n" "distinct gs"
    "\<And>f. f \<in> set gs \<Longrightarrow> \<exists>i. inl f = Some (j, i)" by (elim bs_oneE) blast
  have "map Worker gs = map Worker fs" using barrier_repD(4) [OF gs(1)] barrier_repD(4) [OF rep] by simp
  then have eq: "gs = fs" by (rule map_injective) (simp add: inj_on_def)
  have n: "0 < ?n" "length fs = ?n - 1" using gs(3) cur eq by simp_all
  have fus: "a \<notin> set fs" "set fs \<subseteq> set us" using gs(4,9) a(1) eq by (metis option.distinct(1), metis subsetI)
  then have us: "distinct ?us" "length ?us \<le> ?n" "a \<in> set ?us" "a \<notin> set fs" "set fs \<subseteq> set ?us"
    using gs(6,7) a(2) by (auto simp: List.insert_def)
  have inside: "f \<in> set fs" if "inl f = Some (j, i)" for f i
  proof (rule bs_nobody_woken [OF us(1,2) gs(8) [unfolded eq] n(2,1) us(5,3,4)])
    show "f \<in> set ?us" using gs(4) [OF that] by simp
    show "f \<noteq> a" using that a(1) by auto
  qed
  have cv: "cv_one y' inl j (br_cond (barrier_opened b))"
  proof -
    have line: "cv_waiting (br_cond b) = map Worker fs @ []" using barrier_repD(4) [OF rep] by simp
    have "br_cond (barrier_opened b) = (br_cond b)\<lparr>cv_waiting := []\<rparr>"
      using barrier_repD(3) [OF rep] by (simp add: barrier_opened_def condition_init_def spinlock_init_def)
    with cv_one_notified [OF gs(2) line mgr up keep] show ?thesis by simp
  qed
  have rep': "barrier_rep (barrier_opened b) []"
    using barrier_repD(1) [OF rep] by (simp add: barrier_rep_def barrier_opened_def condition_sleepers_def condition_init_def spinlock_init_def)
  have "bs_woken inl j fs = {}" "bs_woken inl j [] = set fs" using inside gs(9) eq by (auto simp: bs_woken_def)
  then have "bs_tally j (outs @ [Leaves j (Inr True)]) ?n 0 (card (bs_woken inl j []))"
    using gs(5,8) eq n(2) by (simp add: bs_tally_def distinct_card algebra_simps)
  moreover have "f \<in> set ?us \<and> (f \<in> set [] \<longleftrightarrow> i = of_bool (\<not> br_cycle b))" if "inl f = Some (j, i)" for f i
    using gs(4) [OF that] inside [OF that] eq by auto
  ultimately show ?thesis unfolding bs_one_def using cv us(1,2) n(1) rep'
    by (intro conjI exI [of _ "[]"]) (simp_all add: barrier_opened_def)
qed

text \<open>One that is not the last sleeps now at the end of the line.\<close>

definition barrier_joined :: "barrier \<Rightarrow> fid list \<Rightarrow> barrier" where
  "barrier_joined b fs = b\<lparr>br_current := br_current b - 1, br_cond := (br_cond b)\<lparr>cv_waiting := map Worker fs\<rparr>\<rparr>"

lemma bs_one_joined:
  assumes O: "bs_one y inl j b us outs" and rep: "barrier_rep b fs" and cur: "br_current b \<noteq> 1"
    and a: "inl a = None" "a \<in> set us \<or> length us < unat (br_initial b)"
    and cv: "cv_one y' (inl(a := Some (j, of_bool (br_cycle b)))) j (br_cond (barrier_joined b (fs @ [a])))"
  shows "bs_one y' (inl(a := Some (j, of_bool (br_cycle b)))) j (barrier_joined b (fs @ [a])) (List.insert a us) (outs @ [Waits j])"
proof -
  let ?n = "unat (br_initial b)" and ?us = "List.insert a us" and ?in = "inl(a := Some (j, of_bool (br_cycle b)))"
  from O obtain gs where gs: "barrier_rep b gs" "unat (br_current b) + length gs = ?n" "0 < unat (br_current b)"
    "\<And>f i. inl f = Some (j, i) \<Longrightarrow> f \<in> set us \<and> (f \<in> set gs \<longleftrightarrow> i = of_bool (br_cycle b))"
    "bs_tally j outs ?n (length gs) (card (bs_woken inl j gs))" "distinct us" "length us \<le> ?n" by (elim bs_oneE) blast
  have "map Worker gs = map Worker fs" using barrier_repD(4) [OF gs(1)] barrier_repD(4) [OF rep] by simp
  then have eq: "gs = fs" by (rule map_injective) (simp add: inj_on_def)
  have us: "distinct ?us" "length ?us \<le> ?n" "a \<in> set ?us" "set us \<subseteq> set ?us" using gs(6,7) a(2) by (auto simp: List.insert_def)
  have c: "unat (br_current b - 1) = unat (br_current b) - 1" using gs(3) by (intro unat_minus_one) auto
  have "unat (br_current b) \<noteq> 1" using cur by (metis unat_1 word_unat_eq_iff)
  with gs(3) have c2: "1 < unat (br_current b)" by simp
  have rep': "barrier_rep (barrier_joined b (fs @ [a])) (fs @ [a])"
    using rep by (simp add: barrier_rep_def barrier_joined_def condition_sleepers_def)
  have "bs_woken ?in j (fs @ [a]) = bs_woken inl j fs" using a(1) by (auto simp: bs_woken_def)
  then have "bs_tally j (outs @ [Waits j]) ?n (length (fs @ [a])) (card (bs_woken ?in j (fs @ [a])))"
    using gs(5) eq by (simp add: bs_tally_def)
  moreover have "f \<in> set ?us \<and> (f \<in> set (fs @ [a]) \<longleftrightarrow> i = of_bool (br_cycle b))" if "?in f = Some (j, i)" for f i
    using gs(4) [of f i] that us(3,4) eq by (auto split: if_splits)
  ultimately show ?thesis unfolding bs_one_def using cv us(1,2) rep' gs(2) eq c c2
    by (intro conjI exI [of _ "fs @ [a]"]) (simp_all add: barrier_joined_def)
qed

text \<open>A woken one leaves.\<close>

lemma bs_one_left:
  assumes O: "bs_one y inl j b us outs" and a: "inl a = Some (j, i)" "\<not> asleep y a"
  shows "i \<noteq> of_bool (br_cycle b)" "bs_one y (inl(a := None)) j b (List.insert a us) (outs @ [Leaves j (Inr False)])"
proof -
  let ?n = "unat (br_initial b)" and ?in = "inl(a := None)"
  from O obtain fs where fs: "barrier_rep b fs" "cv_one y inl j (br_cond b)" "unat (br_current b) + length fs = ?n" "0 < unat (br_current b)"
    "\<And>f i. inl f = Some (j, i) \<Longrightarrow> f \<in> set us \<and> (f \<in> set fs \<longleftrightarrow> i = of_bool (br_cycle b))"
    "bs_tally j outs ?n (length fs) (card (bs_woken inl j fs))" "distinct us" "length us \<le> ?n"
    "\<And>f. f \<in> set fs \<Longrightarrow> asleep y f" by (elim bs_oneE) blast
  have na: "a \<notin> set fs" using fs(9) a(2) by blast
  then show "i \<noteq> of_bool (br_cycle b)" using fs(5) [OF a(1)] by simp
  have us: "List.insert a us = us" using fs(5) [OF a(1)] by simp
  have W: "bs_woken ?in j fs = bs_woken inl j fs - {a}" "a \<in> bs_woken inl j fs" using a(1) na by (auto simp: bs_woken_def)
  have "bs_woken inl j fs \<subseteq> set us" using fs(5) by (auto simp: bs_woken_def)
  then have "finite (bs_woken inl j fs)" by (rule finite_subset) simp
  from card_Suc_Diff1 [OF this W(2)] have "card (bs_woken inl j fs) = card (bs_woken ?in j fs) + 1" by (simp add: W(1))
  then have "bs_tally j (outs @ [Leaves j (Inr False)]) ?n (length fs) (card (bs_woken ?in j fs))"
    using fs(6) by (simp add: bs_tally_def)
  moreover have "cv_one y ?in j (br_cond b)" by (rule cv_one_left [OF fs(2) a(2)])
  ultimately show "bs_one y ?in j b (List.insert a us) (outs @ [Leaves j (Inr False)])"
    unfolding bs_one_def us using fs by (intro conjI exI [of _ fs]) (auto split: if_splits)
qed

text \<open>The other barriers.\<close>

lemma bs_one_elsewhere:
  assumes "bs_one y inl i b us outs" and "cv_one y' inl' i (br_cond b)" and "\<And>f l. inl' f = Some (i, l) \<longleftrightarrow> inl f = Some (i, l)"
    and "bs_at out \<noteq> Some i"
  shows "bs_one y' inl' i b us (outs @ [out])"
proof -
  have W: "bs_woken inl' i fs = bs_woken inl i fs" for fs by (simp add: bs_woken_def assms(3))
  from assms(1,2) show ?thesis unfolding bs_one_other [OF assms(4)] unfolding bs_one_def assms(3) W by blast
qed

section \<open>Each request\<close>

context sched_contract
begin

text \<open>Requests that do not concern the barriers.\<close>

lemma bs_cs_ok:
  assumes I: "bs_inv rq outs s" and en: "bs_enabled (Bs_cs q) s"
  shows "\<exists>s'. bs_exec A (Bs_cs q) s = Some (Silent, s') \<and> bs_inv rq (outs @ [Silent]) s'"
proof -
  note D = bs_invD [OF I]
  have en': "cs_enabled q (bs_cs s)" "bs_free s (fm_active (sy_mgr (bs_thread s)))" "bs_free s (cs_target q)"
    using en by (simp_all add: bs_enabled_def Let_def)
  from cs_exec_ok [OF D(1) en'(1)] obtain x where x: "cs_exec A q (bs_cs s) = Some x" "cs_inv rq x" by blast
  have "ms_in (bs_mx s) f = None \<and> cs_in (bs_cs s) f = None \<and> fm_active (sy_mgr (bs_thread s)) \<noteq> Some f \<and> cs_target q \<noteq> Some f"
    if "bs_line s f \<noteq> None" for f
    using that D(5) [of f] en'(2,3) by (auto simp: bs_line_eq bs_free_def)
  from cs_exec_calm [OF D(1) en'(1) x(1) this]
  have calm: "cs_calm (bs_thread s) (cs_sys x) (bs_line s)"
    "\<And>f. bs_line s f \<noteq> None \<Longrightarrow> ms_in (cs_mx x) f = None \<and> cs_in x f = None" by auto
  have line: "bs_line (s\<lparr>bs_cs := x\<rparr>) = bs_line s" by (rule ext) (simp add: bs_line_def)
  have "bs_inv rq (outs @ [Silent]) (s\<lparr>bs_cs := x\<rparr>)"
    unfolding bs_inv_def line using x(2) bs_one_calm [OF D(3) calm(1)] D(4,5) calm(2)
    by (auto simp: bs_line_eq bs_one_other bs_tally_other)
  with x(1) show ?thesis by (auto simp: bs_exec_def)
qed

lemma bs_new_ok:
  assumes I: "bs_inv rq outs s"
  shows "\<exists>out s'. bs_exec A (Bs_new n) s = Some (out, s') \<and> bs_inv rq (outs @ [out]) s'"
proof (cases "barrier_ctor n")
  case (Inl e)
  with I show ?thesis by (simp add: bs_exec_def bs_inv_def bs_one_other bs_tally_other)
next
  case (Inr b)
  note D = bs_invD [OF I]
  let ?j = "bs_count s" and ?s = "s\<lparr>bs_count := bs_count s + 1, bs_b := (bs_b s)(bs_count s := b)\<rparr>"
  have line: "bs_line ?s = bs_line s" by (rule ext) (simp add: bs_line_def)
  have b: "br_initial b = n" "br_current b = n" "n \<noteq> 0" "br_cond b = condition_init"
    using Inr by (auto simp: barrier_ctor_def split: if_splits)
  have none: "bs_line s f \<noteq> Some (?j, i)" for f i using D(5) [of f ?j] by (auto simp: bs_line_eq)
  have "bs_tally ?j outs (unat n) 0 0" using D(4) [of ?j] by (simp add: bs_tally_def)
  then have "bs_one (bs_thread s) (bs_line s) ?j b [] outs"
    using none b barrier_ctor_rep [OF Inr]
    by (auto simp: bs_one_def cv_one_def condition_init_def spinlock_init_def bs_woken_def unat_gt_0 intro!: exI [of _ "[]"])
  then have "bs_one (bs_thread s) (bs_line s) i (bs_b ?s i) (bs_users s i) outs" if "i < bs_count ?s" for i
    using that D(3) [of i] D(4) [of ?j] by (auto simp: less_Suc_eq)
  then have "bs_inv rq (outs @ [Silent]) ?s"
    unfolding bs_inv_def line using D(1,4,5) by (auto simp: bs_one_other bs_tally_other less_SucI)
  with Inr show ?thesis by (auto simp: bs_exec_def)
qed

text \<open>A fiber comes to the barrier as the last one.\<close>

lemma bs_opens_ok:
  assumes I: "bs_inv rq outs s" and en: "bs_enabled (Bs_wait j k) s" and cur: "br_current (bs_b s j) = 1"
  shows "\<exists>s'. bs_exec A (Bs_wait j k) s = Some (Leaves j (Inr True), s') \<and> bs_inv rq (outs @ [Leaves j (Inr True)]) s' \<and>
     cv_waiting (br_cond (bs_b s' j)) = [] \<and> bs_in s' = bs_in s \<and> sy_mgr (bs_thread s') = sy_mgr (bs_thread s)"
proof -
  note D = bs_invD [OF I]
  let ?y = "bs_thread s" and ?m = "sy_mgr (bs_thread s)" and ?b = "bs_b s j"
  obtain a where a: "fm_active ?m = Some a" "bs_in s a = None" "ms_in (bs_mx s) a = None" "bs_invited s j a" and j: "j < bs_count s"
    using en by (auto simp: bs_enabled_def Let_def split: option.splits)
  note O = D(3) [OF j]
  obtain fs where rep: "barrier_rep ?b fs" and fs: "\<And>f. f \<in> set fs \<Longrightarrow> asleep ?y f \<and> (\<exists>i. bs_line s f = Some (j, i))"
    using O by (elim bs_oneE) blast
  have "asleep ?y f \<and> ms_in (bs_mx s) f = None \<and> cs_in (bs_cs s) f = None" if "f \<in> set fs" for f
    using fs [OF that] D(5) [of f] by (auto simp: bs_line_eq)
  from notify_part [OF D(1) _ this, where v = "sy_world ?y" and fs = fs] a(1,3) obtain w y where w:
    "fb_set_ready_all (map Worker fs) (sy_world ?y) = Some w" "y = ?y\<lparr>sy_world := w\<rparr>"
    "cs_inv rq ((bs_cs s)\<lparr>cs_mx := (bs_mx s)\<lparr>ms_sys := y\<rparr>\<rparr>)" "\<forall>f \<in> set fs. roused y f"
    "\<forall>g. g \<notin> set fs \<longrightarrow> (asleep ?y g \<longrightarrow> asleep y g) \<and> (roused ?y g \<longrightarrow> roused y g)" by auto
  define s' where "s' = s\<lparr>bs_cs := (bs_cs s)\<lparr>cs_mx := (bs_mx s)\<lparr>ms_sys := y\<rparr>\<rparr>, bs_b := (bs_b s)(j := barrier_opened ?b),
    bs_users := (bs_users s)(j := List.insert a (bs_users s j))\<rparr>"
  have "(bs_in s)(a := None) = bs_in s" using a(2) by (simp add: fun_upd_idem)
  then have ex: "bs_exec A (Bs_wait j k) s = Some (Leaves j (Inr True), s')"
    using a(1) barrier_last_arrives [OF rep cur, of k ?m "sy_world ?y" w] w(1)
    by (simp add: bs_exec_def bs_settle_def s'_def w(2) barrier_opened_def)
  have mgr: "sy_mgr y = ?m" by (simp add: w(2))
  have line: "bs_line s' = bs_line s" by (rule ext) (simp add: bs_line_def s'_def)
  have "bs_one y (bs_line s) i (bs_b s' i) (bs_users s' i) (outs @ [Leaves j (Inr True)])" if "i < bs_count s" for i
  proof (cases "i = j")
    case True
    from bs_one_opened [OF O rep cur mgr w(4,5), of a] a(2,4) True show ?thesis by (simp add: s'_def bs_line_eq bs_invited_def)
  next
    case False
    have "f \<notin> set fs" if "bs_line s f = Some (i, l)" for f l using fs [of f] that False by auto
    from cv_one_others_notified [OF _ mgr this w(5)] D(3) [OF that] have "cv_one y (bs_line s) i (br_cond (bs_b s i))"
      by (auto simp: bs_one_def)
    from bs_one_elsewhere [OF D(3) [OF that] this] False show ?thesis by (simp add: s'_def)
  qed
  then have "bs_inv rq (outs @ [Leaves j (Inr True)]) s'"
    unfolding bs_inv_def line using w(3) D(4,5) j by (auto simp: s'_def w(2) bs_tally_other)
  with ex show ?thesis by (auto simp: s'_def w(2) barrier_opened_def condition_init_def)
qed

text \<open>A fiber comes and others are missing.\<close>

lemma bs_waits_ok:
  assumes I: "bs_inv rq outs s" and en: "bs_enabled (Bs_wait j k) s" and cur: "br_current (bs_b s j) \<noteq> 1"
  shows "\<exists>s'. bs_exec A (Bs_wait j k) s = Some (Waits j, s') \<and> bs_inv rq (outs @ [Waits j]) s'"
proof -
  note D = bs_invD [OF I]
  let ?y = "bs_thread s" and ?b = "bs_b s j"
  obtain a where a: "fm_active (sy_mgr ?y) = Some a" "\<not> interruption_requested (w_heap (sy_world ?y) a)" "cs_in (bs_cs s) a = None"
    "ms_in (bs_mx s) a = None" "bs_in s a = None" "bs_invited s j a" and j: "j < bs_count s"
    using en by (auto simp: bs_enabled_def Let_def split: option.splits)
  note O = D(3) [OF j]
  obtain fs where rep: "barrier_rep ?b fs" and fs: "\<And>f. f \<in> set fs \<Longrightarrow> asleep ?y f" using O by (elim bs_oneE) blast
  have afs: "a \<notin> set fs" using fs active_facts(2) [OF D(2) a(1)] by blast
  have "ms_in (bs_mx s) f = None \<and> cs_in (bs_cs s) f = None \<and> f \<noteq> a" if "bs_line s f \<noteq> None" for f
    using that D(5) [of f] a(5) by (auto simp: bs_line_eq)
  from sleep_part [OF D(1) a(1-4) this] obtain w y where w:
    "fm_wait_enter LOCKED (sy_world ?y) (sy_mgr ?y) = Some (UNLOCKED, w, sy_mgr ?y)"
    "sys_leave a In_wait w (sy_mgr ?y) ?y = Some y" "asleep y a"
    "cs_inv rq ((bs_cs s)\<lparr>cs_mx := (bs_mx s)\<lparr>ms_sys := y\<rparr>\<rparr>)" "cs_calm ?y y (bs_line s)" by blast
  define s' where "s' = s\<lparr>bs_cs := (bs_cs s)\<lparr>cs_mx := (bs_mx s)\<lparr>ms_sys := y\<rparr>\<rparr>, bs_b := (bs_b s)(j := barrier_joined ?b (fs @ [a])),
    bs_users := (bs_users s)(j := List.insert a (bs_users s j)), bs_in := (bs_in s)(a := Some (j, br_cycle ?b, Sleeping))\<rparr>"
  have ex: "bs_exec A (Bs_wait j k) s = Some (Waits j, s')"
    using a(1) barrier_fiber_sleeps(1) [OF rep a(1) afs w(1) cur] w(2)
    by (simp add: bs_exec_def bs_settle_def s'_def barrier_joined_def)
  let ?in = "(bs_line s)(a := Some (j, of_bool (br_cycle ?b)))"
  have line: "bs_line s' = ?in" by (rule ext) (simp add: bs_line_def s'_def)
  have la: "bs_line s a = None" using a(5) by (simp add: bs_line_eq)
  have cvw: "cv_waiting (br_cond ?b) = map Worker fs" using barrier_repD(4) [OF rep] .
  have "bs_one y ?in i (bs_b s' i) (bs_users s' i) (outs @ [Waits j])" if i: "i < bs_count s" for i
  proof (cases "i = j")
    case True
    have cv: "cv_one y (bs_line s) d ((\<lambda>d. if d < bs_count s then br_cond (bs_b s d) else condition_init) d)" for d
      by (rule cv_one_calm [OF bs_lines [OF I] w(5)])
    have "Worker a \<notin> set (cv_waiting (br_cond ?b))" using afs by (auto simp: cvw)
    with cv_one_entered [OF cv la w(3), of j "of_bool (br_cycle ?b)" j] j
    have "cv_one y ?in j (br_cond (barrier_joined ?b (fs @ [a])))" by (simp add: barrier_joined_def cvw)
    from bs_one_joined [OF O rep cur la _ this] a(6) True show ?thesis by (simp add: s'_def bs_invited_def)
  next
    case False
    from cv_one_calm [OF _ w(5)] D(3) [OF i] have "cv_one y (bs_line s) i (br_cond (bs_b s i))" by (auto simp: bs_one_def)
    then have "cv_one y ?in i (br_cond (bs_b s i))" using la False unfolding cv_one_def by simp (metis option.distinct(1))
    from bs_one_elsewhere [OF D(3) [OF i] this, of "Waits j"] la False show ?thesis by (auto simp: s'_def)
  qed
  then have "bs_inv rq (outs @ [Waits j]) s'"
    unfolding bs_inv_def line using w(4) D(4,5) a(3,4) j by (auto simp: s'_def bs_tally_other)
  with ex show ?thesis by blast
qed

text \<open>A woken fiber leaves.\<close>

lemma bs_resume_ok:
  assumes I: "bs_inv rq outs s" and en: "bs_enabled (Bs_resume k) s"
  shows "\<exists>a j c s'. fm_active (sy_mgr (bs_thread s)) = Some a \<and> bs_in s a = Some (j, c, Sleeping) \<and>
     bs_exec A (Bs_resume k) s = Some (Leaves j (Inr False), s') \<and> bs_inv rq (outs @ [Leaves j (Inr False)]) s'"
proof -
  note D = bs_invD [OF I]
  let ?y = "bs_thread s"
  obtain a j c p where a: "fm_active (sy_mgr ?y) = Some a" "\<not> interruption_requested (w_heap (sy_world ?y) a)" "bs_in s a = Some (j, c, p)"
    using en by (auto simp: bs_enabled_def Let_def split: option.splits)
  note p = D(5) [OF a(3)]
  have j: "j < bs_count s" using p by simp
  have la: "bs_line s a = Some (j, of_bool c)" using a(3) by (simp add: bs_line_def)
  have na: "\<not> asleep ?y a" by (rule active_facts(2) [OF D(2) a(1)])
  note L = bs_one_left [OF D(3) [OF j] la na]
  obtain fs where rep: "barrier_rep (bs_b s j) fs" using D(3) [OF j] by (elim bs_oneE) blast
  have c: "c \<noteq> br_cycle (bs_b s j)" using L(1) by auto
  define s' where "s' = s\<lparr>bs_users := (bs_users s)(j := List.insert a (bs_users s j)), bs_in := (bs_in s)(a := None)\<rparr>"
  have "(bs_b s)(j := bs_b s j) = bs_b s" by simp
  then have ex: "bs_exec A (Bs_resume k) s = Some (Leaves j (Inr False), s')"
    using a p by (simp add: bs_exec_def bs_settle_def s'_def barrier_woken_again [OF a(1,2)] barrier_released [OF rep c])
  have line: "bs_line s' = (bs_line s)(a := None)" by (rule ext) (simp add: bs_line_def s'_def)
  have us: "bs_users s' = (bs_users s)(j := List.insert a (bs_users s j))" by (simp add: s'_def)
  have "bs_one ?y (bs_line s') i (bs_b s i) (bs_users s' i) (outs @ [Leaves j (Inr False)])" if i: "i < bs_count s" for i
  proof (cases "i = j")
    case False
    have "cv_one ?y (bs_line s') i (br_cond (bs_b s i))"
      unfolding line by (rule cv_one_left [OF _ na]) (use D(3) [OF i] in \<open>simp add: bs_one_def\<close>)
    then have "bs_one ?y (bs_line s') i (bs_b s i) (bs_users s i) (outs @ [Leaves j (Inr False)])"
      by (rule bs_one_elsewhere [OF D(3) [OF i]]) (use la False in \<open>auto simp: line\<close>)
    with False show ?thesis by (simp add: s'_def)
  qed (use L(2) in \<open>simp add: line us\<close>)
  then have "bs_inv rq (outs @ [Leaves j (Inr False)]) s'"
    unfolding bs_inv_def using D(1,4,5) j by (auto simp: s'_def bs_tally_other)
  with ex a p show ?thesis by blast
qed

lemma bs_exec_ok:
  assumes I: "bs_inv rq outs s" and en: "bs_enabled r s"
  shows "\<exists>out s'. bs_exec A r s = Some (out, s') \<and> bs_inv rq (outs @ [out]) s'"
proof (cases r)
  case (Bs_cs q)
  with bs_cs_ok [OF I] en show ?thesis by blast
next
  case (Bs_new n)
  with bs_new_ok [OF I] show ?thesis by blast
next
  case (Bs_wait j k)
  with bs_opens_ok [OF I] bs_waits_ok [OF I] en show ?thesis by blast
next
  case (Bs_resume k)
  with bs_resume_ok [OF I] en show ?thesis by blast
qed

lemma bs_run_inv:
  assumes "bs_run A s0 outs s" and "bs_inv rq [] s0"
  shows "bs_inv rq outs s"
  using assms
proof (induction rule: bs_run.induct)
  case (step outs s r out s')
  with bs_exec_ok [of outs s r] show ?case by auto
qed

end

section \<open>Properties\<close>

lemma bs_rr_inv: "bs_run round_robin_algo (bs_init q h) outs s \<Longrightarrow> bs_inv fifo_rep outs s"
  using rr.bs_run_inv bs_init_inv by blast

text \<open>A fiber inside \<^verbatim>\<open>wait\<close> sleeps in the line, or it remembers an earlier cycle and is on its way out.\<close>

lemma bs_in_place:
  assumes I: "bs_inv rq outs s" and f: "bs_in s f = Some (j, c, p)"
  shows "if c = br_cycle (bs_b s j)
     then Worker f \<in> set (cv_waiting (br_cond (bs_b s j))) \<and> is_waiting (w_heap (sy_world (bs_thread s))) f
     else Worker f \<notin> set (cv_waiting (br_cond (bs_b s j))) \<and>
       (is_ready (w_heap (sy_world (bs_thread s))) f \<or> fm_active (sy_mgr (bs_thread s)) = Some f)"
proof -
  have lf: "bs_line s f = Some (j, of_bool c)" using f by (simp add: bs_line_def)
  have j: "j < bs_count s" using bs_invD(5) [OF I f] by simp
  obtain fs where fs: "barrier_rep (bs_b s j) fs" "cv_one (bs_thread s) (bs_line s) j (br_cond (bs_b s j))"
    "\<And>f i. bs_line s f = Some (j, i) \<Longrightarrow> f \<in> set fs \<longleftrightarrow> i = of_bool (br_cycle (bs_b s j))"
    "\<And>f. f \<in> set fs \<Longrightarrow> asleep (bs_thread s) f" using bs_invD(3) [OF I j] by (elim bs_oneE) blast
  have c: "f \<in> set fs \<longleftrightarrow> c = br_cycle (bs_b s j)" using fs(3) [OF lf] by (simp only: of_bool_eq_iff)
  then have eq: "Worker f \<in> set (cv_waiting (br_cond (bs_b s j))) \<longleftrightarrow> c = br_cycle (bs_b s j)"
    using barrier_repD(4) [OF fs(1)] by auto
  have "Worker f \<in> set (cv_waiting (br_cond (bs_b s j))) \<or> roused (bs_thread s) f \<or> fm_active (sy_mgr (bs_thread s)) = Some f"
    using fs(2) lf by (auto simp: cv_one_def)
  with eq c fs(4) [of f] show ?thesis by (auto simp: asleep_def roused_def is_waiting_def is_ready_def)
qed

text \<open>A sequence of requests, as long as \<open>ok\<close> permits them.\<close>

fun bs_script ::
  "(bs_request \<Rightarrow> 's bs_sys \<Rightarrow> bool) \<Rightarrow> 's sched_algorithm \<Rightarrow> bs_request list \<Rightarrow> 's bs_sys \<Rightarrow> (bs_out list \<times> 's bs_sys) option" where
  "bs_script ok A [] s = Some ([], s)"
| "bs_script ok A (r # rs) s =
     (if ok r s
      then do { (out, s') \<leftarrow> bs_exec A r s; (outs, s'') \<leftarrow> bs_script ok A rs s'; Some (out # outs, s'') }
      else None)"

lemma bs_script_run:
  "bs_script bs_enabled A rs s = Some (outs, s') \<Longrightarrow> bs_run A s0 before s \<Longrightarrow> bs_run A s0 (before @ outs) s'"
proof (induction rs arbitrary: s outs before)
  case (Cons r rs)
  from Cons.prems(1) obtain out s1 outs1 where
    "bs_enabled r s" "bs_exec A r s = Some (out, s1)" "bs_script bs_enabled A rs s1 = Some (outs1, s')" "outs = out # outs1"
    by (auto split: if_splits bind_splits)
  with Cons.IH [of s1 outs1 "before @ [out]"] bs_run.step [OF Cons.prems(2)] show ?case by simp
qed simp

text \<open>A barrier for two: fiber 1 waits, fiber 2 runs.\<close>

definition demo_bs_requests :: "bs_request list" where
  "demo_bs_requests =
     (let sysq = \<lambda>q. Bs_cs (Cs_mx (Mx_sys q)) in
      [Bs_new 2, sysq (Rq_spawn 1), sysq (Rq_spawn 2), sysq (Rq_run 0 0), Bs_wait 0 0, sysq (Rq_run 1 1)])"

definition demo_bs :: "bs_out list \<times> round_robin bs_sys" where
  "demo_bs = the (bs_script bs_enabled round_robin_algo demo_bs_requests (bs_init 0 (\<lambda>_. worker_fiber_init)))"

lemma demo_bs_run: "bs_run round_robin_algo (bs_init 0 (\<lambda>_. worker_fiber_init)) (fst demo_bs) (snd demo_bs)"
proof -
  let ?run = "bs_script bs_enabled round_robin_algo demo_bs_requests (bs_init 0 (\<lambda>_. worker_fiber_init))"
  have "map_option fst ?run \<noteq> None" by code_simp
  then obtain outs s' where s': "?run = Some (outs, s')" by auto
  with bs_script_run [OF s' bs_run.start] show ?thesis by (simp add: demo_bs_def)
qed

text \<open>
  C17: a barrier opens exactly when everybody has come, round after round. Whatever the fibers of a
  thread have done with each other, with mutexes, conditions and barriers none of which is used by
  more fibers than its initial count, the next permitted request is carried out; and of the calls
  of \<^verbatim>\<open>wait\<close> on a barrier, those that have slept and those that have opened it make up as many
  full rounds as it has opened, and fewer fibers than a round that wait now. Nobody has been let go
  before his round was complete: those let go, together with those that are ready or running on
  their way out, are all but the last of each round that has opened.
\<close>

theorem barrier_rounds:
  assumes "bs_run round_robin_algo (bs_init q h) outs s" and "j < bs_count s"
  defines "n \<equiv> unat (br_initial (bs_b s j))" and "opened \<equiv> count_list outs (Leaves j (Inr True))"
  shows "(bs_enabled r s \<longrightarrow> (\<exists>out s'. bs_exec round_robin_algo r s = Some (out, s'))) \<and>
     count_list outs (Waits j) + opened = n * opened + length (cv_waiting (br_cond (bs_b s j))) \<and>
     length (cv_waiting (br_cond (bs_b s j))) < n \<and>
     count_list outs (Leaves j (Inr False)) +
       card {f. (\<exists>c p. bs_in s f = Some (j, c, p)) \<and> Worker f \<notin> set (cv_waiting (br_cond (bs_b s j)))} = (n - 1) * opened"
proof -
  note I = bs_rr_inv [OF assms(1)]
  obtain fs where fs: "barrier_rep (bs_b s j) fs" "unat (br_current (bs_b s j)) + length fs = n" "0 < unat (br_current (bs_b s j))"
    "bs_tally j outs n (length fs) (card (bs_woken (bs_line s) j fs))"
    using bs_invD(3) [OF I assms(2)] unfolding n_def by (elim bs_oneE) blast
  have line: "cv_waiting (br_cond (bs_b s j)) = map Worker fs" by (rule barrier_repD(4) [OF fs(1)])
  have "bs_woken (bs_line s) j fs =
      {f. (\<exists>c p. bs_in s f = Some (j, c, p)) \<and> Worker f \<notin> set (cv_waiting (br_cond (bs_b s j)))}"
    by (auto simp: bs_woken_def bs_line_eq line)
  moreover have "n * opened = (n - 1) * opened + opened" using fs(2,3) by (cases n) auto
  ultimately show ?thesis using fs(2-4) rr.bs_exec_ok [OF I, of r] by (auto simp: bs_tally_def opened_def line)
qed

theorem barrier_rounds_witness:
  "length (cv_waiting (br_cond (bs_b (snd demo_bs) 0))) = 1 \<and>
   (\<exists>out s'. bs_exec round_robin_algo (Bs_wait 0 0) (snd demo_bs) = Some (out, s'))"
proof -
  have ev: "0 < bs_count (snd demo_bs)" "bs_enabled (Bs_wait 0 0) (snd demo_bs)" "count_list (fst demo_bs) (Waits 0) = 1"
    "count_list (fst demo_bs) (Leaves 0 (Inr True)) = 0" by code_simp+
  from barrier_rounds [OF demo_bs_run ev(1), of "Bs_wait 0 0"] ev(2-4) show ?thesis by simp
qed

text \<open>
  C18: a barrier that is used by at most as many fibers as its initial count lets everybody go who
  is not interrupted. In every history of a thread in which no more fibers than that share a
  barrier and no fiber calls or resumes \<^verbatim>\<open>wait\<close> with an interruption pending, a fiber inside
  \<^verbatim>\<open>wait\<close> sleeps as long as the round is not complete and is ready or running afterwards; when it
  runs again it leaves \<^verbatim>\<open>wait\<close> with false; and if the last fiber of the round comes now, that one
  leaves with true at once and the fiber is ready. With more fibers, and with an interruption, this
  fails: \<open>barrier_leaves_behind\<close> and \<open>barrier_interrupted_stays_counted\<close> in \<open>Barrier\<close>.
\<close>

theorem barrier_lets_go:
  assumes "bs_run round_robin_algo (bs_init q h) outs s" and "bs_in s f = Some (j, c, p)"
  shows "(if c = br_cycle (bs_b s j)
      then Worker f \<in> set (cv_waiting (br_cond (bs_b s j))) \<and> is_waiting (w_heap (sy_world (bs_thread s))) f
      else is_ready (w_heap (sy_world (bs_thread s))) f \<or> fm_active (sy_mgr (bs_thread s)) = Some f) \<and>
     (\<forall>k. fm_active (sy_mgr (bs_thread s)) = Some f \<longrightarrow> bs_enabled (Bs_resume k) s \<longrightarrow>
       (\<exists>s'. bs_exec round_robin_algo (Bs_resume k) s = Some (Leaves j (Inr False), s'))) \<and>
     (\<forall>k. bs_enabled (Bs_wait j k) s \<longrightarrow> br_current (bs_b s j) = 1 \<longrightarrow>
       (\<exists>s'. bs_exec round_robin_algo (Bs_wait j k) s = Some (Leaves j (Inr True), s') \<and>
         is_ready (w_heap (sy_world (bs_thread s'))) f))"
proof (intro conjI allI impI)
  note I = bs_rr_inv [OF assms(1)]
  show "if c = br_cycle (bs_b s j)
      then Worker f \<in> set (cv_waiting (br_cond (bs_b s j))) \<and> is_waiting (w_heap (sy_world (bs_thread s))) f
      else is_ready (w_heap (sy_world (bs_thread s))) f \<or> fm_active (sy_mgr (bs_thread s)) = Some f"
    using bs_in_place [OF I assms(2)] by simp
  show "\<exists>s'. bs_exec round_robin_algo (Bs_resume k) s = Some (Leaves j (Inr False), s')"
    if "fm_active (sy_mgr (bs_thread s)) = Some f" "bs_enabled (Bs_resume k) s" for k
    using rr.bs_resume_ok [OF I that(2)] that(1) assms(2) by auto
  fix k assume en: "bs_enabled (Bs_wait j k) s" and cur: "br_current (bs_b s j) = 1"
  from rr.bs_opens_ok [OF I en cur] obtain s' where s': "bs_exec round_robin_algo (Bs_wait j k) s = Some (Leaves j (Inr True), s')"
    "bs_inv fifo_rep (outs @ [Leaves j (Inr True)]) s'" "cv_waiting (br_cond (bs_b s' j)) = []" "bs_in s' = bs_in s" "sy_mgr (bs_thread s') = sy_mgr (bs_thread s)" by blast
  obtain a where a: "fm_active (sy_mgr (bs_thread s)) = Some a" "bs_in s a = None"
    using en by (auto simp: bs_enabled_def Let_def split: option.splits)
  have f: "bs_in s' f = Some (j, c, p)" "fm_active (sy_mgr (bs_thread s')) \<noteq> Some f"
    using s'(4,5) a assms(2) by auto
  from bs_in_place [OF s'(2) f(1)] f(2) s'(3) have "is_ready (w_heap (sy_world (bs_thread s'))) f" by (simp split: if_splits)
  with s'(1) show "\<exists>s'. bs_exec round_robin_algo (Bs_wait j k) s = Some (Leaves j (Inr True), s') \<and>
      is_ready (w_heap (sy_world (bs_thread s'))) f" by blast
qed

theorem barrier_lets_go_witness:
  "bs_in (snd demo_bs) 1 = Some (0, True, Sleeping) \<and> is_waiting (w_heap (sy_world (bs_thread (snd demo_bs)))) 1 \<and>
   (\<exists>s'. bs_exec round_robin_algo (Bs_wait 0 0) (snd demo_bs) = Some (Leaves 0 (Inr True), s') \<and>
     is_ready (w_heap (sy_world (bs_thread s'))) 1)"
proof -
  have ev: "bs_in (snd demo_bs) 1 = Some (0, True, Sleeping)" "br_cycle (bs_b (snd demo_bs) 0)"
    "br_current (bs_b (snd demo_bs) 0) = 1" "bs_enabled (Bs_wait 0 0) (snd demo_bs)" by code_simp+
  from barrier_lets_go [OF demo_bs_run ev(1)] ev show ?thesis by simp
qed

end
