(* ===== verification/Condition_Steps.thy ===== *)
theory Condition_Steps
  imports Scheduler_Properties
begin

text \<open>
  \<^verbatim>\<open>condition::wait\<close> of a fiber, statement by statement, against notifications from other threads
  (\<^verbatim>\<open>condition.hpp\<close>, \<^verbatim>\<open>src/condition.cpp\<close>, \<^verbatim>\<open>fiber_manager::wait_until\<close>). Elsewhere a call up to
  its suspension is one step, which is what the fibers of one thread see; here every statement is a
  step of its own, and between two of them any other thread can run a statement of
  \<^verbatim>\<open>notify_one\<close> or \<^verbatim>\<open>notify_all\<close>.
\<close>

section \<open>The waiting fiber\<close>

text \<open>The statement the fiber executes next.\<close>

datatype wait_pc =
    Wt_lock_splk
  | Wt_register
  | Wt_unlock_external
  | Wt_set_waiting
  | Wt_unlock_splk
  | Wt_push
  | Wt_suspended

text \<open>
  The external lock, the condition, the fibers of all threads, and the waiters which notifying
  threads have taken off the list and not made ready yet.
\<close>

record 'l wait_state =
  wt_pc :: wait_pc
  wt_lt :: 'l
  wt_cv :: condition
  wt_world :: world
  wt_taken :: "fiber_base list"

text \<open>
  \<^verbatim>\<open>wait\<close> up to the call of \<^verbatim>\<open>fiber_manager::wait\<close> are the first three statements; the others are
  those of \<^verbatim>\<open>wait_until\<close>, which that function calls without a deadline. \<open>unlock\<close> is the external
  lock's \<^verbatim>\<open>unlock\<close>.
\<close>

definition condition_wait_step ::
  "(world \<Rightarrow> 's fiber_manager \<Rightarrow> 'l \<Rightarrow> ('l \<times> world) option) \<Rightarrow> 's fiber_manager \<Rightarrow> 'l wait_state \<Rightarrow> 'l wait_state option" where
  "condition_wait_step unlock m s = do {
     a \<leftarrow> fm_active m;
     let cv = wt_cv s; let w = wt_world s;
     case wt_pc s of
       Wt_lock_splk \<Rightarrow> do {
         l \<leftarrow> spin_lock (cv_splk cv);
         Some (s\<lparr>wt_cv := cv\<lparr>cv_splk := l\<rparr>, wt_pc := Wt_register\<rparr>) }
     | Wt_register \<Rightarrow> do {
         assert_that (Worker a \<notin> set (cv_waiting cv));
         Some (s\<lparr>wt_cv := cv\<lparr>cv_waiting := cv_waiting cv @ [Worker a]\<rparr>, wt_pc := Wt_unlock_external\<rparr>) }
     | Wt_unlock_external \<Rightarrow> do {
         (lt, w') \<leftarrow> unlock w m (wt_lt s);
         Some (s\<lparr>wt_lt := lt, wt_world := w', wt_pc := Wt_set_waiting\<rparr>) }
     | Wt_set_waiting \<Rightarrow> do {
         assert_that (is_running (w_heap w) a);
         h \<leftarrow> set_waiting a (w_heap w);
         Some (s\<lparr>wt_world := w\<lparr>w_heap := h\<rparr>, wt_pc := Wt_unlock_splk\<rparr>) }
     | Wt_unlock_splk \<Rightarrow> do {
         l \<leftarrow> spin_unlock (cv_splk cv);
         Some (s\<lparr>wt_cv := cv\<lparr>cv_splk := l\<rparr>, wt_pc := Wt_push\<rparr>) }
     | Wt_push \<Rightarrow> do {
         w' \<leftarrow> wq_push (fm_wqueue m) a (w\<lparr>w_heap := time_point_set a time_point_max (w_heap w)\<rparr>);
         wf_suspend a (w_heap w');
         Some (s\<lparr>wt_world := w', wt_pc := Wt_suspended\<rparr>) }
     | Wt_suspended \<Rightarrow> None }"

text \<open>Without interference the statements add up to \<open>condition_wait_enter\<close>.\<close>

lemma condition_wait_steps:
  "condition_wait_enter (\<lambda>l v. unlock v m l) lt w m cv = do {
     s1 \<leftarrow> condition_wait_step unlock m \<lparr>wt_pc = Wt_lock_splk, wt_lt = lt, wt_cv = cv, wt_world = w, wt_taken = []\<rparr>;
     s2 \<leftarrow> condition_wait_step unlock m s1;
     s3 \<leftarrow> condition_wait_step unlock m s2;
     s4 \<leftarrow> condition_wait_step unlock m s3;
     s5 \<leftarrow> condition_wait_step unlock m s4;
     s6 \<leftarrow> condition_wait_step unlock m s5;
     Some (wt_lt s6, wt_cv s6, wt_world s6, m) }"
  by (cases "fm_active m"; cases "cv_splk cv")
    (auto simp: condition_wait_step_def condition_wait_enter_def fm_wait_enter_def fm_wait_until_enter_def Let_def
      assert_that_def split: Option.bind_split)

section \<open>The notifying threads\<close>

text \<open>The part of \<^verbatim>\<open>notify_one\<close> and of \<^verbatim>\<open>notify_all\<close> under the spin lock, which takes the waiters off the list.\<close>

definition notify_one_section :: "condition \<Rightarrow> (fiber_base list \<times> condition) option" where
  "notify_one_section cv = do {
     l \<leftarrow> spin_lock (cv_splk cv);
     l' \<leftarrow> spin_unlock l;
     Some (take 1 (cv_waiting cv), cv\<lparr>cv_waiting := drop 1 (cv_waiting cv), cv_splk := l'\<rparr>) }"

definition notify_all_section :: "condition \<Rightarrow> (fiber_base list \<times> condition) option" where
  "notify_all_section cv = do {
     l \<leftarrow> spin_lock (cv_splk cv);
     l' \<leftarrow> spin_unlock l;
     Some (cv_waiting cv, cv\<lparr>cv_waiting := [], cv_splk := l'\<rparr>) }"

lemma condition_notify_sections:
  "condition_notify_one cv w = do { (ns, cv') \<leftarrow> notify_one_section cv; w' \<leftarrow> fb_set_ready_all ns w; Some (cv', w') }"
  "condition_notify_all cv w = do { (ns, cv') \<leftarrow> notify_all_section cv; w' \<leftarrow> fb_set_ready_all ns w; Some (cv', w') }"
  by (cases "cv_splk cv"; cases "cv_waiting cv";
      auto simp: condition_notify_one_def condition_notify_all_def notify_one_section_def notify_all_section_def
        notify_waiter_def Let_def split: Option.bind_split)+

text \<open>
  All ways in which the statements of the fiber and of any number of notifying threads can follow
  one another. Once the external lock is free others take it and give it back; the main context of
  another thread can begin to wait.
\<close>

inductive wait_run ::
  "(world \<Rightarrow> 's fiber_manager \<Rightarrow> 'l \<Rightarrow> ('l \<times> world) option) \<Rightarrow> 's fiber_manager \<Rightarrow> 'l wait_state \<Rightarrow> 'l wait_state \<Rightarrow> bool"
  for unlock m s0 where
  start: "wait_run unlock m s0 s0"
| waiter: "wait_run unlock m s0 s \<Longrightarrow> condition_wait_step unlock m s = Some s' \<Longrightarrow> wait_run unlock m s0 s'"
| notify_one: "wait_run unlock m s0 s \<Longrightarrow> notify_one_section (wt_cv s) = Some (ns, cv) \<Longrightarrow>
    wait_run unlock m s0 (s\<lparr>wt_cv := cv, wt_taken := wt_taken s @ ns\<rparr>)"
| notify_all: "wait_run unlock m s0 s \<Longrightarrow> notify_all_section (wt_cv s) = Some (ns, cv) \<Longrightarrow>
    wait_run unlock m s0 (s\<lparr>wt_cv := cv, wt_taken := wt_taken s @ ns\<rparr>)"
| made_ready: "wait_run unlock m s0 s \<Longrightarrow> n \<in> set (wt_taken s) \<Longrightarrow> fb_set_ready n (wt_world s) = Some w \<Longrightarrow>
    wait_run unlock m s0 (s\<lparr>wt_world := w, wt_taken := remove1 n (wt_taken s)\<rparr>)"
| external_lock_used: "wait_run unlock m s0 s \<Longrightarrow> wt_pc s \<in> {Wt_set_waiting, Wt_unlock_splk, Wt_push, Wt_suspended} \<Longrightarrow>
    wait_run unlock m s0 (s\<lparr>wt_lt := lt\<rparr>)"
| main_registers: "wait_run unlock m s0 s \<Longrightarrow> cv_splk (wt_cv s) = UNLOCKED \<Longrightarrow>
    wait_run unlock m s0 (s\<lparr>wt_cv := (wt_cv s)\<lparr>cv_waiting := cv_waiting (wt_cv s) @ [Main k]\<rparr>\<rparr>)"

section \<open>The external lock\<close>

text \<open>
  What \<^verbatim>\<open>wait\<close> relies on of its template parameter \<^verbatim>\<open>LockType\<close>: a fiber that holds the lock can
  unlock it, which may make fibers ready that wait for it and touches no other fiber. \<open>held lt a S\<close>:
  the fiber \<open>a\<close> holds the lock, and the fibers that wait for it are among \<open>S\<close>.
\<close>

locale basic_lockable =
  fixes unlock :: "world \<Rightarrow> fifo fiber_manager \<Rightarrow> 'l \<Rightarrow> ('l \<times> world) option"
    and held :: "'l \<Rightarrow> fid \<Rightarrow> fid set \<Rightarrow> bool"
  assumes unlock_ok: "held lt a (set ws) \<Longrightarrow> fm_active m = Some a \<Longrightarrow> fm_queues fifo_rep w m ws rs \<Longrightarrow>
      \<exists>lt' w' ws'. unlock w m lt = Some (lt', w') \<and> fm_queues fifo_rep w' m ws' rs \<and> set ws' = set ws \<and>
        (\<forall>x. x \<notin> set ws \<longrightarrow> w_heap w' x = w_heap w x)"

text \<open>Waking a waiter, or nobody, leaves the fibers outside the waiting queue alone.\<close>

definition waits_among :: "fid set \<Rightarrow> fiber_base \<Rightarrow> bool" where
  "waits_among S n \<longleftrightarrow> (case n of Worker f \<Rightarrow> f \<in> S | Main k \<Rightarrow> True)"

lemma fb_set_ready_among:
  assumes Q: "fm_queues fifo_rep w m ws rs" and n: "waits_among (set ws) n"
  shows "\<exists>w' ws'. fb_set_ready n w = Some w' \<and> fm_queues fifo_rep w' m ws' rs \<and> set ws' = set ws \<and>
     (\<forall>x. x \<notin> set ws \<longrightarrow> w_heap w' x = w_heap w x) \<and>
     (\<forall>x. wf_state (w_heap w' x) = (if n = Worker x then READY else wf_state (w_heap w x)))"
proof (cases n)
  case (Worker f)
  with n have f: "f \<in> set ws" by (simp add: waits_among_def)
  from rr.set_ready_queues [OF Q f] obtain w' where w': "set_ready f w = Some w'"
    "fm_queues fifo_rep w' m (f # remove1 f ws) rs" "links_frame (set ws) (ready_all {f} (w_heap w)) (w_heap w')" by blast
  have "set (f # remove1 f ws) = set ws" using f fm_queuesD(1) [OF Q] by (auto simp: wq_rep_def)
  moreover have "w_heap w' x = w_heap w x" if "x \<notin> set ws" for x
    using links_frame_outside [OF w'(3) that] that f by (auto simp: ready_all_def)
  ultimately show ?thesis
    using w'(1,2) links_frame_fields(5) [OF w'(3)] Worker by (auto simp: fb_set_ready_def ready_all_def)
next
  case (Main k)
  have "fm_queues fifo_rep (main_set_ready k w) m ws rs"
    by (rule rr.queues_cong [OF Q]) (simp_all add: main_set_ready_def)
  with Main show ?thesis by (auto simp: fb_set_ready_def main_set_ready_def)
qed

lemma notify_waiter_among:
  assumes Q: "fm_queues fifo_rep w m ws rs" and ns: "\<forall>n \<in> set ns. waits_among (set ws) n"
  shows "\<exists>w' ws'. notify_waiter (hd_or None ns) w = Some w' \<and> fm_queues fifo_rep w' m ws' rs \<and> set ws' = set ws \<and>
     (\<forall>x. x \<notin> set ws \<longrightarrow> w_heap w' x = w_heap w x)"
proof (cases ns)
  case Nil
  with Q show ?thesis by (auto simp: notify_waiter_def)
next
  case (Cons n rest)
  with fb_set_ready_among [OF Q, of n] ns show ?thesis by (simp add: notify_waiter_def) blast
qed



definition recursive_mutex_held_by :: "recursive_mutex \<Rightarrow> fid \<Rightarrow> fid set \<Rightarrow> bool" where
  "recursive_mutex_held_by mx a S \<longleftrightarrow> rmx_splk mx = UNLOCKED \<and> rmx_state mx = LOCKED \<and> rmx_owner mx = get_id a \<and>
     (\<forall>n \<in> set (rmx_waiting mx). waits_among S n)"

interpretation lt_recursive_mutex: basic_lockable recursive_mutex_unlock recursive_mutex_held_by
proof (unfold_locales, goal_cases)
  case (1 lt a ws m w rs)
  let ?ns = "if rmx_count lt - 1 = 0 then rmx_waiting lt else []"
  from notify_waiter_among [OF 1(3), of ?ns] 1(1) obtain w' ws' where
    "notify_waiter (hd_or None ?ns) w = Some w'" "fm_queues fifo_rep w' m ws' rs" "set ws' = set ws"
    "\<forall>x. x \<notin> set ws \<longrightarrow> w_heap w' x = w_heap w x"
    by (auto simp: recursive_mutex_held_by_def split: if_splits)
  with 1(1,2) show ?case
    by (cases "rmx_waiting lt")
      (auto simp: recursive_mutex_unlock_def recursive_mutex_unlock_section_def recursive_mutex_held_by_def
        this_get_id_def Let_def notify_waiter_def split: if_splits)
qed

section \<open>The invariant\<close>

text \<open>How often the fiber is on the list, and among those taken off it.\<close>

abbreviation wt_listed :: "fid \<Rightarrow> 'l wait_state \<Rightarrow> nat" where
  "wt_listed a s \<equiv> count_list (cv_waiting (wt_cv s)) (Worker a)"

abbreviation wt_owed :: "fid \<Rightarrow> 'l wait_state \<Rightarrow> nat" where
  "wt_owed a s \<equiv> count_list (wt_taken s) (Worker a)"

text \<open>A fiber that is in no queue and has no deadline, in the state \<open>st\<close>.\<close>

definition off_queue :: "worker_fiber \<Rightarrow> fiber_state \<Rightarrow> bool" where
  "off_queue r st \<longleftrightarrow> unqueued r \<and> has_coro r \<and> wf_tp r = time_point_max \<and> wf_state r = st"

text \<open>Before every statement: the spin lock, the list, and the state of the fiber.\<close>

definition wait_at :: "('l \<Rightarrow> fid \<Rightarrow> fid set \<Rightarrow> bool) \<Rightarrow> fid \<Rightarrow> fid set \<Rightarrow> 'l wait_state \<Rightarrow> bool" where
  "wait_at held a S s \<longleftrightarrow>
     (let r = w_heap (wt_world s) a; n = wt_listed a s; k = wt_owed a s; l = cv_splk (wt_cv s) in
      case wt_pc s of
        Wt_lock_splk \<Rightarrow> l = UNLOCKED \<and> n = 0 \<and> k = 0 \<and> held (wt_lt s) a S \<and> off_queue r RUNNING
      | Wt_register \<Rightarrow> l = LOCKED \<and> n = 0 \<and> k = 0 \<and> held (wt_lt s) a S \<and> off_queue r RUNNING
      | Wt_unlock_external \<Rightarrow> l = LOCKED \<and> n = 1 \<and> k = 0 \<and> held (wt_lt s) a S \<and> off_queue r RUNNING
      | Wt_set_waiting \<Rightarrow> l = LOCKED \<and> n = 1 \<and> k = 0 \<and> off_queue r RUNNING
      | Wt_unlock_splk \<Rightarrow> l = LOCKED \<and> n = 1 \<and> k = 0 \<and> off_queue r WAITING
      | Wt_push \<Rightarrow> l = UNLOCKED \<and> n + k \<le> 1 \<and> off_queue r (if n + k = 1 then WAITING else READY)
      | Wt_suspended \<Rightarrow> l = UNLOCKED \<and> n + k \<le> 1 \<and> wf_state r = (if n + k = 1 then WAITING else READY))"

definition wt_queue :: "fid \<Rightarrow> fid set \<Rightarrow> 'l wait_state \<Rightarrow> fid set" where
  "wt_queue a S s = (if wt_pc s = Wt_suspended then insert a S else S)"

definition wait_inv ::
  "('l \<Rightarrow> fid \<Rightarrow> fid set \<Rightarrow> bool) \<Rightarrow> fifo fiber_manager \<Rightarrow> fid \<Rightarrow> fid set \<Rightarrow> fid list \<Rightarrow> 'l wait_state \<Rightarrow> bool" where
  "wait_inv held m a S rs s \<longleftrightarrow>
     fm_active m = Some a \<and> a \<notin> S \<and> a \<notin> set rs \<and> wait_at held a S s \<and>
     (\<forall>n \<in> set (cv_waiting (wt_cv s)) \<union> set (wt_taken s). waits_among (insert a S) n) \<and>
     (\<exists>ws. fm_queues fifo_rep (wt_world s) m ws rs \<and> set ws = wt_queue a S s)"

lemma wait_invI:
  assumes "wait_inv held m a S rs s" and "fm_queues fifo_rep w m ws rs" and "wt_world s' = w"
    and "set ws = wt_queue a S s'" and "wait_at held a S s'"
    and "\<forall>n \<in> set (cv_waiting (wt_cv s')) \<union> set (wt_taken s'). waits_among (insert a S) n"
  shows "wait_inv held m a S rs s'"
  using assms unfolding wait_inv_def by blast

lemma count_list_remove1:
  "n \<in> set xs \<Longrightarrow> count_list (remove1 n xs) x = count_list xs x - (if n = x then 1 else 0)"
  by (induction xs) auto


text \<open>The last statement: the fiber enters the scheduler's waiting queue, in the state it has by then.\<close>

lemma wait_push_ok:
  assumes Q: "fm_queues fifo_rep w m ws rs" and out: "a \<notin> set ws" "a \<notin> set rs"
    and r: "off_queue (w_heap w a) st" "st \<in> {READY, WAITING}"
  shows "\<exists>w' ws'. wq_push (fm_wqueue m) a (w\<lparr>w_heap := time_point_set a time_point_max (w_heap w)\<rparr>) = Some w' \<and>
     wf_suspend a (w_heap w') = Some () \<and> fm_queues fifo_rep w' m ws' rs \<and> set ws' = insert a (set ws) \<and>
     wf_state (w_heap w' a) = st"
proof -
  let ?r = "w_heap w a"
  have "time_point_set a time_point_max (w_heap w) = (w_heap w)(a := ?r)"
    using r(1) by (simp add: time_point_set_def off_queue_def fun_upd_idem_iff)
  with rr.push_queues [OF Q out, of ?r] r obtain w' where w':
    "wq_push (fm_wqueue m) a (w\<lparr>w_heap := time_point_set a time_point_max (w_heap w)\<rparr>) = Some w'"
    "fm_queues fifo_rep w' m (wq_insert (w_heap w) a ws) rs"
    "links_frame (insert a (set ws)) ((w_heap w)(a := ?r\<lparr>wf_phead := Some (fm_wqueue m), wf_ptail := Some (fm_wqueue m)\<rparr>)) (w_heap w')"
    by (auto simp: off_queue_def)
  have "wf_suspend a (w_heap w') = Some ()" "wf_state (w_heap w' a) = st"
    using links_frame_fields(3,5) [OF w'(3), of a] r(1)
    by (simp_all add: wf_suspend_def off_queue_def has_coro_def assert_that_def)
  with w'(1,2) set_wq_insert [of "w_heap w" a ws] show ?thesis by blast
qed

context basic_lockable
begin

lemma waiter_ok:
  assumes I: "wait_inv held m a S rs s" and pc: "wt_pc s \<noteq> Wt_suspended"
  shows "\<exists>s'. condition_wait_step unlock m s = Some s' \<and> wait_inv held m a S rs s'"
proof -
  obtain ws where Q: "fm_queues fifo_rep (wt_world s) m ws rs" "set ws = S"
    using I pc by (auto simp: wait_inv_def wt_queue_def)
  have act: "fm_active m = Some a" "a \<notin> set ws" "a \<notin> set rs" and at: "wait_at held a S s"
    and ns: "\<forall>n \<in> set (cv_waiting (wt_cv s)) \<union> set (wt_taken s). waits_among (insert a S) n"
    using I Q(2) by (auto simp: wait_inv_def)
  note step = condition_wait_step_def wait_at_def wt_queue_def Let_def
  show ?thesis
  proof (cases "wt_pc s")
    case Wt_unlock_external
    with at unlock_ok [of "wt_lt s" a ws m "wt_world s" rs] act(1) Q obtain lt' w' ws' where u:
      "unlock (wt_world s) m (wt_lt s) = Some (lt', w')" "fm_queues fifo_rep w' m ws' rs" "set ws' = S"
      "w_heap w' a = w_heap (wt_world s) a" using act(2) by (auto simp: wait_at_def Let_def)
    with Wt_unlock_external act(1) have "condition_wait_step unlock m s = Some (s\<lparr>wt_lt := lt', wt_world := w', wt_pc := Wt_set_waiting\<rparr>)"
      by (simp add: step)
    moreover have "wait_inv held m a S rs (s\<lparr>wt_lt := lt', wt_world := w', wt_pc := Wt_set_waiting\<rparr>)"
      by (rule wait_invI [OF I u(2)]) (use at ns u Wt_unlock_external in \<open>auto simp: step\<close>)
    ultimately show ?thesis by blast
  next
    case Wt_set_waiting
    let ?w = "(wt_world s)\<lparr>w_heap := (w_heap (wt_world s))(a := (w_heap (wt_world s) a)\<lparr>wf_state := WAITING\<rparr>)\<rparr>"
    have "condition_wait_step unlock m s = Some (s\<lparr>wt_world := ?w, wt_pc := Wt_unlock_splk\<rparr>)"
      using Wt_set_waiting act(1) at by (simp add: step off_queue_def is_running_def set_state_conv assert_that_def)
    moreover have "wait_inv held m a S rs (s\<lparr>wt_world := ?w, wt_pc := Wt_unlock_splk\<rparr>)"
      by (rule wait_invI [OF I rr.queues_update_outside [OF Q(1) act(2,3)]])
        (use at ns Q(2) Wt_set_waiting in \<open>auto simp: step off_queue_def unqueued_def has_coro_def\<close>)
    ultimately show ?thesis by blast
  next
    case Wt_push
    let ?st = "if wt_listed a s + wt_owed a s = 1 then WAITING else READY"
    have "off_queue (w_heap (wt_world s) a) ?st" "?st \<in> {READY, WAITING}"
      using at Wt_push by (simp_all add: wait_at_def Let_def)
    from wait_push_ok [OF Q(1) act(2,3) this] Q(2) obtain w' ws' where p:
      "wq_push (fm_wqueue m) a ((wt_world s)\<lparr>w_heap := time_point_set a time_point_max (w_heap (wt_world s))\<rparr>) = Some w'"
      "wf_suspend a (w_heap w') = Some ()" "fm_queues fifo_rep w' m ws' rs" "set ws' = insert a S" "wf_state (w_heap w' a) = ?st" by blast
    then have "condition_wait_step unlock m s = Some (s\<lparr>wt_world := w', wt_pc := Wt_suspended\<rparr>)"
      using Wt_push act(1) by (simp add: step)
    moreover have "wait_inv held m a S rs (s\<lparr>wt_world := w', wt_pc := Wt_suspended\<rparr>)"
      by (rule wait_invI [OF I p(3)]) (use at ns p Wt_push in \<open>auto simp: step\<close>)
    ultimately show ?thesis by blast
  qed (use I pc act at ns Q in \<open>auto simp: step wait_inv_def count_list_0_iff waits_among_def assert_that_def\<close>)
qed

text \<open>The other threads.\<close>

lemma notified_ok:
  assumes I: "wait_inv held m a S rs s" and l: "cv_splk (wt_cv s) = UNLOCKED" "cv_splk cv = UNLOCKED"
    and ns: "cv_waiting (wt_cv s) = ns @ cv_waiting cv"
  shows "wait_inv held m a S rs (s\<lparr>wt_cv := cv, wt_taken := wt_taken s @ ns\<rparr>)"
  using assms unfolding wait_inv_def wait_at_def wt_queue_def Let_def by (auto split: wait_pc.splits if_splits)

lemma made_ready_ok:
  assumes I: "wait_inv held m a S rs s" and n: "n \<in> set (wt_taken s)"
  shows "\<exists>w. fb_set_ready n (wt_world s) = Some w \<and>
     wait_inv held m a S rs (s\<lparr>wt_world := w, wt_taken := remove1 n (wt_taken s)\<rparr>)"
proof (cases "n = Worker a \<and> wt_pc s \<noteq> Wt_suspended")
  case True
  obtain ws where Q: "fm_queues fifo_rep (wt_world s) m ws rs" "set ws = S"
    using I True by (auto simp: wait_inv_def wt_queue_def)
  have out: "a \<notin> set ws" "a \<notin> set rs" using I Q(2) by (auto simp: wait_inv_def)
  have "wt_owed a s \<noteq> 0" using n True by (simp add: count_list_0_iff)
  then have pc: "wt_pc s = Wt_push" "off_queue (w_heap (wt_world s) a) WAITING"
    "wt_listed a s = 0" "wt_owed a s = 1" "cv_splk (wt_cv s) = UNLOCKED"
    using I True by (auto simp: wait_inv_def wait_at_def Let_def split: wait_pc.splits if_splits)
  let ?w = "mark_ready a (wt_world s)"
  have "fb_set_ready n (wt_world s) = Some ?w"
    using True pc(2) by (simp add: fb_set_ready_def set_ready_outside off_queue_def unqueued_def)
  moreover have "fm_queues fifo_rep ?w m ws rs"
    unfolding mark_ready_def by (rule rr.queues_update_outside [OF Q(1) out])
  then have "wait_inv held m a S rs (s\<lparr>wt_world := ?w, wt_taken := remove1 n (wt_taken s)\<rparr>)"
    by (rule wait_invI [OF I])
      (use I Q pc True count_list_remove1 [OF n] in \<open>auto simp: wait_inv_def wait_at_def wt_queue_def off_queue_def
        unqueued_def has_coro_def mark_ready_def dest: notin_set_remove1\<close>)
  ultimately show ?thesis by blast
next
  case False
  obtain ws where Q: "fm_queues fifo_rep (wt_world s) m ws rs" "set ws = wt_queue a S s"
    using I by (auto simp: wait_inv_def)
  have "waits_among (insert a S) n" using I n by (auto simp: wait_inv_def)
  then have "waits_among (set ws) n" using False Q(2)
    by (cases n) (auto simp: waits_among_def wt_queue_def)
  from fb_set_ready_among [OF Q(1) this] obtain w ws' where w: "fb_set_ready n (wt_world s) = Some w"
    "fm_queues fifo_rep w m ws' rs" "set ws' = set ws" "\<forall>x. x \<notin> set ws \<longrightarrow> w_heap w x = w_heap (wt_world s) x"
    "\<forall>x. wf_state (w_heap w x) = (if n = Worker x then READY else wf_state (w_heap (wt_world s) x))" by blast
  have off: "w_heap w a = w_heap (wt_world s) a" if "wt_pc s \<noteq> Wt_suspended"
    using w(4) Q(2) that I by (auto simp: wt_queue_def wait_inv_def)
  have "wait_at held a S (s\<lparr>wt_world := w, wt_taken := remove1 n (wt_taken s)\<rparr>)"
    using I off w(5) False count_list_remove1 [OF n] n
    by (cases "wt_pc s") (auto simp: wait_inv_def wait_at_def Let_def count_list_0_iff)
  moreover have "\<forall>x \<in> set (cv_waiting (wt_cv s)) \<union> set (remove1 n (wt_taken s)). waits_among (insert a S) x"
    using I by (auto simp: wait_inv_def dest: notin_set_remove1)
  ultimately show ?thesis
    using w(1) wait_invI [OF I w(2)] w(3) Q(2) by (auto simp: wt_queue_def)
qed

lemma wait_run_inv:
  assumes "wait_run unlock m s0 s" and "wait_inv held m a S rs s0"
  shows "wait_inv held m a S rs s"
  using assms
proof (induction rule: wait_run.induct)
  case (waiter s s')
  then have "wt_pc s \<noteq> Wt_suspended" by (auto simp: condition_wait_step_def Let_def split: bind_splits)
  with waiter waiter_ok [of m a S rs s] show ?case by auto
next
  case (notify_one s ns cv)
  then show ?case by (intro notified_ok) (auto simp: notify_one_section_def spin_lock_eq_Some split: bind_splits)
next
  case (notify_all s ns cv)
  then show ?case by (intro notified_ok) (auto simp: notify_all_section_def spin_lock_eq_Some split: bind_splits)
next
  case (made_ready s n w)
  with made_ready_ok [of m a S rs s n] show ?case by auto
next
  case (external_lock_used s lt)
  then show ?case unfolding wait_inv_def wait_at_def wt_queue_def Let_def by auto
next
  case (main_registers s k)
  then show ?case unfolding wait_inv_def wait_at_def wt_queue_def Let_def
    by (auto simp: waits_among_def split: wait_pc.splits)
qed

end

section \<open>No notification is lost\<close>







end
