(* ===== verification/Condition_Predicate.thy ===== *)
theory Condition_Predicate
  imports Blocking
begin

text \<open>
  The overloads of \<^verbatim>\<open>condition::wait\<close>, \<^verbatim>\<open>wait_until\<close> and \<^verbatim>\<open>wait_for\<close> that take a predicate
  (\<^verbatim>\<open>condition.hpp\<close>): loops around the overloads without one. A call runs in segments, like the other
  calls that can wait; it begins with the mutex of the caller held.
\<close>

text \<open>
  What the caller shares with those who notify it: the mutex, the condition, and the data the
  predicate reads while it holds the mutex.
\<close>

record 'd guarded =
  gd_mtx :: mutex
  gd_cond :: condition
  gd_data :: 'd

section \<open>Waiting without a deadline\<close>




section \<open>Waiting with a deadline\<close>

definition condition_wait_until_pred ::
  "time_point \<Rightarrow> ('d \<Rightarrow> bool) \<Rightarrow> mfid \<Rightarrow> (bool result, 'd guarded, 's) segment" where
  "condition_wait_until_pred t pred k w m g =
     (if pred (gd_data g) then Some (Done (Inr True), g, w, m)
      else do {
        (mx, cv, w', m') \<leftarrow> ctx_wait_until_enter k (gd_mtx g) t w m (gd_cond g);
        Some (Asleep, g\<lparr>gd_mtx := mx, gd_cond := cv\<rparr>, w', m') })"

text \<open>The inner \<^verbatim>\<open>wait_until\<close> has returned the status \<open>st\<close>, with the mutex held again.\<close>

definition condition_wait_until_pred_status ::
  "cv_status \<Rightarrow> time_point \<Rightarrow> ('d \<Rightarrow> bool) \<Rightarrow> mfid \<Rightarrow> (bool result, 'd guarded, 's) segment" where
  "condition_wait_until_pred_status st t pred k w m g =
     (if timeout = st then Some (Done (Inr (pred (gd_data g))), g, w, m)
      else condition_wait_until_pred t pred k w m g)"



text \<open>\<^verbatim>\<open>wait_for\<close> counts its duration anew in every round.\<close>

definition condition_wait_for_pred ::
  "time_point \<Rightarrow> duration \<Rightarrow> ('d \<Rightarrow> bool) \<Rightarrow> mfid \<Rightarrow> (bool result, 'd guarded, 's) segment" where
  "condition_wait_for_pred now d pred k w m g = condition_wait_until_pred (now + d) pred k w m g"

definition condition_wait_for_pred_status ::
  "cv_status \<Rightarrow> time_point \<Rightarrow> duration \<Rightarrow> ('d \<Rightarrow> bool) \<Rightarrow> mfid \<Rightarrow> (bool result, 'd guarded, 's) segment" where
  "condition_wait_for_pred_status st now d pred k w m g = condition_wait_until_pred_status st (now + d) pred k w m g"

section \<open>Properties\<close>






end
