(* ===== verification/Spec2Isabelle.thy ===== *)
theory Spec2Isabelle
  imports Scheduler_Properties Exceptions Bounded_Queue Void_Erasure Ref_Addresses Work_Stealing Publish_Subscribe Future_System Queue_System Barrier_System Condition_Steps Condition_Predicate
begin

text \<open>
  Boost.Fiber, a library of user-level threads (fibers) that are scheduled cooperatively inside each
  thread, with synchronisation objects and futures that suspend fibers instead of threads. The
  sources are under \<^verbatim>\<open>src/include/boost/fiber\<close> (headers) and \<^verbatim>\<open>src/src\<close>.

  \<^bold>\<open>The program.\<close> Every thread has one scheduler (\<^verbatim>\<open>fiber_manager\<close>), created on first use. It
  keeps the fibers that are ready in the queue of its scheduling algorithm (\<^verbatim>\<open>round_robin\<close> with a
  \<^verbatim>\<open>fifo\<close>, or one the user installs) and all others in a \<^verbatim>\<open>waiting_queue\<close> ordered by deadline. A fiber
  runs until it calls into the library: \<^verbatim>\<open>wait_until\<close>, \<^verbatim>\<open>yield\<close> and \<^verbatim>\<open>join\<close> change its state, put it
  into the waiting queue and switch back to the context that resumed it; \<^verbatim>\<open>run\<close> moves the fibers that
  are due or woken to the algorithm and resumes the one the algorithm picks. Every other part wakes
  fibers by \<^verbatim>\<open>set_ready\<close> and suspends them through the scheduler: the mutexes keep a list of waiting
  \<^verbatim>\<open>fiber_base\<close> objects under a spin lock, a condition variable the same, and barriers, queues and the
  shared states of futures are built from mutexes and conditions. A thread that is in no fiber (its
  main context) registers an object \<^verbatim>\<open>main_fiber\<close> instead and turns the scheduler itself.

  \<^bold>\<open>How it is modelled.\<close> The objects live in explicit stores: \<^verbatim>\<open>world\<close> holds all control blocks
  of fibers by address, all waiting queues, and the flags of the \<^verbatim>\<open>main_fiber\<close> objects; a pointer is an
  address, null is \<open>None\<close>. A member function is a function from the state it reads to the state it
  leaves, in the option monad: \<open>None\<close> means that a \<^verbatim>\<open>BOOST_ASSERT\<close> fails or that the code is undefined
  there (null is dereferenced, \<^verbatim>\<open>end()\<close> is erased). A theorem that says \<open>Some\<close> therefore says that
  nothing of this happens. Exceptions are values of \<open>'a result = exn + 'a\<close>. A function that switches
  to another context is split at the switch: \<open>..._enter\<close> is the part up to it, \<open>..._leave\<close>,
  \<open>..._resumed\<close> or \<open>..._woken\<close> the part after it; calls of queues and shared states are segments
  that end in a \<open>turn\<close> (done, in the line of a mutex, asleep at the condition, in the line of a second
  mutex). What is done under a spin lock is one step; that the spin lock gives this is shown on
  interleavings of its atomic operations. The times the code reads from the clock, and what functions
  of the user do (return, throw, be unwound), are arguments.

  \<^bold>\<open>Theories and code.\<close>
  \<^item> \<^verbatim>\<open>Prelude\<close>: addresses, time points, the assertions of the option monad, lists. \<^verbatim>\<open>Exceptions\<close>:
    \<^verbatim>\<open>exceptions.hpp\<close>, \<^verbatim>\<open>future.cpp\<close>.
  \<^item> \<^verbatim>\<open>Spinlock\<close>: \<^verbatim>\<open>detail/spinlock.hpp\<close> and \<^verbatim>\<open>.cpp\<close>; one thread's view and the step relation of several.
  \<^item> \<^verbatim>\<open>Worker_Fiber\<close>: the control block (\<^verbatim>\<open>detail/worker_fiber.hpp\<close> and \<^verbatim>\<open>.cpp\<close>, \<^verbatim>\<open>detail/fiber_base.hpp\<close>,
    \<^verbatim>\<open>detail/flags.hpp\<close>) with its flags as bits of a word; identities are ordered like addresses.
  \<^item> \<^verbatim>\<open>Intrusive_List\<close>, \<^verbatim>\<open>Fifo\<close>, \<^verbatim>\<open>Waiting_Queue\<close>: \<^verbatim>\<open>detail/fifo.hpp\<close>, \<^verbatim>\<open>detail/waiting_queue.hpp\<close>,
    pointer by pointer, with predicates that say which list of fibers the pointers represent.
  \<^item> \<^verbatim>\<open>Sched_Algorithm\<close>: the table of virtual functions of an algorithm and \<^verbatim>\<open>round_robin.cpp\<close>.
    \<^verbatim>\<open>Fiber_Manager\<close>: \<^verbatim>\<open>fiber_manager.hpp\<close> and \<^verbatim>\<open>.cpp\<close>. \<^verbatim>\<open>Scheduler_Instance\<close>: \<^verbatim>\<open>detail/scheduler.hpp\<close> and
    the free functions that reach it, the destructor of a scheduler. \<^verbatim>\<open>Work_Stealing\<close>: the algorithm of
    \<^verbatim>\<open>examples/workstealing_round_robin.cpp\<close> over \<^verbatim>\<open>examples/workstealing_queue.hpp\<close>.
  \<^item> \<^verbatim>\<open>Wake_Up\<close>, \<^verbatim>\<open>Scheduling\<close>: what one turn and every way of giving up control do to the two queues.
    \<^verbatim>\<open>Thread_System\<close>: a thread with its fibers as a transition system over the requests they make;
    \<^verbatim>\<open>Sleepers\<close>: what a request leaves alone. \<^verbatim>\<open>Scheduler_Properties\<close>: what follows for users.
  \<^item> \<^verbatim>\<open>Mutex_System\<close> adds the calls on mutexes to the requests, \<^verbatim>\<open>Condition_System\<close> those on condition
    variables, and on top of that \<^verbatim>\<open>Future_System\<close> those on the shared states of futures,
    \<^verbatim>\<open>Queue_System\<close> those on unbounded queues and \<^verbatim>\<open>Barrier_System\<close> those on barriers: a thread whose fibers share these objects, each call
    composed of the same definitions as the code composes it, with rules that say which calls are
    permitted and an invariant over all histories.
  \<^item> \<^verbatim>\<open>Fiber\<close> (\<^verbatim>\<open>fiber.hpp\<close>, \<^verbatim>\<open>fiber.cpp\<close>, \<^verbatim>\<open>detail/trampoline.hpp\<close>, \<^verbatim>\<open>detail/setup.hpp\<close>), \<^verbatim>\<open>Fiber_Specific\<close>
    (\<^verbatim>\<open>fss.hpp\<close>), \<^verbatim>\<open>Interruption\<close> (\<^verbatim>\<open>interruption.cpp\<close>, \<^verbatim>\<open>operations.hpp\<close>).
  \<^item> \<^verbatim>\<open>Lockable\<close>, \<^verbatim>\<open>Mutex\<close>, \<^verbatim>\<open>Recursive_Mutex\<close>: the four mutex classes. \<^verbatim>\<open>Condition\<close>: \<^verbatim>\<open>condition.hpp\<close> and
    \<^verbatim>\<open>.cpp\<close>; \<^verbatim>\<open>Condition_Predicate\<close>: its overloads with a predicate; \<^verbatim>\<open>Condition_Steps\<close>: \<^verbatim>\<open>wait\<close> statement
    by statement against notifications from other threads. \<^verbatim>\<open>Blocking\<close>: calls by fibers and by main contexts
    alike. \<^verbatim>\<open>Barrier\<close>: \<^verbatim>\<open>barrier.hpp\<close> and \<^verbatim>\<open>.cpp\<close>.
  \<^item> \<^verbatim>\<open>Queue_Chain\<close>, \<^verbatim>\<open>Unbounded_Queue\<close>, \<^verbatim>\<open>Bounded_Queue\<close>: the two queues and their specialisations for
    pointers.
  \<^item> \<^verbatim>\<open>Result_Cell\<close>, \<^verbatim>\<open>Shared_State\<close>, \<^verbatim>\<open>Future\<close>, \<^verbatim>\<open>Promise\<close>, \<^verbatim>\<open>Packaged_Task\<close>: the directory \<^verbatim>\<open>future\<close>, the
    versions of the templates for a value type \<^verbatim>\<open>R\<close>, which is a type variable. \<^verbatim>\<open>Void_Future\<close> and
    \<^verbatim>\<open>Ref_Future\<close>: the versions for \<^verbatim>\<open>void\<close> and \<^verbatim>\<open>R &\<close>, which the sources write out once more, over a state
    without value and over one with an address. \<^verbatim>\<open>Future_Calls\<close>: what clients of all these classes call
    and see; \<^verbatim>\<open>Void_Erasure\<close> and \<^verbatim>\<open>Ref_Addresses\<close>: that the versions agree on it.
  \<^item> \<^verbatim>\<open>Asio_Integration\<close>: the adaptors under \<^verbatim>\<open>examples/asio\<close> by which a fiber waits for an asynchronous
    operation (\<^verbatim>\<open>detail/spawn.hpp\<close>, \<^verbatim>\<open>detail/yield.hpp\<close>, \<^verbatim>\<open>detail/use_future.hpp\<close>, \<^verbatim>\<open>loop.hpp\<close>).
    \<^verbatim>\<open>Publish_Subscribe\<close>: the server \<^verbatim>\<open>examples/asio/publish_subscribe/server.cpp\<close> with its registry of
    channels and the sessions of its clients. Boost.Asio itself is a parameter: what it reads, writes
    and reports are arguments.

  \<^bold>\<open>Interfaces.\<close> \<open>sched_contract\<close> is what the scheduler relies on in an algorithm: it keeps
  every fiber it is given, gives each out once, and touches only the links of the fibers it holds;
  \<open>fifo_sched_contract\<close> adds the order. All results about the scheduler are proved from them and hold
  for \<open>round_robin\<close> (\<open>rr\<close>) and for work stealing (\<open>wsa\<close>). \<open>lockable\<close> and
  \<open>recursive_lockable\<close> are the contracts of the four mutexes (\<open>mtx\<close>, \<open>tmx\<close>, \<open>rmx\<close>, \<open>rtmx\<close>);
  \<open>basic_lockable\<close> is what \<^verbatim>\<open>condition::wait\<close> needs of its lock type (\<open>lt_mutex\<close>, \<open>lt_recursive_mutex\<close>).
  \<open>channel\<close> is first in, first out, kept by both queues (\<open>uqc\<close>, \<open>bqc\<close>). \<open>result_cell\<close> is a cell that
  takes one result; \<open>ss_version\<close>, what the versions of a shared state have in common, implements it
  (\<open>ssr\<close>, \<open>ssv\<close>). \<open>state_pred\<close> is a property of shared states that every step of a call keeps, and
  that therefore all clients' calls keep: that a ready state has a result (\<open>fl\<close>) and that only
  addresses that were handed in come out (\<open>wi\<close>). The invariants of the mutexes, conditions, futures,
  queues and barriers of a thread are proved inside \<open>sched_contract\<close>, so they hold for every algorithm that
  keeps it.

  \<^bold>\<open>What is shown.\<close>
  \<^item> Scheduler: from every reachable state every permitted request is carried out, no assertion
    fails; every fiber is in exactly one place; the waiting queue holds the ready fibers in front, then
    the stable sort of the deadlines; a turn wakes the due fibers up to the first that is not due and
    resumes the one that was ready first; round robin is fair; \<^verbatim>\<open>join\<close> returns when the other fiber has
    ended, unless the caller is interrupted, which fails an assertion; stealing moves a fiber between schedulers without
    losing it.
  \<^item> Synchronisation: mutual exclusion in every history of calls (for recursive mutexes between
    different identities, since all main contexts share one), nesting depths, who is woken; no
    notification is lost between releasing the mutex and sleeping, however the statements of
    \<^verbatim>\<open>wait\<close> and of notifying threads interleave; \<^verbatim>\<open>wait\<close> with a predicate returns with the predicate true
    and the mutex held.
    For a whole thread whose fibers share any number of mutexes and conditions: no assertion of
    scheduler, mutex or condition fails, the line of a mutex is never forgotten (its holder lives, or
    somebody is on his way to take it), and a fiber inside \<^verbatim>\<open>wait\<close> sleeps in line or comes back.
    Barriers shared by at most their initial number of fibers open exactly when a round is complete
    and let everybody go.
  \<^item> Queues: order and completeness, the bound and the exact counter of the bounded queue, what every
    branch of \<^verbatim>\<open>push\<close> and \<^verbatim>\<open>pop\<close> does; the hand-over of a value through queue, condition and scheduler
    (below). For a whole thread whose fibers share unbounded queues: no call fails, what comes out is
    what went in, in order, and no value is left behind while consumers sleep. Between two threads
    the last is not so, which is shown as well.
  \<^item> Futures: the first result wins, a shared state is alive exactly as long as a handle refers to
    it, values, exceptions and broken promises reach the futures; for every sequence of calls the
    \<^verbatim>\<open>void\<close> versions do what the general ones do, with the values forgotten, and the versions for
    references do with addresses what the general ones do with values, handing out the very objects
    that were handed in. For a whole thread: no call fails, nobody waits for a result that is
    there, and the first result reaches everybody who asks.
  \<^item> Examples: a fiber that waits for an operation of Boost.Asio is resumed with its result; the
    registry of the server refines its specification, a message travels from publisher to client, and
    whatever a publisher reads fits, with the NUL behind it, into the buffers of all subscribers.
  \<^item> Where the code does not do what it means to, the theorem shows what it does: among others \<^verbatim>\<open>pop\<close>
    of a bounded queue with its test the wrong way round, pops of pointers that lose the pointer, a
    wake-up lost between the two mutexes of a queue, a shared state that keeps an old exception over
    \<^verbatim>\<open>reset\<close>, watermarks of a bounded queue that act differently from their documentation, a barrier that leaves a fiber behind, \<^verbatim>\<open>insert\<close> used to overwrite a value, undefined erasures after a late wake-up.

  \<^bold>\<open>Bounds and loops.\<close> \<^verbatim>\<open>std::size_t\<close> is a 64-bit word: the depth of a recursive mutex, the
  count of a barrier and of a bounded queue and the reference counts wrap as in the code; the theorems
  that need it say that fewer than \<open>2 ^ 64\<close> references or nestings exist. Time points are unbounded
  integers up to \<open>time_point_max\<close>: that \<^verbatim>\<open>now + d\<close> overflows the 64-bit representation is outside the
  model. A loop around a call that suspends, such as that over a predicate, is a segment that runs up
  to the next suspension and one that goes on from there. Loops over the links of a queue and the
  destructor of a scheduler can fail to end on bad data or because of the user; they are partial
  functions in the option monad, and the theorems about them say that they return. No fuel is used.

  \<^bold>\<open>Not modelled.\<close> The switch of stacks itself is Boost.Coroutine, which is not part of the
  sources: a control block only records whether it has a coroutine. Stack attributes and allocators
  are aliases for its types. Memory allocation does not fail; allocators of the user, the reference
  counts of queue nodes and of clean-up functions only decide when memory is given back. Other threads
  act on the shared objects between the steps of the model; the interleavings inside a step are
  those of the spin lock, and for \<^verbatim>\<open>condition::wait\<close> those of its statements. A fiber that spins on a
  spin lock yields to the scheduler; the systems have no such fiber, since their histories never meet
  a lock that is held. A null \<^verbatim>\<open>exception_ptr\<close> is not passed to \<^verbatim>\<open>set_exception\<close>; a move assignment of the
  user that throws leaves its source as it was; the assignment of a \<^verbatim>\<open>future\<close> to a \<^verbatim>\<open>shared_future\<close> is
  that of the C++03 emulation of moves, the only one that compiles; the control block of a fiber does
  not record the function it runs, so \<^verbatim>\<open>async\<close> returns the task beside the fiber that owns it. Boost.Asio is outside of the sources. The other example programs and the
  benchmarks only use, print and measure.

  \<^bold>\<open>Limits of the systems.\<close> The rules of \<open>Mutex_System\<close> and of the theories on top of it exclude main
  contexts that wait, waits with a deadline on their objects, and interruptions of fibers inside
  calls, because with them the code can fail, as shown in \<open>Mutex\<close>, \<open>Mutex_System\<close> and \<open>Condition\<close>; the
  calls themselves are modelled for these callers, too. The bounded queue has no system of its own:
  its \<^verbatim>\<open>pop\<close> is undefined on an open empty queue. The systems have one thread; what several
  threads do to each other is shown where it matters (the spin lock, \<^verbatim>\<open>condition::wait\<close>, stealing, the
  lost wake-up of a queue), not as one transition system, since \<^verbatim>\<open>wait_until\<close> releases the spin lock before the
  fiber is in the waiting queue and another thread can act in between.
\<close>

section \<open>Components together\<close>

text \<open>A consumer that has been resumed takes the value that is in the queue.\<close>

lemma uq_pop_woken_value:
  assumes "uq_rep q (x # xs) fs" and "fm_active m = Some a" and "interruption_point w m = Some (Inr (), w)"
  shows "\<exists>q'. uq_pop_woken (uq_take None) k w m q = Some (Done (Inr (queue_success, Some x)), q', w, m) \<and> uq_rep q' xs fs"
proof -
  note R = uq_repD [OF assms(1)]
  let ?q = "q\<lparr>uq_head_mtx := mutex_taken (this_get_id m)\<rparr>"
  have same: "q\<lparr>uq_not_empty := uq_not_empty q\<rparr> = q" by (cases q) simp
  have "uq_pop_woken (uq_take None) k w m q = uq_pop_loop (uq_pop_sleep k) (uq_take None) k w m ?q"
    using assms(2,3) R(2)
    by (simp add: uq_pop_woken_def condition_wait_resumed_def same uq_pop_with_def uq_lock_head_free)
  with uq_take_locked [of ?q x xs m "uq_pop_sleep k" k w] R assms(2) show ?thesis
    by (auto simp: uq_rep_def)
qed

text \<open>
  C19: a value travels from a producer through the queue, the condition variable and the scheduler to
  the consumer that waits for it. A fiber that pops an empty queue goes to sleep; when the main
  context then pushes a value the fiber is made ready, the next turn of the scheduler resumes it if
  no other fiber was ready before, and, unless it has been interrupted, its call returns with
  exactly that value, and the queue is empty again.
\<close>

theorem queue_handoff:
  assumes "uq_rep q [] []" and "uq_state q = OPEN" and "fm_running w m a" and "fm_queues fifo_rep w m ws []"
  shows "\<exists>q1 w1 q2 w2 w3 m3.
     unbounded_queue_pop None k w m q = Some (Asleep, q1, w1, m) \<and>
     unbounded_queue_push None v k' w1 (m\<lparr>fm_active := None\<rparr>) q1 =
       Some (Done (Inr queue_success), q2, w2, m\<lparr>fm_active := None\<rparr>) \<and>
     fm_run round_robin_algo now now' w2 (m\<lparr>fm_active := None\<rparr>) = Some (Resumed a None, w3, m3) \<and>
     (interruption_point w3 m3 = Some (Inr (), w3) \<longrightarrow>
       (\<exists>q3. uq_pop_woken (uq_take None) k w3 m3 q2 = Some (Done (Inr (queue_success, Some v)), q3, w3, m3) \<and>
         uq_rep q3 [] []))"
proof -
  let ?m = "m\<lparr>fm_active := None\<rparr>"
  from unbounded_queue_pop_spec [OF assms(1,3,4), of k] assms(2) obtain q1 w1 where pop:
    "unbounded_queue_pop None k w m q = Some (Asleep, q1, w1, m)" "uq_rep q1 [] [a]" "uq_state q1 = OPEN"
    "fm_queues fifo_rep w1 m (ws @ [a]) []" by auto
  have Q1: "fm_queues fifo_rep w1 ?m (ws @ [a]) []" using pop(4) by (simp add: fm_queues_def)
  from unbounded_queue_push_spec [OF pop(2) Q1, of v k'] pop(3) obtain q2 w2 where push:
    "unbounded_queue_push None v k' w1 ?m q1 = Some (Done (Inr queue_success), q2, w2, ?m)" "uq_rep q2 [v] []"
    "fm_queues fifo_rep w2 ?m (a # remove1 a (ws @ [a])) []" "is_ready (w_heap w2) a" by auto
  from woken_is_resumed [OF push(3,4), of now now'] obtain w3 m3 where run:
    "fm_run round_robin_algo now now' w2 ?m = Some (Resumed a None, w3, m3)" "fm_running w3 m3 a" by auto
  have "fm_active m3 = Some a" using run(2) by (simp add: fm_running_def)
  with uq_pop_woken_value [OF push(2)] pop(1) push(1) run(1) show ?thesis by blast
qed

theorem queue_handoff_witness:
  "\<exists>q1 w1 q2 w2 w3 m3 q3.
     unbounded_queue_pop None 0 (sy_world demo_sys4) (sy_mgr demo_sys4) (unbounded_queue_ctor :: nat unbounded_queue) =
       Some (Asleep, q1, w1, sy_mgr demo_sys4) \<and>
     unbounded_queue_push None 7 1 w1 ((sy_mgr demo_sys4)\<lparr>fm_active := None\<rparr>) q1 =
       Some (Done (Inr queue_success), q2, w2, (sy_mgr demo_sys4)\<lparr>fm_active := None\<rparr>) \<and>
     fm_run round_robin_algo 5 6 w2 ((sy_mgr demo_sys4)\<lparr>fm_active := None\<rparr>) = Some (Resumed 1 None, w3, m3) \<and>
     uq_pop_woken (uq_take None) 0 w3 m3 q2 = Some (Done (Inr (queue_success, Some 7)), q3, w3, m3)"
proof -
  have "uq_state (unbounded_queue_ctor :: nat unbounded_queue) = OPEN" by (simp add: unbounded_queue_ctor_def)
  from queue_handoff [OF uq_ctor_rep this demo_sys4_queues(2,1), of 0 7 1 5 6] obtain q1 w1 q2 w2 w3 m3 where h:
    "unbounded_queue_pop None 0 (sy_world demo_sys4) (sy_mgr demo_sys4) (unbounded_queue_ctor :: nat unbounded_queue) =
       Some (Asleep, q1, w1, sy_mgr demo_sys4)"
    "unbounded_queue_push None 7 1 w1 ((sy_mgr demo_sys4)\<lparr>fm_active := None\<rparr>) q1 =
       Some (Done (Inr queue_success), q2, w2, (sy_mgr demo_sys4)\<lparr>fm_active := None\<rparr>)"
    "fm_run round_robin_algo 5 6 w2 ((sy_mgr demo_sys4)\<lparr>fm_active := None\<rparr>) = Some (Resumed 1 None, w3, m3)"
    "interruption_point w3 m3 = Some (Inr (), w3) \<longrightarrow>
       (\<exists>q3. uq_pop_woken (uq_take None) 0 w3 m3 q2 = Some (Done (Inr (queue_success, Some 7)), q3, w3, m3) \<and>
         uq_rep q3 [] [])" by blast
  have "(do {
      (t1, q1, w1, m1) \<leftarrow> unbounded_queue_pop None 0 (sy_world demo_sys4) (sy_mgr demo_sys4)
        (unbounded_queue_ctor :: nat unbounded_queue);
      (t2, q2, w2, m2) \<leftarrow> unbounded_queue_push None 7 1 w1 ((sy_mgr demo_sys4)\<lparr>fm_active := None\<rparr>) q1;
      (c, w3, m3) \<leftarrow> fm_run round_robin_algo 5 6 w2 ((sy_mgr demo_sys4)\<lparr>fm_active := None\<rparr>);
      map_option fst (interruption_point w3 m3) }) = Some (Inr ())"
    by code_simp
  then have "map_option fst (interruption_point w3 m3) = Some (Inr ())" using h(1-3) by simp
  then have "interruption_point w3 m3 = Some (Inr (), w3)" using interruption_point_passed by fastforce
  with h show ?thesis by blast
qed

end
